(* ===== verification/Prelude.thy ===== *)
theory Prelude
  imports Main "HOL-Library.Word"
begin

text \<open>
  What every component shares: the machine types of the rv32 clusters, C's counting
  loops, word arithmetic facts, rounding up to a cache line, and the collections the
  component theories put their facts into.
\<close>

unbundle bit_operations_syntax

type_synonym u8 = "8 word"
type_synonym u16 = "16 word"
type_synonym u32 = "32 word"
type_synonym u64 = "64 word"

named_theorems hes_const "definitions of the constants of hes\<open>_\<close>system.h"
named_theorems layout "address arithmetic and region separation"
named_theorems frame "what an operation leaves unchanged"

section \<open>Reading words as numbers\<close>

lemma unat_of_nat_lt: "i < unat (n::u32) \<Longrightarrow> unat (of_nat i :: u32) = i"
  by (metis le_unat_uoi less_imp_le)

lemma unat_u32_lt: "unat (n::u32) < 4294967296"
proof -
  have "unat n < 2 ^ LENGTH(32)" by (rule unsigned_less)
  then show ?thesis by simp
qed

lemma unat_of_nat_small: "i < 4294967296 \<Longrightarrow> unat (of_nat i :: u32) = i"
  by (simp add: unat_of_nat take_bit_nat_eq_self_iff)

lemma unat_plus_small:
  "unat (a::u32) + unat b < 4294967296 \<Longrightarrow> unat (a + b) = unat a + unat b"
  by (simp add: unat_word_ariths)

lemma unat_mult_small:
  "unat (a::u32) * unat b < 4294967296 \<Longrightarrow> unat (a * b) = unat a * unat b"
  by (simp add: unat_word_ariths)

lemma no_wrap_le: "unat (a::u32) + unat b < 4294967296 \<Longrightarrow> a \<le> a + b"
  by (simp add: word_le_nat_alt unat_plus_small)

section \<open>C's counting loop\<close>

text \<open>
  \<open>for (uint32_t i = lo; i < hi; i++) body\<close> over a state. The counter never passes
  \<open>hi\<close>, so it cannot wrap, and the body sees it as a 32-bit value.
\<close>

definition for_u32 :: "u32 \<Rightarrow> u32 \<Rightarrow> (u32 \<Rightarrow> 's \<Rightarrow> 's) \<Rightarrow> 's \<Rightarrow> 's" where
  "for_u32 lo hi body s = fold (\<lambda>i. body (of_nat i)) [unat lo..<unat hi] s"

lemma for_u32_empty [simp]: "hi \<le> lo \<Longrightarrow> for_u32 lo hi body s = s"
  by (simp add: for_u32_def word_le_nat_alt)

lemma for_u32_zero: "for_u32 0 n body s = fold (\<lambda>i. body (of_nat i)) [0..<unat n] s"
  by (simp add: for_u32_def)

lemma for_u32_zero_fun: "for_u32 0 n body = fold (\<lambda>i. body (of_nat i)) [0..<unat n]"
  by (rule ext) (rule for_u32_zero)

lemma for_u32_step:
  assumes "lo < hi"
  shows "for_u32 lo hi body s = for_u32 (lo + 1) hi body (body lo s)"
proof -
  have u: "unat (lo + 1) = Suc (unat lo)"
    using assms unat_u32_lt [of hi] unat_plus_small [of lo 1]
    by (simp add: word_less_nat_alt)
  have "[unat lo..<unat hi] = unat lo # [Suc (unat lo)..<unat hi]"
    using assms by (simp add: upt_conv_Cons word_less_nat_alt)
  then show ?thesis by (simp add: for_u32_def u)
qed

lemma fold_inv:
  "P s \<Longrightarrow> (\<And>x s. x \<in> set xs \<Longrightarrow> P s \<Longrightarrow> P (f x s)) \<Longrightarrow> P (fold f xs s)"
  by (induction xs arbitrary: s) auto

lemma fold_upt_inv:
  assumes "I 0 s" and "\<And>i s. i < n \<Longrightarrow> I i s \<Longrightarrow> I (Suc i) (f i s)"
  shows "I n (fold f [0..<n] s)"
  using assms(2)
proof (induction n)
  case 0
  show ?case using assms(1) by simp
next
  case (Suc n)
  then show ?case by simp
qed

lemma fold_id [simp]: "(\<And>x. x \<in> set xs \<Longrightarrow> f x = id) \<Longrightarrow> fold f xs s = s"
  by (induction xs arbitrary: s) auto

lemma fold_same: "(\<And>x s. x \<in> set xs \<Longrightarrow> f x s = g x s) \<Longrightarrow> fold f xs a = fold g xs a"
  by (induction xs arbitrary: a) auto

lemma fold_concat: "fold f (concat xss) s = fold (\<lambda>xs. fold f xs) xss s"
  by (induction xss arbitrary: s) auto

section \<open>Rounding up to a cache line\<close>

text \<open>\<open>(x + 63u) & ~63u\<close>, how the cluster runtime aligns every buffer it carves.\<close>

definition align64 :: "u32 \<Rightarrow> u32" where
  "align64 x = (x + 63) AND NOT 63"

lemma and_not_63: "(x::u32) AND NOT 63 = push_bit 6 (drop_bit 6 x)"
proof -
  have m: "(63::u32) = mask 6" by (simp add: mask_eq_exp_minus_1)
  show ?thesis
    unfolding m by (rule bit_word_eqI) (auto simp: bit_simps)
qed

lemma unat_and_not_63: "unat ((x::u32) AND NOT 63) = unat x div 64 * 64"
proof -
  have d: "unat (drop_bit 6 x) = unat x div 64"
    by (simp add: drop_bit_eq_div unat_div)
  have "unat x div 64 * 64 < 4294967296"
    using unat_u32_lt [of x] by linarith
  with d have "unat (drop_bit 6 x * 64) = unat x div 64 * 64"
    by (simp add: unat_mult_small)
  then show ?thesis unfolding and_not_63 push_bit_eq_mult by simp
qed

lemma align64_aligned [layout]: "unat (align64 x) mod 64 = 0"
  unfolding align64_def unat_and_not_63 by simp

lemma unat_align64:
  assumes "unat x + 63 < 4294967296"
  shows "unat (align64 x) = (unat x + 63) div 64 * 64"
  using assms unfolding align64_def unat_and_not_63 by (simp add: unat_plus_small)

lemma align64_ge:
  assumes "unat x + 63 < 4294967296"
  shows "x \<le> align64 x" and "unat (align64 x) \<le> unat x + 63"
  using unat_align64 [OF assms] by (auto simp: word_le_nat_alt)

lemma round_up_multiple: "((64 * q + 63) div 64) * 64 = (64::nat) * q"
  by simp

lemma align64_id:
  assumes a: "unat x mod 64 = 0" and b: "unat x + 63 < 4294967296"
  shows "align64 x = x"
proof -
  from a obtain q where q: "unat x = 64 * q" by (auto simp: mod_eq_0_iff_dvd dvd_def)
  with unat_align64 [OF b] have "unat (align64 x) = unat x"
    by (simp only: q round_up_multiple)
  then show ?thesis by (simp add: word_unat_eq_iff)
qed

end
