(* ===== verification/CMem.thy ===== *)
theory CMem
  imports Prelude "HOL-Library.Multiset"
begin

text \<open>
  The one 32-bit physical address space host and clusters share, as a total map from byte
  addresses to bytes: main memory at \<open>0x8000_0000\<close>, the TCDMs below it. Loads and
  stores are little-endian, as rv32 is. A \<open>span\<close> is a run of bytes; the facts here say
  which loads a store or a copy leaves alone, and that stores to disjoint words commute.
\<close>

type_synonym mem = "u32 \<Rightarrow> u8"

section \<open>Loads and stores\<close>

definition ld16 :: "mem \<Rightarrow> u32 \<Rightarrow> u16" where
  "ld16 m a = ucast (m a) OR push_bit 8 (ucast (m (a + 1)))"

definition ld32 :: "mem \<Rightarrow> u32 \<Rightarrow> u32" where
  "ld32 m a = ucast (m a) OR push_bit 8 (ucast (m (a + 1)))
     OR push_bit 16 (ucast (m (a + 2))) OR push_bit 24 (ucast (m (a + 3)))"

definition st32 :: "mem \<Rightarrow> u32 \<Rightarrow> u32 \<Rightarrow> mem" where
  "st32 m a v = m(a := ucast v, a + 1 := ucast (drop_bit 8 v),
     a + 2 := ucast (drop_bit 16 v), a + 3 := ucast (drop_bit 24 v))"

lemma word_of_bytes:
  fixes v :: u32
  shows "ucast (ucast v :: u8) OR push_bit 8 (ucast (ucast (drop_bit 8 v) :: u8) :: u32)
     OR push_bit 16 (ucast (ucast (drop_bit 16 v) :: u8) :: u32)
     OR push_bit 24 (ucast (ucast (drop_bit 24 v) :: u8) :: u32) = v"
proof (rule bit_word_eqI)
  fix n assume "n < LENGTH(32)"
  then have "n < 32" by simp
  then consider "n < 8" | "8 \<le> n \<and> n < 16" | "16 \<le> n \<and> n < 24" | "24 \<le> n \<and> n < 32"
    by linarith
  then show "bit (ucast (ucast v :: u8) OR push_bit 8 (ucast (ucast (drop_bit 8 v) :: u8) :: u32)
     OR push_bit 16 (ucast (ucast (drop_bit 16 v) :: u8) :: u32)
     OR push_bit 24 (ucast (ucast (drop_bit 24 v) :: u8) :: u32)) n = bit v n"
    by cases (auto simp: bit_simps)
qed

lemma byte_offs [simp]:
  "(a::u32) + 1 \<noteq> a" "a + 2 \<noteq> a" "a + 3 \<noteq> a" "a \<noteq> a + 1" "a \<noteq> a + 2" "a \<noteq> a + 3"
  "a + 1 \<noteq> a + 2" "a + 1 \<noteq> a + 3" "a + 2 \<noteq> a + 3"
  "a + 2 \<noteq> a + 1" "a + 3 \<noteq> a + 1" "a + 3 \<noteq> a + 2"
  by simp_all

lemma ld32_st32_same [simp]: "ld32 (st32 m a v) a = v"
  by (simp add: ld32_def st32_def word_of_bytes)

section \<open>Spans\<close>

definition span :: "u32 \<Rightarrow> nat \<Rightarrow> u32 set" where
  "span p n = (\<lambda>i. p + of_nat i) ` {..<n}"

lemma span_mono: "n \<le> k \<Longrightarrow> span p n \<subseteq> span p k"
  by (auto simp: span_def)

lemma span_0 [simp]: "span p 0 = {}"
  by (simp add: span_def)

lemma span_off: "k + l \<le> n \<Longrightarrow> span (p + of_nat k) l \<subseteq> span p n"
proof
  fix x assume a: "k + l \<le> n" and "x \<in> span (p + of_nat k) l"
  then obtain i where "i < l" "x = p + of_nat (k + i)"
    by (auto simp: span_def algebra_simps)
  with a show "x \<in> span p n" by (auto simp: span_def intro!: image_eqI [where x = "k + i"])
qed

lemma mem_span:
  assumes "n \<le> 4294967296"
  shows "x \<in> span p n \<longleftrightarrow> unat (x - p) < n"
proof
  assume "x \<in> span p n"
  then obtain i where i: "i < n" "x = p + of_nat i" by (auto simp: span_def)
  with assms show "unat (x - p) < n" by (simp add: unat_of_nat_small)
next
  assume "unat (x - p) < n"
  then show "x \<in> span p n"
    by (auto simp: span_def intro!: image_eqI [where x = "unat (x - p)"])
qed

lemma span_4: "span a 4 = {a, a + 1, a + 2, a + 3}"
proof -
  have "{..<4::nat} = {0, 1, 2, 3}" by auto
  then show ?thesis by (simp add: span_def)
qed

lemma span_disjoint:
  assumes "n \<le> unat (q - p)" and "k \<le> unat (p - q)"
  shows "span p n \<inter> span q k = {}"
proof (rule ccontr)
  assume "span p n \<inter> span q k \<noteq> {}"
  then obtain i j where i: "i < n" and j: "j < k" and e: "p + of_nat i = q + of_nat j"
    by (auto simp: span_def)
  from e have d: "q - p = of_nat i - of_nat j" "p - q = of_nat j - of_nat i"
    by (simp_all add: algebra_simps)
  have i32: "i < 4294967296" and j32: "j < 4294967296"
    using i j assms unat_u32_lt [of "q - p"] unat_u32_lt [of "p - q"] by linarith+
  show False
  proof (cases "j \<le> i")
    case True
    then have "q - p = of_nat (i - j)" by (simp add: d of_nat_diff)
    with i32 have "unat (q - p) = i - j" by (simp add: unat_of_nat_small)
    with assms(1) i show False by linarith
  next
    case False
    then have "p - q = of_nat (j - i)" by (simp add: d of_nat_diff)
    with j32 have "unat (p - q) = j - i" by (simp add: unat_of_nat_small)
    with assms(2) j show False by linarith
  qed
qed

text \<open>Element \<open>i\<close> of an array of 32-bit words.\<close>

lemma elem_span: "i < n \<Longrightarrow> span (p + 4 * of_nat i) 4 \<subseteq> span p (4 * n)"
  using span_off [of "4 * i" 4 "4 * n" p] by simp

lemma elem_disjoint:
  assumes "i < n" "j < n" "i \<noteq> j" "4 * n \<le> 4294967296"
  shows "span (p + 4 * of_nat i) 4 \<inter> span (p + 4 * of_nat j) 4 = {}"
proof (rule ccontr)
  assume "span (p + 4 * of_nat i) 4 \<inter> span (p + 4 * of_nat j) 4 \<noteq> {}"
  then obtain s t where st: "s < 4" "t < 4"
    and "p + 4 * of_nat i + of_nat s = p + 4 * of_nat j + of_nat t"
    by (auto simp: span_def)
  then have e: "(of_nat (4 * i + s) :: u32) = of_nat (4 * j + t)" by simp
  have "4 * i + s < 4294967296" "4 * j + t < 4294967296" using assms st by linarith+
  with e have "4 * i + s = 4 * j + t" by (metis unat_of_nat_small)
  with st assms(3) show False by linarith
qed

section \<open>Frames\<close>

lemma st32_outside [frame]: "x \<notin> span a 4 \<Longrightarrow> st32 m a v x = m x"
  by (simp add: st32_def span_4)

lemma ld32_cong: "(\<And>x. x \<in> span a 4 \<Longrightarrow> m x = m' x) \<Longrightarrow> ld32 m a = ld32 m' a"
  by (simp add: ld32_def span_4)

lemma ld32_st32_diff:
  "span a 4 \<inter> span b 4 = {} \<Longrightarrow> ld32 (st32 m a v) b = ld32 m b"
  by (rule ld32_cong) (auto intro: st32_outside)

lemma st32_commute:
  assumes "span a 4 \<inter> span b 4 = {}"
  shows "st32 (st32 m a v) b w = st32 (st32 m b w) a v"
proof
  fix x
  consider "x \<in> span a 4" "x \<notin> span b 4" | "x \<in> span b 4" "x \<notin> span a 4" | "x \<notin> span a 4" "x \<notin> span b 4"
    using assms by auto
  then show "st32 (st32 m a v) b w x = st32 (st32 m b w) a v x"
  proof cases
    case 1
    then show ?thesis by (simp add: st32_outside) (simp add: st32_def span_4)
  next
    case 2
    then show ?thesis by (simp add: st32_outside) (simp add: st32_def span_4)
  next
    case 3
    then show ?thesis by (simp add: st32_outside)
  qed
qed

section \<open>Sequences of stores\<close>

definition stores :: "(u32 \<times> u32) list \<Rightarrow> mem \<Rightarrow> mem" where
  "stores ws m = fold (\<lambda>(a, v) m. st32 m a v) ws m"

lemma stores_Nil [simp]: "stores [] m = m"
  by (simp add: stores_def)

lemma stores_Cons [simp]: "stores ((a, v) # ws) m = stores ws (st32 m a v)"
  by (simp add: stores_def)

lemma stores_append [simp]: "stores (xs @ ys) m = stores ys (stores xs m)"
  by (simp add: stores_def)

definition footprint :: "(u32 \<times> u32) list \<Rightarrow> u32 set" where
  "footprint ws = (\<Union>(a, v) \<in> set ws. span a 4)"

lemma footprint_simps [simp]:
  "footprint [] = {}"
  "footprint ((a, v) # ws) = span a 4 \<union> footprint ws"
  "footprint (xs @ ys) = footprint xs \<union> footprint ys"
  by (auto simp: footprint_def)

lemma stores_outside [frame]: "x \<notin> footprint ws \<Longrightarrow> stores ws m x = m x"
  by (induction ws arbitrary: m) (auto simp: st32_outside)

lemma ld32_stores_outside [frame]:
  "span a 4 \<inter> footprint ws = {} \<Longrightarrow> ld32 (stores ws m) a = ld32 m a"
  by (rule ld32_cong) (auto intro: stores_outside)

text \<open>No two stores of the list touch the same byte.\<close>

definition disjoint_stores :: "(u32 \<times> u32) list \<Rightarrow> bool" where
  "disjoint_stores ws \<longleftrightarrow>
     (\<forall>(a, v) \<in> set ws. \<forall>(b, w) \<in> set ws. (a, v) \<noteq> (b, w) \<longrightarrow> span a 4 \<inter> span b 4 = {})"

text \<open>Disjoint stores give the same memory in every order.\<close>

lemma stores_permute:
  assumes "disjoint_stores ws" and "mset ws = mset ws'"
  shows "stores ws m = stores ws' m"
proof -
  have "fold (\<lambda>(a, v) m. st32 m a v) ws = fold (\<lambda>(a, v) m. st32 m a v) ws'"
  proof (rule fold_multiset_equiv [OF _ assms(2)])
    fix x y assume "x \<in> set ws" "y \<in> set ws"
    then show "(case x of (a, v) \<Rightarrow> \<lambda>m. st32 m a v) \<circ> (case y of (a, v) \<Rightarrow> \<lambda>m. st32 m a v) =
        (case y of (a, v) \<Rightarrow> \<lambda>m. st32 m a v) \<circ> (case x of (a, v) \<Rightarrow> \<lambda>m. st32 m a v)"
      using assms(1) unfolding disjoint_stores_def
      by (cases x; cases y; cases "x = y") (auto simp: fun_eq_iff intro!: fun_cong [OF st32_commute])
  qed
  then show ?thesis by (simp add: stores_def)
qed

lemma ld32_stores_at:
  assumes "disjoint_stores ws" and "(a, v) \<in> set ws"
  shows "ld32 (stores ws m) a = v"
proof -
  obtain xs ys where ws: "ws = xs @ (a, v) # ys" using assms(2) by (meson split_list)
  have keep: "ld32 (stores us m) a = v"
    if "ld32 m a = v" "set us \<subseteq> set ws" for us m
    using that
  proof (induction us arbitrary: m)
    case Nil
    then show ?case by simp
  next
    case (Cons u us)
    obtain b w where u: "u = (b, w)" by (cases u)
    have "ld32 (st32 m b w) a = v"
    proof (cases "(b, w) = (a, v)")
      case False
      then have "span b 4 \<inter> span a 4 = {}"
        using assms Cons.prems u unfolding disjoint_stores_def by fastforce
      then show ?thesis using Cons.prems by (simp add: ld32_st32_diff)
    qed simp
    with Cons show ?case by (simp add: u)
  qed
  have "set ys \<subseteq> set ws" by (auto simp: ws)
  with keep [of "st32 (stores xs m) a v" ys] show ?thesis by (simp add: ws)
qed

section \<open>Block copies\<close>

text \<open>A transfer of \<open>n\<close> bytes, as the cluster DMA makes it.\<close>

definition copy_bytes :: "u32 \<Rightarrow> u32 \<Rightarrow> u32 \<Rightarrow> mem \<Rightarrow> mem" where
  "copy_bytes dst src n m = (\<lambda>x. if x - dst < n then m (src + (x - dst)) else m x)"

lemma copy_bytes_outside [frame]: "x \<notin> span dst (unat n) \<Longrightarrow> copy_bytes dst src n m x = m x"
  using mem_span [OF less_imp_le [OF unat_u32_lt], of x dst n]
  by (simp add: copy_bytes_def word_less_nat_alt)

lemma copy_bytes_inside:
  "i < unat n \<Longrightarrow> copy_bytes dst src n m (dst + of_nat i) = m (src + of_nat i)"
  by (simp add: copy_bytes_def word_less_nat_alt unat_of_nat_lt)

section \<open>Actions on memory and what they touch\<close>

text \<open>
  The contract of everything that changes memory here, be it a store, a DMA transfer or a
  kernel: it writes only inside \<open>W\<close>, and what it writes depends only on the bytes of
  \<open>R\<close>. Two actions that keep out of each other's way can run in either order.
\<close>

locale mem_action =
  fixes act :: "mem \<Rightarrow> mem" and W :: "u32 set" and R :: "u32 set"
  assumes outside: "x \<notin> W \<Longrightarrow> act m x = m x"
    and determined: "\<forall>x\<in>R. m x = m' x \<Longrightarrow> x \<in> W \<Longrightarrow> act m x = act m' x"
begin

lemma ld32_outside: "span a 4 \<inter> W = {} \<Longrightarrow> ld32 (act m) a = ld32 m a"
  by (rule ld32_cong) (auto intro: outside)

lemma agree_after:
  assumes "\<forall>x\<in>R \<union> S. m x = m' x" and "x \<in> W \<union> S"
  shows "act m x = act m' x"
proof (cases "x \<in> W")
  case True
  then show ?thesis using assms(1) by (auto intro: determined)
next
  case False
  then show ?thesis using assms by (simp add: outside)
qed

lemma larger_reads: "R \<subseteq> R' \<Longrightarrow> mem_action act W R'"
  by unfold_locales (auto simp: outside intro: determined)

lemma larger: "W \<subseteq> W' \<Longrightarrow> R \<subseteq> R' \<Longrightarrow> W' - W \<subseteq> R' \<Longrightarrow> mem_action act W' R'"
proof unfold_locales
  fix x m assume "W \<subseteq> W'" "x \<notin> W'"
  then show "act m x = m x" by (intro outside) auto
next
  fix m m' :: mem and x
  assume s: "W \<subseteq> W'" "R \<subseteq> R'" "W' - W \<subseteq> R'" and e: "\<forall>x\<in>R'. m x = m' x" and x: "x \<in> W'"
  show "act m x = act m' x"
    by (rule agree_after [where S = "W' - W"]) (use s e x in auto)
qed

end

lemma mem_action_commute:
  assumes "mem_action f Wf Rf" and "mem_action g Wg Rg"
    and "Wf \<inter> Wg = {}" "Wf \<inter> Rg = {}" "Wg \<inter> Rf = {}"
  shows "f (g m) = g (f m)"
proof
  fix x
  have f_out: "f m x = m x" if "x \<notin> Wf" for m x
    using mem_action.outside [OF assms(1) that] .
  have g_out: "g m x = m x" if "x \<notin> Wg" for m x
    using mem_action.outside [OF assms(2) that] .
  consider "x \<in> Wf" "x \<notin> Wg" | "x \<in> Wg" "x \<notin> Wf" | "x \<notin> Wf" "x \<notin> Wg"
    using assms(3) by auto
  then show "f (g m) x = g (f m) x"
  proof cases
    case 1
    have "f (g m) x = f m x"
      using mem_action.determined [OF assms(1), of "g m" m x] 1 assms(5) g_out by blast
    then show ?thesis using 1 g_out by simp
  next
    case 2
    have "g (f m) x = g m x"
      using mem_action.determined [OF assms(2), of "f m" m x] 2 assms(4) f_out by blast
    then show ?thesis using 2 f_out by simp
  next
    case 3
    then show ?thesis using f_out g_out by simp
  qed
qed

lemma mem_action_id: "mem_action (\<lambda>m. m) {} {}"
  by unfold_locales auto

lemma mem_action_comp:
  assumes "mem_action f Wf Rf" and "mem_action g Wg Rg"
  shows "mem_action (\<lambda>m. g (f m)) (Wf \<union> Wg) (Rf \<union> Rg)"
proof unfold_locales
  fix x m assume "x \<notin> Wf \<union> Wg"
  then show "g (f m) x = m x"
    using mem_action.outside [OF assms(1)] mem_action.outside [OF assms(2)] by auto
next
  fix m m' :: mem and x
  assume e: "\<forall>x\<in>Rf \<union> Rg. m x = m' x" and x: "x \<in> Wf \<union> Wg"
  have fe: "f m y = f m' y" if "y \<in> Wf \<union> Rg" for y
    by (rule mem_action.agree_after [OF assms(1), where S = Rg]) (use e that in auto)
  show "g (f m) x = g (f m') x"
    by (rule mem_action.agree_after [OF assms(2), where S = Wf]) (use fe x in auto)
qed

lemma mem_action_fold:
  assumes "\<And>x. x \<in> set xs \<Longrightarrow> mem_action (f x) (W x) (R x)"
  shows "mem_action (fold f xs) (\<Union>x\<in>set xs. W x) (\<Union>x\<in>set xs. R x)"
  using assms
proof (induction xs)
  case Nil
  show ?case using mem_action_id by (simp add: id_def)
next
  case (Cons x xs)
  have a: "mem_action (f x) (W x) (R x)" using Cons.prems by simp
  have b: "mem_action (fold f xs) (\<Union>x\<in>set xs. W x) (\<Union>x\<in>set xs. R x)"
    using Cons by simp
  have "fold f (x # xs) = (\<lambda>m. fold f xs (f x m))" by auto
  with mem_action_comp [OF a b] show ?case by simp
qed

interpretation store: mem_action "\<lambda>m. st32 m a v" "span a 4" "{}" for a v
  by unfold_locales (auto simp: st32_outside, auto simp: st32_def span_4)

interpretation block_copy: mem_action "copy_bytes dst src n" "span dst (unat n)" "span src (unat n)"
  for dst src n
proof unfold_locales
  fix x m assume "x \<notin> span dst (unat n)"
  then show "copy_bytes dst src n m x = m x" by (rule copy_bytes_outside)
next
  fix m m' :: mem and x
  assume "\<forall>x\<in>span src (unat n). m x = m' x" and "x \<in> span dst (unat n)"
  then show "copy_bytes dst src n m x = copy_bytes dst src n m' x"
    by (auto simp: span_def copy_bytes_inside)
qed

end
