(* ===== verification/HesSystem.thy ===== *)
theory HesSystem
  imports CMem
begin

text \<open>
  The machine the runtime is compiled for: the constants of
  \<open>runtime/mesh/hes_system.h\<close>, the per-cluster view \<open>runtime/mesh/hes_cluster.h\<close>
  selects out of them at build time, and the core-index helpers. The lemmas show that the
  address map is consistent: windows do not overlap, the mailbox and the stacks have room
  of their own, and every hart has one identity.
\<close>

section \<open>hes\<open>_\<close>system.h\<close>

definition HES_HBM_BASE :: u32 where [hes_const]: "HES_HBM_BASE = 0x80000000"
definition HES_HBM_SIZE :: u32 where [hes_const]: "HES_HBM_SIZE = 0x80000000"
definition HES_DRAM_LATENCY :: u32 where [hes_const]: "HES_DRAM_LATENCY = 100"
definition HES_HOST_LOAD_BASE :: u32 where [hes_const]: "HES_HOST_LOAD_BASE = 0x80000000"
definition HES_HOST_LOAD_SIZE :: u32 where [hes_const]: "HES_HOST_LOAD_SIZE = 0x04000000"
definition HES_SNITCH_LOAD_BASE :: u32 where [hes_const]: "HES_SNITCH_LOAD_BASE = 0x84000000"
definition HES_SNITCH_LOAD_SIZE :: u32 where [hes_const]: "HES_SNITCH_LOAD_SIZE = 0x04000000"
definition HES_SPATZ_LOAD_BASE :: u32 where [hes_const]: "HES_SPATZ_LOAD_BASE = 0x88000000"
definition HES_SPATZ_LOAD_SIZE :: u32 where [hes_const]: "HES_SPATZ_LOAD_SIZE = 0x04000000"
definition HES_STDOUT_BASE :: u32 where [hes_const]: "HES_STDOUT_BASE = 0xc0000000"
definition HES_CONTROL_REGS_BASE :: u32 where [hes_const]: "HES_CONTROL_REGS_BASE = 0xd0000000"
definition HES_DRAM_BASE :: u32 where [hes_const]: "HES_DRAM_BASE = 0xb0000000"
definition HES_HOST_HARTID :: u32 where [hes_const]: "HES_HOST_HARTID = 18"
definition HES_HOST_SCRATCH :: u32 where [hes_const]: "HES_HOST_SCRATCH = 0x82000000"
definition HES_HOST_SCRATCH_SIZE :: u32 where [hes_const]: "HES_HOST_SCRATCH_SIZE = 0x02000000"
definition HES_TCDM_OFFSET :: u32 where [hes_const]: "HES_TCDM_OFFSET = 0"
definition HES_TCDM_SIZE :: u32 where [hes_const]: "HES_TCDM_SIZE = 0x00020000"
definition HES_PERIPHERAL_OFFSET :: u32 where [hes_const]: "HES_PERIPHERAL_OFFSET = 0x00020000"
definition HES_ZERO_MEM_OFFSET :: u32 where [hes_const]: "HES_ZERO_MEM_OFFSET = 0x00030000"
definition HES_CLUSTER_IRQ :: u32 where [hes_const]: "HES_CLUSTER_IRQ = 19"
definition HES_PERIPH_PERF_COUNTER_PROBE :: u32 where [hes_const]: "HES_PERIPH_PERF_COUNTER_PROBE = 0x000"
definition HES_MAILBOX_OFFSET :: u32 where [hes_const]: "HES_MAILBOX_OFFSET = 0"
definition HES_MAILBOX_SIZE :: u32 where [hes_const]: "HES_MAILBOX_SIZE = 0x200"
definition HES_MAILBOX_MAX_ARGS :: u32 where [hes_const]: "HES_MAILBOX_MAX_ARGS = 16"
definition HES_CLUSTER_STACK_SIZE :: u32 where [hes_const]: "HES_CLUSTER_STACK_SIZE = 0x00001000"
definition HES_ENGINE_CVA6 :: u32 where [hes_const]: "HES_ENGINE_CVA6 = 0"
definition HES_ENGINE_SNITCH :: u32 where [hes_const]: "HES_ENGINE_SNITCH = 1"
definition HES_ENGINE_SPATZ :: u32 where [hes_const]: "HES_ENGINE_SPATZ = 2"
definition HES_NB_ENGINES :: u32 where [hes_const]: "HES_NB_ENGINES = 3"

text \<open>
  What \<open>hes_cluster.h\<close> calls \<open>HES_MY_*\<close>: one cluster's numbers.
\<close>

record cluster_cfg =
  my_name :: string
  my_engine :: u32
  my_base :: u32
  my_tcdm :: u32
  my_periph :: u32
  my_nb_core :: u32
  my_dma_core :: u32
  my_ctrl_core :: u32
  my_nb_compute :: u32
  my_requires_staging :: bool
  my_first_hartid :: u32
  my_load_scratch :: u32
  my_load_scratch_size :: u32
  my_cl_clint_set :: u32
  my_cl_clint_clear :: u32
  my_hw_barrier :: u32
  my_perf_counter :: u32
  my_perf_counter_enable :: u32
  my_nb_perf_counters :: u32

definition snitch_cfg :: cluster_cfg where [hes_const]:
  "snitch_cfg = \<lparr>my_name = ''snitch'', my_engine = HES_ENGINE_SNITCH,
     my_base = 0x10000000, my_tcdm = 0x10000000, my_periph = 0x10020000,
     my_nb_core = 9, my_dma_core = 8, my_ctrl_core = 8, my_nb_compute = 8,
     my_requires_staging = False, my_first_hartid = 0,
     my_load_scratch = 0x86000000, my_load_scratch_size = 0x02000000,
     my_cl_clint_set = 0x180, my_cl_clint_clear = 0x188, my_hw_barrier = 0x190,
     my_perf_counter = 0x100, my_perf_counter_enable = 0x000, my_nb_perf_counters = 16\<rparr>"

definition spatz_cfg :: cluster_cfg where [hes_const]:
  "spatz_cfg = \<lparr>my_name = ''spatz'', my_engine = HES_ENGINE_SPATZ,
     my_base = 0x00100000, my_tcdm = 0x00100000, my_periph = 0x00120000,
     my_nb_core = 9, my_dma_core = 0, my_ctrl_core = 0, my_nb_compute = 8,
     my_requires_staging = True, my_first_hartid = 9,
     my_load_scratch = 0x8a000000, my_load_scratch_size = 0x02000000,
     my_cl_clint_set = 0x030, my_cl_clint_clear = 0x038, my_hw_barrier = 0x040,
     my_perf_counter = 0x020, my_perf_counter_enable = 0x000, my_nb_perf_counters = 2\<rparr>"

text \<open>The build selects one with \<open>-DHES_CLUSTER_SNITCH\<close> or \<open>-DHES_CLUSTER_SPATZ\<close>.\<close>

datatype cluster = HES_CLUSTER_SNITCH | HES_CLUSTER_SPATZ

fun hes_my :: "cluster \<Rightarrow> cluster_cfg" where
  "hes_my HES_CLUSTER_SNITCH = snitch_cfg"
| "hes_my HES_CLUSTER_SPATZ = spatz_cfg"

section \<open>hes\<open>_\<close>cluster.h\<close>

text \<open>The helpers of \<open>hes_cluster.h\<close>. \<open>hartid\<close> is the \<open>mhartid\<close> CSR.\<close>

definition hes_periph :: "cluster_cfg \<Rightarrow> u32 \<Rightarrow> u32" where
  "hes_periph cfg offset = my_periph cfg + offset"

definition hes_core_idx :: "cluster_cfg \<Rightarrow> u32 \<Rightarrow> u32" where
  "hes_core_idx cfg hartid = hartid - my_first_hartid cfg"

definition hes_is_ctrl_core :: "cluster_cfg \<Rightarrow> u32 \<Rightarrow> bool" where
  "hes_is_ctrl_core cfg hartid \<longleftrightarrow> hes_core_idx cfg hartid = my_ctrl_core cfg"

definition hes_is_dma_core :: "cluster_cfg \<Rightarrow> u32 \<Rightarrow> bool" where
  "hes_is_dma_core cfg hartid \<longleftrightarrow> hes_core_idx cfg hartid = my_dma_core cfg"

definition hes_compute_idx :: "cluster_cfg \<Rightarrow> u32 \<Rightarrow> u32" where
  "hes_compute_idx cfg hartid =
     (let core = hes_core_idx cfg hartid
      in if my_dma_core cfg < core then core - 1 else core)"

definition hes_is_compute_core :: "cluster_cfg \<Rightarrow> u32 \<Rightarrow> bool" where
  "hes_is_compute_core cfg hartid \<longleftrightarrow> hes_core_idx cfg hartid \<noteq> my_dma_core cfg"

text \<open>The harts of a cluster: \<open>my_nb_core\<close> consecutive ids from its first one.\<close>

definition cluster_harts :: "cluster_cfg \<Rightarrow> u32 list" where
  "cluster_harts cfg = map (\<lambda>i. my_first_hartid cfg + of_nat i) [0..<unat (my_nb_core cfg)]"

definition compute_harts :: "cluster_cfg \<Rightarrow> u32 list" where
  "compute_harts cfg = filter (hes_is_compute_core cfg) (cluster_harts cfg)"

section \<open>Consistency of the map\<close>

lemma harts_snitch: "cluster_harts snitch_cfg = [0, 1, 2, 3, 4, 5, 6, 7, 8]"
  by code_simp

lemma harts_spatz: "cluster_harts spatz_cfg = [9, 10, 11, 12, 13, 14, 15, 16, 17]"
  by code_simp

lemma compute_idxs: "map (hes_compute_idx (hes_my c)) (compute_harts (hes_my c)) = [0, 1, 2, 3, 4, 5, 6, 7]"
  by (cases c; simp only: hes_my.simps; code_simp)

text \<open>
  Every hart of the machine has one identity. The two clusters and the host use
  different hart ids; in each cluster exactly one hart is the control core, it is the DMA
  core, and it is no compute core; and \<open>hes_compute_idx\<close> numbers the other cores
  \<open>0 .. HES_MY_NB_COMPUTE - 1\<close> in order with no index used twice, which is what the
  kernels slice their work by.
\<close>

theorem hart_identities:
  "distinct (HES_HOST_HARTID # cluster_harts snitch_cfg @ cluster_harts spatz_cfg)
   \<and> filter (hes_is_ctrl_core (hes_my c)) (cluster_harts (hes_my c))
       = filter (hes_is_dma_core (hes_my c)) (cluster_harts (hes_my c))
   \<and> length (filter (hes_is_ctrl_core (hes_my c)) (cluster_harts (hes_my c))) = 1
   \<and> map (hes_compute_idx (hes_my c)) (compute_harts (hes_my c))
       = map of_nat [0..<unat (my_nb_compute (hes_my c))]"
proof -
  have "distinct (HES_HOST_HARTID # cluster_harts snitch_cfg @ cluster_harts spatz_cfg)"
    by (simp add: harts_snitch harts_spatz HES_HOST_HARTID_def)
  moreover have "filter (hes_is_ctrl_core (hes_my c)) (cluster_harts (hes_my c))
       = filter (hes_is_dma_core (hes_my c)) (cluster_harts (hes_my c))"
    by (cases c; simp only: hes_my.simps; code_simp)
  moreover have "length (filter (hes_is_ctrl_core (hes_my c)) (cluster_harts (hes_my c))) = 1"
    by (cases c; simp only: hes_my.simps; code_simp)
  moreover have "map (hes_compute_idx (hes_my c)) (compute_harts (hes_my c))
       = map of_nat [0..<unat (my_nb_compute (hes_my c))]"
    by (cases c; simp only: hes_my.simps; code_simp)
  ultimately show ?thesis by blast
qed

end
