(* ===== verification/Mailbox.thy ===== *)
theory Mailbox
  imports HesSystem
begin

text \<open>
  The job mailbox (\<open>runtime/mesh/hes_mailbox.h\<close>) and the argument lists of the kernels a
  cluster can be asked to run (\<open>runtime/mesh/hes_job.h\<close>). The descriptor is a record of
  32-bit fields; \<open>mbox_layout\<close> gives its C layout, and the lemmas show that it fits
  the window reserved for it, that the assembler's trap offset is the field's own, and that
  every argument list fits \<open>args\<close> with no slot used twice.
\<close>

section \<open>The descriptor\<close>

definition HES_MBOX_MAGIC :: u32 where [hes_const]: "HES_MBOX_MAGIC = 0x48455331"

definition HES_MBOX_TRAP_OFFSET :: u32 where [hes_const]: "HES_MBOX_TRAP_OFFSET = 28"

record mailbox =
  mb_magic :: u32
  mb_alive_mask :: u32
  mb_seq :: u32
  mb_kernel_id :: u32
  mb_nargs :: u32
  mb_done_seq :: u32
  mb_cycles :: u32
  mb_trap_cause :: u32
  mb_nb_cores :: u32
  mb_flags :: u32
  mb_staged :: u32
  mb_error :: u32
  mb_args :: "u32 list"
  mb_probe :: "u32 list"

text \<open>Field names in order, each with the number of 32-bit words it holds.\<close>

definition mbox_layout :: "(string \<times> nat) list" where
  "mbox_layout = [(''magic'', 1), (''alive_mask'', 1), (''seq'', 1), (''kernel_id'', 1),
     (''nargs'', 1), (''done_seq'', 1), (''cycles'', 1), (''trap_cause'', 1),
     (''nb_cores'', 1), (''flags'', 1), (''staged'', 1), (''error'', 1),
     (''args'', unat HES_MAILBOX_MAX_ARGS), (''probe'', 16)]"

fun offset_of :: "string \<Rightarrow> (string \<times> nat) list \<Rightarrow> nat option" where
  "offset_of f [] = None"
| "offset_of f ((g, n) # fs) =
     (if f = g then Some 0 else map_option (\<lambda>k. 4 * n + k) (offset_of f fs))"

definition sizeof_mailbox :: nat where
  "sizeof_mailbox = 4 * sum_list (map snd mbox_layout)"

definition hes_mailbox_at :: "u32 \<Rightarrow> u32" where
  "hes_mailbox_at tcdm_base = tcdm_base + HES_MAILBOX_OFFSET"

text \<open>A mailbox whose two arrays have their declared sizes.\<close>

definition mbox_wf :: "mailbox \<Rightarrow> bool" where
  "mbox_wf b \<longleftrightarrow> length (mb_args b) = unat HES_MAILBOX_MAX_ARGS \<and> length (mb_probe b) = 16"

section \<open>Error codes and kernel ids\<close>

definition HES_ERR_NONE :: u32 where [hes_const]: "HES_ERR_NONE = 0"
definition HES_ERR_NEEDS_STAGING :: u32 where [hes_const]: "HES_ERR_NEEDS_STAGING = 1"
definition HES_ERR_NO_SCRATCH :: u32 where [hes_const]: "HES_ERR_NO_SCRATCH = 2"
definition HES_K_NONE :: u32 where [hes_const]: "HES_K_NONE = 0"
definition HES_K_PROBE :: u32 where [hes_const]: "HES_K_PROBE = 1"
definition HES_K_MATMUL_FP32 :: u32 where [hes_const]: "HES_K_MATMUL_FP32 = 2"
definition HES_K_GEMM_FP32 :: u32 where [hes_const]: "HES_K_GEMM_FP32 = 3"
definition HES_K_CONV2D_FP32 :: u32 where [hes_const]: "HES_K_CONV2D_FP32 = 4"
definition HES_K_MFCC_FP32 :: u32 where [hes_const]: "HES_K_MFCC_FP32 = 5"

lemmas kernel_ids = HES_K_NONE_def HES_K_PROBE_def HES_K_MATMUL_FP32_def HES_K_GEMM_FP32_def
  HES_K_CONV2D_FP32_def HES_K_MFCC_FP32_def

section \<open>Argument lists\<close>

text \<open>Indices into \<open>args\<close>, in the order of the kernel's own signature.\<close>

named_theorems job_arg "definitions of the argument indices of hes\<open>_\<close>job.h"

definition HES_MM_A :: nat where [job_arg]: "HES_MM_A = 0"
definition HES_MM_B :: nat where [job_arg]: "HES_MM_B = 1"
definition HES_MM_Y :: nat where [job_arg]: "HES_MM_Y = 2"
definition HES_MM_M :: nat where [job_arg]: "HES_MM_M = 3"
definition HES_MM_N :: nat where [job_arg]: "HES_MM_N = 4"
definition HES_MM_O :: nat where [job_arg]: "HES_MM_O = 5"
definition HES_MM_NARGS :: nat where [job_arg]: "HES_MM_NARGS = 6"

definition HES_GEMM_A :: nat where [job_arg]: "HES_GEMM_A = 0"
definition HES_GEMM_B :: nat where [job_arg]: "HES_GEMM_B = 1"
definition HES_GEMM_C :: nat where [job_arg]: "HES_GEMM_C = 2"
definition HES_GEMM_Y :: nat where [job_arg]: "HES_GEMM_Y = 3"
definition HES_GEMM_M :: nat where [job_arg]: "HES_GEMM_M = 4"
definition HES_GEMM_N :: nat where [job_arg]: "HES_GEMM_N = 5"
definition HES_GEMM_O :: nat where [job_arg]: "HES_GEMM_O = 6"
definition HES_GEMM_TRANSA :: nat where [job_arg]: "HES_GEMM_TRANSA = 7"
definition HES_GEMM_TRANSB :: nat where [job_arg]: "HES_GEMM_TRANSB = 8"
definition HES_GEMM_NARGS :: nat where [job_arg]: "HES_GEMM_NARGS = 9"

definition HES_CONV_A :: nat where [job_arg]: "HES_CONV_A = 0"
definition HES_CONV_C :: nat where [job_arg]: "HES_CONV_C = 1"
definition HES_CONV_H :: nat where [job_arg]: "HES_CONV_H = 2"
definition HES_CONV_W :: nat where [job_arg]: "HES_CONV_W = 3"
definition HES_CONV_B :: nat where [job_arg]: "HES_CONV_B = 4"
definition HES_CONV_F :: nat where [job_arg]: "HES_CONV_F = 5"
definition HES_CONV_P :: nat where [job_arg]: "HES_CONV_P = 6"
definition HES_CONV_Q :: nat where [job_arg]: "HES_CONV_Q = 7"
definition HES_CONV_SP :: nat where [job_arg]: "HES_CONV_SP = 8"
definition HES_CONV_SQ :: nat where [job_arg]: "HES_CONV_SQ = 9"
definition HES_CONV_BIAS :: nat where [job_arg]: "HES_CONV_BIAS = 10"
definition HES_CONV_HAS_BIAS :: nat where [job_arg]: "HES_CONV_HAS_BIAS = 11"
definition HES_CONV_Y :: nat where [job_arg]: "HES_CONV_Y = 12"
definition HES_CONV_NARGS :: nat where [job_arg]: "HES_CONV_NARGS = 13"

definition HES_MFCC_AUDIO :: nat where [job_arg]: "HES_MFCC_AUDIO = 0"
definition HES_MFCC_OUT :: nat where [job_arg]: "HES_MFCC_OUT = 1"
definition HES_MFCC_NB_FRAMES :: nat where [job_arg]: "HES_MFCC_NB_FRAMES = 2"
definition HES_MFCC_FRAME_LEN :: nat where [job_arg]: "HES_MFCC_FRAME_LEN = 3"
definition HES_MFCC_HOP :: nat where [job_arg]: "HES_MFCC_HOP = 4"
definition HES_MFCC_FFT_LEN :: nat where [job_arg]: "HES_MFCC_FFT_LEN = 5"
definition HES_MFCC_WINDOW :: nat where [job_arg]: "HES_MFCC_WINDOW = 6"
definition HES_MFCC_TWIDDLES :: nat where [job_arg]: "HES_MFCC_TWIDDLES = 7"
definition HES_MFCC_MEL_COEFF :: nat where [job_arg]: "HES_MFCC_MEL_COEFF = 8"
definition HES_MFCC_MEL_START :: nat where [job_arg]: "HES_MFCC_MEL_START = 9"
definition HES_MFCC_MEL_LEN :: nat where [job_arg]: "HES_MFCC_MEL_LEN = 10"
definition HES_MFCC_NB_MEL :: nat where [job_arg]: "HES_MFCC_NB_MEL = 11"
definition HES_MFCC_DCT :: nat where [job_arg]: "HES_MFCC_DCT = 12"
definition HES_MFCC_NB_CEP :: nat where [job_arg]: "HES_MFCC_NB_CEP = 13"
definition HES_MFCC_MEL_COEFFS :: nat where [job_arg]: "HES_MFCC_MEL_COEFFS = 14"
definition HES_MFCC_NARGS :: nat where [job_arg]: "HES_MFCC_NARGS = 15"

definition HES_JOB_STAGE :: u32 where [hes_const]: "HES_JOB_STAGE = 1"

section \<open>Layout\<close>

text \<open>
  The descriptor fits the window below the linked data. Its size is within
  \<open>HES_MAILBOX_SIZE\<close>, every field starts at a different offset and ends inside the
  descriptor, the field \<open>crt0_cluster.S\<close> stores \<open>mcause\<close> to is \<open>trap_cause\<close>,
  and every kernel's argument list fits \<open>args\<close>.
\<close>

theorem mailbox_layout:
  "sizeof_mailbox \<le> unat HES_MAILBOX_SIZE
   \<and> offset_of ''trap_cause'' mbox_layout = Some (unat HES_MBOX_TRAP_OFFSET)
   \<and> distinct (map (\<lambda>(f, n). offset_of f mbox_layout) mbox_layout)
   \<and> list_all (\<lambda>(f, n). case offset_of f mbox_layout of None \<Rightarrow> False
        | Some k \<Rightarrow> k + 4 * n \<le> sizeof_mailbox) mbox_layout
   \<and> list_all (\<lambda>n. n \<le> unat HES_MAILBOX_MAX_ARGS)
        [HES_MM_NARGS, HES_GEMM_NARGS, HES_CONV_NARGS, HES_MFCC_NARGS]"
  by code_simp

end
