(* ===== verification/Dma.thy ===== *)
theory Dma
  imports HesSystem
begin

text \<open>
  The cluster iDMA as \<open>runtime/mesh/hes_dma.h\<close> drives it. The configuration
  instructions latch source, destination, strides and repetitions; \<open>dmcpy\<close> enqueues
  the transfer they describe; \<open>dmstat\<close> reads whether one is outstanding. The
  engine works on its own: between two polls it may or may not finish a transfer, and it may
  finish any outstanding one. A list of \<open>dma_event\<close>s says what it did between
  successive polls, so a theorem over all lists is a theorem over every timing.
\<close>

section \<open>The engine\<close>

record transfer =
  t_dst :: u32
  t_src :: u32
  t_size :: u32
  t_dstride :: u32
  t_sstride :: u32
  t_reps :: u32

record dma =
  d_src :: u32
  d_dst :: u32
  d_sstride :: u32
  d_dstride :: u32
  d_reps :: u32
  d_next_id :: u32
  d_pending :: "transfer list"

definition HES_DMA_CFG_1D :: u32 where [hes_const]: "HES_DMA_CFG_1D = 0"
definition HES_DMA_CFG_2D :: u32 where [hes_const]: "HES_DMA_CFG_2D = 2"

text \<open>What a transfer does to memory: rows of \<open>t_size\<close> bytes, a stride apart.\<close>

definition run_transfer :: "transfer \<Rightarrow> mem \<Rightarrow> mem" where
  "run_transfer t m = for_u32 0 (t_reps t) (\<lambda>r. copy_bytes (t_dst t + r * t_dstride t)
     (t_src t + r * t_sstride t) (t_size t)) m"

datatype dma_event = Idle | Complete nat

fun dma_event_step :: "dma_event \<Rightarrow> dma \<times> mem \<Rightarrow> dma \<times> mem" where
  "dma_event_step Idle s = s"
| "dma_event_step (Complete k) (d, m) =
     (if d_pending d = [] then (d, m)
      else let i = k mod length (d_pending d)
           in (d\<lparr>d_pending := take i (d_pending d) @ drop (Suc i) (d_pending d)\<rparr>,
               run_transfer (d_pending d ! i) m))"

section \<open>The instructions\<close>

definition hes_dma_src :: "u32 \<Rightarrow> dma \<Rightarrow> dma" where
  "hes_dma_src addr d = d\<lparr>d_src := addr\<rparr>"

definition hes_dma_dst :: "u32 \<Rightarrow> dma \<Rightarrow> dma" where
  "hes_dma_dst addr d = d\<lparr>d_dst := addr\<rparr>"

definition hes_dma_stride :: "u32 \<Rightarrow> u32 \<Rightarrow> dma \<Rightarrow> dma" where
  "hes_dma_stride src_stride dst_stride d =
     d\<lparr>d_sstride := src_stride, d_dstride := dst_stride\<rparr>"

definition hes_dma_rep :: "u32 \<Rightarrow> dma \<Rightarrow> dma" where
  "hes_dma_rep reps d = d\<lparr>d_reps := reps\<rparr>"

text \<open>Bit 1 of the configuration selects a 2D transfer; without it one row is copied.\<close>

definition hes_dma_start :: "u32 \<Rightarrow> u32 \<Rightarrow> dma \<Rightarrow> u32 \<times> dma" where
  "hes_dma_start sz config d =
     (let t = \<lparr>t_dst = d_dst d, t_src = d_src d, t_size = sz,
               t_dstride = d_dstride d, t_sstride = d_sstride d,
               t_reps = (if bit config 1 then d_reps d else 1)\<rparr>
      in (d_next_id d, d\<lparr>d_next_id := d_next_id d + 1, d_pending := d_pending d @ [t]\<rparr>))"

definition hes_dma_busy :: "dma \<Rightarrow> u32" where
  "hes_dma_busy d = (if d_pending d = [] then 0 else 1)"

text \<open>
  \<open>while (hes_dma_busy());\<close> against the events that happen between polls: None when the
  events run out first, so a wait that never returns is a value.
\<close>

fun hes_dma_wait :: "dma_event list \<Rightarrow> dma \<times> mem \<Rightarrow> (dma \<times> mem) option" where
  "hes_dma_wait es (d, m) =
     (if hes_dma_busy d = 0 then Some (d, m)
      else case es of [] \<Rightarrow> None | e # es' \<Rightarrow> hes_dma_wait es' (dma_event_step e (d, m)))"

definition hes_dma_copy :: "u32 \<Rightarrow> u32 \<Rightarrow> u32 \<Rightarrow> dma \<Rightarrow> u32 \<times> dma" where
  "hes_dma_copy dst src sz d =
     hes_dma_start sz HES_DMA_CFG_1D (hes_dma_dst dst (hes_dma_src src d))"

definition hes_dma_copy_2d ::
    "u32 \<Rightarrow> u32 \<Rightarrow> u32 \<Rightarrow> u32 \<Rightarrow> u32 \<Rightarrow> u32 \<Rightarrow> dma \<Rightarrow> u32 \<times> dma" where
  "hes_dma_copy_2d dst src sz dst_stride src_stride reps d =
     hes_dma_start sz HES_DMA_CFG_2D
       (hes_dma_rep reps (hes_dma_stride src_stride dst_stride
          (hes_dma_dst dst (hes_dma_src src d))))"

section \<open>What a transfer touches\<close>

definition t_writes :: "transfer \<Rightarrow> u32 set" where
  "t_writes t = (\<Union>r\<in>{0..<unat (t_reps t)}. span (t_dst t + of_nat r * t_dstride t) (unat (t_size t)))"

definition t_reads :: "transfer \<Rightarrow> u32 set" where
  "t_reads t = (\<Union>r\<in>{0..<unat (t_reps t)}. span (t_src t + of_nat r * t_sstride t) (unat (t_size t)))"

interpretation dma_transfer: mem_action "run_transfer t" "t_writes t" "t_reads t" for t
proof -
  have "run_transfer t = fold (\<lambda>r. copy_bytes (t_dst t + of_nat r * t_dstride t)
     (t_src t + of_nat r * t_sstride t) (t_size t)) [0..<unat (t_reps t)]"
    by (auto simp: run_transfer_def for_u32_zero)
  moreover have "mem_action (fold (\<lambda>r. copy_bytes (t_dst t + of_nat r * t_dstride t)
     (t_src t + of_nat r * t_sstride t) (t_size t)) [0..<unat (t_reps t)])
     (t_writes t) (t_reads t)"
    unfolding t_writes_def t_reads_def atLeastLessThan_upt
    by (rule mem_action_fold) (rule block_copy.mem_action_axioms)
  ultimately show "mem_action (run_transfer t) (t_writes t) (t_reads t)" by simp
qed

text \<open>Transfers that may run in any order: no one writes what another reads or writes.\<close>

definition independent :: "transfer list \<Rightarrow> bool" where
  "independent ts \<longleftrightarrow> (\<forall>t\<in>set ts. \<forall>u\<in>set ts. t \<noteq> u \<longrightarrow>
     t_writes t \<inter> t_writes u = {} \<and> t_writes t \<inter> t_reads u = {})"

lemma independent_permute:
  assumes "independent ts" and "mset ts = mset us"
  shows "fold run_transfer ts m = fold run_transfer us m"
proof -
  have "fold run_transfer ts = fold run_transfer us"
  proof (rule fold_multiset_equiv [OF _ assms(2)])
    fix t u assume "t \<in> set ts" "u \<in> set ts"
    then show "run_transfer t \<circ> run_transfer u = run_transfer u \<circ> run_transfer t"
    proof (cases "t = u")
      case False
      then have d: "t_writes t \<inter> t_writes u = {}" "t_writes t \<inter> t_reads u = {}"
          "t_writes u \<inter> t_reads t = {}"
        using assms(1) \<open>t \<in> set ts\<close> \<open>u \<in> set ts\<close> unfolding independent_def by simp_all
      show ?thesis
        by (rule ext) (simp only: o_apply mem_action_commute
            [OF dma_transfer.mem_action_axioms [of t] dma_transfer.mem_action_axioms [of u] d])
    qed simp
  qed
  then show ?thesis by simp
qed

lemma remove_nth_mset:
  "i < length ts \<Longrightarrow> mset (ts ! i # take i ts @ drop (Suc i) ts) = mset ts"
  by (metis append_take_drop_id Cons_nth_drop_Suc mset.simps(2) mset_append union_mset_add_mset_right)

lemma independent_remove:
  "independent ts \<Longrightarrow> independent (take i ts @ drop (Suc i) ts)"
  unfolding independent_def by (auto dest!: in_set_takeD in_set_dropD)

fun completions :: "dma_event list \<Rightarrow> nat" where
  "completions [] = 0"
| "completions (Idle # es) = completions es"
| "completions (Complete k # es) = Suc (completions es)"

declare hes_dma_wait.simps [simp del]

lemma hes_dma_wait_done: "d_pending d = [] \<Longrightarrow> hes_dma_wait es (d, m) = Some (d, m)"
  by (simp add: hes_dma_wait.simps hes_dma_busy_def)

lemma hes_dma_wait_all:
  assumes "independent (d_pending d)" and "length (d_pending d) \<le> completions es"
  shows "hes_dma_wait es (d, m)
    = Some (d\<lparr>d_pending := []\<rparr>, fold run_transfer (d_pending d) m)"
  using assms
proof (induction es arbitrary: d m)
  case Nil
  then show ?case by (simp add: hes_dma_wait_done)
next
  case (Cons e es)
  show ?case
  proof (cases "d_pending d = []")
    case True
    then show ?thesis by (simp add: hes_dma_wait_done)
  next
    case False
    have unfold_once: "hes_dma_wait (e # es) (d, m) = hes_dma_wait es (dma_event_step e (d, m))"
      using False by (simp add: hes_dma_wait.simps [of "e # es" d m] hes_dma_busy_def)
    show ?thesis
    proof (cases e)
      case Idle
      then show ?thesis using Cons unfold_once by simp
    next
      case (Complete k)
      let ?ts = "d_pending d" and ?i = "k mod length (d_pending d)"
      let ?us = "take ?i ?ts @ drop (Suc ?i) ?ts"
      have i: "?i < length ?ts" using False by simp
      have "hes_dma_wait es (d\<lparr>d_pending := ?us\<rparr>, run_transfer (?ts ! ?i) m)
          = Some (d\<lparr>d_pending := []\<rparr>, fold run_transfer ?us (run_transfer (?ts ! ?i) m))"
        using Cons.IH [of "d\<lparr>d_pending := ?us\<rparr>"] Cons.prems i Complete
        by (simp add: independent_remove)
      moreover have "fold run_transfer ?us (run_transfer (?ts ! ?i) m) = fold run_transfer ?ts m"
        using independent_permute [OF Cons.prems(1), of "?ts ! ?i # ?us" m]
          remove_nth_mset [OF i] by simp
      ultimately show ?thesis using unfold_once Complete False by (simp add: Let_def)
    qed
  qed
qed

text \<open>
  C16. Waiting for the DMA is correct for every timing. If the engine finishes at least as
  many transfers between polls as are outstanding, the wait returns, nothing is outstanding
  any more, and, for transfers that keep out of each other's way, memory holds what running
  them in the order they were enqueued gives, whichever order the engine chose.
\<close>

theorem hes_dma_wait_correct:
  assumes "independent (d_pending d)" and "length (d_pending d) \<le> completions es"
  shows "hes_dma_wait es (d, m)
    = Some (d\<lparr>d_pending := []\<rparr>, fold run_transfer (d_pending d) m)"
  using assms by (rule hes_dma_wait_all)

text \<open>Two one-row transfers, the second finished first.\<close>

definition two_copies :: dma where
  "two_copies = snd (hes_dma_copy 0x10000100 0x80000000 2 (snd (hes_dma_copy 0x10000200 0x80000100 2
     \<lparr>d_src = 0, d_dst = 0, d_sstride = 0, d_dstride = 0, d_reps = 0, d_next_id = 0, d_pending = []\<rparr>)))"

lemma two_copies_pending: "d_pending two_copies =
  [\<lparr>t_dst = 0x10000200, t_src = 0x80000100, t_size = 2, t_dstride = 0, t_sstride = 0, t_reps = 1\<rparr>,
   \<lparr>t_dst = 0x10000100, t_src = 0x80000000, t_size = 2, t_dstride = 0, t_sstride = 0, t_reps = 1\<rparr>]"
  by code_simp

lemma two_copies_independent: "independent (d_pending two_copies)"
proof -
  have u: "{..<2::nat} = {0, 1}" "{0..<Suc 0} = {0}" by auto
  show ?thesis unfolding two_copies_pending independent_def
    by (simp add: t_writes_def t_reads_def span_def u)
qed

theorem hes_dma_wait_correct_witness:
  "map_option (\<lambda>(d, m). (d_pending d, m 0x10000101, m 0x10000200))
     (hes_dma_wait [Idle, Complete 1, Idle, Complete 0] (two_copies, \<lambda>x. ucast x + ucast (drop_bit 8 x)))
   = Some ([], 1, 1)"
proof -
  have "hes_dma_wait [Idle, Complete 1, Idle, Complete 0] (two_copies, \<lambda>x. ucast x + ucast (drop_bit 8 x))
      = Some (two_copies\<lparr>d_pending := []\<rparr>,
          fold run_transfer (d_pending two_copies) (\<lambda>x. ucast x + ucast (drop_bit 8 x)))"
    by (rule hes_dma_wait_correct [OF two_copies_independent]) (simp add: two_copies_pending)
  then show ?thesis
    by (simp add: two_copies_pending run_transfer_def for_u32_def copy_bytes_def)
qed

end
