(* ===== verification/ClusterRuntime.thy ===== *)
theory ClusterRuntime
  imports Mailbox Dma
begin

text \<open>
  The job loop every core of a cluster runs, \<open>runtime/mesh/cluster_main.c\<close>: splitting
  work, planning which buffers a job touches, carving scratch and staging buffers out of the
  TCDM heap, copying operands in and results out, refusing a job, and publishing the result.
  The definitions come first, in the order of the source; the theories \<open>WorkSplit\<close>,
  \<open>Staging\<close> and \<open>JobLoop\<close> prove what they do.
\<close>

section \<open>State\<close>

text \<open>The linker symbols \<open>__heap_start\<close> and \<open>__heap_end\<close>.\<close>

record heap =
  heap_start :: u32
  heap_end :: u32

definition MAX_OPERANDS :: nat where "MAX_OPERANDS = 8"

text \<open>
  \<open>operands_t\<close>: entry \<open>i\<close> of its four parallel arrays is element \<open>i\<close> of a list of
  these records, and \<open>o->n\<close> is the length of the list.
\<close>

record operand =
  op_arg :: nat
  op_is_output :: bool
  op_bytes :: u32
  op_local :: u32

text \<open>
  The statics of the file, the control core's locals across iterations
  (\<open>served\<close>, \<open>staged\<close>, \<open>t0\<close>, \<open>ops\<close>), its DMA, and what it shares with the
  host: memory and its mailbox.
\<close>

record cstate =
  active_args :: "u32 list"
  active_kernel :: u32
  scratch_base :: u32
  scratch_stride :: u32
  cs_ops :: "operand list"
  cs_served :: u32
  cs_staged :: u32
  cs_t0 :: u32
  cs_dma :: dma
  cs_mem :: mem
  cs_mbox :: mailbox

section \<open>Splitting work, planning operands\<close>

definition op_add :: "operand list \<Rightarrow> nat \<Rightarrow> bool \<Rightarrow> u32 \<Rightarrow> operand list" where
  "op_add os arg is_output nbytes = os @
     [\<lparr>op_arg = arg, op_is_output = is_output, op_bytes = nbytes, op_local = 0\<rparr>]"

definition slice :: "u32 \<Rightarrow> u32 \<Rightarrow> u32 \<Rightarrow> u32 \<times> u32" where
  "slice n idx nb =
     (let base = n div nb;
          rem = n mod nb;
          first = idx * base + (if idx < rem then idx else rem);
          last' = first + base + (if idx < rem then 1 else 0)
      in (first, last'))"

text \<open>
  \<open>divu\<close>, what the rv32 cores execute for an unsigned \<open>/\<close>: dividing by zero gives all
  ones. (C leaves it undefined.)
\<close>

definition divu :: "u32 \<Rightarrow> u32 \<Rightarrow> u32" where
  "divu a b = (if b = 0 then - 1 else a div b)"

definition sizeof_float32 :: u32 where "sizeof_float32 = 4"
definition sizeof_uint16 :: u32 where "sizeof_uint16 = 2"

definition plan_operands :: "u32 \<Rightarrow> u32 list \<Rightarrow> operand list" where
  "plan_operands kid a =
     (let f = sizeof_float32; ops0 = [] in
      if kid = HES_K_MATMUL_FP32 then
        (let M = a ! HES_MM_M; N = a ! HES_MM_N; O' = a ! HES_MM_O;
             o1 = op_add ops0 HES_MM_A False (M * N * f);
             o2 = op_add o1 HES_MM_B False (N * O' * f)
         in op_add o2 HES_MM_Y True (M * O' * f))
      else if kid = HES_K_GEMM_FP32 then
        (let M = a ! HES_GEMM_M; N = a ! HES_GEMM_N; O' = a ! HES_GEMM_O;
             o1 = op_add ops0 HES_GEMM_A False (M * N * f);
             o2 = op_add o1 HES_GEMM_B False (N * O' * f);
             o3 = op_add o2 HES_GEMM_C False (M * O' * f)
         in op_add o3 HES_GEMM_Y True (M * O' * f))
      else if kid = HES_K_CONV2D_FP32 then
        (let C = a ! HES_CONV_C; H = a ! HES_CONV_H; W = a ! HES_CONV_W;
             F = a ! HES_CONV_F; P = a ! HES_CONV_P; Q = a ! HES_CONV_Q;
             H_out = divu (H - P) (a ! HES_CONV_SP) + 1;
             W_out = divu (W - Q) (a ! HES_CONV_SQ) + 1;
             o1 = op_add ops0 HES_CONV_A False (C * H * W * f);
             o2 = op_add o1 HES_CONV_B False (F * C * P * Q * f);
             o3 = op_add o2 HES_CONV_Y True (F * H_out * W_out * f)
         in if a ! HES_CONV_HAS_BIAS \<noteq> 0 then op_add o3 HES_CONV_BIAS False (F * f) else o3)
      else if kid = HES_K_MFCC_FP32 then
        (let frames = a ! HES_MFCC_NB_FRAMES; hop = a ! HES_MFCC_HOP;
             frame_len = a ! HES_MFCC_FRAME_LEN; fft_len = a ! HES_MFCC_FFT_LEN;
             nb_mel = a ! HES_MFCC_NB_MEL; nb_cep = a ! HES_MFCC_NB_CEP;
             samples = (frames - 1) * hop + frame_len;
             o1 = op_add ops0 HES_MFCC_AUDIO False (samples * f);
             o2 = op_add o1 HES_MFCC_OUT True (frames * nb_cep * f);
             o3 = op_add o2 HES_MFCC_WINDOW False (frame_len * f);
             o4 = op_add o3 HES_MFCC_TWIDDLES False (fft_len * f);
             o5 = op_add o4 HES_MFCC_MEL_COEFF False (a ! HES_MFCC_MEL_COEFFS * f);
             o6 = op_add o5 HES_MFCC_MEL_START False (nb_mel * sizeof_uint16);
             o7 = op_add o6 HES_MFCC_MEL_LEN False (nb_mel * sizeof_uint16)
         in op_add o7 HES_MFCC_DCT False (nb_cep * nb_mel * f))
      else ops0)"

text \<open>\<open>runtime/common/mfcc.h\<close>: the floats one frame of the front-end works in.\<close>

definition MFCC_SCRATCH_ELEMS :: "u32 \<Rightarrow> u32 \<Rightarrow> u32" where
  "MFCC_SCRATCH_ELEMS fft_len nb_mel = 2 * fft_len + nb_mel"

definition plan_scratch :: "u32 \<Rightarrow> u32 list \<Rightarrow> u32" where
  "plan_scratch kid a =
     (if kid \<noteq> HES_K_MFCC_FP32 then 0
      else MFCC_SCRATCH_ELEMS (a ! HES_MFCC_FFT_LEN) (a ! HES_MFCC_NB_MEL) * sizeof_float32)"

section \<open>Carving the TCDM heap\<close>

text \<open>The cursor staging may start from, and the two globals it sets.\<close>

definition reserve_scratch :: "heap \<Rightarrow> u32 \<Rightarrow> u32 list \<Rightarrow> u32 \<Rightarrow> cstate \<Rightarrow> u32 \<times> cstate" where
  "reserve_scratch hp kid a nb_compute s =
     (let cursor = align64 (heap_start hp);
          per_core = plan_scratch kid a;
          s0 = s\<lparr>scratch_base := 0, scratch_stride := 0\<rparr>
      in if per_core = 0 then (cursor, s0)
         else let per_core = align64 per_core
              in if heap_end hp < cursor + per_core * nb_compute then (cursor, s0)
                 else (cursor + per_core * nb_compute,
                       s0\<lparr>scratch_base := cursor, scratch_stride := per_core\<rparr>))"

text \<open>The first loop of \<open>stage_in\<close>: an aligned place for every operand, or failure.\<close>

fun assign_locals :: "u32 \<Rightarrow> u32 \<Rightarrow> operand list \<Rightarrow> bool \<times> operand list" where
  "assign_locals limit cursor [] = (True, [])"
| "assign_locals limit cursor (p # ps) =
     (let c = align64 cursor
      in if limit < c + op_bytes p then (False, p # ps)
         else let (ok, ps') = assign_locals limit (c + op_bytes p) ps
              in (ok, p\<lparr>op_local := c\<rparr> # ps'))"

text \<open>The body of its second loop: enqueue the copy of an input, repoint the argument.\<close>

definition stage_one :: "u32 list \<Rightarrow> operand \<Rightarrow> cstate \<Rightarrow> cstate" where
  "stage_one as p s =
     (let s1 = (if op_is_output p then s
                else s\<lparr>cs_dma := snd (hes_dma_copy (op_local p) (as ! op_arg p) (op_bytes p) (cs_dma s))\<rparr>)
      in s1\<lparr>active_args := (active_args s1)[op_arg p := op_local p]\<rparr>)"

text \<open>\<open>hes_dma_wait()\<close> on the cluster's state.\<close>

definition dma_wait :: "dma_event list \<Rightarrow> cstate \<Rightarrow> cstate option" where
  "dma_wait es s =
     map_option (\<lambda>(d, m). s\<lparr>cs_dma := d, cs_mem := m\<rparr>) (hes_dma_wait es (cs_dma s, cs_mem s))"

definition stage_in ::
    "dma_event list \<Rightarrow> heap \<Rightarrow> u32 \<Rightarrow> u32 list \<Rightarrow> u32 \<Rightarrow> cstate \<Rightarrow> (u32 \<times> cstate) option" where
  "stage_in es hp kid as cursor s =
     (let ps = plan_operands kid as
      in if ps = [] then Some (0, s\<lparr>cs_ops := []\<rparr>)
         else let (ok, qs) = assign_locals (heap_end hp) cursor ps;
                  s1 = s\<lparr>cs_ops := qs\<rparr>
              in if \<not> ok then Some (0, s1)
                 else map_option (\<lambda>s'. (1, s')) (dma_wait es (fold (stage_one as) qs s1)))"

definition unstage_one :: "u32 list \<Rightarrow> operand \<Rightarrow> cstate \<Rightarrow> cstate" where
  "unstage_one as p s =
     (if op_is_output p
      then s\<lparr>cs_dma := snd (hes_dma_copy (as ! op_arg p) (op_local p) (op_bytes p) (cs_dma s))\<rparr>
      else s)"

definition stage_out :: "dma_event list \<Rightarrow> u32 list \<Rightarrow> cstate \<Rightarrow> cstate option" where
  "stage_out es as s = dma_wait es (fold (unstage_one as) (cs_ops s) s)"

section \<open>One core's share\<close>

text \<open>
  A call of one of the linked kernels, with the argument list it is given. Pointers are
  32-bit addresses.
\<close>

datatype kcall =
    MatMulCall u32 u32 u32 u32 u32 u32
  | GemmCall u32 u32 u32 u32 u32 u32 u32 u32 u32
  | ConvCall u32 u32 u32 u32 u32 u32 u32 u32 u32 u32 u32 bool u32
  | MfccCall u32 u32 u32 u32 u32 u32 u32 u32 u32 u32 u32 u32 u32 u32 u32

text \<open>\<open>run_slice\<close> up to the call it makes: None when this core has nothing to do.\<close>

definition slice_call :: "u32 \<Rightarrow> u32 list \<Rightarrow> u32 \<Rightarrow> u32 \<Rightarrow> u32 \<Rightarrow> u32 \<Rightarrow> kcall option" where
  "slice_call kid a sbase sstride idx nb =
     (let f = sizeof_float32 in
      if kid = HES_K_MATMUL_FP32 then
        (let M = a ! HES_MM_M; N = a ! HES_MM_N; O' = a ! HES_MM_O;
             (first, last') = slice M idx nb
         in if last' \<le> first then None
            else Some (MatMulCall (a ! HES_MM_A + first * N * f) (a ! HES_MM_B)
                   (a ! HES_MM_Y + first * O' * f) (last' - first) N O'))
      else if kid = HES_K_GEMM_FP32 then
        (let M = a ! HES_GEMM_M; N = a ! HES_GEMM_N; O' = a ! HES_GEMM_O;
             transA = a ! HES_GEMM_TRANSA;
             (first, last') = (if transA \<noteq> 0 then (0, if idx = 0 then M else 0)
                              else slice M idx nb)
         in if last' \<le> first then None
            else Some (GemmCall (a ! HES_GEMM_A + first * N * f) (a ! HES_GEMM_B)
                   (a ! HES_GEMM_C + first * O' * f) (a ! HES_GEMM_Y + first * O' * f)
                   (last' - first) N O' transA (a ! HES_GEMM_TRANSB)))
      else if kid = HES_K_CONV2D_FP32 then
        (let C = a ! HES_CONV_C; H = a ! HES_CONV_H; W = a ! HES_CONV_W;
             F = a ! HES_CONV_F; P = a ! HES_CONV_P; Q = a ! HES_CONV_Q;
             H_out = divu (H - P) (a ! HES_CONV_SP) + 1;
             W_out = divu (W - Q) (a ! HES_CONV_SQ) + 1;
             (first, last') = slice F idx nb
         in if last' \<le> first then None
            else Some (ConvCall (a ! HES_CONV_A) C H W
                   (a ! HES_CONV_B + first * C * P * Q * f) (last' - first) P Q
                   (a ! HES_CONV_SP) (a ! HES_CONV_SQ) (a ! HES_CONV_BIAS + first * f)
                   (a ! HES_CONV_HAS_BIAS \<noteq> 0) (a ! HES_CONV_Y + first * H_out * W_out * f)))
      else if kid = HES_K_MFCC_FP32 then
        (let frames = a ! HES_MFCC_NB_FRAMES; hop = a ! HES_MFCC_HOP;
             nb_cep = a ! HES_MFCC_NB_CEP;
             (first, last') = slice frames idx nb
         in if last' \<le> first then None
            else Some (MfccCall (a ! HES_MFCC_AUDIO + first * hop * f)
                   (a ! HES_MFCC_OUT + first * nb_cep * f) (last' - first)
                   (a ! HES_MFCC_FRAME_LEN) hop (a ! HES_MFCC_FFT_LEN) (a ! HES_MFCC_WINDOW)
                   (a ! HES_MFCC_TWIDDLES) (a ! HES_MFCC_MEL_COEFF) (a ! HES_MFCC_MEL_START)
                   (a ! HES_MFCC_MEL_LEN) (a ! HES_MFCC_NB_MEL) (a ! HES_MFCC_DCT) nb_cep
                   (sbase + idx * sstride)))
      else None)"

text \<open>
  The kernels are linked in: which implementation a call reaches depends on the cluster's
  image, so \<open>run_slice\<close> takes what a call does to memory as \<open>K\<close>.
\<close>

definition run_slice ::
    "(kcall \<Rightarrow> mem \<Rightarrow> mem) \<Rightarrow> u32 \<Rightarrow> u32 list \<Rightarrow> u32 \<Rightarrow> u32 \<Rightarrow> u32 \<Rightarrow> u32 \<Rightarrow> mem \<Rightarrow> mem" where
  "run_slice K kid a sbase sstride idx nb m =
     (case slice_call kid a sbase sstride idx nb of None \<Rightarrow> m | Some c \<Rightarrow> K c m)"

section \<open>The loop of main\<close>

text \<open>
  The control core between waking up and the first barrier. \<open>now\<close> is \<open>mcycle\<close>.
\<close>

definition ctrl_prepare ::
    "dma_event list \<Rightarrow> heap \<Rightarrow> cluster_cfg \<Rightarrow> u32 \<Rightarrow> cstate \<Rightarrow> cstate option" where
  "ctrl_prepare es hp cfg now s =
     (let b = cs_mbox s;
          s1 = s\<lparr>cs_served := mb_seq b, cs_t0 := now, active_kernel := mb_kernel_id b,
                 active_args := mb_args b, cs_staged := 0, cs_ops := []\<rparr>;
          (cursor, s2) = reserve_scratch hp (active_kernel s1) (mb_args b) (my_nb_compute cfg) s1;
          want_scratch = (plan_scratch (active_kernel s2) (mb_args b) \<noteq> 0)
      in case (if mb_flags b AND HES_JOB_STAGE \<noteq> 0
               then map_option (\<lambda>(r, s3). let s4 = s3\<lparr>cs_staged := r\<rparr>
                      in if r = 0 then s4\<lparr>active_args := mb_args b\<rparr> else s4)
                    (stage_in es hp (active_kernel s2) (mb_args b) cursor s2)
               else Some s2) of
           None \<Rightarrow> None
         | Some s5 \<Rightarrow> Some (
             if my_requires_staging cfg \<and> cs_staged s5 = 0
             then s5\<lparr>cs_mbox := b\<lparr>mb_error := HES_ERR_NEEDS_STAGING\<rparr>, active_kernel := HES_K_NONE\<rparr>
             else if want_scratch \<and> scratch_base s5 = 0
             then s5\<lparr>cs_mbox := b\<lparr>mb_error := HES_ERR_NO_SCRATCH\<rparr>, active_kernel := HES_K_NONE\<rparr>
             else s5\<lparr>cs_mbox := b\<lparr>mb_error := 0\<rparr>\<rparr>))"

text \<open>
  Between the barriers every compute core runs its slice. \<open>idxs\<close> is the order in which
  their effects reach memory.
\<close>

definition compute_phase ::
    "(kcall \<Rightarrow> mem \<Rightarrow> mem) \<Rightarrow> cluster_cfg \<Rightarrow> u32 list \<Rightarrow> cstate \<Rightarrow> cstate" where
  "compute_phase K cfg idxs s =
     s\<lparr>cs_mem := fold (\<lambda>idx. run_slice K (active_kernel s) (active_args s) (scratch_base s)
         (scratch_stride s) idx (my_nb_compute cfg)) idxs (cs_mem s)\<rparr>"

text \<open>The control core after the second barrier.\<close>

definition ctrl_finish :: "dma_event list \<Rightarrow> cluster_cfg \<Rightarrow> u32 \<Rightarrow> cstate \<Rightarrow> cstate option" where
  "ctrl_finish es cfg now s =
     map_option (\<lambda>s'. s'\<lparr>cs_mbox := (cs_mbox s')\<lparr>mb_cycles := now - cs_t0 s', mb_staged := cs_staged s',
           mb_nb_cores := my_nb_compute cfg, mb_done_seq := cs_served s'\<rparr>\<rparr>)
       (if cs_staged s \<noteq> 0 then stage_out es (mb_args (cs_mbox s)) s else Some s)"

text \<open>One whole job: a doorbell to a published \<open>done_seq\<close>.\<close>

definition serve_job ::
    "(kcall \<Rightarrow> mem \<Rightarrow> mem) \<Rightarrow> heap \<Rightarrow> cluster_cfg \<Rightarrow> dma_event list \<Rightarrow> dma_event list \<Rightarrow>
     u32 list \<Rightarrow> u32 \<Rightarrow> u32 \<Rightarrow> cstate \<Rightarrow> cstate option" where
  "serve_job K hp cfg es1 es2 idxs now1 now2 s =
     Option.bind (ctrl_prepare es1 hp cfg now1 s)
       (\<lambda>s'. ctrl_finish es2 cfg now2 (compute_phase K cfg idxs s'))"

text \<open>The condition \<open>main\<close> sleeps on: a new job has been published.\<close>

definition job_pending :: "cstate \<Rightarrow> bool" where
  "job_pending s \<longleftrightarrow> mb_seq (cs_mbox s) \<noteq> cs_served s"

end
