(* ===== verification/Staging.thy ===== *)
theory Staging
  imports ClusterRuntime
begin

text \<open>
  Staging operands into TCDM, \<open>plan_operands\<close> to \<open>stage_out\<close> of
  \<open>cluster_main.c\<close>: which buffers a job has, where their copies go, that the copies
  are disjoint and inside the heap, and what memory and arguments hold afterwards.
\<close>

section \<open>The plan\<close>

lemmas plan_defs = plan_operands_def op_add_def Let_def

text \<open>
  C17. The plan never overflows its arrays. Whatever the kernel and the arguments,
  \<open>op_add\<close> is called at most \<open>MAX_OPERANDS\<close> times, no argument slot is planned
  twice, and every slot is one the mailbox has.
\<close>

theorem plan_operands_bounds:
  "length (plan_operands k a) \<le> MAX_OPERANDS
   \<and> distinct (map op_arg (plan_operands k a))
   \<and> list_all (\<lambda>p. op_arg p < unat HES_MAILBOX_MAX_ARGS) (plan_operands k a)"
  by (auto simp: plan_defs MAX_OPERANDS_def job_arg HES_MAILBOX_MAX_ARGS_def)

lemma plan_args_distinct: "distinct (map op_arg (plan_operands k a))"
  by (auto simp: plan_defs job_arg)

lemma plan_arg_lt: "p \<in> set (plan_operands k a) \<Longrightarrow> op_arg p < 16"
  by (auto simp: plan_defs job_arg split: if_splits)

section \<open>Where the copies go\<close>

text \<open>Operand \<open>p\<close>'s copy, as bytes.\<close>

definition local_span :: "operand \<Rightarrow> u32 set" where
  "local_span p = span (op_local p) (unat (op_bytes p))"

text \<open>The staging area from a cursor to the limit.\<close>

definition area :: "u32 \<Rightarrow> u32 \<Rightarrow> u32 set" where
  "area cursor limit = {x. cursor \<le> x \<and> x < limit}"

text \<open>No operand is so long that the 32-bit cursor would wrap past the limit.\<close>

definition no_wrap :: "u32 \<Rightarrow> operand list \<Rightarrow> bool" where
  "no_wrap limit ps \<longleftrightarrow> (\<forall>p\<in>set ps. unat (op_bytes p) + unat limit + 63 < 4294967296)"

lemma assign_locals_shape:
  "assign_locals limit c ps = (ok, qs) \<Longrightarrow>
     map op_arg qs = map op_arg ps \<and> map op_bytes qs = map op_bytes ps
     \<and> map op_is_output qs = map op_is_output ps"
proof (induction ps arbitrary: c ok qs)
  case Nil
  then show ?case by simp
next
  case (Cons p ps)
  obtain ok' qs' where r: "assign_locals limit (align64 c + op_bytes p) ps = (ok', qs')"
    by (cases "assign_locals limit (align64 c + op_bytes p) ps")
  with Cons.IH [OF r] Cons.prems show ?case by (auto simp: Let_def split: if_splits)
qed

lemma assign_locals_sound:
  assumes "assign_locals limit c ps = (True, qs)" and "c \<le> limit" and "no_wrap limit ps"
  shows "(\<forall>q\<in>set qs. unat (op_local q) mod 64 = 0 \<and> unat c \<le> unat (op_local q)
           \<and> unat (op_local q) + unat (op_bytes q) \<le> unat limit)
    \<and> sorted_wrt (\<lambda>p q. unat (op_local p) + unat (op_bytes p) \<le> unat (op_local q)) qs"
  using assms
proof (induction ps arbitrary: c qs)
  case Nil
  then show ?case by simp
next
  case (Cons p ps)
  let ?c = "align64 c"
  obtain ok' qs' where r: "assign_locals limit (?c + op_bytes p) ps = (ok', qs')"
    by (cases "assign_locals limit (?c + op_bytes p) ps")
  from Cons.prems r have le: "?c + op_bytes p \<le> limit" and ok: "ok' = True"
    and qs: "qs = p\<lparr>op_local := ?c\<rparr> # qs'"
    by (auto simp: Let_def split: if_splits)
  have nw: "unat (op_bytes p) + unat limit + 63 < 4294967296" and nws: "no_wrap limit ps"
    using Cons.prems(3) by (auto simp: no_wrap_def)
  have cl: "unat c \<le> unat limit" using Cons.prems(2) by (simp add: word_le_nat_alt)
  have c63: "unat c + 63 < 4294967296" using nw cl by linarith
  have al: "unat c \<le> unat ?c" "unat ?c \<le> unat c + 63"
    using align64_ge [OF c63] by (simp_all add: word_le_nat_alt)
  have sum: "unat (?c + op_bytes p) = unat ?c + unat (op_bytes p)"
    by (rule unat_plus_small) (use nw cl al in linarith)
  then have fit: "unat ?c + unat (op_bytes p) \<le> unat limit" using le by (simp add: word_le_nat_alt)
  have IH: "(\<forall>q\<in>set qs'. unat (op_local q) mod 64 = 0 \<and> unat (?c + op_bytes p) \<le> unat (op_local q)
           \<and> unat (op_local q) + unat (op_bytes q) \<le> unat limit)
    \<and> sorted_wrt (\<lambda>p q. unat (op_local p) + unat (op_bytes p) \<le> unat (op_local q)) qs'"
    using Cons.IH [of "?c + op_bytes p" qs'] r ok le nws by simp
  then show ?case using qs fit al sum align64_aligned [of c] by (auto simp: sum)
qed

lemma local_span_area:
  assumes "unat c \<le> unat (op_local q)" and "unat (op_local q) + unat (op_bytes q) \<le> unat limit"
  shows "local_span q \<subseteq> area c limit"
proof
  fix x assume "x \<in> local_span q"
  then obtain i where i: "i < unat (op_bytes q)" "x = op_local q + of_nat i"
    by (auto simp: local_span_def span_def)
  have "unat (op_local q + of_nat i) = unat (op_local q) + i"
    using i assms unat_u32_lt [of limit]
    by (subst unat_plus_small) (simp_all add: unat_of_nat_lt)
  with i assms show "x \<in> area c limit"
    by (simp add: area_def word_le_nat_alt word_less_nat_alt)
qed

lemma assign_locals_area:
  assumes "assign_locals limit c ps = (True, qs)" and "c \<le> limit" and "no_wrap limit ps"
    and "q \<in> set qs"
  shows "local_span q \<subseteq> area c limit"
proof (rule local_span_area)
  show "unat c \<le> unat (op_local q)" "unat (op_local q) + unat (op_bytes q) \<le> unat limit"
    using assign_locals_sound [OF assms(1-3)] assms(4) by blast+
qed

lemma span_ordered_disjoint:
  assumes "unat p + n \<le> unat q" and "unat q + k \<le> 4294967296"
  shows "span p n \<inter> span q k = {}"
proof (rule ccontr)
  assume "span p n \<inter> span q k \<noteq> {}"
  then obtain i j where i: "i < n" "j < k" "p + of_nat i = q + of_nat j" by (auto simp: span_def)
  have "unat (p + of_nat i) = unat p + i"
    using i assms by (subst unat_plus_small) (simp_all add: unat_of_nat_small)
  moreover have "unat (q + of_nat j) = unat q + j"
    using i assms by (subst unat_plus_small) (simp_all add: unat_of_nat_small)
  ultimately show False using i assms by simp
qed

lemma local_spans_disjoint:
  assumes "assign_locals limit c ps = (True, qs)" and "c \<le> limit" and "no_wrap limit ps"
  shows "sorted_wrt (\<lambda>p q. local_span p \<inter> local_span q = {}) qs"
proof -
  note s = assign_locals_sound [OF assms]
  have "sorted_wrt (\<lambda>p q. unat (op_local p) + unat (op_bytes p) \<le> unat (op_local q)
      \<and> unat (op_local q) + unat (op_bytes q) \<le> unat limit) qs"
    using s by (induction qs) auto
  then show ?thesis
    by (rule sorted_wrt_mono_rel [rotated])
      (auto simp: local_span_def intro!: span_ordered_disjoint
        intro: order_trans [OF _ less_imp_le [OF unat_u32_lt]])
qed

section \<open>Copying operands\<close>

text \<open>A one-row transfer, as \<open>hes_dma_copy\<close> enqueues it.\<close>

definition row :: "dma \<Rightarrow> u32 \<Rightarrow> u32 \<Rightarrow> u32 \<Rightarrow> transfer" where
  "row d dst src sz = \<lparr>t_dst = dst, t_src = src, t_size = sz, t_dstride = d_dstride d,
     t_sstride = d_sstride d, t_reps = 1\<rparr>"

lemma hes_dma_copy_row:
  "d_pending (snd (hes_dma_copy dst src sz d)) = d_pending d @ [row d dst src sz]"
  "row (snd (hes_dma_copy dst src sz d)) = row d"
  by (auto simp: row_def hes_dma_copy_def hes_dma_start_def hes_dma_src_def hes_dma_dst_def
      HES_DMA_CFG_1D_def Let_def fun_eq_iff)

lemma run_row: "run_transfer (row d dst src sz) m = copy_bytes dst src sz m"
  by (simp add: run_transfer_def row_def for_u32_def)

lemma row_touches:
  "t_writes (row d dst src sz) = span dst (unat sz)" "t_reads (row d dst src sz) = span src (unat sz)"
  by (auto simp: t_writes_def t_reads_def row_def)

text \<open>
  A batch of copies \<open>(dst, src, n)\<close> whose destinations are disjoint from each other and
  from every source.
\<close>

definition batch_ok :: "(u32 \<times> u32 \<times> u32) list \<Rightarrow> bool" where
  "batch_ok cs \<longleftrightarrow>
     sorted_wrt (\<lambda>(d, _, n) (d', _, n'). span d (unat n) \<inter> span d' (unat n') = {}) cs
     \<and> (\<forall>(d, _, n)\<in>set cs. \<forall>(_, s', n')\<in>set cs. span d (unat n) \<inter> span s' (unat n') = {})"

definition run_batch :: "(u32 \<times> u32 \<times> u32) list \<Rightarrow> mem \<Rightarrow> mem" where
  "run_batch cs m = fold (\<lambda>(d, s, n). copy_bytes d s n) cs m"

lemma sorted_wrt_pair:
  "sorted_wrt P xs \<Longrightarrow> x \<in> set xs \<Longrightarrow> y \<in> set xs \<Longrightarrow> x \<noteq> y \<Longrightarrow> P x y \<or> P y x"
  by (induction xs) auto

lemma batch_independent:
  assumes "batch_ok cs"
  shows "independent (map (\<lambda>(dst, s, n). row d dst s n) cs)"
  unfolding independent_def
proof (intro ballI impI)
  fix t u assume t: "t \<in> set (map (\<lambda>(dst, s, n). row d dst s n) cs)"
    and u: "u \<in> set (map (\<lambda>(dst, s, n). row d dst s n) cs)" and ne: "t \<noteq> u"
  from t obtain d1 s1 n1 where c1: "(d1, s1, n1) \<in> set cs" "t = row d d1 s1 n1" by auto
  from u obtain d2 s2 n2 where c2: "(d2, s2, n2) \<in> set cs" "u = row d d2 s2 n2" by auto
  from ne c1 c2 have "(d1, s1, n1) \<noteq> (d2, s2, n2)" by auto
  note c = c1 c2 this
  have "span d1 (unat n1) \<inter> span d2 (unat n2) = {}"
    using sorted_wrt_pair [of _ cs "(d1, s1, n1)" "(d2, s2, n2)"] assms c
    unfolding batch_ok_def by fastforce
  moreover have "span d1 (unat n1) \<inter> span s2 (unat n2) = {}"
    using assms c unfolding batch_ok_def by fastforce
  ultimately show "t_writes t \<inter> t_writes u = {} \<and> t_writes t \<inter> t_reads u = {}"
    by (simp add: c row_touches)
qed

lemma run_batch_rows: "fold run_transfer (map (\<lambda>(dst, s, n). row d dst s n) cs) m = run_batch cs m"
  unfolding run_batch_def by (induction cs arbitrary: m) (auto simp: run_row)

lemma run_batch_outside:
  "\<forall>(d, s, n)\<in>set cs. x \<notin> span d (unat n) \<Longrightarrow> run_batch cs m x = m x"
  unfolding run_batch_def by (induction cs arbitrary: m) (auto simp: copy_bytes_outside)

lemma batch_ok_src:
  "batch_ok cs \<Longrightarrow> (d, s, n) \<in> set cs \<Longrightarrow> (d', s', n') \<in> set cs
    \<Longrightarrow> span d (unat n) \<inter> span s' (unat n') = {}"
  unfolding batch_ok_def by fastforce

lemma batch_ok_hd:
  "batch_ok ((d, s, n) # cs) \<Longrightarrow> (d', s', n') \<in> set cs \<Longrightarrow> span d (unat n) \<inter> span d' (unat n') = {}"
  unfolding batch_ok_def by fastforce

lemma batch_ok_tl: "batch_ok (c # cs) \<Longrightarrow> batch_ok cs"
  by (simp add: batch_ok_def split_beta)

lemma run_batch_inside:
  assumes "batch_ok cs" and "(d, s, n) \<in> set cs" and "i < unat n"
  shows "run_batch cs m (d + of_nat i) = m (s + of_nat i)"
  using assms
proof (induction cs arbitrary: m)
  case Nil
  then show ?case by simp
next
  case (Cons c cs)
  obtain d0 s0 n0 where c: "c = (d0, s0, n0)" by (cases c)
  have ok: "batch_ok cs" using Cons.prems(1) by (rule batch_ok_tl)
  have step: "run_batch (c # cs) m = run_batch cs (copy_bytes d0 s0 n0 m)"
    by (simp add: run_batch_def c)
  have din: "d + of_nat i \<in> span d (unat n)" "s + of_nat i \<in> span s (unat n)"
    using Cons.prems(3) by (auto simp: span_def)
  show ?case
  proof (cases "(d, s, n) \<in> set cs")
    case True
    have "span d0 (unat n0) \<inter> span s (unat n) = {}"
      using batch_ok_src [OF Cons.prems(1), of d0 s0 n0 d s n] c True by simp
    then have "s + of_nat i \<notin> span d0 (unat n0)" using din by blast
    then show ?thesis
      using Cons.IH [OF ok True Cons.prems(3)] by (simp add: step copy_bytes_outside)
  next
    case False
    with Cons.prems(2) have "(d, s, n) = c" by (metis set_ConsD)
    then have eq: "d0 = d" "s0 = s" "n0 = n" using c by simp_all
    have "\<forall>(d', s', n')\<in>set cs. d + of_nat i \<notin> span d' (unat n')"
    proof (clarify)
      fix d' s' n' assume m: "(d', s', n') \<in> set cs" "d + of_nat i \<in> span d' (unat n')"
      have "span d (unat n) \<inter> span d' (unat n') = {}"
        using batch_ok_hd [of d s n cs d' s' n'] Cons.prems(1) m(1) c eq by simp
      with m din show False by blast
    qed
    then show ?thesis
      using eq Cons.prems(3) by (simp add: step run_batch_outside copy_bytes_inside)
  qed
qed

text \<open>Waiting for a batch that was enqueued on an idle engine.\<close>

lemma hes_dma_wait_batch:
  assumes "d_pending d' = map (\<lambda>(dst, s, n). row d dst s n) cs" and "batch_ok cs"
    and "length cs \<le> completions es"
  shows "hes_dma_wait es (d', m) = Some (d'\<lparr>d_pending := []\<rparr>, run_batch cs m)"
  using hes_dma_wait_all [of d' es m] batch_independent [OF assms(2)] assms
  by (simp add: run_batch_rows)

section \<open>Staging in\<close>

text \<open>The copies \<open>stage_in\<close> and \<open>stage_out\<close> enqueue.\<close>

definition in_copies :: "u32 list \<Rightarrow> operand list \<Rightarrow> (u32 \<times> u32 \<times> u32) list" where
  "in_copies as qs = map (\<lambda>q. (op_local q, as ! op_arg q, op_bytes q)) (filter (\<lambda>q. \<not> op_is_output q) qs)"

definition out_copies :: "u32 list \<Rightarrow> operand list \<Rightarrow> (u32 \<times> u32 \<times> u32) list" where
  "out_copies as qs = map (\<lambda>q. (as ! op_arg q, op_local q, op_bytes q)) (filter op_is_output qs)"

definition repoint :: "operand list \<Rightarrow> u32 list \<Rightarrow> u32 list" where
  "repoint qs xs = fold (\<lambda>q xs. xs[op_arg q := op_local q]) qs xs"

lemma repoint_simps [simp]:
  "repoint [] xs = xs" "repoint (q # qs) xs = repoint qs (xs[op_arg q := op_local q])"
  by (simp_all add: repoint_def)

lemma repoint_length [simp]: "length (repoint qs xs) = length xs"
  by (induction qs arbitrary: xs) auto

lemma repoint_other: "k \<notin> op_arg ` set qs \<Longrightarrow> repoint qs xs ! k = xs ! k"
  by (induction qs arbitrary: xs) auto

lemma repoint_at:
  assumes "distinct (map op_arg qs)" and "q \<in> set qs" and "op_arg q < length xs"
  shows "repoint qs xs ! op_arg q = op_local q"
  using assms
proof (induction qs arbitrary: xs)
  case Nil
  then show ?case by simp
next
  case (Cons p qs)
  show ?case
  proof (cases "q = p")
    case True
    then have "op_arg q \<notin> op_arg ` set qs" using Cons.prems(1) by auto
    then show ?thesis using True Cons.prems(3) by (simp add: repoint_other)
  next
    case False
    then show ?thesis using Cons by simp
  qed
qed

definition stage_dma :: "u32 list \<Rightarrow> operand list \<Rightarrow> dma \<Rightarrow> dma" where
  "stage_dma as qs d = fold (\<lambda>(dst, src, n) d. snd (hes_dma_copy dst src n d)) (in_copies as qs) d"

lemma fold_stage_one:
  "fold (stage_one as) qs s
    = s\<lparr>active_args := repoint qs (active_args s), cs_dma := stage_dma as qs (cs_dma s)\<rparr>"
  by (induction qs arbitrary: s) (auto simp: stage_one_def stage_dma_def in_copies_def Let_def)

lemma fold_unstage_one:
  "fold (unstage_one as) qs s
    = s\<lparr>cs_dma := fold (\<lambda>(dst, src, n) d. snd (hes_dma_copy dst src n d)) (out_copies as qs) (cs_dma s)\<rparr>"
  by (induction qs arbitrary: s) (auto simp: unstage_one_def out_copies_def Let_def)

lemma enqueue_pending:
  "d_pending (fold (\<lambda>(dst, src, n) d. snd (hes_dma_copy dst src n d)) cs d)
     = d_pending d @ map (\<lambda>(dst, src, n). row d dst src n) cs"
  by (induction cs arbitrary: d) (auto simp: hes_dma_copy_row)

text \<open>
  Where staging is possible at all: the area is not empty, no operand is absurdly long, and
  the operands do not already live in the staging area.
\<close>

definition staging_pre :: "heap \<Rightarrow> u32 \<Rightarrow> u32 list \<Rightarrow> operand list \<Rightarrow> bool" where
  "staging_pre hp cursor as ps \<longleftrightarrow> cursor \<le> heap_end hp \<and> no_wrap (heap_end hp) ps
     \<and> (\<forall>p\<in>set ps. span (as ! op_arg p) (unat (op_bytes p)) \<inter> area cursor (heap_end hp) = {})"

lemma shape_image:
  assumes "map op_arg qs = map op_arg ps" "map op_bytes qs = map op_bytes ps"
    "map op_is_output qs = map op_is_output ps" and "q \<in> set qs"
  shows "\<exists>p\<in>set ps. op_arg p = op_arg q \<and> op_bytes p = op_bytes q \<and> op_is_output p = op_is_output q"
proof -
  obtain i where i: "i < length qs" "q = qs ! i" using assms(4) by (auto simp: in_set_conv_nth)
  have l: "length qs = length ps" using assms(1) by (metis length_map)
  have "op_arg (ps ! i) = op_arg (qs ! i)" "op_bytes (ps ! i) = op_bytes (qs ! i)"
    "op_is_output (ps ! i) = op_is_output (qs ! i)"
    using assms(1-3) i l by (metis nth_map)+
  with i l show ?thesis by (metis nth_mem)
qed

lemma in_copies_batch:
  assumes a: "assign_locals (heap_end hp) cursor ps = (True, qs)" and pre: "staging_pre hp cursor as ps"
  shows "batch_ok (in_copies as qs)"
proof -
  have c: "cursor \<le> heap_end hp" and nw: "no_wrap (heap_end hp) ps"
    using pre by (auto simp: staging_pre_def)
  note sound = assign_locals_sound [OF a c nw] and shape = assign_locals_shape [OF a]
  have loc: "local_span q \<subseteq> area cursor (heap_end hp)" if "q \<in> set qs" for q
    by (rule assign_locals_area [OF a c nw that])
  have src: "span (as ! op_arg q) (unat (op_bytes q)) \<inter> area cursor (heap_end hp) = {}" if "q \<in> set qs" for q
    using shape_image [of qs ps q] shape that pre unfolding staging_pre_def by metis
  have "sorted_wrt (\<lambda>p q. local_span p \<inter> local_span q = {}) (filter (\<lambda>q. \<not> op_is_output q) qs)"
    by (rule sorted_wrt_filter [OF local_spans_disjoint [OF a c nw]])
  then have "sorted_wrt (\<lambda>(d, _, n) (d', _, n'). span d (unat n) \<inter> span d' (unat n') = {}) (in_copies as qs)"
    by (simp add: in_copies_def sorted_wrt_map local_span_def)
  moreover have "span d (unat n) \<inter> span s' (unat n') = {}"
    if "(d, s, n) \<in> set (in_copies as qs)" "(d', s', n') \<in> set (in_copies as qs)" for d s n d' s' n'
    using that loc src unfolding in_copies_def local_span_def by fastforce
  ultimately show ?thesis unfolding batch_ok_def by fastforce
qed

lemma stage_in_result:
  assumes "plan_operands k as \<noteq> []"
    and "assign_locals (heap_end hp) cursor (plan_operands k as) = (True, qs)"
    and "staging_pre hp cursor as (plan_operands k as)"
    and "d_pending (cs_dma s) = []" and "length (plan_operands k as) \<le> completions es"
  shows "stage_in es hp k as cursor s = Some (1, s\<lparr>cs_ops := qs,
     active_args := repoint qs (active_args s),
     cs_dma := (stage_dma as qs (cs_dma s))\<lparr>d_pending := []\<rparr>,
     cs_mem := run_batch (in_copies as qs) (cs_mem s)\<rparr>)"
proof -
  let ?d = "stage_dma as qs (cs_dma s)"
  have "length qs = length (plan_operands k as)"
    using assign_locals_shape [OF assms(2)] by (metis length_map)
  moreover have "length (in_copies as qs) \<le> length qs" by (simp add: in_copies_def)
  ultimately have len: "length (in_copies as qs) \<le> completions es" using assms(5) by linarith
  have "d_pending ?d = map (\<lambda>(dst, src, n). row (cs_dma s) dst src n) (in_copies as qs)"
    by (simp add: stage_dma_def enqueue_pending assms(4))
  then have wait: "hes_dma_wait es (?d, cs_mem s)
      = Some (?d\<lparr>d_pending := []\<rparr>, run_batch (in_copies as qs) (cs_mem s))"
    by (rule hes_dma_wait_batch [OF _ in_copies_batch [OF assms(2,3)] len])
  show ?thesis
    unfolding stage_in_def Let_def assms(2) prod.case fold_stage_one dma_wait_def
    using assms(1) wait by simp
qed

text \<open>
  C12. Staging in. On a cluster whose DMA is idle, for operands that do not live in the
  staging area and are not absurdly long, if every operand got a place then
  \<open>stage_in\<close> returns 1; every input's copy holds the operand's bytes, memory outside
  the area is untouched, every operand's argument points at its copy and no other argument
  changed; and the copies are 64-byte aligned, inside the area and pairwise disjoint. This
  holds for every timing of the DMA that finishes the transfers.
\<close>

theorem stage_in_correct:
  assumes "plan_operands k as \<noteq> []"
    and "assign_locals (heap_end hp) cursor (plan_operands k as) = (True, qs)"
    and "staging_pre hp cursor as (plan_operands k as)"
    and "d_pending (cs_dma s) = []" and "length (plan_operands k as) \<le> completions es"
    and "length (active_args s) = 16"
  shows "\<exists>s'. stage_in es hp k as cursor s = Some (1, s')
    \<and> cs_ops s' = qs \<and> d_pending (cs_dma s') = []
    \<and> (\<forall>q\<in>set qs. unat (op_local q) mod 64 = 0 \<and> local_span q \<subseteq> area cursor (heap_end hp)
          \<and> active_args s' ! op_arg q = op_local q)
    \<and> sorted_wrt (\<lambda>p q. local_span p \<inter> local_span q = {}) qs
    \<and> (\<forall>j. j \<notin> op_arg ` set qs \<longrightarrow> active_args s' ! j = active_args s ! j)
    \<and> (\<forall>q\<in>set qs. \<not> op_is_output q \<longrightarrow> (\<forall>i<unat (op_bytes q).
          cs_mem s' (op_local q + of_nat i) = cs_mem s (as ! op_arg q + of_nat i)))
    \<and> (\<forall>x. x \<notin> area cursor (heap_end hp) \<longrightarrow> cs_mem s' x = cs_mem s x)"
proof -
  let ?ps = "plan_operands k as" and ?A = "area cursor (heap_end hp)"
  have c: "cursor \<le> heap_end hp" and nw: "no_wrap (heap_end hp) ?ps"
    using assms(3) by (auto simp: staging_pre_def)
  note sound = assign_locals_sound [OF assms(2) c nw] and shape = assign_locals_shape [OF assms(2)]
  have loc: "local_span q \<subseteq> ?A" if "q \<in> set qs" for q
    by (rule assign_locals_area [OF assms(2) c nw that])
  let ?m = "run_batch (in_copies as qs) (cs_mem s)"
  have dist: "distinct (map op_arg qs)" using shape plan_args_distinct by simp
  have lt: "op_arg q < 16" if q: "q \<in> set qs" for q
  proof -
    obtain p where "p \<in> set ?ps" "op_arg p = op_arg q"
      using shape_image [of qs ?ps q] shape q by blast
    then show ?thesis using plan_arg_lt by metis
  qed
  have ptr: "\<forall>q\<in>set qs. unat (op_local q) mod 64 = 0 \<and> local_span q \<subseteq> ?A
      \<and> repoint qs (active_args s) ! op_arg q = op_local q"
  proof (intro ballI conjI)
    fix q assume q: "q \<in> set qs"
    show "unat (op_local q) mod 64 = 0" using sound q by blast
    show "local_span q \<subseteq> ?A" by (rule loc [OF q])
    show "repoint qs (active_args s) ! op_arg q = op_local q"
      by (rule repoint_at [OF dist q]) (use lt [OF q] assms(6) in simp)
  qed
  have cp: "\<forall>q\<in>set qs. \<not> op_is_output q \<longrightarrow> (\<forall>i<unat (op_bytes q).
      ?m (op_local q + of_nat i) = cs_mem s (as ! op_arg q + of_nat i))"
  proof (intro ballI impI allI)
    fix q i assume q: "q \<in> set qs" "\<not> op_is_output q" "i < unat (op_bytes q)"
    then have "(op_local q, as ! op_arg q, op_bytes q) \<in> set (in_copies as qs)"
      by (auto simp: in_copies_def)
    from run_batch_inside [OF in_copies_batch [OF assms(2,3)] this q(3)]
    show "?m (op_local q + of_nat i) = cs_mem s (as ! op_arg q + of_nat i)" .
  qed
  have out: "\<forall>x. x \<notin> ?A \<longrightarrow> ?m x = cs_mem s x"
  proof (intro allI impI)
    fix x assume "x \<notin> ?A"
    then show "?m x = cs_mem s x"
      using loc by (intro run_batch_outside) (auto simp: in_copies_def local_span_def)
  qed
  show ?thesis
    unfolding stage_in_result [OF assms(1-5)]
    using ptr cp out local_spans_disjoint [OF assms(2) c nw] repoint_other [of _ qs "active_args s"]
    by (intro exI conjI) (rule refl, simp_all)
qed

text \<open>A one-element MatMul job on a small heap, for concrete runs.\<close>

definition small_heap :: heap where
  "small_heap = \<lparr>heap_start = 0x10000234, heap_end = 0x10002000\<rparr>"

definition unit_matmul :: "u32 list" where
  "unit_matmul = [0x80001000, 0x80002000, 0x80003000, 1, 1, 1] @ replicate 10 0"

definition idle_dma :: dma where
  "idle_dma = \<lparr>d_src = 0, d_dst = 0, d_sstride = 0, d_dstride = 0, d_reps = 0, d_next_id = 0, d_pending = []\<rparr>"

definition blank_mbox :: mailbox where
  "blank_mbox = \<lparr>mb_magic = HES_MBOX_MAGIC, mb_alive_mask = 0, mb_seq = 0, mb_kernel_id = 0, mb_nargs = 0,
     mb_done_seq = 0, mb_cycles = 0, mb_trap_cause = 0, mb_nb_cores = 0, mb_flags = 0, mb_staged = 0,
     mb_error = 0, mb_args = replicate 16 0, mb_probe = replicate 16 0\<rparr>"

definition blank_cluster :: "mem \<Rightarrow> cstate" where
  "blank_cluster m = \<lparr>active_args = replicate 16 0, active_kernel = 0, scratch_base = 0,
     scratch_stride = 0, cs_ops = [], cs_served = 0, cs_staged = 0, cs_t0 = 0, cs_dma = idle_dma,
     cs_mem = m, cs_mbox = blank_mbox\<rparr>"

definition unit_ops :: "operand list" where
  "unit_ops = [\<lparr>op_arg = 0, op_is_output = False, op_bytes = 4, op_local = 0x10000240\<rparr>,
     \<lparr>op_arg = 1, op_is_output = False, op_bytes = 4, op_local = 0x10000280\<rparr>,
     \<lparr>op_arg = 2, op_is_output = True, op_bytes = 4, op_local = 0x100002c0\<rparr>]"

lemma unit_plan: "plan_operands HES_K_MATMUL_FP32 unit_matmul =
    [\<lparr>op_arg = 0, op_is_output = False, op_bytes = 4, op_local = 0\<rparr>,
     \<lparr>op_arg = 1, op_is_output = False, op_bytes = 4, op_local = 0\<rparr>,
     \<lparr>op_arg = 2, op_is_output = True, op_bytes = 4, op_local = 0\<rparr>]"
  by code_simp

lemma unit_assign:
  "assign_locals (heap_end small_heap) 0x10000240 (plan_operands HES_K_MATMUL_FP32 unit_matmul) = (True, unit_ops)"
  by code_simp

lemma span_above_area:
  "unat limit \<le> unat p \<Longrightarrow> unat p + n \<le> 4294967296 \<Longrightarrow> span p n \<inter> area c limit = {}"
proof (rule ccontr)
  assume a: "unat limit \<le> unat p" "unat p + n \<le> 4294967296" and "span p n \<inter> area c limit \<noteq> {}"
  then obtain i where i: "i < n" "p + of_nat i < limit" by (auto simp: span_def area_def)
  have "unat (p + of_nat i) = unat p + i"
    using i a by (subst unat_plus_small) (simp_all add: unat_of_nat_small)
  with i a show False by (simp add: word_less_nat_alt)
qed

lemma unit_pre:
  "staging_pre small_heap 0x10000240 unit_matmul (plan_operands HES_K_MATMUL_FP32 unit_matmul)"
  unfolding staging_pre_def unit_plan no_wrap_def
  by (simp add: small_heap_def unit_matmul_def span_above_area)

theorem stage_in_correct_witness:
  "\<exists>s'. stage_in [Complete 1, Idle, Complete 0, Complete 0] small_heap HES_K_MATMUL_FP32 unit_matmul 0x10000240
      (blank_cluster (\<lambda>x. ucast (drop_bit 12 x))) = Some (1, s')
    \<and> cs_ops s' = unit_ops \<and> cs_mem s' 0x10000283 = 2"
proof -
  obtain s' where s': "stage_in [Complete 1, Idle, Complete 0, Complete 0] small_heap HES_K_MATMUL_FP32 unit_matmul
      0x10000240 (blank_cluster (\<lambda>x. ucast (drop_bit 12 x))) = Some (1, s')" "cs_ops s' = unit_ops"
    and cp: "\<forall>q\<in>set unit_ops. \<not> op_is_output q \<longrightarrow> (\<forall>i<unat (op_bytes q).
          cs_mem s' (op_local q + of_nat i) = ucast (drop_bit 12 (unit_matmul ! op_arg q + of_nat i)))"
    using stage_in_correct [OF _ unit_assign unit_pre, of "blank_cluster (\<lambda>x. ucast (drop_bit 12 x))"
        "[Complete 1, Idle, Complete 0, Complete 0]"]
    by (auto simp: unit_plan blank_cluster_def idle_dma_def)
  from cp have "\<forall>i<4. cs_mem s' (0x10000280 + of_nat i) = ucast (drop_bit 12 (0x80002000 + of_nat i :: u32))"
    by (simp add: unit_ops_def unit_matmul_def)
  then have "cs_mem s' 0x10000283 = ucast (drop_bit 12 (0x80002003 :: u32))"
    by (auto dest: spec [of _ 3])
  with s' show ?thesis by auto
qed

section \<open>Staging out\<close>

lemma plan_one_output: "length (filter op_is_output (plan_operands k as)) \<le> 1"
  by (auto simp: plan_defs)

text \<open>What \<open>stage_out\<close> leaves, for the operands of one job.\<close>

lemma stage_out_result:
  assumes "batch_ok (out_copies as (cs_ops s))" and "d_pending (cs_dma s) = []"
    and "length (out_copies as (cs_ops s)) \<le> completions es"
  shows "stage_out es as s = Some (s\<lparr>cs_dma :=
     (fold (\<lambda>(dst, src, n) d. snd (hes_dma_copy dst src n d)) (out_copies as (cs_ops s)) (cs_dma s))\<lparr>d_pending := []\<rparr>,
     cs_mem := run_batch (out_copies as (cs_ops s)) (cs_mem s)\<rparr>)"
proof -
  let ?cs = "out_copies as (cs_ops s)"
  let ?d = "fold (\<lambda>(dst, src, n) d. snd (hes_dma_copy dst src n d)) ?cs (cs_dma s)"
  have "d_pending ?d = map (\<lambda>(dst, src, n). row (cs_dma s) dst src n) ?cs"
    by (simp add: enqueue_pending assms(2))
  then have "hes_dma_wait es (?d, cs_mem s) = Some (?d\<lparr>d_pending := []\<rparr>, run_batch ?cs (cs_mem s))"
    by (rule hes_dma_wait_batch [OF _ assms(1,3)])
  then show ?thesis unfolding stage_out_def fold_unstage_one dma_wait_def by simp
qed

lemma one_output_batch:
  assumes "length (filter op_is_output qs) \<le> 1"
    and "\<forall>q\<in>set qs. op_is_output q \<longrightarrow> span (as ! op_arg q) (unat (op_bytes q)) \<inter> local_span q = {}"
  shows "batch_ok (out_copies as qs)" and "length (out_copies as qs) \<le> 1"
proof -
  show "length (out_copies as qs) \<le> 1" using assms(1) by (simp add: out_copies_def)
  consider "filter op_is_output qs = []" | q where "filter op_is_output qs = [q]"
    using assms(1) by (cases "filter op_is_output qs") auto
  then show "batch_ok (out_copies as qs)"
  proof cases
    case 1
    then show ?thesis by (simp add: batch_ok_def out_copies_def)
  next
    case (2 q)
    then have "q \<in> set (filter op_is_output qs)" by simp
    then have "q \<in> set qs" "op_is_output q" by simp_all
    with 2 assms(2) show ?thesis by (simp add: batch_ok_def out_copies_def local_span_def)
  qed
qed

text \<open>
  C13. Staging out. For the operands of any job, \<open>stage_out\<close> copies every output's copy
  back to where the mailbox says the output lives, whatever the DMA's timing, and changes
  nothing else in memory, provided the output's home does not overlap its own copy.
\<close>

theorem stage_out_correct:
  assumes "map op_is_output (cs_ops s) = map op_is_output (plan_operands k as)"
    and "\<forall>q\<in>set (cs_ops s). op_is_output q \<longrightarrow>
           span (as ! op_arg q) (unat (op_bytes q)) \<inter> local_span q = {}"
    and "d_pending (cs_dma s) = []" and "1 \<le> completions es"
  shows "\<exists>s'. stage_out es as s = Some s' \<and> d_pending (cs_dma s') = []
    \<and> (\<forall>q\<in>set (cs_ops s). op_is_output q \<longrightarrow> (\<forall>i<unat (op_bytes q).
          cs_mem s' (as ! op_arg q + of_nat i) = cs_mem s (op_local q + of_nat i)))
    \<and> (\<forall>x. (\<forall>q\<in>set (cs_ops s). op_is_output q \<longrightarrow> x \<notin> span (as ! op_arg q) (unat (op_bytes q)))
          \<longrightarrow> cs_mem s' x = cs_mem s x)"
proof -
  have "length (filter op_is_output (cs_ops s)) = length (filter id (map op_is_output (cs_ops s)))"
    by (simp add: filter_map)
  also have "\<dots> = length (filter op_is_output (plan_operands k as))"
    by (simp add: assms(1) filter_map)
  finally have one: "length (filter op_is_output (cs_ops s)) \<le> 1" using plan_one_output by simp
  note b = one_output_batch [OF one assms(2)]
  have len: "length (out_copies as (cs_ops s)) \<le> completions es" using b(2) assms(4) by linarith
  have cp: "\<forall>q\<in>set (cs_ops s). op_is_output q \<longrightarrow> (\<forall>i<unat (op_bytes q).
      run_batch (out_copies as (cs_ops s)) (cs_mem s) (as ! op_arg q + of_nat i)
        = cs_mem s (op_local q + of_nat i))"
    by (intro ballI impI allI run_batch_inside [OF b(1)]) (auto simp: out_copies_def)
  have out: "\<forall>x. (\<forall>q\<in>set (cs_ops s). op_is_output q \<longrightarrow> x \<notin> span (as ! op_arg q) (unat (op_bytes q)))
      \<longrightarrow> run_batch (out_copies as (cs_ops s)) (cs_mem s) x = cs_mem s x"
    by (intro allI impI run_batch_outside) (auto simp: out_copies_def)
  show ?thesis
    unfolding stage_out_result [OF b(1) assms(3) len] using cp out by simp
qed

theorem stage_out_correct_witness:
  "\<exists>s'. stage_out [Idle, Complete 0] unit_matmul
      ((blank_cluster (\<lambda>x. ucast x))\<lparr>cs_ops := unit_ops\<rparr>) = Some s'
    \<and> cs_mem s' 0x80003001 = 0xc1"
proof -
  let ?s = "(blank_cluster (\<lambda>x. ucast x))\<lparr>cs_ops := unit_ops\<rparr>"
  have shape: "map op_is_output (cs_ops ?s) = map op_is_output (plan_operands HES_K_MATMUL_FP32 unit_matmul)"
    by (simp add: unit_plan) (simp add: unit_ops_def)
  have sep: "\<forall>q\<in>set (cs_ops ?s). op_is_output q \<longrightarrow>
      span (unit_matmul ! op_arg q) (unat (op_bytes q)) \<inter> local_span q = {}"
    by (auto simp: unit_ops_def unit_matmul_def local_span_def span_4)
  obtain s' where "stage_out [Idle, Complete 0] unit_matmul ?s = Some s'"
    and "\<forall>q\<in>set (cs_ops ?s). op_is_output q \<longrightarrow> (\<forall>i<unat (op_bytes q).
          cs_mem s' (unit_matmul ! op_arg q + of_nat i) = cs_mem ?s (op_local q + of_nat i))"
    using stage_out_correct [OF shape sep, of "[Idle, Complete 0]"]
    by (auto simp: blank_cluster_def idle_dma_def)
  then show ?thesis
    by (auto simp: unit_ops_def unit_matmul_def blank_cluster_def dest: spec [of _ 1])
qed

section \<open>Scratch slabs\<close>

text \<open>Core \<open>i\<close>'s slab.\<close>

definition slab :: "cstate \<Rightarrow> nat \<Rightarrow> u32 set" where
  "slab s i = span (scratch_base s + of_nat i * scratch_stride s) (unat (scratch_stride s))"

text \<open>
  The size computation does not wrap: what the source takes for granted when it adds up
  the slabs in 32 bits. Where it does wrap its check can pass with no room for the slabs
  (\<open>wrapped_slabs_are_reserved\<close> below).
\<close>

definition scratch_fits_u32 :: "heap \<Rightarrow> u32 \<Rightarrow> u32 list \<Rightarrow> u32 \<Rightarrow> bool" where
  "scratch_fits_u32 hp k a nb \<longleftrightarrow> unat (heap_start hp) + 63
     + (unat (plan_scratch k a) + 63) * unat nb < 4294967296 \<and> unat (plan_scratch k a) + 63 < 4294967296"

text \<open>Where the slabs end, counted without wrapping.\<close>

definition slabs_end :: "heap \<Rightarrow> u32 \<Rightarrow> u32 list \<Rightarrow> u32 \<Rightarrow> nat" where
  "slabs_end hp k a nb = unat (align64 (heap_start hp)) + unat (align64 (plan_scratch k a)) * unat nb"

lemma slabs_fit_iff:
  assumes "scratch_fits_u32 hp k a nb"
  shows "heap_end hp < align64 (heap_start hp) + align64 (plan_scratch k a) * nb \<longleftrightarrow> unat (heap_end hp) < slabs_end hp k a nb"
    and "unat (align64 (heap_start hp) + align64 (plan_scratch k a) * nb) = slabs_end hp k a nb"
    and "heap_start hp \<le> align64 (heap_start hp)" and "slabs_end hp k a nb < 4294967296"
proof -
  have pw: "unat (plan_scratch k a) + 63 < 4294967296" and hw: "unat (heap_start hp) + 63 < 4294967296"
    using assms unfolding scratch_fits_u32_def by linarith+
  have "unat (align64 (plan_scratch k a)) * unat nb \<le> (unat (plan_scratch k a) + 63) * unat nb"
    using align64_ge(2) [OF pw] by (rule mult_le_mono1)
  then show tot: "slabs_end hp k a nb < 4294967296"
    using assms align64_ge(2) [OF hw] unfolding scratch_fits_u32_def slabs_end_def by linarith
  then show u: "unat (align64 (heap_start hp) + align64 (plan_scratch k a) * nb) = slabs_end hp k a nb"
    by (simp add: slabs_end_def unat_mult_small unat_plus_small)
  show "heap_end hp < align64 (heap_start hp) + align64 (plan_scratch k a) * nb \<longleftrightarrow> unat (heap_end hp) < slabs_end hp k a nb"
    by (simp add: word_less_nat_alt u)
  show "heap_start hp \<le> align64 (heap_start hp)" by (rule align64_ge(1) [OF hw])
qed

lemma slab_bounds:
  assumes "scratch_base s = base" "scratch_stride s = stride"
    and "unat base + unat stride * n < 4294967296" and "i < n"
  shows "unat (base + of_nat i * stride) = unat base + i * unat stride"
proof -
  have "n \<le> unat stride * n \<or> unat stride = 0" by (cases "unat stride") auto
  have le: "i * unat stride \<le> n * unat stride" using assms(4) by simp
  show ?thesis
  proof (cases "stride = 0")
    case True
    then show ?thesis by simp
  next
    case False
    then have "1 \<le> unat stride" by (simp add: Suc_leI unat_gt_0)
    then have "n \<le> n * unat stride" by simp
    moreover have "unat stride * n = n * unat stride" by simp
    ultimately have "i < 4294967296" using assms(3,4) by linarith
    then have i32: "unat (of_nat i :: u32) = i" by (rule unat_of_nat_small)
    have b: "unat base + i * unat stride < 4294967296"
      using assms(3) le by (simp only: mult.commute [of _ n])
    then have m: "unat (of_nat i * stride) = i * unat stride"
      by (subst unat_mult_small) (simp_all only: i32)
    show ?thesis using b by (subst unat_plus_small) (simp_all only: m)
  qed
qed


text \<open>The front-end's job on a heap of eight cores.\<close>

definition mfcc_job :: "u32 list" where
  "mfcc_job = [0x80001000, 0x80009000, 32, 256, 128, 256, 0x8000a000, 0x8000a400, 0x8000a800,
     0x8000ac00, 0x8000ac50, 40, 0x8000b000, 13, 246, 0]"


section \<open>Where the 32-bit sizes wrap\<close>

text \<open>
  The size check trusts 32-bit arithmetic. A MatMul of \<open>32768\<close> in each dimension has
  operands of \<open>2^32\<close> bytes each, which the plan records as 0 bytes: the check passes,
  nothing is copied, and the job counts as staged.
\<close>

definition huge_matmul :: "u32 list" where
  "huge_matmul = [0x80000000, 0x90000000, 0xa0000000, 32768, 32768, 32768] @ replicate 10 0"

lemma huge_plan: "plan_operands HES_K_MATMUL_FP32 huge_matmul =
    [\<lparr>op_arg = 0, op_is_output = False, op_bytes = 0, op_local = 0\<rparr>,
     \<lparr>op_arg = 1, op_is_output = False, op_bytes = 0, op_local = 0\<rparr>,
     \<lparr>op_arg = 2, op_is_output = True, op_bytes = 0, op_local = 0\<rparr>]"
  by code_simp

lemma huge_assign:
  "assign_locals (heap_end small_heap) 0x10000240 (plan_operands HES_K_MATMUL_FP32 huge_matmul)
     = (True, [\<lparr>op_arg = 0, op_is_output = False, op_bytes = 0, op_local = 0x10000240\<rparr>,
     \<lparr>op_arg = 1, op_is_output = False, op_bytes = 0, op_local = 0x10000240\<rparr>,
     \<lparr>op_arg = 2, op_is_output = True, op_bytes = 0, op_local = 0x10000240\<rparr>])"
  by code_simp

lemma huge_pre:
  "staging_pre small_heap 0x10000240 huge_matmul (plan_operands HES_K_MATMUL_FP32 huge_matmul)"
  unfolding staging_pre_def huge_plan no_wrap_def by (simp add: small_heap_def)

theorem huge_matmul_counts_as_staged:
  "map op_bytes (plan_operands HES_K_MATMUL_FP32 huge_matmul) = [0, 0, 0]
   \<and> map_option fst (stage_in [Complete 0, Complete 0, Complete 0] small_heap HES_K_MATMUL_FP32 huge_matmul 0x10000240
        (blank_cluster (\<lambda>x. 0))) = Some 1"
proof -
  have "stage_in [Complete 0, Complete 0, Complete 0] small_heap HES_K_MATMUL_FP32 huge_matmul 0x10000240
      (blank_cluster (\<lambda>x. 0)) \<in> range (\<lambda>s. Some (1, s))"
    using stage_in_result [OF _ huge_assign huge_pre, of "blank_cluster (\<lambda>x. 0)" "[Complete 0, Complete 0, Complete 0]"]
    by (simp add: huge_plan blank_cluster_def idle_dma_def)
  then show ?thesis by (auto simp: huge_plan)
qed

text \<open>
  So does \<open>reserve_scratch\<close>: a front-end job whose slabs are \<open>2^29\<close> bytes each, for eight cores. Their
  sum wraps to 0, the check passes, and the cores are given slabs of a heap of 128 KiB; the second
  already starts past the end of it, and operands would be staged over the first.
\<close>

definition huge_mfcc :: "u32 list" where
  "huge_mfcc = mfcc_job[HES_MFCC_FFT_LEN := 67108844]"

theorem wrapped_slabs_are_reserved:
  "reserve_scratch \<lparr>heap_start = 0x10000234, heap_end = 0x10020000\<rparr> HES_K_MFCC_FP32 huge_mfcc 8 (blank_cluster (\<lambda>x. 0))
     = (0x10000240, (blank_cluster (\<lambda>x. 0))\<lparr>scratch_base := 0x10000240, scratch_stride := 0x20000000\<rparr>)"
proof -
  have ps: "plan_scratch HES_K_MFCC_FP32 huge_mfcc = 0x20000000" by code_simp
  have al: "align64 0x10000234 = 0x10000240" "align64 0x20000000 = 0x20000000" by code_simp+
  show ?thesis by (simp add: reserve_scratch_def ps al Let_def)
qed

end
