(* ===== verification/WorkSplit.thy ===== *)
theory WorkSplit
  imports ClusterRuntime
begin

text \<open>
  How \<open>slice\<close> of \<open>cluster_main.c\<close> splits work: the cores' shares are consecutive,
  cover everything once and differ by at most one item, and the 32-bit arithmetic of the
  split never wraps.
\<close>

text \<open>Where core \<open>i\<close>'s share starts, in unbounded arithmetic.\<close>

definition slice_start :: "nat \<Rightarrow> nat \<Rightarrow> nat \<Rightarrow> nat" where
  "slice_start n nb i = i * (n div nb) + min i (n mod nb)"

lemma slice_start_0 [simp]: "slice_start n nb 0 = 0"
  by (simp add: slice_start_def)

lemma slice_start_nb [simp]: "0 < nb \<Longrightarrow> slice_start n nb nb = n"
  by (simp add: slice_start_def min_absorb2 less_imp_le)

lemma slice_start_Suc:
  "slice_start n nb (Suc i) = slice_start n nb i + n div nb + (if i < n mod nb then 1 else 0)"
  by (auto simp: slice_start_def min_def)

lemma slice_start_mono: "i \<le> j \<Longrightarrow> slice_start n nb i \<le> slice_start n nb j"
  by (auto simp: slice_start_def intro!: add_mono mult_le_mono1 min.mono)

lemma slice_start_le: "0 < nb \<Longrightarrow> i \<le> nb \<Longrightarrow> slice_start n nb i \<le> n"
  using slice_start_mono [of i nb n nb] by simp

lemma slice_nat:
  assumes "i < unat nb"
  shows "slice n (of_nat i) nb
    = (of_nat (slice_start (unat n) (unat nb) i), of_nat (slice_start (unat n) (unat nb) (Suc i)))"
proof -
  let ?n = "unat n" and ?b = "unat nb"
  have i: "unat (of_nat i :: u32) = i" using assms by (rule unat_of_nat_lt)
  have base: "n div nb = of_nat (?n div ?b)"
  proof -
    have "n div nb = of_nat (unat (n div nb))" by simp
    then show ?thesis unfolding unat_div .
  qed
  have rem: "n mod nb = of_nat (?n mod ?b)"
  proof -
    have "n mod nb = of_nat (unat (n mod nb))" by simp
    then show ?thesis unfolding unat_mod .
  qed
  have lt: "(of_nat i < n mod nb) = (i < ?n mod ?b)"
    by (simp add: word_less_nat_alt i unat_mod)
  show ?thesis
    unfolding slice_def Let_def lt
    by (simp add: slice_start_Suc) (simp add: slice_start_def base rem min_def)
qed

lemma slice_unat:
  assumes "i < unat nb" and "slice n (of_nat i) nb = (first, last')"
  shows "unat first = slice_start (unat n) (unat nb) i"
    and "unat last' = slice_start (unat n) (unat nb) (Suc i)"
proof -
  have le: "slice_start (unat n) (unat nb) j < 4294967296" if "j \<le> unat nb" for j
    using slice_start_le [of "unat nb" j "unat n"] that assms(1) unat_u32_lt [of n] by linarith
  show "unat first = slice_start (unat n) (unat nb) i"
    using assms le [of i] by (auto simp: slice_nat unat_of_nat_small)
  show "unat last' = slice_start (unat n) (unat nb) (Suc i)"
    using assms le [of "Suc i"] by (auto simp: slice_nat unat_of_nat_small)
qed

lemma concat_upt_chain:
  assumes "\<And>i. g i \<le> g (Suc i)" and "g 0 = 0"
  shows "concat (map (\<lambda>i. [g i..<g (Suc i)]) [0..<k]) = [0..<g k]"
proof (induction k)
  case 0
  then show ?case using assms(2) by simp
next
  case (Suc k)
  then show ?case using upt_add_eq_append [of 0 "g k" "g (Suc k) - g k"] assms(1) [of k]
    by simp
qed

text \<open>The items core \<open>i\<close> of \<open>nb\<close> works on.\<close>

definition slice_items :: "u32 \<Rightarrow> u32 \<Rightarrow> nat \<Rightarrow> nat list" where
  "slice_items n nb i = (case slice n (of_nat i) nb of (first, last') \<Rightarrow> [unat first..<unat last'])"

lemma slice_items_nat:
  assumes "i < unat nb"
  shows "slice_items n nb i
    = [slice_start (unat n) (unat nb) i..<slice_start (unat n) (unat nb) (Suc i)]"
proof -
  obtain f l where fl: "slice n (of_nat i) nb = (f, l)" by (cases "slice n (of_nat i) nb")
  then show ?thesis using slice_unat [OF assms fl] by (simp add: slice_items_def)
qed

text \<open>
  C15. Splitting work over the cores. For any number of items and any non-zero number of
  cores, the cores' shares, taken in order, are exactly the items \<open>0 .. n-1\<close>, each once;
  and every share has \<open>n / nb\<close> items or one more.
\<close>

theorem slice_tiles:
  assumes "nb \<noteq> 0"
  shows "concat (map (slice_items n nb) [0..<unat nb]) = [0..<unat n]
    \<and> (\<forall>i<unat nb. length (slice_items n nb i) \<in> {unat n div unat nb, unat n div unat nb + 1})"
proof
  have nb: "0 < unat nb" using assms by (simp add: unat_gt_0)
  let ?s = "slice_start (unat n) (unat nb)"
  have "concat (map (slice_items n nb) [0..<unat nb]) = concat (map (\<lambda>i. [?s i..<?s (Suc i)]) [0..<unat nb])"
    by (rule arg_cong [where f = concat], rule map_cong) (simp_all add: slice_items_nat)
  also have "concat (map (\<lambda>i. [?s i..<?s (Suc i)]) [0..<unat nb]) = [0..<?s (unat nb)]"
    by (rule concat_upt_chain) (simp_all add: slice_start_mono)
  finally show "concat (map (slice_items n nb) [0..<unat nb]) = [0..<unat n]"
    using nb by simp
  show "\<forall>i<unat nb. length (slice_items n nb i) \<in> {unat n div unat nb, unat n div unat nb + 1}"
    by (auto simp: slice_items_nat slice_start_Suc)
qed

theorem slice_tiles_witness:
  "(3::u32) \<noteq> 0 \<and> concat (map (slice_items 10 3) [0..<3]) = [0..<10]"
  using slice_tiles [of 3 10] by simp

lemma slice_empty_iff:
  assumes "i < unat nb" and "slice n (of_nat i) nb = (first, last')"
  shows "last' \<le> first \<longleftrightarrow> slice_items n nb i = []"
  using assms(2) by (auto simp: slice_items_def word_le_nat_alt)

end
