(* ===== verification/Ssr.thy ===== *)
theory Ssr
  imports CMem
begin

text \<open>
  Xssr and Xfrep as \<open>runtime/snitch/snitch_ssr.h\<close> programs and documents them: the
  configuration registers of a data mover, the loop nests the macros set up, and the address
  generator they drive. The theorem is that the \<open>n\<close>-th element a stream delivers is the
  one a nest of C loops would reach in its \<open>n\<close>-th iteration.
\<close>

section \<open>Data movers\<close>

text \<open>
  One data mover: the repeat count minus one, a bound (count minus one) and a stride per
  loop level, and the generator's own state.
\<close>

record ssr =
  s_repeat :: u32
  s_bounds :: "u32 list"
  s_strides :: "u32 list"
  s_ptr :: u32
  s_dim :: nat
  s_idx :: "u32 list"
  s_rep :: u32

type_synonym ssrs = "nat \<Rightarrow> ssr"

definition SSR_DM0 :: nat where "SSR_DM0 = 0"
definition SSR_DM1 :: nat where "SSR_DM1 = 1"
definition SSR_DM2 :: nat where "SSR_DM2 = 2"
definition SSR_DM_ALL :: nat where "SSR_DM_ALL = 31"

definition SSR_1D :: nat where "SSR_1D = 0"
definition SSR_2D :: nat where "SSR_2D = 1"
definition SSR_3D :: nat where "SSR_3D = 2"
definition SSR_4D :: nat where "SSR_4D = 3"

definition SSR_REG_STATUS :: nat where "SSR_REG_STATUS = 0"
definition SSR_REG_REPEAT :: nat where "SSR_REG_REPEAT = 1"
definition SSR_REG_BOUNDS :: nat where "SSR_REG_BOUNDS = 2"
definition SSR_REG_STRIDES :: nat where "SSR_REG_STRIDES = 6"
definition SSR_REG_RPTR :: nat where "SSR_REG_RPTR = 24"
definition SSR_REG_WPTR :: nat where "SSR_REG_WPTR = 28"

lemmas ssr_reg = SSR_DM0_def SSR_DM1_def SSR_DM2_def SSR_DM_ALL_def SSR_1D_def SSR_2D_def
  SSR_3D_def SSR_4D_def SSR_REG_STATUS_def SSR_REG_REPEAT_def SSR_REG_BOUNDS_def
  SSR_REG_STRIDES_def SSR_REG_RPTR_def SSR_REG_WPTR_def

text \<open>
  A write to one configuration register. Writing a pointer register arms the stream: it
  selects the number of loop levels and resets the counters.
\<close>

definition ssr_reg_write :: "nat \<Rightarrow> u32 \<Rightarrow> ssr \<Rightarrow> ssr" where
  "ssr_reg_write r v s =
     (if r = SSR_REG_REPEAT then s\<lparr>s_repeat := v\<rparr>
      else if SSR_REG_BOUNDS \<le> r \<and> r < SSR_REG_BOUNDS + 4
        then s\<lparr>s_bounds := (s_bounds s)[r - SSR_REG_BOUNDS := v]\<rparr>
      else if SSR_REG_STRIDES \<le> r \<and> r < SSR_REG_STRIDES + 4
        then s\<lparr>s_strides := (s_strides s)[r - SSR_REG_STRIDES := v]\<rparr>
      else if SSR_REG_RPTR \<le> r \<and> r < SSR_REG_RPTR + 8
        then s\<lparr>s_ptr := v, s_dim := (r - SSR_REG_RPTR) mod 4, s_idx := replicate 4 0, s_rep := 0\<rparr>
      else s)"

definition ssr_cfg_write :: "nat \<Rightarrow> nat \<Rightarrow> u32 \<Rightarrow> ssrs \<Rightarrow> ssrs" where
  "ssr_cfg_write reg dm v S =
     (if dm = SSR_DM_ALL then (\<lambda>d. if d < 3 then ssr_reg_write reg v (S d) else S d)
      else S(dm := ssr_reg_write reg v (S dm)))"

definition ssr_loop_1d :: "nat \<Rightarrow> u32 \<Rightarrow> u32 \<Rightarrow> ssrs \<Rightarrow> ssrs" where
  "ssr_loop_1d dm b0 s0 S =
     ssr_cfg_write (SSR_REG_STRIDES + 0) dm s0 (ssr_cfg_write (SSR_REG_BOUNDS + 0) dm (b0 - 1) S)"

definition ssr_loop_2d :: "nat \<Rightarrow> u32 \<Rightarrow> u32 \<Rightarrow> u32 \<Rightarrow> u32 \<Rightarrow> ssrs \<Rightarrow> ssrs" where
  "ssr_loop_2d dm b0 b1 s0 s1 S =
     (let c0 = b0 - 1; c1 = b1 - 1; a = 0;
          S1 = ssr_cfg_write (SSR_REG_BOUNDS + 0) dm c0 S;
          S2 = ssr_cfg_write (SSR_REG_BOUNDS + 1) dm c1 S1;
          S3 = ssr_cfg_write (SSR_REG_STRIDES + 0) dm (s0 - a) S2;
          a1 = a + s0 * c0
      in ssr_cfg_write (SSR_REG_STRIDES + 1) dm (s1 - a1) S3)"

definition ssr_loop_3d :: "nat \<Rightarrow> u32 \<Rightarrow> u32 \<Rightarrow> u32 \<Rightarrow> u32 \<Rightarrow> u32 \<Rightarrow> u32 \<Rightarrow> ssrs \<Rightarrow> ssrs" where
  "ssr_loop_3d dm b0 b1 b2 s0 s1 s2 S =
     (let c0 = b0 - 1; c1 = b1 - 1; c2 = b2 - 1; a = 0;
          S1 = ssr_cfg_write (SSR_REG_BOUNDS + 0) dm c0 S;
          S2 = ssr_cfg_write (SSR_REG_BOUNDS + 1) dm c1 S1;
          S3 = ssr_cfg_write (SSR_REG_BOUNDS + 2) dm c2 S2;
          S4 = ssr_cfg_write (SSR_REG_STRIDES + 0) dm (s0 - a) S3;
          a1 = a + s0 * c0;
          S5 = ssr_cfg_write (SSR_REG_STRIDES + 1) dm (s1 - a1) S4;
          a2 = a1 + s1 * c1
      in ssr_cfg_write (SSR_REG_STRIDES + 2) dm (s2 - a2) S5)"

definition ssr_loop_4d ::
    "nat \<Rightarrow> u32 \<Rightarrow> u32 \<Rightarrow> u32 \<Rightarrow> u32 \<Rightarrow> u32 \<Rightarrow> u32 \<Rightarrow> u32 \<Rightarrow> u32 \<Rightarrow> ssrs \<Rightarrow> ssrs" where
  "ssr_loop_4d dm b0 b1 b2 b3 s0 s1 s2 s3 S =
     (let c0 = b0 - 1; c1 = b1 - 1; c2 = b2 - 1; c3 = b3 - 1; a = 0;
          S1 = ssr_cfg_write (SSR_REG_BOUNDS + 0) dm c0 S;
          S2 = ssr_cfg_write (SSR_REG_BOUNDS + 1) dm c1 S1;
          S3 = ssr_cfg_write (SSR_REG_BOUNDS + 2) dm c2 S2;
          S4 = ssr_cfg_write (SSR_REG_BOUNDS + 3) dm c3 S3;
          S5 = ssr_cfg_write (SSR_REG_STRIDES + 0) dm (s0 - a) S4;
          a1 = a + s0 * c0;
          S6 = ssr_cfg_write (SSR_REG_STRIDES + 1) dm (s1 - a1) S5;
          a2 = a1 + s1 * c1;
          S7 = ssr_cfg_write (SSR_REG_STRIDES + 2) dm (s2 - a2) S6;
          a3 = a2 + s2 * c2
      in ssr_cfg_write (SSR_REG_STRIDES + 3) dm (s3 - a3) S7)"

definition ssr_repeat :: "nat \<Rightarrow> u32 \<Rightarrow> ssrs \<Rightarrow> ssrs" where
  "ssr_repeat dm cnt = ssr_cfg_write SSR_REG_REPEAT dm (cnt - 1)"

definition ssr_read :: "nat \<Rightarrow> nat \<Rightarrow> u32 \<Rightarrow> ssrs \<Rightarrow> ssrs" where
  "ssr_read dm dim ptr = ssr_cfg_write (SSR_REG_RPTR + dim) dm ptr"

definition ssr_write :: "nat \<Rightarrow> nat \<Rightarrow> u32 \<Rightarrow> ssrs \<Rightarrow> ssrs" where
  "ssr_write dm dim ptr = ssr_cfg_write (SSR_REG_WPTR + dim) dm ptr"

section \<open>The address generator\<close>

text \<open>
  One step of the loop nest: the innermost level that has iterations left moves on and
  applies its stride; the levels inside it start over.
\<close>

fun advance :: "u32 list \<Rightarrow> u32 list \<Rightarrow> u32 list \<Rightarrow> u32 list \<times> u32" where
  "advance (b # bs) (d # ds) (i # is) =
     (if i \<noteq> b then ((i + 1) # is, d)
      else let (is', d') = advance bs ds is in (0 # is', d'))"
| "advance _ _ is = (is, 0)"

text \<open>
  An FP instruction reads the stream's register: it gets the current element, and the
  generator moves on once the element has been delivered as often as asked for.
\<close>

definition ssr_next :: "ssr \<Rightarrow> ssr" where
  "ssr_next s =
     (if s_rep s \<noteq> s_repeat s then s\<lparr>s_rep := s_rep s + 1\<rparr>
      else let L = Suc (s_dim s);
               (is, d) = advance (take L (s_bounds s)) (take L (s_strides s)) (take L (s_idx s))
           in s\<lparr>s_rep := 0, s_idx := is @ drop L (s_idx s), s_ptr := s_ptr s + d\<rparr>)"

definition ssr_pop :: "mem \<Rightarrow> nat \<Rightarrow> ssrs \<Rightarrow> u32 \<times> ssrs" where
  "ssr_pop m dm S = (ld32 m (s_ptr (S dm)), S(dm := ssr_next (S dm)))"

text \<open>\<open>frep.o\<close>: the body, \<open>rpt + 1\<close> times.\<close>

definition FREP_O :: "u32 \<Rightarrow> ('s \<Rightarrow> 's) \<Rightarrow> 's \<Rightarrow> 's" where
  "FREP_O rpt body s = (body ^^ Suc (unat rpt)) s"

section \<open>What a loop nest visits\<close>

text \<open>The counters of a nest of loops with these counts, innermost first, in iteration \<open>n\<close>.\<close>

fun digits :: "nat list \<Rightarrow> nat \<Rightarrow> nat list" where
  "digits [] n = []"
| "digits (c # cs) n = (n mod c) # digits cs (n div c)"

text \<open>The address they denote.\<close>

fun offset :: "nat list \<Rightarrow> u32 list \<Rightarrow> u32" where
  "offset (i # is) (s # ss) = of_nat i * s + offset is ss"
| "offset _ _ = 0"

text \<open>The strides the macros program: each level's own minus what the levels inside it moved.\<close>

fun deltas :: "u32 \<Rightarrow> nat list \<Rightarrow> u32 list \<Rightarrow> u32 list" where
  "deltas a (c # cs) (s # ss) = (s - a) # deltas (a + s * (of_nat c - 1)) cs ss"
| "deltas _ _ _ = []"

definition counts_ok :: "nat list \<Rightarrow> bool" where
  "counts_ok cs \<longleftrightarrow> (\<forall>c\<in>set cs. 0 < c \<and> c < 4294967296)"

lemma counts_ok_Nil [simp]: "counts_ok []"
  by (simp add: counts_ok_def)

lemma counts_ok_Cons [simp]: "counts_ok (c # cs) \<longleftrightarrow> 0 < c \<and> c < 4294967296 \<and> counts_ok cs"
  by (auto simp: counts_ok_def)

lemma of_nat_eq_u32:
  "i < 4294967296 \<Longrightarrow> j < 4294967296 \<Longrightarrow> ((of_nat i :: u32) = of_nat j) = (i = j)"
  by (metis unat_of_nat_small)

lemma offset_zero_digits [simp]: "offset (digits cs 0) ss = 0"
proof (induction cs arbitrary: ss)
  case (Cons c cs)
  then show ?case by (cases ss) auto
qed simp

lemma advance_digits:
  assumes "counts_ok cs" and "length ss = length cs" and "Suc n < prod_list cs"
  shows "\<exists>d. advance (map (\<lambda>c. of_nat c - 1) cs) (deltas a cs ss) (map of_nat (digits cs n))
      = (map of_nat (digits cs (Suc n)), d)
    \<and> offset (digits cs (Suc n)) ss = offset (digits cs n) ss + d + a"
  using assms
proof (induction cs arbitrary: a ss n)
  case Nil
  then show ?case by simp
next
  case (Cons c cs)
  obtain s ss' where ss: "ss = s # ss'" "length ss' = length cs"
    using Cons.prems(2) by (cases ss) auto
  have c: "0 < c" "c < 4294967296" "counts_ok cs" using Cons.prems(1) by auto
  have pred: "(of_nat c :: u32) - 1 = of_nat (c - 1)" using c(1) by (simp add: of_nat_diff)
  have last: "(of_nat (n mod c) = (of_nat c :: u32) - 1) = (n mod c = c - 1)"
    unfolding pred using c mod_less_divisor [OF c(1), of n] by (intro of_nat_eq_u32) linarith+
  show ?case
  proof (cases "n mod c = c - 1")
    case False
    then have "Suc (n mod c) \<noteq> c" using c(1) by auto
    then have "Suc n mod c = Suc (n mod c)" "Suc n div c = n div c"
      by (simp_all add: mod_Suc div_Suc)
    then show ?thesis
      using False last by (intro exI [of _ "s - a"]) (simp add: ss algebra_simps)
  next
    case True
    then have e: "Suc (n mod c) = c" using c(1) by simp
    then have m: "Suc n mod c = 0" "Suc n div c = Suc (n div c)"
      by (simp_all add: mod_Suc div_Suc)
    have "Suc n < c * prod_list cs" using Cons.prems(3) by simp
    then have "Suc (n div c) < prod_list cs"
      unfolding m(2) [symmetric] using c(1) by (simp add: less_mult_imp_div_less mult.commute)
    from Cons.IH [OF c(3) ss(2) this, of "a + s * (of_nat c - 1)"] obtain d where
      d: "advance (map (\<lambda>c. of_nat c - 1) cs) (deltas (a + s * (of_nat c - 1)) cs ss') (map of_nat (digits cs (n div c)))
        = (map of_nat (digits cs (Suc (n div c))), d)"
      "offset (digits cs (Suc (n div c))) ss' = offset (digits cs (n div c)) ss' + d + (a + s * (of_nat c - 1))"
      by blast
    have lt: "of_nat (n mod c) = (of_nat c :: u32) - 1" using last True by simp
    have o1: "offset (digits (c # cs) n) ss = (of_nat c - 1) * s + offset (digits cs (n div c)) ss'"
      by (simp only: ss digits.simps offset.simps lt)
    have o2: "offset (digits (c # cs) (Suc n)) ss = offset (digits cs (n div c)) ss' + d + (a + s * (of_nat c - 1))"
      by (simp add: ss m d)
    have adv: "advance (map (\<lambda>c. of_nat c - 1) (c # cs)) (deltas a (c # cs) ss) (map of_nat (digits (c # cs) n))
        = (map of_nat (digits (c # cs) (Suc n)), d)"
      using d(1) m lt by (simp add: ss)
    show ?thesis unfolding adv o1 o2 by (intro exI [of _ d] conjI refl) (simp add: mult.commute)
  qed
qed

section \<open>Streams\<close>

text \<open>
  A data mover that has delivered \<open>n\<close> elements of the stream with counts \<open>cs\<close> and
  byte strides \<open>ss\<close> from \<open>base\<close>, each element \<open>r\<close> times.
\<close>

definition stream_at :: "nat list \<Rightarrow> u32 list \<Rightarrow> nat \<Rightarrow> u32 \<Rightarrow> nat \<Rightarrow> ssr \<Rightarrow> bool" where
  "stream_at cs ss r base n s \<longleftrightarrow>
     s_repeat s = of_nat r - 1 \<and> Suc (s_dim s) = length cs
     \<and> take (length cs) (s_bounds s) = map (\<lambda>c. of_nat c - 1) cs
     \<and> take (length cs) (s_strides s) = deltas 0 cs ss
     \<and> take (length cs) (s_idx s) = map of_nat (digits cs (n div r))
     \<and> s_rep s = of_nat (n mod r) \<and> s_ptr s = base + offset (digits cs (n div r)) ss"

lemma length_digits [simp]: "length (digits cs n) = length cs"
  by (induction cs arbitrary: n) auto

lemma stream_step:
  assumes "stream_at cs ss r base n s" and "counts_ok cs" and "length ss = length cs"
    and "0 < r" "r < 4294967296" and "Suc n < r * prod_list cs"
  shows "stream_at cs ss r base (Suc n) (ssr_next s)"
proof -
  have pred: "(of_nat r :: u32) - 1 = of_nat (r - 1)" using assms(4) by (simp add: of_nat_diff)
  have rep: "(s_rep s = s_repeat s) = (n mod r = r - 1)"
  proof -
    have "n mod r < 4294967296" "r - 1 < 4294967296"
      using mod_less_divisor [OF assms(4), of n] assms(5) by linarith+
    moreover have "s_rep s = of_nat (n mod r)" "s_repeat s = of_nat (r - 1)"
      using assms(1) unfolding stream_at_def pred by blast+
    ultimately show ?thesis by (simp only: of_nat_eq_u32)
  qed
  show ?thesis
  proof (cases "n mod r = r - 1")
    case False
    then have "Suc (n mod r) \<noteq> r" using assms(4) by auto
    then have "Suc n mod r = Suc (n mod r)" "Suc n div r = n div r"
      by (simp_all add: mod_Suc div_Suc)
    moreover have "ssr_next s = s\<lparr>s_rep := s_rep s + 1\<rparr>" using rep False by (simp add: ssr_next_def)
    ultimately show ?thesis using assms(1) by (simp add: stream_at_def algebra_simps)
  next
    case True
    then have e: "Suc (n mod r) = r" using assms(4) by simp
    then have m: "Suc n mod r = 0" "Suc n div r = Suc (n div r)"
      by (simp_all add: mod_Suc div_Suc)
    have "Suc (n div r) < prod_list cs"
      unfolding m(2) [symmetric] using assms(6) by (simp add: less_mult_imp_div_less mult.commute)
    from advance_digits [OF assms(2,3) this, of 0] obtain d where
      d: "advance (map (\<lambda>c. of_nat c - 1) cs) (deltas 0 cs ss) (map of_nat (digits cs (n div r)))
        = (map of_nat (digits cs (Suc (n div r))), d)"
      "offset (digits cs (Suc (n div r))) ss = offset (digits cs (n div r)) ss + d" by auto
    have L: "Suc (s_dim s) = length cs" using assms(1) by (simp add: stream_at_def)
    have "ssr_next s = s\<lparr>s_rep := 0,
        s_idx := map of_nat (digits cs (Suc (n div r))) @ drop (length cs) (s_idx s), s_ptr := s_ptr s + d\<rparr>"
      using assms(1) rep True d(1) unfolding stream_at_def ssr_next_def L by simp
    then show ?thesis using assms(1) d m by (simp add: stream_at_def)
  qed
qed

lemma stream_steps:
  assumes "stream_at cs ss r base n s" and "counts_ok cs" and "length ss = length cs"
    and "0 < r" "r < 4294967296" and "n + k < r * prod_list cs"
  shows "stream_at cs ss r base (n + k) ((ssr_next ^^ k) s)"
  using assms(6)
proof (induction k)
  case 0
  then show ?case using assms(1) by simp
next
  case (Suc k)
  then show ?case using stream_step [OF _ assms(2-5), of base "n + k" "(ssr_next ^^ k) s"] by simp
qed

text \<open>Where a mover that started a stream points after \<open>n\<close> elements.\<close>

lemma stream_ptr:
  assumes "stream_at cs ss r p 0 s" and "counts_ok cs" and "length ss = length cs"
    and "0 < r" "r < 4294967296" and "n < r * prod_list cs"
  shows "s_ptr ((ssr_next ^^ n) s) = p + offset (digits cs (n div r)) ss"
  using stream_steps [OF assms(1-5), of n] assms(6) by (simp add: stream_at_def)

section \<open>The macros set up the nest they name\<close>

definition ssr_wf :: "ssr \<Rightarrow> bool" where
  "ssr_wf s \<longleftrightarrow> length (s_bounds s) = 4 \<and> length (s_strides s) = 4 \<and> length (s_idx s) = 4"

lemma list4: "length xs = 4 \<Longrightarrow> \<exists>a b c d. xs = [a, b, c, d]"
  by (auto simp: numeral_eq_Suc length_Suc_conv)

lemma ssr_reg_write_wf: "ssr_wf s \<Longrightarrow> ssr_wf (ssr_reg_write reg v s)"
  by (auto simp: ssr_reg_write_def ssr_wf_def)

lemma ssr_next_wf: "ssr_wf s \<Longrightarrow> s_dim s < 4 \<Longrightarrow> ssr_wf (ssr_next s)"
proof -
  have len: "length (fst (advance bs ds js)) = length js" for bs ds js :: "u32 list"
    by (induction bs ds js rule: advance.induct) (auto split: prod.splits)
  assume w: "ssr_wf s" "s_dim s < 4"
  show ?thesis using w len [of "take (Suc (s_dim s)) (s_bounds s)" "take (Suc (s_dim s)) (s_strides s)" "take (Suc (s_dim s)) (s_idx s)"]
    by (auto simp: ssr_wf_def ssr_next_def Let_def split: prod.splits)
qed

text \<open>A data mover whose nest has been programmed but which has not been armed.\<close>

definition programmed :: "nat list \<Rightarrow> u32 list \<Rightarrow> ssr \<Rightarrow> bool" where
  "programmed cs ss s \<longleftrightarrow> length cs \<le> 4 \<and> ssr_wf s
     \<and> take (length cs) (s_bounds s) = map (\<lambda>c. of_nat c - 1) cs
     \<and> take (length cs) (s_strides s) = deltas 0 cs ss"

lemma upd4 [simp]:
  "[a, b, c, d][0 := x] = [x, b, c, d]" "[a, b, c, d][Suc 0 := x] = [a, x, c, d]"
  "[a, b, c, d][2 := x] = [a, b, x, d]" "[a, b, c, d][3 := x] = [a, b, c, x]"
  by (simp_all add: numeral_eq_Suc)

lemma ssr_loop_1d_programmed:
  assumes "ssr_wf (S dm)" "dm < 3"
  shows "programmed [unat b0] [s0] (ssr_loop_1d dm b0 s0 S dm)"
    and "s_repeat (ssr_loop_1d dm b0 s0 S dm) = s_repeat (S dm)"
    and "\<And>d. d \<noteq> dm \<Longrightarrow> ssr_loop_1d dm b0 s0 S d = S d"
  using assms list4 [of "s_bounds (S dm)"] list4 [of "s_strides (S dm)"]
  by (auto simp: ssr_wf_def programmed_def ssr_loop_1d_def ssr_cfg_write_def ssr_reg_write_def ssr_reg)

lemma ssr_loop_2d_programmed:
  assumes "ssr_wf (S dm)" "dm < 3"
  shows "programmed [unat b0, unat b1] [s0, s1] (ssr_loop_2d dm b0 b1 s0 s1 S dm)"
    and "s_repeat (ssr_loop_2d dm b0 b1 s0 s1 S dm) = s_repeat (S dm)"
    and "\<And>d. d \<noteq> dm \<Longrightarrow> ssr_loop_2d dm b0 b1 s0 s1 S d = S d"
  using assms list4 [of "s_bounds (S dm)"] list4 [of "s_strides (S dm)"]
  by (auto simp: ssr_wf_def programmed_def ssr_loop_2d_def ssr_cfg_write_def ssr_reg_write_def ssr_reg
      Let_def)

lemma ssr_loop_3d_programmed:
  assumes "ssr_wf (S dm)" "dm < 3"
  shows "programmed [unat b0, unat b1, unat b2] [s0, s1, s2] (ssr_loop_3d dm b0 b1 b2 s0 s1 s2 S dm)"
    and "s_repeat (ssr_loop_3d dm b0 b1 b2 s0 s1 s2 S dm) = s_repeat (S dm)"
    and "\<And>d. d \<noteq> dm \<Longrightarrow> ssr_loop_3d dm b0 b1 b2 s0 s1 s2 S d = S d"
  using assms list4 [of "s_bounds (S dm)"] list4 [of "s_strides (S dm)"]
  by (auto simp: ssr_wf_def programmed_def ssr_loop_3d_def ssr_cfg_write_def ssr_reg_write_def ssr_reg
      Let_def)

lemma ssr_loop_4d_programmed:
  assumes "ssr_wf (S dm)" "dm < 3"
  shows "programmed [unat b0, unat b1, unat b2, unat b3] [s0, s1, s2, s3]
      (ssr_loop_4d dm b0 b1 b2 b3 s0 s1 s2 s3 S dm)"
    and "s_repeat (ssr_loop_4d dm b0 b1 b2 b3 s0 s1 s2 s3 S dm) = s_repeat (S dm)"
    and "\<And>d. d \<noteq> dm \<Longrightarrow> ssr_loop_4d dm b0 b1 b2 b3 s0 s1 s2 s3 S d = S d"
  using assms list4 [of "s_bounds (S dm)"] list4 [of "s_strides (S dm)"]
  by (auto simp: ssr_wf_def programmed_def ssr_loop_4d_def ssr_cfg_write_def ssr_reg_write_def ssr_reg
      Let_def)

lemma ssr_repeat_programmed:
  assumes "programmed cs ss (S dm)" "dm < 3"
  shows "programmed cs ss (ssr_repeat dm c S dm)" and "s_repeat (ssr_repeat dm c S dm) = c - 1"
    and "\<And>d. d \<noteq> dm \<Longrightarrow> ssr_repeat dm c S d = S d"
  using assms
  by (auto simp: ssr_wf_def programmed_def ssr_repeat_def ssr_cfg_write_def ssr_reg_write_def ssr_reg)

lemma map_of_nat_digits_0: "map of_nat (digits cs 0) = (replicate (length cs) 0 :: u32 list)"
  by (induction cs) auto

lemma ssr_read_streams:
  assumes "programmed cs ss (S dm)" "dm < 3" and "s_repeat (S dm) = of_nat r - 1"
    and "Suc dim = length cs" and "0 < r"
  shows "stream_at cs ss r p 0 (ssr_read dm dim p S dm)"
    and "ssr_wf (ssr_read dm dim p S dm)"
    and "\<And>d. d \<noteq> dm \<Longrightarrow> ssr_read dm dim p S d = S d"
proof -
  have dim: "dim < 4" using assms(1,4) by (simp add: programmed_def)
  then have eq: "ssr_read dm dim p S dm = (S dm)\<lparr>s_ptr := p, s_dim := dim, s_idx := replicate 4 0, s_rep := 0\<rparr>"
    using assms(2) by (simp add: ssr_read_def ssr_cfg_write_def ssr_reg_write_def ssr_reg)
  show "stream_at cs ss r p 0 (ssr_read dm dim p S dm)"
    unfolding eq using assms by (simp add: programmed_def stream_at_def map_of_nat_digits_0)
  show "ssr_wf (ssr_read dm dim p S dm)"
    unfolding eq using assms(1) by (simp add: programmed_def ssr_wf_def)
  show "\<And>d. d \<noteq> dm \<Longrightarrow> ssr_read dm dim p S d = S d"
    using assms(2) by (simp add: ssr_read_def ssr_cfg_write_def ssr_reg)
qed

text \<open>Delivering elements leaves the programming alone, so a stream can be armed again.\<close>

lemma advance_length [simp]: "length (fst (advance bs ds js)) = length js"
  by (induction bs ds js rule: advance.induct) (auto split: prod.splits)

lemma ssr_next_config:
  "s_bounds (ssr_next s) = s_bounds s" "s_strides (ssr_next s) = s_strides s"
  "s_repeat (ssr_next s) = s_repeat s" "s_dim (ssr_next s) = s_dim s"
  by (simp_all add: ssr_next_def Let_def split: prod.splits)

lemma ssr_next_config_steps [simp]:
  "s_bounds ((ssr_next ^^ n) s) = s_bounds s" "s_strides ((ssr_next ^^ n) s) = s_strides s"
  "s_repeat ((ssr_next ^^ n) s) = s_repeat s" "s_dim ((ssr_next ^^ n) s) = s_dim s"
  by (induction n) (simp_all add: ssr_next_config)

lemma ssr_next_wf_steps: "ssr_wf s \<Longrightarrow> s_dim s < 4 \<Longrightarrow> ssr_wf ((ssr_next ^^ n) s)"
  by (induction n) (simp_all add: ssr_next_wf)

lemma programmed_steps:
  "programmed cs ss s \<Longrightarrow> s_dim s < 4 \<Longrightarrow> programmed cs ss ((ssr_next ^^ n) s)"
  by (simp add: programmed_def ssr_next_wf_steps)

lemma ssr_read_keeps:
  assumes "programmed cs ss (S dm)" "dm < 3" and "dim < 4"
  shows "programmed cs ss (ssr_read dm dim p S dm)" and "s_dim (ssr_read dm dim p S dm) = dim"
    and "s_repeat (ssr_read dm dim p S dm) = s_repeat (S dm)"
proof -
  have "ssr_read dm dim p S dm = (S dm)\<lparr>s_ptr := p, s_dim := dim, s_idx := replicate 4 0, s_rep := 0\<rparr>"
    using assms(2,3) by (simp add: ssr_read_def ssr_cfg_write_def ssr_reg_write_def ssr_reg)
  then show "programmed cs ss (ssr_read dm dim p S dm)" "s_dim (ssr_read dm dim p S dm) = dim"
    "s_repeat (ssr_read dm dim p S dm) = s_repeat (S dm)"
    using assms(1) by (simp_all add: programmed_def ssr_wf_def)
qed

lemma digits_mixed:
  "i < c \<Longrightarrow> digits (c # cs) (i + c * n) = i # digits cs n"
  by (simp add: div_add1_eq)

lemma digits_single: "i < c \<Longrightarrow> digits [c] i = [i]"
  by simp

lemma mixed_lt: "i < (c::nat) \<Longrightarrow> n < k \<Longrightarrow> i + c * n < c * k"
proof -
  assume a: "i < c" "n < k"
  then have "c * Suc n \<le> c * k" by (intro mult_le_mono2) simp
  then show ?thesis using a by simp
qed

text \<open>
  C11. The address generator visits what a nest of C loops would. After \<open>ssr_loop_4d\<close>,
  \<open>ssr_repeat\<close> and \<open>ssr_read\<close> with non-zero counts, the element the stream delivers
  at repetition \<open>t\<close> of iteration \<open>(i3, i2, i1, i0)\<close> of the nest is at
  \<open>p + i0*s0 + i1*s1 + i2*s2 + i3*s3\<close>, all 32-bit wrap-around included.
\<close>

theorem ssr_4d_visits_nest:
  assumes "ssr_wf (S dm)" and "dm < 3"
    and "t < unat rep" "i0 < unat b0" "i1 < unat b1" "i2 < unat b2" "i3 < unat b3"
  shows "s_ptr ((ssr_next ^^ (t + unat rep * (i0 + unat b0 * (i1 + unat b1 * (i2 + unat b2 * i3)))))
      (ssr_read dm SSR_4D p (ssr_repeat dm rep (ssr_loop_4d dm b0 b1 b2 b3 s0 s1 s2 s3 S)) dm))
    = p + of_nat i0 * s0 + of_nat i1 * s1 + of_nat i2 * s2 + of_nat i3 * s3"
proof -
  let ?cs = "[unat b0, unat b1, unat b2, unat b3]" and ?ss = "[s0, s1, s2, s3]"
  let ?n = "i0 + unat b0 * (i1 + unat b1 * (i2 + unat b2 * i3))"
  have ok: "counts_ok ?cs" using assms(4-7) unat_u32_lt by (auto simp: counts_ok_def)
  let ?S1 = "ssr_loop_4d dm b0 b1 b2 b3 s0 s1 s2 s3 S"
  note pr = ssr_loop_4d_programmed(1) [where S = S and dm = dm, OF assms(1,2)]
  note rp = ssr_repeat_programmed [where S = ?S1 and dm = dm, OF pr assms(2)]
  have st: "stream_at ?cs ?ss (unat rep) p 0
      (ssr_read dm SSR_4D p (ssr_repeat dm rep (ssr_loop_4d dm b0 b1 b2 b3 s0 s1 s2 s3 S)) dm)"
    by (rule ssr_read_streams(1) [where S = "ssr_repeat dm rep ?S1" and dm = dm, OF rp(1) assms(2)])
      (use assms(3) in \<open>simp_all add: rp(2) SSR_4D_def\<close>)
  have "i2 + unat b2 * i3 < unat b2 * unat b3" by (rule mixed_lt [OF assms(6,7)])
  then have "i1 + unat b1 * (i2 + unat b2 * i3) < unat b1 * (unat b2 * unat b3)"
    by (rule mixed_lt [OF assms(5)])
  then have n: "?n < unat b0 * (unat b1 * (unat b2 * unat b3))" by (rule mixed_lt [OF assms(4)])
  have "t + unat rep * ?n < unat rep * (unat b0 * (unat b1 * (unat b2 * unat b3)))"
    by (rule mixed_lt [OF assms(3) n])
  then have "stream_at ?cs ?ss (unat rep) p (0 + (t + unat rep * ?n)) ((ssr_next ^^ (t + unat rep * ?n))
      (ssr_read dm SSR_4D p (ssr_repeat dm rep (ssr_loop_4d dm b0 b1 b2 b3 s0 s1 s2 s3 S)) dm))"
    by (intro stream_steps [OF st ok]) (use assms(3) unat_u32_lt [of rep] in \<open>simp_all add: mult.assoc\<close>)
  moreover have "(t + unat rep * ?n) div unat rep = ?n" using assms(3) by simp
  moreover have "digits ?cs ?n = [i0, i1, i2, i3]"
    by (simp only: digits_mixed [OF assms(4)] digits_mixed [OF assms(5)] digits_mixed [OF assms(6)]
        digits_single [OF assms(7)])
  ultimately show ?thesis by (simp only: stream_at_def add_0) (simp add: ac_simps)
qed

text \<open>The movers as they come out of reset.\<close>

definition reset_ssr :: ssr where
  "reset_ssr = \<lparr>s_repeat = 0, s_bounds = replicate 4 0, s_strides = replicate 4 0, s_ptr = 0, s_dim = 0,
     s_idx = replicate 4 0, s_rep = 0\<rparr>"

theorem ssr_4d_visits_nest_witness:
  "s_ptr ((ssr_next ^^ (1 + 2 * (2 + 3 * (1 + 4 * (0 + 2 * 1)))))
      (ssr_read 1 SSR_4D 0x80000000 (ssr_repeat 1 2 (ssr_loop_4d 1 3 4 2 2 4 100 1000 (- 16) (\<lambda>_. reset_ssr))) 1))
    = 0x80000000 + 2 * 4 + 1 * 100 + 0 * 1000 + 1 * (- 16)"
  using ssr_4d_visits_nest [where S = "\<lambda>_. reset_ssr" and dm = 1 and t = 1 and rep = 2 and ?i0.0 = 2 and ?b0.0 = 3
      and ?i1.0 = 1 and ?b1.0 = 4 and ?i2.0 = 0 and ?b2.0 = 2 and ?i3.0 = 1 and ?b3.0 = 2 and p = "0x80000000"
      and ?s0.0 = 4 and ?s1.0 = 100 and ?s2.0 = 1000 and ?s3.0 = "- 16"]
  by (simp add: ssr_wf_def reset_ssr_def)

end
