(* ===== verification/Fpu.thy ===== *)
theory Fpu
  imports Ssr
begin

text \<open>
  Single-precision arithmetic as the kernels use it, and the two shapes their inner loops
  have: a FREP body of independent multiply-add lanes fed by two streams, and loops that
  store one computed output after another.
\<close>

section \<open>The floating-point unit\<close>

text \<open>
  Values of \<open>float32_t\<close> are their bit patterns. The operations are a parameter: what is
  proved holds for every rounding and every treatment of NaNs. \<open>f_contract\<close> is what the
  compiler does with a source expression \<open>s + a * b\<close>: one fused \<open>fmadd.s\<close>, or a
  multiplication and an addition.
\<close>

record fpu =
  f_add :: "u32 \<Rightarrow> u32 \<Rightarrow> u32"
  f_sub :: "u32 \<Rightarrow> u32 \<Rightarrow> u32"
  f_mul :: "u32 \<Rightarrow> u32 \<Rightarrow> u32"
  f_madd :: "u32 \<Rightarrow> u32 \<Rightarrow> u32 \<Rightarrow> u32"
  f_contract :: bool

definition mac :: "'a fpu_scheme \<Rightarrow> u32 \<Rightarrow> u32 \<Rightarrow> u32 \<Rightarrow> u32" where
  "mac fp s a b = (if f_contract fp then f_madd fp a b s else f_add fp s (f_mul fp a b))"

text \<open>Element \<open>i\<close> of a float array.\<close>

definition elem :: "u32 \<Rightarrow> u32 \<Rightarrow> u32" where
  "elem p i = p + 4 * i"

section \<open>A FREP body of multiply-add lanes\<close>

text \<open>\<open>fmadd.s c, ft0, ft1, c\<close> on accumulator \<open>u\<close>, with the streams enabled.\<close>

definition fmadd_lane :: "'a fpu_scheme \<Rightarrow> mem \<Rightarrow> nat \<Rightarrow> ssrs \<times> u32 list \<Rightarrow> ssrs \<times> u32 list" where
  "fmadd_lane fp m u = (\<lambda>(S, acc).
     let (a, S1) = ssr_pop m SSR_DM0 S;
         (b, S2) = ssr_pop m SSR_DM1 S1
     in (S2, acc[u := f_madd fp a b (acc ! u)]))"

definition frep_lanes :: "'a fpu_scheme \<Rightarrow> mem \<Rightarrow> nat \<Rightarrow> u32 \<Rightarrow> ssrs \<times> u32 list \<Rightarrow> ssrs \<times> u32 list" where
  "frep_lanes fp m lanes rpt = FREP_O rpt (fold (fmadd_lane fp m) [0..<lanes])"

text \<open>The \<open>n\<close>-th element a mover delivers, and how far it has come.\<close>

definition nth_elem :: "mem \<Rightarrow> ssr \<Rightarrow> nat \<Rightarrow> u32" where
  "nth_elem m s n = ld32 m (s_ptr ((ssr_next ^^ n) s))"

definition popped :: "ssrs \<Rightarrow> nat \<Rightarrow> ssrs \<Rightarrow> bool" where
  "popped S0 n S \<longleftrightarrow> S SSR_DM0 = (ssr_next ^^ n) (S0 SSR_DM0) \<and> S SSR_DM1 = (ssr_next ^^ n) (S0 SSR_DM1)
     \<and> (\<forall>d. d \<noteq> SSR_DM0 \<and> d \<noteq> SSR_DM1 \<longrightarrow> S d = S0 d)"

lemma popped_0 [simp]: "popped S 0 S"
  by (simp add: popped_def)

lemma fmadd_lane_step:
  assumes "popped S0 n S" and "u < length acc"
  shows "\<exists>S'. popped S0 (Suc n) S' \<and> fmadd_lane fp m u (S, acc)
     = (S', acc[u := f_madd fp (nth_elem m (S0 SSR_DM0) n) (nth_elem m (S0 SSR_DM1) n) (acc ! u)])"
  using assms
  by (auto simp: fmadd_lane_def ssr_pop_def popped_def nth_elem_def SSR_DM0_def SSR_DM1_def)

lemma lanes_once:
  assumes "popped S0 n S" and "length acc = L"
  shows "\<exists>S'. popped S0 (n + L) S' \<and> fold (fmadd_lane fp m) [0..<L] (S, acc)
     = (S', map (\<lambda>u. f_madd fp (nth_elem m (S0 SSR_DM0) (n + u)) (nth_elem m (S0 SSR_DM1) (n + u)) (acc ! u)) [0..<L])"
proof -
  let ?f = "\<lambda>u. f_madd fp (nth_elem m (S0 SSR_DM0) (n + u)) (nth_elem m (S0 SSR_DM1) (n + u)) (acc ! u)"
  have "\<exists>S'. popped S0 (n + l) S' \<and> fold (fmadd_lane fp m) [0..<l] (S, acc) = (S', map ?f [0..<l] @ drop l acc)"
    if "l \<le> L" for l
    using that
  proof (induction l)
    case 0
    then show ?case using assms(1) by auto
  next
    case (Suc l)
    then obtain S' where S': "popped S0 (n + l) S'"
      "fold (fmadd_lane fp m) [0..<l] (S, acc) = (S', map ?f [0..<l] @ drop l acc)" by auto
    let ?acc = "map ?f [0..<l] @ drop l acc"
    have l: "l < length ?acc" "?acc ! l = acc ! l" using Suc.prems assms(2) by (auto simp: nth_append)
    have upd: "?acc[l := x] = map ?f [0..<l] @ x # drop (Suc l) acc" for x
      using Suc.prems assms(2) by (simp add: list_update_append Cons_nth_drop_Suc [symmetric])
    from fmadd_lane_step [OF S'(1) l(1), of fp m] S'(2) upd l(2) show ?case by auto
  qed
  from this [of L] assms(2) show ?thesis by simp
qed

text \<open>After \<open>rpt + 1\<close> rounds each lane holds its own chain of multiply-adds.\<close>

definition lane_sum :: "'a fpu_scheme \<Rightarrow> mem \<Rightarrow> ssrs \<Rightarrow> nat \<Rightarrow> nat \<Rightarrow> nat \<Rightarrow> nat \<Rightarrow> u32 \<Rightarrow> u32" where
  "lane_sum fp m S0 n L K u c =
     fold (\<lambda>k c. f_madd fp (nth_elem m (S0 SSR_DM0) (n + L * k + u)) (nth_elem m (S0 SSR_DM1) (n + L * k + u)) c) [0..<K] c"

lemma lanes_rounds:
  assumes "popped S0 n S" and "length acc = L"
  shows "\<exists>S'. popped S0 (n + L * K) S' \<and> (fold (fmadd_lane fp m) [0..<L] ^^ K) (S, acc)
     = (S', map (\<lambda>u. lane_sum fp m S0 n L K u (acc ! u)) [0..<L])"
proof (induction K)
  case 0
  then show ?case using assms by (auto simp: lane_sum_def map_nth)
next
  case (Suc K)
  then obtain S' where S': "popped S0 (n + L * K) S'"
    "(fold (fmadd_lane fp m) [0..<L] ^^ K) (S, acc) = (S', map (\<lambda>u. lane_sum fp m S0 n L K u (acc ! u)) [0..<L])"
    by auto
  from lanes_once [OF S'(1), of "map (\<lambda>u. lane_sum fp m S0 n L K u (acc ! u)) [0..<L]" L fp m]
  obtain S'' where S'': "popped S0 (n + L * K + L) S''"
    "fold (fmadd_lane fp m) [0..<L] (S', map (\<lambda>u. lane_sum fp m S0 n L K u (acc ! u)) [0..<L])
      = (S'', map (\<lambda>u. f_madd fp (nth_elem m (S0 SSR_DM0) (n + L * K + u)) (nth_elem m (S0 SSR_DM1) (n + L * K + u))
            (map (\<lambda>u. lane_sum fp m S0 n L K u (acc ! u)) [0..<L] ! u)) [0..<L])"
    by auto
  have "map (\<lambda>u. f_madd fp (nth_elem m (S0 SSR_DM0) (n + L * K + u)) (nth_elem m (S0 SSR_DM1) (n + L * K + u))
            (map (\<lambda>u. lane_sum fp m S0 n L K u (acc ! u)) [0..<L] ! u)) [0..<L]
     = map (\<lambda>u. lane_sum fp m S0 n L (Suc K) u (acc ! u)) [0..<L]"
    by (rule map_cong) (simp_all add: lane_sum_def)
  then show ?case using S' S'' by (auto simp: ac_simps)
qed

lemma frep_lanes_result:
  assumes "popped S0 n S" and "length acc = L" and "rpt + 1 \<noteq> 0"
  shows "\<exists>S'. popped S0 (n + L * unat (rpt + 1)) S' \<and> frep_lanes fp m L rpt (S, acc)
     = (S', map (\<lambda>u. lane_sum fp m S0 n L (unat (rpt + 1)) u (acc ! u)) [0..<L])"
proof -
  have "unat (rpt + 1) = Suc (unat rpt)" using assms(3) unatSuc [of rpt] by (simp add: add.commute)
  then show ?thesis using lanes_rounds [OF assms(1,2), of "Suc (unat rpt)" fp m]
    by (simp only: frep_lanes_def FREP_O_def)
qed

section \<open>Outputs stored one after another\<close>

definition outs :: "u32 \<Rightarrow> (nat \<Rightarrow> u32) \<Rightarrow> nat list \<Rightarrow> mem \<Rightarrow> mem" where
  "outs Y v es m = stores (map (\<lambda>e. (Y + 4 * of_nat e, v e)) es) m"

lemma outs_Nil [simp]: "outs Y v [] m = m"
  by (simp add: outs_def)

lemma outs_append: "outs Y v (xs @ ys) m = outs Y v ys (outs Y v xs m)"
  by (simp add: outs_def)

lemma outs_snoc: "outs Y v (xs @ [e]) m = st32 (outs Y v xs m) (Y + 4 * of_nat e) (v e)"
  by (simp add: outs_def)

lemma outs_upt_Suc: "a \<le> e \<Longrightarrow> outs Y v [a..<Suc e] m = st32 (outs Y v [a..<e] m) (Y + 4 * of_nat e) (v e)"
  by (simp add: outs_snoc)

lemma outs_cong: "(\<And>e. e \<in> set es \<Longrightarrow> v e = w e) \<Longrightarrow> outs Y v es m = outs Y w es m"
  by (simp add: outs_def cong: map_cong)

lemma footprint_outs: "set es \<subseteq> {..<n} \<Longrightarrow> footprint (map (\<lambda>e. (Y + 4 * of_nat e, v e)) es) \<subseteq> span Y (4 * n)"
proof
  fix x assume "set es \<subseteq> {..<n}" and "x \<in> footprint (map (\<lambda>e. (Y + 4 * of_nat e, v e)) es)"
  then obtain e where "e < n" "x \<in> span (Y + 4 * of_nat e) 4" by (auto simp: footprint_def)
  then show "x \<in> span Y (4 * n)" using elem_span [of e n Y] by blast
qed

lemma outs_outside [frame]: "set es \<subseteq> {..<n} \<Longrightarrow> x \<notin> span Y (4 * n) \<Longrightarrow> outs Y v es m x = m x"
  unfolding outs_def using footprint_outs by (intro stores_outside) blast

lemma ld32_outs [frame]:
  "set es \<subseteq> {..<n} \<Longrightarrow> span a 4 \<inter> span Y (4 * n) = {} \<Longrightarrow> ld32 (outs Y v es m) a = ld32 m a"
  by (rule ld32_cong) (auto intro: outs_outside)

text \<open>An input array that no output overlaps reads the same after any of the outputs.\<close>

lemma ld32_elem_outs:
  assumes "set es \<subseteq> {..<n}" and "span P (4 * k) \<inter> span Y (4 * n) = {}" and "i < k"
  shows "ld32 (outs Y v es m) (P + 4 * of_nat i) = ld32 m (P + 4 * of_nat i)"
  using assms elem_span [OF assms(3), of P] by (intro ld32_outs) blast+

lemma outs_disjoint:
  assumes "4 * n \<le> 4294967296" and "set es \<subseteq> {..<n}"
  shows "disjoint_stores (map (\<lambda>e. (Y + 4 * of_nat e, v e)) es)"
  unfolding disjoint_stores_def
  unfolding split_beta
proof (intro ballI impI)
  fix x y
  assume "x \<in> set (map (\<lambda>e. (Y + 4 * of_nat e, v e)) es)" "y \<in> set (map (\<lambda>e. (Y + 4 * of_nat e, v e)) es)"
    and ne: "(fst x, snd x) \<noteq> (fst y, snd y)"
  then obtain e f where e: "e \<in> set es" "x = (Y + 4 * of_nat e, v e)"
    and f: "f \<in> set es" "y = (Y + 4 * of_nat f, v f)" by auto
  with ne have "e \<noteq> f" by auto
  then show "span (fst x) 4 \<inter> span (fst y) 4 = {}"
    unfolding e(2) f(2) fst_conv using e(1) f(1) assms by (intro elem_disjoint [of e n f]) auto
qed

lemma outs_permute:
  assumes "4 * n \<le> 4294967296" and "set es \<subseteq> {..<n}" and "mset es = mset es'"
  shows "outs Y v es m = outs Y v es' m"
  unfolding outs_def by (rule stores_permute [OF outs_disjoint [OF assms(1,2)]]) (simp add: assms(3))

lemma ld32_outs_at:
  assumes "4 * n \<le> 4294967296" and "set es \<subseteq> {..<n}" and "e \<in> set es"
  shows "ld32 (outs Y v es m) (Y + 4 * of_nat e) = v e"
  unfolding outs_def by (rule ld32_stores_at [OF outs_disjoint [OF assms(1,2)]]) (use assms(3) in auto)

lemma st32_twice: "st32 (st32 m a v) a w = st32 m a w"
  by (rule ext) (simp add: st32_def)

text \<open>Stores of outputs depend only on which elements are stored, in any order and any number of times.\<close>

lemma outs_set:
  assumes "4 * n \<le> 4294967296" and "set es \<subseteq> {..<n}" and "set es = set es'"
  shows "outs Y v es m = outs Y v es' m"
proof -
  have drop: "outs Y v (es @ [e]) m = outs Y v es m" if "e \<in> set es" "set es \<subseteq> {..<n}" for e es
  proof -
    have "\<exists>p s. es = p @ e # s" by (rule split_list [OF that(1)])
    then obtain p s where es: "es = p @ e # s" by blast
    have "outs Y v (es @ [e]) m = outs Y v ((p @ s) @ [e, e]) m"
      by (rule outs_permute [OF assms(1)]) (use that es in auto)
    also have "\<dots> = outs Y v ((p @ s) @ [e]) m"
      unfolding outs_append by (simp add: outs_def st32_twice)
    also have "\<dots> = outs Y v es m" by (rule outs_permute [OF assms(1)]) (use that es in auto)
    finally show ?thesis .
  qed
  have "outs Y v es m = outs Y v (sorted_list_of_set (set es)) m" if "set es \<subseteq> {..<n}" for es
    using that
  proof (induction es rule: rev_induct)
    case (snoc e es)
    have fin: "finite (set es)" by simp
    show ?case
    proof (cases "e \<in> set es")
      case True
      then show ?thesis using drop [OF True] snoc by (simp add: insert_absorb)
    next
      case False
      have "outs Y v (es @ [e]) m = outs Y v (sorted_list_of_set (set es) @ [e]) m"
        using snoc by (simp add: outs_append)
      also have "\<dots> = outs Y v (sorted_list_of_set (insert e (set es))) m"
        by (rule outs_permute [OF assms(1)]) (use snoc.prems False in \<open>auto simp: sorted_list_of_set_insert_remove\<close>)
      finally show ?thesis by simp
    qed
  qed simp
  from this [of es] this [of es'] show ?thesis using assms(2,3) by simp
qed

text \<open>Consecutive stores.\<close>

lemma store_run:
  "fold (\<lambda>u m. st32 m (elem (Y + 4 * of_nat e) (of_nat u)) (cs ! u)) [0..<L] (outs Y v [0..<e] m)
     = outs Y v [0..<e + L] m" if "\<And>u. u < L \<Longrightarrow> cs ! u = v (e + u)"
  using that
proof (induction L)
  case 0
  then show ?case by simp
next
  case (Suc L)
  then show ?case
    using outs_upt_Suc [of 0 "e + L" Y v m] by (simp add: elem_def algebra_simps)
qed

text \<open>Loops each of whose steps stores a block of outputs.\<close>

lemma store_steps:
  assumes "\<And>t es. t \<in> set ts \<Longrightarrow> set es \<subseteq> {..<n} \<Longrightarrow> step t (outs Y v es m) = outs Y v (es @ blk t) m"
    and "\<And>t. t \<in> set ts \<Longrightarrow> set (blk t) \<subseteq> {..<n}" and "set es \<subseteq> {..<n}"
  shows "fold step ts (outs Y v es m) = outs Y v (es @ concat (map blk ts)) m"
  using assms by (induction ts arbitrary: es) auto

lemma store_steps_inv:
  assumes "\<And>t es S. t \<in> set ts \<Longrightarrow> set es \<subseteq> {..<n} \<Longrightarrow> I S
      \<Longrightarrow> \<exists>S'. I S' \<and> step t (S, outs Y v es m) = (S', outs Y v (es @ blk t) m)"
    and "\<And>t. t \<in> set ts \<Longrightarrow> set (blk t) \<subseteq> {..<n}" and "set es \<subseteq> {..<n}" and "I S"
  shows "\<exists>S'. I S' \<and> fold step ts (S, outs Y v es m) = (S', outs Y v (es @ concat (map blk ts)) m)"
  using assms
proof (induction ts arbitrary: es S)
  case Nil
  then show ?case by auto
next
  case (Cons t ts)
  obtain S' where S': "I S'" "step t (S, outs Y v es m) = (S', outs Y v (es @ blk t) m)"
    using Cons.prems(1) [of t es S] Cons.prems(3,4) by auto
  have "\<exists>S''. I S'' \<and> fold step ts (S', outs Y v (es @ blk t) m) = (S'', outs Y v ((es @ blk t) @ concat (map blk ts)) m)"
    by (rule Cons.IH) (use Cons.prems S'(1) in auto)
  then show ?case using S'(2) by simp
qed

end
