(* ===== verification/GemmKernel.thy ===== *)
theory GemmKernel
  imports Fpu
begin

text \<open>
  \<open>runtime/snitch/kernels/gemm_fp32_ssr.c\<close> and the scalar reference of
  \<open>runtime/tests/ssr_kernels.c\<close>: matrix products whose operands arrive through two
  address generators and whose inner loop is one FREP body of eight multiply-adds. The
  Deeploy kernel the streamed one falls back to is not part of the repository and is the
  parameter \<open>gen\<close>.
\<close>

section \<open>The scalar reference\<close>

definition a_index :: "u32 \<Rightarrow> u32 \<Rightarrow> u32 \<Rightarrow> u32 \<Rightarrow> u32 \<Rightarrow> u32" where
  "a_index M N transA i k = (if transA \<noteq> 0 then k * M + i else i * N + k)"

definition b_index :: "u32 \<Rightarrow> u32 \<Rightarrow> u32 \<Rightarrow> u32 \<Rightarrow> u32 \<Rightarrow> u32" where
  "b_index N O' transB j k = (if transB \<noteq> 0 then j * N + k else k * O' + j)"

text \<open>The body of the reference's loop over \<open>j\<close>, and of the kernel's loop over leftover columns.\<close>

definition gemm_scalar ::
    "'a fpu_scheme \<Rightarrow> u32 \<Rightarrow> u32 \<Rightarrow> u32 \<Rightarrow> u32 \<Rightarrow> u32 \<Rightarrow> u32 \<Rightarrow> u32 \<Rightarrow> u32 \<Rightarrow> u32 \<Rightarrow> u32 \<Rightarrow> u32 \<Rightarrow> mem \<Rightarrow> mem" where
  "gemm_scalar fp A B C Y M N O' transA transB i j m =
     (let sum = for_u32 0 N (\<lambda>k sum. mac fp sum (ld32 m (elem A (a_index M N transA i k)))
                                 (ld32 m (elem B (b_index N O' transB j k)))) 0
      in st32 m (elem Y (i * O' + j))
           (if C \<noteq> 0 then f_add fp sum (ld32 m (elem C (i * O' + j))) else sum))"

definition Gemm_generic ::
    "'a fpu_scheme \<Rightarrow> u32 \<Rightarrow> u32 \<Rightarrow> u32 \<Rightarrow> u32 \<Rightarrow> u32 \<Rightarrow> u32 \<Rightarrow> u32 \<Rightarrow> u32 \<Rightarrow> u32 \<Rightarrow> mem \<Rightarrow> mem" where
  "Gemm_generic fp A B C Y M N O' transA transB m =
     for_u32 0 M (\<lambda>i. for_u32 0 O' (gemm_scalar fp A B C Y M N O' transA transB i)) m"

definition MatMul_generic :: "'a fpu_scheme \<Rightarrow> u32 \<Rightarrow> u32 \<Rightarrow> u32 \<Rightarrow> u32 \<Rightarrow> u32 \<Rightarrow> u32 \<Rightarrow> mem \<Rightarrow> mem" where
  "MatMul_generic fp A B Y M N O' = Gemm_generic fp A B 0 Y M N O' 0 0"

section \<open>The streamed kernel\<close>

definition UNROLL :: u32 where "UNROLL = 8"

definition gemm_streams ::
    "u32 \<Rightarrow> u32 \<Rightarrow> u32 \<Rightarrow> u32 \<Rightarrow> u32 \<Rightarrow> u32 \<Rightarrow> u32 \<Rightarrow> ssrs \<Rightarrow> ssrs" where
  "gemm_streams A B M N O' transA transB S =
     (let blocks = O' div UNROLL; stride = 4;
          S1 = (if transA \<noteq> 0 then ssr_loop_3d SSR_DM0 N blocks M (M * stride) 0 stride S
                else ssr_loop_3d SSR_DM0 N blocks M stride 0 (N * stride) S);
          S2 = ssr_repeat SSR_DM0 UNROLL S1;
          S3 = (if transB \<noteq> 0
                then ssr_loop_4d SSR_DM1 UNROLL N blocks M (N * stride) stride (UNROLL * N * stride) 0 S2
                else ssr_loop_4d SSR_DM1 UNROLL N blocks M stride (O' * stride) (UNROLL * stride) 0 S2);
          S4 = ssr_read SSR_DM0 SSR_3D A S3
      in ssr_read SSR_DM1 SSR_4D B S4)"

text \<open>One block of \<open>UNROLL\<close> columns: accumulators, the FREP body, eight stores.\<close>

definition gemm_block ::
    "'a fpu_scheme \<Rightarrow> u32 \<Rightarrow> u32 \<Rightarrow> u32 \<Rightarrow> u32 \<Rightarrow> u32 \<Rightarrow> u32 \<Rightarrow> ssrs \<times> mem \<times> u32 \<Rightarrow> ssrs \<times> mem \<times> u32" where
  "gemm_block fp C Y N O' i b = (\<lambda>(S, m, j).
     let c = (if C \<noteq> 0 then map (\<lambda>u. ld32 m (elem (elem C (i * O' + j)) (of_nat u))) [0..<8]
              else replicate 8 0);
         (S', c') = frep_lanes fp m 8 (N - 1) (S, c);
         m' = fold (\<lambda>u m. st32 m (elem (elem Y (i * O' + j)) (of_nat u)) (c' ! u)) [0..<8] m
     in (S', m', j + UNROLL))"

definition gemm_row ::
    "'a fpu_scheme \<Rightarrow> u32 \<Rightarrow> u32 \<Rightarrow> u32 \<Rightarrow> u32 \<Rightarrow> u32 \<Rightarrow> u32 \<Rightarrow> u32 \<Rightarrow> u32 \<Rightarrow> u32 \<Rightarrow> u32 \<Rightarrow> ssrs \<times> mem \<Rightarrow> ssrs \<times> mem" where
  "gemm_row fp A B C Y M N O' transA transB i = (\<lambda>(S, m).
     let (S', m', j) = for_u32 0 (O' div UNROLL) (gemm_block fp C Y N O' i) (S, m, 0)
     in (S', for_u32 j O' (gemm_scalar fp A B C Y M N O' transA transB i) m'))"

definition gemm_ssr ::
    "'a fpu_scheme \<Rightarrow> u32 \<Rightarrow> u32 \<Rightarrow> u32 \<Rightarrow> u32 \<Rightarrow> u32 \<Rightarrow> u32 \<Rightarrow> u32 \<Rightarrow> u32 \<Rightarrow> u32 \<Rightarrow> ssrs \<times> mem \<Rightarrow> ssrs \<times> mem" where
  "gemm_ssr fp A B C Y M N O' transA transB = (\<lambda>(S, m).
     for_u32 0 M (gemm_row fp A B C Y M N O' transA transB) (gemm_streams A B M N O' transA transB S, m))"

definition MatMul_ssr ::
    "'a fpu_scheme \<Rightarrow> (u32 \<Rightarrow> u32 \<Rightarrow> u32 \<Rightarrow> u32 \<Rightarrow> u32 \<Rightarrow> u32 \<Rightarrow> mem \<Rightarrow> mem) \<Rightarrow>
       u32 \<Rightarrow> u32 \<Rightarrow> u32 \<Rightarrow> u32 \<Rightarrow> u32 \<Rightarrow> u32 \<Rightarrow> ssrs \<times> mem \<Rightarrow> ssrs \<times> mem" where
  "MatMul_ssr fp gen A B Y M N O' = (\<lambda>(S, m).
     if M = 0 \<or> N = 0 \<or> O' < UNROLL then (S, gen A B Y M N O' m)
     else gemm_ssr fp A B 0 Y M N O' 0 0 (S, m))"

definition Gemm_ssr ::
    "'a fpu_scheme \<Rightarrow> (u32 \<Rightarrow> u32 \<Rightarrow> u32 \<Rightarrow> u32 \<Rightarrow> u32 \<Rightarrow> u32 \<Rightarrow> u32 \<Rightarrow> u32 \<Rightarrow> u32 \<Rightarrow> mem \<Rightarrow> mem) \<Rightarrow>
       u32 \<Rightarrow> u32 \<Rightarrow> u32 \<Rightarrow> u32 \<Rightarrow> u32 \<Rightarrow> u32 \<Rightarrow> u32 \<Rightarrow> u32 \<Rightarrow> u32 \<Rightarrow> ssrs \<times> mem \<Rightarrow> ssrs \<times> mem" where
  "Gemm_ssr fp gen A B C Y M N O' transA transB = (\<lambda>(S, m).
     if M = 0 \<or> N = 0 \<or> O' < UNROLL then (S, gen A B C Y M N O' transA transB m)
     else gemm_ssr fp A B C Y M N O' transA transB (S, m))"

section \<open>What each computes\<close>

text \<open>The operands of element \<open>(i, j)\<close>'s \<open>k\<close>-th product, and the value stored.\<close>

definition la :: "mem \<Rightarrow> u32 \<Rightarrow> u32 \<Rightarrow> u32 \<Rightarrow> u32 \<Rightarrow> nat \<Rightarrow> nat \<Rightarrow> u32" where
  "la m A M N transA i k = ld32 m (elem A (a_index M N transA (of_nat i) (of_nat k)))"

definition lb :: "mem \<Rightarrow> u32 \<Rightarrow> u32 \<Rightarrow> u32 \<Rightarrow> u32 \<Rightarrow> nat \<Rightarrow> nat \<Rightarrow> u32" where
  "lb m B N O' transB j k = ld32 m (elem B (b_index N O' transB (of_nat j) (of_nat k)))"

definition scalar_val ::
    "'a fpu_scheme \<Rightarrow> u32 \<Rightarrow> u32 \<Rightarrow> u32 \<Rightarrow> u32 \<Rightarrow> u32 \<Rightarrow> u32 \<Rightarrow> u32 \<Rightarrow> u32 \<Rightarrow> mem \<Rightarrow> nat \<Rightarrow> nat \<Rightarrow> u32" where
  "scalar_val fp A B C M N O' transA transB m i j =
     (let sum = fold (\<lambda>k s. mac fp s (la m A M N transA i k) (lb m B N O' transB j k)) [0..<unat N] 0
      in if C \<noteq> 0 then f_add fp sum (ld32 m (C + 4 * of_nat (i * unat O' + j))) else sum)"

definition block_val ::
    "'a fpu_scheme \<Rightarrow> u32 \<Rightarrow> u32 \<Rightarrow> u32 \<Rightarrow> u32 \<Rightarrow> u32 \<Rightarrow> u32 \<Rightarrow> u32 \<Rightarrow> u32 \<Rightarrow> mem \<Rightarrow> nat \<Rightarrow> nat \<Rightarrow> u32" where
  "block_val fp A B C M N O' transA transB m i j =
     fold (\<lambda>k c. f_madd fp (la m A M N transA i k) (lb m B N O' transB j k) c) [0..<unat N]
       (if C \<noteq> 0 then ld32 m (C + 4 * of_nat (i * unat O' + j)) else 0)"

definition ssr_val ::
    "'a fpu_scheme \<Rightarrow> u32 \<Rightarrow> u32 \<Rightarrow> u32 \<Rightarrow> u32 \<Rightarrow> u32 \<Rightarrow> u32 \<Rightarrow> u32 \<Rightarrow> u32 \<Rightarrow> mem \<Rightarrow> nat \<Rightarrow> nat \<Rightarrow> u32" where
  "ssr_val fp A B C M N O' transA transB m i j =
     (if j < unat O' div 8 * 8 then block_val fp A B C M N O' transA transB m i j
      else scalar_val fp A B C M N O' transA transB m i j)"

text \<open>A matrix of values as the elements of a row-major array.\<close>

definition rows :: "u32 \<Rightarrow> (nat \<Rightarrow> nat \<Rightarrow> u32) \<Rightarrow> nat \<Rightarrow> u32" where
  "rows O' v e = v (e div unat O') (e mod unat O')"

text \<open>The outputs overlap none of the inputs (the parameters are \<open>restrict\<close>).\<close>

definition gemm_sep :: "u32 \<Rightarrow> u32 \<Rightarrow> u32 \<Rightarrow> u32 \<Rightarrow> u32 \<Rightarrow> u32 \<Rightarrow> u32 \<Rightarrow> bool" where
  "gemm_sep A B C Y M N O' \<longleftrightarrow>
     span A (4 * (unat M * unat N)) \<inter> span Y (4 * (unat M * unat O')) = {}
     \<and> span B (4 * (unat N * unat O')) \<inter> span Y (4 * (unat M * unat O')) = {}
     \<and> (C \<noteq> 0 \<longrightarrow> span C (4 * (unat M * unat O')) \<inter> span Y (4 * (unat M * unat O')) = {})"

lemma index_lt: "i < (a::nat) \<Longrightarrow> j < b \<Longrightarrow> i * b + j < a * b"
  using mixed_lt [of j b i a] by (simp add: ac_simps)

lemma index_lt': "i < (a::nat) \<Longrightarrow> j < b \<Longrightarrow> i * b + j < b * a"
  using index_lt [of i a j b] by (simp add: ac_simps)

lemma elem_of_nat: "elem p (of_nat i * of_nat a + of_nat j) = p + 4 * of_nat (i * a + j)"
  by (simp add: elem_def)

lemma la_outs:
  assumes "gemm_sep A B C Y M N O'" "set es \<subseteq> {..<unat M * unat O'}" "i < unat M" "k < unat N"
  shows "la (outs Y v es m) A M N transA i k = la m A M N transA i k"
proof -
  have a: "elem A (a_index M N transA (of_nat i) (of_nat k))
     = A + 4 * of_nat (if transA \<noteq> 0 then k * unat M + i else i * unat N + k)"
    by (simp add: a_index_def elem_def)
  have b: "(if transA \<noteq> 0 then k * unat M + i else i * unat N + k) < unat M * unat N"
    using index_lt [OF assms(3,4)] index_lt' [OF assms(4,3)] by auto
  show ?thesis unfolding la_def a
    by (rule ld32_elem_outs [OF assms(2) _ b]) (use assms(1) in \<open>simp add: gemm_sep_def\<close>)
qed

lemma lb_outs:
  assumes "gemm_sep A B C Y M N O'" "set es \<subseteq> {..<unat M * unat O'}" "j < unat O'" "k < unat N"
  shows "lb (outs Y v es m) B N O' transB j k = lb m B N O' transB j k"
proof -
  have a: "elem B (b_index N O' transB (of_nat j) (of_nat k))
     = B + 4 * of_nat (if transB \<noteq> 0 then j * unat N + k else k * unat O' + j)"
    by (simp add: b_index_def elem_def)
  have b: "(if transB \<noteq> 0 then j * unat N + k else k * unat O' + j) < unat N * unat O'"
    using index_lt [OF assms(4,3)] index_lt' [OF assms(3,4)] by auto
  show ?thesis unfolding lb_def a
    by (rule ld32_elem_outs [OF assms(2) _ b]) (use assms(1) in \<open>simp add: gemm_sep_def\<close>)
qed

lemma lc_outs:
  assumes "gemm_sep A B C Y M N O'" "set es \<subseteq> {..<unat M * unat O'}" "i < unat M" "j < unat O'" "C \<noteq> 0"
  shows "ld32 (outs Y v es m) (C + 4 * of_nat (i * unat O' + j)) = ld32 m (C + 4 * of_nat (i * unat O' + j))"
  by (rule ld32_elem_outs [OF assms(2) _ index_lt [OF assms(3,4)]]) (use assms in \<open>simp add: gemm_sep_def\<close>)

lemma vals_outs:
  assumes "gemm_sep A B C Y M N O'" "set es \<subseteq> {..<unat M * unat O'}" "i < unat M" "j < unat O'"
  shows "scalar_val fp A B C M N O' transA transB (outs Y v es m) i j = scalar_val fp A B C M N O' transA transB m i j"
    and "block_val fp A B C M N O' transA transB (outs Y v es m) i j = block_val fp A B C M N O' transA transB m i j"
proof -
  have mac: "fold (\<lambda>k s. mac fp s (la (outs Y v es m) A M N transA i k) (lb (outs Y v es m) B N O' transB j k)) [0..<unat N] c
      = fold (\<lambda>k s. mac fp s (la m A M N transA i k) (lb m B N O' transB j k)) [0..<unat N] c" for c
    by (rule fold_same) (simp add: la_outs [OF assms(1-3)] lb_outs [OF assms(1,2,4)])
  have madd: "fold (\<lambda>k s. f_madd fp (la (outs Y v es m) A M N transA i k) (lb (outs Y v es m) B N O' transB j k) s) [0..<unat N] c
      = fold (\<lambda>k s. f_madd fp (la m A M N transA i k) (lb m B N O' transB j k) s) [0..<unat N] c" for c
    by (rule fold_same) (simp add: la_outs [OF assms(1-3)] lb_outs [OF assms(1,2,4)])
  show "scalar_val fp A B C M N O' transA transB (outs Y v es m) i j = scalar_val fp A B C M N O' transA transB m i j"
    unfolding scalar_val_def Let_def mac by (cases "C = 0") (simp_all only: lc_outs [OF assms] refl if_True if_False not_False_eq_True not_True_eq_False)
  show "block_val fp A B C M N O' transA transB (outs Y v es m) i j = block_val fp A B C M N O' transA transB m i j"
    unfolding block_val_def madd by (cases "C = 0") (simp_all only: lc_outs [OF assms] refl if_True if_False not_False_eq_True not_True_eq_False)
qed

lemma gemm_scalar_val:
  "gemm_scalar fp A B C Y M N O' transA transB (of_nat i) (of_nat j) m
     = st32 m (Y + 4 * of_nat (i * unat O' + j)) (scalar_val fp A B C M N O' transA transB m i j)"
  by (simp add: gemm_scalar_def scalar_val_def la_def lb_def Let_def for_u32_zero elem_def)

section \<open>The reference in closed form\<close>

lemma rows_at: "j < unat O' \<Longrightarrow> rows O' v (i * unat O' + j) = v i j"
  by (simp add: rows_def)

lemma row_prefix: "i < unat M \<Longrightarrow> j \<le> unat O' \<Longrightarrow> set [0..<i * unat O' + j] \<subseteq> {..<unat M * unat O'}"
proof -
  assume a: "i < unat M" "j \<le> unat O'"
  then have "Suc i * unat O' \<le> unat M * unat O'" by (intro mult_le_mono1) simp
  with a(2) show ?thesis by auto
qed

text \<open>A run of columns of one row, each stored as the scalar body stores it.\<close>

lemma scalar_columns:
  assumes "gemm_sep A B C Y M N O'" and "i < unat M" and "a \<le> unat O'"
    and "\<And>j. a \<le> j \<Longrightarrow> j < unat O' \<Longrightarrow> v i j = scalar_val fp A B C M N O' transA transB m i j"
  shows "for_u32 (of_nat a) O' (gemm_scalar fp A B C Y M N O' transA transB (of_nat i))
      (outs Y (rows O' v) [0..<i * unat O' + a] m) = outs Y (rows O' v) [0..<i * unat O' + unat O'] m"
proof -
  have ua: "unat (of_nat a :: u32) = a"
    using assms(3) unat_u32_lt [of O'] by (intro unat_of_nat_small) linarith
  have "fold (\<lambda>j. gemm_scalar fp A B C Y M N O' transA transB (of_nat i) (of_nat j)) [a..<a + d]
      (outs Y (rows O' v) [0..<i * unat O' + a] m) = outs Y (rows O' v) [0..<i * unat O' + (a + d)] m"
    if "a + d \<le> unat O'" for d
    using that
  proof (induction d)
    case 0
    then show ?case by simp
  next
    case (Suc d)
    have j: "a + d < unat O'" using Suc.prems by simp
    have "scalar_val fp A B C M N O' transA transB (outs Y (rows O' v) [0..<i * unat O' + (a + d)] m) i (a + d)
        = v i (a + d)"
      by (subst vals_outs(1) [OF assms(1) row_prefix [OF assms(2) less_imp_le [OF j]] assms(2) j])
        (use assms(4) j in simp)
    then show ?case
      using Suc j outs_upt_Suc [of 0 "i * unat O' + (a + d)" Y "rows O' v" m]
      by (simp add: gemm_scalar_val rows_at del: upt_Suc) (simp add: gemm_scalar_val)
  qed
  from this [of "unat O' - a"] assms(3) show ?thesis by (simp add: for_u32_def ua)
qed

lemma Gemm_generic_outs:
  assumes "gemm_sep A B C Y M N O'"
  shows "Gemm_generic fp A B C Y M N O' transA transB m
    = outs Y (rows O' (scalar_val fp A B C M N O' transA transB m)) [0..<unat M * unat O'] m"
proof -
  let ?v = "rows O' (scalar_val fp A B C M N O' transA transB m)"
  have "fold (\<lambda>i. for_u32 0 O' (gemm_scalar fp A B C Y M N O' transA transB (of_nat i))) [0..<d] m
      = outs Y ?v [0..<d * unat O'] m" if "d \<le> unat M" for d
    using that
  proof (induction d)
    case 0
    then show ?case by simp
  next
    case (Suc d)
    then show ?case
      using scalar_columns [OF assms, of d 0 "scalar_val fp A B C M N O' transA transB m" fp transA transB m]
      by (simp add: add.commute)
  qed
  from this [of "unat M"] show ?thesis by (simp add: Gemm_generic_def for_u32_zero)
qed

section \<open>The streams deliver the operands\<close>

text \<open>
  What the kernel needs of the data movers before it starts: that they are real ones, and
  that no repeat count is left over on the mover that streams B.
\<close>

definition ssrs_ready :: "ssrs \<Rightarrow> bool" where
  "ssrs_ready S \<longleftrightarrow> ssr_wf (S SSR_DM0) \<and> ssr_wf (S SSR_DM1) \<and> s_repeat (S SSR_DM1) = 0"

lemma gemm_streams_at:
  assumes "ssrs_ready S"
  shows "stream_at [unat N, unat (O' div UNROLL), unat M]
      (if transA \<noteq> 0 then [M * 4, 0, 4] else [4, 0, N * 4]) 8 A 0 (gemm_streams A B M N O' transA transB S SSR_DM0)"
    and "stream_at [8, unat N, unat (O' div UNROLL), unat M]
      (if transB \<noteq> 0 then [N * 4, 4, UNROLL * N * 4, 0] else [4, O' * 4, UNROLL * 4, 0]) 1 B 0
      (gemm_streams A B M N O' transA transB S SSR_DM1)"
proof -
  let ?csA = "[unat N, unat (O' div UNROLL), unat M]" and ?csB = "[8, unat N, unat (O' div UNROLL), unat M]"
  let ?ssA = "if transA \<noteq> 0 then [M * 4, 0, 4] else [4, 0, N * 4]"
  let ?ssB = "if transB \<noteq> 0 then [N * 4, 4, UNROLL * N * 4, 0] else [4, O' * 4, UNROLL * 4, 0]"
  define S1 where "S1 = (if transA \<noteq> 0 then ssr_loop_3d SSR_DM0 N (O' div UNROLL) M (M * 4) 0 4 S
                else ssr_loop_3d SSR_DM0 N (O' div UNROLL) M 4 0 (N * 4) S)"
  define S2 where "S2 = ssr_repeat SSR_DM0 UNROLL S1"
  define S3 where "S3 = (if transB \<noteq> 0
                then ssr_loop_4d SSR_DM1 UNROLL N (O' div UNROLL) M (N * 4) 4 (UNROLL * N * 4) 0 S2
                else ssr_loop_4d SSR_DM1 UNROLL N (O' div UNROLL) M 4 (O' * 4) (UNROLL * 4) 0 S2)"
  define S4 where "S4 = ssr_read SSR_DM0 SSR_3D A S3"
  have fin: "gemm_streams A B M N O' transA transB S = ssr_read SSR_DM1 SSR_4D B S4"
    by (simp only: gemm_streams_def S1_def S2_def S3_def S4_def Let_def)
  have dm: "SSR_DM0 < 3" "SSR_DM1 < 3" "SSR_DM0 \<noteq> SSR_DM1" by (simp_all add: SSR_DM0_def SSR_DM1_def)
  have u8: "unat UNROLL = 8" by (simp add: UNROLL_def)
  have w: "ssr_wf (S SSR_DM0)" "ssr_wf (S SSR_DM1)" "s_repeat (S SSR_DM1) = 0"
    using assms by (simp_all add: ssrs_ready_def)
  have p1: "programmed ?csA ?ssA (S1 SSR_DM0)"
    by (cases "transA = 0") (simp_all add: S1_def ssr_loop_3d_programmed(1) w(1) dm)
  have o1: "S1 SSR_DM1 = S SSR_DM1"
    using dm by (cases "transA = 0") (simp_all add: S1_def ssr_loop_3d_programmed(3) w(1))
  note r2 = ssr_repeat_programmed [where S = S1 and dm = SSR_DM0 and c = UNROLL, OF p1 dm(1), folded S2_def]
  have o2: "S2 SSR_DM1 = S SSR_DM1" using r2(3) [of SSR_DM1] dm o1 by simp
  have w2: "ssr_wf (S2 SSR_DM1)" using w(2) o2 by simp
  have p3: "programmed ?csB ?ssB (S3 SSR_DM1)"
    using ssr_loop_4d_programmed(1) [where S = S2 and dm = SSR_DM1, OF w2 dm(2), where ?b0.0 = UNROLL]
    by (cases "transB = 0") (simp_all add: S3_def u8)
  have rp3: "s_repeat (S3 SSR_DM1) = 0"
    using ssr_loop_4d_programmed(2) [where S = S2 and dm = SSR_DM1, OF w2 dm(2)] w(3) o2
    by (cases "transB = 0") (simp_all add: S3_def)
  have o3: "S3 SSR_DM0 = S2 SSR_DM0"
    using ssr_loop_4d_programmed(3) [where S = S2 and dm = SSR_DM1, OF w2 dm(2)] dm(3)
    by (cases "transB = 0") (simp_all add: S3_def)
  have p3': "programmed ?csA ?ssA (S3 SSR_DM0)" "s_repeat (S3 SSR_DM0) = of_nat 8 - 1"
    using r2(1,2) o3 by (simp_all add: UNROLL_def)
  note s4 = ssr_read_streams [where S = S3 and dm = SSR_DM0 and dim = SSR_3D and r = 8 and p = A,
      OF p3'(1) dm(1) p3'(2), folded S4_def]
  have st0: "stream_at ?csA ?ssA 8 A 0 (S4 SSR_DM0)" by (rule s4(1)) (simp_all add: SSR_3D_def)
  have "S4 SSR_DM1 = S3 SSR_DM1" by (rule s4(3)) (use dm in \<open>simp_all add: SSR_3D_def\<close>)
  then have p4: "programmed ?csB ?ssB (S4 SSR_DM1)" "s_repeat (S4 SSR_DM1) = of_nat 1 - 1"
    using p3 rp3 by simp_all
  note s5 = ssr_read_streams [where S = S4 and dm = SSR_DM1 and dim = SSR_4D and r = 1 and p = B,
      OF p4(1) dm(2) p4(2), folded fin]
  show "stream_at ?csB ?ssB 1 B 0 (gemm_streams A B M N O' transA transB S SSR_DM1)"
    by (rule s5(1)) (simp_all add: SSR_4D_def)
  have "gemm_streams A B M N O' transA transB S SSR_DM0 = S4 SSR_DM0"
    by (rule s5(3)) (use dm in \<open>simp_all add: SSR_4D_def\<close>)
  then show "stream_at ?csA ?ssA 8 A 0 (gemm_streams A B M N O' transA transB S SSR_DM0)" using st0 by simp
qed

lemma gemm_blocks: "unat (O' div UNROLL) = unat O' div 8"
  by (simp add: unat_div UNROLL_def)

lemma gemm_A_ptr:
  assumes ready: "ssrs_ready S" and S0: "S0 = gemm_streams A B M N O' transA transB S"
    and i: "i < unat M" and b: "b < unat O' div 8" and k: "k < unat N" and u: "u < 8"
  shows "s_ptr ((ssr_next ^^ (8 * unat N * (i * (unat O' div 8) + b) + 8 * k + u)) (S0 SSR_DM0))
     = elem A (a_index M N transA (of_nat i) (of_nat k))"
proof -
  let ?bl = "unat O' div 8" and ?e = "k + unat N * (b + unat O' div 8 * i)"
  have n: "8 * unat N * (i * ?bl + b) + 8 * k + u = u + 8 * ?e" by (simp add: algebra_simps)
  have e: "?e < unat N * (?bl * unat M)" by (rule mixed_lt [OF k mixed_lt [OF b i]])
  have lt: "u + 8 * ?e < 8 * prod_list [unat N, ?bl, unat M]"
    using mixed_lt [OF u e] by (simp add: mult.assoc)
  have ok: "counts_ok [unat N, ?bl, unat M]"
    using k b i unat_u32_lt [of N] unat_u32_lt [of M] div_le_dividend [of "unat O'" 8] unat_u32_lt [of O']
    by (auto simp: counts_ok_def intro: le_less_trans)
  have d: "digits [unat N, ?bl, unat M] ((u + 8 * ?e) div 8) = [k, b, i]"
  proof -
    have "(u + 8 * ?e) div 8 = ?e" using u by simp
    then show ?thesis by (simp only: digits_mixed [OF k] digits_mixed [OF b] digits_single [OF i])
  qed
  note p = stream_ptr [OF gemm_streams_at(1) [OF ready, of N O' M transA A B transB, folded S0, unfolded gemm_blocks] ok _ _ _ lt]
  show ?thesis unfolding n
    by (subst p) (use d in \<open>simp_all add: a_index_def elem_def algebra_simps\<close>)
qed

lemma gemm_B_ptr:
  assumes ready: "ssrs_ready S" and S0: "S0 = gemm_streams A B M N O' transA transB S"
    and i: "i < unat M" and b: "b < unat O' div 8" and k: "k < unat N" and u: "u < 8"
  shows "s_ptr ((ssr_next ^^ (8 * unat N * (i * (unat O' div 8) + b) + 8 * k + u)) (S0 SSR_DM1))
     = elem B (b_index N O' transB (of_nat (8 * b + u)) (of_nat k))"
proof -
  let ?bl = "unat O' div 8" and ?e = "k + unat N * (b + unat O' div 8 * i)"
  have n: "8 * unat N * (i * ?bl + b) + 8 * k + u = u + 8 * ?e" by (simp add: algebra_simps)
  have e: "?e < unat N * (?bl * unat M)" by (rule mixed_lt [OF k mixed_lt [OF b i]])
  have lt: "u + 8 * ?e < 1 * prod_list [8, unat N, ?bl, unat M]"
    using mixed_lt [OF u e] by (simp add: mult.assoc)
  have ok: "counts_ok [8, unat N, ?bl, unat M]"
    using k b i unat_u32_lt [of N] unat_u32_lt [of M] div_le_dividend [of "unat O'" 8] unat_u32_lt [of O']
    by (auto simp: counts_ok_def intro: le_less_trans)
  have d: "digits [8, unat N, ?bl, unat M] ((u + 8 * ?e) div 1) = [u, k, b, i]"
    by (simp only: div_by_1 digits_mixed [OF u] digits_mixed [OF k] digits_mixed [OF b] digits_single [OF i])
  note p = stream_ptr [OF gemm_streams_at(2) [OF ready, of N O' M transB B A transA, folded S0, unfolded gemm_blocks] ok _ _ _ lt]
  show ?thesis unfolding n
    by (subst p) (use d in \<open>simp_all add: b_index_def elem_def UNROLL_def algebra_simps\<close>)
qed

section \<open>The streamed kernel in closed form\<close>

text \<open>What a lane accumulates is the dot product of its column.\<close>

lemma gemm_lane_val:
  assumes ready: "ssrs_ready S" and S0: "S0 = gemm_streams A B M N O' transA transB S"
    and sep: "gemm_sep A B C Y M N O'" and i: "i < unat M" and b: "b < unat O' div 8" and u: "u < 8"
    and es: "set es \<subseteq> {..<unat M * unat O'}"
  shows "lane_sum fp (outs Y v es m) S0 (8 * unat N * (i * (unat O' div 8) + b)) 8 (unat N) u c
    = fold (\<lambda>k c. f_madd fp (la m A M N transA i k) (lb m B N O' transB (8 * b + u) k) c) [0..<unat N] c"
  unfolding lane_sum_def
proof (rule fold_same)
  fix k c assume "k \<in> set [0..<unat N]"
  then have k: "k < unat N" by simp
  have "8 * b + 8 \<le> unat O'"
  proof -
    have "8 * Suc b \<le> 8 * (unat O' div 8)" using b by (intro mult_le_mono2) simp
    then show ?thesis by simp
  qed
  then have j: "8 * b + u < unat O'" using u by linarith
  have a: "nth_elem (outs Y v es m) (S0 SSR_DM0) (8 * unat N * (i * (unat O' div 8) + b) + 8 * k + u)
      = la m A M N transA i k"
    unfolding nth_elem_def gemm_A_ptr [OF ready S0 i b k u] la_def [symmetric] by (rule la_outs [OF sep es i k])
  have b: "nth_elem (outs Y v es m) (S0 SSR_DM1) (8 * unat N * (i * (unat O' div 8) + b) + 8 * k + u)
      = lb m B N O' transB (8 * b + u) k"
    unfolding nth_elem_def gemm_B_ptr [OF ready S0 i b k u] lb_def [symmetric] by (rule lb_outs [OF sep es j k])
  show "f_madd fp (nth_elem (outs Y v es m) (S0 SSR_DM0) (8 * unat N * (i * (unat O' div 8) + b) + 8 * k + u))
        (nth_elem (outs Y v es m) (S0 SSR_DM1) (8 * unat N * (i * (unat O' div 8) + b) + 8 * k + u)) c
      = f_madd fp (la m A M N transA i k) (lb m B N O' transB (8 * b + u) k) c"
    unfolding a b ..
qed

lemma gemm_block_result:
  assumes ready: "ssrs_ready S" and S0: "S0 = gemm_streams A B M N O' transA transB S"
    and sep: "gemm_sep A B C Y M N O'" and i: "i < unat M" and b: "b < unat O' div 8" and N: "N \<noteq> 0"
    and pop: "popped S0 (8 * unat N * (i * (unat O' div 8) + b)) S1"
    and v: "v = rows O' (ssr_val fp A B C M N O' transA transB m)"
  shows "\<exists>S2. popped S0 (8 * unat N * (i * (unat O' div 8) + Suc b)) S2
    \<and> gemm_block fp C Y N O' (of_nat i) b' (S1, outs Y v [0..<i * unat O' + 8 * b] m, of_nat (8 * b))
      = (S2, outs Y v [0..<i * unat O' + 8 * Suc b] m, of_nat (8 * Suc b))"
proof -
  let ?m = "outs Y v [0..<i * unat O' + 8 * b] m" and ?n = "8 * unat N * (i * (unat O' div 8) + b)"
  have "8 * Suc b \<le> 8 * (unat O' div 8)" using b by (intro mult_le_mono2) simp
  then have b8: "8 * b + 8 \<le> unat O'" by simp
  have es: "set [0..<i * unat O' + 8 * b] \<subseteq> {..<unat M * unat O'}" by (rule row_prefix [OF i]) (use b8 in simp)
  let ?c = "if C \<noteq> 0 then map (\<lambda>u. ld32 ?m (elem (elem C (of_nat i * O' + of_nat (8 * b))) (of_nat u))) [0..<8] else replicate 8 0"
  have idx: "elem (elem P (of_nat i * O' + of_nat (8 * b))) (of_nat u) = P + 4 * of_nat (i * unat O' + (8 * b + u))" for P u
    by (simp add: elem_def algebra_simps)
  have c: "?c ! u = (if C \<noteq> 0 then ld32 m (C + 4 * of_nat (i * unat O' + (8 * b + u))) else 0)" if "u < 8" for u
    using lc_outs [OF sep es i, of "8 * b + u"] b8 that unfolding idx by (cases "C = 0") simp_all
  have len: "length ?c = 8" by simp
  have n1: "N - 1 + 1 \<noteq> 0" "unat (N - 1 + 1) = unat N" using N by simp_all
  obtain S2 where pop2: "popped S0 (?n + 8 * unat N) S2" and
    lanes: "frep_lanes fp ?m 8 (N - 1) (S1, ?c) = (S2, map (\<lambda>u. lane_sum fp ?m S0 ?n 8 (unat N) u (?c ! u)) [0..<8])"
    using frep_lanes_result [OF pop len n1(1), of fp ?m] unfolding n1(2) by blast
  let ?cs = "map (\<lambda>u. lane_sum fp ?m S0 ?n 8 (unat N) u (?c ! u)) [0..<8]"
  have lane: "?cs ! u = v (i * unat O' + 8 * b + u)" if u: "u < 8" for u
  proof -
    have j: "8 * b + u < unat O'" "8 * b + u < unat O' div 8 * 8" using u b8 b by linarith+
    have "?cs ! u = block_val fp A B C M N O' transA transB m i (8 * b + u)"
      using u by (simp add: gemm_lane_val [OF ready S0 sep i b u es] c [OF u] block_val_def
          del: of_nat_add of_nat_mult)
    also have "\<dots> = v (i * unat O' + (8 * b + u))"
      unfolding v rows_at [OF j(1)] using j(2) by (simp add: ssr_val_def)
    finally show ?thesis by (simp add: add.assoc)
  qed
  have "gemm_block fp C Y N O' (of_nat i) b' (S1, ?m, of_nat (8 * b))
      = (S2, fold (\<lambda>u m. st32 m (elem (elem Y (of_nat i * O' + of_nat (8 * b))) (of_nat u)) (?cs ! u)) [0..<8] ?m,
         of_nat (8 * b) + UNROLL)"
    unfolding gemm_block_def prod.case Let_def lanes ..
  also have "elem Y (of_nat i * O' + of_nat (8 * b)) = Y + 4 * of_nat (i * unat O' + 8 * b)"
    by (simp add: elem_def)
  also have "fold (\<lambda>u m. st32 m (elem (Y + 4 * of_nat (i * unat O' + 8 * b)) (of_nat u)) (?cs ! u)) [0..<8] ?m
      = outs Y v [0..<i * unat O' + 8 * b + 8] m"
    by (rule store_run) (rule lane)
  also have "of_nat (8 * b) + UNROLL = of_nat (8 * Suc b)" by (simp add: UNROLL_def)
  finally show ?thesis using pop2 by (intro exI [of _ S2]) (simp add: algebra_simps)
qed

lemma gemm_row_result:
  assumes ready: "ssrs_ready S" and S0: "S0 = gemm_streams A B M N O' transA transB S"
    and sep: "gemm_sep A B C Y M N O'" and i: "i < unat M" and N: "N \<noteq> 0"
    and pop: "popped S0 (8 * unat N * (i * (unat O' div 8))) S1"
    and v: "v = rows O' (ssr_val fp A B C M N O' transA transB m)"
  shows "\<exists>S2. popped S0 (8 * unat N * (Suc i * (unat O' div 8))) S2
    \<and> gemm_row fp A B C Y M N O' transA transB (of_nat i) (S1, outs Y v [0..<i * unat O'] m)
      = (S2, outs Y v [0..<Suc i * unat O'] m)"
proof -
  have "\<exists>S2. popped S0 (8 * unat N * (i * (unat O' div 8) + d)) S2
      \<and> fold (\<lambda>b. gemm_block fp C Y N O' (of_nat i) (of_nat b)) [0..<d] (S1, outs Y v [0..<i * unat O'] m, 0)
        = (S2, outs Y v [0..<i * unat O' + 8 * d] m, of_nat (8 * d))"
    if "d \<le> unat O' div 8" for d
    using that
  proof (induction d)
    case 0
    then show ?case using pop by simp
  next
    case (Suc d)
    then have d: "d < unat O' div 8" by simp
    from Suc obtain S2 where S2: "popped S0 (8 * unat N * (i * (unat O' div 8) + d)) S2"
      "fold (\<lambda>b. gemm_block fp C Y N O' (of_nat i) (of_nat b)) [0..<d] (S1, outs Y v [0..<i * unat O'] m, 0)
        = (S2, outs Y v [0..<i * unat O' + 8 * d] m, of_nat (8 * d))" by auto
    from gemm_block_result [OF ready S0 sep i d N S2(1) v, where b' = "of_nat d"] S2(2) show ?case
      by (simp only: upt_Suc_append fold_append fold_simps o_apply zero_le)
  qed
  from this [of "unat O' div 8"] obtain S2 where
    S2: "popped S0 (8 * unat N * (i * (unat O' div 8) + unat O' div 8)) S2"
    "fold (\<lambda>b. gemm_block fp C Y N O' (of_nat i) (of_nat b)) [0..<unat O' div 8] (S1, outs Y v [0..<i * unat O'] m, 0)
        = (S2, outs Y v [0..<i * unat O' + 8 * (unat O' div 8)] m, of_nat (8 * (unat O' div 8)))" by auto
  have tail: "for_u32 (of_nat (8 * (unat O' div 8))) O' (gemm_scalar fp A B C Y M N O' transA transB (of_nat i))
      (outs Y v [0..<i * unat O' + 8 * (unat O' div 8)] m) = outs Y v [0..<i * unat O' + unat O'] m"
    unfolding v by (rule scalar_columns [OF sep i]) (simp_all add: ssr_val_def)
  have "gemm_row fp A B C Y M N O' transA transB (of_nat i) (S1, outs Y v [0..<i * unat O'] m)
      = (S2, outs Y v [0..<i * unat O' + unat O'] m)"
    unfolding gemm_row_def prod.case for_u32_zero gemm_blocks S2(2) Let_def tail ..
  then show ?thesis using S2(1) by (intro exI [of _ S2]) (simp add: algebra_simps)
qed

text \<open>The whole kernel stores the elements of the product in row-major order.\<close>

lemma gemm_ssr_outs:
  assumes ready: "ssrs_ready S" and sep: "gemm_sep A B C Y M N O'" and N: "N \<noteq> 0"
  shows "snd (gemm_ssr fp A B C Y M N O' transA transB (S, m))
    = outs Y (rows O' (ssr_val fp A B C M N O' transA transB m)) [0..<unat M * unat O'] m"
proof -
  let ?S0 = "gemm_streams A B M N O' transA transB S"
  let ?v = "rows O' (ssr_val fp A B C M N O' transA transB m)"
  have "\<exists>S2. popped ?S0 (8 * unat N * (d * (unat O' div 8))) S2
      \<and> fold (\<lambda>i. gemm_row fp A B C Y M N O' transA transB (of_nat i)) [0..<d] (?S0, m)
        = (S2, outs Y ?v [0..<d * unat O'] m)" if "d \<le> unat M" for d
    using that
  proof (induction d)
    case 0
    then show ?case by simp
  next
    case (Suc d)
    then have d: "d < unat M" by simp
    from Suc obtain S2 where S2: "popped ?S0 (8 * unat N * (d * (unat O' div 8))) S2"
      "fold (\<lambda>i. gemm_row fp A B C Y M N O' transA transB (of_nat i)) [0..<d] (?S0, m)
        = (S2, outs Y ?v [0..<d * unat O'] m)" by auto
    from gemm_row_result [OF ready refl sep d N S2(1) refl] S2(2) show ?case
      by (simp only: upt_Suc_append fold_append fold_simps o_apply zero_le)
  qed
  from this [of "unat M"] show ?thesis by (auto simp: gemm_ssr_def for_u32_zero)
qed

lemma block_val_contract:
  "f_contract fp \<Longrightarrow> block_val fp A B 0 M N O' transA transB m i j = scalar_val fp A B 0 M N O' transA transB m i j"
  by (simp add: block_val_def scalar_val_def mac_def)

text \<open>
  C6. The streamed MatMul is bit-identical to the scalar reference. For operands that do not
  overlap the output, whatever the sizes (leftover columns and the fall-back included),
  whatever was in the data movers before (apart from B's repeat count), and whatever the
  rounding, when the compiler contracts the reference's \<open>sum += a * b\<close> to one
  \<open>fmadd.s\<close>, the two leave the same memory.
\<close>

theorem MatMul_bit_identical:
  assumes "ssrs_ready S" and "gemm_sep A B 0 Y M N O'" and "f_contract fp"
  shows "snd (MatMul_ssr fp (MatMul_generic fp) A B Y M N O' (S, m)) = MatMul_generic fp A B Y M N O' m"
proof (cases "M = 0 \<or> N = 0 \<or> O' < UNROLL")
  case True
  then show ?thesis by (simp add: MatMul_ssr_def)
next
  case False
  then have N: "N \<noteq> 0" by simp
  have "ssr_val fp A B 0 M N O' 0 0 m = scalar_val fp A B 0 M N O' 0 0 m"
    by (auto simp: ssr_val_def block_val_contract [OF assms(3)] fun_eq_iff)
  then show ?thesis
    using False gemm_ssr_outs [OF assms(1,2) N, of fp 0 0 m] Gemm_generic_outs [OF assms(2), of fp 0 0 m]
    by (simp add: MatMul_ssr_def MatMul_generic_def)
qed

text \<open>A unit that computes with integers, for concrete runs.\<close>

definition int_fpu :: fpu where
  "int_fpu = \<lparr>f_add = (+), f_sub = (-), f_mul = (*), f_madd = (\<lambda>a b c. a * b + c), f_contract = True\<rparr>"

lemma reset_ready: "ssrs_ready (\<lambda>_. reset_ssr)"
  by (simp add: ssrs_ready_def ssr_wf_def reset_ssr_def)

theorem MatMul_bit_identical_witness:
  "snd (MatMul_ssr int_fpu (MatMul_generic int_fpu) 0x10000000 0x10000100 0x10000400 2 3 11 (\<lambda>_. reset_ssr, \<lambda>x. ucast x))
    = MatMul_generic int_fpu 0x10000000 0x10000100 0x10000400 2 3 11 (\<lambda>x. ucast x)"
proof (rule MatMul_bit_identical [OF reset_ready])
  show "gemm_sep 0x10000000 0x10000100 0 0x10000400 2 3 11"
    unfolding gemm_sep_def by (intro conjI span_disjoint) simp_all
  show "f_contract int_fpu" by (simp add: int_fpu_def)
qed

text \<open>
  C7. The streamed Gemm computes the product it says, transposed or not. Every element of a
  full block of columns is the chain of fused multiply-adds over \<open>k\<close> that starts at
  \<open>C\<close>'s element (or 0 without \<open>C\<close>); every leftover element is the scalar sum with
  \<open>C\<close>'s element added at the end; and nothing outside the output changes.
\<close>

theorem Gemm_ssr_elements:
  assumes "ssrs_ready S" and "gemm_sep A B C Y M N O'"
    and "M \<noteq> 0" and "N \<noteq> 0" and "UNROLL \<le> O'" and "4 * (unat M * unat O') \<le> 4294967296"
    and "i < unat M" and "j < unat O'"
  shows "ld32 (snd (Gemm_ssr fp gen A B C Y M N O' transA transB (S, m))) (elem Y (of_nat i * O' + of_nat j))
      = (if j < unat O' div 8 * 8
         then fold (\<lambda>k c. f_madd fp (la m A M N transA i k) (lb m B N O' transB j k) c) [0..<unat N]
                (if C \<noteq> 0 then ld32 m (elem C (of_nat i * O' + of_nat j)) else 0)
         else let sum = fold (\<lambda>k s. mac fp s (la m A M N transA i k) (lb m B N O' transB j k)) [0..<unat N] 0
              in if C \<noteq> 0 then f_add fp sum (ld32 m (elem C (of_nat i * O' + of_nat j))) else sum)
    \<and> (\<forall>x. x \<notin> span Y (4 * (unat M * unat O')) \<longrightarrow>
          snd (Gemm_ssr fp gen A B C Y M N O' transA transB (S, m)) x = m x)"
proof -
  let ?v = "rows O' (ssr_val fp A B C M N O' transA transB m)" and ?n = "unat M * unat O'"
  have r: "snd (Gemm_ssr fp gen A B C Y M N O' transA transB (S, m)) = outs Y ?v [0..<?n] m"
    using assms(3,4) gemm_ssr_outs [OF assms(1,2,4)] by (simp add: Gemm_ssr_def leD [OF assms(5)])
  have e: "elem P (of_nat i * O' + of_nat j) = P + 4 * of_nat (i * unat O' + j)" for P
    by (simp add: elem_def)
  have "ld32 (outs Y ?v [0..<?n] m) (Y + 4 * of_nat (i * unat O' + j)) = ?v (i * unat O' + j)"
    by (rule ld32_outs_at [OF assms(6)]) (use index_lt [OF assms(7,8)] in auto)
  also have "\<dots> = ssr_val fp A B C M N O' transA transB m i j" by (rule rows_at [OF assms(8)])
  finally have val: "ld32 (outs Y ?v [0..<?n] m) (elem Y (of_nat i * O' + of_nat j)) = \<dots>" unfolding e .
  have out: "outs Y ?v [0..<?n] m x = m x" if "x \<notin> span Y (4 * ?n)" for x
    by (rule outs_outside [OF _ that]) auto
  show ?thesis
    unfolding r val using out by (intro conjI) (simp only: ssr_val_def block_val_def scalar_val_def e, blast)
qed

theorem Gemm_ssr_elements_witness:
  "ld32 (snd (Gemm_ssr int_fpu (\<lambda>_ _ _ _ _ _ _ _ _ m. m) 0x10000000 0x10000100 0x10000200 0x10000400 1 1 8 1 0
      (\<lambda>_. reset_ssr, \<lambda>x. if x = 0x10000000 then 3 else if x = 0x10000104 then 5 else if x = 0x10000204 then 7 else 0)))
      (elem 0x10000400 (0 * 8 + 1)) = 22"
proof -
  have sep: "gemm_sep 0x10000000 0x10000100 0x10000200 0x10000400 1 1 8"
    unfolding gemm_sep_def by (intro conjI impI span_disjoint) simp_all
  have c: "(1::u32) \<noteq> 0" "(1::u32) \<noteq> 0" "UNROLL \<le> 8" "4 * (unat (1::u32) * unat (8::u32)) \<le> 4294967296"
    "0 < unat (1::u32)" "1 < unat (8::u32)" by (simp_all add: UNROLL_def)
  show ?thesis
    using Gemm_ssr_elements [OF reset_ready sep c, of int_fpu "\<lambda>_ _ _ _ _ _ _ _ _ m. m" 1 0
        "\<lambda>x. if x = 0x10000000 then 3 else if x = 0x10000104 then 5 else if x = 0x10000204 then 7 else 0"]
    by (simp add: la_def lb_def a_index_def b_index_def elem_def ld32_def int_fpu_def)
qed

end
