(* ===== verification/ConvKernel.thy ===== *)
theory ConvKernel
  imports GemmKernel ClusterRuntime
begin

text \<open>
  \<open>runtime/snitch/kernels/conv2d_fp32_ssr.c\<close> and the scalar convolution of
  \<open>runtime/tests/ssr_kernels.c\<close>. Four filters share one input window; the streams start
  over at every output pixel.
\<close>

section \<open>The scalar reference\<close>

text \<open>
  The loops over the window of one output pixel. \<open>wb\<close> is where the filter's weights start.
\<close>

definition conv_window ::
    "(u32 \<Rightarrow> u32 \<Rightarrow> u32 \<Rightarrow> u32) \<Rightarrow> u32 \<Rightarrow> u32 \<Rightarrow> u32 \<Rightarrow> u32 \<Rightarrow> u32 \<Rightarrow> u32 \<Rightarrow> u32 \<Rightarrow> u32 \<Rightarrow> u32 \<Rightarrow> u32 \<Rightarrow>
       u32 \<Rightarrow> u32 \<Rightarrow> mem \<Rightarrow> u32" where
  "conv_window mc A C H W B P Q SP SQ wb h w m =
     for_u32 0 C (\<lambda>c. for_u32 0 P (\<lambda>p. for_u32 0 Q (\<lambda>q sum.
       mc sum (ld32 m (elem A (c * H * W + (h * SP + p) * W + (w * SQ + q))))
              (ld32 m (elem B (wb + c * P * Q + p * Q + q)))))) 0"

definition conv_pixel ::
    "'a fpu_scheme \<Rightarrow> u32 \<Rightarrow> u32 \<Rightarrow> u32 \<Rightarrow> u32 \<Rightarrow> u32 \<Rightarrow> u32 \<Rightarrow> u32 \<Rightarrow> u32 \<Rightarrow> u32 \<Rightarrow> u32 \<Rightarrow> bool \<Rightarrow> u32 \<Rightarrow>
       u32 \<Rightarrow> u32 \<Rightarrow> u32 \<Rightarrow> u32 \<Rightarrow> u32 \<Rightarrow> u32 \<Rightarrow> mem \<Rightarrow> mem" where
  "conv_pixel fp A C H W B P Q SP SQ bias has_bias Y H_out W_out wb f h w m =
     (let sum = conv_window (mac fp) A C H W B P Q SP SQ wb h w m
      in st32 m (elem Y (f * H_out * W_out + h * W_out + w))
           (if has_bias then f_add fp sum (ld32 m (elem bias f)) else sum))"

definition Conv2d_generic ::
    "'a fpu_scheme \<Rightarrow> u32 \<Rightarrow> u32 \<Rightarrow> u32 \<Rightarrow> u32 \<Rightarrow> u32 \<Rightarrow> u32 \<Rightarrow> u32 \<Rightarrow> u32 \<Rightarrow> u32 \<Rightarrow> u32 \<Rightarrow> u32 \<Rightarrow> bool \<Rightarrow> u32 \<Rightarrow> mem \<Rightarrow> mem" where
  "Conv2d_generic fp A C H W B F P Q SP SQ bias has_bias Y m =
     (let H_out = divu (H - P) SP + 1; W_out = divu (W - Q) SQ + 1
      in for_u32 0 F (\<lambda>f. for_u32 0 H_out (\<lambda>h. for_u32 0 W_out (\<lambda>w.
           conv_pixel fp A C H W B P Q SP SQ bias has_bias Y H_out W_out (f * C * P * Q) f h w))) m)"

section \<open>The streamed kernel\<close>

definition F_UNROLL :: u32 where "F_UNROLL = 4"

definition conv_streams :: "u32 \<Rightarrow> u32 \<Rightarrow> u32 \<Rightarrow> u32 \<Rightarrow> u32 \<Rightarrow> u32 \<Rightarrow> ssrs \<Rightarrow> ssrs" where
  "conv_streams C H W P Q taps S =
     (let stride = 4;
          S1 = ssr_loop_3d SSR_DM0 Q P C stride (W * stride) (H * W * stride) S;
          S2 = ssr_repeat SSR_DM0 F_UNROLL S1
      in ssr_loop_2d SSR_DM1 F_UNROLL taps (taps * stride) stride S2)"

text \<open>One output pixel of four filters.\<close>

definition conv_group_pixel ::
    "'a fpu_scheme \<Rightarrow> u32 \<Rightarrow> u32 \<Rightarrow> u32 \<Rightarrow> u32 \<Rightarrow> u32 \<Rightarrow> u32 \<Rightarrow> bool \<Rightarrow> u32 \<Rightarrow> u32 \<Rightarrow> u32 \<Rightarrow> u32 \<Rightarrow>
       u32 \<Rightarrow> u32 \<Rightarrow> u32 \<Rightarrow> ssrs \<times> mem \<Rightarrow> ssrs \<times> mem" where
  "conv_group_pixel fp A W B SP SQ bias has_bias Y H_out W_out taps f h w = (\<lambda>(S, m).
     let S1 = ssr_read SSR_DM0 SSR_3D (elem A (h * SP * W + w * SQ)) S;
         S2 = ssr_read SSR_DM1 SSR_2D (elem B (f * taps)) S1;
         (S3, c) = frep_lanes fp m 4 (taps - 1) (S2, replicate 4 0);
         y = elem Y (f * H_out * W_out + h * W_out + w);
         plane = H_out * W_out
     in (S3, fold (\<lambda>u m. st32 m (elem y (of_nat u * plane))
           (if has_bias then f_add fp (c ! u) (ld32 m (elem bias (f + of_nat u))) else c ! u)) [0..<4] m))"

text \<open>
  The loop over groups: \<open>f\<close> steps by \<open>F_UNROLL\<close> from 0 to \<open>groups * F_UNROLL\<close>, so its
  value in iteration \<open>g\<close> is \<open>g * F_UNROLL\<close>.
\<close>

definition Conv2d_ssr ::
    "'a fpu_scheme \<Rightarrow> (u32 \<Rightarrow> u32 \<Rightarrow> u32 \<Rightarrow> u32 \<Rightarrow> u32 \<Rightarrow> u32 \<Rightarrow> u32 \<Rightarrow> u32 \<Rightarrow> u32 \<Rightarrow> u32 \<Rightarrow> u32 \<Rightarrow> bool \<Rightarrow> u32 \<Rightarrow> mem \<Rightarrow> mem) \<Rightarrow>
       u32 \<Rightarrow> u32 \<Rightarrow> u32 \<Rightarrow> u32 \<Rightarrow> u32 \<Rightarrow> u32 \<Rightarrow> u32 \<Rightarrow> u32 \<Rightarrow> u32 \<Rightarrow> u32 \<Rightarrow> u32 \<Rightarrow> bool \<Rightarrow> u32 \<Rightarrow>
       ssrs \<times> mem \<Rightarrow> ssrs \<times> mem" where
  "Conv2d_ssr fp gen A C H W B F P Q SP SQ bias has_bias Y = (\<lambda>(S, m).
     let H_out = divu (H - P) SP + 1; W_out = divu (W - Q) SQ + 1;
         taps = C * P * Q; groups = F div F_UNROLL
     in if groups = 0 \<or> taps = 0 \<or> H_out = 0 \<or> W_out = 0
        then (S, gen A C H W B F P Q SP SQ bias has_bias Y m)
        else
          let (S', m') = for_u32 0 groups (\<lambda>g. for_u32 0 H_out (\<lambda>h. for_u32 0 W_out (\<lambda>w.
                 conv_group_pixel fp A W B SP SQ bias has_bias Y H_out W_out taps (g * F_UNROLL) h w)))
                 (conv_streams C H W P Q taps S, m)
          in (S', for_u32 (groups * F_UNROLL) F (\<lambda>f. for_u32 0 H_out (\<lambda>h. for_u32 0 W_out (\<lambda>w.
                 conv_pixel fp A C H W B P Q SP SQ bias has_bias Y H_out W_out (f * taps) f h w))) m'))"

section \<open>Loop nests as one loop\<close>

lemma fold_nest_from:
  assumes "a \<le> c"
  shows "fold (\<lambda>i. fold (g i) [0..<b]) [a..<c] s = fold (\<lambda>k. g (k div b) (k mod b)) [a * b..<c * b] s"
  using assms
proof (induction c)
  case 0
  then show ?case by simp
next
  case (Suc c)
  show ?case
  proof (cases "a \<le> c")
    case True
    then have "a * b \<le> c * b" by (rule mult_le_mono1)
    then have split: "[a * b..<Suc c * b] = [a * b..<c * b] @ [c * b..<c * b + b]"
      using upt_add_eq_append [of "a * b" "c * b" b] by (simp add: add.commute)
    have m: "[c * b..<c * b + b] = map (\<lambda>k. k + c * b) [0..<b]"
      by (simp add: map_add_upt add.commute)
    have inner: "fold (\<lambda>k. g (k div b) (k mod b)) [c * b..<c * b + b] s = fold (g c) [0..<b] s" for s
      unfolding m fold_map comp_def by (rule fold_same) simp
    show ?thesis unfolding split using True Suc by (simp add: inner)
  next
    case False
    then have "a = Suc c" using Suc.prems by simp
    then show ?thesis by simp
  qed
qed

lemma fold_nest:
  "fold (\<lambda>i. fold (g i) [0..<b]) [0..<a] s = fold (\<lambda>k. g (k div b) (k mod b)) [0..<a * b] s"
  using fold_nest_from [of 0 a g b s] by simp

section \<open>What an output pixel is\<close>

text \<open>The input element under tap \<open>k\<close> of the window at \<open>(h, w)\<close>.\<close>

definition conv_in :: "u32 \<Rightarrow> u32 \<Rightarrow> u32 \<Rightarrow> u32 \<Rightarrow> u32 \<Rightarrow> u32 \<Rightarrow> nat \<Rightarrow> nat \<Rightarrow> nat \<Rightarrow> nat" where
  "conv_in H W P Q SP SQ h w k =
     (let c = k div (unat P * unat Q); r = k mod (unat P * unat Q); p = r div unat Q; q = r mod unat Q
      in c * (unat H * unat W) + (h * unat SP + p) * unat W + (w * unat SQ + q))"

definition conv_dot ::
    "(u32 \<Rightarrow> u32 \<Rightarrow> u32 \<Rightarrow> u32) \<Rightarrow> u32 \<Rightarrow> u32 \<Rightarrow> u32 \<Rightarrow> u32 \<Rightarrow> u32 \<Rightarrow> u32 \<Rightarrow> u32 \<Rightarrow> u32 \<Rightarrow> u32 \<Rightarrow>
       mem \<Rightarrow> nat \<Rightarrow> nat \<Rightarrow> nat \<Rightarrow> u32" where
  "conv_dot mc A C H W B P Q SP SQ m f h w =
     fold (\<lambda>k s. mc s (ld32 m (A + 4 * of_nat (conv_in H W P Q SP SQ h w k)))
                     (ld32 m (B + 4 * of_nat (f * (unat C * (unat P * unat Q)) + k))))
       [0..<unat C * (unat P * unat Q)] 0"

text \<open>Element \<open>e\<close> of the output.\<close>

definition conv_val ::
    "(u32 \<Rightarrow> u32 \<Rightarrow> u32 \<Rightarrow> u32) \<Rightarrow> 'a fpu_scheme \<Rightarrow> u32 \<Rightarrow> u32 \<Rightarrow> u32 \<Rightarrow> u32 \<Rightarrow> u32 \<Rightarrow> u32 \<Rightarrow> u32 \<Rightarrow> u32 \<Rightarrow> u32 \<Rightarrow>
       u32 \<Rightarrow> bool \<Rightarrow> u32 \<Rightarrow> u32 \<Rightarrow> mem \<Rightarrow> nat \<Rightarrow> u32" where
  "conv_val mc fp A C H W B P Q SP SQ bias has_bias Ho Wo m e =
     (let f = e div (unat Ho * unat Wo); r = e mod (unat Ho * unat Wo);
          s = conv_dot mc A C H W B P Q SP SQ m f (r div unat Wo) (r mod unat Wo)
      in if has_bias then f_add fp s (ld32 m (bias + 4 * of_nat f)) else s)"

text \<open>Sizes the source can address, a window that fits, and no overlap with the output.\<close>

definition conv_ok ::
    "u32 \<Rightarrow> u32 \<Rightarrow> u32 \<Rightarrow> u32 \<Rightarrow> u32 \<Rightarrow> u32 \<Rightarrow> u32 \<Rightarrow> u32 \<Rightarrow> u32 \<Rightarrow> u32 \<Rightarrow> u32 \<Rightarrow> bool \<Rightarrow> u32 \<Rightarrow> bool" where
  "conv_ok A C H W B F P Q SP SQ bias has_bias Y \<longleftrightarrow>
     (let Ho = unat (divu (H - P) SP + 1); Wo = unat (divu (W - Q) SQ + 1); taps = unat C * (unat P * unat Q)
      in 0 < P \<and> P \<le> H \<and> 0 < Q \<and> Q \<le> W \<and> 0 < SP \<and> 0 < SQ
       \<and> taps < 4294967296 \<and> 4 * (unat F * (Ho * Wo)) \<le> 4294967296
       \<and> span A (4 * (unat C * (unat H * unat W))) \<inter> span Y (4 * (unat F * (Ho * Wo))) = {}
       \<and> span B (4 * (unat F * taps)) \<inter> span Y (4 * (unat F * (Ho * Wo))) = {}
       \<and> (has_bias \<longrightarrow> span bias (4 * unat F) \<inter> span Y (4 * (unat F * (Ho * Wo))) = {}))"

lemma out_extent:
  assumes "0 < P" "P \<le> H" "0 < SP" and "h < unat (divu (H - P) SP + 1)" and "p < unat P"
  shows "h * unat SP + p < unat H"
proof -
  have sub: "unat (H - P) = unat H - unat P" using assms(2) by (simp add: unat_sub word_le_nat_alt)
  have d: "unat (divu (H - P) SP) = (unat H - unat P) div unat SP"
    using assms(3) by (simp add: divu_def unat_div sub word_gt_0)
  have "(unat H - unat P) div unat SP \<le> unat H - unat P" by (rule div_le_dividend)
  moreover have "0 < unat P" using assms(1) by (simp add: word_less_nat_alt)
  moreover have "unat P \<le> unat H" using assms(2) by (simp add: word_le_nat_alt)
  ultimately have "(unat H - unat P) div unat SP + 1 < 4294967296" using unat_u32_lt [of H] by linarith
  then have "unat (divu (H - P) SP + 1) = (unat H - unat P) div unat SP + 1"
    by (subst unat_plus_small) (simp_all add: d)
  then have "h \<le> (unat H - unat P) div unat SP" using assms(4) by simp
  then have "h * unat SP \<le> unat H - unat P"
    using assms(3) by (metis div_times_less_eq_dividend le_trans mult_le_mono1)
  then show ?thesis using assms(2,5) by (simp add: word_le_nat_alt)
qed

lemma conv_in_lt:
  assumes "0 < P" "P \<le> H" "0 < Q" "Q \<le> W" "0 < SP" "0 < SQ"
    and h: "h < unat (divu (H - P) SP + 1)" and w: "w < unat (divu (W - Q) SQ + 1)"
    and k: "k < unat C * (unat P * unat Q)"
  shows "conv_in H W P Q SP SQ h w k < unat C * (unat H * unat W)"
proof -
  let ?c = "k div (unat P * unat Q)" and ?r = "k mod (unat P * unat Q)"
  let ?p = "?r div unat Q" and ?q = "?r mod unat Q"
  have pos: "0 < unat P" "0 < unat Q" using assms(1,3) by (simp_all add: word_less_nat_alt)
  have c: "?c < unat C" using k by (simp add: less_mult_imp_div_less)
  have "?r < unat P * unat Q" using pos by simp
  then have p: "?p < unat P" by (simp add: less_mult_imp_div_less)
  have q: "?q < unat Q" using pos by simp
  have a: "h * unat SP + ?p < unat H" by (rule out_extent [OF assms(1,2,5) h p])
  have b: "w * unat SQ + ?q < unat W" by (rule out_extent [OF assms(3,4,6) w q])
  have "(h * unat SP + ?p) * unat W + (w * unat SQ + ?q) < unat H * unat W" by (rule index_lt [OF a b])
  then have "?c * (unat H * unat W) + ((h * unat SP + ?p) * unat W + (w * unat SQ + ?q)) < unat C * (unat H * unat W)"
    by (rule index_lt [OF c])
  then show ?thesis by (simp add: conv_in_def Let_def add.assoc)
qed

lemma conv_window_dot:
  "conv_window mc A C H W B P Q SP SQ (of_nat f * (C * P * Q)) (of_nat h) (of_nat w) m
     = conv_dot mc A C H W B P Q SP SQ m f h w"
proof -
  let ?g = "\<lambda>c p q s. mc s (ld32 m (elem A (of_nat c * H * W + (of_nat h * SP + of_nat p) * W + (of_nat w * SQ + of_nat q))))
       (ld32 m (elem B (of_nat f * (C * P * Q) + of_nat c * P * Q + of_nat p * Q + of_nat q)))"
  let ?PQ = "unat P * unat Q"
  have "conv_window mc A C H W B P Q SP SQ (of_nat f * (C * P * Q)) (of_nat h) (of_nat w) m
      = fold (\<lambda>c. fold (\<lambda>p. fold (?g c p) [0..<unat Q]) [0..<unat P]) [0..<unat C] 0"
    by (simp only: conv_window_def for_u32_zero_fun)
  also have "\<dots> = fold (\<lambda>c. fold (\<lambda>r. ?g c (r div unat Q) (r mod unat Q)) [0..<?PQ]) [0..<unat C] 0"
    by (rule fold_same) (rule fold_nest)
  also have "\<dots> = fold (\<lambda>k. ?g (k div ?PQ) (k mod ?PQ div unat Q) (k mod ?PQ mod unat Q)) [0..<unat C * ?PQ] 0"
    by (rule fold_nest)
  also have "\<dots> = conv_dot mc A C H W B P Q SP SQ m f h w"
    unfolding conv_dot_def
  proof (rule fold_same)
    fix k s assume "k \<in> set [0..<unat C * ?PQ]"
    let ?c = "k div ?PQ" and ?p = "k mod ?PQ div unat Q" and ?q = "k mod ?PQ mod unat Q"
    have a: "elem A (of_nat ?c * H * W + (of_nat h * SP + of_nat ?p) * W + (of_nat w * SQ + of_nat ?q))
        = A + 4 * of_nat (conv_in H W P Q SP SQ h w k)"
      by (simp add: conv_in_def Let_def elem_def mult.assoc del: mod_mod_trivial)
    have "k = ?c * ?PQ + (?p * unat Q + ?q)" by (simp only: div_mult_mod_eq)
    then have "(of_nat k :: u32) = of_nat (?c * ?PQ + (?p * unat Q + ?q))" by (rule arg_cong)
    then have kk: "of_nat k = of_nat ?c * (P * Q) + (of_nat ?p * Q + of_nat ?q)"
      by (simp only: of_nat_add of_nat_mult of_nat_unat ucast_id)
    have b: "elem B (of_nat f * (C * P * Q) + of_nat ?c * P * Q + of_nat ?p * Q + of_nat ?q)
        = B + 4 * of_nat (f * (unat C * ?PQ) + k)"
      unfolding elem_def of_nat_add kk by (simp add: algebra_simps)
    show "?g ?c ?p ?q s = mc s (ld32 m (A + 4 * of_nat (conv_in H W P Q SP SQ h w k)))
        (ld32 m (B + 4 * of_nat (f * (unat C * ?PQ) + k)))"
      unfolding a b ..
  qed
  finally show ?thesis .
qed

section \<open>The reference in closed form\<close>

lemma conv_dot_outs:
  assumes ok: "conv_ok A C H W B F P Q SP SQ bias hb Y"
    and f: "f < unat F" and h: "h < unat (divu (H - P) SP + 1)" and w: "w < unat (divu (W - Q) SQ + 1)"
    and es: "set es \<subseteq> {..<unat F * (unat (divu (H - P) SP + 1) * unat (divu (W - Q) SQ + 1))}"
  shows "conv_dot mc A C H W B P Q SP SQ (outs Y v es m) f h w = conv_dot mc A C H W B P Q SP SQ m f h w"
  unfolding conv_dot_def
proof (rule fold_same)
  let ?n = "unat F * (unat (divu (H - P) SP + 1) * unat (divu (W - Q) SQ + 1))"
  let ?taps = "unat C * (unat P * unat Q)"
  fix k s assume "k \<in> set [0..<?taps]"
  then have k: "k < ?taps" by simp
  have g: "0 < P" "P \<le> H" "0 < Q" "Q \<le> W" "0 < SP" "0 < SQ"
    "span A (4 * (unat C * (unat H * unat W))) \<inter> span Y (4 * ?n) = {}"
    "span B (4 * (unat F * ?taps)) \<inter> span Y (4 * ?n) = {}"
    using ok by (simp_all add: conv_ok_def Let_def)
  have a: "ld32 (outs Y v es m) (A + 4 * of_nat (conv_in H W P Q SP SQ h w k))
      = ld32 m (A + 4 * of_nat (conv_in H W P Q SP SQ h w k))"
    by (rule ld32_elem_outs [OF es g(7) conv_in_lt [OF g(1-6) h w k]])
  have b: "ld32 (outs Y v es m) (B + 4 * of_nat (f * ?taps + k)) = ld32 m (B + 4 * of_nat (f * ?taps + k))"
    by (rule ld32_elem_outs [OF es g(8) index_lt [OF f k]])
  show "mc s (ld32 (outs Y v es m) (A + 4 * of_nat (conv_in H W P Q SP SQ h w k)))
         (ld32 (outs Y v es m) (B + 4 * of_nat (f * ?taps + k)))
      = mc s (ld32 m (A + 4 * of_nat (conv_in H W P Q SP SQ h w k))) (ld32 m (B + 4 * of_nat (f * ?taps + k)))"
    unfolding a b ..
qed

lemma conv_bias_outs:
  assumes ok: "conv_ok A C H W B F P Q SP SQ bias hb Y" and f: "f < unat F" and hb
    and es: "set es \<subseteq> {..<unat F * (unat (divu (H - P) SP + 1) * unat (divu (W - Q) SQ + 1))}"
  shows "ld32 (outs Y v es m) (bias + 4 * of_nat f) = ld32 m (bias + 4 * of_nat f)"
  by (rule ld32_elem_outs [OF es _ f]) (use ok \<open>hb\<close> in \<open>simp add: conv_ok_def Let_def\<close>)

text \<open>Row-major position of a pixel.\<close>

lemma pixel_split:
  assumes "e < F * (Ho * (Wo::nat))"
  shows "e div (Ho * Wo) < F" and "e mod (Ho * Wo) div Wo < Ho" and "e mod (Ho * Wo) mod Wo < Wo"
    and "e = e div (Ho * Wo) * (Ho * Wo) + (e mod (Ho * Wo) div Wo * Wo + e mod (Ho * Wo) mod Wo)"
proof -
  have pos: "0 < Ho" "0 < Wo" using assms by (auto intro: gr0I)
  show "e div (Ho * Wo) < F" using assms by (rule less_mult_imp_div_less)
  have "e mod (Ho * Wo) < Ho * Wo" using pos by simp
  then show "e mod (Ho * Wo) div Wo < Ho" by (rule less_mult_imp_div_less)
  show "e mod (Ho * Wo) mod Wo < Wo" using pos by simp
  show "e = e div (Ho * Wo) * (Ho * Wo) + (e mod (Ho * Wo) div Wo * Wo + e mod (Ho * Wo) mod Wo)"
    by (simp only: div_mult_mod_eq)
qed

lemma conv_val_outs:
  assumes ok: "conv_ok A C H W B F P Q SP SQ bias hb Y"
    and e: "e < unat F * (unat (divu (H - P) SP + 1) * unat (divu (W - Q) SQ + 1))"
    and es: "set es \<subseteq> {..<unat F * (unat (divu (H - P) SP + 1) * unat (divu (W - Q) SQ + 1))}"
  shows "conv_val mc fp A C H W B P Q SP SQ bias hb (divu (H - P) SP + 1) (divu (W - Q) SQ + 1) (outs Y v es m) e
    = conv_val mc fp A C H W B P Q SP SQ bias hb (divu (H - P) SP + 1) (divu (W - Q) SQ + 1) m e"
  using conv_bias_outs [OF ok pixel_split(1) [OF e] _ es, of v m]
  by (simp add: conv_val_def Let_def conv_dot_outs [OF ok pixel_split(1-3) [OF e] es])

lemma conv_pixel_store:
  assumes ok: "conv_ok A C H W B F P Q SP SQ bias hb Y"
    and Ho: "Ho = divu (H - P) SP + 1" and Wo: "Wo = divu (W - Q) SQ + 1"
    and e: "e < unat F * (unat Ho * unat Wo)" and es: "set es \<subseteq> {..<unat F * (unat Ho * unat Wo)}"
  shows "conv_pixel fp A C H W B P Q SP SQ bias hb Y Ho Wo (of_nat (e div (unat Ho * unat Wo)) * (C * P * Q))
      (of_nat (e div (unat Ho * unat Wo))) (of_nat (e mod (unat Ho * unat Wo) div unat Wo))
      (of_nat (e mod (unat Ho * unat Wo) mod unat Wo)) (outs Y v es m)
    = st32 (outs Y v es m) (Y + 4 * of_nat e) (conv_val (mac fp) fp A C H W B P Q SP SQ bias hb Ho Wo m e)"
proof -
  let ?f = "e div (unat Ho * unat Wo)" and ?h = "e mod (unat Ho * unat Wo) div unat Wo"
    and ?w = "e mod (unat Ho * unat Wo) mod unat Wo"
  have "(of_nat e :: u32) = of_nat (?f * (unat Ho * unat Wo) + (?h * unat Wo + ?w))"
    using pixel_split(4) [OF e] by (rule arg_cong)
  then have at: "elem Y (of_nat ?f * Ho * Wo + of_nat ?h * Wo + of_nat ?w) = Y + 4 * of_nat e"
    by (simp only: of_nat_add of_nat_mult of_nat_unat ucast_id elem_def ac_simps)
  have b: "elem bias (of_nat ?f) = bias + 4 * of_nat ?f" by (simp add: elem_def)
  have "conv_val (mac fp) fp A C H W B P Q SP SQ bias hb Ho Wo (outs Y v es m) e
      = conv_val (mac fp) fp A C H W B P Q SP SQ bias hb Ho Wo m e"
    using conv_val_outs [OF ok, of e es "mac fp" fp v m] e es by (simp only: Ho Wo)
  then show ?thesis
    unfolding conv_pixel_def Let_def conv_window_dot at b by (simp only: conv_val_def Let_def)
qed

lemma Conv2d_generic_outs:
  assumes ok: "conv_ok A C H W B F P Q SP SQ bias hb Y"
    and Ho: "Ho = divu (H - P) SP + 1" and Wo: "Wo = divu (W - Q) SQ + 1"
  shows "Conv2d_generic fp A C H W B F P Q SP SQ bias hb Y m
    = outs Y (conv_val (mac fp) fp A C H W B P Q SP SQ bias hb Ho Wo m) [0..<unat F * (unat Ho * unat Wo)] m"
proof -
  let ?n = "unat F * (unat Ho * unat Wo)" and ?v = "conv_val (mac fp) fp A C H W B P Q SP SQ bias hb Ho Wo m"
  let ?px = "\<lambda>f h w. conv_pixel fp A C H W B P Q SP SQ bias hb Y Ho Wo (of_nat f * (C * P * Q)) (of_nat f) (of_nat h) (of_nat w)"
  have "Conv2d_generic fp A C H W B F P Q SP SQ bias hb Y m
      = fold (\<lambda>f. fold (\<lambda>h. fold (?px f h) [0..<unat Wo]) [0..<unat Ho]) [0..<unat F] m"
    by (simp only: Conv2d_generic_def Let_def for_u32_zero_fun Ho [symmetric] Wo [symmetric] mult.assoc)
  also have "\<dots> = fold (\<lambda>f. fold (\<lambda>r. ?px f (r div unat Wo) (r mod unat Wo)) [0..<unat Ho * unat Wo]) [0..<unat F] m"
    by (rule fold_same) (rule fold_nest)
  also have "\<dots> = fold (\<lambda>e. ?px (e div (unat Ho * unat Wo)) (e mod (unat Ho * unat Wo) div unat Wo)
       (e mod (unat Ho * unat Wo) mod unat Wo)) [0..<?n] (outs Y ?v [] m)"
    unfolding outs_Nil by (rule fold_nest)
  also have "\<dots> = outs Y ?v ([] @ concat (map (\<lambda>e. [e]) [0..<?n])) m"
  proof (rule store_steps)
    fix e es assume "e \<in> set [0..<?n]" and es: "set es \<subseteq> {..<?n}"
    then have e: "e < ?n" by simp
    show "?px (e div (unat Ho * unat Wo)) (e mod (unat Ho * unat Wo) div unat Wo)
       (e mod (unat Ho * unat Wo) mod unat Wo) (outs Y ?v es m) = outs Y ?v (es @ [e]) m"
      unfolding outs_snoc by (rule conv_pixel_store [OF ok Ho Wo e es])
  qed auto
  finally show ?thesis by (simp only: append_Nil concat_map_singleton map_ident)
qed

section \<open>The streams of one pixel\<close>

text \<open>Both movers programmed for the convolution; every pixel arms them again.\<close>

definition conv_ready :: "u32 \<Rightarrow> u32 \<Rightarrow> u32 \<Rightarrow> u32 \<Rightarrow> u32 \<Rightarrow> u32 \<Rightarrow> ssrs \<Rightarrow> bool" where
  "conv_ready C H W P Q taps S \<longleftrightarrow>
     programmed [unat Q, unat P, unat C] [4, W * 4, H * W * 4] (S SSR_DM0) \<and> s_repeat (S SSR_DM0) = 3
     \<and> programmed [4, unat taps] [taps * 4, 4] (S SSR_DM1) \<and> s_repeat (S SSR_DM1) = 0"

lemma conv_streams_ready:
  assumes "ssrs_ready S"
  shows "conv_ready C H W P Q taps (conv_streams C H W P Q taps S)"
proof -
  have dm: "SSR_DM0 < 3" "SSR_DM1 < 3" "SSR_DM0 \<noteq> SSR_DM1" by (simp_all add: SSR_DM0_def SSR_DM1_def)
  have w: "ssr_wf (S SSR_DM0)" "ssr_wf (S SSR_DM1)" "s_repeat (S SSR_DM1) = 0"
    using assms by (simp_all add: ssrs_ready_def)
  define S1 where "S1 = ssr_loop_3d SSR_DM0 Q P C 4 (W * 4) (H * W * 4) S"
  define S2 where "S2 = ssr_repeat SSR_DM0 F_UNROLL S1"
  have fin: "conv_streams C H W P Q taps S = ssr_loop_2d SSR_DM1 F_UNROLL taps (taps * 4) 4 S2"
    by (simp only: conv_streams_def S1_def S2_def Let_def)
  note l1 = ssr_loop_3d_programmed [where S = S and dm = SSR_DM0 and ?b0.0 = Q and ?b1.0 = P and ?b2.0 = C
      and ?s0.0 = 4 and ?s1.0 = "W * 4" and ?s2.0 = "H * W * 4", OF w(1) dm(1), folded S1_def]
  note r2 = ssr_repeat_programmed [where S = S1 and dm = SSR_DM0 and c = F_UNROLL, OF l1(1) dm(1), folded S2_def]
  have o: "S2 SSR_DM1 = S SSR_DM1" using r2(3) [of SSR_DM1] l1(3) [of SSR_DM1] dm by simp
  then have w2: "ssr_wf (S2 SSR_DM1)" using w(2) by simp
  note l3 = ssr_loop_2d_programmed [where S = S2 and dm = SSR_DM1 and ?b0.0 = F_UNROLL and ?b1.0 = taps
      and ?s0.0 = "taps * 4" and ?s1.0 = 4, OF w2 dm(2), folded fin]
  show ?thesis
    unfolding conv_ready_def using r2(1,2) l3(1,2) l3(3) [of SSR_DM0] dm(3) o w(3)
    by (simp add: F_UNROLL_def)
qed

lemma conv_armed:
  assumes "conv_ready C H W P Q taps S"
    and "S' = ssr_read SSR_DM1 SSR_2D b (ssr_read SSR_DM0 SSR_3D a S)"
  shows "stream_at [unat Q, unat P, unat C] [4, W * 4, H * W * 4] 4 a 0 (S' SSR_DM0)"
    and "stream_at [4, unat taps] [taps * 4, 4] 1 b 0 (S' SSR_DM1)"
    and "popped S' n T \<Longrightarrow> conv_ready C H W P Q taps T"
proof -
  have dm: "SSR_DM0 < 3" "SSR_DM1 < 3" "SSR_DM0 \<noteq> SSR_DM1" by (simp_all add: SSR_DM0_def SSR_DM1_def)
  have d: "SSR_3D < 4" "SSR_2D < 4" "Suc SSR_3D = 3" "Suc SSR_2D = 2" by (simp_all add: SSR_3D_def SSR_2D_def)
  have r: "programmed [unat Q, unat P, unat C] [4, W * 4, H * W * 4] (S SSR_DM0)" "s_repeat (S SSR_DM0) = 3"
     "programmed [4, unat taps] [taps * 4, 4] (S SSR_DM1)" "s_repeat (S SSR_DM1) = 0"
    using assms(1) by (simp_all add: conv_ready_def)
  let ?S1 = "ssr_read SSR_DM0 SSR_3D a S"
  have o1: "?S1 SSR_DM1 = S SSR_DM1"
    by (rule ssr_read_streams(3) [where S = S and dm = SSR_DM0 and r = 4, OF r(1) dm(1)]) (use r(2) dm d in simp_all)
  have p1: "programmed [4, unat taps] [taps * 4, 4] (?S1 SSR_DM1)" "s_repeat (?S1 SSR_DM1) = 0"
    using r(3,4) o1 by simp_all
  have o0: "S' SSR_DM0 = ?S1 SSR_DM0" unfolding assms(2)
    by (rule ssr_read_streams(3) [where S = ?S1 and dm = SSR_DM1 and r = 1, OF p1(1) dm(2)]) (use p1(2) dm d in simp_all)
  show "stream_at [unat Q, unat P, unat C] [4, W * 4, H * W * 4] 4 a 0 (S' SSR_DM0)" unfolding o0
    by (rule ssr_read_streams(1) [where S = S and dm = SSR_DM0, OF r(1) dm(1)]) (use r(2) d in simp_all)
  show "stream_at [4, unat taps] [taps * 4, 4] 1 b 0 (S' SSR_DM1)" unfolding assms(2)
    by (rule ssr_read_streams(1) [where S = ?S1 and dm = SSR_DM1, OF p1(1) dm(2)]) (use p1(2) d in simp_all)
  note k0 = ssr_read_keeps [where S = S and dm = SSR_DM0 and p = a, OF r(1) dm(1) d(1), folded o0]
  note k1 = ssr_read_keeps [where S = ?S1 and dm = SSR_DM1 and p = b, OF p1(1) dm(2) d(2), folded assms(2)]
  show "conv_ready C H W P Q taps T" if "popped S' n T"
    using that k0 k1 r(2) p1(2) d by (simp add: conv_ready_def popped_def programmed_steps)
qed

text \<open>A lane's chain is the dot product of its filter with the window.\<close>

lemma conv_lane_val:
  assumes ready: "conv_ready C H W P Q taps S" and taps: "taps = C * P * Q" and ut: "unat taps = unat C * (unat P * unat Q)"
    and S': "S' = ssr_read SSR_DM1 SSR_2D (elem B (of_nat f * taps)) (ssr_read SSR_DM0 SSR_3D (elem A (of_nat h * SP * W + of_nat w * SQ)) S)"
    and u: "u < 4"
  shows "lane_sum fp m S' 0 4 (unat taps) u 0 = conv_dot (\<lambda>s a b. f_madd fp a b s) A C H W B P Q SP SQ m (f + u) h w"
  unfolding lane_sum_def conv_dot_def ut
proof (rule fold_same)
  fix k s assume "k \<in> set [0..<unat C * (unat P * unat Q)]"
  then have k: "k < unat C * (unat P * unat Q)" by simp
  note st = conv_armed(1,2) [OF ready S']
  let ?c = "k div (unat P * unat Q)" and ?p = "k mod (unat P * unat Q) div unat Q" and ?q = "k mod (unat P * unat Q) mod unat Q"
  note sp = pixel_split [OF k]
  have keq: "k = ?q + unat Q * (?p + unat P * ?c)" using sp(4) by (simp add: algebra_simps)
  have "digits [unat Q, unat P, unat C] k = digits [unat Q, unat P, unat C] (?q + unat Q * (?p + unat P * ?c))"
    using keq by (rule arg_cong)
  also have "\<dots> = [?q, ?p, ?c]"
    by (simp only: digits_mixed [OF sp(3)] digits_mixed [OF sp(2)] digits_single [OF sp(1)])
  finally have d0: "digits [unat Q, unat P, unat C] k = [?q, ?p, ?c]" .
  have pos: "0 < unat C" "0 < unat P" "0 < unat Q" using k by (auto intro: gr0I)
  have ok0: "counts_ok [unat Q, unat P, unat C]" using pos unat_u32_lt by simp
  have n: "0 + 4 * k + u = u + 4 * k" by simp
  have div4: "(u + 4 * k) div 4 = k" using u by simp
  have "u + 4 * k < 4 * (unat C * (unat P * unat Q))" by (rule mixed_lt [OF u k])
  then have lt0: "u + 4 * k < 4 * prod_list [unat Q, unat P, unat C]" by (simp add: ac_simps)
  have "s_ptr ((ssr_next ^^ (u + 4 * k)) (S' SSR_DM0))
      = elem A (of_nat h * SP * W + of_nat w * SQ) + offset [?q, ?p, ?c] [4, W * 4, H * W * 4]"
    by (subst stream_ptr [OF st(1) ok0 _ _ _ lt0]) (simp_all only: div4 d0, simp_all)
  also have "\<dots> = A + 4 * of_nat (conv_in H W P Q SP SQ h w k)"
    by (simp add: conv_in_def Let_def elem_def algebra_simps del: mod_mod_trivial)
  finally have a: "nth_elem m (S' SSR_DM0) (0 + 4 * k + u) = ld32 m (A + 4 * of_nat (conv_in H W P Q SP SQ h w k))"
    unfolding n nth_elem_def by simp
  have ok1: "counts_ok [4, unat taps]" using pos ut unat_u32_lt [of taps] by simp
  have lt1: "u + 4 * k < 1 * prod_list [4, unat taps]" using mixed_lt [OF u k] by (simp add: ut)
  have kt: "k < unat taps" using k ut by simp
  have d1: "digits [4, unat taps] (u + 4 * k) = [u, k]"
    by (simp only: digits_mixed [OF u] digits_single [OF kt])
  have "s_ptr ((ssr_next ^^ (u + 4 * k)) (S' SSR_DM1)) = elem B (of_nat f * taps) + offset [u, k] [taps * 4, 4]"
    by (subst stream_ptr [OF st(2) ok1 _ _ _ lt1]) (simp_all only: div_by_1 d1, simp_all)
  also have "\<dots> = B + 4 * of_nat ((f + u) * (unat C * (unat P * unat Q)) + k)"
    by (simp add: elem_def taps algebra_simps)
  finally have b: "nth_elem m (S' SSR_DM1) (0 + 4 * k + u) = ld32 m (B + 4 * of_nat ((f + u) * (unat C * (unat P * unat Q)) + k))"
    unfolding n nth_elem_def by simp
  show "f_madd fp (nth_elem m (S' SSR_DM0) (0 + 4 * k + u)) (nth_elem m (S' SSR_DM1) (0 + 4 * k + u)) s
      = f_madd fp (ld32 m (A + 4 * of_nat (conv_in H W P Q SP SQ h w k)))
          (ld32 m (B + 4 * of_nat ((f + u) * (unat C * (unat P * unat Q)) + k))) s"
    unfolding a b ..
qed

section \<open>The streamed kernel in closed form\<close>

lemma mix_div_mod: "r < (p::nat) \<Longrightarrow> (a * p + r) div p = a" "r < (p::nat) \<Longrightarrow> (a * p + r) mod p = r"
  by simp_all

definition madd :: "'a fpu_scheme \<Rightarrow> u32 \<Rightarrow> u32 \<Rightarrow> u32 \<Rightarrow> u32" where
  "madd fp s a b = f_madd fp a b s"

text \<open>Filters of a full group are chains of fused multiply-adds, the others scalar sums.\<close>

definition conv_ssr_val ::
    "'a fpu_scheme \<Rightarrow> u32 \<Rightarrow> u32 \<Rightarrow> u32 \<Rightarrow> u32 \<Rightarrow> u32 \<Rightarrow> u32 \<Rightarrow> u32 \<Rightarrow> u32 \<Rightarrow> u32 \<Rightarrow> u32 \<Rightarrow>
       u32 \<Rightarrow> bool \<Rightarrow> u32 \<Rightarrow> u32 \<Rightarrow> mem \<Rightarrow> nat \<Rightarrow> u32" where
  "conv_ssr_val fp A C H W B F P Q SP SQ bias hb Ho Wo m e =
     (if e div (unat Ho * unat Wo) < unat F div 4 * 4
      then conv_val (madd fp) fp A C H W B P Q SP SQ bias hb Ho Wo m e
      else conv_val (mac fp) fp A C H W B P Q SP SQ bias hb Ho Wo m e)"

lemma conv_ssr_val_outs:
  assumes ok: "conv_ok A C H W B F P Q SP SQ bias hb Y"
    and Ho: "Ho = divu (H - P) SP + 1" and Wo: "Wo = divu (W - Q) SQ + 1"
    and e: "e < unat F * (unat Ho * unat Wo)" and es: "set es \<subseteq> {..<unat F * (unat Ho * unat Wo)}"
  shows "conv_ssr_val fp A C H W B F P Q SP SQ bias hb Ho Wo (outs Y v es m) e
    = conv_ssr_val fp A C H W B F P Q SP SQ bias hb Ho Wo m e"
  using conv_val_outs [OF ok, of e es "mac fp" fp v m] conv_val_outs [OF ok, of e es "madd fp" fp v m] e es
  by (simp only: conv_ssr_val_def Ho Wo)

text \<open>Pixel \<open>r\<close> of the four filters of group \<open>g\<close>.\<close>

definition group_elems :: "nat \<Rightarrow> nat \<Rightarrow> nat \<Rightarrow> nat list" where
  "group_elems plane g r = map (\<lambda>u. (4 * g + u) * plane + r) [0..<4]"

lemma group_elems_lt:
  assumes "g < F div 4" and "r < plane"
  shows "set (group_elems plane g r) \<subseteq> {..<F * plane}"
proof
  fix e assume "e \<in> set (group_elems plane g r)"
  then obtain u where u: "u < 4" "e = (4 * g + u) * plane + r" by (auto simp: group_elems_def)
  have "4 * g + u < F" using assms(1) u(1) by linarith
  from index_lt [OF this assms(2)] show "e \<in> {..<F * plane}" by (simp add: u)
qed

lemma conv_group_pixel_result:
  assumes ok: "conv_ok A C H W B F P Q SP SQ bias hb Y"
    and Ho: "Ho = divu (H - P) SP + 1" and Wo: "Wo = divu (W - Q) SQ + 1"
    and taps: "taps = C * P * Q" "taps \<noteq> 0"
    and g: "g < unat F div 4" and h: "h < unat Ho" and w: "w < unat Wo"
    and es: "set es \<subseteq> {..<unat F * (unat Ho * unat Wo)}" and ready: "conv_ready C H W P Q taps S"
    and v: "v = conv_ssr_val fp A C H W B F P Q SP SQ bias hb Ho Wo m"
  shows "\<exists>S'. conv_ready C H W P Q taps S'
    \<and> conv_group_pixel fp A W B SP SQ bias hb Y Ho Wo taps (of_nat g * F_UNROLL) (of_nat h) (of_nat w) (S, outs Y v es m)
      = (S', outs Y v (es @ group_elems (unat Ho * unat Wo) g (h * unat Wo + w)) m)"
proof -
  let ?n = "unat F * (unat Ho * unat Wo)" and ?m = "outs Y v es m" and ?plane = "unat Ho * unat Wo"
  let ?r = "h * unat Wo + w"
  have ut: "unat taps = unat C * (unat P * unat Q)"
  proof -
    have t: "unat C * (unat P * unat Q) < 4294967296" using ok by (simp add: conv_ok_def Let_def)
    have "taps = of_nat (unat C * (unat P * unat Q))" by (simp add: taps(1))
    then show ?thesis using t by (simp only: unat_of_nat_small)
  qed
  have f4: "of_nat g * F_UNROLL = of_nat (4 * g)" by (simp add: F_UNROLL_def)
  define S2 where "S2 = ssr_read SSR_DM1 SSR_2D (elem B (of_nat (4 * g) * taps))
      (ssr_read SSR_DM0 SSR_3D (elem A (of_nat h * SP * W + of_nat w * SQ)) S)"
  have tm: "taps - 1 + 1 \<noteq> 0" "unat (taps - 1 + 1) = unat taps" using taps(2) by simp_all
  have len: "length (replicate 4 (0::u32)) = 4" by simp
  obtain S3 where pop: "popped S2 (0 + 4 * unat taps) S3" and
    lanes: "frep_lanes fp ?m 4 (taps - 1) (S2, replicate 4 0)
      = (S3, map (\<lambda>u. lane_sum fp ?m S2 0 4 (unat taps) u (replicate 4 0 ! u)) [0..<4])"
    using frep_lanes_result [OF popped_0 [of S2] len tm(1), of fp ?m] unfolding tm(2) by blast
  let ?cs = "map (\<lambda>u. lane_sum fp ?m S2 0 4 (unat taps) u (replicate 4 0 ! u)) [0..<4]"
  have lane: "?cs ! u = conv_dot (madd fp) A C H W B P Q SP SQ m (4 * g + u) h w" if u: "u < 4" for u
  proof -
    have fu: "4 * g + u < unat F" using g u by linarith
    have "?cs ! u = conv_dot (\<lambda>s a b. f_madd fp a b s) A C H W B P Q SP SQ ?m (4 * g + u) h w"
      using u conv_lane_val [OF ready taps(1) ut S2_def u, of fp ?m] by simp
    also have "\<dots> = conv_dot (\<lambda>s a b. f_madd fp a b s) A C H W B P Q SP SQ m (4 * g + u) h w"
      by (rule conv_dot_outs [OF ok fu]) (use h w es Ho Wo in simp_all)
    finally show ?thesis by (simp add: madd_def [abs_def])
  qed
  have ve: "v ((4 * g + u) * ?plane + ?r)
      = (if hb then f_add fp (?cs ! u) (ld32 m (bias + 4 * of_nat (4 * g + u))) else ?cs ! u)" if u: "u < 4" for u
  proof -
    have r: "?r < ?plane" by (rule index_lt [OF h w])
    have d: "((4 * g + u) * ?plane + ?r) div ?plane = 4 * g + u" "((4 * g + u) * ?plane + ?r) mod ?plane = ?r"
      by (rule mix_div_mod [OF r])+
    have d2: "?r div unat Wo = h" "?r mod unat Wo = w" by (rule mix_div_mod [OF w])+
    have lt: "4 * g + u < unat F div 4 * 4" using g u by linarith
    show ?thesis unfolding lane [OF u] unfolding v by (simp only: conv_ssr_val_def conv_val_def Let_def d d2 lt if_True)
  qed
  let ?y = "elem Y (of_nat (4 * g) * Ho * Wo + of_nat h * Wo + of_nat w)"
  let ?st = "\<lambda>u m. st32 m (elem ?y (of_nat u * (Ho * Wo)))
     (if hb then f_add fp (?cs ! u) (ld32 m (elem bias (of_nat (4 * g) + of_nat u))) else ?cs ! u)"
  have "fold ?st [0..<d] ?m = outs Y v (es @ map (\<lambda>u. (4 * g + u) * ?plane + ?r) [0..<d]) m" if "d \<le> 4" for d
    using that
  proof (induction d)
    case 0
    then show ?case by simp
  next
    case (Suc d)
    then have d: "d < 4" by simp
    let ?es = "es @ map (\<lambda>u. (4 * g + u) * ?plane + ?r) [0..<d]"
    have fu: "4 * g + d < unat F" using g d by linarith
    have "set (map (\<lambda>u. (4 * g + u) * ?plane + ?r) [0..<d]) \<subseteq> set (group_elems ?plane g ?r)"
      using d by (auto simp: group_elems_def)
    then have es': "set ?es \<subseteq> {..<?n}"
      using es group_elems_lt [OF g index_lt [OF h w]] by auto
    have b: "ld32 (outs Y v ?es m) (elem bias (of_nat (4 * g) + of_nat d)) = ld32 m (bias + 4 * of_nat (4 * g + d))" if hb
      using conv_bias_outs [OF ok fu that, of ?es v m] es' by (simp add: Ho Wo elem_def)
    have y: "elem ?y (of_nat d * (Ho * Wo)) = Y + 4 * of_nat ((4 * g + d) * ?plane + ?r)"
      by (simp add: elem_def algebra_simps)
    have val: "(if hb then f_add fp (?cs ! d) (ld32 (outs Y v ?es m) (elem bias (of_nat (4 * g) + of_nat d))) else ?cs ! d)
        = v ((4 * g + d) * ?plane + ?r)"
      unfolding ve [OF d] using b by (cases hb) simp_all
    have "fold ?st [0..<Suc d] ?m = ?st d (outs Y v ?es m)"
      by (simp only: upt_Suc_append zero_le fold_append fold_simps o_apply Suc.IH [OF less_imp_le [OF d]])
    also have "\<dots> = st32 (outs Y v ?es m) (Y + 4 * of_nat ((4 * g + d) * ?plane + ?r)) (v ((4 * g + d) * ?plane + ?r))"
      unfolding y val ..
    also have "\<dots> = outs Y v (?es @ [(4 * g + d) * ?plane + ?r]) m" by (rule outs_snoc [symmetric])
    finally show ?case by simp
  qed
  then have stores: "fold ?st [0..<4] ?m = outs Y v (es @ group_elems ?plane g ?r) m"
    unfolding group_elems_def by blast
  have "conv_group_pixel fp A W B SP SQ bias hb Y Ho Wo taps (of_nat g * F_UNROLL) (of_nat h) (of_nat w) (S, ?m)
      = (S3, fold ?st [0..<4] ?m)"
    unfolding conv_group_pixel_def prod.case Let_def f4 S2_def [symmetric] lanes ..
  then show ?thesis
    using stores conv_armed(3) [OF ready S2_def pop] by (intro exI [of _ S3]) simp
qed

text \<open>The order in which the groups store is a permutation of the row-major order.\<close>

lemma mset_map_bij:
  assumes "inj_on f {..<n}" and "f ` {..<n} \<subseteq> {..<n}"
  shows "mset (map f [0..<n]) = mset [0..<n]"
proof -
  have "f ` {..<n} = {..<n}" using endo_inj_surj [OF finite_lessThan assms(2,1)] .
  then have "set (map f [0..<n]) = set [0..<n]" by (simp add: atLeast0LessThan)
  moreover have "distinct (map f [0..<n])" using assms(1) by (simp add: distinct_map atLeast0LessThan)
  ultimately show ?thesis using set_eq_iff_mset_eq_distinct [THEN iffD1] distinct_upt by blast
qed

lemma quads_unique: "4 * x + a = 4 * y + b \<Longrightarrow> a < 4 \<Longrightarrow> b < 4 \<Longrightarrow> x = y \<and> a = (b::nat)"
  by presburger

lemma groups_permute:
  "mset (concat (map (\<lambda>t. group_elems p (t div p) (t mod p)) [0..<a * p])) = mset [0..<4 * a * p]"
proof -
  let ?f = "\<lambda>k. (4 * (k div 4 div p) + k mod 4) * p + k div 4 mod p"
  have "concat (map (\<lambda>t. group_elems p (t div p) (t mod p)) [0..<b]) = map ?f [0..<b * 4]" for b
  proof (induction b)
    case 0
    then show ?case by simp
  next
    case (Suc b)
    have "[0..<Suc b * 4] = [0..<b * 4] @ [b * 4, b * 4 + 1, b * 4 + 2, b * 4 + 3]"
      by (simp add: numeral_eq_Suc)
    moreover have "(b * 4 + 1) div 4 = b" "(b * 4 + 2) div 4 = b" "(b * 4 + 3) div 4 = b"
      "(b * 4 + 1) mod 4 = 1" "(b * 4 + 2) mod 4 = 2" "(b * 4 + 3) mod 4 = 3" by simp_all presburger+
    moreover have "[0..<4::nat] = [0, 1, 2, 3]" by (simp add: numeral_eq_Suc)
    ultimately show ?case using Suc by (simp add: group_elems_def)
  qed
  from this [of "a * p"] have "mset (concat (map (\<lambda>t. group_elems p (t div p) (t mod p)) [0..<a * p]))
      = mset (map ?f [0..<4 * a * p])" by (simp add: ac_simps)
  also have "\<dots> = mset [0..<4 * a * p]"
  proof (rule mset_map_bij)
    have pos: "0 < p" if "k < 4 * a * p" for k using that by (cases p) auto
    show "inj_on ?f {..<4 * a * p}"
    proof (rule inj_onI)
      fix j k assume j: "j \<in> {..<4 * a * p}" and k: "k \<in> {..<4 * a * p}" and e: "?f j = ?f k"
      have p: "0 < p" using j pos by auto
      have m: "j div 4 mod p < p" "k div 4 mod p < p" using p by simp_all
      have d: "4 * (j div 4 div p) + j mod 4 = 4 * (k div 4 div p) + k mod 4"
        using arg_cong [OF e, of "\<lambda>x. x div p"] by (simp only: mix_div_mod [OF m(1)] mix_div_mod [OF m(2)])
      have r: "j div 4 mod p = k div 4 mod p"
        using arg_cong [OF e, of "\<lambda>x. x mod p"] by (simp only: mix_div_mod [OF m(1)] mix_div_mod [OF m(2)])
      have q: "j div 4 div p = k div 4 div p" "j mod 4 = k mod 4"
        using quads_unique [OF d] by simp_all
      have "j div 4 = k div 4" using q(1) r by (metis div_mult_mod_eq)
      with q(2) show "j = k" by (metis div_mult_mod_eq)
    qed
    show "?f ` {..<4 * a * p} \<subseteq> {..<4 * a * p}"
    proof
      fix x assume "x \<in> ?f ` {..<4 * a * p}"
      then obtain k where k: "k < 4 * a * p" "x = ?f k" by auto
      have "k div 4 < a * p" using k(1) by simp
      then have "k div 4 div p < a" by (simp add: less_mult_imp_div_less)
      then have "4 * (k div 4 div p) + k mod 4 < 4 * a"
        using index_lt [of "k div 4 div p" a "k mod 4" 4] by (simp add: mult.commute)
      moreover have "k div 4 mod p < p" using pos [OF k(1)] by simp
      ultimately show "x \<in> {..<4 * a * p}" unfolding k(2) using index_lt by blast
    qed
  qed
  finally show ?thesis .
qed

lemma for_u32_from:
  "for_u32 (of_nat a) n body s = fold (\<lambda>i. body (of_nat i)) [a..<unat n] s" if "a \<le> unat n"
  using that unat_u32_lt [of n] by (simp add: for_u32_def unat_of_nat_small)

lemma Conv2d_ssr_groups:
  assumes ready: "ssrs_ready S" and ok: "conv_ok A C H W B F P Q SP SQ bias hb Y"
    and Ho: "Ho = divu (H - P) SP + 1" and Wo: "Wo = divu (W - Q) SQ + 1"
    and taps: "taps = C * P * Q" "taps \<noteq> 0"
    and v: "v = conv_ssr_val fp A C H W B F P Q SP SQ bias hb Ho Wo m"
  shows "snd (for_u32 0 (F div F_UNROLL) (\<lambda>g. for_u32 0 Ho (\<lambda>h. for_u32 0 Wo (\<lambda>w.
        conv_group_pixel fp A W B SP SQ bias hb Y Ho Wo taps (g * F_UNROLL) h w))) (conv_streams C H W P Q taps S, m))
    = outs Y v (concat (map (\<lambda>t. group_elems (unat Ho * unat Wo) (t div (unat Ho * unat Wo)) (t mod (unat Ho * unat Wo)))
        [0..<unat F div 4 * (unat Ho * unat Wo)])) m"
proof -
  let ?p = "unat Ho * unat Wo" and ?n = "unat F * (unat Ho * unat Wo)"
  let ?px = "\<lambda>g h w. conv_group_pixel fp A W B SP SQ bias hb Y Ho Wo taps (of_nat g * F_UNROLL) (of_nat h) (of_nat w)"
  let ?S0 = "conv_streams C H W P Q taps S"
  have ug: "unat (F div F_UNROLL) = unat F div 4" by (simp add: unat_div F_UNROLL_def)
  have "for_u32 0 (F div F_UNROLL) (\<lambda>g. for_u32 0 Ho (\<lambda>h. for_u32 0 Wo (\<lambda>w.
        conv_group_pixel fp A W B SP SQ bias hb Y Ho Wo taps (g * F_UNROLL) h w))) (?S0, m)
      = fold (\<lambda>g. fold (\<lambda>h. fold (?px g h) [0..<unat Wo]) [0..<unat Ho]) [0..<unat F div 4] (?S0, m)"
    by (simp only: for_u32_zero_fun ug)
  also have "\<dots> = fold (\<lambda>g. fold (\<lambda>r. ?px g (r div unat Wo) (r mod unat Wo)) [0..<?p]) [0..<unat F div 4] (?S0, m)"
    by (rule fold_same) (rule fold_nest)
  also have "\<dots> = fold (\<lambda>t. ?px (t div ?p) (t mod ?p div unat Wo) (t mod ?p mod unat Wo)) [0..<unat F div 4 * ?p] (?S0, outs Y v [] m)"
    unfolding outs_Nil by (rule fold_nest)
  finally have eq: "for_u32 0 (F div F_UNROLL) (\<lambda>g. for_u32 0 Ho (\<lambda>h. for_u32 0 Wo (\<lambda>w.
        conv_group_pixel fp A W B SP SQ bias hb Y Ho Wo taps (g * F_UNROLL) h w))) (?S0, m)
    = fold (\<lambda>t. ?px (t div ?p) (t mod ?p div unat Wo) (t mod ?p mod unat Wo)) [0..<unat F div 4 * ?p] (?S0, outs Y v [] m)" .
  have "\<exists>S'. conv_ready C H W P Q taps S' \<and>
      fold (\<lambda>t. ?px (t div ?p) (t mod ?p div unat Wo) (t mod ?p mod unat Wo)) [0..<unat F div 4 * ?p] (?S0, outs Y v [] m)
      = (S', outs Y v ([] @ concat (map (\<lambda>t. group_elems ?p (t div ?p) (t mod ?p)) [0..<unat F div 4 * ?p])) m)"
  proof (rule store_steps_inv [where I = "conv_ready C H W P Q taps" and n = ?n])
    fix t es S1 assume "t \<in> set [0..<unat F div 4 * ?p]" and es: "set es \<subseteq> {..<?n}" and S1: "conv_ready C H W P Q taps S1"
    then have t: "t < unat F div 4 * ?p" by simp
    have "t mod ?p div unat Wo * unat Wo + t mod ?p mod unat Wo = t mod ?p" by (simp only: div_mult_mod_eq)
    then show "\<exists>S'. conv_ready C H W P Q taps S' \<and>
        ?px (t div ?p) (t mod ?p div unat Wo) (t mod ?p mod unat Wo) (S1, outs Y v es m)
        = (S', outs Y v (es @ group_elems ?p (t div ?p) (t mod ?p)) m)"
      using conv_group_pixel_result [OF ok Ho Wo taps pixel_split(1-3) [OF t] es S1 v] by simp
  next
    fix t assume "t \<in> set [0..<unat F div 4 * ?p]"
    then have t: "t < unat F div 4 * ?p" by simp
    have "0 < ?p" using t by (auto intro: gr0I)
    then have "t mod ?p < ?p" by (rule mod_less_divisor)
    with pixel_split(1) [OF t] show "set (group_elems ?p (t div ?p) (t mod ?p)) \<subseteq> {..<?n}" by (rule group_elems_lt)
  qed (simp_all add: conv_streams_ready [OF ready])
  then show ?thesis unfolding eq by auto
qed

lemma Conv2d_ssr_outs:
  assumes ready: "ssrs_ready S" and ok: "conv_ok A C H W B F P Q SP SQ bias hb Y"
    and Ho: "Ho = divu (H - P) SP + 1" and Wo: "Wo = divu (W - Q) SQ + 1"
    and streamed: "F div F_UNROLL \<noteq> 0" "C * P * Q \<noteq> 0" "Ho \<noteq> 0" "Wo \<noteq> 0"
  shows "snd (Conv2d_ssr fp gen A C H W B F P Q SP SQ bias hb Y (S, m))
    = outs Y (conv_ssr_val fp A C H W B F P Q SP SQ bias hb Ho Wo m) [0..<unat F * (unat Ho * unat Wo)] m"
proof -
  let ?p = "unat Ho * unat Wo" and ?n = "unat F * (unat Ho * unat Wo)"
  let ?v = "conv_ssr_val fp A C H W B F P Q SP SQ bias hb Ho Wo m"
  let ?es = "concat (map (\<lambda>t. group_elems ?p (t div ?p) (t mod ?p)) [0..<unat F div 4 * ?p])"
  let ?px = "\<lambda>f h w. conv_pixel fp A C H W B P Q SP SQ bias hb Y Ho Wo (of_nat f * (C * P * Q)) (of_nat f) (of_nat h) (of_nat w)"
  let ?a = "unat F div 4 * 4"
  have fits: "4 * ?n \<le> 4294967296" using ok unfolding conv_ok_def Let_def Ho Wo by blast
  have perm: "mset ?es = mset [0..<?a * ?p]"
    using groups_permute [of ?p "unat F div 4"] by (simp add: ac_simps)
  have ale: "?a \<le> unat F" by simp
  then have an: "?a * ?p \<le> ?n" by (rule mult_le_mono1)
  have sub: "set ?es \<subseteq> {..<?n}" using mset_eq_setD [OF perm] an by (simp add: atLeast0LessThan)
  have gF: "F div F_UNROLL * F_UNROLL = of_nat ?a"
  proof -
    have "F div F_UNROLL = of_nat (unat (F div F_UNROLL))" by simp
    then show ?thesis by (simp add: unat_div F_UNROLL_def)
  qed
  have split: "[0..<?n] = [0..<?a * ?p] @ [?a * ?p..<?n]"
    using upt_add_eq_append [of 0 "?a * ?p" "?n - ?a * ?p"] an by simp
  obtain S' where S': "for_u32 0 (F div F_UNROLL) (\<lambda>g. for_u32 0 Ho (\<lambda>h. for_u32 0 Wo (\<lambda>w.
        conv_group_pixel fp A W B SP SQ bias hb Y Ho Wo (C * P * Q) (g * F_UNROLL) h w))) (conv_streams C H W P Q (C * P * Q) S, m)
      = (S', outs Y ?v ?es m)"
    using Conv2d_ssr_groups [OF ready ok Ho Wo refl streamed(2) refl, of fp m]
    by (rule_tac that [of "fst _"]) (simp only: prod_eq_iff fst_conv snd_conv)
  have head: "outs Y ?v ?es m = outs Y ?v [0..<?a * ?p] m" by (rule outs_permute [OF fits sub perm])
  have "for_u32 (of_nat ?a) F (\<lambda>f. for_u32 0 Ho (\<lambda>h. for_u32 0 Wo (\<lambda>w.
        conv_pixel fp A C H W B P Q SP SQ bias hb Y Ho Wo (f * (C * P * Q)) f h w))) (outs Y ?v [0..<?a * ?p] m)
      = fold (\<lambda>f. fold (\<lambda>h. fold (?px f h) [0..<unat Wo]) [0..<unat Ho]) [?a..<unat F] (outs Y ?v [0..<?a * ?p] m)"
    by (simp only: for_u32_from [OF ale] for_u32_zero_fun)
  also have "\<dots> = fold (\<lambda>f. fold (\<lambda>r. ?px f (r div unat Wo) (r mod unat Wo)) [0..<?p]) [?a..<unat F] (outs Y ?v [0..<?a * ?p] m)"
    by (rule fold_same) (rule fold_nest)
  also have "\<dots> = fold (\<lambda>e. ?px (e div ?p) (e mod ?p div unat Wo) (e mod ?p mod unat Wo)) [?a * ?p..<?n] (outs Y ?v [0..<?a * ?p] m)"
    by (rule fold_nest_from) (rule ale)
  also have "\<dots> = outs Y ?v ([0..<?a * ?p] @ concat (map (\<lambda>e. [e]) [?a * ?p..<?n])) m"
  proof (rule store_steps)
    fix e es assume e': "e \<in> set [?a * ?p..<?n]" and es: "set es \<subseteq> {..<?n}"
    then have e: "e < ?n" by simp
    have "?a \<le> e div ?p"
    proof -
      have "0 < ?p" using e by (auto intro: gr0I)
      moreover have "?a * ?p \<le> e" using e' by simp
      ultimately show ?thesis by (simp add: less_eq_div_iff_mult_less_eq)
    qed
    then have "?v e = conv_val (mac fp) fp A C H W B P Q SP SQ bias hb Ho Wo m e"
      by (simp add: conv_ssr_val_def)
    moreover have "?px (e div ?p) (e mod ?p div unat Wo) (e mod ?p mod unat Wo) (outs Y ?v es m)
        = st32 (outs Y ?v es m) (Y + 4 * of_nat e) (conv_val (mac fp) fp A C H W B P Q SP SQ bias hb Ho Wo m e)"
      by (rule conv_pixel_store [OF ok Ho Wo e es])
    ultimately show "?px (e div ?p) (e mod ?p div unat Wo) (e mod ?p mod unat Wo) (outs Y ?v es m) = outs Y ?v (es @ [e]) m"
      by (simp only: outs_snoc)
  qed (auto intro: less_le_trans [OF _ an])
  also have "\<dots> = outs Y ?v [0..<?n] m" by (simp only: concat_map_singleton map_ident split [symmetric])
  finally have tail: "for_u32 (of_nat ?a) F (\<lambda>f. for_u32 0 Ho (\<lambda>h. for_u32 0 Wo (\<lambda>w.
        conv_pixel fp A C H W B P Q SP SQ bias hb Y Ho Wo (f * (C * P * Q)) f h w))) (outs Y ?v [0..<?a * ?p] m)
      = outs Y ?v [0..<?n] m" .
  show ?thesis
    unfolding Conv2d_ssr_def prod.case Let_def Ho [symmetric] Wo [symmetric] S' head gF tail
    by (simp only: streamed simp_thms if_False snd_conv)
qed

lemma Conv2d_ssr_generic:
  assumes "ssrs_ready S" and "conv_ok A C H W B F P Q SP SQ bias has_bias Y" and "f_contract fp"
  shows "snd (Conv2d_ssr fp (Conv2d_generic fp) A C H W B F P Q SP SQ bias has_bias Y (S, m))
    = Conv2d_generic fp A C H W B F P Q SP SQ bias has_bias Y m"
proof -
  let ?Ho = "divu (H - P) SP + 1" and ?Wo = "divu (W - Q) SQ + 1"
  have "mac fp = madd fp" using assms(3) by (simp add: mac_def madd_def fun_eq_iff)
  then have "conv_ssr_val fp A C H W B F P Q SP SQ bias has_bias ?Ho ?Wo m
      = conv_val (mac fp) fp A C H W B P Q SP SQ bias has_bias ?Ho ?Wo m"
    by (intro ext) (simp only: conv_ssr_val_def if_cancel)
  then have streamed: "snd (Conv2d_ssr fp (Conv2d_generic fp) A C H W B F P Q SP SQ bias has_bias Y (S, m))
      = Conv2d_generic fp A C H W B F P Q SP SQ bias has_bias Y m"
    if "F div F_UNROLL \<noteq> 0" "C * P * Q \<noteq> 0" "?Ho \<noteq> 0" "?Wo \<noteq> 0"
    using Conv2d_ssr_outs [OF assms(1,2) refl refl that, of fp "Conv2d_generic fp" m]
      Conv2d_generic_outs [OF assms(2) refl refl, of fp m] by simp
  show ?thesis
  proof (cases "F div F_UNROLL = 0 \<or> C * P * Q = 0 \<or> ?Ho = 0 \<or> ?Wo = 0")
    case True
    then show ?thesis unfolding Conv2d_ssr_def by (simp only: prod.case Let_def if_True snd_conv)
  next
    case False
    then show ?thesis by (intro streamed) simp_all
  qed
qed

text \<open>
  C5. The streamed convolution is bit-identical to the scalar one. For any shape whose window
  fits its input, any strides, any number of filters (those past the last group of four and
  the fall-back included), with or without a bias, when the output overlaps no input and
  \<open>sum += a * b\<close> is contracted, the two leave the same memory, although they store the
  pixels in a different order.
\<close>

theorem Conv2d_bit_identical:
  assumes "ssrs_ready S" and "conv_ok A C H W B F P Q SP SQ bias has_bias Y" and "f_contract fp"
  shows "snd (Conv2d_ssr fp (Conv2d_generic fp) A C H W B F P Q SP SQ bias has_bias Y (S, m))
    = Conv2d_generic fp A C H W B F P Q SP SQ bias has_bias Y m"
  using assms by (rule Conv2d_ssr_generic)

theorem Conv2d_bit_identical_witness:
  "snd (Conv2d_ssr int_fpu (Conv2d_generic int_fpu) 0x10000000 2 9 8 0x10001000 7 3 2 2 3 0x10002000 True 0x10003000
      (\<lambda>_. reset_ssr, \<lambda>x. ucast (x * x)))
    = Conv2d_generic int_fpu 0x10000000 2 9 8 0x10001000 7 3 2 2 3 0x10002000 True 0x10003000 (\<lambda>x. ucast (x * x))"
proof (rule Conv2d_bit_identical [OF reset_ready])
  have "divu (9 - 3) 2 = (3::u32)" "divu (8 - 2) 3 = (2::u32)" by code_simp+
  then show "conv_ok 0x10000000 2 9 8 0x10001000 7 3 2 2 3 0x10002000 True 0x10003000"
    unfolding conv_ok_def Let_def by (intro conjI impI span_disjoint) simp_all
  show "f_contract int_fpu" by (simp add: int_fpu_def)
qed

end
