(* ===== verification/SlicedJobs.thy ===== *)
theory SlicedJobs
  imports WorkSplit ConvKernel
begin

text \<open>
  A kernel spread over the cores of a cluster, \<open>run_slice\<close> of \<open>cluster_main.c\<close>:
  each core runs it on its own slice, all at once, and the result has to be that of one run
  over everything. The contract a kernel must keep is a locale; MatMul and Gemm keep it.
\<close>

section \<open>Shares of an output\<close>

lemma outs_shift: "outs (Y + 4 * of_nat d) v [0..<n] m = outs Y (\<lambda>e. v (e - d)) [d..<d + n] m"
proof (induction n)
  case 0
  then show ?case by simp
next
  case (Suc n)
  have "outs (Y + 4 * of_nat d) v [0..<Suc n] m = st32 (outs (Y + 4 * of_nat d) v [0..<n] m) (Y + 4 * of_nat d + 4 * of_nat n) (v n)"
    by (rule outs_upt_Suc) simp
  also have "\<dots> = st32 (outs Y (\<lambda>e. v (e - d)) [d..<d + n] m) (Y + 4 * of_nat (d + n)) (v (d + n - d))"
  proof -
    have "Y + 4 * of_nat d + 4 * of_nat n = Y + 4 * of_nat (d + n)" by (simp add: algebra_simps)
    then show ?thesis by (simp only: Suc add_diff_cancel_left')
  qed
  also have "\<dots> = outs Y (\<lambda>e. v (e - d)) [d..<Suc (d + n)] m"
    by (rule outs_upt_Suc [symmetric]) simp
  finally show ?case by simp
qed

lemma outs_concat: "outs Y v (concat ess) m = fold (\<lambda>es. outs Y v es) ess m"
  by (induction ess arbitrary: m) (simp_all add: outs_append)

text \<open>The elements of core \<open>i\<close>'s share, when an item is \<open>w\<close> elements.\<close>

definition share :: "u32 \<Rightarrow> u32 \<Rightarrow> nat \<Rightarrow> nat \<Rightarrow> nat list" where
  "share n nb w i = [slice_start (unat n) (unat nb) i * w..<slice_start (unat n) (unat nb) (Suc i) * w]"

lemma share_subset: "nb \<noteq> 0 \<Longrightarrow> i < unat nb \<Longrightarrow> set (share n nb w i) \<subseteq> {..<unat n * w}"
proof -
  assume a: "nb \<noteq> 0" "i < unat nb"
  then have "slice_start (unat n) (unat nb) (Suc i) \<le> unat n"
    by (intro slice_start_le) (simp_all add: unat_gt_0)
  then have "slice_start (unat n) (unat nb) (Suc i) * w \<le> unat n * w" by (rule mult_le_mono1)
  then show ?thesis unfolding share_def
    by (metis atLeastLessThan_upt atLeast0LessThan ivl_subset le0)
qed

lemma shares_concat: "nb \<noteq> 0 \<Longrightarrow> concat (map (share n nb w) [0..<unat nb]) = [0..<unat n * w]"
  using concat_upt_chain [of "\<lambda>i. slice_start (unat n) (unat nb) i * w" "unat nb"]
  by (simp add: share_def [abs_def] slice_start_mono mult_le_mono1 unat_gt_0 del: mult_Suc)

lemma mset_concat_map: "mset (concat (map f xs)) = \<Sum>\<^sub># (image_mset (\<lambda>x. mset (f x)) (mset xs))"
  by (induction xs) auto

lemma concat_map_permute: "mset xs = mset ys \<Longrightarrow> mset (concat (map f xs)) = mset (concat (map f ys))"
  by (simp add: mset_concat_map)

section \<open>The contract of a sliced kernel\<close>

text \<open>
  \<open>act nb a i\<close> is what core \<open>i\<close> of \<open>nb\<close> does for the job with arguments \<open>a\<close>:
  it stores the elements \<open>part nb a i\<close> of an output of \<open>total a\<close> words at
  \<open>out a\<close>. The parts make up the output, and the value of an element does not depend on
  the output array.
\<close>

locale sliced_job =
  fixes ok :: "u32 \<Rightarrow> u32 list \<Rightarrow> bool" and act :: "u32 \<Rightarrow> u32 list \<Rightarrow> nat \<Rightarrow> mem \<Rightarrow> mem"
    and part :: "u32 \<Rightarrow> u32 list \<Rightarrow> nat \<Rightarrow> nat list" and total :: "u32 list \<Rightarrow> nat"
    and out :: "u32 list \<Rightarrow> u32" and val :: "u32 list \<Rightarrow> mem \<Rightarrow> nat \<Rightarrow> u32"
  assumes partition: "ok nb a \<Longrightarrow> mset (concat (map (part nb a) [0..<unat nb])) = mset [0..<total a]"
    and fits: "ok nb a \<Longrightarrow> 4 * total a \<le> 4294967296"
    and stores_part: "ok nb a \<Longrightarrow> i < unat nb \<Longrightarrow> act nb a i m = outs (out a) (val a m) (part nb a i) m"
    and stable: "ok nb a \<Longrightarrow> set es \<subseteq> {..<total a} \<Longrightarrow> e < total a
        \<Longrightarrow> val a (outs (out a) v es m) e = val a m e"
begin

lemma part_subset:
  assumes "ok nb a" and "i < unat nb"
  shows "set (part nb a i) \<subseteq> {..<total a}"
proof -
  have "set (part nb a i) \<subseteq> set (concat (map (part nb a) [0..<unat nb]))" using assms(2) by auto
  also have "\<dots> = {..<total a}"
    using mset_eq_setD [OF partition [OF assms(1)]] by (simp only: set_upt atLeast0LessThan)
  finally show ?thesis .
qed

lemma act_after:
  assumes "ok nb a" and "i < unat nb" and "set es \<subseteq> {..<total a}"
  shows "act nb a i (outs (out a) (val a m) es m) = outs (out a) (val a m) (es @ part nb a i) m"
proof -
  have "outs (out a) (val a (outs (out a) (val a m) es m)) (part nb a i) m' = outs (out a) (val a m) (part nb a i) m'" for m'
    by (rule outs_cong, rule stable [OF assms(1,3)]) (use part_subset [OF assms(1,2)] in blast)
  then show ?thesis by (simp add: stores_part [OF assms(1,2)] outs_append)
qed

lemma act_list:
  assumes ok: "ok nb a" and "set js \<subseteq> {..<unat nb}"
  shows "fold (act nb a) js m = outs (out a) (val a m) (concat (map (part nb a) js)) m"
proof -
  have "fold (act nb a) js (outs (out a) (val a m) [] m)
      = outs (out a) (val a m) ([] @ concat (map (part nb a) js)) m"
    by (rule store_steps [where n = "total a"])
      (use assms(2) act_after [OF ok] part_subset [OF ok] in \<open>(blast | simp)+\<close>)
  then show ?thesis by simp
qed

lemma any_order:
  assumes ok: "ok nb a" and perm: "mset js = mset [0..<unat nb]"
  shows "fold (act nb a) js m = outs (out a) (val a m) [0..<total a] m"
proof -
  let ?es = "concat (map (part nb a) js)"
  have s: "set js \<subseteq> {..<unat nb}" using mset_eq_setD [OF perm] by auto
  have p: "mset ?es = mset [0..<total a]"
    using concat_map_permute [OF perm, of "part nb a"] by (simp only: partition [OF ok])
  have sub: "set ?es \<subseteq> {..<total a}"
    using mset_eq_setD [OF p] by (simp only: set_upt atLeast0LessThan)
  show ?thesis using act_list [OF ok s] outs_permute [OF fits [OF ok] sub p] by simp
qed

end

section \<open>The kernels of the Snitch cluster\<close>

text \<open>The Deeploy kernels the streamed ones fall back to; they are not part of the repository.\<close>

record deeploy =
  g_matmul :: "u32 \<Rightarrow> u32 \<Rightarrow> u32 \<Rightarrow> u32 \<Rightarrow> u32 \<Rightarrow> u32 \<Rightarrow> mem \<Rightarrow> mem"
  g_gemm :: "u32 \<Rightarrow> u32 \<Rightarrow> u32 \<Rightarrow> u32 \<Rightarrow> u32 \<Rightarrow> u32 \<Rightarrow> u32 \<Rightarrow> u32 \<Rightarrow> u32 \<Rightarrow> mem \<Rightarrow> mem"
  g_conv :: "u32 \<Rightarrow> u32 \<Rightarrow> u32 \<Rightarrow> u32 \<Rightarrow> u32 \<Rightarrow> u32 \<Rightarrow> u32 \<Rightarrow> u32 \<Rightarrow> u32 \<Rightarrow> u32 \<Rightarrow> u32 \<Rightarrow> bool \<Rightarrow> u32 \<Rightarrow> mem \<Rightarrow> mem"

text \<open>What the repository says of them: they compute what its scalar references compute.\<close>

definition deeploy_ok :: "'a fpu_scheme \<Rightarrow> deeploy \<Rightarrow> bool" where
  "deeploy_ok fp dl \<longleftrightarrow> g_matmul dl = MatMul_generic fp \<and> g_gemm dl = Gemm_generic fp
     \<and> g_conv dl = Conv2d_generic fp"

text \<open>
  The image linked for the Snitch cluster. \<open>S\<close> is the state a core's data movers are in;
  \<open>mf\<close> the front-end kernel.
\<close>

fun snitch_kernels ::
    "'a fpu_scheme \<Rightarrow> deeploy \<Rightarrow> (kcall \<Rightarrow> mem \<Rightarrow> mem) \<Rightarrow> ssrs \<Rightarrow> kcall \<Rightarrow> mem \<Rightarrow> mem" where
  "snitch_kernels fp dl mf S (MatMulCall A B Y M N O') m = snd (MatMul_ssr fp (g_matmul dl) A B Y M N O' (S, m))"
| "snitch_kernels fp dl mf S (GemmCall A B C Y M N O' tA tB) m =
     snd (Gemm_ssr fp (g_gemm dl) A B C Y M N O' tA tB (S, m))"
| "snitch_kernels fp dl mf S (ConvCall A C H W B F P Q SP SQ bias hb Y) m =
     snd (Conv2d_ssr fp (g_conv dl) A C H W B F P Q SP SQ bias hb Y (S, m))"
| "snitch_kernels fp dl mf S c m = mf c m"

section \<open>MatMul in slices\<close>

lemma slice_parts:
  assumes "i < unat nb"
  shows "slice n (of_nat i) nb = (of_nat (slice_start (unat n) (unat nb) i), of_nat (slice_start (unat n) (unat nb) (Suc i)))"
    and "slice_start (unat n) (unat nb) i \<le> slice_start (unat n) (unat nb) (Suc i)"
    and "slice_start (unat n) (unat nb) (Suc i) \<le> unat n"
  using assms by (simp_all add: slice_nat slice_start_mono slice_start_le)

lemma sub_span:
  assumes "s + d \<le> n"
  shows "span (p + 4 * of_nat (s * w)) (4 * (d * w)) \<subseteq> span p (4 * (n * w))"
proof -
  have "s * w + d * w \<le> n * w" using assms by (simp flip: add_mult_distrib)
  then have "4 * (s * w) + 4 * (d * w) \<le> 4 * (n * w)" by linarith
  from span_off [OF this, of p] show ?thesis by simp
qed

text \<open>The third operand of a slice: absent when it is absent, else its own rows.\<close>

definition c_rows :: "u32 \<Rightarrow> u32 \<Rightarrow> nat \<Rightarrow> u32 \<Rightarrow> bool" where
  "c_rows C O' s C' \<longleftrightarrow> (C = 0 \<and> C' = 0) \<or> (C \<noteq> 0 \<and> C' \<noteq> 0 \<and> C' = C + 4 * of_nat (s * unat O'))"

lemma gemm_sep_rows:
  assumes "gemm_sep A B C Y M N O'" and "s + unat M' \<le> unat M"
    and "c_rows C O' s C'"
  shows "gemm_sep (A + 4 * of_nat (s * unat N)) B C' (Y + 4 * of_nat (s * unat O')) M' N O'"
  using assms(1) sub_span [OF assms(2), of A "unat N"] sub_span [OF assms(2), of Y "unat O'"]
    sub_span [OF assms(2), of C "unat O'"]
  unfolding gemm_sep_def using assms(3) unfolding c_rows_def by blast

lemma la_rows: "la m (A + 4 * of_nat (s * unat N)) M' N 0 i k = la m A M N 0 (s + i) k"
  by (simp add: la_def a_index_def elem_def algebra_simps)

lemma lc_rows: "C + 4 * of_nat (s * unat O') + 4 * of_nat (i * unat O' + j) = C + 4 * of_nat ((s + i) * unat O' + j)"
  by (simp add: algebra_simps)

lemma vals_rows:
  assumes "c_rows C O' s C'"
  shows "scalar_val fp (A + 4 * of_nat (s * unat N)) B C' M' N O' 0 tB m i j = scalar_val fp A B C M N O' 0 tB m (s + i) j"
    and "block_val fp (A + 4 * of_nat (s * unat N)) B C' M' N O' 0 tB m i j = block_val fp A B C M N O' 0 tB m (s + i) j"
proof -
  consider "C = 0" "C' = 0" | "C \<noteq> 0" "C' \<noteq> 0" "C' = C + 4 * of_nat (s * unat O')"
    using assms by (auto simp: c_rows_def)
  note cs = this
  show "scalar_val fp (A + 4 * of_nat (s * unat N)) B C' M' N O' 0 tB m i j = scalar_val fp A B C M N O' 0 tB m (s + i) j"
    using cs
  proof cases
    case 1
    then show ?thesis by (simp only: scalar_val_def la_rows [where M = M] simp_thms if_False)
  next
    case 2
    show ?thesis using 2(1,2) unfolding scalar_val_def la_rows [where M = M] 2(3) lc_rows by simp
  qed
  show "block_val fp (A + 4 * of_nat (s * unat N)) B C' M' N O' 0 tB m i j = block_val fp A B C M N O' 0 tB m (s + i) j"
    using cs
  proof cases
    case 1
    then show ?thesis by (simp only: block_val_def la_rows [where M = M] simp_thms if_False)
  next
    case 2
    show ?thesis using 2(1,2) unfolding block_val_def la_rows [where M = M] 2(3) lc_rows by simp
  qed
qed

text \<open>The values a core stores when it runs rows \<open>s\<close> to \<open>s + M'\<close> as a product of its own.\<close>

lemma rows_shift:
  assumes "\<And>i j. v' i j = v (s + i) j"
  shows "outs (Y + 4 * of_nat (s * unat O')) (rows O' v') [0..<d * unat O'] m
    = outs Y (rows O' v) [s * unat O'..<(s + d) * unat O'] m"
proof -
  have "outs (Y + 4 * of_nat (s * unat O')) (rows O' v') [0..<d * unat O'] m
      = outs Y (\<lambda>e. rows O' v' (e - s * unat O')) [s * unat O'..<s * unat O' + d * unat O'] m"
    by (rule outs_shift)
  also have "\<dots> = outs Y (rows O' v) [s * unat O'..<s * unat O' + d * unat O'] m"
  proof (rule outs_cong)
    fix e assume "e \<in> set [s * unat O'..<s * unat O' + d * unat O']"
    then obtain x where e: "e = x + s * unat O'" and x: "x < d * unat O'"
      by (metis (no_types, lifting) atLeastLessThan_iff atLeastLessThan_upt le_add_diff_inverse2 less_diff_conv2 add.commute)
    have pos: "unat O' \<noteq> 0" using x by (metis mult_0_right not_less_zero)
    show "rows O' v' (e - s * unat O') = rows O' v e"
      unfolding e rows_def using pos by (simp add: assms)
  qed
  finally show ?thesis by (simp add: add_mult_distrib)
qed

text \<open>What the linked kernel computes for element \<open>(i, j)\<close>, streamed or not.\<close>

definition kernel_val ::
    "'a fpu_scheme \<Rightarrow> u32 \<Rightarrow> u32 \<Rightarrow> u32 \<Rightarrow> u32 \<Rightarrow> u32 \<Rightarrow> u32 \<Rightarrow> u32 \<Rightarrow> u32 \<Rightarrow> mem \<Rightarrow> nat \<Rightarrow> nat \<Rightarrow> u32" where
  "kernel_val fp A B C M N O' transA transB =
     (if N = 0 \<or> O' < UNROLL then scalar_val fp A B C M N O' transA transB
      else ssr_val fp A B C M N O' transA transB)"

lemma Gemm_kernel_outs:
  assumes "ssrs_ready S" and "gemm_sep A B C Y M N O'"
  shows "snd (Gemm_ssr fp (Gemm_generic fp) A B C Y M N O' tA tB (S, m))
    = outs Y (rows O' (kernel_val fp A B C M N O' tA tB m)) [0..<unat M * unat O'] m"
proof (cases "M = 0 \<or> N = 0 \<or> O' < UNROLL")
  case True
  then show ?thesis
    by (auto simp: Gemm_ssr_def Gemm_generic_outs [OF assms(2)] kernel_val_def)
next
  case False
  then show ?thesis
    using gemm_ssr_outs [OF assms, of fp tA tB m] by (simp add: Gemm_ssr_def kernel_val_def)
qed

lemma MatMul_is_Gemm:
  "MatMul_ssr fp (MatMul_generic fp) A B Y M N O' Sm = Gemm_ssr fp (Gemm_generic fp) A B 0 Y M N O' 0 0 Sm"
  by (cases Sm) (simp add: MatMul_ssr_def Gemm_ssr_def MatMul_generic_def)

lemma kernel_val_rows:
  assumes "c_rows C O' s C'"
  shows "kernel_val fp (A + 4 * of_nat (s * unat N)) B C' M' N O' 0 tB m i j = kernel_val fp A B C M N O' 0 tB m (s + i) j"
  by (cases "N = 0 \<or> O' < UNROLL")
    (simp_all only: kernel_val_def ssr_val_def if_True if_False vals_rows [OF assms, where M = M])

lemma kernel_val_outs:
  assumes sep: "gemm_sep A B C Y M N O'" and e: "e < unat M * unat O'" and es: "set es \<subseteq> {..<unat M * unat O'}"
  shows "rows O' (kernel_val fp A B C M N O' tA tB (outs Y v es m)) e = rows O' (kernel_val fp A B C M N O' tA tB m) e"
proof -
  have i: "e div unat O' < unat M" using e by (simp add: less_mult_imp_div_less)
  have "unat O' \<noteq> 0" using e by (metis mult_0_right not_less_zero)
  then have j: "e mod unat O' < unat O'" by simp
  show ?thesis
    by (simp add: rows_def kernel_val_def ssr_val_def vals_outs [OF sep es i j])
qed

text \<open>A core that runs rows \<open>s\<close> to \<open>s + M'\<close> stores those rows of the product.\<close>

lemma Gemm_slice_outs:
  assumes ready: "ssrs_ready S" and sep: "gemm_sep A B C Y M N O'" and "s + unat M' \<le> unat M" and "c_rows C O' s C'"
  shows "snd (Gemm_ssr fp (Gemm_generic fp) (A + 4 * of_nat (s * unat N)) B C' (Y + 4 * of_nat (s * unat O')) M' N O' 0 tB (S, m))
    = outs Y (rows O' (kernel_val fp A B C M N O' 0 tB m)) [s * unat O'..<(s + unat M') * unat O'] m"
  unfolding Gemm_kernel_outs [OF ready gemm_sep_rows [OF sep assms(3,4)]]
  by (rule rows_shift) (rule kernel_val_rows [OF assms(4)])

text \<open>The arguments of a slice, as the row offsets \<open>run_slice\<close> computes.\<close>

lemma slice_offsets:
  fixes n nb :: u32
  assumes "i < unat nb"
  defines "s \<equiv> slice_start (unat n) (unat nb) i" and "s' \<equiv> slice_start (unat n) (unat nb) (Suc i)"
  shows "slice n (of_nat i) nb = (of_nat s, of_nat s')" and "unat (of_nat s' - of_nat s :: u32) = s' - s"
    and "((of_nat s' :: u32) \<le> of_nat s) = (s' \<le> s)" and "s \<le> s'" and "s' \<le> unat n"
proof -
  note p = slice_parts [OF assms(1), of n, folded s_def s'_def]
  show "slice n (of_nat i) nb = (of_nat s, of_nat s')" "s \<le> s'" "s' \<le> unat n" by (rule p)+
  have u: "unat (of_nat s :: u32) = s" "unat (of_nat s' :: u32) = s'"
    using p unat_u32_lt [of n] by (simp_all add: unat_of_nat_small)
  show "unat (of_nat s' - of_nat s :: u32) = s' - s"
    using p(2) u by (simp add: unat_sub word_le_nat_alt)
  show "((of_nat s' :: u32) \<le> of_nat s) = (s' \<le> s)" using u by (simp add: word_le_nat_alt)
qed

definition matmul_ok :: "'a fpu_scheme \<Rightarrow> deeploy \<Rightarrow> ssrs \<Rightarrow> u32 \<Rightarrow> u32 list \<Rightarrow> bool" where
  "matmul_ok fp dl S nb a \<longleftrightarrow> nb \<noteq> 0 \<and> deeploy_ok fp dl \<and> ssrs_ready S
     \<and> gemm_sep (a ! HES_MM_A) (a ! HES_MM_B) 0 (a ! HES_MM_Y) (a ! HES_MM_M) (a ! HES_MM_N) (a ! HES_MM_O)
     \<and> 4 * (unat (a ! HES_MM_M) * unat (a ! HES_MM_O)) \<le> 4294967296"

definition matmul_total :: "u32 list \<Rightarrow> nat" where
  "matmul_total a = unat (a ! HES_MM_M) * unat (a ! HES_MM_O)"

definition matmul_val :: "'a fpu_scheme \<Rightarrow> u32 list \<Rightarrow> mem \<Rightarrow> nat \<Rightarrow> u32" where
  "matmul_val fp a m = rows (a ! HES_MM_O) (kernel_val fp (a ! HES_MM_A) (a ! HES_MM_B) 0 (a ! HES_MM_M)
     (a ! HES_MM_N) (a ! HES_MM_O) 0 0 m)"

definition matmul_part :: "u32 \<Rightarrow> u32 list \<Rightarrow> nat \<Rightarrow> nat list" where
  "matmul_part nb a = share (a ! HES_MM_M) nb (unat (a ! HES_MM_O))"

lemma matmul_slice:
  assumes ok: "matmul_ok fp dl S nb a" and i: "i < unat nb"
  shows "run_slice (snitch_kernels fp dl mf S) HES_K_MATMUL_FP32 a sb ss (of_nat i) nb m
    = outs (a ! HES_MM_Y) (matmul_val fp a m) (matmul_part nb a i) m"
proof -
  let ?M = "a ! HES_MM_M" and ?N = "a ! HES_MM_N" and ?O = "a ! HES_MM_O"
  define s where "s = slice_start (unat ?M) (unat nb) i"
  define s' where "s' = slice_start (unat ?M) (unat nb) (Suc i)"
  note sl = slice_offsets [OF i, of ?M, folded s_def s'_def]
  have g: "g_matmul dl = MatMul_generic fp" and ready: "ssrs_ready S"
    and sep: "gemm_sep (a ! HES_MM_A) (a ! HES_MM_B) 0 (a ! HES_MM_Y) ?M ?N ?O"
    using ok by (simp_all add: matmul_ok_def deeploy_ok_def)
  have K: "HES_K_MATMUL_FP32 = HES_K_MATMUL_FP32" ..
  have addr: "P + of_nat s * X * sizeof_float32 = P + 4 * of_nat (s * unat X)" for P X
    by (simp add: sizeof_float32_def)
  have call: "slice_call HES_K_MATMUL_FP32 a sb ss (of_nat i) nb
      = (if s' \<le> s then None else Some (MatMulCall (a ! HES_MM_A + 4 * of_nat (s * unat ?N)) (a ! HES_MM_B)
          (a ! HES_MM_Y + 4 * of_nat (s * unat ?O)) (of_nat s' - of_nat s) ?N ?O))"
    by (simp only: slice_call_def Let_def if_True sl(1,3) prod.case addr refl)
  have "share ?M nb (unat ?O) i = [s * unat ?O..<s' * unat ?O]" by (simp add: share_def s_def s'_def)
  moreover have "snd (MatMul_ssr fp (g_matmul dl) (a ! HES_MM_A + 4 * of_nat (s * unat ?N)) (a ! HES_MM_B)
          (a ! HES_MM_Y + 4 * of_nat (s * unat ?O)) (of_nat s' - of_nat s) ?N ?O (S, m))
      = outs (a ! HES_MM_Y) (matmul_val fp a m) [s * unat ?O..<s' * unat ?O] m"
    using Gemm_slice_outs [OF ready sep _ , of s "of_nat s' - of_nat s" 0 fp 0 m] sl
    by (simp add: g MatMul_is_Gemm c_rows_def matmul_val_def)
  ultimately show ?thesis
    unfolding run_slice_def call matmul_part_def using sl(4) by simp
qed

lemma share_partition: "nb \<noteq> 0 \<Longrightarrow> mset (concat (map (share n nb w) [0..<unat nb])) = mset [0..<unat n * w]"
  by (rule arg_cong [where f = mset]) (rule shares_concat)

interpretation matmul: sliced_job "matmul_ok fp dl S"
  "\<lambda>nb a i. run_slice (snitch_kernels fp dl mf S) HES_K_MATMUL_FP32 a sb ss (of_nat i) nb"
  matmul_part matmul_total "\<lambda>a. a ! HES_MM_Y" "matmul_val fp" for fp dl S mf sb ss
proof unfold_locales
  fix nb a
  assume ok: "matmul_ok fp dl S nb a"
  show "mset (concat (map (matmul_part nb a) [0..<unat nb])) = mset [0..<matmul_total a]"
    using ok share_partition [of nb] by (simp add: matmul_ok_def matmul_part_def matmul_total_def)
  show "4 * matmul_total a \<le> 4294967296" using ok by (simp add: matmul_ok_def matmul_total_def)
next
  fix nb a i m assume "matmul_ok fp dl S nb a" "i < unat nb"
  then show "run_slice (snitch_kernels fp dl mf S) HES_K_MATMUL_FP32 a sb ss (of_nat i) nb m
      = outs (a ! HES_MM_Y) (matmul_val fp a m) (matmul_part nb a i) m" by (rule matmul_slice)
next
  fix nb a es e v m
  assume "matmul_ok fp dl S nb a" and es: "set es \<subseteq> {..<matmul_total a}" and e: "e < matmul_total a"
  then have sep: "gemm_sep (a ! HES_MM_A) (a ! HES_MM_B) 0 (a ! HES_MM_Y) (a ! HES_MM_M) (a ! HES_MM_N) (a ! HES_MM_O)"
    by (simp add: matmul_ok_def)
  show "matmul_val fp a (outs (a ! HES_MM_Y) v es m) e = matmul_val fp a m e"
    unfolding matmul_val_def by (rule kernel_val_outs [OF sep]) (use es e in \<open>simp_all add: matmul_total_def\<close>)
qed

section \<open>Gemm in slices\<close>

definition gemm_ok :: "'a fpu_scheme \<Rightarrow> deeploy \<Rightarrow> ssrs \<Rightarrow> u32 \<Rightarrow> u32 list \<Rightarrow> bool" where
  "gemm_ok fp dl S nb a \<longleftrightarrow> nb \<noteq> 0 \<and> deeploy_ok fp dl \<and> ssrs_ready S \<and> a ! HES_GEMM_C \<noteq> 0
     \<and> unat (a ! HES_GEMM_C) + 4 * (unat (a ! HES_GEMM_M) * unat (a ! HES_GEMM_O)) \<le> 4294967296
     \<and> gemm_sep (a ! HES_GEMM_A) (a ! HES_GEMM_B) (a ! HES_GEMM_C) (a ! HES_GEMM_Y)
          (a ! HES_GEMM_M) (a ! HES_GEMM_N) (a ! HES_GEMM_O)"

definition gemm_total :: "u32 list \<Rightarrow> nat" where
  "gemm_total a = unat (a ! HES_GEMM_M) * unat (a ! HES_GEMM_O)"

definition gemm_job_val :: "'a fpu_scheme \<Rightarrow> u32 list \<Rightarrow> mem \<Rightarrow> nat \<Rightarrow> u32" where
  "gemm_job_val fp a m = rows (a ! HES_GEMM_O) (kernel_val fp (a ! HES_GEMM_A) (a ! HES_GEMM_B)
     (a ! HES_GEMM_C) (a ! HES_GEMM_M) (a ! HES_GEMM_N) (a ! HES_GEMM_O) (a ! HES_GEMM_TRANSA) (a ! HES_GEMM_TRANSB) m)"

definition gemm_part :: "u32 \<Rightarrow> u32 list \<Rightarrow> nat \<Rightarrow> nat list" where
  "gemm_part nb a i =
     (if a ! HES_GEMM_TRANSA \<noteq> 0 then (if i = 0 then [0..<gemm_total a] else [])
      else share (a ! HES_GEMM_M) nb (unat (a ! HES_GEMM_O)) i)"

lemma gemm_partition:
  assumes "nb \<noteq> 0"
  shows "mset (concat (map (gemm_part nb a) [0..<unat nb])) = mset [0..<gemm_total a]"
proof (cases "a ! HES_GEMM_TRANSA = 0")
  case True
  then have "gemm_part nb a = share (a ! HES_GEMM_M) nb (unat (a ! HES_GEMM_O))" by (auto simp: gemm_part_def)
  then show ?thesis using share_partition [OF assms] by (simp add: gemm_total_def)
next
  case False
  obtain n where n: "unat nb = Suc n" using assms by (metis not0_implies_Suc unat_eq_0)
  have "concat (map (gemm_part nb a) [0..<Suc n]) = [0..<gemm_total a]"
  proof (induction n)
    case 0
    show ?case using False by (simp add: gemm_part_def)
  next
    case (Suc n)
    then show ?case using False by (simp add: gemm_part_def [of nb a "Suc n"])
  qed
  then show ?thesis by (simp only: n)
qed

lemma c_rows_slice:
  assumes "C \<noteq> 0" and "unat C + 4 * (unat M * unat O') \<le> 4294967296" and "s < unat M"
  shows "c_rows C O' s (C + 4 * of_nat (s * unat O'))"
proof -
  have lt: "unat C + 4 * (s * unat O') < 4294967296"
  proof (cases "unat O' = 0")
    case True
    then show ?thesis using unat_u32_lt [of C] by simp
  next
    case False
    then have "s * unat O' < unat M * unat O'" using assms(3) by simp
    then show ?thesis using assms(2) by linarith
  qed
  then have "unat (of_nat (4 * (s * unat O')) :: u32) = 4 * (s * unat O')" by (intro unat_of_nat_small) linarith
  then have "unat (C + of_nat (4 * (s * unat O'))) = unat C + 4 * (s * unat O')"
    using lt by (subst unat_plus_small) simp_all
  moreover have "0 < unat C" using assms(1) by (simp add: unat_gt_0)
  ultimately have "unat (C + of_nat (4 * (s * unat O'))) \<noteq> 0" by linarith
  then have "C + of_nat (4 * (s * unat O')) \<noteq> 0" by (metis unat_0)
  then show ?thesis using assms(1) by (simp add: c_rows_def)
qed

lemma gemm_slice:
  assumes ok: "gemm_ok fp dl S nb a" and i: "i < unat nb"
  shows "run_slice (snitch_kernels fp dl mf S) HES_K_GEMM_FP32 a sb ss (of_nat i) nb m
    = outs (a ! HES_GEMM_Y) (gemm_job_val fp a m) (gemm_part nb a i) m"
proof -
  let ?M = "a ! HES_GEMM_M" and ?N = "a ! HES_GEMM_N" and ?O = "a ! HES_GEMM_O"
  let ?A = "a ! HES_GEMM_A" and ?B = "a ! HES_GEMM_B" and ?C = "a ! HES_GEMM_C" and ?Y = "a ! HES_GEMM_Y"
  let ?tA = "a ! HES_GEMM_TRANSA" and ?tB = "a ! HES_GEMM_TRANSB"
  have g: "g_gemm dl = Gemm_generic fp" and ready: "ssrs_ready S" and sep: "gemm_sep ?A ?B ?C ?Y ?M ?N ?O"
    and C: "?C \<noteq> 0" "unat ?C + 4 * (unat ?M * unat ?O) \<le> 4294967296"
    using ok by (simp_all add: gemm_ok_def deeploy_ok_def)
  have addr: "P + of_nat s * X * sizeof_float32 = P + 4 * of_nat (s * unat X)" for P X :: u32 and s
    by (simp add: sizeof_float32_def)
  have K: "HES_K_GEMM_FP32 \<noteq> HES_K_MATMUL_FP32" by (simp add: kernel_ids)
  show ?thesis
  proof (cases "?tA = 0")
    case True
    define s where "s = slice_start (unat ?M) (unat nb) i"
    define s' where "s' = slice_start (unat ?M) (unat nb) (Suc i)"
    note sl = slice_offsets [OF i, of ?M, folded s_def s'_def]
    have call: "slice_call HES_K_GEMM_FP32 a sb ss (of_nat i) nb
        = (if s' \<le> s then None else Some (GemmCall (?A + 4 * of_nat (s * unat ?N)) ?B (?C + 4 * of_nat (s * unat ?O))
            (?Y + 4 * of_nat (s * unat ?O)) (of_nat s' - of_nat s) ?N ?O ?tA ?tB))"
      using K True by (simp only: slice_call_def Let_def if_True if_False sl(1,3) prod.case addr refl simp_thms)
    have part: "gemm_part nb a i = [s * unat ?O..<s' * unat ?O]"
      using True by (simp add: gemm_part_def share_def s_def s'_def)
    show ?thesis
    proof (cases "s' \<le> s")
      case True
      then show ?thesis using sl(4) by (simp add: run_slice_def call part)
    next
      case False
      have cr: "c_rows ?C ?O s (?C + 4 * of_nat (s * unat ?O))"
        by (rule c_rows_slice [OF C]) (use False sl(5) in linarith)
      have fits: "s + unat (of_nat s' - of_nat s :: u32) \<le> unat ?M" using sl(2,4,5) by simp
      have "snd (Gemm_ssr fp (g_gemm dl) (?A + 4 * of_nat (s * unat ?N)) ?B (?C + 4 * of_nat (s * unat ?O))
            (?Y + 4 * of_nat (s * unat ?O)) (of_nat s' - of_nat s) ?N ?O ?tA ?tB (S, m))
          = outs ?Y (gemm_job_val fp a m) [s * unat ?O..<s' * unat ?O] m"
        using Gemm_slice_outs [OF ready sep fits cr, of fp ?tB m] sl(2,4) True
        by (simp only: g gemm_job_val_def le_add_diff_inverse)
      then show ?thesis using False by (simp add: run_slice_def call part)
    qed
  next
    case False
    have call: "slice_call HES_K_GEMM_FP32 a sb ss (of_nat i) nb
        = (if i = 0 \<and> ?M \<noteq> 0 then Some (GemmCall ?A ?B ?C ?Y ?M ?N ?O ?tA ?tB) else None)"
      using K False unat_of_nat_lt [OF i]
      by (auto simp: slice_call_def Let_def word_le_nat_alt unat_eq_0)
    show ?thesis
    proof (cases "i = 0 \<and> ?M \<noteq> 0")
      case True
      then show ?thesis
        unfolding run_slice_def call using False Gemm_kernel_outs [OF ready sep, of fp ?tA ?tB m]
        by (simp add: gemm_part_def gemm_total_def gemm_job_val_def g)
    next
      case False': False
      then show ?thesis
        unfolding run_slice_def call using False by (auto simp: gemm_part_def gemm_total_def)
    qed
  qed
qed

interpretation gemm: sliced_job "gemm_ok fp dl S"
  "\<lambda>nb a i. run_slice (snitch_kernels fp dl mf S) HES_K_GEMM_FP32 a sb ss (of_nat i) nb"
  gemm_part gemm_total "\<lambda>a. a ! HES_GEMM_Y" "gemm_job_val fp" for fp dl S mf sb ss
proof unfold_locales
  fix nb a
  assume ok: "gemm_ok fp dl S nb a"
  show "mset (concat (map (gemm_part nb a) [0..<unat nb])) = mset [0..<gemm_total a]"
    using ok by (intro gemm_partition) (simp add: gemm_ok_def)
  show "4 * gemm_total a \<le> 4294967296" using ok by (simp add: gemm_ok_def gemm_total_def)
next
  fix nb a i m assume "gemm_ok fp dl S nb a" "i < unat nb"
  then show "run_slice (snitch_kernels fp dl mf S) HES_K_GEMM_FP32 a sb ss (of_nat i) nb m
      = outs (a ! HES_GEMM_Y) (gemm_job_val fp a m) (gemm_part nb a i) m" by (rule gemm_slice)
next
  fix nb a es e v m
  assume "gemm_ok fp dl S nb a" and es: "set es \<subseteq> {..<gemm_total a}" and e: "e < gemm_total a"
  then have sep: "gemm_sep (a ! HES_GEMM_A) (a ! HES_GEMM_B) (a ! HES_GEMM_C) (a ! HES_GEMM_Y)
      (a ! HES_GEMM_M) (a ! HES_GEMM_N) (a ! HES_GEMM_O)" by (simp add: gemm_ok_def)
  show "gemm_job_val fp a (outs (a ! HES_GEMM_Y) v es m) e = gemm_job_val fp a m e"
    unfolding gemm_job_val_def by (rule kernel_val_outs [OF sep]) (use es e in \<open>simp_all add: gemm_total_def\<close>)
qed

section \<open>Convolution in slices\<close>

definition conv_Ho :: "u32 list \<Rightarrow> u32" where
  "conv_Ho a = divu (a ! HES_CONV_H - a ! HES_CONV_P) (a ! HES_CONV_SP) + 1"

definition conv_Wo :: "u32 list \<Rightarrow> u32" where
  "conv_Wo a = divu (a ! HES_CONV_W - a ! HES_CONV_Q) (a ! HES_CONV_SQ) + 1"

definition conv_job_ok :: "'a fpu_scheme \<Rightarrow> deeploy \<Rightarrow> ssrs \<Rightarrow> u32 \<Rightarrow> u32 list \<Rightarrow> bool" where
  "conv_job_ok fp dl S nb a \<longleftrightarrow> nb \<noteq> 0 \<and> deeploy_ok fp dl \<and> ssrs_ready S \<and> f_contract fp
     \<and> conv_ok (a ! HES_CONV_A) (a ! HES_CONV_C) (a ! HES_CONV_H) (a ! HES_CONV_W) (a ! HES_CONV_B) (a ! HES_CONV_F)
         (a ! HES_CONV_P) (a ! HES_CONV_Q) (a ! HES_CONV_SP) (a ! HES_CONV_SQ) (a ! HES_CONV_BIAS)
         (a ! HES_CONV_HAS_BIAS \<noteq> 0) (a ! HES_CONV_Y)"

definition conv_total :: "u32 list \<Rightarrow> nat" where
  "conv_total a = unat (a ! HES_CONV_F) * (unat (conv_Ho a) * unat (conv_Wo a))"

definition conv_job_val :: "'a fpu_scheme \<Rightarrow> u32 list \<Rightarrow> mem \<Rightarrow> nat \<Rightarrow> u32" where
  "conv_job_val fp a = conv_val (mac fp) fp (a ! HES_CONV_A) (a ! HES_CONV_C) (a ! HES_CONV_H) (a ! HES_CONV_W)
     (a ! HES_CONV_B) (a ! HES_CONV_P) (a ! HES_CONV_Q) (a ! HES_CONV_SP) (a ! HES_CONV_SQ) (a ! HES_CONV_BIAS)
     (a ! HES_CONV_HAS_BIAS \<noteq> 0) (conv_Ho a) (conv_Wo a)"

definition conv_part :: "u32 \<Rightarrow> u32 list \<Rightarrow> nat \<Rightarrow> nat list" where
  "conv_part nb a = share (a ! HES_CONV_F) nb (unat (conv_Ho a) * unat (conv_Wo a))"

lemma conv_ok_filters:
  assumes "conv_ok A C H W B F P Q SP SQ bias hb Y" and "s + unat F' \<le> unat F"
  shows "conv_ok A C H W (B + 4 * of_nat (s * (unat C * (unat P * unat Q)))) F' P Q SP SQ (bias + 4 * of_nat s) hb
    (Y + 4 * of_nat (s * (unat (divu (H - P) SP + 1) * unat (divu (W - Q) SQ + 1))))"
proof -
  let ?plane = "unat (divu (H - P) SP + 1) * unat (divu (W - Q) SQ + 1)" and ?taps = "unat C * (unat P * unat Q)"
  note y = sub_span [OF assms(2), of Y ?plane] and b = sub_span [OF assms(2), of B ?taps]
    and bi = sub_span [OF assms(2), of bias 1]
  have "unat F' * ?plane \<le> unat F * ?plane" using assms(2) by (intro mult_le_mono1) linarith
  then have "4 * (unat F' * ?plane) \<le> 4 * (unat F * ?plane)" by (rule mult_le_mono2)
  then show ?thesis
    using assms(1) y b bi unfolding conv_ok_def Let_def mult_1_right by (intro conjI impI) (linarith | blast)+
qed

lemma conv_val_filters:
  assumes "plane = unat Ho * unat Wo" and "e < d * plane"
  shows "conv_val mc fp A C H W (B + 4 * of_nat (s * (unat C * (unat P * unat Q)))) P Q SP SQ (bias + 4 * of_nat s) hb Ho Wo m e
    = conv_val mc fp A C H W B P Q SP SQ bias hb Ho Wo m (e + s * plane)"
proof -
  have "plane \<noteq> 0" using assms(2) by (metis mult_0_right not_less_zero)
  then have d: "(e + s * plane) div plane = s + e div plane" "(e + s * plane) mod plane = e mod plane" by simp_all
  have dot: "conv_dot mc A C H W (B + 4 * of_nat (s * (unat C * (unat P * unat Q)))) P Q SP SQ m f h w
      = conv_dot mc A C H W B P Q SP SQ m (s + f) h w" for f h w
  proof -
    have "B + 4 * of_nat (s * (unat C * (unat P * unat Q))) + 4 * of_nat (f * (unat C * (unat P * unat Q)) + k)
        = B + 4 * of_nat ((s + f) * (unat C * (unat P * unat Q)) + k)" for k
      by (simp add: algebra_simps)
    then show ?thesis unfolding conv_dot_def by (simp only:)
  qed
  have b: "bias + 4 * of_nat s + 4 * of_nat f = bias + 4 * of_nat (s + f)" for f
    by (simp add: algebra_simps)
  show ?thesis unfolding conv_val_def Let_def assms(1) [symmetric] d dot b ..
qed

lemma conv_slice:
  assumes ok: "conv_job_ok fp dl S nb a" and i: "i < unat nb"
  shows "run_slice (snitch_kernels fp dl mf S) HES_K_CONV2D_FP32 a sb ss (of_nat i) nb m
    = outs (a ! HES_CONV_Y) (conv_job_val fp a m) (conv_part nb a i) m"
proof -
  let ?C = "a ! HES_CONV_C" and ?H = "a ! HES_CONV_H" and ?W = "a ! HES_CONV_W" and ?F = "a ! HES_CONV_F"
  let ?P = "a ! HES_CONV_P" and ?Q = "a ! HES_CONV_Q" and ?SP = "a ! HES_CONV_SP" and ?SQ = "a ! HES_CONV_SQ"
  let ?A = "a ! HES_CONV_A" and ?B = "a ! HES_CONV_B" and ?bias = "a ! HES_CONV_BIAS" and ?Y = "a ! HES_CONV_Y"
  let ?hb = "a ! HES_CONV_HAS_BIAS \<noteq> 0" and ?taps = "unat ?C * (unat ?P * unat ?Q)"
  define plane where "plane = unat (conv_Ho a) * unat (conv_Wo a)"
  define s where "s = slice_start (unat ?F) (unat nb) i"
  define s' where "s' = slice_start (unat ?F) (unat nb) (Suc i)"
  note sl = slice_offsets [OF i, of ?F, folded s_def s'_def]
  have g: "g_conv dl = Conv2d_generic fp" and ready: "ssrs_ready S" and fc: "f_contract fp"
    and cok: "conv_ok ?A ?C ?H ?W ?B ?F ?P ?Q ?SP ?SQ ?bias ?hb ?Y"
    using ok by (simp_all add: conv_job_ok_def deeploy_ok_def)
  have K: "HES_K_CONV2D_FP32 \<noteq> HES_K_MATMUL_FP32" "HES_K_CONV2D_FP32 \<noteq> HES_K_GEMM_FP32" by (simp_all add: kernel_ids)
  have a1: "?B + of_nat s * ?C * ?P * ?Q * sizeof_float32 = ?B + 4 * of_nat (s * ?taps)"
    by (simp add: sizeof_float32_def algebra_simps)
  have a2: "?bias + of_nat s * sizeof_float32 = ?bias + 4 * of_nat s" by (simp add: sizeof_float32_def)
  have a3: "?Y + of_nat s * conv_Ho a * conv_Wo a * sizeof_float32 = ?Y + 4 * of_nat (s * plane)"
    by (simp add: sizeof_float32_def plane_def algebra_simps)
  have call: "slice_call HES_K_CONV2D_FP32 a sb ss (of_nat i) nb
      = (if s' \<le> s then None else Some (ConvCall ?A ?C ?H ?W (?B + 4 * of_nat (s * ?taps)) (of_nat s' - of_nat s) ?P ?Q
          ?SP ?SQ (?bias + 4 * of_nat s) ?hb (?Y + 4 * of_nat (s * plane))))"
    using K by (simp only: slice_call_def Let_def if_True if_False sl(1,3) prod.case a1 a2
        conv_Ho_def [symmetric] conv_Wo_def [symmetric] a3 refl simp_thms)
  have part: "conv_part nb a i = [s * plane..<s' * plane]"
    by (simp add: conv_part_def share_def s_def s'_def plane_def)
  show ?thesis
  proof (cases "s' \<le> s")
    case True
    then show ?thesis unfolding run_slice_def call part using sl(4) by simp
  next
    case False
    let ?F' = "of_nat s' - of_nat s :: u32" and ?d = "s' - s"
    have fits: "s + unat ?F' \<le> unat ?F" using sl(2,4,5) by simp
    note cok' = conv_ok_filters [OF cok fits, folded conv_Ho_def conv_Wo_def, folded plane_def]
    have "snd (Conv2d_ssr fp (Conv2d_generic fp) ?A ?C ?H ?W (?B + 4 * of_nat (s * ?taps)) ?F' ?P ?Q ?SP ?SQ
          (?bias + 4 * of_nat s) ?hb (?Y + 4 * of_nat (s * plane)) (S, m))
        = outs (?Y + 4 * of_nat (s * plane)) (conv_val (mac fp) fp ?A ?C ?H ?W (?B + 4 * of_nat (s * ?taps)) ?P ?Q ?SP ?SQ
          (?bias + 4 * of_nat s) ?hb (conv_Ho a) (conv_Wo a) m) [0..<?d * plane] m"
      unfolding Conv2d_ssr_generic [OF ready cok' fc] Conv2d_generic_outs [OF cok' conv_Ho_def conv_Wo_def]
      by (simp only: sl(2) plane_def)
    also have "\<dots> = outs ?Y (\<lambda>e. conv_val (mac fp) fp ?A ?C ?H ?W (?B + 4 * of_nat (s * ?taps)) ?P ?Q ?SP ?SQ
          (?bias + 4 * of_nat s) ?hb (conv_Ho a) (conv_Wo a) m (e - s * plane)) [s * plane..<s * plane + ?d * plane] m"
      by (rule outs_shift)
    also have "\<dots> = outs ?Y (conv_job_val fp a m) [s * plane..<s * plane + ?d * plane] m"
    proof (rule outs_cong)
      fix e assume "e \<in> set [s * plane..<s * plane + ?d * plane]"
      then have e: "e - s * plane < ?d * plane" "e - s * plane + s * plane = e" by auto
      show "conv_val (mac fp) fp ?A ?C ?H ?W (?B + 4 * of_nat (s * ?taps)) ?P ?Q ?SP ?SQ
          (?bias + 4 * of_nat s) ?hb (conv_Ho a) (conv_Wo a) m (e - s * plane) = conv_job_val fp a m e"
        unfolding conv_job_val_def conv_val_filters [OF plane_def e(1)] e(2) ..
    qed
    also have "s * plane + ?d * plane = s' * plane" using sl(4) by (simp flip: add_mult_distrib)
    finally show ?thesis unfolding run_slice_def call part using False by (simp add: g)
  qed
qed

interpretation conv: sliced_job "conv_job_ok fp dl S"
  "\<lambda>nb a i. run_slice (snitch_kernels fp dl mf S) HES_K_CONV2D_FP32 a sb ss (of_nat i) nb"
  conv_part conv_total "\<lambda>a. a ! HES_CONV_Y" "conv_job_val fp" for fp dl S mf sb ss
proof unfold_locales
  fix nb a
  assume ok: "conv_job_ok fp dl S nb a"
  show "mset (concat (map (conv_part nb a) [0..<unat nb])) = mset [0..<conv_total a]"
    unfolding conv_part_def conv_total_def using ok by (intro share_partition) (simp add: conv_job_ok_def)
  show "4 * conv_total a \<le> 4294967296"
    using ok unfolding conv_job_ok_def conv_ok_def Let_def conv_total_def conv_Ho_def conv_Wo_def by blast
next
  fix nb a i m assume "conv_job_ok fp dl S nb a" "i < unat nb"
  then show "run_slice (snitch_kernels fp dl mf S) HES_K_CONV2D_FP32 a sb ss (of_nat i) nb m
      = outs (a ! HES_CONV_Y) (conv_job_val fp a m) (conv_part nb a i) m" by (rule conv_slice)
next
  fix nb a es e v m
  assume ok: "conv_job_ok fp dl S nb a" and es: "set es \<subseteq> {..<conv_total a}" and e: "e < conv_total a"
  then have "conv_ok (a ! HES_CONV_A) (a ! HES_CONV_C) (a ! HES_CONV_H) (a ! HES_CONV_W) (a ! HES_CONV_B) (a ! HES_CONV_F)
         (a ! HES_CONV_P) (a ! HES_CONV_Q) (a ! HES_CONV_SP) (a ! HES_CONV_SQ) (a ! HES_CONV_BIAS)
         (a ! HES_CONV_HAS_BIAS \<noteq> 0) (a ! HES_CONV_Y)" by (simp add: conv_job_ok_def)
  from conv_val_outs [OF this, of e es "mac fp" fp v m]
  show "conv_job_val fp a (outs (a ! HES_CONV_Y) v es m) e = conv_job_val fp a m e"
    using es e by (simp only: conv_job_val_def conv_total_def conv_Ho_def conv_Wo_def)
qed

section \<open>A whole compute phase\<close>

lemma compute_phase_fold:
  "cs_mem (compute_phase K cfg (map of_nat js) s)
     = fold (\<lambda>i. run_slice K (active_kernel s) (active_args s) (scratch_base s) (scratch_stride s) (of_nat i)
         (my_nb_compute cfg)) js (cs_mem s)"
  by (simp add: compute_phase_def fold_map comp_def)

lemma matmul_val_reference:
  assumes "matmul_ok fp dl S nb a" and "f_contract fp"
  shows "outs (a ! HES_MM_Y) (matmul_val fp a m) [0..<matmul_total a] m
    = MatMul_generic fp (a ! HES_MM_A) (a ! HES_MM_B) (a ! HES_MM_Y) (a ! HES_MM_M) (a ! HES_MM_N) (a ! HES_MM_O) m"
proof -
  let ?k = "kernel_val fp (a ! HES_MM_A) (a ! HES_MM_B) 0 (a ! HES_MM_M) (a ! HES_MM_N) (a ! HES_MM_O) 0 0 m"
  let ?s = "scalar_val fp (a ! HES_MM_A) (a ! HES_MM_B) 0 (a ! HES_MM_M) (a ! HES_MM_N) (a ! HES_MM_O) 0 0 m"
  have "?k i j = ?s i j" for i j
    by (simp add: kernel_val_def ssr_val_def block_val_contract [OF assms(2)])
  then have k: "?k = ?s" by (intro ext)
  have "gemm_sep (a ! HES_MM_A) (a ! HES_MM_B) 0 (a ! HES_MM_Y) (a ! HES_MM_M) (a ! HES_MM_N) (a ! HES_MM_O)"
    using assms(1) by (simp add: matmul_ok_def)
  from Gemm_generic_outs [OF this, of fp 0 0 m] show ?thesis
    by (simp only: MatMul_generic_def matmul_val_def matmul_total_def k)
qed

text \<open>
  C8. A MatMul spread over the cluster is a MatMul. Whatever order the cores' effects reach
  memory in, after the compute phase memory is what the scalar reference would have left:
  every row computed once, by whichever core got it, streamed or by the fall-back.
\<close>

theorem cluster_matmul:
  assumes "active_kernel s = HES_K_MATMUL_FP32" and "active_args s = a"
    and "matmul_ok fp dl S (my_nb_compute cfg) a" and "f_contract fp"
    and "mset js = mset [0..<unat (my_nb_compute cfg)]"
  shows "cs_mem (compute_phase (snitch_kernels fp dl mf S) cfg (map of_nat js) s)
    = MatMul_generic fp (a ! HES_MM_A) (a ! HES_MM_B) (a ! HES_MM_Y) (a ! HES_MM_M) (a ! HES_MM_N) (a ! HES_MM_O) (cs_mem s)"
  unfolding compute_phase_fold assms(1,2)
  by (simp only: matmul.any_order [OF assms(3,5)] matmul_val_reference [OF assms(3,4)])

definition int_deeploy :: deeploy where
  "int_deeploy = \<lparr>g_matmul = MatMul_generic int_fpu, g_gemm = Gemm_generic int_fpu, g_conv = Conv2d_generic int_fpu\<rparr>"

lemma int_deeploy_ok: "deeploy_ok int_fpu int_deeploy" "f_contract int_fpu"
  by (simp_all add: deeploy_ok_def int_deeploy_def) (simp add: int_fpu_def)

definition idle_cstate :: "u32 \<Rightarrow> u32 list \<Rightarrow> mem \<Rightarrow> cstate" where
  "idle_cstate k a m = \<lparr>active_args = a, active_kernel = k, scratch_base = 0, scratch_stride = 0, cs_ops = [],
     cs_served = 0, cs_staged = 0, cs_t0 = 0,
     cs_dma = \<lparr>d_src = 0, d_dst = 0, d_sstride = 0, d_dstride = 0, d_reps = 0, d_next_id = 0, d_pending = []\<rparr>,
     cs_mem = m,
     cs_mbox = \<lparr>mb_magic = 0, mb_alive_mask = 0, mb_seq = 0, mb_kernel_id = 0, mb_nargs = 0, mb_done_seq = 0,
       mb_cycles = 0, mb_trap_cause = 0, mb_nb_cores = 0, mb_flags = 0, mb_staged = 0, mb_error = 0,
       mb_args = a, mb_probe = []\<rparr>\<rparr>"

text \<open>An order in which eight cores may finish.\<close>

lemma scrambled: "mset [7, 0, 3, 1, 2, 6, 5, 4] = mset [0..<unat (my_nb_compute snitch_cfg)]"
proof -
  have n: "unat (my_nb_compute snitch_cfg) = 8" by (simp add: hes_const)
  have "sort [7, 0, 3, 1, 2, 6, 5, 4] = [0..<8::nat]" by code_simp
  then show ?thesis unfolding n by (metis mset_sort)
qed

definition some_matmul :: "u32 list" where
  "some_matmul = [0x10000000, 0x10000100, 0x10000400, 5, 2, 9] @ replicate 10 0"

lemma some_matmul_ok: "matmul_ok int_fpu int_deeploy (\<lambda>_. reset_ssr) (my_nb_compute snitch_cfg) some_matmul"
proof -
  have "gemm_sep 0x10000000 0x10000100 0 0x10000400 5 2 9"
    unfolding gemm_sep_def by (intro conjI span_disjoint) simp_all
  then show ?thesis
    by (simp add: matmul_ok_def int_deeploy_ok reset_ready some_matmul_def job_arg hes_const)
qed

theorem cluster_matmul_witness:
  "cs_mem (compute_phase (snitch_kernels int_fpu int_deeploy (\<lambda>_ m. m) (\<lambda>_. reset_ssr)) snitch_cfg
       (map of_nat [7::nat, 0, 3, 1, 2, 6, 5, 4]) (idle_cstate HES_K_MATMUL_FP32 some_matmul (\<lambda>x. ucast x)))
    = MatMul_generic int_fpu 0x10000000 0x10000100 0x10000400 5 2 9 (\<lambda>x. ucast x)"
proof -
  from cluster_matmul [OF _ _ some_matmul_ok int_deeploy_ok(2) scrambled,
      of "idle_cstate HES_K_MATMUL_FP32 some_matmul (\<lambda>x. ucast x)" "\<lambda>_ m. m"]
  show ?thesis by (simp add: idle_cstate_def some_matmul_def job_arg)
qed

text \<open>
  C9. A Gemm spread over the cluster, transposed or not, leaves the memory one call of the
  kernel on the whole problem would leave, in whatever order the cores' effects arrive: with
  A transposed core 0 does everything, else each core its rows with its own C rows.
\<close>

theorem cluster_gemm:
  assumes "active_kernel s = HES_K_GEMM_FP32" and "active_args s = a"
    and "gemm_ok fp dl S (my_nb_compute cfg) a"
    and "mset js = mset [0..<unat (my_nb_compute cfg)]"
  shows "cs_mem (compute_phase (snitch_kernels fp dl mf S) cfg (map of_nat js) s)
    = snd (Gemm_ssr fp (g_gemm dl) (a ! HES_GEMM_A) (a ! HES_GEMM_B) (a ! HES_GEMM_C) (a ! HES_GEMM_Y)
        (a ! HES_GEMM_M) (a ! HES_GEMM_N) (a ! HES_GEMM_O) (a ! HES_GEMM_TRANSA) (a ! HES_GEMM_TRANSB) (S, cs_mem s))"
proof -
  have g: "g_gemm dl = Gemm_generic fp" "ssrs_ready S" "gemm_sep (a ! HES_GEMM_A) (a ! HES_GEMM_B) (a ! HES_GEMM_C)
      (a ! HES_GEMM_Y) (a ! HES_GEMM_M) (a ! HES_GEMM_N) (a ! HES_GEMM_O)"
    using assms(3) by (simp_all add: gemm_ok_def deeploy_ok_def)
  show ?thesis
    unfolding compute_phase_fold assms(1,2)
    by (simp only: gemm.any_order [OF assms(3,4)] g(1) Gemm_kernel_outs [OF g(2,3)] gemm_job_val_def gemm_total_def)
qed

definition some_gemm :: "u32 list" where
  "some_gemm = [0x10000000, 0x10000100, 0x10000200, 0x10000400, 5, 2, 9, 0, 1] @ replicate 7 0"

lemma some_gemm_ok: "gemm_ok int_fpu int_deeploy (\<lambda>_. reset_ssr) (my_nb_compute snitch_cfg) some_gemm"
proof -
  have "gemm_sep 0x10000000 0x10000100 0x10000200 0x10000400 5 2 9"
    unfolding gemm_sep_def by (intro conjI impI span_disjoint) simp_all
  then show ?thesis
    by (simp add: gemm_ok_def int_deeploy_ok reset_ready some_gemm_def job_arg hes_const)
qed

theorem cluster_gemm_witness:
  "cs_mem (compute_phase (snitch_kernels int_fpu int_deeploy (\<lambda>_ m. m) (\<lambda>_. reset_ssr)) snitch_cfg
       (map of_nat [7::nat, 0, 3, 1, 2, 6, 5, 4]) (idle_cstate HES_K_GEMM_FP32 some_gemm (\<lambda>x. ucast x)))
    = snd (Gemm_ssr int_fpu (Gemm_generic int_fpu) 0x10000000 0x10000100 0x10000200 0x10000400 5 2 9 0 1
        (\<lambda>_. reset_ssr, \<lambda>x. ucast x))"
proof -
  from cluster_gemm [OF _ _ some_gemm_ok scrambled,
      of "idle_cstate HES_K_GEMM_FP32 some_gemm (\<lambda>x. ucast x)" "\<lambda>_ m. m"]
  show ?thesis by (simp add: idle_cstate_def some_gemm_def job_arg int_deeploy_def)
qed

text \<open>
  C10. A convolution spread over the cluster by filters, each core with its own weights, bias
  and output planes, leaves the memory the scalar convolution of the whole layer would leave,
  in whatever order the cores' effects arrive.
\<close>

theorem cluster_conv:
  assumes "active_kernel s = HES_K_CONV2D_FP32" and "active_args s = a"
    and "conv_job_ok fp dl S (my_nb_compute cfg) a"
    and "mset js = mset [0..<unat (my_nb_compute cfg)]"
  shows "cs_mem (compute_phase (snitch_kernels fp dl mf S) cfg (map of_nat js) s)
    = Conv2d_generic fp (a ! HES_CONV_A) (a ! HES_CONV_C) (a ! HES_CONV_H) (a ! HES_CONV_W) (a ! HES_CONV_B)
        (a ! HES_CONV_F) (a ! HES_CONV_P) (a ! HES_CONV_Q) (a ! HES_CONV_SP) (a ! HES_CONV_SQ) (a ! HES_CONV_BIAS)
        (a ! HES_CONV_HAS_BIAS \<noteq> 0) (a ! HES_CONV_Y) (cs_mem s)"
proof -
  have "conv_ok (a ! HES_CONV_A) (a ! HES_CONV_C) (a ! HES_CONV_H) (a ! HES_CONV_W) (a ! HES_CONV_B) (a ! HES_CONV_F)
         (a ! HES_CONV_P) (a ! HES_CONV_Q) (a ! HES_CONV_SP) (a ! HES_CONV_SQ) (a ! HES_CONV_BIAS)
         (a ! HES_CONV_HAS_BIAS \<noteq> 0) (a ! HES_CONV_Y)"
    using assms(3) by (simp add: conv_job_ok_def)
  from Conv2d_generic_outs [OF this conv_Ho_def conv_Wo_def, of fp "cs_mem s"] show ?thesis
    unfolding compute_phase_fold assms(1,2)
    by (simp only: conv.any_order [OF assms(3,4)] conv_job_val_def conv_total_def)
qed

definition some_conv :: "u32 list" where
  "some_conv = [0x10000000, 2, 9, 8, 0x10001000, 7, 3, 2, 2, 3, 0x10002000, 1, 0x10003000, 0, 0, 0]"

lemma some_conv_ok: "conv_job_ok int_fpu int_deeploy (\<lambda>_. reset_ssr) (my_nb_compute snitch_cfg) some_conv"
proof -
  have "divu (9 - 3) 2 = (3::u32)" "divu (8 - 2) 3 = (2::u32)" by code_simp+
  then have "conv_ok 0x10000000 2 9 8 0x10001000 7 3 2 2 3 0x10002000 True 0x10003000"
    unfolding conv_ok_def Let_def by (intro conjI impI span_disjoint) simp_all
  then show ?thesis
    by (simp add: conv_job_ok_def int_deeploy_ok reset_ready some_conv_def job_arg hes_const)
qed

theorem cluster_conv_witness:
  "cs_mem (compute_phase (snitch_kernels int_fpu int_deeploy (\<lambda>_ m. m) (\<lambda>_. reset_ssr)) snitch_cfg
       (map of_nat [7::nat, 0, 3, 1, 2, 6, 5, 4]) (idle_cstate HES_K_CONV2D_FP32 some_conv (\<lambda>x. ucast x)))
    = Conv2d_generic int_fpu 0x10000000 2 9 8 0x10001000 7 3 2 2 3 0x10002000 True 0x10003000 (\<lambda>x. ucast x)"
proof -
  from cluster_conv [OF _ _ some_conv_ok scrambled,
      of "idle_cstate HES_K_CONV2D_FP32 some_conv (\<lambda>x. ucast x)" "\<lambda>_ m. m"]
  show ?thesis by (simp add: idle_cstate_def some_conv_def job_arg)
qed

end
