(* ===== verification/JobLoop.thy ===== *)
theory JobLoop
  imports Staging SlicedJobs
begin

text \<open>
  One job from doorbell to \<open>done_seq\<close>, the loop of \<open>main\<close> in \<open>cluster_main.c\<close>:
  how it is refused and reported, and that a staged job leaves main memory as if its kernel
  had run on main memory directly. What a kernel must promise for that is a locale.
\<close>

section \<open>Bytes of an output\<close>

lemma byte_of_or:
  fixes b0 b1 b2 b3 :: u8
  defines "w \<equiv> (ucast b0 OR push_bit 8 (ucast b1) OR push_bit 16 (ucast b2) OR push_bit 24 (ucast b3) :: u32)"
  shows "ucast w = b0" "ucast (drop_bit 8 w) = b1" "ucast (drop_bit 16 w) = b2" "ucast (drop_bit 24 w) = b3"
  unfolding w_def by (rule bit_word_eqI, auto simp: bit_simps dest: bit_imp_le_length)+

lemma ld32_byte:
  assumes "j < 4"
  shows "m (a + of_nat j) = ucast (drop_bit (8 * j) (ld32 m a))"
proof -
  have "j = 0 \<or> j = 1 \<or> j = 2 \<or> j = 3" using assms by auto
  then show ?thesis using byte_of_or [of "m a" "m (a + 1)" "m (a + 2)" "m (a + 3)"]
    unfolding ld32_def by auto
qed

lemma outs_byte:
  assumes "4 * n \<le> 4294967296" and "k < 4 * n"
  shows "outs Y v [0..<n] m (Y + of_nat k) = ucast (drop_bit (8 * (k mod 4)) (v (k div 4)))"
proof -
  have e: "k div 4 < n" using assms(2) by simp
  have k: "Y + of_nat k = Y + 4 * of_nat (k div 4) + of_nat (k mod 4)"
  proof -
    have "k = 4 * (k div 4) + k mod 4" by simp
    then have "(of_nat k :: u32) = of_nat (4 * (k div 4) + k mod 4)" by (rule arg_cong)
    then show ?thesis by (simp only: of_nat_add of_nat_mult of_nat_numeral add.assoc)
  qed
  have "ld32 (outs Y v [0..<n] m) (Y + 4 * of_nat (k div 4)) = v (k div 4)"
    by (rule ld32_outs_at [OF assms(1)]) (use e in auto)
  then show ?thesis unfolding k by (subst ld32_byte) simp_all
qed

lemma ld32_copied:
  assumes "\<And>k. k < 4 \<Longrightarrow> m' (q + of_nat k) = m (p + of_nat k)"
  shows "ld32 m' q = ld32 m p"
  using assms [of 0] assms [of 1] assms [of 2] assms [of 3] by (simp add: ld32_def)

text \<open>A word inside a copied buffer.\<close>

lemma ld32_elem_copied:
  assumes "\<And>k. k < n \<Longrightarrow> m' (q + of_nat k) = m (p + of_nat k)" and "4 * i + 4 \<le> n"
  shows "ld32 m' (q + 4 * of_nat i) = ld32 m (p + 4 * of_nat i)"
proof (rule ld32_copied)
  fix k :: nat assume "k < 4"
  then have "4 * i + k < n" using assms(2) by linarith
  from assms(1) [OF this] show "m' (q + 4 * of_nat i + of_nat k) = m (p + 4 * of_nat i + of_nat k)"
    by (simp add: add.assoc)
qed

section \<open>Refused and unstaged jobs\<close>

lemma slice_call_none [simp]: "slice_call HES_K_NONE a sb ss idx nb = None"
  by (simp add: slice_call_def kernel_ids)

lemma compute_phase_none:
  assumes "active_kernel s = HES_K_NONE"
  shows "compute_phase K cfg idxs s = s"
proof -
  have "fold (\<lambda>idx. run_slice K HES_K_NONE a sb ss idx nb) is m = m" for a sb ss nb "is" m
    by (rule fold_id) (simp add: run_slice_def fun_eq_iff)
  then show ?thesis by (simp add: compute_phase_def assms)
qed

lemma stage_in_mbox:
  "stage_in es hp k as c s = Some (r, s') \<Longrightarrow>
     cs_mbox s' = cs_mbox s \<and> active_kernel s' = active_kernel s \<and> cs_served s' = cs_served s
     \<and> cs_t0 s' = cs_t0 s \<and> scratch_base s' = scratch_base s \<and> scratch_stride s' = scratch_stride s \<and> r \<in> {0, 1}"
  by (auto simp: stage_in_def Let_def dma_wait_def fold_stage_one split: if_splits prod.splits)

lemma reserve_scratch_keeps:
  "reserve_scratch hp k a nb s = (c, s') \<Longrightarrow>
     s' = s\<lparr>scratch_base := scratch_base s', scratch_stride := scratch_stride s'\<rparr>"
  by (auto simp: reserve_scratch_def Let_def split: if_splits)

text \<open>
  Where the operands of a job end when each is put at the next 64-byte boundary, and where the
  first one starts: after the slabs when there are any and they fit, else at the heap. Natural
  numbers, so nothing wraps.
\<close>

definition operands_end :: "nat \<Rightarrow> operand list \<Rightarrow> nat" where
  "operands_end c ps = foldl (\<lambda>c p. (c + 63) div 64 * 64 + unat (op_bytes p)) c ps"

definition scratch_fails :: "heap \<Rightarrow> u32 \<Rightarrow> u32 list \<Rightarrow> u32 \<Rightarrow> bool" where
  "scratch_fails hp k a nb \<longleftrightarrow> plan_scratch k a \<noteq> 0 \<and> unat (heap_end hp) < slabs_end hp k a nb"

definition operands_start :: "heap \<Rightarrow> u32 \<Rightarrow> u32 list \<Rightarrow> u32 \<Rightarrow> nat" where
  "operands_start hp k a nb =
     (if plan_scratch k a = 0 \<or> scratch_fails hp k a nb then unat (align64 (heap_start hp)) else slabs_end hp k a nb)"

text \<open>The job asks for staging, has operands to stage, and they fit.\<close>

definition can_stage :: "heap \<Rightarrow> mailbox \<Rightarrow> u32 \<Rightarrow> bool" where
  "can_stage hp b nb \<longleftrightarrow> mb_flags b AND HES_JOB_STAGE \<noteq> 0 \<and> plan_operands (mb_kernel_id b) (mb_args b) \<noteq> []
     \<and> operands_end (operands_start hp (mb_kernel_id b) (mb_args b) nb) (plan_operands (mb_kernel_id b) (mb_args b))
         \<le> unat (heap_end hp)"

text \<open>The heap is a heap, and no size the cluster adds up in 32 bits wraps.\<close>

definition sizes_fit_u32 :: "heap \<Rightarrow> mailbox \<Rightarrow> u32 \<Rightarrow> bool" where
  "sizes_fit_u32 hp b nb \<longleftrightarrow> heap_start hp \<noteq> 0 \<and> align64 (heap_start hp) \<le> heap_end hp
     \<and> scratch_fits_u32 hp (mb_kernel_id b) (mb_args b) nb
     \<and> no_wrap (heap_end hp) (plan_operands (mb_kernel_id b) (mb_args b))"

lemma operands_end_ge: "c \<le> operands_end c ps"
proof (induction ps arbitrary: c)
  case (Cons p ps)
  have "c \<le> (c + 63) div 64 * 64 + unat (op_bytes p)" by presburger
  also have "\<dots> \<le> operands_end c (p # ps)"
    using Cons [of "(c + 63) div 64 * 64 + unat (op_bytes p)"] by (simp add: operands_end_def)
  finally show ?case .
qed (simp add: operands_end_def)

lemma assign_locals_fits:
  assumes "no_wrap limit ps" and "c \<le> limit"
  shows "fst (assign_locals limit c ps) \<longleftrightarrow> operands_end (unat c) ps \<le> unat limit"
  using assms
proof (induction ps arbitrary: c)
  case Nil
  then show ?case by (simp add: operands_end_def word_le_nat_alt)
next
  case (Cons p ps)
  let ?c = "align64 c"
  have nw: "unat (op_bytes p) + unat limit + 63 < 4294967296" "no_wrap limit ps" and cl: "unat c \<le> unat limit"
    using Cons.prems by (auto simp: no_wrap_def word_le_nat_alt)
  have c63: "unat c + 63 < 4294967296" using nw(1) cl by linarith
  note ua = unat_align64 [OF c63]
  have sum: "unat (?c + op_bytes p) = unat ?c + unat (op_bytes p)"
    by (rule unat_plus_small) (use nw(1) cl align64_ge(2) [OF c63] in linarith)
  have e: "operands_end (unat c) (p # ps) = operands_end (unat (?c + op_bytes p)) ps"
    by (simp add: operands_end_def sum ua)
  show ?case
  proof (cases "limit < ?c + op_bytes p")
    case True
    then have "unat limit < operands_end (unat c) (p # ps)"
      using operands_end_ge [of "unat (?c + op_bytes p)" ps] unfolding e by (simp add: word_less_nat_alt)
    then show ?thesis using True by (simp add: Let_def)
  next
    case False
    then have "?c + op_bytes p \<le> limit" by simp
    from Cons.IH [OF nw(2) this] show ?thesis
      using False unfolding e by (cases "assign_locals limit (?c + op_bytes p) ps") (simp add: Let_def)
  qed
qed

lemma reserve_scratch_reports:
  assumes "reserve_scratch hp k a nb s = (c, s')" and "scratch_fits_u32 hp k a nb" and "heap_start hp \<noteq> 0"
    and "align64 (heap_start hp) \<le> heap_end hp"
  shows "unat c = operands_start hp k a nb" and "c \<le> heap_end hp"
    and "plan_scratch k a \<noteq> 0 \<and> scratch_base s' = 0 \<longleftrightarrow> scratch_fails hp k a nb"
proof -
  note f = slabs_fit_iff [OF assms(2)]
  have "align64 (heap_start hp) \<noteq> 0" using f(3) assms(3) by auto
  then show "unat c = operands_start hp k a nb" "c \<le> heap_end hp"
    "plan_scratch k a \<noteq> 0 \<and> scratch_base s' = 0 \<longleftrightarrow> scratch_fails hp k a nb"
    using assms(1,4) f(1,2) by (auto simp: reserve_scratch_def Let_def operands_start_def scratch_fails_def not_less split: if_splits)
qed

lemma stage_in_reports:
  assumes "stage_in es hp k a c s = Some (r, s')" and "no_wrap (heap_end hp) (plan_operands k a)" and "c \<le> heap_end hp"
  shows "r = (if plan_operands k a \<noteq> [] \<and> operands_end (unat c) (plan_operands k a) \<le> unat (heap_end hp) then 1 else 0)"
  using assms(1) assign_locals_fits [OF assms(2,3)]
  by (auto simp: stage_in_def Let_def split: if_splits prod.splits)

text \<open>The mailbox is the one found, but for the error; in particular \<open>flags\<close> is never cleared.\<close>

lemma ctrl_prepare_mbox:
  "ctrl_prepare es hp cfg now s = Some s' \<Longrightarrow> cs_mbox s' = (cs_mbox s)\<lparr>mb_error := mb_error (cs_mbox s')\<rparr>"
  by (auto simp: ctrl_prepare_def Let_def split: prod.splits option.splits if_splits)

lemma flags_never_cleared: "ctrl_prepare es hp cfg now s = Some s' \<Longrightarrow> mb_flags (cs_mbox s') = mb_flags (cs_mbox s)"
  using ctrl_prepare_mbox [of es hp cfg now s s'] by (metis mailbox.select_convs(10) mailbox.surjective mailbox.update_convs(12))



section \<open>Where a staged job's arguments point\<close>

text \<open>The arguments agree except for the planned buffers.\<close>

definition moved :: "u32 \<Rightarrow> u32 list \<Rightarrow> u32 list \<Rightarrow> bool" where
  "moved k a a' \<longleftrightarrow> length a' = length a
     \<and> (\<forall>j. j \<notin> op_arg ` set (plan_operands k a) \<longrightarrow> a' ! j = a ! j)"

text \<open>Buffer \<open>p\<close> of the arguments \<open>a\<close>.\<close>

definition buffer :: "u32 list \<Rightarrow> operand \<Rightarrow> u32 set" where
  "buffer a p = span (a ! op_arg p) (unat (op_bytes p))"

text \<open>The new buffers are apart from each other and lie in memory that does not wrap.\<close>

definition placed :: "u32 \<Rightarrow> u32 list \<Rightarrow> u32 list \<Rightarrow> bool" where
  "placed k a a' \<longleftrightarrow> moved k a a'
     \<and> (\<forall>p\<in>set (plan_operands k a). \<forall>q\<in>set (plan_operands k a). op_arg p \<noteq> op_arg q \<longrightarrow> buffer a' p \<inter> buffer a' q = {})
     \<and> (\<forall>p\<in>set (plan_operands k a). a' ! op_arg p \<noteq> 0
           \<and> unat (a' ! op_arg p) + unat (op_bytes p) < 4294967296)"

text \<open>Every input buffer of \<open>a'\<close> in \<open>m'\<close> is a copy of that of \<open>a\<close> in \<open>m\<close>.\<close>

definition inputs_copied :: "u32 \<Rightarrow> u32 list \<Rightarrow> mem \<Rightarrow> u32 list \<Rightarrow> mem \<Rightarrow> bool" where
  "inputs_copied k a m a' m' \<longleftrightarrow>
     (\<forall>p\<in>set (plan_operands k a). \<not> op_is_output p \<longrightarrow>
        (\<forall>i<unat (op_bytes p). m' (a' ! op_arg p + of_nat i) = m (a ! op_arg p + of_nat i)))"

section \<open>Preparing a staged job\<close>

text \<open>The job in the mailbox asks for staging, and staging can be done.\<close>

definition stageable :: "heap \<Rightarrow> u32 \<Rightarrow> cstate \<Rightarrow> operand list \<Rightarrow> dma_event list \<Rightarrow> bool" where
  "stageable hp k s qs es \<longleftrightarrow>
     (let b = cs_mbox s; a = mb_args b; cursor = align64 (heap_start hp)
      in mb_kernel_id b = k \<and> mb_flags b AND HES_JOB_STAGE \<noteq> 0 \<and> length a = 16
       \<and> plan_operands k a \<noteq> [] \<and> cursor \<noteq> 0
       \<and> assign_locals (heap_end hp) cursor (plan_operands k a) = (True, qs)
       \<and> staging_pre hp cursor a (plan_operands k a)
       \<and> d_pending (cs_dma s) = [] \<and> length (plan_operands k a) \<le> completions es)"

lemma ctrl_prepare_staged:
  assumes st: "stageable hp k s qs es" and k: "k \<noteq> HES_K_MFCC_FP32"
  shows "ctrl_prepare es hp cfg now s = Some (s\<lparr>cs_served := mb_seq (cs_mbox s), cs_t0 := now, active_kernel := k,
      active_args := repoint qs (mb_args (cs_mbox s)), scratch_base := 0, scratch_stride := 0, cs_ops := qs, cs_staged := 1,
      cs_dma := (stage_dma (mb_args (cs_mbox s)) qs (cs_dma s))\<lparr>d_pending := []\<rparr>,
      cs_mem := run_batch (in_copies (mb_args (cs_mbox s)) qs) (cs_mem s),
      cs_mbox := (cs_mbox s)\<lparr>mb_error := 0\<rparr>\<rparr>)"
proof -
  define b where "b = cs_mbox s"
  define s2 where "s2 = s\<lparr>cs_served := mb_seq b, cs_t0 := now, active_kernel := mb_kernel_id b,
                 active_args := mb_args b, cs_staged := 0, cs_ops := [], scratch_base := 0, scratch_stride := 0\<rparr>"
  have kb: "mb_kernel_id b = k" and fl: "mb_flags b AND HES_JOB_STAGE \<noteq> 0" and ne: "plan_operands k (mb_args b) \<noteq> []"
    and al: "assign_locals (heap_end hp) (align64 (heap_start hp)) (plan_operands k (mb_args b)) = (True, qs)"
    and pre: "staging_pre hp (align64 (heap_start hp)) (mb_args b) (plan_operands k (mb_args b))"
    and idle: "d_pending (cs_dma s2) = []" and len: "length (plan_operands k (mb_args b)) \<le> completions es"
    using st by (simp_all add: stageable_def Let_def b_def s2_def)
  have ps: "plan_scratch k x = 0" for x using k by (simp add: plan_scratch_def)
  have rs: "reserve_scratch hp k (mb_args b) n (s\<lparr>cs_served := mb_seq b, cs_t0 := now, active_kernel := mb_kernel_id b,
                 active_args := mb_args b, cs_staged := 0, cs_ops := []\<rparr>) = (align64 (heap_start hp), s2)" for n
    by (simp add: reserve_scratch_def ps s2_def)
  note si = stage_in_result [OF ne al pre idle len]
  show ?thesis
    unfolding ctrl_prepare_def Let_def b_def [symmetric]
    using fl by (simp add: kb rs [unfolded kb] ps si [unfolded s2_def kb] s2_def b_def [symmetric])
qed

lemma repoint_placed:
  assumes st: "stageable hp k s qs es"
  shows "placed k (mb_args (cs_mbox s)) (repoint qs (mb_args (cs_mbox s)))"
    and "\<forall>q\<in>set qs. repoint qs (mb_args (cs_mbox s)) ! op_arg q = op_local q"
proof -
  let ?a = "mb_args (cs_mbox s)" and ?ps = "plan_operands k (mb_args (cs_mbox s))"
  let ?c = "align64 (heap_start hp)" and ?a' = "repoint qs (mb_args (cs_mbox s))"
  have al: "assign_locals (heap_end hp) ?c ?ps = (True, qs)" and pre: "staging_pre hp ?c ?a ?ps"
    and len: "length ?a = 16" and c0: "?c \<noteq> 0"
    using st by (simp_all add: stageable_def Let_def)
  have c: "?c \<le> heap_end hp" and nw: "no_wrap (heap_end hp) ?ps" using pre by (auto simp: staging_pre_def)
  note sound = assign_locals_sound [OF al c nw] and shape = assign_locals_shape [OF al]
  have dist: "distinct (map op_arg qs)" using shape plan_args_distinct by simp
  have img: "op_arg ` set qs = op_arg ` set ?ps" using shape by (metis list.set_map)
  have orig: "\<exists>q\<in>set qs. op_arg q = op_arg p \<and> op_bytes q = op_bytes p" if "p \<in> set ?ps" for p
    using shape_image [of ?ps qs p] shape that by metis
  show ptr: "\<forall>q\<in>set qs. ?a' ! op_arg q = op_local q"
  proof
    fix q assume q: "q \<in> set qs"
    then obtain p where "p \<in> set ?ps" "op_arg p = op_arg q" using img by (metis imageE imageI)
    then have "op_arg q < length ?a" using plan_arg_lt len by metis
    then show "?a' ! op_arg q = op_local q" by (rule repoint_at [OF dist q])
  qed
  have loc: "?a' ! op_arg p \<noteq> 0 \<and> unat (?a' ! op_arg p) + unat (op_bytes p) < 4294967296" if pin: "p \<in> set ?ps" for p
  proof -
    obtain q where q: "q \<in> set qs" "op_arg q = op_arg p" "op_bytes q = op_bytes p" using orig [OF pin] by blast
    have b: "unat ?c \<le> unat (op_local q)" "unat (op_local q) + unat (op_bytes q) \<le> unat (heap_end hp)"
      using sound q(1) by blast+
    have "0 < unat ?c" using c0 by (simp add: unat_gt_0)
    then have "unat (op_local q) \<noteq> 0" using b(1) by linarith
    then have "op_local q \<noteq> 0" by (metis unat_0)
    moreover have "unat (op_local q) + unat (op_bytes q) < 4294967296" using b(2) unat_u32_lt [of "heap_end hp"] by linarith
    ultimately show ?thesis using ptr q by metis
  qed
  have dis: "buffer ?a' p \<inter> buffer ?a' p' = {}" if pin: "p \<in> set ?ps" "p' \<in> set ?ps" and ne: "op_arg p \<noteq> op_arg p'" for p p'
  proof -
    obtain q q' where q: "q \<in> set qs" "op_arg q = op_arg p" "op_bytes q = op_bytes p"
      "q' \<in> set qs" "op_arg q' = op_arg p'" "op_bytes q' = op_bytes p'" using orig [OF pin(1)] orig [OF pin(2)] by metis
    have "q \<noteq> q'" using q ne by auto
    then have "local_span q \<inter> local_span q' = {}"
      using sorted_wrt_pair [OF local_spans_disjoint [OF al c nw] q(1,4)] q ne by auto
    moreover have "?a' ! op_arg p = op_local q" "?a' ! op_arg p' = op_local q'" using ptr q by metis+
    ultimately show ?thesis using q by (simp add: buffer_def local_span_def)
  qed
  show "placed k ?a ?a'"
    unfolding placed_def moved_def using loc dis repoint_other [of _ qs ?a] img by simp
qed

lemma repoint_copied:
  assumes st: "stageable hp k s qs es"
  shows "inputs_copied k (mb_args (cs_mbox s)) (cs_mem s) (repoint qs (mb_args (cs_mbox s)))
    (run_batch (in_copies (mb_args (cs_mbox s)) qs) (cs_mem s))"
  unfolding inputs_copied_def
proof (intro ballI impI allI)
  let ?a = "mb_args (cs_mbox s)" and ?ps = "plan_operands k (mb_args (cs_mbox s))" and ?c = "align64 (heap_start hp)"
  fix p i assume p: "p \<in> set ?ps" "\<not> op_is_output p" "i < unat (op_bytes p)"
  have al: "assign_locals (heap_end hp) ?c ?ps = (True, qs)" and pre: "staging_pre hp ?c ?a ?ps"
    using st by (simp_all add: stageable_def Let_def)
  obtain q where q: "q \<in> set qs" "op_arg q = op_arg p" "op_bytes q = op_bytes p" "op_is_output q = op_is_output p"
    using shape_image [of ?ps qs p] assign_locals_shape [OF al] p(1) by metis
  have "(op_local q, ?a ! op_arg q, op_bytes q) \<in> set (in_copies ?a qs)" using q p(2) by (auto simp: in_copies_def)
  from run_batch_inside [OF in_copies_batch [OF al pre] this] p(3) q
  have "run_batch (in_copies ?a qs) (cs_mem s) (op_local q + of_nat i) = cs_mem s (?a ! op_arg q + of_nat i)" by simp
  then show "run_batch (in_copies ?a qs) (cs_mem s) (repoint qs ?a ! op_arg p + of_nat i) = cs_mem s (?a ! op_arg p + of_nat i)"
    using repoint_placed(2) [OF st] q by metis
qed

text \<open>
  What a kernel that can be staged promises beyond slicing: it needs no scratch, its one
  output is the array it stores to, whose size the plan knows, it accepts any placement of
  its buffers, and its values move with them.
\<close>

locale staged_job = sliced_job +
  fixes K :: "kcall \<Rightarrow> mem \<Rightarrow> mem" and kid :: u32 and sok :: "u32 \<Rightarrow> u32 list \<Rightarrow> bool" and y :: nat
  assumes act_slice: "act nb a i = run_slice K kid a sb ss (of_nat i) nb"
    and no_scratch: "kid \<noteq> HES_K_MFCC_FP32" and real: "kid \<noteq> HES_K_NONE"
    and one_output: "sok nb a \<Longrightarrow> \<exists>p. filter op_is_output (plan_operands kid a) = [p] \<and> op_arg p = y
        \<and> unat (op_bytes p) = 4 * total a \<and> out a = a ! y \<and> 4 * total a < 4294967296"
    and placeable: "sok nb a \<Longrightarrow> placed kid a a' \<Longrightarrow> ok nb a' \<and> total a' = total a \<and> out a' = a' ! y"
    and moves: "sok nb a \<Longrightarrow> placed kid a a' \<Longrightarrow> inputs_copied kid a m a' m' \<Longrightarrow> e < total a
        \<Longrightarrow> val a' m' e = val a m e"
begin

lemma compute_staged:
  assumes "sok nb a" and "placed kid a a'" and "active_args s = a'" and "active_kernel s = kid"
    and "my_nb_compute cfg = nb" and "mset js = mset [0..<unat nb]" and "inputs_copied kid a m a' (cs_mem s)"
  shows "cs_mem (compute_phase K cfg (map of_nat js) s) = outs (a' ! y) (val a m) [0..<total a] (cs_mem s)"
proof -
  note p = placeable [OF assms(1,2)]
  have "cs_mem (compute_phase K cfg (map of_nat js) s) = fold (act nb a') js (cs_mem s)"
    unfolding compute_phase_fold assms(3-5)
    by (rule fold_same) (simp add: act_slice [of nb a' _ "scratch_base s" "scratch_stride s"])
  also have "\<dots> = outs (out a') (val a' (cs_mem s)) [0..<total a'] (cs_mem s)"
    using p assms(6) by (intro any_order) auto
  also have "\<dots> = outs (a' ! y) (val a m) [0..<total a] (cs_mem s)"
    using p moves [OF assms(1,2,7)] by (auto intro: outs_cong)
  finally show ?thesis .
qed

lemma serve_staged:
  assumes sok: "sok (my_nb_compute cfg) (mb_args (cs_mbox s))" and st: "stageable hp kid s qs es1"
    and es2: "1 \<le> completions es2" and perm: "mset js = mset [0..<unat (my_nb_compute cfg)]"
  shows "\<exists>s'. serve_job K hp cfg es1 es2 (map of_nat js) now1 now2 s = Some s'
    \<and> cs_mbox s' = (cs_mbox s)\<lparr>mb_error := 0, mb_cycles := now2 - now1, mb_staged := 1,
         mb_nb_cores := my_nb_compute cfg, mb_done_seq := mb_seq (cs_mbox s)\<rparr>
    \<and> d_pending (cs_dma s') = []
    \<and> (\<forall>x. x \<notin> area (align64 (heap_start hp)) (heap_end hp) \<longrightarrow>
         cs_mem s' x = outs (out (mb_args (cs_mbox s))) (val (mb_args (cs_mbox s)) (cs_mem s))
           [0..<total (mb_args (cs_mbox s))] (cs_mem s) x)"
proof -
  let ?a = "mb_args (cs_mbox s)" and ?a' = "repoint qs (mb_args (cs_mbox s))" and ?ps = "plan_operands kid (mb_args (cs_mbox s))"
  let ?c = "align64 (heap_start hp)" and ?m = "cs_mem s" and ?n = "total (mb_args (cs_mbox s))"
  let ?v = "val ?a ?m" and ?A = "area (align64 (heap_start hp)) (heap_end hp)"
  define m1 where "m1 = run_batch (in_copies ?a qs) ?m"
  define s1 where "s1 = s\<lparr>cs_served := mb_seq (cs_mbox s), cs_t0 := now1, active_kernel := kid,
      active_args := ?a', scratch_base := 0, scratch_stride := 0, cs_ops := qs, cs_staged := 1,
      cs_dma := (stage_dma ?a qs (cs_dma s))\<lparr>d_pending := []\<rparr>, cs_mem := m1,
      cs_mbox := (cs_mbox s)\<lparr>mb_error := 0\<rparr>\<rparr>"
  have prep: "ctrl_prepare es1 hp cfg now1 s = Some s1"
    unfolding s1_def m1_def by (rule ctrl_prepare_staged [OF st no_scratch])
  define s2 where "s2 = compute_phase K cfg (map of_nat js) s1"
  have m2: "cs_mem s2 = outs (?a' ! y) ?v [0..<?n] m1"
  proof -
    have ic: "inputs_copied kid ?a ?m ?a' (cs_mem s1)" using repoint_copied [OF st] by (simp add: s1_def m1_def)
    have "active_args s1 = ?a'" "active_kernel s1 = kid" "cs_mem s1 = m1" by (simp_all add: s1_def)
    with compute_staged [OF sok repoint_placed(1) [OF st] this(1,2) refl perm ic] show ?thesis
      by (simp only: s2_def)
  qed
  have s2: "cs_ops s2 = qs" "d_pending (cs_dma s2) = []" "cs_staged s2 = 1" "cs_mbox s2 = (cs_mbox s)\<lparr>mb_error := 0\<rparr>"
    "cs_served s2 = mb_seq (cs_mbox s)" "cs_t0 s2 = now1"
    by (simp_all add: s2_def compute_phase_def s1_def)
  have al: "assign_locals (heap_end hp) ?c ?ps = (True, qs)" and pre: "staging_pre hp ?c ?a ?ps"
    using st by (simp_all add: stageable_def Let_def)
  have c: "?c \<le> heap_end hp" and nw: "no_wrap (heap_end hp) ?ps" using pre by (auto simp: staging_pre_def)
  have loc: "local_span q \<subseteq> ?A" if "q \<in> set qs" for q by (rule assign_locals_area [OF al c nw that])
  obtain p where p: "filter op_is_output ?ps = [p]" "op_arg p = y" "unat (op_bytes p) = 4 * ?n"
    "out ?a = ?a ! y" "4 * ?n < 4294967296" using one_output [OF sok] by blast
  note shape = assign_locals_shape [OF al]
  have outq: "op_arg q = y \<and> unat (op_bytes q) = 4 * ?n" if qin: "q \<in> set qs" "op_is_output q" for q
  proof -
    obtain r where r: "r \<in> set ?ps" "op_arg r = op_arg q" "op_bytes r = op_bytes q" "op_is_output r = op_is_output q"
      using shape_image [of qs ?ps q] shape qin(1) by metis
    then have "r \<in> set (filter op_is_output ?ps)" using qin(2) by simp
    then show ?thesis using p r by simp
  qed
  have pin: "p \<in> set ?ps" "op_is_output p"
  proof -
    have "p \<in> set (filter op_is_output ?ps)" using p(1) by simp
    then show "p \<in> set ?ps" "op_is_output p" by simp_all
  qed
  obtain q where q: "q \<in> set qs" "op_arg q = y" "op_bytes q = op_bytes p" "op_is_output q"
    using shape_image [of ?ps qs p] shape pin p(2) by metis
  have qn: "unat (op_bytes q) = 4 * ?n" using q(3) p(3) by simp
  have home: "span (?a ! y) (4 * ?n) \<inter> ?A = {}"
    using pre pin(1) p(2,3) unfolding staging_pre_def by metis
  have sep: "\<forall>q\<in>set (cs_ops s2). op_is_output q \<longrightarrow> span (?a ! op_arg q) (unat (op_bytes q)) \<inter> local_span q = {}"
    unfolding s2(1)
  proof (intro ballI impI)
    fix r assume r: "r \<in> set qs" "op_is_output r"
    have "span (?a ! op_arg r) (unat (op_bytes r)) = span (?a ! y) (4 * ?n)" using outq [OF r] by simp
    then show "span (?a ! op_arg r) (unat (op_bytes r)) \<inter> local_span r = {}" using loc [OF r(1)] home by blast
  qed
  have shapeo: "length (filter op_is_output (cs_ops s2)) \<le> 1"
  proof -
    have "length (filter op_is_output qs) = length (filter id (map op_is_output qs))" by (simp add: filter_map)
    also have "\<dots> = length (filter op_is_output ?ps)" using shape by (simp add: filter_map)
    finally show ?thesis using p(1) by (simp add: s2(1))
  qed
  note b = one_output_batch [OF shapeo sep]
  let ?oc = "out_copies ?a (cs_ops s2)"
  have len: "length ?oc \<le> completions es2" using b(2) es2 by linarith
  define m3 where "m3 = run_batch ?oc (cs_mem s2)"
  note so = stage_out_result [OF b(1) s2(2) len]
  let ?s3 = "(s2\<lparr>cs_dma := (fold (\<lambda>(dst, src, n) d. snd (hes_dma_copy dst src n d)) ?oc (cs_dma s2))\<lparr>d_pending := []\<rparr>,
     cs_mem := m3\<rparr>)\<lparr>cs_mbox := (cs_mbox s2)\<lparr>mb_cycles := now2 - now1, mb_staged := 1,
           mb_nb_cores := my_nb_compute cfg, mb_done_seq := mb_seq (cs_mbox s)\<rparr>\<rparr>"
  have margs: "mb_args (cs_mbox s2) = ?a" by (simp add: s2(4))
  have fin: "serve_job K hp cfg es1 es2 (map of_nat js) now1 now2 s = Some ?s3"
    unfolding serve_job_def prep bind.bind_lunit s2_def [symmetric] ctrl_finish_def margs so m3_def
    by (simp add: s2)
  have inside: "m3 (?a ! y + of_nat k) = outs (?a ! y) ?v [0..<?n] ?m (?a ! y + of_nat k)" if k: "k < 4 * ?n" for k
  proof -
    have "(?a ! op_arg q, op_local q, op_bytes q) \<in> set ?oc" using q by (auto simp: out_copies_def s2(1))
    from run_batch_inside [OF b(1) this, of k "cs_mem s2"] k qn q(2)
    have "m3 (?a ! y + of_nat k) = cs_mem s2 (op_local q + of_nat k)" by (simp add: m3_def)
    also have "op_local q = ?a' ! y" using repoint_placed(2) [OF st] q(1,2) by metis
    also have "cs_mem s2 (?a' ! y + of_nat k) = ucast (drop_bit (8 * (k mod 4)) (?v (k div 4)))"
      unfolding m2 by (rule outs_byte) (use p(5) k in simp_all)
    also have "\<dots> = outs (?a ! y) ?v [0..<?n] ?m (?a ! y + of_nat k)"
      by (rule outs_byte [symmetric]) (use p(5) k in simp_all)
    finally show ?thesis .
  qed
  have outside: "m3 x = ?m x" if "x \<notin> ?A" "x \<notin> span (?a ! y) (4 * ?n)" for x
  proof -
    have "m3 x = cs_mem s2 x" unfolding m3_def
      by (rule run_batch_outside) (use outq that(2) in \<open>auto simp: out_copies_def s2(1)\<close>)
    also have "\<dots> = m1 x" unfolding m2
    proof (rule outs_outside)
      have "local_span q = span (?a' ! y) (4 * ?n)" using repoint_placed(2) [OF st] q qn by (metis local_span_def)
      then show "x \<notin> span (?a' ! y) (4 * ?n)" using loc [OF q(1)] that(1) by blast
    qed auto
    also have "\<dots> = ?m x" unfolding m1_def
      by (rule run_batch_outside) (use loc that(1) in \<open>auto simp: in_copies_def local_span_def\<close>)
    finally show ?thesis .
  qed
  have "m3 x = outs (out ?a) ?v [0..<?n] ?m x" if x: "x \<notin> ?A" for x
  proof (cases "x \<in> span (?a ! y) (4 * ?n)")
    case True
    then obtain k where "k < 4 * ?n" "x = ?a ! y + of_nat k" by (auto simp: span_def)
    then show ?thesis using inside p(4) by simp
  next
    case False
    then have "outs (out ?a) ?v [0..<?n] ?m x = ?m x" unfolding p(4) by (intro outs_outside) auto
    then show ?thesis using outside x False by simp
  qed
  then show ?thesis unfolding fin by (simp add: s2(4))
qed

end

section \<open>The kernels can be staged\<close>

lemma run_slice_scratch: "kid \<noteq> HES_K_MFCC_FP32 \<Longrightarrow> run_slice K kid a sb ss idx nb = run_slice K kid a sb' ss' idx nb"
proof -
  assume k: "kid \<noteq> HES_K_MFCC_FP32"
  have "slice_call kid a sb ss idx nb = slice_call kid a sb' ss' idx nb"
    unfolding slice_call_def Let_def by (simp only: k if_False)
  then show ?thesis by (intro ext) (simp only: run_slice_def)
qed

lemma u32_mult4: "4 * (unat a * unat b) < 4294967296 \<Longrightarrow> unat (a * b * sizeof_float32) = 4 * (unat a * unat b)"
  by (simp add: unat_mult_small sizeof_float32_def)

text \<open>A matrix kernel's values, when its operands have moved.\<close>

lemma la_moved:
  assumes "\<And>x. x < unat M * unat N \<Longrightarrow> ld32 m' (A' + 4 * of_nat x) = ld32 m (A + 4 * of_nat x)"
    and "i < unat M" "k < unat N"
  shows "la m' A' M N tA i k = la m A M N tA i k"
proof -
  have e: "elem P (a_index M N tA (of_nat i) (of_nat k)) = P + 4 * of_nat (if tA \<noteq> 0 then k * unat M + i else i * unat N + k)" for P
    by (simp add: a_index_def elem_def)
  have "(if tA \<noteq> 0 then k * unat M + i else i * unat N + k) < unat M * unat N"
    using index_lt [OF assms(2,3)] index_lt' [OF assms(3,2)] by auto
  then show ?thesis unfolding la_def e by (rule assms(1))
qed

lemma lb_moved:
  assumes "\<And>x. x < unat N * unat O' \<Longrightarrow> ld32 m' (B' + 4 * of_nat x) = ld32 m (B + 4 * of_nat x)"
    and "j < unat O'" "k < unat N"
  shows "lb m' B' N O' tB j k = lb m B N O' tB j k"
proof -
  have e: "elem P (b_index N O' tB (of_nat j) (of_nat k)) = P + 4 * of_nat (if tB \<noteq> 0 then j * unat N + k else k * unat O' + j)" for P
    by (simp add: b_index_def elem_def)
  have "(if tB \<noteq> 0 then j * unat N + k else k * unat O' + j) < unat N * unat O'"
    using index_lt [OF assms(3,2)] index_lt' [OF assms(2,3)] by auto
  then show ?thesis unfolding lb_def e by (rule assms(1))
qed

lemma kernel_val_moved:
  assumes A: "\<And>x. x < unat M * unat N \<Longrightarrow> ld32 m' (A' + 4 * of_nat x) = ld32 m (A + 4 * of_nat x)"
    and B: "\<And>x. x < unat N * unat O' \<Longrightarrow> ld32 m' (B' + 4 * of_nat x) = ld32 m (B + 4 * of_nat x)"
    and C: "(C' = 0) = (C = 0)" "\<And>x. C \<noteq> 0 \<Longrightarrow> x < unat M * unat O' \<Longrightarrow> ld32 m' (C' + 4 * of_nat x) = ld32 m (C + 4 * of_nat x)"
    and e: "e < unat M * unat O'"
  shows "rows O' (kernel_val fp A' B' C' M N O' tA tB m') e = rows O' (kernel_val fp A B C M N O' tA tB m) e"
proof -
  let ?i = "e div unat O'" and ?j = "e mod unat O'"
  have i: "?i < unat M" using e by (simp add: less_mult_imp_div_less)
  have "unat O' \<noteq> 0" using e by (metis mult_0_right not_less_zero)
  then have j: "?j < unat O'" by simp
  have mac: "fold (\<lambda>k s. mac fp s (la m' A' M N tA ?i k) (lb m' B' N O' tB ?j k)) [0..<unat N] c
      = fold (\<lambda>k s. mac fp s (la m A M N tA ?i k) (lb m B N O' tB ?j k)) [0..<unat N] c" for c
    by (rule fold_same) (simp add: la_moved [OF A i] lb_moved [OF B j])
  have fma: "fold (\<lambda>k s. f_madd fp (la m' A' M N tA ?i k) (lb m' B' N O' tB ?j k) s) [0..<unat N] c
      = fold (\<lambda>k s. f_madd fp (la m A M N tA ?i k) (lb m B N O' tB ?j k) s) [0..<unat N] c" for c
    by (rule fold_same) (simp add: la_moved [OF A i] lb_moved [OF B j])
  have c: "C \<noteq> 0 \<Longrightarrow> ld32 m' (C' + 4 * of_nat (?i * unat O' + ?j)) = ld32 m (C + 4 * of_nat (?i * unat O' + ?j))"
    using C(2) index_lt [OF i j] by blast
  have s: "scalar_val fp A' B' C' M N O' tA tB m' ?i ?j = scalar_val fp A B C M N O' tA tB m ?i ?j"
    unfolding scalar_val_def Let_def mac by (cases "C = 0") (simp_all only: C(1) c simp_thms if_True if_False)
  have b: "block_val fp A' B' C' M N O' tA tB m' ?i ?j = block_val fp A B C M N O' tA tB m ?i ?j"
    unfolding block_val_def fma by (cases "C = 0") (simp_all only: C(1) c simp_thms if_True if_False)
  show ?thesis
    unfolding rows_def kernel_val_def
    by (cases "N = 0 \<or> O' < UNROLL") (simp_all only: ssr_val_def s b if_True if_False)
qed

text \<open>A planned input of \<open>n\<close> words reads the same where it was copied to.\<close>

lemma copied_words:
  assumes "inputs_copied k a m a' m'" and "p \<in> set (plan_operands k a)" "\<not> op_is_output p"
    and "unat (op_bytes p) = 4 * n" and "x < n"
  shows "ld32 m' (a' ! op_arg p + 4 * of_nat x) = ld32 m (a ! op_arg p + 4 * of_nat x)"
proof (rule ld32_elem_copied)
  show "m' (a' ! op_arg p + of_nat i) = m (a ! op_arg p + of_nat i)" if "i < 4 * n" for i
    using assms that unfolding inputs_copied_def by metis
  show "4 * x + 4 \<le> 4 * n" using assms(5) by simp
qed

definition matmul_sok :: "'a fpu_scheme \<Rightarrow> deeploy \<Rightarrow> ssrs \<Rightarrow> u32 \<Rightarrow> u32 list \<Rightarrow> bool" where
  "matmul_sok fp dl S nb a \<longleftrightarrow> nb \<noteq> 0 \<and> deeploy_ok fp dl \<and> ssrs_ready S
     \<and> 4 * (unat (a ! HES_MM_M) * unat (a ! HES_MM_N)) < 4294967296
     \<and> 4 * (unat (a ! HES_MM_N) * unat (a ! HES_MM_O)) < 4294967296
     \<and> 4 * (unat (a ! HES_MM_M) * unat (a ! HES_MM_O)) < 4294967296"

lemma matmul_plan:
  "plan_operands HES_K_MATMUL_FP32 a =
    [\<lparr>op_arg = HES_MM_A, op_is_output = False, op_bytes = a ! HES_MM_M * a ! HES_MM_N * sizeof_float32, op_local = 0\<rparr>,
     \<lparr>op_arg = HES_MM_B, op_is_output = False, op_bytes = a ! HES_MM_N * a ! HES_MM_O * sizeof_float32, op_local = 0\<rparr>,
     \<lparr>op_arg = HES_MM_Y, op_is_output = True, op_bytes = a ! HES_MM_M * a ! HES_MM_O * sizeof_float32, op_local = 0\<rparr>]"
  by (simp add: plan_operands_def op_add_def Let_def)

lemma matmul_moved:
  assumes "moved HES_K_MATMUL_FP32 a a'"
  shows "a' ! HES_MM_M = a ! HES_MM_M" "a' ! HES_MM_N = a ! HES_MM_N" "a' ! HES_MM_O = a ! HES_MM_O"
  using assms by (simp_all add: moved_def matmul_plan job_arg)

interpretation matmul_staged: staged_job "matmul_ok fp dl S"
  "\<lambda>nb a i. run_slice (snitch_kernels fp dl mf S) HES_K_MATMUL_FP32 a sb ss (of_nat i) nb"
  matmul_part matmul_total "\<lambda>a. a ! HES_MM_Y" "matmul_val fp" "snitch_kernels fp dl mf S"
  HES_K_MATMUL_FP32 "matmul_sok fp dl S" HES_MM_Y for fp dl S mf sb ss
proof unfold_locales
  show "HES_K_MATMUL_FP32 \<noteq> HES_K_MFCC_FP32" "HES_K_MATMUL_FP32 \<noteq> HES_K_NONE" by (simp_all add: kernel_ids)
  then show "run_slice (snitch_kernels fp dl mf S) HES_K_MATMUL_FP32 a sb ss (of_nat i) nb
    = run_slice (snitch_kernels fp dl mf S) HES_K_MATMUL_FP32 a sba ssa (of_nat i) nb" for a i nb sba ssa
    by (intro run_slice_scratch)
next
  fix nb a assume sok: "matmul_sok fp dl S nb a"
  show "\<exists>p. filter op_is_output (plan_operands HES_K_MATMUL_FP32 a) = [p] \<and> op_arg p = HES_MM_Y
      \<and> unat (op_bytes p) = 4 * matmul_total a \<and> a ! HES_MM_Y = a ! HES_MM_Y \<and> 4 * matmul_total a < 4294967296"
    using sok by (simp add: matmul_plan matmul_total_def matmul_sok_def u32_mult4)
next
  fix nb a a' assume sok: "matmul_sok fp dl S nb a" and pl: "placed HES_K_MATMUL_FP32 a a'"
  note sc = matmul_moved [OF conjunct1 [OF pl [unfolded placed_def]]]
  have szs: "unat (a ! HES_MM_M * a ! HES_MM_N * sizeof_float32) = 4 * (unat (a ! HES_MM_M) * unat (a ! HES_MM_N))"
    "unat (a ! HES_MM_N * a ! HES_MM_O * sizeof_float32) = 4 * (unat (a ! HES_MM_N) * unat (a ! HES_MM_O))"
    "unat (a ! HES_MM_M * a ! HES_MM_O * sizeof_float32) = 4 * (unat (a ! HES_MM_M) * unat (a ! HES_MM_O))"
    using sok by (simp_all add: matmul_sok_def u32_mult4)
  have "gemm_sep (a' ! HES_MM_A) (a' ! HES_MM_B) 0 (a' ! HES_MM_Y) (a ! HES_MM_M) (a ! HES_MM_N) (a ! HES_MM_O)"
    using pl by (simp add: placed_def matmul_plan buffer_def szs [unfolded job_arg] job_arg gemm_sep_def)
  then show "matmul_ok fp dl S nb a' \<and> matmul_total a' = matmul_total a \<and> a' ! HES_MM_Y = a' ! HES_MM_Y"
    using sok by (simp add: matmul_ok_def matmul_total_def sc matmul_sok_def)
next
  fix nb a a' m m' e
  assume sok: "matmul_sok fp dl S nb a" and pl: "placed HES_K_MATMUL_FP32 a a'"
    and cp: "inputs_copied HES_K_MATMUL_FP32 a m a' m'" and e: "e < matmul_total a"
  note sc = matmul_moved [OF conjunct1 [OF pl [unfolded placed_def]]]
  have A: "ld32 m' (a' ! HES_MM_A + 4 * of_nat x) = ld32 m (a ! HES_MM_A + 4 * of_nat x)"
    if "x < unat (a ! HES_MM_M) * unat (a ! HES_MM_N)" for x
    using copied_words [OF cp, of "plan_operands HES_K_MATMUL_FP32 a ! 0" "unat (a ! HES_MM_M) * unat (a ! HES_MM_N)" x]
      that sok by (simp add: matmul_plan matmul_sok_def u32_mult4)
  have B: "ld32 m' (a' ! HES_MM_B + 4 * of_nat x) = ld32 m (a ! HES_MM_B + 4 * of_nat x)"
    if "x < unat (a ! HES_MM_N) * unat (a ! HES_MM_O)" for x
    using copied_words [OF cp, of "plan_operands HES_K_MATMUL_FP32 a ! 1" "unat (a ! HES_MM_N) * unat (a ! HES_MM_O)" x]
      that sok by (simp add: matmul_plan matmul_sok_def u32_mult4)
  show "matmul_val fp a' m' e = matmul_val fp a m e"
    unfolding matmul_val_def sc
    by (rule kernel_val_moved) (use A B e in \<open>simp_all add: matmul_total_def\<close>)
qed

definition gemm_sok :: "'a fpu_scheme \<Rightarrow> deeploy \<Rightarrow> ssrs \<Rightarrow> u32 \<Rightarrow> u32 list \<Rightarrow> bool" where
  "gemm_sok fp dl S nb a \<longleftrightarrow> nb \<noteq> 0 \<and> deeploy_ok fp dl \<and> ssrs_ready S \<and> a ! HES_GEMM_C \<noteq> 0
     \<and> 4 * (unat (a ! HES_GEMM_M) * unat (a ! HES_GEMM_N)) < 4294967296
     \<and> 4 * (unat (a ! HES_GEMM_N) * unat (a ! HES_GEMM_O)) < 4294967296
     \<and> 4 * (unat (a ! HES_GEMM_M) * unat (a ! HES_GEMM_O)) < 4294967296"

lemma gemm_plan:
  "plan_operands HES_K_GEMM_FP32 a =
    [\<lparr>op_arg = HES_GEMM_A, op_is_output = False, op_bytes = a ! HES_GEMM_M * a ! HES_GEMM_N * sizeof_float32, op_local = 0\<rparr>,
     \<lparr>op_arg = HES_GEMM_B, op_is_output = False, op_bytes = a ! HES_GEMM_N * a ! HES_GEMM_O * sizeof_float32, op_local = 0\<rparr>,
     \<lparr>op_arg = HES_GEMM_C, op_is_output = False, op_bytes = a ! HES_GEMM_M * a ! HES_GEMM_O * sizeof_float32, op_local = 0\<rparr>,
     \<lparr>op_arg = HES_GEMM_Y, op_is_output = True, op_bytes = a ! HES_GEMM_M * a ! HES_GEMM_O * sizeof_float32, op_local = 0\<rparr>]"
  by (simp add: plan_operands_def op_add_def Let_def kernel_ids)

lemma gemm_moved:
  assumes "moved HES_K_GEMM_FP32 a a'"
  shows "a' ! HES_GEMM_M = a ! HES_GEMM_M" "a' ! HES_GEMM_N = a ! HES_GEMM_N" "a' ! HES_GEMM_O = a ! HES_GEMM_O"
    "a' ! HES_GEMM_TRANSA = a ! HES_GEMM_TRANSA" "a' ! HES_GEMM_TRANSB = a ! HES_GEMM_TRANSB"
  using assms by (simp_all add: moved_def gemm_plan job_arg)

interpretation gemm_staged: staged_job "gemm_ok fp dl S"
  "\<lambda>nb a i. run_slice (snitch_kernels fp dl mf S) HES_K_GEMM_FP32 a sb ss (of_nat i) nb"
  gemm_part gemm_total "\<lambda>a. a ! HES_GEMM_Y" "gemm_job_val fp" "snitch_kernels fp dl mf S"
  HES_K_GEMM_FP32 "gemm_sok fp dl S" HES_GEMM_Y for fp dl S mf sb ss
proof unfold_locales
  show "HES_K_GEMM_FP32 \<noteq> HES_K_MFCC_FP32" "HES_K_GEMM_FP32 \<noteq> HES_K_NONE" by (simp_all add: kernel_ids)
  then show "run_slice (snitch_kernels fp dl mf S) HES_K_GEMM_FP32 a sb ss (of_nat i) nb
    = run_slice (snitch_kernels fp dl mf S) HES_K_GEMM_FP32 a sba ssa (of_nat i) nb" for a i nb sba ssa
    by (intro run_slice_scratch)
next
  fix nb a assume sok: "gemm_sok fp dl S nb a"
  show "\<exists>p. filter op_is_output (plan_operands HES_K_GEMM_FP32 a) = [p] \<and> op_arg p = HES_GEMM_Y
      \<and> unat (op_bytes p) = 4 * gemm_total a \<and> a ! HES_GEMM_Y = a ! HES_GEMM_Y \<and> 4 * gemm_total a < 4294967296"
    using sok by (simp add: gemm_plan gemm_total_def gemm_sok_def u32_mult4)
next
  fix nb a a' assume sok: "gemm_sok fp dl S nb a" and pl: "placed HES_K_GEMM_FP32 a a'"
  note sc = gemm_moved [OF conjunct1 [OF pl [unfolded placed_def]]]
  have szs: "unat (a ! HES_GEMM_M * a ! HES_GEMM_N * sizeof_float32) = 4 * (unat (a ! HES_GEMM_M) * unat (a ! HES_GEMM_N))"
    "unat (a ! HES_GEMM_N * a ! HES_GEMM_O * sizeof_float32) = 4 * (unat (a ! HES_GEMM_N) * unat (a ! HES_GEMM_O))"
    "unat (a ! HES_GEMM_M * a ! HES_GEMM_O * sizeof_float32) = 4 * (unat (a ! HES_GEMM_M) * unat (a ! HES_GEMM_O))"
    using sok by (simp_all add: gemm_sok_def u32_mult4)
  have sep: "gemm_sep (a' ! HES_GEMM_A) (a' ! HES_GEMM_B) (a' ! HES_GEMM_C) (a' ! HES_GEMM_Y)
      (a ! HES_GEMM_M) (a ! HES_GEMM_N) (a ! HES_GEMM_O)"
    using pl by (simp add: placed_def gemm_plan buffer_def szs [unfolded job_arg] job_arg gemm_sep_def)
  have "a' ! HES_GEMM_C \<noteq> 0 \<and> unat (a' ! HES_GEMM_C) + 4 * (unat (a ! HES_GEMM_M) * unat (a ! HES_GEMM_O)) \<le> 4294967296"
    using pl by (simp add: placed_def gemm_plan szs [unfolded job_arg] job_arg)
  then show "gemm_ok fp dl S nb a' \<and> gemm_total a' = gemm_total a \<and> a' ! HES_GEMM_Y = a' ! HES_GEMM_Y"
    using sok sep by (simp add: gemm_ok_def gemm_total_def sc gemm_sok_def)
next
  fix nb a a' m m' e
  assume sok: "gemm_sok fp dl S nb a" and pl: "placed HES_K_GEMM_FP32 a a'"
    and cp: "inputs_copied HES_K_GEMM_FP32 a m a' m'" and e: "e < gemm_total a"
  note sc = gemm_moved [OF conjunct1 [OF pl [unfolded placed_def]]]
  have A: "ld32 m' (a' ! HES_GEMM_A + 4 * of_nat x) = ld32 m (a ! HES_GEMM_A + 4 * of_nat x)"
    if "x < unat (a ! HES_GEMM_M) * unat (a ! HES_GEMM_N)" for x
    using copied_words [OF cp, of "plan_operands HES_K_GEMM_FP32 a ! 0" "unat (a ! HES_GEMM_M) * unat (a ! HES_GEMM_N)" x]
      that sok by (simp add: gemm_plan gemm_sok_def u32_mult4)
  have B: "ld32 m' (a' ! HES_GEMM_B + 4 * of_nat x) = ld32 m (a ! HES_GEMM_B + 4 * of_nat x)"
    if "x < unat (a ! HES_GEMM_N) * unat (a ! HES_GEMM_O)" for x
    using copied_words [OF cp, of "plan_operands HES_K_GEMM_FP32 a ! 1" "unat (a ! HES_GEMM_N) * unat (a ! HES_GEMM_O)" x]
      that sok by (simp add: gemm_plan gemm_sok_def u32_mult4)
  have C: "ld32 m' (a' ! HES_GEMM_C + 4 * of_nat x) = ld32 m (a ! HES_GEMM_C + 4 * of_nat x)"
    if "x < unat (a ! HES_GEMM_M) * unat (a ! HES_GEMM_O)" for x
    using copied_words [OF cp, of "plan_operands HES_K_GEMM_FP32 a ! 2" "unat (a ! HES_GEMM_M) * unat (a ! HES_GEMM_O)" x]
      that sok by (simp add: gemm_plan gemm_sok_def u32_mult4)
  have "a' ! HES_GEMM_C \<noteq> 0" using pl by (simp add: placed_def gemm_plan job_arg)
  moreover have "a ! HES_GEMM_C \<noteq> 0" using sok by (simp add: gemm_sok_def)
  ultimately show "gemm_job_val fp a' m' e = gemm_job_val fp a m e"
    unfolding gemm_job_val_def sc
    by (intro kernel_val_moved) (use A B C e in \<open>simp_all add: gemm_total_def\<close>)
qed

lemma staged_matmul_result:
  assumes "matmul_sok fp dl S (my_nb_compute cfg) (mb_args (cs_mbox s))" and "f_contract fp"
    and "gemm_sep (mb_args (cs_mbox s) ! HES_MM_A) (mb_args (cs_mbox s) ! HES_MM_B) 0 (mb_args (cs_mbox s) ! HES_MM_Y)
        (mb_args (cs_mbox s) ! HES_MM_M) (mb_args (cs_mbox s) ! HES_MM_N) (mb_args (cs_mbox s) ! HES_MM_O)"
    and "stageable hp HES_K_MATMUL_FP32 s qs es1" and "1 \<le> completions es2"
    and "mset js = mset [0..<unat (my_nb_compute cfg)]"
  shows "\<exists>s'. serve_job (snitch_kernels fp dl mf S) hp cfg es1 es2 (map of_nat js) now1 now2 s = Some s'
    \<and> cs_mbox s' = (cs_mbox s)\<lparr>mb_error := 0, mb_cycles := now2 - now1, mb_staged := 1,
         mb_nb_cores := my_nb_compute cfg, mb_done_seq := mb_seq (cs_mbox s)\<rparr>
    \<and> (\<forall>x. x \<notin> area (align64 (heap_start hp)) (heap_end hp) \<longrightarrow>
         cs_mem s' x = MatMul_generic fp (mb_args (cs_mbox s) ! HES_MM_A) (mb_args (cs_mbox s) ! HES_MM_B)
           (mb_args (cs_mbox s) ! HES_MM_Y) (mb_args (cs_mbox s) ! HES_MM_M) (mb_args (cs_mbox s) ! HES_MM_N)
           (mb_args (cs_mbox s) ! HES_MM_O) (cs_mem s) x)"
proof -
  have "matmul_ok fp dl S (my_nb_compute cfg) (mb_args (cs_mbox s))"
    using assms(1,3) by (simp add: matmul_ok_def matmul_sok_def)
  note ref = matmul_val_reference [OF this assms(2), of "cs_mem s"]
  show ?thesis
    using matmul_staged.serve_staged [OF assms(1,4,5,6), of mf now1 now2] unfolding ref by blast
qed

text \<open>
  C1. Offloading a MatMul is computing it. Take any staged MatMul job whose operands fit: for
  every timing of the DMA in both directions and every order in which the eight cores' effects
  reach TCDM, the cluster answers, with no error, with \<open>staged\<close> set and with the job's own
  sequence number, and outside its staging area memory is exactly what the scalar
  \<open>MatMul\<close> would have left had it run on main memory directly.
\<close>

theorem offloaded_matmul:
  assumes "matmul_sok fp dl S (my_nb_compute cfg) (mb_args (cs_mbox s))" and "f_contract fp"
    and "gemm_sep (mb_args (cs_mbox s) ! HES_MM_A) (mb_args (cs_mbox s) ! HES_MM_B) 0 (mb_args (cs_mbox s) ! HES_MM_Y)
        (mb_args (cs_mbox s) ! HES_MM_M) (mb_args (cs_mbox s) ! HES_MM_N) (mb_args (cs_mbox s) ! HES_MM_O)"
    and "stageable hp HES_K_MATMUL_FP32 s qs es1" and "1 \<le> completions es2"
    and "mset js = mset [0..<unat (my_nb_compute cfg)]"
  shows "\<exists>s'. serve_job (snitch_kernels fp dl mf S) hp cfg es1 es2 (map of_nat js) now1 now2 s = Some s'
    \<and> cs_mbox s' = (cs_mbox s)\<lparr>mb_error := 0, mb_cycles := now2 - now1, mb_staged := 1,
         mb_nb_cores := my_nb_compute cfg, mb_done_seq := mb_seq (cs_mbox s)\<rparr>
    \<and> (\<forall>x. x \<notin> area (align64 (heap_start hp)) (heap_end hp) \<longrightarrow>
         cs_mem s' x = MatMul_generic fp (mb_args (cs_mbox s) ! HES_MM_A) (mb_args (cs_mbox s) ! HES_MM_B)
           (mb_args (cs_mbox s) ! HES_MM_Y) (mb_args (cs_mbox s) ! HES_MM_M) (mb_args (cs_mbox s) ! HES_MM_N)
           (mb_args (cs_mbox s) ! HES_MM_O) (cs_mem s) x)"
  using staged_matmul_result [OF assms] .

definition staged_unit_job :: "(u32 \<Rightarrow> u8) \<Rightarrow> cstate" where
  "staged_unit_job m = (blank_cluster m)\<lparr>cs_mbox := blank_mbox\<lparr>mb_kernel_id := HES_K_MATMUL_FP32,
     mb_args := unit_matmul, mb_flags := HES_JOB_STAGE, mb_seq := 7\<rparr>\<rparr>"

lemma unit_align: "align64 (heap_start small_heap) = 0x10000240"
  by code_simp

lemma unit_stageable: "stageable small_heap HES_K_MATMUL_FP32 (staged_unit_job m) unit_ops [Complete 1, Idle, Complete 0, Complete 0]"
proof -
  have "length unit_matmul = 16" by (simp add: unit_matmul_def)
  then show ?thesis
    using unit_assign unit_pre
    by (simp add: stageable_def staged_unit_job_def unit_align blank_cluster_def blank_mbox_def idle_dma_def
        unit_plan HES_JOB_STAGE_def)
qed

lemma unit_sok: "matmul_sok int_fpu int_deeploy (\<lambda>_. reset_ssr) (my_nb_compute snitch_cfg) unit_matmul"
  by (simp add: matmul_sok_def int_deeploy_ok reset_ready unit_matmul_def job_arg hes_const)

theorem offloaded_matmul_witness:
  "\<exists>s'. serve_job (snitch_kernels int_fpu int_deeploy (\<lambda>_ m. m) (\<lambda>_. reset_ssr)) small_heap snitch_cfg
       [Complete 1, Idle, Complete 0, Complete 0] [Complete 0] (map of_nat [7::nat, 0, 3, 1, 2, 6, 5, 4]) 100 350
       (staged_unit_job (\<lambda>x. if x = 0x80001000 then 6 else if x = 0x80002000 then 7 else 0)) = Some s'
    \<and> mb_done_seq (cs_mbox s') = 7 \<and> mb_cycles (cs_mbox s') = 250
    \<and> cs_mem s' 0x80003000 = MatMul_generic int_fpu 0x80001000 0x80002000 0x80003000 1 1 1
        (\<lambda>x. if x = 0x80001000 then 6 else if x = 0x80002000 then 7 else 0) 0x80003000"
proof -
  let ?m = "\<lambda>x::u32. if x = 0x80001000 then 6 else if x = 0x80002000 then 7 else (0::u8)"
  let ?s = "staged_unit_job ?m"
  have args: "mb_args (cs_mbox ?s) = unit_matmul" "cs_mem ?s = ?m" "mb_seq (cs_mbox ?s) = 7"
    by (simp_all add: staged_unit_job_def blank_cluster_def)
  have idx: "unit_matmul ! HES_MM_A = 0x80001000" "unit_matmul ! HES_MM_B = 0x80002000" "unit_matmul ! HES_MM_Y = 0x80003000"
    "unit_matmul ! HES_MM_M = 1" "unit_matmul ! HES_MM_N = 1" "unit_matmul ! HES_MM_O = 1"
    by (simp_all add: unit_matmul_def job_arg)
  have sep: "gemm_sep 0x80001000 0x80002000 0 0x80003000 1 1 1"
    unfolding gemm_sep_def by (intro conjI span_disjoint) simp_all
  have out: "0x80003000 \<notin> area (align64 (heap_start small_heap)) (heap_end small_heap)"
    by (simp add: area_def small_heap_def)
  have "1 \<le> completions [Complete 0]" by simp
  have sok: "matmul_sok int_fpu int_deeploy (\<lambda>_. reset_ssr) (my_nb_compute snitch_cfg) (mb_args (cs_mbox ?s))"
    unfolding args by (rule unit_sok)
  have sep': "gemm_sep (mb_args (cs_mbox ?s) ! HES_MM_A) (mb_args (cs_mbox ?s) ! HES_MM_B) 0 (mb_args (cs_mbox ?s) ! HES_MM_Y)
        (mb_args (cs_mbox ?s) ! HES_MM_M) (mb_args (cs_mbox ?s) ! HES_MM_N) (mb_args (cs_mbox ?s) ! HES_MM_O)"
    unfolding args idx by (rule sep)
  have one: "1 \<le> completions [Complete 0]" by simp
  obtain s' where "serve_job (snitch_kernels int_fpu int_deeploy (\<lambda>_ m. m) (\<lambda>_. reset_ssr)) small_heap snitch_cfg
       [Complete 1, Idle, Complete 0, Complete 0] [Complete 0] (map of_nat [7::nat, 0, 3, 1, 2, 6, 5, 4]) 100 350 ?s = Some s'"
    and mb: "cs_mbox s' = (cs_mbox ?s)\<lparr>mb_error := 0, mb_cycles := 350 - 100, mb_staged := 1,
         mb_nb_cores := my_nb_compute snitch_cfg, mb_done_seq := mb_seq (cs_mbox ?s)\<rparr>"
    and "cs_mem s' 0x80003000 = MatMul_generic int_fpu 0x80001000 0x80002000 0x80003000 1 1 1 ?m 0x80003000"
    using offloaded_matmul [OF sok int_deeploy_ok(2) sep' unit_stageable one scrambled, of "\<lambda>_ m. m" 100 350] out
    unfolding args idx by blast
  moreover have "mb_done_seq (cs_mbox s') = 7 \<and> mb_cycles (cs_mbox s') = 250" unfolding mb by (simp add: args)
  ultimately show ?thesis by blast
qed

section \<open>Convolutions can be staged\<close>

definition conv_sok :: "'a fpu_scheme \<Rightarrow> deeploy \<Rightarrow> ssrs \<Rightarrow> u32 \<Rightarrow> u32 list \<Rightarrow> bool" where
  "conv_sok fp dl S nb a \<longleftrightarrow> nb \<noteq> 0 \<and> deeploy_ok fp dl \<and> ssrs_ready S \<and> f_contract fp
     \<and> 0 < a ! HES_CONV_P \<and> a ! HES_CONV_P \<le> a ! HES_CONV_H \<and> 0 < a ! HES_CONV_Q \<and> a ! HES_CONV_Q \<le> a ! HES_CONV_W
     \<and> 0 < a ! HES_CONV_SP \<and> 0 < a ! HES_CONV_SQ \<and> 0 < a ! HES_CONV_F
     \<and> 4 * (unat (a ! HES_CONV_C) * (unat (a ! HES_CONV_H) * unat (a ! HES_CONV_W))) < 4294967296
     \<and> 4 * (unat (a ! HES_CONV_F) * (unat (a ! HES_CONV_C) * (unat (a ! HES_CONV_P) * unat (a ! HES_CONV_Q)))) < 4294967296
     \<and> 4 * (unat (a ! HES_CONV_F) * (unat (conv_Ho a) * unat (conv_Wo a))) < 4294967296
     \<and> 4 * unat (a ! HES_CONV_F) < 4294967296"

lemma unat_of_nat_eq: "x = of_nat n \<Longrightarrow> n < 4294967296 \<Longrightarrow> unat (x :: u32) = n"
  by (simp only: unat_of_nat_small)

lemma conv_plan:
  "plan_operands HES_K_CONV2D_FP32 a =
    [\<lparr>op_arg = HES_CONV_A, op_is_output = False, op_bytes = a ! HES_CONV_C * a ! HES_CONV_H * a ! HES_CONV_W * sizeof_float32, op_local = 0\<rparr>,
     \<lparr>op_arg = HES_CONV_B, op_is_output = False,
        op_bytes = a ! HES_CONV_F * a ! HES_CONV_C * a ! HES_CONV_P * a ! HES_CONV_Q * sizeof_float32, op_local = 0\<rparr>,
     \<lparr>op_arg = HES_CONV_Y, op_is_output = True, op_bytes = a ! HES_CONV_F * conv_Ho a * conv_Wo a * sizeof_float32, op_local = 0\<rparr>]
    @ (if a ! HES_CONV_HAS_BIAS \<noteq> 0
       then [\<lparr>op_arg = HES_CONV_BIAS, op_is_output = False, op_bytes = a ! HES_CONV_F * sizeof_float32, op_local = 0\<rparr>] else [])"
  by (simp add: plan_operands_def op_add_def Let_def kernel_ids conv_Ho_def conv_Wo_def)

lemma conv_moved:
  assumes "moved HES_K_CONV2D_FP32 a a'"
  shows "a' ! HES_CONV_C = a ! HES_CONV_C" "a' ! HES_CONV_H = a ! HES_CONV_H" "a' ! HES_CONV_W = a ! HES_CONV_W"
    "a' ! HES_CONV_F = a ! HES_CONV_F" "a' ! HES_CONV_P = a ! HES_CONV_P" "a' ! HES_CONV_Q = a ! HES_CONV_Q"
    "a' ! HES_CONV_SP = a ! HES_CONV_SP" "a' ! HES_CONV_SQ = a ! HES_CONV_SQ"
    "a' ! HES_CONV_HAS_BIAS = a ! HES_CONV_HAS_BIAS" "conv_Ho a' = conv_Ho a" "conv_Wo a' = conv_Wo a"
proof -
  have "\<forall>j. j \<notin> op_arg ` set (plan_operands HES_K_CONV2D_FP32 a) \<longrightarrow> a' ! j = a ! j" using assms by (simp add: moved_def)
  moreover have "op_arg ` set (plan_operands HES_K_CONV2D_FP32 a) \<subseteq> {0, 4, 10, 12}" by (auto simp: conv_plan job_arg)
  ultimately have k: "a' ! j = a ! j" if "j \<notin> {0, 4, 10, 12}" for j using that by blast
  show "a' ! HES_CONV_C = a ! HES_CONV_C" "a' ! HES_CONV_H = a ! HES_CONV_H" "a' ! HES_CONV_W = a ! HES_CONV_W"
    "a' ! HES_CONV_F = a ! HES_CONV_F" "a' ! HES_CONV_P = a ! HES_CONV_P" "a' ! HES_CONV_Q = a ! HES_CONV_Q"
    "a' ! HES_CONV_SP = a ! HES_CONV_SP" "a' ! HES_CONV_SQ = a ! HES_CONV_SQ"
    "a' ! HES_CONV_HAS_BIAS = a ! HES_CONV_HAS_BIAS" by (simp_all add: k job_arg)
  then show "conv_Ho a' = conv_Ho a" "conv_Wo a' = conv_Wo a" by (simp_all add: conv_Ho_def conv_Wo_def)
qed

lemma conv_sizes:
  assumes "conv_sok fp dl S nb a"
  shows "unat (a ! HES_CONV_C * a ! HES_CONV_H * a ! HES_CONV_W * sizeof_float32)
      = 4 * (unat (a ! HES_CONV_C) * (unat (a ! HES_CONV_H) * unat (a ! HES_CONV_W)))"
    and "unat (a ! HES_CONV_F * a ! HES_CONV_C * a ! HES_CONV_P * a ! HES_CONV_Q * sizeof_float32)
      = 4 * (unat (a ! HES_CONV_F) * (unat (a ! HES_CONV_C) * (unat (a ! HES_CONV_P) * unat (a ! HES_CONV_Q))))"
    and "unat (a ! HES_CONV_F * conv_Ho a * conv_Wo a * sizeof_float32)
      = 4 * (unat (a ! HES_CONV_F) * (unat (conv_Ho a) * unat (conv_Wo a)))"
    and "unat (a ! HES_CONV_F * sizeof_float32) = 4 * unat (a ! HES_CONV_F)"
  using assms by (intro unat_of_nat_eq; simp add: sizeof_float32_def conv_sok_def)+

lemma conv_val_moved:
  assumes taps: "0 < P" "P \<le> H" "0 < Q" "Q \<le> W" "0 < SP" "0 < SQ"
    and A: "\<And>x. x < unat C * (unat H * unat W) \<Longrightarrow> ld32 m' (A' + 4 * of_nat x) = ld32 m (A + 4 * of_nat x)"
    and B: "\<And>x. x < unat F * (unat C * (unat P * unat Q)) \<Longrightarrow> ld32 m' (B' + 4 * of_nat x) = ld32 m (B + 4 * of_nat x)"
    and bi: "\<And>x. hb \<Longrightarrow> x < unat F \<Longrightarrow> ld32 m' (bias' + 4 * of_nat x) = ld32 m (bias + 4 * of_nat x)"
    and Ho: "Ho = divu (H - P) SP + 1" and Wo: "Wo = divu (W - Q) SQ + 1"
    and e: "e < unat F * (unat Ho * unat Wo)"
  shows "conv_val mc fp A' C H W B' P Q SP SQ bias' hb Ho Wo m' e = conv_val mc fp A C H W B P Q SP SQ bias hb Ho Wo m e"
proof -
  note sp = pixel_split(1-3) [OF e]
  let ?f = "e div (unat Ho * unat Wo)" and ?h = "e mod (unat Ho * unat Wo) div unat Wo" and ?w = "e mod (unat Ho * unat Wo) mod unat Wo"
  have dot: "conv_dot mc A' C H W B' P Q SP SQ m' ?f ?h ?w = conv_dot mc A C H W B P Q SP SQ m ?f ?h ?w"
    unfolding conv_dot_def
  proof (rule fold_same)
    fix k s assume "k \<in> set [0..<unat C * (unat P * unat Q)]"
    then have k: "k < unat C * (unat P * unat Q)" by simp
    have a: "ld32 m' (A' + 4 * of_nat (conv_in H W P Q SP SQ ?h ?w k)) = ld32 m (A + 4 * of_nat (conv_in H W P Q SP SQ ?h ?w k))"
      by (rule A, rule conv_in_lt [OF taps _ _ k]) (use sp in \<open>simp_all only: Ho Wo\<close>)
    have b: "ld32 m' (B' + 4 * of_nat (?f * (unat C * (unat P * unat Q)) + k))
        = ld32 m (B + 4 * of_nat (?f * (unat C * (unat P * unat Q)) + k))"
      by (rule B, rule index_lt [OF sp(1) k])
    show "mc s (ld32 m' (A' + 4 * of_nat (conv_in H W P Q SP SQ ?h ?w k)))
           (ld32 m' (B' + 4 * of_nat (?f * (unat C * (unat P * unat Q)) + k)))
        = mc s (ld32 m (A + 4 * of_nat (conv_in H W P Q SP SQ ?h ?w k)))
           (ld32 m (B + 4 * of_nat (?f * (unat C * (unat P * unat Q)) + k)))"
      unfolding a b ..
  qed
  show ?thesis unfolding conv_val_def Let_def dot using bi [OF _ sp(1)] by (cases hb) simp_all
qed

interpretation conv_staged: staged_job "conv_job_ok fp dl S"
  "\<lambda>nb a i. run_slice (snitch_kernels fp dl mf S) HES_K_CONV2D_FP32 a sb ss (of_nat i) nb"
  conv_part conv_total "\<lambda>a. a ! HES_CONV_Y" "conv_job_val fp" "snitch_kernels fp dl mf S"
  HES_K_CONV2D_FP32 "conv_sok fp dl S" HES_CONV_Y for fp dl S mf sb ss
proof unfold_locales
  show "HES_K_CONV2D_FP32 \<noteq> HES_K_MFCC_FP32" "HES_K_CONV2D_FP32 \<noteq> HES_K_NONE" by (simp_all add: kernel_ids)
  then show "run_slice (snitch_kernels fp dl mf S) HES_K_CONV2D_FP32 a sb ss (of_nat i) nb
    = run_slice (snitch_kernels fp dl mf S) HES_K_CONV2D_FP32 a sba ssa (of_nat i) nb" for a i nb sba ssa
    by (intro run_slice_scratch)
next
  fix nb a assume sok: "conv_sok fp dl S nb a"
  show "\<exists>p. filter op_is_output (plan_operands HES_K_CONV2D_FP32 a) = [p] \<and> op_arg p = HES_CONV_Y
      \<and> unat (op_bytes p) = 4 * conv_total a \<and> a ! HES_CONV_Y = a ! HES_CONV_Y \<and> 4 * conv_total a < 4294967296"
    using conv_sizes(3) [OF sok] sok by (simp add: conv_plan conv_total_def conv_sok_def)
next
  fix nb a a' assume sok: "conv_sok fp dl S nb a" and pl: "placed HES_K_CONV2D_FP32 a a'"
  note sc = conv_moved [OF conjunct1 [OF pl [unfolded placed_def]]] and szs = conv_sizes [OF sok]
  let ?t = "unat (a ! HES_CONV_C) * (unat (a ! HES_CONV_P) * unat (a ! HES_CONV_Q))" and ?F = "unat (a ! HES_CONV_F)"
  have dis: "buffer a' p \<inter> buffer a' q = {}" if "p \<in> set (plan_operands HES_K_CONV2D_FP32 a)"
    "q \<in> set (plan_operands HES_K_CONV2D_FP32 a)" "op_arg p \<noteq> op_arg q" for p q
    using pl that unfolding placed_def by blast
  let ?p = "plan_operands HES_K_CONV2D_FP32 a"
  have bufs: "buffer a' (?p ! 0) = span (a' ! HES_CONV_A) (4 * (unat (a ! HES_CONV_C) * (unat (a ! HES_CONV_H) * unat (a ! HES_CONV_W))))"
    "buffer a' (?p ! 1) = span (a' ! HES_CONV_B) (4 * (?F * ?t))"
    "buffer a' (?p ! 2) = span (a' ! HES_CONV_Y) (4 * (?F * (unat (conv_Ho a) * unat (conv_Wo a))))"
    "a ! HES_CONV_HAS_BIAS \<noteq> 0 \<Longrightarrow> buffer a' (?p ! 3) = span (a' ! HES_CONV_BIAS) (4 * ?F)"
    by (simp_all add: conv_plan buffer_def szs)
  have args: "op_arg (?p ! 0) = HES_CONV_A" "op_arg (?p ! 1) = HES_CONV_B" "op_arg (?p ! 2) = HES_CONV_Y"
    "a ! HES_CONV_HAS_BIAS \<noteq> 0 \<Longrightarrow> op_arg (?p ! 3) = HES_CONV_BIAS"
    by (simp_all add: conv_plan)
  have mem: "?p ! 0 \<in> set ?p" "?p ! 1 \<in> set ?p" "?p ! 2 \<in> set ?p"
    "a ! HES_CONV_HAS_BIAS \<noteq> 0 \<Longrightarrow> ?p ! 3 \<in> set ?p"
    by (simp_all add: conv_plan)
  have sepA: "span (a' ! HES_CONV_A) (4 * (unat (a ! HES_CONV_C) * (unat (a ! HES_CONV_H) * unat (a ! HES_CONV_W))))
      \<inter> span (a' ! HES_CONV_Y) (4 * (?F * (unat (conv_Ho a) * unat (conv_Wo a)))) = {}"
    using dis [OF mem(1) mem(3)] unfolding bufs args by (simp add: job_arg)
  have sepB: "span (a' ! HES_CONV_B) (4 * (?F * ?t)) \<inter> span (a' ! HES_CONV_Y) (4 * (?F * (unat (conv_Ho a) * unat (conv_Wo a)))) = {}"
    using dis [OF mem(2) mem(3)] unfolding bufs args by (simp add: job_arg)
  have sepC: "span (a' ! HES_CONV_BIAS) (4 * ?F) \<inter> span (a' ! HES_CONV_Y) (4 * (?F * (unat (conv_Ho a) * unat (conv_Wo a)))) = {}"
    if "a ! HES_CONV_HAS_BIAS \<noteq> 0"
    using dis [OF mem(4) [OF that] mem(3)] unfolding bufs(3) bufs(4) [OF that] args(3) args(4) [OF that] by (simp add: job_arg)
  have "?t < 4294967296"
  proof -
    have "1 \<le> ?F" using sok by (simp add: conv_sok_def word_less_nat_alt)
    then have "?t \<le> ?F * ?t" by simp
    moreover have "4 * (?F * ?t) < 4294967296" using sok by (simp add: conv_sok_def)
    ultimately show ?thesis by linarith
  qed
  moreover have guards: "0 < a ! HES_CONV_P" "a ! HES_CONV_P \<le> a ! HES_CONV_H" "0 < a ! HES_CONV_Q" "a ! HES_CONV_Q \<le> a ! HES_CONV_W"
    "0 < a ! HES_CONV_SP" "0 < a ! HES_CONV_SQ" "4 * (?F * (unat (conv_Ho a) * unat (conv_Wo a))) < 4294967296"
    using sok by (simp_all only: conv_sok_def)
  ultimately have "conv_ok (a' ! HES_CONV_A) (a ! HES_CONV_C) (a ! HES_CONV_H) (a ! HES_CONV_W) (a' ! HES_CONV_B) (a ! HES_CONV_F)
         (a ! HES_CONV_P) (a ! HES_CONV_Q) (a ! HES_CONV_SP) (a ! HES_CONV_SQ) (a' ! HES_CONV_BIAS)
         (a ! HES_CONV_HAS_BIAS \<noteq> 0) (a' ! HES_CONV_Y)"
    unfolding conv_ok_def Let_def conv_Ho_def [symmetric] conv_Wo_def [symmetric]
    using guards sepA sepB sepC by (simp only: simp_thms if_True less_imp_le) blast
  then show "conv_job_ok fp dl S nb a' \<and> conv_total a' = conv_total a \<and> a' ! HES_CONV_Y = a' ! HES_CONV_Y"
    using sok by (simp add: conv_job_ok_def conv_total_def sc conv_sok_def)
next
  fix nb a a' m m' e
  assume sok: "conv_sok fp dl S nb a" and pl: "placed HES_K_CONV2D_FP32 a a'"
    and cp: "inputs_copied HES_K_CONV2D_FP32 a m a' m'" and e: "e < conv_total a"
  note sc = conv_moved [OF conjunct1 [OF pl [unfolded placed_def]]] and szs = conv_sizes [OF sok]
  have g: "0 < a ! HES_CONV_P" "a ! HES_CONV_P \<le> a ! HES_CONV_H" "0 < a ! HES_CONV_Q" "a ! HES_CONV_Q \<le> a ! HES_CONV_W"
    "0 < a ! HES_CONV_SP" "0 < a ! HES_CONV_SQ" using sok by (simp_all add: conv_sok_def)
  have A: "ld32 m' (a' ! HES_CONV_A + 4 * of_nat x) = ld32 m (a ! HES_CONV_A + 4 * of_nat x)"
    if "x < unat (a ! HES_CONV_C) * (unat (a ! HES_CONV_H) * unat (a ! HES_CONV_W))" for x
    using copied_words [OF cp, of "plan_operands HES_K_CONV2D_FP32 a ! 0"
        "unat (a ! HES_CONV_C) * (unat (a ! HES_CONV_H) * unat (a ! HES_CONV_W))" x] that
    by (simp add: conv_plan szs)
  have B: "ld32 m' (a' ! HES_CONV_B + 4 * of_nat x) = ld32 m (a ! HES_CONV_B + 4 * of_nat x)"
    if "x < unat (a ! HES_CONV_F) * (unat (a ! HES_CONV_C) * (unat (a ! HES_CONV_P) * unat (a ! HES_CONV_Q)))" for x
    using copied_words [OF cp, of "plan_operands HES_K_CONV2D_FP32 a ! 1"
        "unat (a ! HES_CONV_F) * (unat (a ! HES_CONV_C) * (unat (a ! HES_CONV_P) * unat (a ! HES_CONV_Q)))" x] that
    by (simp add: conv_plan szs)
  have bi: "ld32 m' (a' ! HES_CONV_BIAS + 4 * of_nat x) = ld32 m (a ! HES_CONV_BIAS + 4 * of_nat x)"
    if "a ! HES_CONV_HAS_BIAS \<noteq> 0" "x < unat (a ! HES_CONV_F)" for x
    using copied_words [OF cp, of "plan_operands HES_K_CONV2D_FP32 a ! 3" "unat (a ! HES_CONV_F)" x] that
    by (simp add: conv_plan szs)
  show "conv_job_val fp a' m' e = conv_job_val fp a m e"
    unfolding conv_job_val_def sc
    by (rule conv_val_moved [OF g A B bi conv_Ho_def conv_Wo_def]) (use e in \<open>simp_all add: conv_total_def\<close>)
qed

section \<open>Offloaded Gemm and convolution\<close>

text \<open>
  C3. Offloading a Gemm. A staged Gemm job that fits is answered without error, and outside
  the staging area memory is exactly what the streamed kernel would have left had one core run
  the whole product on main memory directly, transposed operands included.
\<close>

theorem offloaded_gemm:
  assumes "gemm_sok fp dl S (my_nb_compute cfg) (mb_args (cs_mbox s))" and "mb_args (cs_mbox s) = a"
    and "gemm_sep (a ! HES_GEMM_A) (a ! HES_GEMM_B) (a ! HES_GEMM_C) (a ! HES_GEMM_Y) (a ! HES_GEMM_M) (a ! HES_GEMM_N) (a ! HES_GEMM_O)"
    and "stageable hp HES_K_GEMM_FP32 s qs es1" and "1 \<le> completions es2"
    and "mset js = mset [0..<unat (my_nb_compute cfg)]"
  shows "\<exists>s'. serve_job (snitch_kernels fp dl mf S) hp cfg es1 es2 (map of_nat js) now1 now2 s = Some s'
    \<and> cs_mbox s' = (cs_mbox s)\<lparr>mb_error := 0, mb_cycles := now2 - now1, mb_staged := 1,
         mb_nb_cores := my_nb_compute cfg, mb_done_seq := mb_seq (cs_mbox s)\<rparr>
    \<and> (\<forall>x. x \<notin> area (align64 (heap_start hp)) (heap_end hp) \<longrightarrow>
         cs_mem s' x = snd (Gemm_ssr fp (Gemm_generic fp) (a ! HES_GEMM_A) (a ! HES_GEMM_B) (a ! HES_GEMM_C) (a ! HES_GEMM_Y)
           (a ! HES_GEMM_M) (a ! HES_GEMM_N) (a ! HES_GEMM_O) (a ! HES_GEMM_TRANSA) (a ! HES_GEMM_TRANSB) (S, cs_mem s)) x)"
proof -
  have ready: "ssrs_ready S" using assms(1) by (simp add: gemm_sok_def)
  note ref = Gemm_kernel_outs [OF ready assms(3), of fp "a ! HES_GEMM_TRANSA" "a ! HES_GEMM_TRANSB" "cs_mem s"]
  show ?thesis
    using gemm_staged.serve_staged [OF assms(1,4,5,6), of mf now1 now2]
    unfolding ref assms(2) gemm_job_val_def gemm_total_def by blast
qed

definition unit_gemm :: "u32 list" where
  "unit_gemm = [0x80001000, 0x80002000, 0x80004000, 0x80003000, 1, 1, 1, 0, 1] @ replicate 7 0"

definition staged_job_of :: "u32 \<Rightarrow> u32 list \<Rightarrow> (u32 \<Rightarrow> u8) \<Rightarrow> cstate" where
  "staged_job_of k a m = (blank_cluster m)\<lparr>cs_mbox := blank_mbox\<lparr>mb_kernel_id := k,
     mb_args := a, mb_flags := HES_JOB_STAGE, mb_seq := 7\<rparr>\<rparr>"

lemma unit_gemm_assign: "fst (assign_locals (heap_end small_heap) 0x10000240 (plan_operands HES_K_GEMM_FP32 unit_gemm))"
  by code_simp

lemma staged_job_of_sel:
  "mb_args (cs_mbox (staged_job_of k a m)) = a" "cs_mem (staged_job_of k a m) = m" "mb_seq (cs_mbox (staged_job_of k a m)) = 7"
  by (simp_all add: staged_job_of_def blank_cluster_def)

lemma stageable_small:
  assumes "fst (assign_locals (heap_end small_heap) 0x10000240 (plan_operands k a))" and "length a = 16"
    and "plan_operands k a \<noteq> []" and "staging_pre small_heap 0x10000240 a (plan_operands k a)"
    and "length (plan_operands k a) \<le> completions es"
  shows "stageable small_heap k (staged_job_of k a m) (snd (assign_locals (heap_end small_heap) 0x10000240 (plan_operands k a))) es"
  using assms
  by (simp add: stageable_def staged_job_of_def unit_align blank_cluster_def blank_mbox_def idle_dma_def
      HES_JOB_STAGE_def prod_eq_iff)

theorem offloaded_gemm_witness:
  "\<exists>s'. serve_job (snitch_kernels int_fpu int_deeploy (\<lambda>_ m. m) (\<lambda>_. reset_ssr)) small_heap snitch_cfg
       [Complete 1, Idle, Complete 2, Complete 0, Complete 0] [Complete 0] (map of_nat [7::nat, 0, 3, 1, 2, 6, 5, 4]) 100 350
       (staged_job_of HES_K_GEMM_FP32 unit_gemm (\<lambda>x. ucast x)) = Some s'
    \<and> cs_mem s' 0x80003000 = snd (Gemm_ssr int_fpu (Gemm_generic int_fpu) 0x80001000 0x80002000 0x80004000 0x80003000 1 1 1 0 1
        (\<lambda>_. reset_ssr, \<lambda>x. ucast x)) 0x80003000"
proof -
  let ?s = "staged_job_of HES_K_GEMM_FP32 unit_gemm (\<lambda>x. ucast x)"
  have idx: "unit_gemm ! HES_GEMM_A = 0x80001000" "unit_gemm ! HES_GEMM_B = 0x80002000" "unit_gemm ! HES_GEMM_C = 0x80004000"
    "unit_gemm ! HES_GEMM_Y = 0x80003000" "unit_gemm ! HES_GEMM_M = 1" "unit_gemm ! HES_GEMM_N = 1" "unit_gemm ! HES_GEMM_O = 1"
    "unit_gemm ! HES_GEMM_TRANSA = 0" "unit_gemm ! HES_GEMM_TRANSB = 1"
    by (simp_all add: unit_gemm_def job_arg)
  have sep: "gemm_sep 0x80001000 0x80002000 0x80004000 0x80003000 1 1 1"
    unfolding gemm_sep_def by (intro conjI impI span_disjoint) simp_all
  have pre: "staging_pre small_heap 0x10000240 unit_gemm (plan_operands HES_K_GEMM_FP32 unit_gemm)"
    unfolding staging_pre_def gemm_plan no_wrap_def idx
    by (simp add: small_heap_def unit_gemm_def sizeof_float32_def span_above_area job_arg)
  have st: "stageable small_heap HES_K_GEMM_FP32 ?s
      (snd (assign_locals (heap_end small_heap) 0x10000240 (plan_operands HES_K_GEMM_FP32 unit_gemm)))
      [Complete 1, Idle, Complete 2, Complete 0, Complete 0]"
    by (rule stageable_small [OF unit_gemm_assign _ _ pre]) (simp add: unit_gemm_def, simp_all add: gemm_plan)
  have sok: "gemm_sok int_fpu int_deeploy (\<lambda>_. reset_ssr) (my_nb_compute snitch_cfg) (mb_args (cs_mbox ?s))"
    by (simp add: staged_job_of_sel gemm_sok_def int_deeploy_ok reset_ready idx) (simp add: hes_const)
  have out: "0x80003000 \<notin> area (align64 (heap_start small_heap)) (heap_end small_heap)"
    by (simp add: area_def small_heap_def)
  have one: "1 \<le> completions [Complete 0]" by simp
  from offloaded_gemm [OF sok staged_job_of_sel(1) _ st one scrambled, of "\<lambda>_ m. m" 100 350] sep out
  show ?thesis unfolding idx staged_job_of_sel by blast
qed

text \<open>
  C2. Offloading a convolution. A staged Conv2d job that fits, with or without bias, is
  answered without error, and outside the staging area memory is exactly what the scalar
  convolution would have left had it run on main memory directly.
\<close>

theorem offloaded_conv:
  assumes "conv_sok fp dl S (my_nb_compute cfg) (mb_args (cs_mbox s))" and "mb_args (cs_mbox s) = a"
    and "conv_ok (a ! HES_CONV_A) (a ! HES_CONV_C) (a ! HES_CONV_H) (a ! HES_CONV_W) (a ! HES_CONV_B)
        (a ! HES_CONV_F) (a ! HES_CONV_P) (a ! HES_CONV_Q) (a ! HES_CONV_SP) (a ! HES_CONV_SQ) (a ! HES_CONV_BIAS)
        (a ! HES_CONV_HAS_BIAS \<noteq> 0) (a ! HES_CONV_Y)"
    and "stageable hp HES_K_CONV2D_FP32 s qs es1" and "1 \<le> completions es2"
    and "mset js = mset [0..<unat (my_nb_compute cfg)]"
  shows "\<exists>s'. serve_job (snitch_kernels fp dl mf S) hp cfg es1 es2 (map of_nat js) now1 now2 s = Some s'
    \<and> cs_mbox s' = (cs_mbox s)\<lparr>mb_error := 0, mb_cycles := now2 - now1, mb_staged := 1,
         mb_nb_cores := my_nb_compute cfg, mb_done_seq := mb_seq (cs_mbox s)\<rparr>
    \<and> (\<forall>x. x \<notin> area (align64 (heap_start hp)) (heap_end hp) \<longrightarrow>
         cs_mem s' x = Conv2d_generic fp (a ! HES_CONV_A) (a ! HES_CONV_C) (a ! HES_CONV_H) (a ! HES_CONV_W) (a ! HES_CONV_B)
           (a ! HES_CONV_F) (a ! HES_CONV_P) (a ! HES_CONV_Q) (a ! HES_CONV_SP) (a ! HES_CONV_SQ) (a ! HES_CONV_BIAS)
           (a ! HES_CONV_HAS_BIAS \<noteq> 0) (a ! HES_CONV_Y) (cs_mem s) x)"
proof -
  note ref = Conv2d_generic_outs [OF assms(3) conv_Ho_def conv_Wo_def, of fp "cs_mem s"]
  show ?thesis
    using conv_staged.serve_staged [OF assms(1,4,5,6), of mf now1 now2]
    unfolding ref assms(2) conv_job_val_def conv_total_def by blast
qed

definition small_conv :: "u32 list" where
  "small_conv = [0x80001000, 1, 3, 3, 0x80002000, 2, 2, 2, 1, 1, 0x80004000, 1, 0x80003000, 0, 0, 0]"

lemma small_conv_assign: "fst (assign_locals (heap_end small_heap) 0x10000240 (plan_operands HES_K_CONV2D_FP32 small_conv))"
  by code_simp

theorem offloaded_conv_witness:
  "\<exists>s'. serve_job (snitch_kernels int_fpu int_deeploy (\<lambda>_ m. m) (\<lambda>_. reset_ssr)) small_heap snitch_cfg
       [Complete 1, Idle, Complete 2, Complete 0, Complete 0] [Complete 0] (map of_nat [7::nat, 0, 3, 1, 2, 6, 5, 4]) 100 350
       (staged_job_of HES_K_CONV2D_FP32 small_conv (\<lambda>x. ucast x)) = Some s'
    \<and> cs_mem s' 0x80003004 = Conv2d_generic int_fpu 0x80001000 1 3 3 0x80002000 2 2 2 1 1 0x80004000 True 0x80003000
        (\<lambda>x. ucast x) 0x80003004"
proof -
  let ?s = "staged_job_of HES_K_CONV2D_FP32 small_conv (\<lambda>x. ucast x)"
  have idx: "small_conv ! HES_CONV_A = 0x80001000" "small_conv ! HES_CONV_C = 1" "small_conv ! HES_CONV_H = 3"
    "small_conv ! HES_CONV_W = 3" "small_conv ! HES_CONV_B = 0x80002000" "small_conv ! HES_CONV_F = 2"
    "small_conv ! HES_CONV_P = 2" "small_conv ! HES_CONV_Q = 2" "small_conv ! HES_CONV_SP = 1" "small_conv ! HES_CONV_SQ = 1"
    "small_conv ! HES_CONV_BIAS = 0x80004000" "small_conv ! HES_CONV_HAS_BIAS = 1" "small_conv ! HES_CONV_Y = 0x80003000"
    by (simp_all add: small_conv_def job_arg)
  have ho: "conv_Ho small_conv = 2" "conv_Wo small_conv = 2" by code_simp+
  have d: "divu (3 - 2) 1 = (1::u32)" by code_simp
  have ok: "conv_ok 0x80001000 1 3 3 0x80002000 2 2 2 1 1 0x80004000 ((1::u32) \<noteq> 0) 0x80003000"
    unfolding conv_ok_def Let_def d by (intro conjI impI span_disjoint) simp_all
  have pre: "staging_pre small_heap 0x10000240 small_conv (plan_operands HES_K_CONV2D_FP32 small_conv)"
    unfolding staging_pre_def conv_plan no_wrap_def idx ho
    by (simp add: small_heap_def sizeof_float32_def span_above_area idx)
  have st: "stageable small_heap HES_K_CONV2D_FP32 ?s
      (snd (assign_locals (heap_end small_heap) 0x10000240 (plan_operands HES_K_CONV2D_FP32 small_conv)))
      [Complete 1, Idle, Complete 2, Complete 0, Complete 0]"
    by (rule stageable_small [OF small_conv_assign _ _ pre]) (simp add: small_conv_def, simp_all add: conv_plan idx)
  have sok: "conv_sok int_fpu int_deeploy (\<lambda>_. reset_ssr) (my_nb_compute snitch_cfg) (mb_args (cs_mbox ?s))"
    by (simp add: staged_job_of_sel conv_sok_def int_deeploy_ok reset_ready idx ho) (simp add: hes_const)
  have out: "0x80003004 \<notin> area (align64 (heap_start small_heap)) (heap_end small_heap)"
    by (simp add: area_def small_heap_def)
  have one: "1 \<le> completions [Complete 0]" by simp
  have tr: "((1::u32) \<noteq> 0) = True" by simp
  from offloaded_conv [OF sok staged_job_of_sel(1) _ st one scrambled, of "\<lambda>_ m. m" 100 350] ok out
  show ?thesis unfolding idx staged_job_of_sel tr by blast
qed

end
