(* ===== verification/Console.thy ===== *)
theory Console
  imports Prelude
begin

text \<open>
  The console and the counters: the number printers of \<open>common/miniio.h\<close>, whose buffers
  are filled from the end, \<open>_sbrk\<close> of \<open>common/syscalls.c\<close>, and the 64-bit counter
  read of \<open>common/bench.h\<close> on a 32-bit core. The console is the text written so far.
\<close>

section \<open>Writing text\<close>

text \<open>\<open>sh_puts\<close> writes the characters from index \<open>i\<close> of a buffer up to the NUL.\<close>

definition c_str :: "char list \<Rightarrow> int \<Rightarrow> string" where
  "c_str buf i = takeWhile (\<lambda>c. c \<noteq> CHR 0x00) (drop (nat i) buf)"

definition sh_puts :: "string \<Rightarrow> string \<Rightarrow> string" where
  "sh_puts s out = out @ s"

definition print_str :: "string \<Rightarrow> string \<Rightarrow> string" where
  "print_str s = sh_puts s"

definition sh_putc :: "char \<Rightarrow> string \<Rightarrow> string" where
  "sh_putc c out = out @ [c]"

text \<open>\<open>'0' + d\<close> and \<open>d < 10 ? '0' + d : 'a' + d - 10\<close>.\<close>

definition dec_char :: "nat \<Rightarrow> char" where
  "dec_char d = char_of (48 + d)"

definition hex_char :: "nat \<Rightarrow> char" where
  "hex_char d = (if d < 10 then char_of (48 + d) else char_of (97 + d - 10))"

function dec_loop :: "u64 \<Rightarrow> char list \<Rightarrow> int \<Rightarrow> char list \<times> int" where
  "dec_loop v buf i =
     (if v = 0 then (buf, i)
      else let i = i - 1
           in dec_loop (v div 10) (buf[nat i := dec_char (unat (v mod 10))]) i)"
  by auto
termination
proof (relation "measure (\<lambda>(v, _). unat v)")
  fix v :: u64 and buf :: "char list" and i x :: int
  assume "v \<noteq> 0"
  then have "0 < unat v" by (simp add: unat_gt_0)
  then show "((v div 10, buf[nat x := dec_char (unat (v mod 10))], x), (v, buf, i)) \<in> measure (\<lambda>(v, _). unat v)"
    by (simp add: unat_div)
qed simp

function hex_loop :: "u64 \<Rightarrow> char list \<Rightarrow> int \<Rightarrow> char list \<times> int" where
  "hex_loop v buf i =
     (if v = 0 then (buf, i)
      else let d = unat (v AND 0xf); i = i - 1
           in hex_loop (drop_bit 4 v) (buf[nat i := hex_char d]) i)"
  by auto
termination
proof (relation "measure (\<lambda>(v, _). unat v)")
  fix v :: u64 and buf :: "char list" and i x :: int and d :: nat
  assume "v \<noteq> 0"
  then have "0 < unat v" by (simp add: unat_gt_0)
  then show "((drop_bit 4 v, buf[nat x := hex_char d], x), (v, buf, i)) \<in> measure (\<lambda>(v, _). unat v)"
    by (simp add: drop_bit_eq_div unat_div)
qed simp

declare dec_loop.simps [simp del] hex_loop.simps [simp del]

lemma dec_char_code [simp]: "d < 10 \<Longrightarrow> (of_char (dec_char d) :: nat) = 48 + d"
  by (simp add: dec_char_def)

lemma hex_char_code: "d < 16 \<Longrightarrow> (of_char (hex_char d) :: nat) = (if d < 10 then 48 + d else 87 + d)"
  by (simp add: hex_char_def)

lemma dec_char_eq: "d < 10 \<Longrightarrow> dec_char d = c \<Longrightarrow> (of_char c :: nat) = 48 + d"
  by (metis dec_char_code)

lemma hex_char_eq: "d < 16 \<Longrightarrow> hex_char d = c \<Longrightarrow> (of_char c :: nat) = (if d < 10 then 48 + d else 87 + d)"
  by (metis hex_char_code)

text \<open>
  The buffer and the index the text starts at: \<open>char buf[21]\<close> with the NUL at 20, and
  \<open>char buf[17]\<close> with the NUL at 16. What the rest of the buffer holds is arbitrary.
\<close>

definition u64_buf :: "char list \<Rightarrow> u64 \<Rightarrow> char list \<times> int" where
  "u64_buf junk v =
     (let i = 20; buf = junk[nat i := CHR 0x00];
          (buf, i) = (if v = 0 then (buf[nat (i - 1) := dec_char 0], i - 1) else (buf, i))
      in dec_loop v buf i)"

definition hex_buf :: "char list \<Rightarrow> u64 \<Rightarrow> char list \<times> int" where
  "hex_buf junk v =
     (let i = 16; buf = junk[nat i := CHR 0x00];
          (buf, i) = (if v = 0 then (buf[nat (i - 1) := hex_char 0], i - 1) else (buf, i))
      in hex_loop v buf i)"

definition print_u64 :: "char list \<Rightarrow> u64 \<Rightarrow> string \<Rightarrow> string" where
  "print_u64 junk v = (case u64_buf junk v of (buf, i) \<Rightarrow> sh_puts (c_str buf i))"

definition print_hex :: "char list \<Rightarrow> u64 \<Rightarrow> string \<Rightarrow> string" where
  "print_hex junk v = (case hex_buf junk v of (buf, i) \<Rightarrow> sh_puts (c_str buf i))"

text \<open>
  The argument as its 64 bits. The negation is of a signed value: of the most negative one it
  overflows, which C leaves undefined (\<open>None\<close>).
\<close>

definition neg_i64 :: "u64 \<Rightarrow> u64 option" where
  "neg_i64 v = (if v = 0x8000000000000000 then None else Some (- v))"

definition print_i64 :: "char list \<Rightarrow> u64 \<Rightarrow> string \<Rightarrow> string option" where
  "print_i64 junk v out =
     (if v <s 0
      then (case neg_i64 v of None \<Rightarrow> None | Some n \<Rightarrow> Some (print_u64 junk n (sh_puts ''-'' out)))
      else Some (print_u64 junk v out))"

section \<open>Positional notation\<close>

fun digits_of :: "nat \<Rightarrow> nat \<Rightarrow> nat list" where
  "digits_of b n = (if n = 0 \<or> b < 2 then [] else digits_of b (n div b) @ [n mod b])"

declare digits_of.simps [simp del]

definition val_of :: "nat \<Rightarrow> nat list \<Rightarrow> nat" where
  "val_of b ds = fold (\<lambda>d a. a * b + d) ds 0"

lemma digits_of_0 [simp]: "digits_of b 0 = []"
  by (simp add: digits_of.simps)

lemma val_digits: "2 \<le> b \<Longrightarrow> val_of b (digits_of b n) = n"
proof (induction b n rule: digits_of.induct)
  case (1 b n)
  show ?case
  proof (cases "n = 0")
    case True
    then show ?thesis by (simp add: val_of_def)
  next
    case False
    then have "val_of b (digits_of b (n div b)) = n div b" using 1 by simp
    then show ?thesis using False 1(2)
      by (subst digits_of.simps) (simp add: val_of_def)
  qed
qed

lemma digits_lt: "2 \<le> b \<Longrightarrow> d \<in> set (digits_of b n) \<Longrightarrow> d < b"
proof (induction b n rule: digits_of.induct)
  case (1 b n)
  show ?case
  proof (cases "n = 0")
    case True
    then show ?thesis using 1(3) by simp
  next
    case False
    then have "digits_of b n = digits_of b (n div b) @ [n mod b]"
      using 1(2) by (subst digits_of.simps) simp
    then show ?thesis using False 1 by auto
  qed
qed

lemma digits_length: "2 \<le> b \<Longrightarrow> n < b ^ k \<Longrightarrow> length (digits_of b n) \<le> k"
proof (induction k arbitrary: n)
  case 0
  then show ?case by simp
next
  case (Suc k)
  have "n div b < b ^ k" using Suc.prems by (simp add: less_mult_imp_div_less mult.commute)
  then have "length (digits_of b (n div b)) \<le> k" using Suc by simp
  then show ?case by (subst digits_of.simps) simp
qed

lemma digits_hd: "2 \<le> b \<Longrightarrow> n \<noteq> 0 \<Longrightarrow> digits_of b n \<noteq> [] \<and> hd (digits_of b n) \<noteq> 0"
proof (induction b n rule: digits_of.induct)
  case (1 b n)
  have u: "digits_of b n = digits_of b (n div b) @ [n mod b]"
    using 1(2,3) by (subst digits_of.simps) simp
  show ?case
  proof (cases "n div b = 0")
    case True
    then have "n mod b \<noteq> 0" using 1(3) by (metis div_mult_mod_eq mult_zero_left add_0)
    then show ?thesis by (simp add: u True)
  next
    case False
    then show ?thesis using 1 by (simp add: u)
  qed
qed


section \<open>Filling a buffer from its end\<close>

text \<open>
  What the two loops share: one digit per turn, least significant first, in base \<open>b\<close>
  with digit characters \<open>ch\<close>, and \<open>k\<close> places are enough for 64 bits.
\<close>

lemma unat_u64_le: "n \<le> unat (v :: u64) \<Longrightarrow> unat (word_of_nat n :: u64) = n"
  by (metis le_unat_uoi)

locale number_printer =
  fixes loop :: "u64 \<Rightarrow> char list \<Rightarrow> int \<Rightarrow> char list \<times> int"
    and b :: nat and ch :: "nat \<Rightarrow> char" and k :: nat
  assumes base: "2 \<le> b" and places: "2 ^ 64 \<le> b ^ k"
    and stop: "loop 0 buf i = (buf, i)"
    and turn: "v \<noteq> 0 \<Longrightarrow> loop v buf i
        = loop (word_of_nat (unat v div b)) (buf[nat (i - 1) := ch (unat v mod b)]) (i - 1)"
    and not_nul: "d < b \<Longrightarrow> ch d \<noteq> CHR 0x00"
begin

lemma digits_fit: "length (digits_of b (unat (v::u64))) \<le> k"
proof -
  have "unat v < 2 ^ LENGTH(64)" by (rule unsigned_less)
  then have "unat v < 2 ^ 64" by simp
  then have "unat v < b ^ k" using places by linarith
  then show ?thesis by (rule digits_length [OF base])
qed

lemma loop_writes:
  "length (digits_of b (unat v)) \<le> n \<Longrightarrow> n \<le> length buf \<Longrightarrow>
     loop v buf (int n) = (take (n - length (digits_of b (unat v))) buf @ map ch (digits_of b (unat v)) @ drop n buf,
       int n - int (length (digits_of b (unat v))))"
proof (induction "unat v" arbitrary: v n buf rule: less_induct)
  case less
  show ?case
  proof (cases "v = 0")
    case True
    then show ?thesis by (simp add: stop)
  next
    case False
    let ?w = "word_of_nat (unat v div b) :: u64" and ?ds = "digits_of b (unat v div b)"
    have w: "unat ?w = unat v div b"
      by (rule unat_u64_le) (rule div_le_dividend)
    have pos: "0 < unat v" using False by (simp add: unat_gt_0)
    then have lt: "unat ?w < unat v" using base by (simp add: w)
    have ds: "digits_of b (unat v) = ?ds @ [unat v mod b]"
      using pos base by (subst digits_of.simps) simp
    obtain n' where n: "n = Suc n'" using less.prems(1) by (cases n) (simp_all add: ds)
    let ?buf = "buf[n' := ch (unat v mod b)]"
    have "loop v buf (int n) = loop ?w ?buf (int n')"
      using turn [OF False, of buf "int n"] by (simp add: n)
    also have "\<dots> = (take (n' - length ?ds) ?buf @ map ch ?ds @ drop n' ?buf, int n' - int (length ?ds))"
      using less.hyps [OF lt, of n' ?buf] less.prems by (simp add: w ds n)
    also have "drop n' ?buf = ch (unat v mod b) # drop n buf"
      using less.prems by (simp add: n Cons_nth_drop_Suc [symmetric] drop_update_cancel)
    finally show ?thesis by (simp add: ds n)
  qed
qed

lemma c_str_end:
  assumes "n = length ds" and "n \<le> k" and "list_all (\<lambda>d. d < b) ds" and "length pre = k - n"
  shows "c_str (pre @ map ch ds @ CHR 0x00 # rest) (int k - int n) = map ch ds"
proof -
  have "nat (int k - int n) = length pre" using assms by simp
  moreover have "takeWhile (\<lambda>c. c \<noteq> CHR 0x00) (map ch ds @ CHR 0x00 # rest) = map ch ds"
    using assms(3) not_nul by (subst takeWhile_append2) (auto simp: list_all_iff)
  ultimately show ?thesis by (simp add: c_str_def)
qed

text \<open>The text of a number, and where in a buffer of \<open>k + 1\<close> characters it starts.\<close>

definition text_of :: "u64 \<Rightarrow> nat list" where
  "text_of v = (if v = 0 then [0] else digits_of b (unat v))"

lemma text_of_digits:
  "list_all (\<lambda>d. d < b) (text_of v)" "val_of b (text_of v) = unat v" "text_of v \<noteq> []"
  "hd (text_of v) = 0 \<Longrightarrow> v = 0"
proof -
  show "list_all (\<lambda>d. d < b) (text_of v)"
    using base digits_lt [OF base] by (auto simp: text_of_def list_all_iff)
  show "val_of b (text_of v) = unat v"
    using val_digits [OF base] by (simp add: text_of_def) (simp add: val_of_def)
  show "text_of v \<noteq> []" "hd (text_of v) = 0 \<Longrightarrow> v = 0"
    using digits_hd [OF base, of "unat v"] by (auto simp: text_of_def unat_gt_0 split: if_splits)
qed

lemma text_of_length: "1 \<le> k \<Longrightarrow> length (text_of v) \<le> k"
  using digits_fit by (simp add: text_of_def)

lemma printed:
  assumes k: "1 \<le> k" and len: "length junk = Suc k"
  shows "(let i = int k; buf = junk[nat i := CHR 0x00];
          (buf, i) = (if v = 0 then (buf[nat (i - 1) := ch 0], i - 1) else (buf, i))
      in loop v buf i)
    = (take (k - length (text_of v)) junk @ map ch (text_of v) @ [CHR 0x00], int k - int (length (text_of v)))"
proof (cases "v = 0")
  case True
  obtain k' where "k = Suc k'" using k by (cases k) auto
  moreover have "nat (1 + int k') = Suc k'" for k' by simp
  ultimately show ?thesis using True len
    by (simp add: stop text_of_def list_eq_iff_nth_eq nth_append nth_list_update less_Suc_eq)
next
  case False
  have d: "drop k (junk[k := CHR 0x00]) = [CHR 0x00]"
    using len by (simp add: list_eq_iff_nth_eq)
  show ?thesis
    using False len loop_writes [OF digits_fit, where buf = "junk[k := CHR 0x00]" and v = v] d
    by (simp add: text_of_def)
qed

end

interpretation dec: number_printer dec_loop 10 dec_char 20
proof
  show "dec_loop 0 buf i = (buf, i)" for buf i by (subst dec_loop.simps) simp
  show "dec_loop v buf i = dec_loop (word_of_nat (unat v div 10)) (buf[nat (i - 1) := dec_char (unat v mod 10)]) (i - 1)"
    if "v \<noteq> 0" for v buf i
  proof -
    have "v div 10 = word_of_nat (unat v div 10)" by (simp only: word_unat_eq_iff unat_div unat_numeral unat_u64_le [OF div_le_dividend]) simp
    moreover have "unat (v mod 10) = unat v mod 10" by (simp add: unat_mod)
    ultimately show ?thesis using that by (subst dec_loop.simps) (simp add: Let_def)
  qed
  show "d < 10 \<Longrightarrow> dec_char d \<noteq> CHR 0x00" for d
    by (auto dest: dec_char_eq)
qed simp_all


lemma and_15: "(v :: u64) AND 0xf = v mod 16"
proof -
  have "(15::u64) = mask 4" by (simp add: mask_eq_exp_minus_1)
  then have "v AND 15 = take_bit 4 v" by (simp add: take_bit_eq_mask)
  then show ?thesis by (simp add: take_bit_eq_mod)
qed

interpretation hex: number_printer hex_loop 16 hex_char 16
proof
  show "hex_loop 0 buf i = (buf, i)" for buf i by (subst hex_loop.simps) simp
  show "hex_loop v buf i = hex_loop (word_of_nat (unat v div 16)) (buf[nat (i - 1) := hex_char (unat v mod 16)]) (i - 1)"
    if "v \<noteq> 0" for v buf i
  proof -
    have "drop_bit 4 v = word_of_nat (unat v div 16)"
      by (simp add: drop_bit_eq_div word_unat_eq_iff unat_div unat_u64_le [OF div_le_dividend])
    moreover have "unat (v AND 0xf) = unat v mod 16" by (simp add: and_15 unat_mod)
    ultimately show ?thesis using that by (subst hex_loop.simps) (simp add: Let_def)
  qed
  show "d < 16 \<Longrightarrow> hex_char d \<noteq> CHR 0x00" for d
    by (auto dest: hex_char_eq split: if_splits)
qed simp_all

section \<open>The printers\<close>

lemma print_u64_text:
  assumes "length junk = 21"
  shows "print_u64 junk v out = out @ map dec_char (dec.text_of v)"
proof -
  have "u64_buf junk v = (take (20 - length (dec.text_of v)) junk @ map dec_char (dec.text_of v) @ [CHR 0x00],
      int 20 - int (length (dec.text_of v)))"
    using dec.printed [of junk v] assms unfolding u64_buf_def by simp
  moreover have "c_str (take (20 - length (dec.text_of v)) junk @ map dec_char (dec.text_of v) @ CHR 0x00 # [])
      (int 20 - int (length (dec.text_of v))) = map dec_char (dec.text_of v)"
    by (rule dec.c_str_end) (use assms dec.text_of_length dec.text_of_digits(1) in auto)
  ultimately show ?thesis by (simp add: print_u64_def sh_puts_def)
qed

lemma print_hex_text:
  assumes "length junk = 17"
  shows "print_hex junk v out = out @ map hex_char (hex.text_of v)"
proof -
  have "hex_buf junk v = (take (16 - length (hex.text_of v)) junk @ map hex_char (hex.text_of v) @ [CHR 0x00],
      int 16 - int (length (hex.text_of v)))"
    using hex.printed [of junk v] assms unfolding hex_buf_def by simp
  moreover have "c_str (take (16 - length (hex.text_of v)) junk @ map hex_char (hex.text_of v) @ CHR 0x00 # [])
      (int 16 - int (length (hex.text_of v))) = map hex_char (hex.text_of v)"
    by (rule hex.c_str_end) (use assms hex.text_of_length hex.text_of_digits(1) in auto)
  ultimately show ?thesis by (simp add: print_hex_def sh_puts_def)
qed

text \<open>
  Reading a printed number back: an optional sign and decimal digits.
\<close>

definition read_dec :: "string \<Rightarrow> nat" where
  "read_dec s = val_of 10 (map (\<lambda>c. of_char c - 48) s)"

fun read_int :: "string \<Rightarrow> int" where
  "read_int (c # s) = (if c = CHR ''-'' then - int (read_dec s) else int (read_dec (c # s)))"
| "read_int [] = 0"

lemma read_dec_chars: "list_all (\<lambda>d. d < 10) ds \<Longrightarrow> read_dec (map dec_char ds) = val_of 10 ds"
proof -
  assume "list_all (\<lambda>d. d < 10) ds"
  then have "map (\<lambda>c. of_char c - 48) (map dec_char ds) = ds"
    by (induction ds) (auto simp: dec_char_def)
  then show ?thesis by (simp add: read_dec_def)
qed

lemma read_dec_text: "read_dec (map dec_char (dec.text_of v)) = unat v"
  by (simp add: read_dec_chars dec.text_of_digits)




section \<open>Growing the heap\<close>

text \<open>
  \<open>_sbrk\<close>: the break, and what is returned (\<open>(void *)-1\<close> with \<open>ENOMEM\<close> when the new break
  would pass the end of the heap). Pointers have the width of the core.
\<close>

definition ENOMEM :: int where "ENOMEM = 12"

definition sbrk :: "'a::len word \<Rightarrow> 32 word \<Rightarrow> 'a word \<times> int \<Rightarrow> 'a word \<times> ('a word \<times> int)" where
  "sbrk heap_end incr = (\<lambda>(brk, errno).
     if heap_end < brk + scast incr then (- 1, (brk, ENOMEM))
     else let prev = brk in (prev, (brk + scast incr, errno)))"

definition write_all :: "char list \<Rightarrow> string \<Rightarrow> string" where
  "write_all buf out = fold sh_putc buf out"

lemma write_all_appends: "write_all buf out = out @ buf"
  unfolding write_all_def by (induction buf arbitrary: out) (simp_all add: sh_putc_def)

text \<open>A run of requests, with the block each successful one got.\<close>

fun sbrks :: "u32 \<Rightarrow> u32 list \<Rightarrow> u32 \<times> int \<Rightarrow> (u32 \<times> u32) list" where
  "sbrks hp_end [] st = []"
| "sbrks hp_end (n # ns) st = (case sbrk hp_end n st of (p, st') \<Rightarrow>
     (if p = - 1 then [] else [(p, n)]) @ sbrks hp_end ns st')"

text \<open>No request is negative, and the break cannot wrap past the end of the address space.\<close>

definition sbrk_ok :: "u32 \<Rightarrow> u32 list \<Rightarrow> bool" where
  "sbrk_ok hp_end ns \<longleftrightarrow> (\<forall>n\<in>set ns. unat n < 2147483648 \<and> unat hp_end + unat n < 4294967295)"

lemma sbrk_cases:
  assumes "sbrk_ok hp_end [n]" and "brk \<le> hp_end" and "sbrk hp_end n (brk, er) = (p, st')"
  shows "p = - 1 \<and> fst st' = brk \<or> p = brk \<and> p \<noteq> - 1 \<and> fst st' = brk + n \<and> unat (fst st') = unat brk + unat n \<and> fst st' \<le> hp_end"
proof -
  have sc: "scast n = n" for n :: u32 by simp
  have u: "unat (brk + n) = unat brk + unat n"
    using assms(1,2) by (intro unat_plus_small) (auto simp: sbrk_ok_def word_le_nat_alt)
  have "unat (- 1 :: u32) = 4294967295" by (simp add: unsigned_minus_1_eq_mask mask_eq_exp_minus_1)
  then have m: "brk \<noteq> - 1"
    using assms(1,2) unat_u32_lt [of n] by (auto simp: sbrk_ok_def word_le_nat_alt)
  show ?thesis using assms(3) m u by (auto simp: sbrk_def sc Let_def not_less split: if_splits)
qed


text \<open>
  The allocator never hands out a byte twice. For every run of non-negative requests on a
  32-bit core, the blocks \<open>_sbrk\<close> returns lie in the heap, in increasing order and without
  overlap; a request that does not fit gets none and leaves the break where it is.
\<close>

theorem sbrk_blocks:
  assumes "sbrk_ok hp_end ns" and "brk \<le> hp_end"
  shows "list_all (\<lambda>(p, n). unat brk \<le> unat p \<and> unat p + unat n \<le> unat hp_end) (sbrks hp_end ns (brk, er))
    \<and> sorted_wrt (\<lambda>(p, n) (q, m). unat p + unat n \<le> unat q) (sbrks hp_end ns (brk, er))"
  using assms
proof (induction ns arbitrary: brk er)
  case Nil
  then show ?case by simp
next
  case (Cons n ns)
  obtain p b e where r: "sbrk hp_end n (brk, er) = (p, (b, e))" by (cases "sbrk hp_end n (brk, er)") auto
  have ok: "sbrk_ok hp_end [n]" "sbrk_ok hp_end ns" using Cons.prems(1) by (simp_all add: sbrk_ok_def)
  consider "p = - 1" "b = brk" | "p = brk" "p \<noteq> - 1" "unat b = unat brk + unat n" "b \<le> hp_end"
    using sbrk_cases [OF ok(1) Cons.prems(2) r] by auto
  then show ?case
  proof cases
    case 1
    then show ?thesis using Cons.IH [OF ok(2) Cons.prems(2)] r by simp
  next
    case 2
    from Cons.IH [OF ok(2) 2(4), of e] 2 show ?thesis
      using Cons.prems(2) by (auto simp: r list_all_iff word_le_nat_alt)
  qed
qed

theorem sbrk_blocks_witness:
  "sbrks 0x10001000 [16, 0x1000, 32] (0x10000f00, 0) = [(0x10000f00, 16), (0x10000f10, 32)]
   \<and> sorted_wrt (\<lambda>(p, n) (q, m). unat p + unat n \<le> unat q) (sbrks 0x10001000 [16, 0x1000, 32] (0x10000f00, 0))"
proof
  show "sbrks 0x10001000 [16, 0x1000, 32] (0x10000f00, 0) = [(0x10000f00, 16), (0x10000f10, 32)]" by code_simp
  have "sbrk_ok 0x10001000 [16, 0x1000, 32]" by (simp add: sbrk_ok_def)
  moreover have "(0x10000f00 :: u32) \<le> 0x10001000" by simp
  ultimately show "sorted_wrt (\<lambda>(p, n) (q, m). unat p + unat n \<le> unat q) (sbrks 0x10001000 [16, 0x1000, 32] (0x10000f00, 0))"
    using sbrk_blocks [of "0x10001000" "[16, 0x1000, 32]" "0x10000f00"] by blast
qed

section \<open>Reading a 64-bit counter in halves\<close>

text \<open>
  \<open>read_mcycle\<close> on rv32. \<open>ctr t\<close> is the counter at the \<open>t\<close>-th CSR read; the loop
  tries again while the high half changed under it.
\<close>

definition csr_hi :: "(nat \<Rightarrow> u64) \<Rightarrow> nat \<Rightarrow> u32" where
  "csr_hi ctr t = ucast (drop_bit 32 (ctr t))"

definition csr_lo :: "(nat \<Rightarrow> u64) \<Rightarrow> nat \<Rightarrow> u32" where
  "csr_lo ctr t = ucast (ctr t)"

partial_function (option) read_counter :: "(nat \<Rightarrow> u64) \<Rightarrow> nat \<Rightarrow> (u64 \<times> nat) option" where
  "read_counter ctr t =
     (let hi = csr_hi ctr t; lo = csr_lo ctr (t + 1); hi2 = csr_hi ctr (t + 2)
      in if hi \<noteq> hi2 then read_counter ctr (t + 3)
         else Some (push_bit 32 (ucast hi) OR ucast lo, t + 3))"

lemma halves_join: "push_bit 32 (ucast (ucast (drop_bit 32 (c :: u64)) :: u32)) OR ucast (ucast c :: u32) = c"
proof (rule bit_word_eqI)
  fix n assume "n < LENGTH(64)"
  then show "bit (push_bit 32 (ucast (ucast (drop_bit 32 c) :: u32)) OR ucast (ucast c :: u32) :: u64) n = bit c n"
    by (cases "n < 32") (auto simp: bit_simps)
qed

lemma read_counter_sound:
  assumes "read_counter ctr t = Some r"
  shows "\<exists>n. r = (push_bit 32 (ucast (csr_hi ctr (t + 3 * n))) OR ucast (csr_lo ctr (t + 3 * n + 1)), t + 3 * n + 3)
       \<and> csr_hi ctr (t + 3 * n) = csr_hi ctr (t + 3 * n + 2)"
proof (rule read_counter.raw_induct [OF _ assms])
  let ?P = "\<lambda>ctr t r. \<exists>n. r = (push_bit 32 (ucast (csr_hi ctr (t + 3 * n))) OR ucast (csr_lo ctr (t + 3 * n + 1)), t + 3 * n + 3)
       \<and> csr_hi ctr (t + 3 * n) = csr_hi ctr (t + 3 * n + 2)"
  fix f ctr t r
  assume IH: "\<And>c u x. f c u = Some x \<Longrightarrow> ?P c u x"
    and body: "(let hi = csr_hi ctr t; lo = csr_lo ctr (t + 1); hi2 = csr_hi ctr (t + 2)
      in if hi \<noteq> hi2 then f ctr (t + 3) else Some (push_bit 32 (ucast hi) OR ucast lo, t + 3)) = Some r"
  show "?P ctr t r"
  proof (cases "csr_hi ctr t = csr_hi ctr (t + 2)")
    case True
    then show ?thesis using body by (intro exI [of _ 0]) (simp add: Let_def)
  next
    case False
    then have "f ctr (t + 3) = Some r" using body by (simp add: Let_def)
    from IH [OF this] obtain n where
      "r = (push_bit 32 (ucast (csr_hi ctr (t + 3 + 3 * n))) OR ucast (csr_lo ctr (t + 3 + 3 * n + 1)), t + 3 + 3 * n + 3)"
      "csr_hi ctr (t + 3 + 3 * n) = csr_hi ctr (t + 3 + 3 * n + 2)" by blast
    then show ?thesis by (intro exI [of _ "Suc n"]) (simp add: algebra_simps)
  qed
qed

lemma read_counter_returns:
  "csr_hi ctr (t + 3 * n) = csr_hi ctr (t + 3 * n + 2) \<Longrightarrow> \<exists>r. read_counter ctr t = Some r"
proof (induction n arbitrary: t)
  case 0
  then show ?case by (subst read_counter.simps) (simp add: Let_def)
next
  case (Suc n)
  have "csr_hi ctr (t + 3 + 3 * n) = csr_hi ctr (t + 3 + 3 * n + 2)"
    using Suc.prems by (simp add: algebra_simps)
  then have "\<exists>r. read_counter ctr (t + 3) = Some r" by (rule Suc.IH)
  then show ?case by (subst read_counter.simps) (simp add: Let_def)
qed

text \<open>
  A 64-bit counter read in halves is a value the counter had. If the counter never
  decreases and its high half is at rest across some attempt, the loop returns, and what it
  returns is the full 64-bit counter at the moment the low half was read.
\<close>

theorem read_counter_correct:
  assumes mono: "\<And>i j. i \<le> j \<Longrightarrow> ctr i \<le> ctr j" and rest: "csr_hi ctr (3 * n) = csr_hi ctr (3 * n + 2)"
  shows "\<exists>v t. read_counter ctr 0 = Some (v, t) \<and> 2 \<le> t \<and> v = ctr (t - 2)"
proof -
  obtain r where r: "read_counter ctr 0 = Some r" using read_counter_returns [of ctr 0 n] rest by auto
  from read_counter_sound [OF r] obtain k where
    v: "r = (push_bit 32 (ucast (csr_hi ctr (3 * k))) OR ucast (csr_lo ctr (3 * k + 1)), 3 * k + 3)"
    and h: "csr_hi ctr (3 * k) = csr_hi ctr (3 * k + 2)" by auto
  have hi: "unat (csr_hi ctr i) = unat (ctr i) div 2 ^ 32" for i
  proof -
    have "unat (ctr i) < 2 ^ LENGTH(64)" by (rule unsigned_less)
    then have "unat (ctr i) div 2 ^ 32 < 2 ^ 32" by (simp add: less_mult_imp_div_less)
    then show ?thesis
      by (simp add: csr_hi_def unsigned_ucast_eq drop_bit_eq_div unat_div take_bit_nat_eq_self_iff)
  qed
  have "ctr (3 * k) \<le> ctr (3 * k + 1)" "ctr (3 * k + 1) \<le> ctr (3 * k + 2)" by (simp_all add: mono)
  then have "unat (ctr (3 * k)) div 2 ^ 32 \<le> unat (ctr (3 * k + 1)) div 2 ^ 32"
    "unat (ctr (3 * k + 1)) div 2 ^ 32 \<le> unat (ctr (3 * k + 2)) div 2 ^ 32"
    by (simp_all add: word_le_nat_alt div_le_mono)
  moreover have "unat (csr_hi ctr (3 * k)) = unat (csr_hi ctr (3 * k + 2))" using h by simp
  ultimately have "unat (csr_hi ctr (3 * k)) = unat (csr_hi ctr (3 * k + 1))" unfolding hi by linarith
  then have "csr_hi ctr (3 * k) = csr_hi ctr (3 * k + 1)" by (simp add: word_unat_eq_iff)
  then have "r = (ctr (3 * k + 1), 3 * k + 3)" using v halves_join [of "ctr (3 * k + 1)"] by (simp add: csr_hi_def csr_lo_def)
  then show ?thesis using r by simp
qed

text \<open>A carry out of the low half between the first two reads: the first attempt is thrown away.\<close>

theorem read_counter_correct_witness:
  "\<exists>v t. read_counter (\<lambda>t. if t = 0 then 0xffffffff else 0x100000000) 0 = Some (v, t) \<and> v = 0x100000000"
proof -
  let ?c = "\<lambda>t :: nat. if t = 0 then 0xffffffff else 0x100000000 :: u64"
  have "csr_hi ?c (3 * 1) = csr_hi ?c (3 * 1 + 2)" by (simp add: csr_hi_def)
  from read_counter_correct [OF _ this] obtain v t where r: "read_counter ?c 0 = Some (v, t)" "2 \<le> t" "v = ?c (t - 2)"
    by fastforce
  have "csr_hi ?c 0 \<noteq> csr_hi ?c 2" by (simp add: csr_hi_def)
  then have "read_counter ?c 0 = read_counter ?c 3"
    by (subst read_counter.simps) (simp only: Let_def add_0 if_True not_False_eq_True simp_thms)
  moreover have "read_counter ?c 3 = Some (0x100000000, 6)"
    by (subst read_counter.simps) (simp add: Let_def csr_hi_def csr_lo_def)
  ultimately show ?thesis using r by auto
qed

end
