(* ===== verification/HostDriver.thy ===== *)
theory HostDriver
  imports Mailbox Console
begin

text \<open>
  The host's side of an offload, \<open>runtime/mesh/hes_host.c\<close>: posting a job, polling for it,
  counting failures, and the wrappers the generated network calls. What the host reads of a
  mailbox it shares with a cluster is a sequence of observations, one per volatile read.
\<close>

section \<open>Engines and state\<close>

record engine =
  e_name :: string
  e_tcdm :: u32
  e_periph :: u32
  e_clint_set :: u32
  e_ctrl_core :: u32
  e_requires_staging :: u32

definition engines :: "engine list" where
  "engines =
     [\<lparr>e_name = ''cva6'', e_tcdm = 0, e_periph = 0, e_clint_set = 0, e_ctrl_core = 0, e_requires_staging = 0\<rparr>,
      \<lparr>e_name = ''snitch'', e_tcdm = my_tcdm snitch_cfg, e_periph = my_periph snitch_cfg,
        e_clint_set = my_cl_clint_set snitch_cfg, e_ctrl_core = my_ctrl_core snitch_cfg,
        e_requires_staging = (if my_requires_staging snitch_cfg then 1 else 0)\<rparr>,
      \<lparr>e_name = ''spatz'', e_tcdm = my_tcdm spatz_cfg, e_periph = my_periph spatz_cfg,
        e_clint_set = my_cl_clint_set spatz_cfg, e_ctrl_core = my_ctrl_core spatz_cfg,
        e_requires_staging = (if my_requires_staging spatz_cfg then 1 else 0)\<rparr>]"

record hes_result =
  r_cycles :: u32
  r_nb_cores :: u32
  r_staged :: u32
  r_ok :: u32
  r_error :: u32

definition no_result :: hes_result where
  "no_result = \<lparr>r_cycles = 0, r_nb_cores = 0, r_staged = 0, r_ok = 0, r_error = 0\<rparr>"

text \<open>
  The statics of \<open>hes_host.c\<close>, one list entry per engine; the mailboxes by address; the
  writes to memory-mapped registers in order; and the console.
\<close>

record host =
  next_seq :: "u32 list"
  in_flight :: "u32 list"
  busy_cycles :: "u32 list"
  failure_count :: u32
  sample_idx :: u32
  sample_total :: u32
  mboxes :: "u32 \<Rightarrow> mailbox"
  mmio :: "(u32 \<times> u32) list"
  console :: string

definition HES_HEARTBEAT_POLLS :: u32 where "HES_HEARTBEAT_POLLS = push_bit 16 1"
definition HES_MAX_HEARTBEATS :: u32 where "HES_MAX_HEARTBEATS = 200"

definition host_wf :: "host \<Rightarrow> bool" where
  "host_wf h \<longleftrightarrow> length (next_seq h) = 3 \<and> length (in_flight h) = 3 \<and> length (busy_cycles h) = 3
     \<and> (\<forall>x. mbox_wf (mboxes h x))"

definition say :: "string \<Rightarrow> host \<Rightarrow> host" where
  "say s h = h\<lparr>console := print_str s (console h)\<rparr>"

text \<open>\<open>print_u64\<close> with whatever its stack buffer held; \<open>printed_numbers_read_back\<close> shows it does not matter.\<close>

definition say_u64 :: "u64 \<Rightarrow> host \<Rightarrow> host" where
  "say_u64 v h = h\<lparr>console := print_u64 (replicate 21 CHR 0x00) v (console h)\<rparr>"

definition say_u32 :: "u32 \<Rightarrow> host \<Rightarrow> host" where
  "say_u32 v = say_u64 (ucast v)"

definition engine_at :: "u32 \<Rightarrow> engine" where
  "engine_at e = engines ! unat e"

definition hes_engine_requires_staging :: "u32 \<Rightarrow> u32" where
  "hes_engine_requires_staging e = (if e < HES_NB_ENGINES then e_requires_staging (engine_at e) else 0)"

definition hes_engine_name :: "u32 \<Rightarrow> string" where
  "hes_engine_name e = (if e < HES_NB_ENGINES then e_name (engine_at e) else ''?'')"

text \<open>\<open>seen\<close> is the mailbox as this one read finds it.\<close>

definition hes_engine_ready :: "u32 \<Rightarrow> mailbox \<Rightarrow> bool" where
  "hes_engine_ready e seen =
     (if e = HES_ENGINE_CVA6 \<or> HES_NB_ENGINES \<le> e then False else mb_magic seen = HES_MBOX_MAGIC)"

fun ready_spins :: "u32 \<Rightarrow> (nat \<Rightarrow> mailbox) \<Rightarrow> nat \<Rightarrow> nat \<Rightarrow> nat" where
  "ready_spins e view 0 t = t"
| "ready_spins e view (Suc n) t = (if hes_engine_ready e (view t) then Suc t else ready_spins e view n (Suc t))"

definition hes_engine_init :: "(u32 \<Rightarrow> nat \<Rightarrow> mailbox) \<Rightarrow> host \<Rightarrow> host" where
  "hes_engine_init view = for_u32 1 HES_NB_ENGINES (\<lambda>e h.
     let t = ready_spins e (view e) 20000000 0
     in h\<lparr>next_seq := (next_seq h)[unat e := mb_done_seq (view e t)]\<rparr>)"

definition ring_doorbell :: "engine \<Rightarrow> host \<Rightarrow> host" where
  "ring_doorbell e h =
     h\<lparr>mmio := mmio h @ [(e_periph e + e_clint_set e, push_bit (unat (e_ctrl_core e)) 1)]\<rparr>"

definition hes_engine_busy :: "u32 \<Rightarrow> host \<Rightarrow> u32" where
  "hes_engine_busy e h = (if e < HES_NB_ENGINES then busy_cycles h ! unat e else 0)"

definition hes_engine_in_flight :: "u32 \<Rightarrow> host \<Rightarrow> u32" where
  "hes_engine_in_flight e h = (if e < HES_NB_ENGINES then in_flight h ! unat e else 0)"

section \<open>Posting\<close>

definition on_mbox :: "u32 \<Rightarrow> (mailbox \<Rightarrow> mailbox) \<Rightarrow> host \<Rightarrow> host" where
  "on_mbox a f h = h\<lparr>mboxes := (mboxes h)(a := f (mboxes h a))\<rparr>"

definition hes_post :: "u32 \<Rightarrow> u32 \<Rightarrow> u32 list \<Rightarrow> u32 \<Rightarrow> u32 \<Rightarrow> host \<Rightarrow> u32 \<times> host" where
  "hes_post engine knl args nargs flags h =
     (if engine = HES_ENGINE_CVA6 \<or> HES_NB_ENGINES \<le> engine then (1, h)
      else if in_flight h ! unat engine \<noteq> 0
      then (1, say ''\<newline>'' (say (e_name (engine_at engine)) (say ''[HES-ERR] post to busy engine '' h)))
      else
        let e = engine_at engine; mbox = hes_mailbox_at (e_tcdm e);
            flags = (if e_requires_staging e \<noteq> 0 then flags OR HES_JOB_STAGE else flags);
            h = for_u32 0 (min nargs HES_MAILBOX_MAX_ARGS)
                  (\<lambda>i. on_mbox mbox (\<lambda>b. b\<lparr>mb_args := (mb_args b)[unat i := args ! unat i]\<rparr>)) h;
            h = on_mbox mbox (\<lambda>b. b\<lparr>mb_kernel_id := knl\<rparr>) h;
            h = on_mbox mbox (\<lambda>b. b\<lparr>mb_nargs := nargs\<rparr>) h;
            h = on_mbox mbox (\<lambda>b. b\<lparr>mb_flags := flags\<rparr>) h;
            n = next_seq h ! unat engine + 1;
            h = h\<lparr>next_seq := (next_seq h)[unat engine := n]\<rparr>;
            h = on_mbox mbox (\<lambda>b. b\<lparr>mb_seq := n\<rparr>) h;
            h = ring_doorbell e h
        in (0, h\<lparr>in_flight := (in_flight h)[unat engine := 1]\<rparr>))"

section \<open>Waiting\<close>

text \<open>
  One heartbeat's polls: \<open>Inl\<close> the number of reads made when one showed \<open>seq\<close>, or
  \<open>Inr\<close> the number of reads made without.
\<close>

fun poll :: "(nat \<Rightarrow> mailbox) \<Rightarrow> u32 \<Rightarrow> nat \<Rightarrow> nat \<Rightarrow> nat + nat" where
  "poll view seq 0 t = Inr t"
| "poll view seq (Suc n) t = (if mb_done_seq (view t) = seq then Inl (Suc t) else poll view seq n (Suc t))"

definition heartbeat :: "engine \<Rightarrow> u32 \<Rightarrow> u32 \<Rightarrow> u32 \<Rightarrow> host \<Rightarrow> host" where
  "heartbeat e seq knl beat h =
     say ''\<newline>'' (say_u64 (ucast (beat + 1) * ucast HES_HEARTBEAT_POLLS) (say '' polls=''
       (say_u32 knl (say '' kernel='' (say_u32 seq (say '' job='' (say (e_name e) (say ''[HES-WAIT] engine='' h))))))))"

fun wait_beats :: "(nat \<Rightarrow> mailbox) \<Rightarrow> engine \<Rightarrow> u32 \<Rightarrow> u32 \<Rightarrow> nat \<Rightarrow> u32 \<Rightarrow> nat \<Rightarrow> host \<Rightarrow> nat option \<times> host" where
  "wait_beats view e seq knl 0 beat t h = (None, h)"
| "wait_beats view e seq knl (Suc n) beat t h =
     (case poll view seq (unat HES_HEARTBEAT_POLLS) t of
        Inl t' \<Rightarrow> (Some t', h)
      | Inr t' \<Rightarrow> wait_beats view e seq knl n (beat + 1) t' (heartbeat e seq knl beat h))"

text \<open>What is read of the descriptor once the job is done, the first read being number \<open>t\<close>.\<close>

definition collect :: "(nat \<Rightarrow> mailbox) \<Rightarrow> nat \<Rightarrow> hes_result" where
  "collect view t = \<lparr>r_cycles = mb_cycles (view t), r_nb_cores = mb_nb_cores (view (t + 1)),
     r_staged = mb_staged (view (t + 2)),
     r_ok = (if mb_trap_cause (view (t + 4)) = 0 \<and> mb_error (view (t + 5)) = 0 then 1 else 0),
     r_error = mb_error (view (t + 3))\<rparr>"

definition hes_wait :: "(nat \<Rightarrow> mailbox) \<Rightarrow> u32 \<Rightarrow> host \<Rightarrow> hes_result \<times> host" where
  "hes_wait view engine h =
     (if engine = HES_ENGINE_CVA6 \<or> HES_NB_ENGINES \<le> engine \<or> in_flight h ! unat engine = 0
      then (no_result, h)
      else
        let e = engine_at engine; seq = next_seq h ! unat engine; knl = mb_kernel_id (view 0);
            h = h\<lparr>in_flight := (in_flight h)[unat engine := 0]\<rparr>
        in case wait_beats view e seq knl (unat HES_MAX_HEARTBEATS) 0 1 h of
             (Some t, h) \<Rightarrow>
               let res = collect view t
               in (res, h\<lparr>busy_cycles := (busy_cycles h)[unat engine := busy_cycles h ! unat engine + r_cycles res]\<rparr>)
           | (None, h) \<Rightarrow>
               (no_result, say '' GAVE UP\<newline>'' (say_u32 seq (say '' job='' (say (e_name e) (say ''[HES-WAIT] engine='' h))))))"

definition hes_offload :: "(nat \<Rightarrow> mailbox) \<Rightarrow> u32 \<Rightarrow> u32 \<Rightarrow> u32 list \<Rightarrow> u32 \<Rightarrow> u32 \<Rightarrow> host \<Rightarrow> hes_result \<times> host" where
  "hes_offload view engine knl args nargs flags h =
     (case hes_post engine knl args nargs flags h of
        (r, h) \<Rightarrow> if r \<noteq> 0 then (no_result, h) else hes_wait view engine h)"

section \<open>Progress and failures\<close>

definition hes_failures :: "host \<Rightarrow> u32" where
  "hes_failures h = failure_count h"

definition hes_set_sample :: "u32 \<Rightarrow> u32 \<Rightarrow> host \<Rightarrow> host" where
  "hes_set_sample idx tot h = h\<lparr>sample_idx := idx, sample_total := tot\<rparr>"

text \<open>The cycle counter is read once by each; \<open>now\<close> is what it says.\<close>

definition hes_node_begin :: "u32 \<Rightarrow> string \<Rightarrow> u32 \<Rightarrow> u32 \<Rightarrow> u32" where
  "hes_node_begin now op idx engine = now"

definition hes_node_end :: "u32 \<Rightarrow> u32 \<Rightarrow> string \<Rightarrow> u32 \<Rightarrow> u32 \<Rightarrow> host \<Rightarrow> host" where
  "hes_node_end now idx op engine t0 h =
     (let cycles = now - t0
      in say ''\<newline>'' (say_u32 cycles (say '' cycles='' (say_u32 engine (say '' engine_id='' (say op (say '' op=''
           (say_u32 idx (say '' node='' (say_u32 (sample_total h) (say ''/''
             (say_u32 (sample_idx h) (say ''[HES-PROG] sample='' h)))))))))))))"

definition hes_check :: "u32 \<Rightarrow> string \<Rightarrow> hes_result \<Rightarrow> host \<Rightarrow> u32 \<times> host" where
  "hes_check engine what r h =
     (if r_ok r \<noteq> 0 then (0, h)
      else
        let h = h\<lparr>failure_count := failure_count h + 1\<rparr>;
            h = say (hes_engine_name engine) (say '' failed on '' (say what (say ''[HES-ERR] '' h)));
            h = (if r_error r = HES_ERR_NEEDS_STAGING then say '': operands do not fit the cluster scratchpad'' h
                 else if r_error r = HES_ERR_NO_SCRATCH
                 then say '': no room in the cluster scratchpad for the kernel's working storage'' h
                 else h)
        in (1, say ''\<newline>'' h))"

section \<open>The wrappers\<close>

definition check_offload :: "(nat \<Rightarrow> mailbox) \<Rightarrow> u32 \<Rightarrow> string \<Rightarrow> u32 \<Rightarrow> u32 list \<Rightarrow> nat \<Rightarrow> host \<Rightarrow> u32 \<times> host" where
  "check_offload view engine what knl args nargs h =
     (case hes_offload view engine knl args (of_nat nargs) HES_JOB_STAGE h of
        (r, h) \<Rightarrow> hes_check engine what r h)"

text \<open>The arrays the wrappers fill, before the first assignment arbitrary.\<close>

definition matmul_args :: "u32 \<Rightarrow> u32 \<Rightarrow> u32 \<Rightarrow> u32 \<Rightarrow> u32 \<Rightarrow> u32 \<Rightarrow> u32 list" where
  "matmul_args A B Y M N O' = (replicate HES_MM_NARGS 0)[HES_MM_A := A, HES_MM_B := B, HES_MM_Y := Y,
     HES_MM_M := M, HES_MM_N := N, HES_MM_O := O']"

definition gemm_args :: "u32 \<Rightarrow> u32 \<Rightarrow> u32 \<Rightarrow> u32 \<Rightarrow> u32 \<Rightarrow> u32 \<Rightarrow> u32 \<Rightarrow> u32 \<Rightarrow> u32 \<Rightarrow> u32 list" where
  "gemm_args A B C Y M N O' transA transB = (replicate HES_GEMM_NARGS 0)[HES_GEMM_A := A, HES_GEMM_B := B,
     HES_GEMM_C := C, HES_GEMM_Y := Y, HES_GEMM_M := M, HES_GEMM_N := N, HES_GEMM_O := O',
     HES_GEMM_TRANSA := transA, HES_GEMM_TRANSB := transB]"

definition conv_args ::
    "u32 \<Rightarrow> u32 \<Rightarrow> u32 \<Rightarrow> u32 \<Rightarrow> u32 \<Rightarrow> u32 \<Rightarrow> u32 \<Rightarrow> u32 \<Rightarrow> u32 \<Rightarrow> u32 \<Rightarrow> u32 \<Rightarrow> u32 \<Rightarrow> u32 \<Rightarrow> u32 list" where
  "conv_args A C H W weights F P Q SP SQ bias has_bias Y = (replicate HES_CONV_NARGS 0)[HES_CONV_A := A,
     HES_CONV_C := C, HES_CONV_H := H, HES_CONV_W := W, HES_CONV_B := weights, HES_CONV_F := F,
     HES_CONV_P := P, HES_CONV_Q := Q, HES_CONV_SP := SP, HES_CONV_SQ := SQ, HES_CONV_BIAS := bias,
     HES_CONV_HAS_BIAS := has_bias, HES_CONV_Y := Y]"

definition hes_offload_matmul ::
    "(nat \<Rightarrow> mailbox) \<Rightarrow> u32 \<Rightarrow> u32 \<Rightarrow> u32 \<Rightarrow> u32 \<Rightarrow> u32 \<Rightarrow> u32 \<Rightarrow> u32 \<Rightarrow> host \<Rightarrow> u32 \<times> host" where
  "hes_offload_matmul view engine A B Y M N O' =
     check_offload view engine ''MatMul'' HES_K_MATMUL_FP32 (matmul_args A B Y M N O') HES_MM_NARGS"

definition hes_offload_gemm ::
    "(nat \<Rightarrow> mailbox) \<Rightarrow> u32 \<Rightarrow> u32 \<Rightarrow> u32 \<Rightarrow> u32 \<Rightarrow> u32 \<Rightarrow> u32 \<Rightarrow> u32 \<Rightarrow> u32 \<Rightarrow> u32 \<Rightarrow> u32 \<Rightarrow> host \<Rightarrow> u32 \<times> host" where
  "hes_offload_gemm view engine A B C Y M N O' transA transB =
     check_offload view engine ''Gemm'' HES_K_GEMM_FP32 (gemm_args A B C Y M N O' transA transB) HES_GEMM_NARGS"

definition hes_offload_conv2d ::
    "(nat \<Rightarrow> mailbox) \<Rightarrow> u32 \<Rightarrow> u32 \<Rightarrow> u32 \<Rightarrow> u32 \<Rightarrow> u32 \<Rightarrow> u32 \<Rightarrow> u32 \<Rightarrow> u32 \<Rightarrow> u32 \<Rightarrow> u32 \<Rightarrow> u32 \<Rightarrow> u32 \<Rightarrow> u32 \<Rightarrow> u32 \<Rightarrow>
       host \<Rightarrow> u32 \<times> host" where
  "hes_offload_conv2d view engine A C H W weights F P Q SP SQ bias has_bias Y =
     check_offload view engine ''Conv2d'' HES_K_CONV2D_FP32
       (conv_args A C H W weights F P Q SP SQ bias has_bias Y) HES_CONV_NARGS"

record hes_mfcc_job =
  j_audio :: u32
  j_out :: u32
  j_nb_frames :: u32
  j_frame_len :: u32
  j_hop :: u32
  j_fft_len :: u32
  j_window :: u32
  j_twiddles :: u32
  j_mel_coeff :: u32
  j_mel_start :: u32
  j_mel_len :: u32
  j_nb_mel :: u32
  j_dct :: u32
  j_nb_cep :: u32
  j_mel_coeffs :: u32

definition mfcc_args :: "hes_mfcc_job \<Rightarrow> u32 list \<Rightarrow> u32 list" where
  "mfcc_args job args = args[HES_MFCC_AUDIO := j_audio job, HES_MFCC_OUT := j_out job,
     HES_MFCC_NB_FRAMES := j_nb_frames job, HES_MFCC_FRAME_LEN := j_frame_len job, HES_MFCC_HOP := j_hop job,
     HES_MFCC_FFT_LEN := j_fft_len job, HES_MFCC_WINDOW := j_window job, HES_MFCC_TWIDDLES := j_twiddles job,
     HES_MFCC_MEL_COEFF := j_mel_coeff job, HES_MFCC_MEL_START := j_mel_start job,
     HES_MFCC_MEL_LEN := j_mel_len job, HES_MFCC_NB_MEL := j_nb_mel job, HES_MFCC_DCT := j_dct job,
     HES_MFCC_NB_CEP := j_nb_cep job, HES_MFCC_MEL_COEFFS := j_mel_coeffs job]"

definition hes_offload_mfcc :: "(nat \<Rightarrow> mailbox) \<Rightarrow> u32 \<Rightarrow> hes_mfcc_job \<Rightarrow> host \<Rightarrow> u32 \<times> host" where
  "hes_offload_mfcc view engine job =
     check_offload view engine ''Mfcc'' HES_K_MFCC_FP32 (mfcc_args job (replicate HES_MFCC_NARGS 0)) HES_MFCC_NARGS"

definition hes_post_mfcc :: "u32 \<Rightarrow> hes_mfcc_job \<Rightarrow> host \<Rightarrow> u32 \<times> host" where
  "hes_post_mfcc engine job =
     hes_post engine HES_K_MFCC_FP32 (mfcc_args job (replicate HES_MFCC_NARGS 0)) (of_nat HES_MFCC_NARGS) HES_JOB_STAGE"


section \<open>What a post leaves\<close>

lemma say_sel [simp]:
  "next_seq (say s h) = next_seq h" "in_flight (say s h) = in_flight h" "busy_cycles (say s h) = busy_cycles h"
  "failure_count (say s h) = failure_count h" "mboxes (say s h) = mboxes h" "mmio (say s h) = mmio h"
  "sample_idx (say s h) = sample_idx h" "sample_total (say s h) = sample_total h"
  by (simp_all add: say_def)

lemma say_u64_sel [simp]:
  "next_seq (say_u64 v h) = next_seq h" "in_flight (say_u64 v h) = in_flight h" "busy_cycles (say_u64 v h) = busy_cycles h"
  "failure_count (say_u64 v h) = failure_count h" "mboxes (say_u64 v h) = mboxes h" "mmio (say_u64 v h) = mmio h"
  "sample_idx (say_u64 v h) = sample_idx h" "sample_total (say_u64 v h) = sample_total h"
  by (simp_all add: say_u64_def)

lemma say_u32_sel [simp]:
  "next_seq (say_u32 v h) = next_seq h" "in_flight (say_u32 v h) = in_flight h" "busy_cycles (say_u32 v h) = busy_cycles h"
  "failure_count (say_u32 v h) = failure_count h" "mboxes (say_u32 v h) = mboxes h" "mmio (say_u32 v h) = mmio h"
  "sample_idx (say_u32 v h) = sample_idx h" "sample_total (say_u32 v h) = sample_total h"
  by (simp_all add: say_u32_def)

text \<open>The host apart from its console.\<close>

definition quiet :: "host \<Rightarrow> host" where
  "quiet h = h\<lparr>console := []\<rparr>"

lemma quiet_say [simp]: "quiet (say s h) = quiet h" "quiet (say_u64 v h) = quiet h" "quiet (say_u32 w h) = quiet h"
  by (simp_all add: quiet_def say_def say_u64_def say_u32_def)

text \<open>A cluster, not the host itself and not an unknown number.\<close>

definition is_cluster :: "u32 \<Rightarrow> bool" where
  "is_cluster e \<longleftrightarrow> e \<noteq> HES_ENGINE_CVA6 \<and> e < HES_NB_ENGINES"

lemma is_cluster_cases: "is_cluster e \<longleftrightarrow> e = 1 \<or> e = 2"
proof -
  have "e < 3 \<longleftrightarrow> e = 0 \<or> e = 1 \<or> e = 2"
  proof
    assume "e < 3"
    then have "unat e < 3" by (simp add: word_less_nat_alt)
    then have "unat e = 0 \<or> unat e = 1 \<or> unat e = 2" by linarith
    then show "e = 0 \<or> e = 1 \<or> e = 2" by (simp add: word_unat_eq_iff)
  qed auto
  then show ?thesis by (auto simp: is_cluster_def HES_ENGINE_CVA6_def HES_NB_ENGINES_def)
qed

definition mbox_addr :: "u32 \<Rightarrow> u32" where
  "mbox_addr e = hes_mailbox_at (e_tcdm (engine_at e))"

text \<open>The descriptor of a job.\<close>

definition job_flags :: "u32 \<Rightarrow> u32 \<Rightarrow> u32" where
  "job_flags e fl = (if e_requires_staging (engine_at e) \<noteq> 0 then fl OR HES_JOB_STAGE else fl)"

definition posted_mbox :: "u32 \<Rightarrow> u32 \<Rightarrow> u32 list \<Rightarrow> u32 \<Rightarrow> u32 \<Rightarrow> u32 \<Rightarrow> mailbox \<Rightarrow> mailbox" where
  "posted_mbox e knl args nargs fl n b =
     (let k = unat (min nargs HES_MAILBOX_MAX_ARGS)
      in b\<lparr>mb_args := take k args @ drop k (mb_args b), mb_kernel_id := knl, mb_nargs := nargs,
           mb_flags := job_flags e fl, mb_seq := n\<rparr>)"

lemma copy_list:
  "n \<le> length args \<Longrightarrow> n \<le> length xs \<Longrightarrow>
     fold (\<lambda>i xs. xs[i := args ! i]) [0..<n] xs = take n args @ drop n xs"
proof (induction n)
  case 0
  then show ?case by simp
next
  case (Suc n)
  then have "drop n xs = xs ! n # drop (Suc n) xs" by (simp add: Cons_nth_drop_Suc)
  with Suc show ?case by (simp add: list_update_append take_Suc_conv_app_nth)
qed

lemma on_mbox_twice: "on_mbox a g (on_mbox a f h) = on_mbox a (\<lambda>b. g (f b)) h"
  by (cases h) (simp add: on_mbox_def)

lemma on_mbox_id: "on_mbox a (\<lambda>b. b) h = h"
  by (cases h) (simp add: on_mbox_def)

lemma args_loop:
  assumes "unat n \<le> length args" and "unat n \<le> length (mb_args (mboxes h a))"
  shows "for_u32 0 n (\<lambda>i. on_mbox a (\<lambda>b. b\<lparr>mb_args := (mb_args b)[unat i := args ! unat i]\<rparr>)) h
    = on_mbox a (\<lambda>b. b\<lparr>mb_args := take (unat n) args @ drop (unat n) (mb_args b)\<rparr>) h"
proof -
  have "for_u32 0 n (\<lambda>i. on_mbox a (\<lambda>b. b\<lparr>mb_args := (mb_args b)[unat i := args ! unat i]\<rparr>)) h
      = fold (\<lambda>i. on_mbox a (\<lambda>b. b\<lparr>mb_args := (mb_args b)[i := args ! i]\<rparr>)) [0..<unat n] h"
    unfolding for_u32_zero by (rule fold_same) (simp add: unat_of_nat_lt)
  also have "fold (\<lambda>i. on_mbox a (\<lambda>b. b\<lparr>mb_args := (mb_args b)[i := args ! i]\<rparr>)) is h
      = on_mbox a (\<lambda>b. b\<lparr>mb_args := fold (\<lambda>i xs. xs[i := args ! i]) is (mb_args b)\<rparr>) h" for "is"
    by (induction "is" arbitrary: h) (simp_all add: on_mbox_id on_mbox_twice)
  finally show ?thesis using assms by (simp add: copy_list on_mbox_def)
qed

lemma hes_post_posts:
  assumes "is_cluster e" and "in_flight h ! unat e = 0" and "unat (min nargs HES_MAILBOX_MAX_ARGS) \<le> length args"
    and "mbox_wf (mboxes h (mbox_addr e))"
  shows "hes_post e knl args nargs fl h = (0, h\<lparr>next_seq := (next_seq h)[unat e := next_seq h ! unat e + 1],
      in_flight := (in_flight h)[unat e := 1],
      mboxes := (mboxes h)(mbox_addr e := posted_mbox e knl args nargs fl (next_seq h ! unat e + 1) (mboxes h (mbox_addr e))),
      mmio := mmio h @ [(e_periph (engine_at e) + e_clint_set (engine_at e), push_bit (unat (e_ctrl_core (engine_at e))) 1)]\<rparr>)"
proof -
  have c: "\<not> (e = HES_ENGINE_CVA6 \<or> HES_NB_ENGINES \<le> e)" using assms(1) by (simp add: is_cluster_def not_le)
  have "unat (min nargs HES_MAILBOX_MAX_ARGS) \<le> length (mb_args (mboxes h (mbox_addr e)))"
    using assms(4) by (simp add: mbox_wf_def min_def word_le_nat_alt)
  note l = args_loop [OF assms(3) this]
  show ?thesis
    using c assms(2) unfolding hes_post_def Let_def mbox_addr_def [symmetric] l
    by (simp add: on_mbox_def posted_mbox_def Let_def job_flags_def ring_doorbell_def)
qed


text \<open>
  C25. Posting. A post is refused, with nothing but the console changed, exactly when the
  engine is not a cluster or still has a job in flight. Otherwise the cluster's mailbox holds
  exactly this job (\<open>HES_JOB_STAGE\<close> added where the cluster requires it, arguments past the
  given ones left alone, the cluster's own fields untouched), its sequence number differs from
  the last one, the doorbell is rung once, for that cluster's control core, no other mailbox is
  touched, and the engine counts as busy.
\<close>

theorem hes_post_correct:
  assumes "host_wf h" and "unat (min nargs HES_MAILBOX_MAX_ARGS) \<le> length args"
    and "hes_post e knl args nargs fl h = (r, h')"
  shows "(r = 1 \<and> quiet h' = quiet h \<and> (\<not> is_cluster e \<or> in_flight h ! unat e \<noteq> 0))
    \<or> (r = 0 \<and> is_cluster e \<and> in_flight h ! unat e = 0
       \<and> mboxes h' (mbox_addr e) = posted_mbox e knl args nargs fl (next_seq h' ! unat e) (mboxes h (mbox_addr e))
       \<and> (\<forall>x. x \<noteq> mbox_addr e \<longrightarrow> mboxes h' x = mboxes h x)
       \<and> next_seq h' ! unat e = next_seq h ! unat e + 1 \<and> next_seq h' ! unat e \<noteq> next_seq h ! unat e
       \<and> in_flight h' = (in_flight h)[unat e := 1] \<and> hes_engine_in_flight e h' = 1
       \<and> mmio h' = mmio h @ [(e_periph (engine_at e) + e_clint_set (engine_at e), push_bit (unat (e_ctrl_core (engine_at e))) 1)]
       \<and> console h' = console h)"
proof (cases "is_cluster e \<and> in_flight h ! unat e = 0")
  case True
  have "unat e < 3" using True by (auto simp: is_cluster_cases)
  moreover have "mbox_wf (mboxes h (mbox_addr e))" using assms(1) by (simp add: host_wf_def)
  ultimately show ?thesis
    using True assms hes_post_posts [of e h nargs args knl fl]
    by (auto simp: host_wf_def hes_engine_in_flight_def is_cluster_def)
next
  case False
  show ?thesis
  proof (cases "is_cluster e")
    case True
    then show ?thesis using False assms(3) by (auto simp: hes_post_def is_cluster_def Let_def not_le split: if_splits)
  next
    case no: False
    then show ?thesis using assms(3) by (auto simp: hes_post_def is_cluster_def not_less split: if_splits)
  qed
qed

definition fresh_mbox :: mailbox where
  "fresh_mbox = \<lparr>mb_magic = HES_MBOX_MAGIC, mb_alive_mask = 0x1ff, mb_seq = 0, mb_kernel_id = 0, mb_nargs = 0,
     mb_done_seq = 0, mb_cycles = 0, mb_trap_cause = 0, mb_nb_cores = 9, mb_flags = 0, mb_staged = 0,
     mb_error = 0, mb_args = replicate 16 0, mb_probe = replicate 16 0\<rparr>"

definition fresh_host :: host where
  "fresh_host = \<lparr>next_seq = [0, 0, 0], in_flight = [0, 0, 0], busy_cycles = [0, 0, 0], failure_count = 0,
     sample_idx = 0, sample_total = 0, mboxes = (\<lambda>_. fresh_mbox), mmio = [], console = []\<rparr>"

lemma fresh_host_wf: "host_wf fresh_host"
  by (simp add: host_wf_def fresh_host_def fresh_mbox_def mbox_wf_def HES_MAILBOX_MAX_ARGS_def)

text \<open>A MatMul posted to Spatz without the staging flag gets it.\<close>

theorem hes_post_correct_witness:
  "\<exists>h'. hes_post HES_ENGINE_SPATZ HES_K_MATMUL_FP32 [10, 20, 30, 1, 2, 3] 6 0 fresh_host = (0, h')
    \<and> mb_flags (mboxes h' 0x00100000) = HES_JOB_STAGE \<and> mb_seq (mboxes h' 0x00100000) = 1
    \<and> mmio h' = [(0x00120030, 1)]"
proof -
  obtain r h' where p: "hes_post 2 HES_K_MATMUL_FP32 [10, 20, 30, 1, 2, 3] 6 0 fresh_host = (r, h')"
    by (cases "hes_post 2 HES_K_MATMUL_FP32 [10, 20, 30, 1, 2, 3] 6 0 fresh_host")
  have n: "unat (min 6 HES_MAILBOX_MAX_ARGS) \<le> length [10, 20, 30, 1, 2, 3 :: u32]"
    by (simp add: HES_MAILBOX_MAX_ARGS_def min_def)
  have c: "is_cluster 2" "in_flight fresh_host ! unat (2::u32) = 0"
    by (simp_all add: is_cluster_cases fresh_host_def)
  have e: "mbox_addr 2 = 0x00100000" "job_flags 2 0 = HES_JOB_STAGE"
    "e_periph (engine_at 2) + e_clint_set (engine_at 2) = 0x00120030" "push_bit (unat (e_ctrl_core (engine_at 2))) (1::u32) = 1"
    by (simp_all add: mbox_addr_def job_flags_def engine_at_def engines_def hes_const hes_mailbox_at_def)
  from hes_post_correct [OF fresh_host_wf n p] c e p show ?thesis
    by (auto simp: posted_mbox_def Let_def fresh_host_def HES_ENGINE_SPATZ_def)
qed

section \<open>What a wait returns\<close>

lemma poll_found:
  "j < n \<Longrightarrow> mb_done_seq (view (t + j)) = seq \<Longrightarrow> (\<And>i. i < j \<Longrightarrow> mb_done_seq (view (t + i)) \<noteq> seq)
     \<Longrightarrow> poll view seq n t = Inl (Suc (t + j))"
proof (induction n arbitrary: t j)
  case 0
  then show ?case by simp
next
  case (Suc n)
  show ?case
  proof (cases j)
    case 0
    then show ?thesis using Suc.prems(2) by simp
  next
    case (Suc i)
    have "mb_done_seq (view t) \<noteq> seq" using Suc.prems(3) [of 0] Suc by simp
    moreover have "poll view seq n (Suc t) = Inl (Suc (Suc t + i))"
    proof (rule Suc.IH)
      show "i < n" "mb_done_seq (view (Suc t + i)) = seq" using Suc.prems(1,2) Suc by simp_all
      show "mb_done_seq (view (Suc t + k)) \<noteq> seq" if "k < i" for k
        using Suc.prems(3) [of "Suc k"] that Suc by simp
    qed
    ultimately show ?thesis using Suc by simp
  qed
qed

lemma poll_none:
  "(\<And>i. i < n \<Longrightarrow> mb_done_seq (view (t + i)) \<noteq> seq) \<Longrightarrow> poll view seq n t = Inr (t + n)"
proof (induction n arbitrary: t)
  case 0
  then show ?case by simp
next
  case (Suc n)
  have "mb_done_seq (view t) \<noteq> seq" using Suc.prems [of 0] by simp
  moreover have "poll view seq n (Suc t) = Inr (Suc t + n)"
    by (rule Suc.IH) (metis Suc.prems Suc_less_eq add_Suc_shift)
  ultimately show ?case by simp
qed

lemma quiet_heartbeat [simp]: "quiet (heartbeat e seq knl beat h) = quiet h"
  by (simp add: heartbeat_def)

lemma wait_beats_found:
  assumes "j < n * unat HES_HEARTBEAT_POLLS" and "mb_done_seq (view (t + j)) = seq"
    and "\<And>i. i < j \<Longrightarrow> mb_done_seq (view (t + i)) \<noteq> seq"
  shows "\<exists>h'. wait_beats view e seq knl n beat t h = (Some (Suc (t + j)), h') \<and> quiet h' = quiet h"
  using assms
proof (induction n arbitrary: beat t j h)
  case 0
  then show ?case by simp
next
  case (Suc n)
  let ?P = "unat HES_HEARTBEAT_POLLS"
  show ?case
  proof (cases "j < ?P")
    case True
    then show ?thesis using poll_found [of j ?P view t seq] Suc.prems by simp
  next
    case False
    have p: "poll view seq ?P t = Inr (t + ?P)"
      by (rule poll_none) (use Suc.prems(3) False in auto)
    have "\<exists>h'. wait_beats view e seq knl n (beat + 1) (t + ?P) (heartbeat e seq knl beat h)
        = (Some (Suc (t + ?P + (j - ?P))), h') \<and> quiet h' = quiet (heartbeat e seq knl beat h)"
    proof (rule Suc.IH)
      show "j - ?P < n * ?P" using Suc.prems(1) False by simp
      show "mb_done_seq (view (t + ?P + (j - ?P))) = seq" using Suc.prems(2) False by (simp add: add.assoc)
      fix i assume "i < j - ?P"
      then show "mb_done_seq (view (t + ?P + i)) \<noteq> seq" using Suc.prems(3) [of "?P + i"] by (simp add: add.assoc)
    qed
    then show ?thesis using False p by (auto simp: add.assoc)
  qed
qed

lemma wait_beats_none:
  assumes "\<And>i. i < n * unat HES_HEARTBEAT_POLLS \<Longrightarrow> mb_done_seq (view (t + i)) \<noteq> seq"
  shows "\<exists>h'. wait_beats view e seq knl n beat t h = (None, h') \<and> quiet h' = quiet h"
  using assms
proof (induction n arbitrary: beat t h)
  case 0
  then show ?case by simp
next
  case (Suc n)
  let ?P = "unat HES_HEARTBEAT_POLLS"
  have p: "poll view seq ?P t = Inr (t + ?P)" by (rule poll_none) (use Suc.prems in auto)
  have "\<exists>h'. wait_beats view e seq knl n (beat + 1) (t + ?P) (heartbeat e seq knl beat h) = (None, h')
      \<and> quiet h' = quiet (heartbeat e seq knl beat h)"
  proof (rule Suc.IH)
    fix i assume "i < n * ?P"
    then show "mb_done_seq (view (t + ?P + i)) \<noteq> seq" using Suc.prems [of "?P + i"] by (simp add: add.assoc)
  qed
  then show ?case using p by auto
qed


text \<open>The polls a wait makes before it gives up.\<close>

definition max_polls :: nat where
  "max_polls = unat HES_MAX_HEARTBEATS * unat HES_HEARTBEAT_POLLS"

lemma max_polls_eq: "max_polls = 13107200"
  by (simp add: max_polls_def HES_MAX_HEARTBEATS_def HES_HEARTBEAT_POLLS_def)

lemma hes_wait_found:
  assumes "is_cluster e" and "in_flight h ! unat e \<noteq> 0" and "j < max_polls"
    and "mb_done_seq (view (Suc j)) = next_seq h ! unat e"
    and "\<And>i. i < j \<Longrightarrow> mb_done_seq (view (Suc i)) \<noteq> next_seq h ! unat e"
  shows "\<exists>h'. hes_wait view e h = (collect view (j + 2), h')
    \<and> quiet h' = quiet (h\<lparr>in_flight := (in_flight h)[unat e := 0],
        busy_cycles := (busy_cycles h)[unat e := busy_cycles h ! unat e + r_cycles (collect view (j + 2))]\<rparr>)"
proof -
  let ?h = "h\<lparr>in_flight := (in_flight h)[unat e := 0]\<rparr>"
  obtain h1 where h1: "wait_beats view (engine_at e) (next_seq h ! unat e) (mb_kernel_id (view 0)) (unat HES_MAX_HEARTBEATS) 0 1 ?h
      = (Some (Suc (1 + j)), h1)" and q: "quiet h1 = quiet ?h"
    using wait_beats_found [of j "unat HES_MAX_HEARTBEATS" view 1 "next_seq h ! unat e" "engine_at e" "mb_kernel_id (view 0)" 0 ?h]
      assms(3-5) by (auto simp: max_polls_def)
  have b: "busy_cycles h1 = busy_cycles h" using arg_cong [OF q, of busy_cycles] by (simp add: quiet_def)
  have "quiet (h1\<lparr>busy_cycles := x\<rparr>) = quiet (?h\<lparr>busy_cycles := x\<rparr>)" for x
    using q by (cases h1; cases h) (simp add: quiet_def)
  then show ?thesis using assms(1,2) h1 b
    by (auto simp: hes_wait_def is_cluster_def Let_def not_le)
qed

lemma hes_wait_gives_up:
  assumes "is_cluster e" and "in_flight h ! unat e \<noteq> 0"
    and "\<And>i. i < max_polls \<Longrightarrow> mb_done_seq (view (Suc i)) \<noteq> next_seq h ! unat e"
  shows "\<exists>h'. hes_wait view e h = (no_result, h') \<and> quiet h' = quiet (h\<lparr>in_flight := (in_flight h)[unat e := 0]\<rparr>)"
proof -
  let ?h = "h\<lparr>in_flight := (in_flight h)[unat e := 0]\<rparr>"
  obtain h1 where h1: "wait_beats view (engine_at e) (next_seq h ! unat e) (mb_kernel_id (view 0)) (unat HES_MAX_HEARTBEATS) 0 1 ?h
      = (None, h1)" and q: "quiet h1 = quiet ?h"
    using wait_beats_none [of "unat HES_MAX_HEARTBEATS" view 1 "next_seq h ! unat e" "engine_at e" "mb_kernel_id (view 0)" 0 ?h]
      assms(3) by (auto simp: max_polls_def)
  then show ?thesis using assms(1,2)
    by (auto simp: hes_wait_def is_cluster_def Let_def not_le)
qed

lemma hes_wait_cases:
  "(is_cluster e \<and> in_flight h ! unat e \<noteq> 0 \<and>
      (\<exists>j h'. j < max_polls \<and> mb_done_seq (view (Suc j)) = next_seq h ! unat e
         \<and> (\<forall>i. i < j \<longrightarrow> mb_done_seq (view (Suc i)) \<noteq> next_seq h ! unat e)
         \<and> hes_wait view e h = (collect view (j + 2), h')
         \<and> quiet h' = quiet (h\<lparr>in_flight := (in_flight h)[unat e := 0],
             busy_cycles := (busy_cycles h)[unat e := busy_cycles h ! unat e + r_cycles (collect view (j + 2))]\<rparr>)))
   \<or> (is_cluster e \<and> in_flight h ! unat e \<noteq> 0 \<and>
      (\<forall>i. i < max_polls \<longrightarrow> mb_done_seq (view (Suc i)) \<noteq> next_seq h ! unat e)
         \<and> (\<exists>h'. hes_wait view e h = (no_result, h') \<and> quiet h' = quiet (h\<lparr>in_flight := (in_flight h)[unat e := 0]\<rparr>)))
   \<or> ((\<not> is_cluster e \<or> in_flight h ! unat e = 0) \<and> hes_wait view e h = (no_result, h))"
proof (cases "is_cluster e \<and> in_flight h ! unat e \<noteq> 0")
  case False
  then have "hes_wait view e h = (no_result, h)" by (auto simp: hes_wait_def is_cluster_def not_less)
  then show ?thesis using False by blast
next
  case True
  let ?P = "\<lambda>i. i < max_polls \<and> mb_done_seq (view (Suc i)) = next_seq h ! unat e"
  show ?thesis
  proof (cases "\<exists>i. ?P i")
    case ex: True
    define j where "j = (LEAST i. ?P i)"
    have j: "?P j" unfolding j_def using ex by (rule LeastI_ex)
    have first: "mb_done_seq (view (Suc i)) \<noteq> next_seq h ! unat e" if "i < j" for i
      using not_less_Least [of i ?P] that j by (auto simp: j_def)
    from hes_wait_found [where view = view and j = j, OF conjunct1 [OF True] conjunct2 [OF True] conjunct1 [OF j] conjunct2 [OF j] first]
    show ?thesis using True j first by blast
  next
    case False
    then have none: "\<And>i. i < max_polls \<Longrightarrow> mb_done_seq (view (Suc i)) \<noteq> next_seq h ! unat e" by blast
    from hes_wait_gives_up [where view = view, OF conjunct1 [OF True] conjunct2 [OF True] none]
    show ?thesis using True none by blast
  qed
qed

text \<open>
  C26. Waiting. A wait always returns: after the first poll that shows the job's own number, with
  what the descriptor says after it, or after 13107200 polls that do not, with a zeroed result
  that does not pass for success. Either way the engine is free again, its busy time grows by
  exactly the cycles reported, and nothing else of the host but its console changes. With no
  job in flight it returns zeroes at once.
\<close>

theorem hes_wait_outcome:
  "(is_cluster e \<and> in_flight h ! unat e \<noteq> 0 \<and>
      (\<exists>j h'. j < max_polls \<and> mb_done_seq (view (Suc j)) = next_seq h ! unat e
         \<and> (\<forall>i. i < j \<longrightarrow> mb_done_seq (view (Suc i)) \<noteq> next_seq h ! unat e)
         \<and> hes_wait view e h = (collect view (j + 2), h')
         \<and> quiet h' = quiet (h\<lparr>in_flight := (in_flight h)[unat e := 0],
             busy_cycles := (busy_cycles h)[unat e := busy_cycles h ! unat e + r_cycles (collect view (j + 2))]\<rparr>)))
   \<or> (is_cluster e \<and> in_flight h ! unat e \<noteq> 0 \<and>
      (\<forall>i. i < max_polls \<longrightarrow> mb_done_seq (view (Suc i)) \<noteq> next_seq h ! unat e)
         \<and> (\<exists>h'. hes_wait view e h = (no_result, h') \<and> quiet h' = quiet (h\<lparr>in_flight := (in_flight h)[unat e := 0]\<rparr>)))
   \<or> ((\<not> is_cluster e \<or> in_flight h ! unat e = 0) \<and> hes_wait view e h = (no_result, h))"
  by (rule hes_wait_cases)

theorem hes_wait_outcome_witness:
  "\<exists>h'. hes_wait (\<lambda>t. if t < 3 then fresh_mbox else fresh_mbox\<lparr>mb_done_seq := 4, mb_cycles := 77, mb_nb_cores := 8\<rparr>)
      HES_ENGINE_SNITCH (fresh_host\<lparr>next_seq := [0, 4, 0], in_flight := [0, 1, 0]\<rparr>)
    = (\<lparr>r_cycles = 77, r_nb_cores = 8, r_staged = 0, r_ok = 1, r_error = 0\<rparr>, h') \<and> busy_cycles h' = [0, 77, 0]"
proof -
  let ?v = "\<lambda>t. if t < 3 then fresh_mbox else fresh_mbox\<lparr>mb_done_seq := 4, mb_cycles := 77, mb_nb_cores := 8\<rparr>"
  let ?h = "fresh_host\<lparr>next_seq := [0, 4, 0], in_flight := [0, 1, 0]\<rparr>"
  have c: "is_cluster 1" by (simp add: is_cluster_cases)
  have d: "mb_done_seq (?v (Suc i)) = 4 \<longleftrightarrow> 2 \<le> i" for i by (auto simp: fresh_mbox_def)
  have ns: "next_seq ?h ! unat (1::u32) = 4" "in_flight ?h ! unat (1::u32) \<noteq> 0" by simp_all
  have m: "2 < max_polls" by (simp add: max_polls_eq)
  have coll: "collect ?v (2 + 2) = \<lparr>r_cycles = 77, r_nb_cores = 8, r_staged = 0, r_ok = 1, r_error = 0\<rparr>"
    by (simp add: collect_def fresh_mbox_def)
  from hes_wait_outcome [of 1 ?h ?v] obtain j h' where "hes_wait ?v 1 ?h = (collect ?v (j + 2), h')"
    and j: "2 \<le> j" "\<forall>i. i < j \<longrightarrow> \<not> 2 \<le> i"
    and q: "quiet h' = quiet (?h\<lparr>in_flight := (in_flight ?h)[unat (1::u32) := 0],
             busy_cycles := (busy_cycles ?h)[unat (1::u32) := busy_cycles ?h ! unat (1::u32) + r_cycles (collect ?v (j + 2))]\<rparr>)"
    unfolding ns(1) d using c m ns(2) by blast
  moreover have "j = 2" using j by (metis le_neq_implies_less order_refl)
  moreover have "busy_cycles h' = [0, 77, 0]"
    using arg_cong [OF q, of busy_cycles] \<open>j = 2\<close> by (simp add: quiet_def coll [simplified] fresh_host_def)
  ultimately show ?thesis unfolding HES_ENGINE_SNITCH_def by (simp add: coll [simplified])
qed


section \<open>Nothing fails silently\<close>

lemma hes_check_result:
  "hes_check e what r h = (v, h') \<Longrightarrow> (v = 0 \<and> r_ok r \<noteq> 0 \<and> h' = h) \<or> (v = 1 \<and> r_ok r = 0 \<and> failure_count h' = failure_count h + 1
     \<and> quiet h' = quiet (h\<lparr>failure_count := failure_count h + 1\<rparr>))"
  by (auto simp: hes_check_def Let_def split: if_splits)

lemma quiet_sel:
  assumes "quiet h' = quiet h"
  shows "next_seq h' = next_seq h" "in_flight h' = in_flight h" "busy_cycles h' = busy_cycles h"
    "failure_count h' = failure_count h" "mboxes h' = mboxes h" "mmio h' = mmio h"
  using assms by (cases h; cases h'; simp add: quiet_def)+

lemma hes_post_cases:
  assumes "hes_post e knl args nargs fl h = (r, h')"
  shows "(r = 1 \<and> quiet h' = quiet h) \<or> (r = 0 \<and> is_cluster e \<and> in_flight h ! unat e = 0)"
  using assms by (auto simp: hes_post_def is_cluster_def Let_def not_le split: if_splits)

lemma for_u32_failures: "failure_count (for_u32 0 n (\<lambda>i. on_mbox a (f i)) h) = failure_count h"
  unfolding for_u32_def by (rule fold_inv [where P = "\<lambda>g. failure_count g = failure_count h"]) (simp_all add: on_mbox_def)

lemma for_u32_next_seq: "next_seq (for_u32 0 n (\<lambda>i. on_mbox a (f i)) h) = next_seq h"
  unfolding for_u32_def by (rule fold_inv [where P = "\<lambda>g. next_seq g = next_seq h"]) (simp_all add: on_mbox_def)

lemma hes_post_counts:
  assumes "hes_post e knl args nargs fl h = (r, h')"
  shows "failure_count h' = failure_count h" and "r = 0 \<Longrightarrow> next_seq h' = (next_seq h)[unat e := next_seq h ! unat e + 1]"
  using assms by (auto simp: hes_post_def Let_def on_mbox_def ring_doorbell_def for_u32_failures for_u32_next_seq split: if_splits)

lemma hes_wait_success:
  assumes "hes_wait view e h = (res, h')"
  shows "failure_count h' = failure_count h \<and> (r_ok res \<noteq> 0 \<longrightarrow>
      (\<exists>t. mb_done_seq (view t) = next_seq h ! unat e \<and> mb_trap_cause (view (t + 5)) = 0 \<and> mb_error (view (t + 6)) = 0
         \<and> res = collect view (t + 1)))"
proof -
  consider (found) j h1 where "mb_done_seq (view (Suc j)) = next_seq h ! unat e" "hes_wait view e h = (collect view (j + 2), h1)"
      "quiet h1 = quiet (h\<lparr>in_flight := (in_flight h)[unat e := 0],
             busy_cycles := (busy_cycles h)[unat e := busy_cycles h ! unat e + r_cycles (collect view (j + 2))]\<rparr>)"
    | (up) h1 where "hes_wait view e h = (no_result, h1)" "quiet h1 = quiet (h\<lparr>in_flight := (in_flight h)[unat e := 0]\<rparr>)"
    | (none) "hes_wait view e h = (no_result, h)"
    using hes_wait_cases by blast
  then show ?thesis
  proof cases
    case found
    then have "failure_count h' = failure_count h" using quiet_sel(4) [OF found(3)] assms by simp
    moreover have "r_ok res \<noteq> 0 \<longrightarrow> mb_trap_cause (view (Suc j + 5)) = 0 \<and> mb_error (view (Suc j + 6)) = 0"
      using found(2) assms by (auto simp: collect_def)
    ultimately show ?thesis using found(1,2) assms by (auto intro!: exI [of _ "Suc j"])
  next
    case up
    then show ?thesis using quiet_sel(4) [OF up(2)] assms by (auto simp: no_result_def)
  next
    case none
    then show ?thesis using assms by (auto simp: no_result_def)
  qed
qed


text \<open>
  C27. A run that silently produced wrong numbers is not possible. Every wrapper (they are this
  function at their kernel) returns 0 or 1 and the failure count grows by exactly that; and it
  returns 0 only for a free cluster, after a read of its mailbox that showed this very job as
  done, followed by reads that showed no trap and no error.
\<close>

theorem check_offload_counts:
  assumes "host_wf h" and "check_offload view e what knl args nargs h = (v, h')"
  shows "(v = 0 \<or> v = 1) \<and> hes_failures h' = hes_failures h + v
    \<and> (v = 0 \<longrightarrow> is_cluster e \<and> in_flight h ! unat e = 0
         \<and> (\<exists>t. mb_done_seq (view t) = next_seq h ! unat e + 1 \<and> mb_trap_cause (view (t + 5)) = 0 \<and> mb_error (view (t + 6)) = 0))"
proof -
  obtain r h1 where p: "hes_post e knl args (of_nat nargs) HES_JOB_STAGE h = (r, h1)"
    by (cases "hes_post e knl args (of_nat nargs) HES_JOB_STAGE h")
  obtain res h2 where o: "hes_offload view e knl args (of_nat nargs) HES_JOB_STAGE h = (res, h2)"
    by (cases "hes_offload view e knl args (of_nat nargs) HES_JOB_STAGE h")
  have c: "hes_check e what res h2 = (v, h')" using assms(2) o by (simp add: check_offload_def)
  have post: "failure_count h1 = failure_count h" by (rule hes_post_counts(1) [OF p])
  show ?thesis
  proof (cases "r = 0")
    case True
    then have w: "hes_wait view e h1 = (res, h2)" using o p by (simp add: hes_offload_def)
    have e: "is_cluster e" "in_flight h ! unat e = 0" using hes_post_cases [OF p] True by auto
    have n: "next_seq h1 ! unat e = next_seq h ! unat e + 1"
      using hes_post_counts(2) [OF p True] assms(1) e(1) by (auto simp: host_wf_def is_cluster_cases)
    show ?thesis
      using hes_wait_success [OF w] hes_check_result [OF c] post e n by (auto simp: hes_failures_def)
  next
    case False
    then have "res = no_result" "h2 = h1" using o p by (simp_all add: hes_offload_def)
    then show ?thesis using hes_check_result [OF c] post by (auto simp: no_result_def hes_failures_def)
  qed
qed

text \<open>The host is not a cluster: offloading to it is a counted failure.\<close>

theorem check_offload_counts_witness:
  "\<exists>h'. hes_offload_matmul (\<lambda>_. fresh_mbox) HES_ENGINE_CVA6 1 2 3 4 5 6 fresh_host = (1, h') \<and> hes_failures h' = 1"
proof -
  obtain v h' where r: "check_offload (\<lambda>_. fresh_mbox) 0 ''MatMul'' HES_K_MATMUL_FP32 (matmul_args 1 2 3 4 5 6) HES_MM_NARGS fresh_host = (v, h')"
    by (cases "check_offload (\<lambda>_. fresh_mbox) 0 ''MatMul'' HES_K_MATMUL_FP32 (matmul_args 1 2 3 4 5 6) HES_MM_NARGS fresh_host")
  have "\<not> is_cluster 0" by (simp add: is_cluster_cases)
  with check_offload_counts [OF fresh_host_wf r] have "v = 1" "hes_failures h' = 1"
    by (auto simp: hes_failures_def fresh_host_def)
  then show ?thesis using r by (simp add: hes_offload_matmul_def HES_ENGINE_CVA6_def)
qed

end
