(* ===== verification/EndToEnd.thy ===== *)
theory EndToEnd
  imports JobLoop HostDriver
begin

text \<open>
  Host and cluster together: a job posted by \<open>hes_host.c\<close>, served by
  \<open>cluster_main.c\<close> and collected by \<open>hes_host.c\<close>, from the host's arrays in main
  memory to the result in main memory.
\<close>

section \<open>A view in which the cluster answers\<close>

text \<open>
  The first \<open>j\<close> polls still find the mailbox without the answer; from the next read on it is
  the one the cluster left, which does not change it before the next job.
\<close>

definition answered :: "(nat \<Rightarrow> mailbox) \<Rightarrow> u32 \<Rightarrow> nat \<Rightarrow> mailbox \<Rightarrow> bool" where
  "answered view seq j b \<longleftrightarrow> j < max_polls \<and> (\<forall>i. i < j \<longrightarrow> mb_done_seq (view (Suc i)) \<noteq> seq) \<and> (\<forall>t. j < t \<longrightarrow> view t = b)"

text \<open>The mailbox of a staged job that went well.\<close>

definition answer :: "mailbox \<Rightarrow> u32 \<Rightarrow> u32 \<Rightarrow> mailbox" where
  "answer b cyc nb = b\<lparr>mb_error := 0, mb_cycles := cyc, mb_staged := 1, mb_nb_cores := nb, mb_done_seq := mb_seq b\<rparr>"

lemma check_offload_answered:
  assumes wf: "host_wf h" and e: "is_cluster e" and idle: "in_flight h ! unat e = 0"
    and len: "unat (min (of_nat nargs) HES_MAILBOX_MAX_ARGS) \<le> length args"
    and b: "b = posted_mbox e knl args (of_nat nargs) HES_JOB_STAGE (next_seq h ! unat e + 1) (mboxes h (mbox_addr e))"
    and trap: "mb_trap_cause (mboxes h (mbox_addr e)) = 0"
    and a: "answered view (next_seq h ! unat e + 1) j (answer b cyc nb)"
  shows "\<exists>h'. check_offload view e what knl args nargs h = (0, h') \<and> hes_failures h' = hes_failures h
    \<and> in_flight h' ! unat e = 0 \<and> busy_cycles h' ! unat e = busy_cycles h ! unat e + cyc
    \<and> next_seq h' ! unat e = next_seq h ! unat e + 1"
proof -
  have u: "unat e < 3" using e by (auto simp: is_cluster_cases)
  have mw: "mbox_wf (mboxes h (mbox_addr e))" using wf by (simp add: host_wf_def)
  have lens: "length (next_seq h) = 3" "length (in_flight h) = 3" "length (busy_cycles h) = 3" using wf by (simp_all add: host_wf_def)
  define h1 where "h1 = h\<lparr>next_seq := (next_seq h)[unat e := next_seq h ! unat e + 1],
      in_flight := (in_flight h)[unat e := 1],
      mboxes := (mboxes h)(mbox_addr e := posted_mbox e knl args (of_nat nargs) HES_JOB_STAGE (next_seq h ! unat e + 1) (mboxes h (mbox_addr e))),
      mmio := mmio h @ [(e_periph (engine_at e) + e_clint_set (engine_at e), push_bit (unat (e_ctrl_core (engine_at e))) 1)]\<rparr>"
  have p: "hes_post e knl args (of_nat nargs) HES_JOB_STAGE h = (0, h1)"
    unfolding h1_def by (rule hes_post_posts [OF e idle len mw])
  have n1: "next_seq h1 ! unat e = next_seq h ! unat e + 1" "in_flight h1 ! unat e \<noteq> 0"
    using u lens by (simp_all add: h1_def)
  have seq: "mb_seq b = next_seq h ! unat e + 1" "mb_trap_cause b = 0" using trap by (simp_all add: b posted_mbox_def Let_def)
  have v: "view t = answer b cyc nb" if "j < t" for t using a that by (simp add: answered_def)
  have hit: "mb_done_seq (view (Suc j)) = next_seq h1 ! unat e" by (simp add: v answer_def seq n1)
  have miss: "mb_done_seq (view (Suc i)) \<noteq> next_seq h1 ! unat e" if "i < j" for i
    using a that by (simp add: answered_def n1)
  have jp: "j < max_polls" using a by (simp add: answered_def)
  obtain h2 where w: "hes_wait view e h1 = (collect view (j + 2), h2)"
    and q: "quiet h2 = quiet (h1\<lparr>in_flight := (in_flight h1)[unat e := 0],
        busy_cycles := (busy_cycles h1)[unat e := busy_cycles h1 ! unat e + r_cycles (collect view (j + 2))]\<rparr>)"
    using hes_wait_found [where view = view and h = h1 and e = e and j = j, OF e n1(2) jp hit miss] by blast
  have c: "r_ok (collect view (j + 2)) = 1" "r_cycles (collect view (j + 2)) = cyc"
    by (simp_all add: collect_def v answer_def seq)
  then have "hes_check e what (collect view (j + 2)) h2 = (0, h2)" by (simp add: hes_check_def)
  then have "check_offload view e what knl args nargs h = (0, h2)"
    unfolding check_offload_def hes_offload_def p by (simp add: w)
  then show ?thesis using quiet_sel [OF q] u lens c
    by (simp add: h1_def hes_failures_def)
qed


section \<open>MatMul, from the host's call to the result\<close>

text \<open>
  C20. The whole path. The host calls \<open>hes_offload_matmul\<close> for the Snitch cluster with one
  descriptor's worth of pointers and sizes; the cluster serves the mailbox that call leaves;
  the host keeps polling until the answer shows. Then the call returns 0, counts no failure,
  adds the cluster's own cycles to the engine's busy time and frees the engine, and main memory
  outside the staging area is what the scalar MatMul of the host's arrays would have left.
\<close>

theorem host_matmul_end_to_end:
  assumes host: "host_wf h" "in_flight h ! 1 = 0" "mb_trap_cause (mboxes h (mbox_addr HES_ENGINE_SNITCH)) = 0"
    and posted: "cs_mbox s = posted_mbox HES_ENGINE_SNITCH HES_K_MATMUL_FP32 (matmul_args A B Y M N O') (of_nat HES_MM_NARGS)
        HES_JOB_STAGE (next_seq h ! 1 + 1) (mboxes h (mbox_addr HES_ENGINE_SNITCH))"
    and sok: "matmul_sok fp dl S (my_nb_compute snitch_cfg) (mb_args (cs_mbox s))" "f_contract fp"
    and sep: "gemm_sep A B 0 Y M N O'"
    and stage: "stageable hp HES_K_MATMUL_FP32 s qs es1" "1 \<le> completions es2"
    and cores: "mset js = mset [0..<unat (my_nb_compute snitch_cfg)]"
    and serve: "serve_job (snitch_kernels fp dl mf S) hp snitch_cfg es1 es2 (map of_nat js) now1 now2 s = Some s'"
    and seen: "answered view (next_seq h ! 1 + 1) j (cs_mbox s')"
  shows "\<exists>h'. hes_offload_matmul view HES_ENGINE_SNITCH A B Y M N O' h = (0, h') \<and> hes_failures h' = hes_failures h
    \<and> in_flight h' ! 1 = 0 \<and> busy_cycles h' ! 1 = busy_cycles h ! 1 + (now2 - now1)
    \<and> (\<forall>x. x \<notin> area (align64 (heap_start hp)) (heap_end hp) \<longrightarrow> cs_mem s' x = MatMul_generic fp A B Y M N O' (cs_mem s) x)"
proof -
  have len: "length (mb_args (mboxes h (mbox_addr HES_ENGINE_SNITCH))) = 16"
    using host(1) by (simp add: host_wf_def mbox_wf_def HES_MAILBOX_MAX_ARGS_def)
  have nargs: "unat (min (of_nat HES_MM_NARGS) HES_MAILBOX_MAX_ARGS) = 6"
    by (simp add: HES_MM_NARGS_def HES_MAILBOX_MAX_ARGS_def min_def)
  have args: "mb_args (cs_mbox s) ! HES_MM_A = A" "mb_args (cs_mbox s) ! HES_MM_B = B" "mb_args (cs_mbox s) ! HES_MM_Y = Y"
    "mb_args (cs_mbox s) ! HES_MM_M = M" "mb_args (cs_mbox s) ! HES_MM_N = N" "mb_args (cs_mbox s) ! HES_MM_O = O'"
    using len by (simp_all only: posted posted_mbox_def Let_def nargs)
      (simp_all add: matmul_args_def job_arg nth_append numeral_eq_Suc)
  have sep': "gemm_sep (mb_args (cs_mbox s) ! HES_MM_A) (mb_args (cs_mbox s) ! HES_MM_B) 0 (mb_args (cs_mbox s) ! HES_MM_Y)
        (mb_args (cs_mbox s) ! HES_MM_M) (mb_args (cs_mbox s) ! HES_MM_N) (mb_args (cs_mbox s) ! HES_MM_O)"
    unfolding args by (rule sep)
  note off = staged_matmul_result [OF sok sep' stage cores, of mf now1 now2, unfolded args]
  have mb: "cs_mbox s' = answer (cs_mbox s) (now2 - now1) (my_nb_compute snitch_cfg)"
    and mem: "\<forall>x. x \<notin> area (align64 (heap_start hp)) (heap_end hp) \<longrightarrow> cs_mem s' x = MatMul_generic fp A B Y M N O' (cs_mem s) x"
    using off serve by (auto simp: answer_def)
  have one: "unat HES_ENGINE_SNITCH = 1" by (simp add: HES_ENGINE_SNITCH_def)
  have "is_cluster HES_ENGINE_SNITCH" by (simp add: is_cluster_cases HES_ENGINE_SNITCH_def)
  then have "\<exists>h'. check_offload view HES_ENGINE_SNITCH ''MatMul'' HES_K_MATMUL_FP32 (matmul_args A B Y M N O') HES_MM_NARGS h = (0, h')
    \<and> hes_failures h' = hes_failures h \<and> in_flight h' ! unat HES_ENGINE_SNITCH = 0
    \<and> busy_cycles h' ! unat HES_ENGINE_SNITCH = busy_cycles h ! unat HES_ENGINE_SNITCH + (now2 - now1)
    \<and> next_seq h' ! unat HES_ENGINE_SNITCH = next_seq h ! unat HES_ENGINE_SNITCH + 1"
  proof (rule check_offload_answered [OF host(1) _ _ _ _ host(3)])
    show "in_flight h ! unat HES_ENGINE_SNITCH = 0" using host(2) by (simp add: one)
    show "unat (min (of_nat HES_MM_NARGS) HES_MAILBOX_MAX_ARGS) \<le> length (matmul_args A B Y M N O')"
      unfolding nargs by (simp add: matmul_args_def HES_MM_NARGS_def)
    show "cs_mbox s = posted_mbox HES_ENGINE_SNITCH HES_K_MATMUL_FP32 (matmul_args A B Y M N O') (of_nat HES_MM_NARGS)
        HES_JOB_STAGE (next_seq h ! unat HES_ENGINE_SNITCH + 1) (mboxes h (mbox_addr HES_ENGINE_SNITCH))"
      unfolding one by (rule posted)
    show "answered view (next_seq h ! unat HES_ENGINE_SNITCH + 1) j (answer (cs_mbox s) (now2 - now1) (my_nb_compute snitch_cfg))"
      unfolding one using seen by (simp only: mb)
  qed
  then show ?thesis using mem by (auto simp: hes_offload_matmul_def one)
qed


text \<open>
  One product, from a freshly booted system: the answer shows at the fifth poll.
\<close>

definition first_mbox :: mailbox where
  "first_mbox = posted_mbox HES_ENGINE_SNITCH HES_K_MATMUL_FP32 (matmul_args 0x80001000 0x80002000 0x80003000 1 1 1)
     (of_nat HES_MM_NARGS) HES_JOB_STAGE 1 fresh_mbox"

definition first_job :: "mem \<Rightarrow> cstate" where
  "first_job m = (blank_cluster m)\<lparr>cs_mbox := first_mbox\<rparr>"

lemma first_mbox_sel:
  "mb_args first_mbox = unit_matmul" "mb_kernel_id first_mbox = HES_K_MATMUL_FP32" "mb_flags first_mbox = HES_JOB_STAGE"
  "mb_done_seq first_mbox = 0"
proof -
  have n: "unat (min (of_nat HES_MM_NARGS) HES_MAILBOX_MAX_ARGS) = 6"
    by (simp add: HES_MM_NARGS_def HES_MAILBOX_MAX_ARGS_def min_def)
  show "mb_args first_mbox = unit_matmul"
    unfolding first_mbox_def posted_mbox_def Let_def n
    by (simp add: matmul_args_def unit_matmul_def fresh_mbox_def job_arg numeral_eq_Suc)
  have "my_requires_staging snitch_cfg = False" by (simp add: snitch_cfg_def)
  then show "mb_flags first_mbox = HES_JOB_STAGE"
    by (simp add: first_mbox_def posted_mbox_def Let_def job_flags_def engine_at_def engines_def HES_ENGINE_SNITCH_def)
qed (simp_all add: first_mbox_def posted_mbox_def Let_def fresh_mbox_def)

theorem host_matmul_end_to_end_witness:
  "\<exists>view h' s'. serve_job (snitch_kernels int_fpu int_deeploy (\<lambda>_ m. m) (\<lambda>_. reset_ssr)) small_heap snitch_cfg
       [Complete 1, Idle, Complete 0, Complete 0] [Complete 0] (map of_nat [7::nat, 0, 3, 1, 2, 6, 5, 4]) 100 350
       (first_job (\<lambda>x. ucast x)) = Some s'
    \<and> hes_offload_matmul view HES_ENGINE_SNITCH 0x80001000 0x80002000 0x80003000 1 1 1 fresh_host = (0, h')
    \<and> hes_failures h' = 0 \<and> busy_cycles h' ! 1 = 250
    \<and> cs_mem s' 0x80003000 = MatMul_generic int_fpu 0x80001000 0x80002000 0x80003000 1 1 1 (\<lambda>x. ucast x) 0x80003000"
proof -
  let ?s = "first_job (\<lambda>x. ucast x)" and ?es = "[Complete 1, Idle, Complete 0, Complete 0]"
  have sel: "cs_mbox ?s = first_mbox" "cs_mem ?s = (\<lambda>x. ucast x)" by (simp_all add: first_job_def blank_cluster_def)
  have st: "stageable small_heap HES_K_MATMUL_FP32 ?s unit_ops ?es"
    using unit_assign unit_pre
    by (simp add: stageable_def sel first_mbox_sel unit_align unit_plan HES_JOB_STAGE_def)
      (simp add: first_job_def blank_cluster_def idle_dma_def unit_matmul_def)
  have sok: "matmul_sok int_fpu int_deeploy (\<lambda>_. reset_ssr) (my_nb_compute snitch_cfg) (mb_args (cs_mbox ?s))"
    unfolding sel first_mbox_sel by (rule unit_sok)
  have sep: "gemm_sep 0x80001000 0x80002000 0 0x80003000 1 1 1"
    unfolding gemm_sep_def by (intro conjI span_disjoint) simp_all
  have out: "0x80003000 \<notin> area (align64 (heap_start small_heap)) (heap_end small_heap)"
    by (simp add: area_def small_heap_def)
  have one: "1 \<le> completions [Complete 0]" by simp
  obtain s' where sv: "serve_job (snitch_kernels int_fpu int_deeploy (\<lambda>_ m. m) (\<lambda>_. reset_ssr)) small_heap snitch_cfg
       ?es [Complete 0] (map of_nat [7::nat, 0, 3, 1, 2, 6, 5, 4]) 100 350 ?s = Some s'"
    using matmul_staged.serve_staged [OF sok st one scrambled, of "\<lambda>_ m. m" 100 350] by blast
  define view where "view = (\<lambda>t :: nat. if t \<le> 4 then first_mbox else cs_mbox s')"
  have h: "host_wf fresh_host" "in_flight fresh_host ! 1 = 0" "mb_trap_cause (mboxes fresh_host (mbox_addr HES_ENGINE_SNITCH)) = 0"
    by (rule fresh_host_wf) (simp_all add: fresh_host_def fresh_mbox_def)
  have posted: "cs_mbox ?s = posted_mbox HES_ENGINE_SNITCH HES_K_MATMUL_FP32 (matmul_args 0x80001000 0x80002000 0x80003000 1 1 1)
      (of_nat HES_MM_NARGS) HES_JOB_STAGE (next_seq fresh_host ! 1 + 1) (mboxes fresh_host (mbox_addr HES_ENGINE_SNITCH))"
    by (simp add: sel first_mbox_def fresh_host_def)
  have seen: "answered view (next_seq fresh_host ! 1 + 1) 4 (cs_mbox s')"
    by (simp add: answered_def max_polls_eq view_def first_mbox_sel fresh_host_def)
  from host_matmul_end_to_end [OF h posted sok int_deeploy_ok(2) sep st one scrambled sv seen]
  obtain h' where "hes_offload_matmul view HES_ENGINE_SNITCH 0x80001000 0x80002000 0x80003000 1 1 1 fresh_host = (0, h')"
    "hes_failures h' = hes_failures fresh_host" "busy_cycles h' ! 1 = busy_cycles fresh_host ! 1 + (350 - 100)"
    "cs_mem s' 0x80003000 = MatMul_generic int_fpu 0x80001000 0x80002000 0x80003000 1 1 1 (\<lambda>x. ucast x) 0x80003000"
    using out unfolding sel by blast
  moreover have "hes_failures fresh_host = 0" "busy_cycles fresh_host ! 1 + (350 - 100) = 250"
    by (simp_all add: hes_failures_def fresh_host_def)
  ultimately show ?thesis using sv by (intro exI [of _ view] exI [of _ h'] exI [of _ s']) simp
qed

end
