(* ===== verification/Protocol.thy ===== *)
theory Protocol
  imports HostDriver
begin

text \<open>
  The mailbox protocol between the host and one cluster, one shared-memory access per step, in
  any interleaving: \<open>hes_post\<close> and \<open>hes_wait\<close> of \<open>hes_host.c\<close>, giving up included, against the
  control core's loop in \<open>cluster_main.c\<close> and the trap handler of \<open>crt0_cluster.S\<close>. The descriptor
  has no lock: it needs none as long as the host does not post over a job it gave up on, and the
  sequence number keeps the answers apart even then.
\<close>

section \<open>Program counters and state\<close>

text \<open>Where the host is: between jobs, filling the descriptor, publishing, polling, reading.\<close>

datatype hpc = HIdle | HArg nat | HKernel | HNargs | HFlags | HSeq | HBell | HPoll
  | HCycles | HCores | HStaged | HError | HOk | HGot

text \<open>Where the control core is: asleep (the first three), loading the job, running it, answering,
  or parked after a trap.\<close>

datatype cpc = CCheck | CWfi | CClear | CServe | CKernel | CArg nat | CFlags | CRun | COut
  | CCycles | CStaged | CCores | CDone | CTrapped

record job =
  w_kernel :: u32
  w_args :: "u32 list"
  w_nargs :: u32
  w_flags :: u32

text \<open>What a run of a job gives: error, cycles, staged.\<close>

type_synonym outcome = "u32 \<times> u32 \<times> u32"

text \<open>The part of the descriptor the cluster acts on: kernel, arguments, flags.\<close>

type_synonym descr = "u32 \<times> u32 list \<times> u32"

text \<open>
  Recorded only, never read by a step: \<open>y_pub\<close> (the descriptor when it was published), \<open>y_ran\<close> (the
  job run and what it gave), and the history as numbers that do not wrap: \<open>y_posts\<close> (how many jobs
  have been published), \<open>y_nserved\<close> and \<open>y_ndone\<close> (which of them the control core last took up and
  last answered), \<open>y_lapped\<close> (there once were \<open>2 ^ 32\<close> posts past the job last answered) and
  \<open>y_over\<close> (a post was begun over an unanswered job, and the cluster has not caught up since).
\<close>

record sys =
  y_h :: hpc
  y_c :: cpc
  y_mb :: mailbox
  y_bell :: bool
  y_next :: u32
  y_want :: job
  y_res :: hes_result
  y_served :: u32
  y_kernel :: u32
  y_args :: "u32 list"
  y_flags :: u32
  y_out_args :: "u32 list"
  y_pub :: descr
  y_ran :: "descr \<times> outcome"
  y_posts :: nat
  y_nserved :: nat
  y_ndone :: nat
  y_lapped :: bool
  y_over :: bool

definition descr_of :: "mailbox \<Rightarrow> descr" where
  "descr_of b = (mb_kernel_id b, mb_args b, mb_flags b)"

definition nb_args :: "job \<Rightarrow> nat" where
  "nb_args w = unat (min (w_nargs w) HES_MAILBOX_MAX_ARGS)"

definition set_mb :: "(mailbox \<Rightarrow> mailbox) \<Rightarrow> sys \<Rightarrow> sys" where
  "set_mb f s = s\<lparr>y_mb := f (y_mb s)\<rparr>"

section \<open>Steps\<close>

text \<open>
  The host. It polls as often as it likes and may give up after any poll (\<open>hes_wait\<close> does so after
  \<open>HES_MAX_HEARTBEATS * HES_HEARTBEAT_POLLS\<close> of them): \<open>in_flight\<close> is clear then, whether the job
  is done or not, and the next post is accepted.
\<close>

inductive hstep :: "sys \<Rightarrow> sys \<Rightarrow> bool" where
  h_post: "y_h s = HIdle \<Longrightarrow> nb_args w \<le> length (w_args w) \<Longrightarrow> 
    hstep s (s\<lparr>y_h := HArg 0, y_want := w, y_over := (y_ndone s \<noteq> y_posts s)\<rparr>)"
| h_arg: "y_h s = HArg i \<Longrightarrow> i < nb_args (y_want s) \<Longrightarrow>
    hstep s ((set_mb (\<lambda>b. b\<lparr>mb_args := (mb_args b)[i := w_args (y_want s) ! i]\<rparr>) s)\<lparr>y_h := HArg (Suc i)\<rparr>)"
| h_args_end: "y_h s = HArg i \<Longrightarrow> \<not> i < nb_args (y_want s) \<Longrightarrow> hstep s (s\<lparr>y_h := HKernel\<rparr>)"
| h_kernel: "y_h s = HKernel \<Longrightarrow>
    hstep s ((set_mb (\<lambda>b. b\<lparr>mb_kernel_id := w_kernel (y_want s)\<rparr>) s)\<lparr>y_h := HNargs\<rparr>)"
| h_nargs: "y_h s = HNargs \<Longrightarrow>
    hstep s ((set_mb (\<lambda>b. b\<lparr>mb_nargs := w_nargs (y_want s)\<rparr>) s)\<lparr>y_h := HFlags\<rparr>)"
| h_flags: "y_h s = HFlags \<Longrightarrow>
    hstep s ((set_mb (\<lambda>b. b\<lparr>mb_flags := w_flags (y_want s)\<rparr>) s)\<lparr>y_h := HSeq\<rparr>)"
| h_seq: "y_h s = HSeq \<Longrightarrow>
    hstep s ((set_mb (\<lambda>b. b\<lparr>mb_seq := y_next s + 1\<rparr>) s)\<lparr>y_next := y_next s + 1, y_pub := descr_of (y_mb s),
      y_posts := Suc (y_posts s), y_lapped := (y_lapped s \<or> y_ndone s + 2 ^ 32 \<le> Suc (y_posts s)), y_h := HBell\<rparr>)"
| h_bell: "y_h s = HBell \<Longrightarrow> hstep s (s\<lparr>y_bell := True, y_h := HPoll\<rparr>)"
| h_miss: "y_h s = HPoll \<Longrightarrow> mb_done_seq (y_mb s) \<noteq> y_next s \<Longrightarrow> hstep s s"
| h_hit: "y_h s = HPoll \<Longrightarrow> mb_done_seq (y_mb s) = y_next s \<Longrightarrow> hstep s (s\<lparr>y_h := HCycles\<rparr>)"
| h_cycles: "y_h s = HCycles \<Longrightarrow> hstep s (s\<lparr>y_res := (y_res s)\<lparr>r_cycles := mb_cycles (y_mb s)\<rparr>, y_h := HCores\<rparr>)"
| h_cores: "y_h s = HCores \<Longrightarrow> hstep s (s\<lparr>y_res := (y_res s)\<lparr>r_nb_cores := mb_nb_cores (y_mb s)\<rparr>, y_h := HStaged\<rparr>)"
| h_staged: "y_h s = HStaged \<Longrightarrow> hstep s (s\<lparr>y_res := (y_res s)\<lparr>r_staged := mb_staged (y_mb s)\<rparr>, y_h := HError\<rparr>)"
| h_error: "y_h s = HError \<Longrightarrow> hstep s (s\<lparr>y_res := (y_res s)\<lparr>r_error := mb_error (y_mb s)\<rparr>, y_h := HOk\<rparr>)"
| h_ok: "y_h s = HOk \<Longrightarrow> hstep s (s\<lparr>y_res := (y_res s)\<lparr>r_ok :=
      (if mb_trap_cause (y_mb s) = 0 \<and> mb_error (y_mb s) = 0 then 1 else 0)\<rparr>, y_h := HGot\<rparr>)"
| h_give_up: "y_h s = HPoll \<Longrightarrow> hstep s (s\<lparr>y_res := no_result, y_h := HIdle\<rparr>)"
| h_return: "y_h s = HGot \<Longrightarrow> hstep s (s\<lparr>y_h := HIdle\<rparr>)"

text \<open>
  The control core; what the job gives is any outcome, and the kernel, or the copying back of its
  results, may trap instead: \<open>mcause\<close>, whatever it is, is left in the mailbox, and nothing further
  happens, since a core that parks never joins the barrier the control core waits at.
\<close>

inductive cstep :: "u32 \<Rightarrow> sys \<Rightarrow> sys \<Rightarrow> bool" for nb :: u32 where
  c_sleep: "y_c s = CCheck \<Longrightarrow> mb_seq (y_mb s) = y_served s \<Longrightarrow> cstep nb s (s\<lparr>y_c := CWfi\<rparr>)"
| c_go: "y_c s = CCheck \<Longrightarrow> mb_seq (y_mb s) \<noteq> y_served s \<Longrightarrow> cstep nb s (s\<lparr>y_c := CServe\<rparr>)"
| c_wake: "y_c s = CWfi \<Longrightarrow> y_bell s \<Longrightarrow> cstep nb s (s\<lparr>y_c := CClear\<rparr>)"
| c_clear: "y_c s = CClear \<Longrightarrow> cstep nb s (s\<lparr>y_bell := False, y_c := CCheck\<rparr>)"
| c_serve: "y_c s = CServe \<Longrightarrow> cstep nb s (s\<lparr>y_served := mb_seq (y_mb s), y_nserved := y_posts s, y_c := CKernel\<rparr>)"
| c_kernel: "y_c s = CKernel \<Longrightarrow> cstep nb s (s\<lparr>y_kernel := mb_kernel_id (y_mb s), y_c := CArg 0\<rparr>)"
| c_arg: "y_c s = CArg i \<Longrightarrow> i < unat HES_MAILBOX_MAX_ARGS \<Longrightarrow>
    cstep nb s (s\<lparr>y_args := (y_args s)[i := mb_args (y_mb s) ! i], y_c := CArg (Suc i)\<rparr>)"
| c_args_end: "y_c s = CArg i \<Longrightarrow> \<not> i < unat HES_MAILBOX_MAX_ARGS \<Longrightarrow> cstep nb s (s\<lparr>y_c := CFlags\<rparr>)"
| c_flags: "y_c s = CFlags \<Longrightarrow> cstep nb s (s\<lparr>y_flags := mb_flags (y_mb s), y_c := CRun\<rparr>)"
| c_run: "y_c s = CRun \<Longrightarrow> cstep nb s ((set_mb (\<lambda>b. b\<lparr>mb_error := er\<rparr>) s)
      \<lparr>y_ran := ((y_kernel s, y_args s, y_flags s), (er, cy, st)), y_c := COut\<rparr>)"
| c_trap: "y_c s = CRun \<Longrightarrow> cstep nb s ((set_mb (\<lambda>b. b\<lparr>mb_error := er, mb_trap_cause := tc\<rparr>) s)\<lparr>y_c := CTrapped\<rparr>)"
| c_trap_out: "y_c s = CCycles \<Longrightarrow> cstep nb s ((set_mb (\<lambda>b. b\<lparr>mb_trap_cause := tc\<rparr>) s)\<lparr>y_c := CTrapped\<rparr>)"
| c_out: "y_c s = COut \<Longrightarrow> cstep nb s (s\<lparr>y_out_args := mb_args (y_mb s), y_c := CCycles\<rparr>)"
| c_cycles: "y_c s = CCycles \<Longrightarrow> y_ran s = (d, (er, cy, st)) \<Longrightarrow>
    cstep nb s ((set_mb (\<lambda>b. b\<lparr>mb_cycles := cy\<rparr>) s)\<lparr>y_c := CStaged\<rparr>)"
| c_staged: "y_c s = CStaged \<Longrightarrow> y_ran s = (d, (er, cy, st)) \<Longrightarrow>
    cstep nb s ((set_mb (\<lambda>b. b\<lparr>mb_staged := st\<rparr>) s)\<lparr>y_c := CCores\<rparr>)"
| c_cores: "y_c s = CCores \<Longrightarrow> cstep nb s ((set_mb (\<lambda>b. b\<lparr>mb_nb_cores := nb\<rparr>) s)\<lparr>y_c := CDone\<rparr>)"
| c_done: "y_c s = CDone \<Longrightarrow> cstep nb s ((set_mb (\<lambda>b. b\<lparr>mb_done_seq := y_served s\<rparr>) s)
      \<lparr>y_ndone := y_nserved s, y_over := (y_over s \<and> y_nserved s \<noteq> y_posts s), y_c := CCheck\<rparr>)"

text \<open>Any other interrupt also ends the \<open>wfi\<close>.\<close>

inductive istep :: "sys \<Rightarrow> sys \<Rightarrow> bool" where
  i_wake: "y_c s = CWfi \<Longrightarrow> istep s (s\<lparr>y_c := CClear\<rparr>)"

inductive reachable :: "u32 \<Rightarrow> sys \<Rightarrow> bool" for nb :: u32 where
  boot: "y_h s = HIdle \<Longrightarrow> y_c s = CCheck \<Longrightarrow> mb_seq (y_mb s) = 0 \<Longrightarrow> mb_done_seq (y_mb s) = 0
    \<Longrightarrow> mb_trap_cause (y_mb s) = 0 \<Longrightarrow> y_served s = 0 \<Longrightarrow> y_next s = 0 \<Longrightarrow> mbox_wf (y_mb s)
    \<Longrightarrow> length (y_args s) = 16 \<Longrightarrow> y_pub s = descr_of (y_mb s) \<Longrightarrow> y_posts s = 0 \<Longrightarrow> y_nserved s = 0 \<Longrightarrow> y_ndone s = 0
    \<Longrightarrow> \<not> y_lapped s \<Longrightarrow> \<not> y_over s \<Longrightarrow> reachable nb s"
| by_host: "reachable nb s \<Longrightarrow> hstep s s' \<Longrightarrow> reachable nb s'"
| by_cluster: "reachable nb s \<Longrightarrow> cstep nb s s' \<Longrightarrow> reachable nb s'"
| by_irq: "reachable nb s \<Longrightarrow> istep s s' \<Longrightarrow> reachable nb s'"

section \<open>The invariant\<close>

text \<open>Asleep: nothing of the descriptor is being read or written.\<close>

fun asleep :: "cpc \<Rightarrow> bool" where
  "asleep CCheck = True" | "asleep CWfi = True" | "asleep CClear = True" | "asleep _ = False"

text \<open>The host is writing a descriptor, or reading an answer.\<close>

fun filling :: "hpc \<Rightarrow> bool" where
  "filling (HArg i) = True" | "filling HKernel = True" | "filling HNargs = True" | "filling HFlags = True"
| "filling HSeq = True" | "filling _ = False"

fun reading :: "hpc \<Rightarrow> bool" where
  "reading HCycles = True" | "reading HCores = True" | "reading HStaged = True" | "reading HError = True"
| "reading HOk = True" | "reading HGot = True" | "reading _ = False"

text \<open>How far the host has written the wanted job.\<close>

fun host_fills :: "hpc \<Rightarrow> job \<Rightarrow> mailbox \<Rightarrow> bool" where
  "host_fills (HArg i) w b = (i \<le> nb_args w \<and> nb_args w \<le> length (w_args w) \<and> take i (mb_args b) = take i (w_args w))"
| "host_fills HKernel w b = (take (nb_args w) (mb_args b) = take (nb_args w) (w_args w))"
| "host_fills HNargs w b = (take (nb_args w) (mb_args b) = take (nb_args w) (w_args w) \<and> mb_kernel_id b = w_kernel w)"
| "host_fills HFlags w b = (take (nb_args w) (mb_args b) = take (nb_args w) (w_args w) \<and> mb_kernel_id b = w_kernel w)"
| "host_fills HSeq w b = (take (nb_args w) (mb_args b) = take (nb_args w) (w_args w) \<and> mb_kernel_id b = w_kernel w
     \<and> mb_flags b = w_flags w)"
| "host_fills _ w b = True"

text \<open>The published descriptor is the wanted job's.\<close>

definition is_wanted :: "job \<Rightarrow> descr \<Rightarrow> bool" where
  "is_wanted w d \<longleftrightarrow> fst d = w_kernel w \<and> take (nb_args w) (fst (snd d)) = take (nb_args w) (w_args w) \<and> snd (snd d) = w_flags w"

text \<open>The answer in the mailbox, and the arguments copied back through, are those of the run of \<open>d\<close>.\<close>

definition ran_job :: "descr \<Rightarrow> sys \<Rightarrow> bool" where
  "ran_job d s \<longleftrightarrow> fst (y_ran s) = d \<and> mb_error (y_mb s) = fst (snd (y_ran s))"

definition answered_job :: "u32 \<Rightarrow> descr \<Rightarrow> sys \<Rightarrow> bool" where
  "answered_job nb d s \<longleftrightarrow> ran_job d s \<and> y_out_args s = fst (snd d) \<and> mb_cycles (y_mb s) = fst (snd (snd (y_ran s)))
     \<and> mb_staged (y_mb s) = snd (snd (snd (y_ran s))) \<and> mb_nb_cores (y_mb s) = nb"

text \<open>How far the cluster has got with the published job \<open>d\<close>, once it has taken it up.\<close>

fun serving :: "cpc \<Rightarrow> u32 \<Rightarrow> descr \<Rightarrow> sys \<Rightarrow> bool" where
  "serving CServe nb d s = True"
| "serving CTrapped nb d s = True"
| "serving CKernel nb d s = True"
| "serving (CArg i) nb d s = (y_kernel s = fst d \<and> take i (y_args s) = take i (fst (snd d)))"
| "serving CFlags nb d s = (y_kernel s = fst d \<and> y_args s = fst (snd d))"
| "serving CRun nb d s = ((y_kernel s, y_args s, y_flags s) = d)"
| "serving COut nb d s = ran_job d s"
| "serving CCycles nb d s = (ran_job d s \<and> y_out_args s = fst (snd d))"
| "serving CStaged nb d s = (ran_job d s \<and> y_out_args s = fst (snd d) \<and> mb_cycles (y_mb s) = fst (snd (snd (y_ran s))))"
| "serving CCores nb d s = (ran_job d s \<and> y_out_args s = fst (snd d) \<and> mb_cycles (y_mb s) = fst (snd (snd (y_ran s)))
     \<and> mb_staged (y_mb s) = snd (snd (snd (y_ran s))))"
| "serving _ nb d s = answered_job nb d s"

text \<open>What the host has read so far of the answer.\<close>

fun has_read :: "hpc \<Rightarrow> sys \<Rightarrow> bool" where
  "has_read HCores s = (r_cycles (y_res s) = mb_cycles (y_mb s))"
| "has_read HStaged s = (r_cycles (y_res s) = mb_cycles (y_mb s) \<and> r_nb_cores (y_res s) = mb_nb_cores (y_mb s))"
| "has_read HError s = (r_cycles (y_res s) = mb_cycles (y_mb s) \<and> r_nb_cores (y_res s) = mb_nb_cores (y_mb s)
     \<and> r_staged (y_res s) = mb_staged (y_mb s))"
| "has_read HOk s = (r_cycles (y_res s) = mb_cycles (y_mb s) \<and> r_nb_cores (y_res s) = mb_nb_cores (y_mb s)
     \<and> r_staged (y_res s) = mb_staged (y_mb s) \<and> r_error (y_res s) = mb_error (y_mb s))"
| "has_read HGot s = (r_cycles (y_res s) = mb_cycles (y_mb s) \<and> r_nb_cores (y_res s) = mb_nb_cores (y_mb s)
     \<and> r_staged (y_res s) = mb_staged (y_mb s) \<and> r_error (y_res s) = mb_error (y_mb s)
     \<and> r_ok (y_res s) = (if mb_error (y_mb s) = 0 then 1 else 0))"
| "has_read _ s = True"

text \<open>The words are the numbers, and served jobs are answered one at a time.\<close>

definition seqs :: "sys \<Rightarrow> bool" where
  "seqs s \<longleftrightarrow> mb_seq (y_mb s) = y_next s \<and> y_next s = of_nat (y_posts s) \<and> y_served s = of_nat (y_nserved s)
     \<and> mb_done_seq (y_mb s) = of_nat (y_ndone s) \<and> y_ndone s \<le> y_nserved s \<and> y_nserved s \<le> y_posts s"

definition shape :: "sys \<Rightarrow> bool" where
  "shape s \<longleftrightarrow> length (mb_args (y_mb s)) = 16 \<and> length (y_args s) = 16 \<and> (y_c s \<noteq> CTrapped \<longrightarrow> mb_trap_cause (y_mb s) = 0)
     \<and> (\<forall>i. y_c s = CArg i \<longrightarrow> i \<le> 16)"

definition taken :: "sys \<Rightarrow> bool" where
  "taken s \<longleftrightarrow> (if asleep (y_c s) then y_ndone s = y_nserved s
     else if y_c s = CServe then y_ndone s = y_nserved s \<and> y_nserved s < y_posts s
     else y_ndone s < y_nserved s)"

definition past :: "sys \<Rightarrow> bool" where
  "past s \<longleftrightarrow> (\<not> y_lapped s \<longrightarrow> y_posts s < y_ndone s + 2 ^ 32)
     \<and> (\<not> y_over s \<longrightarrow> y_posts s \<le> Suc (y_ndone s) \<and> (filling (y_h s) \<or> reading (y_h s) \<longrightarrow> y_ndone s = y_posts s))"

definition host_side :: "sys \<Rightarrow> bool" where
  "host_side s \<longleftrightarrow> host_fills (y_h s) (y_want s) (y_mb s) \<and> (\<not> filling (y_h s) \<longrightarrow> descr_of (y_mb s) = y_pub s)
     \<and> (y_h s = HBell \<or> y_h s = HPoll \<or> reading (y_h s) \<longrightarrow> 0 < y_posts s \<and> is_wanted (y_want s) (y_pub s))"

definition cluster_side :: "u32 \<Rightarrow> sys \<Rightarrow> bool" where
  "cluster_side nb s \<longleftrightarrow> (\<not> filling (y_h s) \<and> 0 < y_posts s \<and> y_nserved s = y_posts s \<longrightarrow> serving (y_c s) nb (y_pub s) s)"

definition answer_side :: "sys \<Rightarrow> bool" where
  "answer_side s \<longleftrightarrow> (\<not> y_lapped s \<and> reading (y_h s) \<longrightarrow> y_ndone s = y_posts s \<and> has_read (y_h s) s)"

definition no_lost_wakeup :: "sys \<Rightarrow> bool" where
  "no_lost_wakeup s \<longleftrightarrow> (y_c s = CWfi \<and> mb_seq (y_mb s) \<noteq> y_served s \<longrightarrow> y_bell s \<or> y_h s = HBell)"

definition inv :: "u32 \<Rightarrow> sys \<Rightarrow> bool" where
  "inv nb s \<longleftrightarrow> seqs s \<and> shape s \<and> taken s \<and> past s \<and> host_side s \<and> cluster_side nb s \<and> answer_side s \<and> no_lost_wakeup s"

lemma descr_of_upd [simp]:
  "descr_of (b\<lparr>mb_seq := x\<rparr>) = descr_of b" "descr_of (b\<lparr>mb_done_seq := x\<rparr>) = descr_of b" "descr_of (b\<lparr>mb_error := x\<rparr>) = descr_of b"
  "descr_of (b\<lparr>mb_cycles := x\<rparr>) = descr_of b" "descr_of (b\<lparr>mb_staged := x\<rparr>) = descr_of b" "descr_of (b\<lparr>mb_nb_cores := x\<rparr>) = descr_of b"
  "descr_of (b\<lparr>mb_trap_cause := x\<rparr>) = descr_of b"
  by (simp_all add: descr_of_def)

lemma serving_cong:
  assumes "y_kernel s' = y_kernel s" "y_args s' = y_args s" "y_flags s' = y_flags s" "y_ran s' = y_ran s" "y_out_args s' = y_out_args s"
    "y_mb s' = y_mb s"
  shows "serving c nb d s' = serving c nb d s"
  using assms by (cases c) (simp_all add: ran_job_def answered_job_def)

lemma host_fills_cong:
  "mb_args b' = mb_args b \<Longrightarrow> mb_kernel_id b' = mb_kernel_id b \<Longrightarrow> mb_flags b' = mb_flags b \<Longrightarrow> host_fills h w b' = host_fills h w b"
  by (cases h) simp_all

lemma host_fills_upd [simp]:
  "host_fills h w (b\<lparr>mb_done_seq := x\<rparr>) = host_fills h w b" "host_fills h w (b\<lparr>mb_error := x\<rparr>) = host_fills h w b"
  "host_fills h w (b\<lparr>mb_cycles := x\<rparr>) = host_fills h w b" "host_fills h w (b\<lparr>mb_staged := x\<rparr>) = host_fills h w b"
  "host_fills h w (b\<lparr>mb_nb_cores := x\<rparr>) = host_fills h w b" "host_fills h w (b\<lparr>mb_trap_cause := x\<rparr>) = host_fills h w b"
  by (rule host_fills_cong; simp)+

lemma has_read_cong: "y_res s' = y_res s \<Longrightarrow> y_mb s' = y_mb s \<Longrightarrow> has_read h s' = has_read h s"
  by (cases h) simp_all

lemma serving_upd [simp]:
  "serving c nb d (s\<lparr>y_h := h\<rparr>) = serving c nb d s" "serving c nb d (s\<lparr>y_bell := bl\<rparr>) = serving c nb d s"
  "serving c nb d (s\<lparr>y_res := r\<rparr>) = serving c nb d s" "serving c nb d (s\<lparr>y_c := c'\<rparr>) = serving c nb d s"
  "serving c nb d (s\<lparr>y_want := w\<rparr>) = serving c nb d s" "serving c nb d (s\<lparr>y_over := ov\<rparr>) = serving c nb d s"
  by (rule serving_cong; simp)+

lemma has_read_upd [simp]:
  "has_read h (s\<lparr>y_c := c\<rparr>) = has_read h s" "has_read h (s\<lparr>y_bell := bl\<rparr>) = has_read h s" "has_read h (s\<lparr>y_h := h'\<rparr>) = has_read h s"
  "has_read h (s\<lparr>y_served := sv\<rparr>) = has_read h s" "has_read h (s\<lparr>y_nserved := nv\<rparr>) = has_read h s"
  "has_read h (s\<lparr>y_kernel := kn\<rparr>) = has_read h s" "has_read h (s\<lparr>y_args := ar\<rparr>) = has_read h s"
  "has_read h (s\<lparr>y_flags := fl\<rparr>) = has_read h s" "has_read h (s\<lparr>y_out_args := oa\<rparr>) = has_read h s"
  by (rule has_read_cong; simp)+

lemma take_update: "i < length xs \<Longrightarrow> take i xs = take i ys \<Longrightarrow> i < length ys \<Longrightarrow> take (Suc i) (xs[i := ys ! i]) = take (Suc i) ys"
  by (simp add: take_Suc_conv_app_nth)

lemma nb_args_le: "nb_args w \<le> 16"
  by (simp add: nb_args_def HES_MAILBOX_MAX_ARGS_def min_def word_le_nat_alt)

lemma u32_of_nat_inj:
  assumes "of_nat m = (of_nat n :: u32)" and "m \<le> n" and "n < m + 2 ^ 32"
  shows "m = n"
proof -
  have "n mod 2 ^ 32 = m mod 2 ^ 32" using assms(1) by (simp add: word_of_nat_eq_iff take_bit_eq_mod)
  then have "2 ^ 32 dvd n - m" using assms(2) by (simp add: mod_eq_dvd_iff_nat)
  then show ?thesis using assms(2,3) by (auto dest: dvd_imp_le)
qed

lemma inv_boot:
  assumes "y_h s = HIdle" "y_c s = CCheck" "mb_seq (y_mb s) = 0" "mb_done_seq (y_mb s) = 0"
    "mb_trap_cause (y_mb s) = 0" "y_served s = 0" "y_next s = 0" "mbox_wf (y_mb s)" "length (y_args s) = 16"
    "y_pub s = descr_of (y_mb s)" "y_posts s = 0" "y_nserved s = 0" "y_ndone s = 0" "\<not> y_lapped s" "\<not> y_over s"
  shows "inv nb s"
  using assms by (simp add: inv_def seqs_def shape_def taken_def past_def host_side_def cluster_side_def answer_side_def
    no_lost_wakeup_def mbox_wf_def HES_MAILBOX_MAX_ARGS_def)

lemma inv_wakes:
  assumes "inv nb s" and "y_c s = CWfi"
  shows "inv nb (s\<lparr>y_c := CClear\<rparr>)"
proof -
  have "seqs (s\<lparr>y_c := CClear\<rparr>)" "shape (s\<lparr>y_c := CClear\<rparr>)" "taken (s\<lparr>y_c := CClear\<rparr>)"
    using assms by (auto simp: inv_def seqs_def shape_def taken_def)
  moreover have "past (s\<lparr>y_c := CClear\<rparr>)" "host_side (s\<lparr>y_c := CClear\<rparr>)" "answer_side (s\<lparr>y_c := CClear\<rparr>)"
    using assms by (simp_all add: inv_def past_def host_side_def answer_side_def)
  moreover have "cluster_side nb (s\<lparr>y_c := CClear\<rparr>)" "no_lost_wakeup (s\<lparr>y_c := CClear\<rparr>)"
    using assms by (auto simp: inv_def cluster_side_def no_lost_wakeup_def)
  ultimately show ?thesis by (simp add: inv_def)
qed

lemma inv_istep: "inv nb s \<Longrightarrow> istep s s' \<Longrightarrow> inv nb s'"
  by (erule istep.cases) (simp add: inv_wakes)

subsection \<open>The host's steps\<close>

lemma hstep_seqs: "hstep s s' \<Longrightarrow> seqs s \<Longrightarrow> seqs s'"
  by (erule hstep.cases) (auto simp: seqs_def set_mb_def)

lemma hstep_shape: "hstep s s' \<Longrightarrow> shape s \<Longrightarrow> shape s'"
  by (erule hstep.cases) (auto simp: shape_def set_mb_def)

lemma hstep_taken: "hstep s s' \<Longrightarrow> taken s \<Longrightarrow> taken s'"
  by (erule hstep.cases) (auto simp: taken_def set_mb_def split: if_splits)

lemma hit_is_last:
  assumes "seqs s" and "mb_done_seq (y_mb s) = y_next s" and "y_posts s < y_ndone s + 2 ^ 32"
  shows "y_ndone s = y_posts s"
proof (rule u32_of_nat_inj)
  show "of_nat (y_ndone s) = (of_nat (y_posts s) :: u32)" using assms(1,2) unfolding seqs_def by metis
  show "y_ndone s \<le> y_posts s" using assms(1) by (simp add: seqs_def)
qed (rule assms(3))

lemma hstep_past:
  assumes "hstep s s'" and "past s" and "seqs s"
  shows "past s'"
  using assms(1)
proof cases
  case h_hit
  then show ?thesis using assms(2,3) hit_is_last [of s] by (auto simp: past_def)
next
  case h_post
  then show ?thesis using assms(2) by (auto simp: past_def)
qed (use assms(2) in \<open>auto simp: past_def set_mb_def\<close>)

lemma hstep_host_side:
  assumes "hstep s s'" and "host_side s" and "shape s"
  shows "host_side s'"
  using assms(1)
proof cases
  case (h_arg i)
  have n: "i < 16" using h_arg(3) nb_args_le [of "y_want s"] by linarith
  have "take (Suc i) ((mb_args (y_mb s))[i := w_args (y_want s) ! i]) = take (Suc i) (w_args (y_want s))"
    by (rule take_update) (use assms(2,3) n h_arg in \<open>auto simp: host_side_def shape_def\<close>)
  then show ?thesis using assms(2) h_arg by (auto simp: host_side_def set_mb_def)
next
  case (h_args_end i)
  then show ?thesis using assms(2) by (auto simp: host_side_def)
next
  case h_seq
  then show ?thesis using assms(2) by (auto simp: host_side_def set_mb_def is_wanted_def descr_of_def)
qed (use assms(2) in \<open>auto simp: host_side_def set_mb_def\<close>)

lemma hstep_cluster_side: "hstep s s' \<Longrightarrow> cluster_side nb s \<Longrightarrow> seqs s \<Longrightarrow> cluster_side nb s'"
  by (erule hstep.cases) (auto simp: cluster_side_def seqs_def set_mb_def)

lemma hstep_answer_side:
  assumes "hstep s s'" and "answer_side s" and "seqs s" and "past s" and "taken s" and "shape s"
  shows "answer_side s'"
  using assms(1)
proof cases
  case h_hit
  then show ?thesis using assms hit_is_last [of s] by (auto simp: answer_side_def past_def)
next
  case h_ok
  have "y_ndone s = y_posts s \<Longrightarrow> mb_trap_cause (y_mb s) = 0"
    using assms(3,5,6) by (cases "y_c s = CTrapped") (auto simp: taken_def seqs_def shape_def)
  then show ?thesis using assms(2) h_ok by (auto simp: answer_side_def)
qed (use assms(2) in \<open>auto simp: answer_side_def set_mb_def\<close>)

lemma hstep_no_lost_wakeup: "hstep s s' \<Longrightarrow> no_lost_wakeup s \<Longrightarrow> no_lost_wakeup s'"
  by (erule hstep.cases) (auto simp: no_lost_wakeup_def set_mb_def)

lemma inv_hstep: "inv nb s \<Longrightarrow> hstep s s' \<Longrightarrow> inv nb s'"
  unfolding inv_def
  using hstep_seqs hstep_shape hstep_taken hstep_past hstep_host_side hstep_cluster_side hstep_answer_side hstep_no_lost_wakeup by blast

subsection \<open>The control core's steps\<close>

lemma cstep_shape: "cstep nb s s' \<Longrightarrow> shape s \<Longrightarrow> shape s'"
  by (erule cstep.cases) (auto simp: shape_def set_mb_def HES_MAILBOX_MAX_ARGS_def)

lemma cstep_seqs: "cstep nb s s' \<Longrightarrow> seqs s \<Longrightarrow> seqs s'"
  by (erule cstep.cases) (auto simp: seqs_def set_mb_def)

lemma cstep_taken:
  assumes "cstep nb s s'" and "taken s" and "seqs s"
  shows "taken s'"
  using assms(1)
proof cases
  case c_go
  then have "y_nserved s \<noteq> y_posts s" using assms(3) by (auto simp: seqs_def)
  then show ?thesis using c_go assms by (auto simp: taken_def seqs_def)
qed (use assms(2) in \<open>auto simp: taken_def set_mb_def\<close>)

lemma cstep_past: "cstep nb s s' \<Longrightarrow> past s \<Longrightarrow> taken s \<Longrightarrow> seqs s \<Longrightarrow> past s'"
  by (erule cstep.cases) (auto simp: past_def set_mb_def taken_def seqs_def)

lemma cstep_host_side: "cstep nb s s' \<Longrightarrow> host_side s \<Longrightarrow> host_side s'"
  by (erule cstep.cases) (auto simp: host_side_def set_mb_def)

lemma cstep_no_lost_wakeup: "cstep nb s s' \<Longrightarrow> no_lost_wakeup s \<Longrightarrow> no_lost_wakeup s'"
  by (erule cstep.cases) (auto simp: no_lost_wakeup_def set_mb_def)

lemma cstep_answer_side:
  assumes "cstep nb s s'" and "answer_side s" and "taken s" and "seqs s"
  shows "answer_side s'"
proof (cases "y_ndone s = y_posts s")
  case True
  then have "asleep (y_c s)" "mb_seq (y_mb s) = y_served s"
    using assms(3,4) by (auto simp: taken_def seqs_def split: if_splits)
  with assms(1) show ?thesis by cases (use assms(2) in \<open>auto simp: answer_side_def\<close>)
next
  case False
  then have "\<not> (\<not> y_lapped s \<and> reading (y_h s))" using assms(2) by (auto simp: answer_side_def)
  moreover have "y_h s' = y_h s \<and> y_lapped s' = y_lapped s" using assms(1) by cases (auto simp: set_mb_def)
  ultimately have "\<not> (\<not> y_lapped s' \<and> reading (y_h s'))" by simp
  then show ?thesis by (auto simp: answer_side_def)
qed

lemma descr_parts:
  "descr_of b = d \<Longrightarrow> fst d = mb_kernel_id b \<and> fst (snd d) = mb_args b \<and> snd (snd d) = mb_flags b"
  by (auto simp: descr_of_def)

lemma cstep_cluster_side:
  assumes "cstep nb s s'" and "cluster_side nb s" and "host_side s" and "shape s"
  shows "cluster_side nb s'"
proof (cases "filling (y_h s) \<or> y_posts s = 0")
  case True
  have "y_h s' = y_h s \<and> y_posts s' = y_posts s" using assms(1) by cases (auto simp: set_mb_def)
  then show ?thesis using True by (auto simp: cluster_side_def)
next
  case False
  then have d: "mb_kernel_id (y_mb s) = fst (y_pub s)" "mb_args (y_mb s) = fst (snd (y_pub s))" "mb_flags (y_mb s) = snd (snd (y_pub s))"
    using assms(3) descr_parts [of "y_mb s" "y_pub s"] by (auto simp: host_side_def)
  from assms(1) show ?thesis
  proof cases
    case (c_arg i)
    have i: "i < 16" using c_arg(3) by (simp add: HES_MAILBOX_MAX_ARGS_def)
    have "take (Suc i) ((y_args s)[i := mb_args (y_mb s) ! i]) = take (Suc i) (mb_args (y_mb s))"
      if "take i (y_args s) = take i (mb_args (y_mb s))"
      by (rule take_update) (use that i assms(4) in \<open>auto simp: shape_def\<close>)
    then show ?thesis using c_arg assms(2) d False by (auto simp: cluster_side_def)
  next
    case (c_args_end i)
    then show ?thesis using assms(2,4) d False by (auto simp: cluster_side_def shape_def HES_MAILBOX_MAX_ARGS_def)
  next
    case c_flags
    then show ?thesis using assms(2) d False by (auto simp: cluster_side_def prod_eq_iff)
  qed (use assms(2) d False in \<open>auto simp: cluster_side_def set_mb_def ran_job_def answered_job_def\<close>)
qed

lemma inv_cstep:
  assumes "inv nb s" and "cstep nb s s'"
  shows "inv nb s'"
  using assms(1) cstep_seqs [OF assms(2)] cstep_shape [OF assms(2)] cstep_taken [OF assms(2)] cstep_past [OF assms(2)]
    cstep_host_side [OF assms(2)] cstep_cluster_side [OF assms(2)] cstep_answer_side [OF assms(2)] cstep_no_lost_wakeup [OF assms(2)]
  by (simp add: inv_def)

lemma reachable_inv: "reachable nb s \<Longrightarrow> inv nb s"
  by (induction rule: reachable.induct) (rule inv_boot inv_hstep inv_cstep inv_istep; assumption)+


section \<open>What the protocol guarantees\<close>

text \<open>
  C21. The answer the host returns is the answer to the job it posted. In every interleaving of
  the two sides, with any number of earlier jobs given up on, when the host has read the answer
  it is about to return: the job that was run is exactly the published descriptor, the descriptor
  is the kernel, arguments and flags this call was given, the arguments used for copying the
  result back are the same ones, and the cycles, cores, staging and error read are those of that
  run. The one condition is that the host never was \<open>2 ^ 32\<close> posts ahead of the job last answered,
  when the sequence numbers would coincide.
\<close>

theorem answer_is_to_the_posted_job:
  assumes "reachable nb s" and "y_h s = HGot" and "\<not> y_lapped s"
  shows "fst (y_ran s) = y_pub s \<and> is_wanted (y_want s) (y_pub s) \<and> y_out_args s = fst (snd (y_pub s))
    \<and> r_error (y_res s) = fst (snd (y_ran s)) \<and> r_cycles (y_res s) = fst (snd (snd (y_ran s)))
    \<and> r_staged (y_res s) = snd (snd (snd (y_ran s))) \<and> r_nb_cores (y_res s) = nb
    \<and> (r_ok (y_res s) \<noteq> 0 \<longleftrightarrow> fst (snd (y_ran s)) = 0)"
proof -
  have i: "inv nb s" by (rule reachable_inv [OF assms(1)])
  then have r: "y_ndone s = y_posts s" "has_read HGot s" and w: "is_wanted (y_want s) (y_pub s)" "0 < y_posts s"
    using assms(2,3) by (simp_all add: inv_def answer_side_def host_side_def)
  then have n: "y_nserved s = y_posts s" "asleep (y_c s)"
    using i by (auto simp: inv_def seqs_def taken_def split: if_splits)
  then have "serving (y_c s) nb (y_pub s) s" using i assms(2) w(2) by (simp add: inv_def cluster_side_def)
  then have "answered_job nb (y_pub s) s" using n(2) by (cases "y_c s") simp_all
  then show ?thesis using r(2) w(1) by (cases "mb_error (y_mb s) = 0") (simp_all add: answered_job_def ran_job_def)
qed


section \<open>Progress\<close>

text \<open>
  Steps the control core still has to take for a posted job; an older job that it is still at
  comes first.
\<close>

fun steps_left :: "cpc \<Rightarrow> nat" where
  "steps_left CWfi = 30" | "steps_left CClear = 29" | "steps_left CCheck = 28" | "steps_left CServe = 27"
| "steps_left CKernel = 26" | "steps_left (CArg i) = 25 - i" | "steps_left CFlags = 8" | "steps_left CRun = 7"
| "steps_left COut = 6" | "steps_left CCycles = 5" | "steps_left CStaged = 4" | "steps_left CCores = 3" | "steps_left CDone = 2"
| "steps_left CTrapped = 0"

definition work_left :: "sys \<Rightarrow> nat" where
  "work_left s = steps_left (y_c s) + (if asleep (y_c s) \<or> y_c s = CServe \<or> y_served s = y_next s then 0 else 30)"

definition outstanding :: "sys \<Rightarrow> bool" where
  "outstanding s \<longleftrightarrow> y_h s = HPoll \<and> y_c s \<noteq> CTrapped \<and> mb_done_seq (y_mb s) \<noteq> y_next s"

lemma outstanding_unserved:
  assumes "inv nb s" and "outstanding s"
  shows "asleep (y_c s) \<Longrightarrow> mb_seq (y_mb s) \<noteq> y_served s" and "y_c s = CWfi \<Longrightarrow> y_bell s"
proof -
  show a: "mb_seq (y_mb s) \<noteq> y_served s" if "asleep (y_c s)"
    using that assms by (auto simp: inv_def taken_def seqs_def outstanding_def)
  show "y_bell s" if "y_c s = CWfi" using a that assms by (auto simp: inv_def no_lost_wakeup_def outstanding_def)
qed

lemma steps_on: "cstep nb s t \<Longrightarrow> y_c t \<noteq> CTrapped \<Longrightarrow> \<exists>s'. cstep nb s s' \<and> y_c s' \<noteq> CTrapped"
  by blast

lemma outstanding_can_step:
  assumes "inv nb s" and "outstanding s"
  shows "\<exists>s'. cstep nb s s' \<and> y_c s' \<noteq> CTrapped"
proof (cases "y_c s")
  case CWfi
  show ?thesis by (rule steps_on [OF c_wake [OF CWfi outstanding_unserved(2) [OF assms CWfi]]]) simp
next
  case CCheck
  then have "mb_seq (y_mb s) \<noteq> y_served s" using outstanding_unserved(1) [OF assms] by simp
  show ?thesis by (rule steps_on [OF c_go [OF CCheck \<open>mb_seq _ \<noteq> _\<close>]]) simp
next
  case (CArg i)
  show ?thesis
  proof (cases "i < unat HES_MAILBOX_MAX_ARGS")
    case True
    show ?thesis by (rule steps_on [OF c_arg [OF CArg True]]) simp
  next
    case False
    show ?thesis by (rule steps_on [OF c_args_end [OF CArg False]]) simp
  qed
next
  case CRun
  show ?thesis by (rule steps_on [OF c_run [OF CRun]]) (simp add: set_mb_def)
next
  case CCycles
  obtain d er cy st where "y_ran s = (d, er, cy, st)" by (cases "y_ran s") auto
  then show ?thesis by (rule steps_on [OF c_cycles [OF CCycles]]) (simp add: set_mb_def)
next
  case CStaged
  obtain d er cy st where "y_ran s = (d, er, cy, st)" by (cases "y_ran s") auto
  then show ?thesis by (rule steps_on [OF c_staged [OF CStaged]]) (simp add: set_mb_def)
next
  case CTrapped
  then show ?thesis using assms(2) by (simp add: outstanding_def)
next
  case CClear
  show ?thesis by (rule steps_on [OF c_clear [OF CClear]]) simp
next
  case CServe
  show ?thesis by (rule steps_on [OF c_serve [OF CServe]]) simp
next
  case CKernel
  show ?thesis by (rule steps_on [OF c_kernel [OF CKernel]]) simp
next
  case CFlags
  show ?thesis by (rule steps_on [OF c_flags [OF CFlags]]) simp
next
  case COut
  show ?thesis by (rule steps_on [OF c_out [OF COut]]) simp
next
  case CCores
  show ?thesis by (rule steps_on [OF c_cores [OF CCores]]) (simp add: set_mb_def)
next
  case CDone
  show ?thesis by (rule steps_on [OF c_done [OF CDone]]) (simp add: set_mb_def)
qed

lemma outstanding_step_decreases:
  assumes "inv nb s" and "outstanding s" and "cstep nb s s'"
  shows "y_c s' = CTrapped \<or> (outstanding s' \<and> work_left s' < work_left s) \<or> mb_done_seq (y_mb s') = y_next s'"
  using assms(3)
proof cases
  case c_sleep
  then show ?thesis using outstanding_unserved [OF assms(1,2)] by auto
next
  case c_serve
  then show ?thesis using assms(1,2) by (auto simp: outstanding_def work_left_def inv_def seqs_def)
next
  case (c_args_end i)
  have "i \<le> 16" using assms(1) c_args_end(2) by (simp add: inv_def shape_def)
  then show ?thesis using c_args_end assms(2) by (simp add: outstanding_def work_left_def)
next
  case (c_arg i)
  then show ?thesis using assms(2) by (simp add: outstanding_def work_left_def HES_MAILBOX_MAX_ARGS_def)
qed (use assms(2) in \<open>auto simp: outstanding_def set_mb_def work_left_def\<close>)

lemma cstep_keeps: "cstep nb s s' \<Longrightarrow> y_h s' = y_h s \<and> y_next s' = y_next s \<and> y_want s' = y_want s \<and> y_pub s' = y_pub s
    \<and> y_lapped s' = y_lapped s \<and> y_posts s' = y_posts s"
  by (erule cstep.cases) (simp_all add: set_mb_def)

lemma work_left_le: "work_left s \<le> 56"
proof -
  have "steps_left c \<le> 26" if "\<not> asleep c" "c \<noteq> CServe" for c using that by (cases c) auto
  moreover have "steps_left c \<le> 56" for c by (cases c) auto
  ultimately show ?thesis by (auto simp: work_left_def dest: meta_spec [of _ "y_c s"])
qed

lemma outstanding_is_answered:
  assumes "inv nb s" and "outstanding s"
  shows "\<exists>n s'. n \<le> work_left s \<and> (cstep nb ^^ n) s s' \<and> mb_done_seq (y_mb s') = y_next s' \<and> y_next s' = y_next s"
  using assms
proof (induction "work_left s" arbitrary: s rule: less_induct)
  case less
  obtain t where t: "cstep nb s t" "y_c t \<noteq> CTrapped" using outstanding_can_step [OF less.prems] by blast
  have it: "inv nb t" by (rule inv_cstep [OF less.prems(1) t(1)])
  have pos: "0 < work_left s" using less.prems
    by (cases "y_c s") (auto simp: work_left_def outstanding_def inv_def shape_def)
  from outstanding_step_decreases [OF less.prems t(1)] t(2) show ?case
  proof (elim disjE)
    assume a: "outstanding t \<and> work_left t < work_left s"
    from less.hyps [OF conjunct2 [OF a] it conjunct1 [OF a]] obtain n s' where
      n: "n \<le> work_left t" "(cstep nb ^^ n) t s'" "mb_done_seq (y_mb s') = y_next s'" "y_next s' = y_next t" by blast
    then have "(cstep nb ^^ Suc n) s s'" using t by (intro relpowp_Suc_I2)
    then show ?thesis using a cstep_keeps [OF t(1)] n
      by (intro exI [of _ "Suc n"] exI [of _ s']) (simp del: relpowp.simps)
  next
    assume "mb_done_seq (y_mb t) = y_next t"
    then show ?thesis using t pos cstep_keeps [OF t(1)] by (intro exI [of _ 1] exI [of _ t]) auto
  qed blast
qed

lemma polled_job_is_answered:
  assumes "reachable nb s" and "y_h s = HPoll" and "mb_done_seq (y_mb s) \<noteq> y_next s" and "y_c s \<noteq> CTrapped"
  shows "(\<exists>s'. cstep nb s s' \<and> y_c s' \<noteq> CTrapped)
    \<and> (\<forall>s'. cstep nb s s' \<longrightarrow> y_c s' = CTrapped \<or> work_left s' < work_left s \<and> y_h s' = HPoll
         \<or> mb_done_seq (y_mb s') = y_next s')
    \<and> (\<exists>n s'. n \<le> 56 \<and> (cstep nb ^^ n) s s' \<and> mb_done_seq (y_mb s') = y_next s' \<and> y_next s' = y_next s)"
proof -
  have o: "outstanding s" using assms by (simp add: outstanding_def)
  note i = reachable_inv [OF assms(1)]
  have "\<exists>n s'. n \<le> 56 \<and> (cstep nb ^^ n) s s' \<and> mb_done_seq (y_mb s') = y_next s' \<and> y_next s' = y_next s"
    using outstanding_is_answered [OF i o] work_left_le [of s] by (meson le_trans)
  then show ?thesis
    using outstanding_can_step [OF i o] outstanding_step_decreases [OF i o] by (auto simp: outstanding_def)
qed


lemma trapped_is_stuck:
  assumes "y_c s = CTrapped"
  shows "\<not> cstep nb s s'" and "\<not> istep s s'" and "hstep s s' \<Longrightarrow> y_c s' = CTrapped \<and> mb_done_seq (y_mb s') = mb_done_seq (y_mb s)"
  using assms by (auto elim!: cstep.cases istep.cases hstep.cases simp: set_mb_def)

section \<open>A post is one run of the host's steps\<close>

lemma reachable_hsteps: "hstep\<^sup>*\<^sup>* s s' \<Longrightarrow> reachable nb s \<Longrightarrow> reachable nb s'"
  by (induction rule: rtranclp_induct) (auto intro: by_host)

lemma reachable_csteps: "(cstep nb ^^ n) s s' \<Longrightarrow> reachable nb s \<Longrightarrow> reachable nb s'"
  by (induction n arbitrary: s') (auto intro: by_cluster)

lemma arg_steps:
  assumes "y_h s = HArg 0" and "i \<le> nb_args (y_want s)" and "nb_args (y_want s) \<le> length (w_args (y_want s))"
    and "length (mb_args (y_mb s)) = 16"
  shows "hstep\<^sup>*\<^sup>* s (s\<lparr>y_mb := (y_mb s)\<lparr>mb_args := take i (w_args (y_want s)) @ drop i (mb_args (y_mb s))\<rparr>, y_h := HArg i\<rparr>)"
  using assms(2)
proof (induction i)
  case 0
  have "s\<lparr>y_mb := (y_mb s)\<lparr>mb_args := take 0 (w_args (y_want s)) @ drop 0 (mb_args (y_mb s))\<rparr>, y_h := HArg 0\<rparr> = s"
    using assms(1) by simp
  then show ?case by simp
next
  case (Suc i)
  let ?t = "s\<lparr>y_mb := (y_mb s)\<lparr>mb_args := take i (w_args (y_want s)) @ drop i (mb_args (y_mb s))\<rparr>, y_h := HArg i\<rparr>"
  have i: "i < length (w_args (y_want s))" "i < length (mb_args (y_mb s))"
    using Suc.prems assms(3,4) nb_args_le [of "y_want s"] by linarith+
  have "hstep ?t ((set_mb (\<lambda>b. b\<lparr>mb_args := (mb_args b)[i := w_args (y_want s) ! i]\<rparr>) ?t)\<lparr>y_h := HArg (Suc i)\<rparr>)"
    using h_arg [of ?t i] Suc.prems by simp
  moreover have "(take i (w_args (y_want s)) @ drop i (mb_args (y_mb s)))[i := w_args (y_want s) ! i]
      = take (Suc i) (w_args (y_want s)) @ drop (Suc i) (mb_args (y_mb s))"
    using i by (simp add: list_update_append take_Suc_conv_app_nth Cons_nth_drop_Suc [symmetric])
  ultimately have "hstep ?t (s\<lparr>y_mb := (y_mb s)\<lparr>mb_args := take (Suc i) (w_args (y_want s)) @ drop (Suc i) (mb_args (y_mb s))\<rparr>,
      y_h := HArg (Suc i)\<rparr>)"
    by (simp add: set_mb_def)
  with Suc show ?case by (simp add: rtranclp.rtrancl_into_rtrancl)
qed

definition posted_state :: "job \<Rightarrow> sys \<Rightarrow> sys" where
  "posted_state w s = (let b = (y_mb s)\<lparr>mb_args := take (nb_args w) (w_args w) @ drop (nb_args w) (mb_args (y_mb s)),
        mb_kernel_id := w_kernel w, mb_nargs := w_nargs w, mb_flags := w_flags w\<rparr>
     in s\<lparr>y_want := w, y_over := (y_ndone s \<noteq> y_posts s), y_mb := b\<lparr>mb_seq := y_next s + 1\<rparr>, y_next := y_next s + 1,
          y_pub := descr_of b, y_posts := Suc (y_posts s), y_lapped := (y_lapped s \<or> y_ndone s + 2 ^ 32 \<le> Suc (y_posts s)),
          y_bell := True, y_h := HPoll\<rparr>)"

lemma post_steps:
  assumes "y_h s = HIdle" and "nb_args w \<le> length (w_args w)" and "length (mb_args (y_mb s)) = 16"
  shows "hstep\<^sup>*\<^sup>* s (posted_state w s)"
proof -
  let ?n = "nb_args w" and ?s0 = "s\<lparr>y_h := HArg 0, y_want := w, y_over := (y_ndone s \<noteq> y_posts s)\<rparr>"
  define b where "b = (y_mb s)\<lparr>mb_args := take ?n (w_args w) @ drop ?n (mb_args (y_mb s))\<rparr>"
  define t where "t = s\<lparr>y_want := w, y_over := (y_ndone s \<noteq> y_posts s), y_mb := b\<rparr>"
  have "hstep s ?s0" by (rule h_post [OF assms(1,2)])
  moreover have "hstep\<^sup>*\<^sup>* ?s0 (t\<lparr>y_h := HArg ?n\<rparr>)"
    using arg_steps [of ?s0 ?n] assms(2,3) by (simp add: t_def b_def)
  moreover have "hstep (t\<lparr>y_h := HArg ?n\<rparr>) (t\<lparr>y_h := HKernel\<rparr>)"
    using h_args_end [of "t\<lparr>y_h := HArg ?n\<rparr>" ?n] by (simp add: t_def)
  moreover have "hstep (t\<lparr>y_h := HKernel\<rparr>) (t\<lparr>y_mb := b\<lparr>mb_kernel_id := w_kernel w\<rparr>, y_h := HNargs\<rparr>)"
    using h_kernel [of "t\<lparr>y_h := HKernel\<rparr>"] by (simp add: t_def set_mb_def)
  moreover have "hstep (t\<lparr>y_mb := b\<lparr>mb_kernel_id := w_kernel w\<rparr>, y_h := HNargs\<rparr>)
      (t\<lparr>y_mb := b\<lparr>mb_kernel_id := w_kernel w, mb_nargs := w_nargs w\<rparr>, y_h := HFlags\<rparr>)"
    using h_nargs [of "t\<lparr>y_mb := b\<lparr>mb_kernel_id := w_kernel w\<rparr>, y_h := HNargs\<rparr>"] by (simp add: t_def set_mb_def)
  moreover have "hstep (t\<lparr>y_mb := b\<lparr>mb_kernel_id := w_kernel w, mb_nargs := w_nargs w\<rparr>, y_h := HFlags\<rparr>)
      (t\<lparr>y_mb := b\<lparr>mb_kernel_id := w_kernel w, mb_nargs := w_nargs w, mb_flags := w_flags w\<rparr>, y_h := HSeq\<rparr>)" (is "hstep _ ?q")
    using h_flags [of "t\<lparr>y_mb := b\<lparr>mb_kernel_id := w_kernel w, mb_nargs := w_nargs w\<rparr>, y_h := HFlags\<rparr>"]
    by (simp add: t_def set_mb_def)
  moreover have "hstep ?q (t\<lparr>y_mb := b\<lparr>mb_kernel_id := w_kernel w, mb_nargs := w_nargs w, mb_flags := w_flags w, mb_seq := y_next s + 1\<rparr>,
      y_next := y_next s + 1, y_pub := descr_of (b\<lparr>mb_kernel_id := w_kernel w, mb_nargs := w_nargs w, mb_flags := w_flags w\<rparr>),
      y_posts := Suc (y_posts s), y_lapped := (y_lapped s \<or> y_ndone s + 2 ^ 32 \<le> Suc (y_posts s)), y_h := HBell\<rparr>)" (is "hstep _ ?r")
    using h_seq [of ?q] by (simp add: t_def set_mb_def)
  moreover have "hstep ?r (posted_state w s)"
    using h_bell [of ?r] by (simp add: posted_state_def Let_def t_def b_def)
  ultimately show ?thesis by (meson converse_rtranclp_into_rtranclp rtranclp.rtrancl_into_rtrancl rtranclp_trans)
qed


text \<open>
  C24. \<open>hes_post\<close> is the host's steps run together. Whenever it posts, it stores once to a
  peripheral, its engine's doorbell bit to the engine's interrupt register, and there is a run of
  the protocol's host steps alone, from idle to polling, that leaves the very mailbox and sequence
  number the function leaves and the doorbell rung, and does not touch the cluster's side.
\<close>

theorem hes_post_is_a_run:
  assumes "y_h s = HIdle" and "y_mb s = mboxes h (mbox_addr e)" and "y_next s = next_seq h ! unat e"
    and "host_wf h" and "is_cluster e" and "in_flight h ! unat e = 0"
    and "unat (min nargs HES_MAILBOX_MAX_ARGS) \<le> length args"
  shows "\<exists>h' s'. hes_post e knl args nargs fl h = (0, h') \<and> hstep\<^sup>*\<^sup>* s s' \<and> y_h s' = HPoll
    \<and> y_mb s' = mboxes h' (mbox_addr e) \<and> y_next s' = next_seq h' ! unat e \<and> y_bell s'
    \<and> y_want s' = \<lparr>w_kernel = knl, w_args = args, w_nargs = nargs, w_flags = job_flags e fl\<rparr>
    \<and> y_c s' = y_c s \<and> y_served s' = y_served s
    \<and> mmio h' = mmio h @ [(e_periph (engine_at e) + e_clint_set (engine_at e), push_bit (unat (e_ctrl_core (engine_at e))) 1)]
    \<and> (\<forall>x. x \<noteq> mbox_addr e \<longrightarrow> mboxes h' x = mboxes h x)"
proof -
  let ?w = "\<lparr>w_kernel = knl, w_args = args, w_nargs = nargs, w_flags = job_flags e fl\<rparr>"
  have wf: "mbox_wf (mboxes h (mbox_addr e))" using assms(4) by (simp add: host_wf_def)
  have n: "nb_args ?w = unat (min nargs HES_MAILBOX_MAX_ARGS)" by (simp add: nb_args_def)
  have u: "unat e < 3" using assms(5) by (auto simp: is_cluster_cases)
  have "hstep\<^sup>*\<^sup>* s (posted_state ?w s)"
    by (rule post_steps) (use assms(1,2,7) wf n in \<open>simp_all add: mbox_wf_def HES_MAILBOX_MAX_ARGS_def\<close>)
  moreover have "y_mb (posted_state ?w s) = posted_mbox e knl args nargs fl (next_seq h ! unat e + 1) (mboxes h (mbox_addr e))"
    using assms(2,3) n by (simp add: posted_state_def posted_mbox_def Let_def)
  ultimately show ?thesis
    using hes_post_posts [OF assms(5,6,7) wf, of knl fl] assms(3,4) u
    by (intro exI [of _ "snd (hes_post e knl args nargs fl h)"] exI [of _ "posted_state ?w s"])
      (simp add: posted_state_def Let_def host_wf_def)
qed

definition boot_sys :: sys where
  "boot_sys = \<lparr>y_h = HIdle, y_c = CCheck, y_mb = fresh_mbox, y_bell = False, y_next = 0,
     y_want = \<lparr>w_kernel = 0, w_args = [], w_nargs = 0, w_flags = 0\<rparr>, y_res = no_result, y_served = 0, y_kernel = 0,
     y_args = replicate 16 0, y_flags = 0, y_out_args = [], y_pub = descr_of fresh_mbox, y_ran = ((0, [], 0), (0, 0, 0)),
     y_posts = 0, y_nserved = 0, y_ndone = 0, y_lapped = False, y_over = False\<rparr>"

definition bare_job :: job where
  "bare_job = \<lparr>w_kernel = 2, w_args = [], w_nargs = 0, w_flags = 1\<rparr>"

lemma bare_posted: "reachable nb (posted_state bare_job boot_sys)" "y_h (posted_state bare_job boot_sys) = HPoll"
  "mb_done_seq (y_mb (posted_state bare_job boot_sys)) = 0" "y_next (posted_state bare_job boot_sys) = 1"
  "y_pub (posted_state bare_job boot_sys) = (2, replicate 16 0, 1)" "y_c (posted_state bare_job boot_sys) = CCheck"
  "\<not> y_lapped (posted_state bare_job boot_sys)" "\<not> y_over (posted_state bare_job boot_sys)"
proof -
  have "reachable nb boot_sys"
    by (rule boot) (simp_all add: boot_sys_def fresh_mbox_def mbox_wf_def HES_MAILBOX_MAX_ARGS_def)
  moreover have "hstep\<^sup>*\<^sup>* boot_sys (posted_state bare_job boot_sys)"
    by (rule post_steps) (simp_all add: boot_sys_def bare_job_def nb_args_def fresh_mbox_def)
  ultimately show "reachable nb (posted_state bare_job boot_sys)" by (rule reachable_hsteps [rotated])
qed (simp_all add: posted_state_def boot_sys_def bare_job_def nb_args_def fresh_mbox_def Let_def descr_of_def)

lemma csteps_frame:
  "(cstep nb ^^ n) s s' \<Longrightarrow> y_h s' = y_h s \<and> y_next s' = y_next s \<and> y_want s' = y_want s \<and> y_pub s' = y_pub s
    \<and> y_lapped s' = y_lapped s \<and> y_posts s' = y_posts s"
proof (induction n arbitrary: s')
  case (Suc n)
  then obtain t where "(cstep nb ^^ n) s t" "cstep nb t s'" by auto
  with cstep_keeps [OF this(2)] Suc.IH show ?case by simp
qed simp

definition gets :: "sys \<Rightarrow> bool" where
  "gets s \<longleftrightarrow> (\<exists>s'. hstep\<^sup>*\<^sup>* s s' \<and> y_h s' = HGot \<and> y_pub s' = y_pub s \<and> y_want s' = y_want s \<and> y_lapped s' = y_lapped s)"

lemma gets_back: "hstep s t \<Longrightarrow> gets t \<Longrightarrow> y_pub t = y_pub s \<Longrightarrow> y_want t = y_want s \<Longrightarrow> y_lapped t = y_lapped s \<Longrightarrow> gets s"
  by (auto simp: gets_def intro: converse_rtranclp_into_rtranclp)

lemma read_steps:
  assumes "y_h s = HPoll" and "mb_done_seq (y_mb s) = y_next s"
  shows "gets s"
proof -
  have "gets t" if "y_h t = HGot" for t using that by (auto simp: gets_def)
  then have "gets t" if "y_h t = HOk" for t by (rule gets_back [OF h_ok [OF that]]) simp_all
  then have "gets t" if "y_h t = HError" for t by (rule gets_back [OF h_error [OF that]]) simp_all
  then have "gets t" if "y_h t = HStaged" for t by (rule gets_back [OF h_staged [OF that]]) simp_all
  then have "gets t" if "y_h t = HCores" for t by (rule gets_back [OF h_cores [OF that]]) simp_all
  then have "gets t" if "y_h t = HCycles" for t by (rule gets_back [OF h_cycles [OF that]]) simp_all
  then show ?thesis by (rule gets_back [OF h_hit [OF assms]]) simp_all
qed

theorem answer_is_to_the_posted_job_witness:
  "\<exists>s. reachable 8 s \<and> y_h s = HGot \<and> fst (y_ran s) = (2, replicate 16 0, 1) \<and> is_wanted bare_job (fst (y_ran s))
    \<and> r_nb_cores (y_res s) = 8"
proof -
  let ?s = "posted_state bare_job boot_sys"
  obtain n t where t: "(cstep 8 ^^ n) ?s t" "mb_done_seq (y_mb t) = y_next t"
    using polled_job_is_answered [OF bare_posted(1,2), of 8] bare_posted(3,4,6) by auto
  note f = csteps_frame [OF t(1)]
  have "gets t" by (rule read_steps) (use t f bare_posted in auto)
  then obtain s where s: "hstep\<^sup>*\<^sup>* t s" "y_h s = HGot" "y_pub s = y_pub t" "\<not> y_lapped s"
    using f bare_posted(7) by (auto simp: gets_def)
  have r: "reachable 8 s" by (rule reachable_hsteps [OF s(1) reachable_csteps [OF t(1) bare_posted(1)]])
  have pub: "y_pub s = (2, replicate 16 0, 1)" using s f bare_posted(5) by simp
  from answer_is_to_the_posted_job [OF r s(2,4)] have "fst (y_ran s) = (2, replicate 16 0, 1)" "r_nb_cores (y_res s) = 8"
    by (simp_all add: pub)
  then show ?thesis using r s(2)
    by (auto simp: is_wanted_def bare_job_def nb_args_def)
qed



theorem hes_post_is_a_run_witness:
  "\<exists>h' s'. hes_post HES_ENGINE_SPATZ HES_K_MATMUL_FP32 [10, 20, 30, 1, 2, 3] 6 0 fresh_host = (0, h')
    \<and> hstep\<^sup>*\<^sup>* boot_sys s' \<and> y_mb s' = mboxes h' (mbox_addr HES_ENGINE_SPATZ) \<and> y_next s' = 1
    \<and> mmio h' = [(0x00120030, 1)]"
proof -
  have a: "y_h boot_sys = HIdle" "y_mb boot_sys = mboxes fresh_host (mbox_addr 2)" "y_next boot_sys = next_seq fresh_host ! unat (2::u32)"
    by (simp_all add: boot_sys_def fresh_host_def)
  have c: "is_cluster 2" "in_flight fresh_host ! unat (2::u32) = 0" by (simp_all add: is_cluster_cases fresh_host_def)
  have n: "unat (min 6 HES_MAILBOX_MAX_ARGS) \<le> length [10, 20, 30, 1, 2, 3 :: u32]"
    by (simp add: HES_MAILBOX_MAX_ARGS_def min_def)
  from hes_post_is_a_run [OF a fresh_host_wf c n, of HES_K_MATMUL_FP32 0] obtain h' s' where
    r: "hes_post 2 HES_K_MATMUL_FP32 [10, 20, 30, 1, 2, 3] 6 0 fresh_host = (0, h')" "hstep\<^sup>*\<^sup>* boot_sys s'"
    "y_mb s' = mboxes h' (mbox_addr 2)" "y_next s' = next_seq h' ! unat (2::u32)"
    "mmio h' = mmio fresh_host @ [(e_periph (engine_at 2) + e_clint_set (engine_at 2), push_bit (unat (e_ctrl_core (engine_at 2))) 1)]"
    by blast
  moreover have "e_periph (engine_at 2) + e_clint_set (engine_at 2) = 0x00120030" "push_bit (unat (e_ctrl_core (engine_at 2))) (1::u32) = 1"
    "mmio fresh_host = []"
    by (simp_all add: engine_at_def engines_def hes_const fresh_host_def)
  ultimately have m: "mmio h' = [(0x00120030, 1)]" by simp
  have "next_seq h' = [0, 0, 1]" using hes_post_counts(2) [OF r(1)] by (simp add: fresh_host_def)
  then show ?thesis using r m by (auto simp: HES_ENGINE_SPATZ_def)
qed

section \<open>Giving up\<close>

text \<open>
  After \<open>HES_MAX_HEARTBEATS\<close> heartbeats \<open>hes_wait\<close> marks the engine free and returns. The
  protocol has no step for the cluster to learn of it: the next post fills in the descriptor
  while the cluster is still at the old job, and the old job's result is then copied back
  through the new job's arguments.
\<close>

lemma can_reach_out:
  assumes "inv nb s" and "outstanding s" and "6 \<le> steps_left (y_c s)"
  shows "\<exists>n s'. (cstep nb ^^ n) s s' \<and> y_c s' = COut"
  using assms
proof (induction "work_left s" arbitrary: s rule: less_induct)
  case less
  show ?case
  proof (cases "y_c s = COut")
    case True
    then show ?thesis by (intro exI [of _ 0] exI [of _ s]) simp
  next
    case False
    obtain t where t: "cstep nb s t" "y_c t \<noteq> CTrapped" using outstanding_can_step [OF less.prems(1,2)] by blast
    have six: "6 \<le> steps_left (y_c t) \<and> mb_done_seq (y_mb t) = mb_done_seq (y_mb s) \<and> y_next t = y_next s"
      using t(1)
    proof cases
      case (c_arg i)
      then show ?thesis by (simp add: HES_MAILBOX_MAX_ARGS_def)
    qed (use less.prems(3) False t(2) in \<open>simp_all add: set_mb_def\<close>)
    then have o: "outstanding t" "work_left t < work_left s"
      using outstanding_step_decreases [OF less.prems(1,2) t(1)] less.prems(2) t(2) by (auto simp: outstanding_def)
    from less.hyps [OF o(2) inv_cstep [OF less.prems(1) t(1)] o(1)] six obtain n s' where "(cstep nb ^^ n) t s'" "y_c s' = COut" by blast
    then show ?thesis using relpowp_Suc_I2 [of "cstep nb", OF t(1)] by blast
  qed
qed

text \<open>
  A run in which the cluster is about to copy the results of one job back through the arguments of
  the next, which the host posts after giving up.
\<close>

lemma give_up_overwrites_descriptor:
  "\<exists>t. reachable 8 t \<and> y_over t \<and> y_c t = COut \<and> fst (snd (fst (y_ran t))) \<noteq> mb_args (y_mb t)"
proof -
  let ?s0 = "posted_state bare_job boot_sys"
  have o: "outstanding ?s0" "6 \<le> steps_left (y_c ?s0)" by (simp_all add: outstanding_def bare_posted)
  obtain n s where s: "(cstep 8 ^^ n) ?s0 s" "y_c s = COut"
    using can_reach_out [OF reachable_inv [OF bare_posted(1)] o] by blast
  note fr = csteps_frame [OF s(1)]
  have r: "reachable 8 s" by (rule reachable_csteps [OF s(1) bare_posted(1)])
  have p: "y_posts s = 1" using fr by (simp add: posted_state_def boot_sys_def Let_def)
  then have n: "y_ndone s = 0" "y_nserved s = 1" using reachable_inv [OF r] s(2) by (auto simp: inv_def taken_def seqs_def)
  have ran: "fst (y_ran s) = (2, replicate 16 0, 1)" "mb_args (y_mb s) = replicate 16 0"
    using reachable_inv [OF r] fr bare_posted(2,5) s(2) p n descr_parts [of "y_mb s" "y_pub s"]
    by (auto simp: inv_def cluster_side_def host_side_def ran_job_def)
  let ?w = "\<lparr>w_kernel = 2, w_args = [1], w_nargs = 1, w_flags = 0\<rparr>"
  let ?g = "s\<lparr>y_res := no_result, y_h := HIdle\<rparr>"
  let ?t1 = "?g\<lparr>y_h := HArg 0, y_want := ?w, y_over := (y_ndone ?g \<noteq> y_posts ?g)\<rparr>"
  have n1: "nb_args ?w = 1" by (simp add: nb_args_def HES_MAILBOX_MAX_ARGS_def min_def)
  have "hstep s ?g" by (rule h_give_up) (use fr bare_posted(2) in simp)
  moreover have "hstep ?g ?t1" by (rule h_post) (simp_all add: n1)
  moreover have "hstep ?t1 ((set_mb (\<lambda>b. b\<lparr>mb_args := (mb_args b)[0 := 1]\<rparr>) ?t1)\<lparr>y_h := HArg (Suc 0)\<rparr>)" (is "hstep _ ?t")
    using h_arg [of ?t1 0] n1 by simp
  ultimately have "reachable 8 ?t" using r by_host by meson
  moreover have "y_c ?t = COut" "fst (y_ran ?t) = (2, replicate 16 0, 1)" "mb_args (y_mb ?t) = (replicate 16 0)[0 := 1]" "y_over ?t"
    using s(2) ran n p by (simp_all add: set_mb_def)
  moreover have "replicate 16 0 \<noteq> (replicate 16 0)[0 := 1 :: u32]" by (simp add: numeral_eq_Suc)
  ultimately show ?thesis by (intro exI [of _ ?t]) simp
qed

end
