(* ===== verification/Doorbell.thy ===== *)
theory Doorbell
  imports Protocol
begin

text \<open>
  The doorbell: the cluster's side of it, \<open>hes_clint_set\<close> and \<open>hes_clint_clear\<close> of
  \<open>runtime/mesh/hes_cluster.h\<close>, against the host's \<open>ring_doorbell\<close>, and how the one bit that
  \<open>Protocol\<close> keeps of it sits among the interrupt lines of all the cluster's cores.
\<close>

section \<open>The registers\<close>

text \<open>A store to a peripheral register: its address and the value.\<close>

definition hes_clint_set :: "cluster_cfg \<Rightarrow> u32 \<Rightarrow> u32 \<times> u32" where
  "hes_clint_set cfg msk = (hes_periph cfg (my_cl_clint_set cfg), msk)"

definition hes_clint_clear :: "cluster_cfg \<Rightarrow> u32 \<Rightarrow> u32 \<times> u32" where
  "hes_clint_clear cfg msk = (hes_periph cfg (my_cl_clint_clear cfg), msk)"

text \<open>What the comment on them says the registers do to the lines of the cores, one bit a core.\<close>

definition clint_store :: "cluster_cfg \<Rightarrow> u32 \<times> u32 \<Rightarrow> u32 \<Rightarrow> u32" where
  "clint_store cfg w irqs =
     (if fst w = hes_periph cfg (my_cl_clint_set cfg) then irqs OR snd w
      else if fst w = hes_periph cfg (my_cl_clint_clear cfg) then irqs AND NOT (snd w)
      else irqs)"

text \<open>The bit of the control core, as \<open>cluster_main.c\<close> writes it.\<close>

definition ctrl_bit :: "cluster_cfg \<Rightarrow> u32" where
  "ctrl_bit cfg = push_bit (unat (my_ctrl_core cfg)) 1"

definition bell :: "cluster_cfg \<Rightarrow> u32 \<Rightarrow> bool" where
  "bell cfg irqs \<longleftrightarrow> bit irqs (unat (my_ctrl_core cfg))"

definition other_lines :: "cluster_cfg \<Rightarrow> u32 \<Rightarrow> u32" where
  "other_lines cfg irqs = irqs AND NOT (ctrl_bit cfg)"

text \<open>The host rings with the cluster's own store.\<close>

lemma ring_is_clint_set:
  "mmio (ring_doorbell (engine_at (my_engine (hes_my c))) h) = mmio h @ [hes_clint_set (hes_my c) (ctrl_bit (hes_my c))]"
proof -
  have "unat (my_engine (hes_my c)) = (case c of HES_CLUSTER_SNITCH \<Rightarrow> 1 | HES_CLUSTER_SPATZ \<Rightarrow> 2)"
    by (cases c) (simp_all add: hes_const)
  then show ?thesis
    by (cases c) (simp_all add: ring_doorbell_def engine_at_def engines_def hes_clint_set_def ctrl_bit_def hes_periph_def)
qed

text \<open>The two registers of a cluster are different, and no register of one cluster is one of the other.\<close>

lemma clint_registers_distinct:
  "distinct (concat (map (\<lambda>c. [hes_periph (hes_my c) (my_cl_clint_set (hes_my c)), hes_periph (hes_my c) (my_cl_clint_clear (hes_my c))])
     [HES_CLUSTER_SNITCH, HES_CLUSTER_SPATZ]))"
  by (simp add: hes_const hes_periph_def)

lemma ctrl_in_range: "unat (my_ctrl_core (hes_my c)) < LENGTH(32)"
  by (cases c) (simp_all add: hes_const)

lemma clint_set_store: "clint_store (hes_my c) (hes_clint_set (hes_my c) m) irqs = irqs OR m"
  by (simp add: clint_store_def hes_clint_set_def)

lemma clint_clear_store: "clint_store (hes_my c) (hes_clint_clear (hes_my c) m) irqs = irqs AND NOT m"
  by (cases c) (simp_all add: clint_store_def hes_clint_clear_def hes_periph_def hes_const)

lemma clint_other_cluster:
  assumes "c \<noteq> d"
  shows "clint_store (hes_my d) (hes_clint_set (hes_my c) m) irqs = irqs"
    and "clint_store (hes_my d) (hes_clint_clear (hes_my c) m) irqs = irqs"
  using assms by (cases c; cases d; simp add: clint_store_def hes_clint_set_def hes_clint_clear_def hes_periph_def hes_const)+

lemma ring_store:
  "bell (hes_my c) (irqs OR ctrl_bit (hes_my c))" "other_lines (hes_my c) (irqs OR ctrl_bit (hes_my c)) = other_lines (hes_my c) irqs"
  using ctrl_in_range [of c] by (auto simp: bell_def other_lines_def ctrl_bit_def bit_simps intro!: bit_word_eqI)

lemma clear_store:
  "\<not> bell (hes_my c) (irqs AND NOT (ctrl_bit (hes_my c)))"
  "other_lines (hes_my c) (irqs AND NOT (ctrl_bit (hes_my c))) = other_lines (hes_my c) irqs"
  using ctrl_in_range [of c] by (auto simp: bell_def other_lines_def ctrl_bit_def bit_simps intro!: bit_word_eqI)

section \<open>The protocol over the registers\<close>

text \<open>
  The steps of \<open>Protocol\<close> with the lines in place of the bit: the host's ring and the core's clear
  are the stores above, any other step leaves the lines alone, and the other cluster's doorbell
  or another core's line may be written at any time.
\<close>

inductive irq_step :: "cluster \<Rightarrow> u32 \<Rightarrow> sys \<times> u32 \<Rightarrow> sys \<times> u32 \<Rightarrow> bool" for c nb where
  q_host: "y_h s \<noteq> HBell \<Longrightarrow> hstep s s' \<Longrightarrow> irq_step c nb (s, irqs) (s', irqs)"
| q_ring: "y_h s = HBell \<Longrightarrow> w = last (mmio (ring_doorbell (engine_at (my_engine (hes_my c))) h)) \<Longrightarrow>
    irq_step c nb (s, irqs) (s\<lparr>y_h := HPoll\<rparr>, clint_store (hes_my c) w irqs)"
| q_core: "y_c s \<noteq> CWfi \<Longrightarrow> y_c s \<noteq> CClear \<Longrightarrow> cstep nb s s' \<Longrightarrow> irq_step c nb (s, irqs) (s', irqs)"
| q_wake: "y_c s = CWfi \<Longrightarrow> bell (hes_my c) irqs \<Longrightarrow> irq_step c nb (s, irqs) (s\<lparr>y_c := CClear\<rparr>, irqs)"
| q_clear: "y_c s = CClear \<Longrightarrow>
    irq_step c nb (s, irqs) (s\<lparr>y_c := CCheck\<rparr>, clint_store (hes_my c) (hes_clint_clear (hes_my c) (ctrl_bit (hes_my c))) irqs)"
| q_other_irq: "istep s s' \<Longrightarrow> irq_step c nb (s, irqs) (s', irqs)"
| q_other_cluster: "d \<noteq> c \<Longrightarrow> irq_step c nb (s, irqs) (s, clint_store (hes_my c) (hes_clint_set (hes_my d) m) irqs)"
| q_other_core: "\<not> bit m (unat (my_ctrl_core (hes_my c))) \<Longrightarrow>
    irq_step c nb (s, irqs) (s, clint_store (hes_my c) (hes_clint_set (hes_my c) m) irqs)"

text \<open>The state of \<open>Protocol\<close> that a state with the lines stands for.\<close>

definition with_bell :: "cluster \<Rightarrow> sys \<times> u32 \<Rightarrow> sys" where
  "with_bell c = (\<lambda>(s, irqs). s\<lparr>y_bell := bell (hes_my c) irqs\<rparr>)"

text \<open>Only the doorbell reads or writes the bit.\<close>

lemma bell_last:
  "s\<lparr>y_bell := b, y_h := x0\<rparr> = s\<lparr>y_h := x0, y_bell := b\<rparr>"
  "s\<lparr>y_bell := b, y_c := x1\<rparr> = s\<lparr>y_c := x1, y_bell := b\<rparr>"
  "s\<lparr>y_bell := b, y_mb := x2\<rparr> = s\<lparr>y_mb := x2, y_bell := b\<rparr>"
  "s\<lparr>y_bell := b, y_next := x3\<rparr> = s\<lparr>y_next := x3, y_bell := b\<rparr>"
  "s\<lparr>y_bell := b, y_want := x4\<rparr> = s\<lparr>y_want := x4, y_bell := b\<rparr>"
  "s\<lparr>y_bell := b, y_res := x5\<rparr> = s\<lparr>y_res := x5, y_bell := b\<rparr>"
  "s\<lparr>y_bell := b, y_served := x6\<rparr> = s\<lparr>y_served := x6, y_bell := b\<rparr>"
  "s\<lparr>y_bell := b, y_kernel := x7\<rparr> = s\<lparr>y_kernel := x7, y_bell := b\<rparr>"
  "s\<lparr>y_bell := b, y_args := x8\<rparr> = s\<lparr>y_args := x8, y_bell := b\<rparr>"
  "s\<lparr>y_bell := b, y_flags := x9\<rparr> = s\<lparr>y_flags := x9, y_bell := b\<rparr>"
  "s\<lparr>y_bell := b, y_out_args := x10\<rparr> = s\<lparr>y_out_args := x10, y_bell := b\<rparr>"
  "s\<lparr>y_bell := b, y_pub := x11\<rparr> = s\<lparr>y_pub := x11, y_bell := b\<rparr>"
  "s\<lparr>y_bell := b, y_ran := x12\<rparr> = s\<lparr>y_ran := x12, y_bell := b\<rparr>"
  "s\<lparr>y_bell := b, y_posts := x13\<rparr> = s\<lparr>y_posts := x13, y_bell := b\<rparr>"
  "s\<lparr>y_bell := b, y_nserved := x14\<rparr> = s\<lparr>y_nserved := x14, y_bell := b\<rparr>"
  "s\<lparr>y_bell := b, y_ndone := x15\<rparr> = s\<lparr>y_ndone := x15, y_bell := b\<rparr>"
  "s\<lparr>y_bell := b, y_lapped := x16\<rparr> = s\<lparr>y_lapped := x16, y_bell := b\<rparr>"
  "s\<lparr>y_bell := b, y_over := x17\<rparr> = s\<lparr>y_over := x17, y_bell := b\<rparr>"
  by simp_all

lemma hstep_bell:
  assumes "hstep s s'" and "y_h s \<noteq> HBell"
  shows "hstep (s\<lparr>y_bell := b\<rparr>) (s'\<lparr>y_bell := b\<rparr>)"
  using assms(1)
  by cases (use assms(2) hstep.intros [of "s\<lparr>y_bell := b\<rparr>"] in \<open>simp_all add: set_mb_def bell_last del: sys.update_convs\<close>)

lemma cstep_bell:
  assumes "cstep nb s s'" and "y_c s \<noteq> CWfi" and "y_c s \<noteq> CClear"
  shows "cstep nb (s\<lparr>y_bell := b\<rparr>) (s'\<lparr>y_bell := b\<rparr>)"
  using assms(1)
  by cases (use assms(2,3) cstep.intros [of "s\<lparr>y_bell := b\<rparr>"] in \<open>simp_all add: set_mb_def bell_last del: sys.update_convs\<close>)

lemma istep_bell: "istep s s' \<Longrightarrow> istep (s\<lparr>y_bell := b\<rparr>) (s'\<lparr>y_bell := b\<rparr>)"
  by (erule istep.cases) (use istep.intros [of "s\<lparr>y_bell := b\<rparr>"] in \<open>simp_all add: bell_last\<close>)

text \<open>Each step is a step of the protocol, or one that the protocol does not see.\<close>

lemma irq_step_refines:
  assumes "irq_step c nb q q'" and "reachable nb (with_bell c q)"
  shows "reachable nb (with_bell c q')"
  using assms(1)
proof cases
  case (q_host s s' irqs)
  then show ?thesis using assms(2) by_host hstep_bell by (auto simp: with_bell_def)
next
  case (q_ring s w h irqs)
  have w: "w = hes_clint_set (hes_my c) (ctrl_bit (hes_my c))" using q_ring(4) by (simp add: ring_is_clint_set)
  have "hstep (with_bell c q) ((with_bell c q)\<lparr>y_bell := True, y_h := HPoll\<rparr>)"
    by (rule h_bell) (simp add: q_ring with_bell_def)
  from by_host [OF assms(2) this] show ?thesis
    by (simp add: q_ring(1,2) w with_bell_def clint_set_store ring_store bell_last)
next
  case (q_core s s' irqs)
  then show ?thesis using assms(2) by_cluster cstep_bell by (auto simp: with_bell_def)
next
  case (q_wake s irqs)
  have "cstep nb (with_bell c q) ((with_bell c q)\<lparr>y_c := CClear\<rparr>)"
    by (rule c_wake) (simp_all add: q_wake with_bell_def)
  from by_cluster [OF assms(2) this] show ?thesis by (simp add: q_wake with_bell_def bell_last)
next
  case (q_clear s irqs)
  have "cstep nb (with_bell c q) ((with_bell c q)\<lparr>y_bell := False, y_c := CCheck\<rparr>)"
    by (rule c_clear) (simp add: q_clear with_bell_def)
  from by_cluster [OF assms(2) this] show ?thesis
    by (simp add: q_clear with_bell_def clint_clear_store clear_store bell_last)
next
  case (q_other_irq s s' irqs)
  then show ?thesis using assms(2) by_irq istep_bell by (auto simp: with_bell_def)
next
  case (q_other_cluster d s irqs m)
  then show ?thesis using assms(2) clint_other_cluster(1) by simp
next
  case (q_other_core m s irqs)
  then show ?thesis using assms(2) by (simp add: with_bell_def clint_set_store bell_def bit_simps)
qed

lemma other_lines_kept:
  assumes "irq_step c nb (s, irqs) (s', irqs')"
  shows "other_lines (hes_my c) irqs' = other_lines (hes_my c) irqs
    \<or> (\<exists>m. \<not> bit m (unat (my_ctrl_core (hes_my c))) \<and> irqs' = irqs OR m)"
  using assms
  by cases (auto simp: ring_is_clint_set clint_set_store clint_clear_store ring_store clear_store clint_other_cluster)

text \<open>
  The doorbell is enough. Over the interrupt registers of the cluster, whatever the other cluster
  and the other cores write to theirs, every run stays a run of the protocol with the one bit; so
  a control core that sleeps while a job is unserved has its line up or is about to be rung.
\<close>

theorem doorbell_refines_protocol:
  assumes "(irq_step c nb)\<^sup>*\<^sup>* q (s, irqs)" and "reachable nb (with_bell c q)"
  shows "reachable nb (with_bell c (s, irqs))
    \<and> (y_c s = CWfi \<and> mb_seq (y_mb s) \<noteq> y_served s \<longrightarrow> bell (hes_my c) irqs \<or> y_h s = HBell)"
proof -
  have r: "reachable nb (with_bell c (s, irqs))"
    using assms by (induction "(s, irqs)" arbitrary: s irqs rule: rtranclp_induct) (auto intro: irq_step_refines)
  have "no_lost_wakeup (with_bell c (s, irqs))" using reachable_inv [OF r] by (simp add: inv_def)
  then show ?thesis using r by (simp add: no_lost_wakeup_def with_bell_def)
qed

text \<open>
  The Spatz control core asleep while the host posts and rings, then a store to another core's line:
  both lines are up.
\<close>

theorem doorbell_refines_protocol_witness:
  "\<exists>s. y_c s = CWfi \<and> mb_seq (y_mb s) = 1 \<and> y_served s = 0 \<and> reachable 8 (with_bell HES_CLUSTER_SPATZ (s, 3)) \<and> bell spatz_cfg 3"
proof -
  let ?b = "boot_sys\<lparr>y_c := CWfi\<rparr>" and ?s = "posted_state bare_job (boot_sys\<lparr>y_c := CWfi\<rparr>)"
  have "reachable 8 boot_sys"
    by (rule boot) (simp_all add: boot_sys_def fresh_mbox_def mbox_wf_def HES_MAILBOX_MAX_ARGS_def)
  moreover have "cstep 8 boot_sys ?b" by (rule c_sleep) (simp_all add: boot_sys_def fresh_mbox_def)
  ultimately have "reachable 8 ?b" by (rule by_cluster)
  moreover have "hstep\<^sup>*\<^sup>* ?b ?s"
    by (rule post_steps) (simp_all add: boot_sys_def bare_job_def nb_args_def fresh_mbox_def)
  ultimately have "reachable 8 ?s" by (rule reachable_hsteps [rotated])
  moreover have f: "y_c ?s = CWfi" "mb_seq (y_mb ?s) = 1" "y_served ?s = 0" "y_h ?s = HPoll" "with_bell HES_CLUSTER_SPATZ (?s, 1) = ?s"
    by (simp_all add: posted_state_def boot_sys_def bare_job_def nb_args_def fresh_mbox_def Let_def with_bell_def bell_def spatz_cfg_def)
  ultimately have r: "reachable 8 (with_bell HES_CLUSTER_SPATZ (?s, 1))" by simp
  have "irq_step HES_CLUSTER_SPATZ 8 (?s, 1) (?s, clint_store (hes_my HES_CLUSTER_SPATZ) (hes_clint_set (hes_my HES_CLUSTER_SPATZ) 2) 1)"
    by (rule q_other_core) (simp add: spatz_cfg_def bit_simps)
  then have "irq_step HES_CLUSTER_SPATZ 8 (?s, 1) (?s, 3)" by (simp add: clint_set_store del: hes_my.simps)
  from doorbell_refines_protocol [OF r_into_rtranclp, OF this r] f show ?thesis
    by (intro exI [of _ ?s]) simp
qed

end
