(* ===== verification/DramCore.thy ===== *)
theory DramCore
  imports Prelude "HOL-Library.Monad_Syntax" "HOL-Library.Signed_Division"
begin

text \<open>
  The timing engine of the main memory, \<open>targets/hetero/dram_core.hpp\<close>: its parameters, its
  state, and every operation of \<open>Engine\<close>, for both device families. Times are picoseconds and
  are kept as integers (an \<open>int64_t\<close> holds a hundred days of them), counters of events as
  naturals, addresses as 64-bit words. A loop that the parameters could keep running for ever
  is a \<open>partial_function\<close>: not returning is \<open>None\<close>, and that it returns is proved in \<open>DramLoops\<close>.
  An exception is \<open>Inl\<close> its message.
\<close>

section \<open>Parameters\<close>

record params =
  p_kind :: string
  p_ctrl_ps :: int
  p_granule :: int
  p_channels :: int
  p_ranks :: int
  p_bankgroups :: int
  p_banks :: int
  p_rows :: int
  p_page_bytes :: int
  p_width_bits :: int
  p_burst_length :: int
  p_mtps :: int
  p_mapping :: string
  p_tCK :: int
  p_tRCD :: int
  p_tRP :: int
  p_tRPab :: int
  p_tRAS :: int
  p_tRC :: int
  p_tRL :: int
  p_tWL :: int
  p_tRRD_S :: int
  p_tRRD_L :: int
  p_tFAW :: int
  p_tCCD_S :: int
  p_tCCD_L :: int
  p_tWTR_S :: int
  p_tWTR_L :: int
  p_tRTW :: int
  p_tRTW_L :: int
  p_tWR :: int
  p_tRTP :: int
  p_tREFI :: int
  p_tRFC :: int
  p_wq_depth :: int
  p_wq_high :: int
  p_wq_low :: int
  p_hb_ck_ps :: int
  p_hb_ca_clks :: int
  p_hb_lat_clks :: int
  p_hb_fixed_2x :: int
  p_hb_bus_bytes :: int
  p_hb_csm_ps :: int
  p_hb_rwr_ps :: int

definition default_params :: params where
  "default_params =
     \<lparr>p_kind = ''dram'', p_ctrl_ps = 20000, p_granule = 64, p_channels = 1, p_ranks = 1, p_bankgroups = 1,
      p_banks = 8, p_rows = 65536, p_page_bytes = 2048, p_width_bits = 16, p_burst_length = 16,
      p_mtps = 3200, p_mapping = ''RoBaCo'', p_tCK = 625, p_tRCD = 0, p_tRP = 0, p_tRPab = 0, p_tRAS = 0,
      p_tRC = 0, p_tRL = 0, p_tWL = 0, p_tRRD_S = 0, p_tRRD_L = 0, p_tFAW = 0, p_tCCD_S = 0, p_tCCD_L = 0,
      p_tWTR_S = 0, p_tWTR_L = 0, p_tRTW = 0, p_tRTW_L = 0, p_tWR = 0, p_tRTP = 0, p_tREFI = 0, p_tRFC = 0,
      p_wq_depth = 0, p_wq_high = 0, p_wq_low = 0, p_hb_ck_ps = 5000, p_hb_ca_clks = 3, p_hb_lat_clks = 7,
      p_hb_fixed_2x = 1, p_hb_bus_bytes = 1, p_hb_csm_ps = 4000000, p_hb_rwr_ps = 35000\<rparr>"

type_synonym int_field = "string \<times> (params \<Rightarrow> int) \<times> ((int \<Rightarrow> int) \<Rightarrow> params \<Rightarrow> params)"
type_synonym str_field = "string \<times> (params \<Rightarrow> string) \<times> ((string \<Rightarrow> string) \<Rightarrow> params \<Rightarrow> params)"

definition int_fields :: "int_field list" where
  "int_fields =
     [(''ctrl_ps'', p_ctrl_ps, p_ctrl_ps_update), (''granule'', p_granule, p_granule_update),
      (''channels'', p_channels, p_channels_update), (''ranks'', p_ranks, p_ranks_update),
      (''bankgroups'', p_bankgroups, p_bankgroups_update), (''banks'', p_banks, p_banks_update),
      (''rows'', p_rows, p_rows_update), (''page_bytes'', p_page_bytes, p_page_bytes_update),
      (''width_bits'', p_width_bits, p_width_bits_update),
      (''burst_length'', p_burst_length, p_burst_length_update), (''mtps'', p_mtps, p_mtps_update),
      (''tCK'', p_tCK, p_tCK_update), (''tRCD'', p_tRCD, p_tRCD_update), (''tRP'', p_tRP, p_tRP_update),
      (''tRPab'', p_tRPab, p_tRPab_update), (''tRAS'', p_tRAS, p_tRAS_update),
      (''tRC'', p_tRC, p_tRC_update), (''tRL'', p_tRL, p_tRL_update), (''tWL'', p_tWL, p_tWL_update),
      (''tRRD_S'', p_tRRD_S, p_tRRD_S_update), (''tRRD_L'', p_tRRD_L, p_tRRD_L_update),
      (''tFAW'', p_tFAW, p_tFAW_update), (''tCCD_S'', p_tCCD_S, p_tCCD_S_update),
      (''tCCD_L'', p_tCCD_L, p_tCCD_L_update), (''tWTR_S'', p_tWTR_S, p_tWTR_S_update),
      (''tWTR_L'', p_tWTR_L, p_tWTR_L_update), (''tRTW'', p_tRTW, p_tRTW_update),
      (''tRTW_L'', p_tRTW_L, p_tRTW_L_update), (''tWR'', p_tWR, p_tWR_update),
      (''tRTP'', p_tRTP, p_tRTP_update), (''tREFI'', p_tREFI, p_tREFI_update),
      (''tRFC'', p_tRFC, p_tRFC_update), (''wq_depth'', p_wq_depth, p_wq_depth_update),
      (''wq_high'', p_wq_high, p_wq_high_update), (''wq_low'', p_wq_low, p_wq_low_update),
      (''hb_ck_ps'', p_hb_ck_ps, p_hb_ck_ps_update), (''hb_ca_clks'', p_hb_ca_clks, p_hb_ca_clks_update),
      (''hb_lat_clks'', p_hb_lat_clks, p_hb_lat_clks_update),
      (''hb_fixed_2x'', p_hb_fixed_2x, p_hb_fixed_2x_update),
      (''hb_bus_bytes'', p_hb_bus_bytes, p_hb_bus_bytes_update),
      (''hb_csm_ps'', p_hb_csm_ps, p_hb_csm_ps_update), (''hb_rwr_ps'', p_hb_rwr_ps, p_hb_rwr_ps_update)]"

definition str_fields :: "str_field list" where
  "str_fields = [(''kind'', p_kind, p_kind_update), (''mapping'', p_mapping, p_mapping_update)]"

section \<open>State\<close>

record dstats =
  st_reads :: nat
  st_writes :: nat
  st_bursts :: nat
  st_row_hits :: nat
  st_row_misses :: nat
  st_row_conflicts :: nat
  st_refreshes :: nat
  st_forwarded :: nat
  st_merged :: nat
  st_busy_ps :: int

definition no_stats :: dstats where
  "no_stats = \<lparr>st_reads = 0, st_writes = 0, st_bursts = 0, st_row_hits = 0, st_row_misses = 0,
     st_row_conflicts = 0, st_refreshes = 0, st_forwarded = 0, st_merged = 0, st_busy_ps = 0\<rparr>"

record coord =
  k_ch :: int
  k_ra :: int
  k_bg :: int
  k_ba :: int
  k_row :: int
  k_col :: int

text \<open>\<open>INT64_MIN / 4\<close>: so long ago that it constrains nothing.\<close>

definition LONG_AGO :: int where
  "LONG_AGO = (- (2 ^ 63)) sdiv 4"

record bank =
  b_open_row :: int
  b_act :: int
  b_act_ok :: int
  b_pre_ok :: int

definition new_bank :: bank where
  "new_bank = \<lparr>b_open_row = -1, b_act = LONG_AGO, b_act_ok = 0, b_pre_ok = 0\<rparr>"

record channel =
  c_banks :: "bank list"
  c_order :: int
  c_bus_free :: int
  c_last_col :: int
  c_last_col_rank :: int
  c_last_col_bg :: int
  c_last_was_write :: bool
  c_last_write_end :: int
  c_last_act :: int
  c_last_act_rank :: int
  c_last_act_bg :: int
  c_faw :: "int list list"
  c_next_refresh :: int

definition new_channel :: channel where
  "new_channel = \<lparr>c_banks = [], c_order = 0, c_bus_free = 0, c_last_col = LONG_AGO, c_last_col_rank = -1,
     c_last_col_bg = -1, c_last_was_write = False, c_last_write_end = LONG_AGO, c_last_act = LONG_AGO,
     c_last_act_rank = -1, c_last_act_bg = -1, c_faw = [], c_next_refresh = 0\<rparr>"

record plan =
  pl_k :: coord
  pl_bank :: nat
  pl_kind :: nat
  pl_act :: int
  pl_first_cmd :: int
  pl_col :: int
  pl_end :: int

text \<open>A queued write is its arrival and its address; \<open>e_wq\<close> is oldest first.\<close>

record eng =
  e_p :: params
  e_st :: dstats
  e_hyperram :: bool
  e_burst_bytes :: int
  e_burst_ps :: int
  e_align :: int
  e_offset_bits :: nat
  e_fields :: "(char \<times> nat) list"
  e_chan :: "channel list"
  e_wq :: "(int \<times> u64) list"
  e_leaving :: "int list"
  e_hb_free :: int

definition new_eng :: "params \<Rightarrow> eng" where
  "new_eng p = \<lparr>e_p = p, e_st = no_stats, e_hyperram = False, e_burst_bytes = 0, e_burst_ps = 0, e_align = 0,
     e_offset_bits = 0, e_fields = [], e_chan = [], e_wq = [], e_leaving = [], e_hb_free = 0\<rparr>"

section \<open>Construction\<close>

text \<open>\<open>int b = 0; while ((1LL << b) < v) b++;\<close>\<close>

function log2i_from :: "nat \<Rightarrow> int \<Rightarrow> nat" where
  "log2i_from b v = (if 2 ^ b < v then log2i_from (Suc b) v else b)"
  by auto
termination
proof (relation "measure (\<lambda>(b, v). nat (v - 2 ^ b))")
  fix b :: nat and v :: int
  assume "2 ^ b < v"
  then show "((Suc b, v), (b, v)) \<in> measure (\<lambda>(b, v). nat (v - 2 ^ b))" by simp
qed simp

declare log2i_from.simps [simp del]

definition log2i :: "int \<Rightarrow> nat" where
  "log2i v = log2i_from 0 v"

definition check_pow2 :: "int \<Rightarrow> string \<Rightarrow> string + unit" where
  "check_pow2 v what =
     (if v \<le> 0 \<or> v AND (v - 1) \<noteq> 0 then Inl (what @ '' must be a power of two'') else Inr ())"

definition quoted :: "string \<Rightarrow> string" where
  "quoted s = CHR 0x27 # s @ [CHR 0x27]"

definition field_names :: "string list" where
  "field_names = [''Ro'', ''Ra'', ''Bg'', ''Ba'', ''Co'', ''Ch'']"

definition field_ids :: "char list" where
  "field_ids = [CHR ''r'', CHR ''a'', CHR ''g'', CHR ''b'', CHR ''c'', CHR ''h'']"

definition field_sizes :: "eng \<Rightarrow> int list" where
  "field_sizes e = [p_rows (e_p e), p_ranks (e_p e), p_bankgroups (e_p e), p_banks (e_p e),
     p_page_bytes (e_p e) sdiv e_burst_bytes e, p_channels (e_p e)]"

text \<open>The last of the six names equal to the token, if any (the loop does not stop at the first).\<close>

definition field_index :: "string \<Rightarrow> nat option" where
  "field_index tok = fold (\<lambda>j k. if tok = field_names ! j then Some j else k) [0..<6] None"

fun parse_fields :: "int list \<Rightarrow> string \<Rightarrow> string \<Rightarrow> bool list \<Rightarrow> (char \<times> nat) list
    \<Rightarrow> string + (bool list \<times> (char \<times> nat) list)" where
  "parse_fields sizes m (x # y # rest) seen fs =
     (case field_index [x, y] of
        None \<Rightarrow> Inl (''mapping '' @ quoted m @ '': bad or repeated field '' @ quoted [x, y])
      | Some k \<Rightarrow>
          if seen ! k then Inl (''mapping '' @ quoted m @ '': bad or repeated field '' @ quoted [x, y])
          else parse_fields sizes m rest (seen[k := True]) (fs @ [(field_ids ! k, log2i (sizes ! k))]))"
| "parse_fields sizes m _ seen fs = Inr (seen, fs)"

fun first_missing :: "string \<Rightarrow> bool list \<Rightarrow> int list \<Rightarrow> nat list \<Rightarrow> string + unit" where
  "first_missing m seen sizes [] = Inr ()"
| "first_missing m seen sizes (j # js) =
     (if \<not> seen ! j \<and> 1 < sizes ! j then Inl (''mapping '' @ quoted m @ '' lacks field '' @ field_names ! j)
      else first_missing m seen sizes js)"

definition parse_mapping :: "eng \<Rightarrow> string + eng" where
  "parse_mapping e =
     (let m = p_mapping (e_p e); sizes = field_sizes e in
      if length m mod 2 \<noteq> 0 then Inl (''mapping '' @ quoted m @ '' must be a sequence of 2-letter fields'')
      else case parse_fields sizes m m (replicate 6 False) (e_fields e) of
        Inl msg \<Rightarrow> Inl msg
      | Inr (seen, fs) \<Rightarrow>
          (case first_missing m seen sizes [0..<6] of
             Inl msg \<Rightarrow> Inl msg
           | Inr _ \<Rightarrow> Inr (e\<lparr>e_fields := fs\<rparr>)))"

fun check_all :: "(int \<times> string) list \<Rightarrow> string + unit" where
  "check_all [] = Inr ()"
| "check_all ((v, what) # rest) = (case check_pow2 v what of Inl msg \<Rightarrow> Inl msg | Inr _ \<Rightarrow> check_all rest)"

definition wq_ok :: "params \<Rightarrow> bool" where
  "wq_ok p \<longleftrightarrow> \<not> (p_wq_depth p < 0 \<or>
     0 < p_wq_depth p \<and> \<not> (0 < p_wq_low p \<and> p_wq_low p \<le> p_wq_high p \<and> p_wq_high p < p_wq_depth p))"

definition fresh_channel :: "params \<Rightarrow> channel" where
  "fresh_channel p = new_channel\<lparr>c_banks := replicate (nat (p_ranks p * p_bankgroups p * p_banks p)) new_bank,
     c_faw := replicate (nat (p_ranks p)) [], c_next_refresh := p_tREFI p\<rparr>"

definition Engine :: "params \<Rightarrow> string + eng" where
  "Engine p =
     (let e = new_eng p in
      if p_kind p = ''hyperram'' then
        (if p_hb_ck_ps p \<le> 0 \<or> p_hb_bus_bytes p \<le> 0 \<or> p_granule p \<le> 0
         then Inl ''hyperram: clock, bus width and granule must be positive''
         else Inr (e\<lparr>e_hyperram := True\<rparr>))
      else if p_kind p \<noteq> ''dram'' then Inl (''unknown memory kind '' @ quoted (p_kind p))
      else
        let burst_bytes = p_width_bits p sdiv 8 * p_burst_length p;
            e = e\<lparr>e_burst_bytes := burst_bytes,
                  e_burst_ps := p_burst_length p * 1000000 sdiv p_mtps p,
                  e_align := max (p_granule p) burst_bytes\<rparr>
        in case check_all [(p_channels p, ''channels''), (p_ranks p, ''ranks''), (p_bankgroups p, ''bankgroups''),
                 (p_banks p, ''banks''), (p_rows p, ''rows''),
                 (burst_bytes, ''burst bytes (width_bits/8 * burst_length)''), (e_align e, ''granule'')] of
             Inl msg \<Rightarrow> Inl msg
           | Inr _ \<Rightarrow>
               if p_page_bytes p smod burst_bytes \<noteq> 0 then Inl ''page_bytes must be a multiple of the burst size''
               else (case check_pow2 (p_page_bytes p sdiv burst_bytes) ''bursts per page'' of
                 Inl msg \<Rightarrow> Inl msg
               | Inr _ \<Rightarrow>
                   (case parse_mapping (e\<lparr>e_offset_bits := log2i burst_bytes\<rparr>) of
                     Inl msg \<Rightarrow> Inl msg
                   | Inr e \<Rightarrow>
                       if \<not> wq_ok p then Inl ''write queue needs 0 < wq_low <= wq_high < wq_depth''
                       else Inr (e\<lparr>e_chan := replicate (nat (p_channels p)) (fresh_channel p)\<rparr>))))"

section \<open>Refresh\<close>

text \<open>When the refresh due at \<open>c_next_refresh\<close> starts: after the bus, and once every bank may be closed.\<close>

definition refresh_start :: "params \<Rightarrow> channel \<Rightarrow> int" where
  "refresh_start p c =
     fold (\<lambda>b start.
         let start = (if 0 \<le> b_open_row b then max start (max (b_act b + p_tRAS p) (b_pre_ok b)) else start)
         in max start (b_act_ok b))
       (c_banks c) (max (c_next_refresh c) (c_bus_free c))"

definition refresh_end :: "params \<Rightarrow> channel \<Rightarrow> int" where
  "refresh_end p c =
     (let start = refresh_start p c;
          start = (if list_ex (\<lambda>b. 0 \<le> b_open_row b) (c_banks c) then start + p_tRPab p else start)
      in start + p_tRFC p)"

text \<open>One turn of the loop up to the comment, and the skip below it.\<close>

definition refresh_one :: "params \<Rightarrow> channel \<Rightarrow> channel" where
  "refresh_one p c =
     (let fin = refresh_end p c
      in c\<lparr>c_banks := map (\<lambda>b. b\<lparr>b_open_row := -1, b_act_ok := max (b_act_ok b) fin\<rparr>) (c_banks c),
           c_next_refresh := c_next_refresh c + p_tREFI p\<rparr>)"

definition refresh_skip :: "params \<Rightarrow> int \<Rightarrow> int \<Rightarrow> channel \<times> nat \<Rightarrow> channel \<times> nat" where
  "refresh_skip p t fin = (\<lambda>(c, cnt).
     if c_next_refresh c + p_tRFC p \<le> t \<and> fin \<le> c_next_refresh c then
       let n = (t - p_tRFC p - c_next_refresh c) sdiv p_tREFI p
       in if 0 < n then
            let next = c_next_refresh c + n * p_tREFI p; last_end = next - p_tREFI p + p_tRFC p
            in (c\<lparr>c_banks := map (\<lambda>b. b\<lparr>b_act_ok := max (b_act_ok b) last_end\<rparr>) (c_banks c),
                  c_next_refresh := next\<rparr>, cnt + nat n)
          else (c, cnt)
     else (c, cnt))"

text \<open>The channel and how many refreshes were counted. The test of \<open>tREFI\<close> comes before the loop.\<close>

function refresh_loop :: "params \<Rightarrow> int \<Rightarrow> channel \<times> nat \<Rightarrow> channel \<times> nat" where
  "refresh_loop p t (c, cnt) =
     (if p_tREFI p \<le> 0 then (c, cnt)
      else if c_next_refresh c \<le> t
      then refresh_loop p t (refresh_skip p t (refresh_end p c) (refresh_one p c, cnt + 1))
      else (c, cnt))"
  by auto
termination
proof (relation "measure (\<lambda>(p, t, c, cnt). nat (t - c_next_refresh c + 1))")
  fix p :: params and t :: int and c :: channel and cnt :: nat
  assume i: "\<not> p_tREFI p \<le> 0" and n: "c_next_refresh c \<le> t"
  obtain c' cnt' where r: "refresh_skip p t (refresh_end p c) (refresh_one p c, cnt + 1) = (c', cnt')"
    by (cases "refresh_skip p t (refresh_end p c) (refresh_one p c, cnt + 1)")
  have "c_next_refresh c < c_next_refresh c'"
    using r i by (auto simp: refresh_skip_def refresh_one_def Let_def split: if_splits)
      (smt (verit) mult_pos_pos)
  then show "((p, t, refresh_skip p t (refresh_end p c) (refresh_one p c, cnt + 1)), (p, t, c, cnt))
      \<in> measure (\<lambda>(p, t, c, cnt). nat (t - c_next_refresh c + 1))"
    using n r by simp
qed simp

declare refresh_loop.simps [simp del]

definition chan_at :: "eng \<Rightarrow> int \<Rightarrow> channel" where
  "chan_at e ch = e_chan e ! nat ch"

definition set_chan :: "int \<Rightarrow> channel \<Rightarrow> eng \<Rightarrow> eng" where
  "set_chan ch c e = e\<lparr>e_chan := (e_chan e)[nat ch := c]\<rparr>"

definition refresh :: "int \<Rightarrow> int \<Rightarrow> eng \<Rightarrow> eng" where
  "refresh ch t e =
     (case refresh_loop (e_p e) t (chan_at e ch, st_refreshes (e_st e)) of
        (c, cnt) \<Rightarrow> (set_chan ch c e)\<lparr>e_st := (e_st e)\<lparr>st_refreshes := cnt\<rparr>\<rparr>)"

section \<open>One burst\<close>

text \<open>The fields are peeled off from the least significant bits, so from the last of the list.\<close>

definition set_coord :: "char \<Rightarrow> int \<Rightarrow> coord \<Rightarrow> coord" where
  "set_coord f v c =
     (if f = CHR ''h'' then c\<lparr>k_ch := v\<rparr> else if f = CHR ''a'' then c\<lparr>k_ra := v\<rparr>
      else if f = CHR ''g'' then c\<lparr>k_bg := v\<rparr> else if f = CHR ''b'' then c\<lparr>k_ba := v\<rparr>
      else if f = CHR ''r'' then c\<lparr>k_row := v\<rparr> else if f = CHR ''c'' then c\<lparr>k_col := v\<rparr> else c)"

fun decode_fields :: "(char \<times> nat) list \<Rightarrow> u64 \<Rightarrow> coord \<Rightarrow> coord" where
  "decode_fields [] a c = c"
| "decode_fields ((f, bits) # rest) a c =
     (let v = a AND (push_bit bits 1 - 1) in decode_fields rest (drop_bit bits a) (set_coord f (uint v) c))"

definition zero_coord :: coord where
  "zero_coord = \<lparr>k_ch = 0, k_ra = 0, k_bg = 0, k_ba = 0, k_row = 0, k_col = 0\<rparr>"

definition decode :: "eng \<Rightarrow> u64 \<Rightarrow> coord" where
  "decode e addr = decode_fields (rev (e_fields e)) (drop_bit (e_offset_bits e) addr) zero_coord"

text \<open>The row command part of a plan: kind, activate, first command, earliest column command.\<close>

definition plan_row :: "params \<Rightarrow> channel \<Rightarrow> coord \<Rightarrow> bank \<Rightarrow> int \<Rightarrow> nat \<times> int \<times> int \<times> int" where
  "plan_row p c k b t =
     (if b_open_row b = k_row k then
        let col = max t (b_act b + p_tRCD p) in (0, b_act b, col, col)
      else
        let (kind, act, first) =
              (if 0 \<le> b_open_row b then
                 let pre = max t (max (b_act b + p_tRAS p) (b_pre_ok b)) in (2, pre + p_tRP p, pre)
               else (1, t, -1));
            act = max act (max (b_act_ok b) (b_act b + p_tRC p));
            act = (if c_last_act_rank c = k_ra k
                   then max act (c_last_act c + (if c_last_act_bg c = k_bg k then p_tRRD_L p else p_tRRD_S p))
                   else act);
            faw = c_faw c ! nat (k_ra k);
            act = (if length faw = 4 then max act (hd faw + p_tFAW p) else act);
            first = (if first < 0 then act else first)
        in (kind, act, first, act + p_tRCD p))"

definition plan_in :: "params \<Rightarrow> int \<Rightarrow> channel \<Rightarrow> coord \<Rightarrow> int \<Rightarrow> bool \<Rightarrow> plan" where
  "plan_in p burst_ps c k t w =
     (let bank = nat ((k_ra k * p_bankgroups p + k_bg k) * p_banks p + k_ba k);
          (kind, act, first, col) = plan_row p c k (c_banks c ! bank) t;
          same_bg = (c_last_col_rank c = k_ra k \<and> c_last_col_bg c = k_bg k);
          col = max col (c_last_col c + (if same_bg then p_tCCD_L p else p_tCCD_S p));
          col = (if \<not> w \<and> c_last_was_write c
                 then max col (c_last_write_end c + (if same_bg then p_tWTR_L p else p_tWTR_S p)) else col);
          col = (if w \<and> \<not> c_last_was_write c
                 then max col (c_last_col c + (if same_bg \<and> p_tRTW_L p \<noteq> 0 then p_tRTW_L p else p_tRTW p)) else col);
          lat = (if w then p_tWL p else p_tRL p);
          data = max (col + lat) (c_bus_free c)
      in \<lparr>pl_k = k, pl_bank = bank, pl_kind = kind, pl_act = act, pl_first_cmd = first,
          pl_col = data - lat, pl_end = data + burst_ps\<rparr>)"

definition plan :: "eng \<Rightarrow> int \<Rightarrow> u64 \<Rightarrow> bool \<Rightarrow> plan" where
  "plan e t addr w = (let k = decode e addr in plan_in (e_p e) (e_burst_ps e) (chan_at e (k_ch k)) k t w)"

definition commit_chan :: "params \<Rightarrow> plan \<Rightarrow> bool \<Rightarrow> channel \<Rightarrow> channel" where
  "commit_chan p pl w c =
     (let k = pl_k pl; b = c_banks c ! pl_bank pl;
          (c, b) =
            (if pl_kind pl = 0 then (c, b)
             else
               let faw = c_faw c ! nat (k_ra k);
                   faw = (if length faw = 4 then tl faw else faw) @ [pl_act pl]
               in (c\<lparr>c_last_act := pl_act pl, c_last_act_rank := k_ra k, c_last_act_bg := k_bg k,
                     c_faw := (c_faw c)[nat (k_ra k) := faw]\<rparr>,
                   b\<lparr>b_open_row := k_row k, b_act := pl_act pl\<rparr>));
          b = b\<lparr>b_pre_ok := max (b_pre_ok b) (if w then pl_end pl + p_tCK p + p_tWR p else pl_col pl + p_tRTP p)\<rparr>
      in c\<lparr>c_banks := (c_banks c)[pl_bank pl := b], c_order := min (pl_first_cmd pl) (pl_col pl), c_bus_free := pl_end pl,
           c_last_col := pl_col pl, c_last_col_rank := k_ra k, c_last_col_bg := k_bg k, c_last_was_write := w,
           c_last_write_end := (if w then pl_end pl else c_last_write_end c)\<rparr>)"

definition commit_stats :: "int \<Rightarrow> plan \<Rightarrow> dstats \<Rightarrow> dstats" where
  "commit_stats burst_ps pl s =
     (let s = (if pl_kind pl = 0 then s\<lparr>st_row_hits := st_row_hits s + 1\<rparr>
               else if pl_kind pl = 2 then s\<lparr>st_row_conflicts := st_row_conflicts s + 1\<rparr>
               else s\<lparr>st_row_misses := st_row_misses s + 1\<rparr>)
      in s\<lparr>st_bursts := st_bursts s + 1, st_busy_ps := st_busy_ps s + burst_ps\<rparr>)"

definition commit :: "plan \<Rightarrow> bool \<Rightarrow> eng \<Rightarrow> eng" where
  "commit pl w e =
     (set_chan (k_ch (pl_k pl)) (commit_chan (e_p e) pl w (chan_at e (k_ch (pl_k pl)))) e)
       \<lparr>e_st := commit_stats (e_burst_ps e) pl (e_st e)\<rparr>"

partial_function (option) settle :: "int \<Rightarrow> int \<Rightarrow> u64 \<Rightarrow> bool \<Rightarrow> plan \<Rightarrow> eng \<Rightarrow> (plan \<times> eng) option" where
  "settle ch t addr w pl e =
     (if 0 < p_tREFI (e_p e) \<and> c_next_refresh (chan_at e ch) \<le> pl_col pl
      then let e = refresh ch (pl_col pl) e in settle ch t addr w (plan e t addr w) e
      else Some (pl, e))"

definition burst :: "int \<Rightarrow> u64 \<Rightarrow> bool \<Rightarrow> eng \<Rightarrow> (int \<times> eng) option" where
  "burst arrive addr w e =
     (let ch = k_ch (decode e addr); t = max arrive (c_order (chan_at e ch)); e = refresh ch t e
      in do {
        (pl, e) \<leftarrow> settle ch t addr w (plan e t addr w) e;
        Some (pl_end pl, commit pl w e)
      })"

section \<open>The write queue\<close>

definition issue_oldest :: "int \<Rightarrow> eng \<Rightarrow> eng option" where
  "issue_oldest t e =
     (let (arrive, addr) = hd (e_wq e); e = e\<lparr>e_wq := tl (e_wq e)\<rparr>
      in do {
        (fin, e) \<leftarrow> burst (max t arrive) addr True e;
        Some (e\<lparr>e_leaving := e_leaving e @ [fin]\<rparr>)
      })"

definition retire :: "int \<Rightarrow> eng \<Rightarrow> eng" where
  "retire t e = e\<lparr>e_leaving := dropWhile (\<lambda>l. l \<le> t) (e_leaving e)\<rparr>"

partial_function (option) drain_idle :: "int \<Rightarrow> eng \<Rightarrow> eng option" where
  "drain_idle t e =
     (if e_wq e = [] then Some e
      else
        let (arrive, addr) = hd (e_wq e); ch = k_ch (decode e addr); start = max arrive (c_order (chan_at e ch))
        in if t \<le> start then Some e
           else
             let e = refresh ch start e
             in if t \<le> pl_col (plan e start addr True) then Some e
                else do { e \<leftarrow> issue_oldest start e; drain_idle t e })"

text \<open>The two loops of \<open>queued\<close>: wait for a free slot, and drain a batch.\<close>

partial_function (option) wait_slot :: "int \<Rightarrow> eng \<Rightarrow> (int \<times> eng) option" where
  "wait_slot t e =
     (if p_wq_depth (e_p e) \<le> int (length (e_wq e) + length (e_leaving e))
      then do {
        e \<leftarrow> (if e_leaving e = [] then issue_oldest t e else Some e);
        wait_slot (max t (hd (e_leaving e))) (e\<lparr>e_leaving := tl (e_leaving e)\<rparr>)
      }
      else Some (t, e))"

partial_function (option) drain_batch :: "int \<Rightarrow> eng \<Rightarrow> eng option" where
  "drain_batch t e =
     (if p_wq_low (e_p e) \<le> int (length (e_wq e))
      then do { e \<leftarrow> issue_oldest t e; drain_batch t e }
      else Some e)"

definition queued :: "int \<Rightarrow> u64 \<Rightarrow> bool \<Rightarrow> eng \<Rightarrow> (int \<times> eng) option" where
  "queued arrive addr w e = do {
     e \<leftarrow> drain_idle arrive e;
     if list_ex (\<lambda>q. snd q = addr) (e_wq e) then
       if w then Some (arrive, e\<lparr>e_st := (e_st e)\<lparr>st_merged := st_merged (e_st e) + 1\<rparr>\<rparr>)
       else Some (arrive + p_tCK (e_p e), e\<lparr>e_st := (e_st e)\<lparr>st_forwarded := st_forwarded (e_st e) + 1\<rparr>\<rparr>)
     else if \<not> w then burst arrive addr False e
     else do {
       (t, e) \<leftarrow> wait_slot arrive (retire arrive e);
       let e = e\<lparr>e_wq := e_wq e @ [(t, addr)]\<rparr>;
       e \<leftarrow> (if p_wq_high (e_p e) < int (length (e_wq e)) then drain_batch t e else Some e);
       Some (t, e)
     }
   }"

section \<open>An access\<close>

text \<open>The loop over the transfers of a HyperBus access: the time the next may start, and when the last ended.\<close>

partial_function (option) hyper_chunks :: "params \<Rightarrow> int \<Rightarrow> int \<Rightarrow> int \<Rightarrow> int \<Rightarrow> int \<Rightarrow> int \<Rightarrow> dstats \<Rightarrow> (int \<times> dstats) option" where
  "hyper_chunks p bytes_per_clk overhead max_chunk bytes t fin s =
     (if 0 < bytes then
        let chunk = min bytes max_chunk; data_clks = (chunk + bytes_per_clk - 1) sdiv bytes_per_clk;
            fin = t + (overhead + data_clks) * p_hb_ck_ps p
        in hyper_chunks p bytes_per_clk overhead max_chunk (bytes - chunk) (fin + p_hb_rwr_ps p) fin
             (s\<lparr>st_bursts := st_bursts s + 1, st_busy_ps := st_busy_ps s + data_clks * p_hb_ck_ps p\<rparr>)
      else Some (fin, s))"

definition first_byte :: "int \<Rightarrow> u64 \<Rightarrow> u64" where
  "first_byte granule addr = addr AND NOT (word_of_int (granule - 1))"

definition last_byte :: "int \<Rightarrow> u64 \<Rightarrow> u64 \<Rightarrow> u64" where
  "last_byte granule addr sz = (addr + sz - 1) OR word_of_int (granule - 1)"

definition access_hyperram :: "int \<Rightarrow> u64 \<Rightarrow> u64 \<Rightarrow> eng \<Rightarrow> (int \<times> eng) option" where
  "access_hyperram now addr sz e =
     (let p = e_p e;
          bytes = sint (last_byte (p_granule p) addr sz - first_byte (p_granule p) addr + 1);
          bytes_per_clk = 2 * p_hb_bus_bytes p;
          lat = p_hb_lat_clks p * (if p_hb_fixed_2x p \<noteq> 0 then 2 else 1);
          overhead = p_hb_ca_clks p + lat;
          max_clks = p_hb_csm_ps p sdiv p_hb_ck_ps p - overhead;
          max_chunk = max bytes_per_clk (max_clks * bytes_per_clk);
          t = max (now + p_ctrl_ps p sdiv 2) (e_hb_free e)
      in do {
        (fin, s) \<leftarrow> hyper_chunks p bytes_per_clk overhead max_chunk bytes t t (e_st e);
        Some (fin + (p_ctrl_ps p - p_ctrl_ps p sdiv 2), e\<lparr>e_st := s, e_hb_free := fin + p_hb_rwr_ps p\<rparr>)
      })"

partial_function (option) access_bursts :: "int \<Rightarrow> bool \<Rightarrow> u64 \<Rightarrow> u64 \<Rightarrow> int \<Rightarrow> eng \<Rightarrow> (int \<times> eng) option" where
  "access_bursts arrive w a last_a acc e =
     (if a < last_a then do {
        (d, e) \<leftarrow> (if 0 < p_wq_depth (e_p e) then queued arrive a w e else burst arrive a w e);
        access_bursts arrive w (a + word_of_int (e_burst_bytes e)) last_a (max acc d) e
      }
      else Some (acc, e))"

definition access :: "int \<Rightarrow> u64 \<Rightarrow> u64 \<Rightarrow> bool \<Rightarrow> eng \<Rightarrow> (int \<times> eng) option" where
  "access now addr sz w e =
     (let sz = (if sz = 0 then 1 else sz);
          e = (if w then e\<lparr>e_st := (e_st e)\<lparr>st_writes := st_writes (e_st e) + 1\<rparr>\<rparr>
               else e\<lparr>e_st := (e_st e)\<lparr>st_reads := st_reads (e_st e) + 1\<rparr>\<rparr>)
      in if e_hyperram e then access_hyperram now addr sz e
         else
           let p = e_p e; arrive = now + p_ctrl_ps p sdiv 2
           in do {
             (fin, e) \<leftarrow> access_bursts arrive w (first_byte (e_align e) addr) (last_byte (e_align e) addr sz) arrive e;
             Some (fin + (p_ctrl_ps p - p_ctrl_ps p sdiv 2), e)
           })"

definition nominal_read_ps :: "eng \<Rightarrow> int option" where
  "nominal_read_ps e =
     (case Engine (e_p e) of
        Inl msg \<Rightarrow> None
      | Inr fresh \<Rightarrow> map_option fst (access 0 0 (word_of_int (p_granule (e_p e))) False fresh))"

text \<open>The loops compute.\<close>

declare settle.simps [code] drain_idle.simps [code] wait_slot.simps [code] drain_batch.simps [code]
  hyper_chunks.simps [code] access_bursts.simps [code]

end
