(* ===== verification/DramRefresh.thy ===== *)
theory DramRefresh
  imports DramCore
begin

text \<open>
  Refresh, \<open>Engine::refresh\<close> of \<open>dram_core.hpp\<close>: skipping the refreshes of an idle stretch in one
  step is the same as doing them one by one.
\<close>

section \<open>Refreshing one by one\<close>

text \<open>The loop without the skip.\<close>

function refresh_slow :: "params \<Rightarrow> int \<Rightarrow> channel \<times> nat \<Rightarrow> channel \<times> nat" where
  "refresh_slow p t (c, cnt) =
     (if p_tREFI p \<le> 0 then (c, cnt)
      else if c_next_refresh c \<le> t then refresh_slow p t (refresh_one p c, cnt + 1)
      else (c, cnt))"
  by auto
termination
  by (relation "measure (\<lambda>(p, t, c, cnt). nat (t - c_next_refresh c + 1))") (auto simp: refresh_one_def Let_def)

declare refresh_slow.simps [simp del]

lemma refresh_slow_steps:
  assumes "0 < p_tREFI p" and "c_next_refresh c + int n * p_tREFI p \<le> t + p_tREFI p"
  shows "refresh_slow p t (c, cnt) = refresh_slow p t ((refresh_one p ^^ n) c, cnt + n)"
  using assms(2)
proof (induction n arbitrary: c cnt)
  case 0
  then show ?case by simp
next
  case (Suc n)
  have next1: "c_next_refresh (refresh_one p c) = c_next_refresh c + p_tREFI p"
    by (simp add: refresh_one_def Let_def)
  have "0 \<le> int n * p_tREFI p" using assms(1) by simp
  then have "c_next_refresh c \<le> t" using Suc.prems by (simp add: algebra_simps)
  then have "refresh_slow p t (c, cnt) = refresh_slow p t (refresh_one p c, cnt + 1)"
    using assms(1) by (subst refresh_slow.simps) simp
  also have "\<dots> = refresh_slow p t ((refresh_one p ^^ n) (refresh_one p c), cnt + 1 + n)"
    using Suc.prems next1 by (intro Suc.IH) (simp add: algebra_simps)
  finally show ?case by (simp add: funpow_swap1)
qed

section \<open>When a refresh starts and ends\<close>

lemma fold_max_ge:
  assumes "\<And>b s. (s::int) \<le> f b s"
  shows "s \<le> fold f bs s"
proof (induction bs arbitrary: s)
  case (Cons b bs)
  have "f b s \<le> fold f bs (f b s)" by (rule Cons)
  then show ?case using assms [of s b] by simp
qed simp

lemma fold_max_mono:
  assumes m: "\<And>b s. (s::int) \<le> f b s" and g: "\<And>b s. b \<in> set bs \<Longrightarrow> g b \<le> f b s"
  shows "s \<le> fold f bs s \<and> (\<forall>b\<in>set bs. g b \<le> fold f bs s)"
proof (intro conjI ballI fold_max_ge [OF m])
  fix b
  assume "b \<in> set bs"
  then obtain xs ys where bs: "bs = xs @ b # ys" by (auto simp: in_set_conv_decomp)
  have "g b \<le> f b (fold f xs s)" by (rule g) (simp add: bs)
  then show "g b \<le> fold f bs s" using fold_max_ge [of f "f b (fold f xs s)" ys, OF m] by (simp add: bs)
qed

text \<open>A refresh starts no earlier than it is due, than the bus is free, than any bank may be activated.\<close>

lemma refresh_start_bounds:
  "c_next_refresh c \<le> refresh_start p c \<and> c_bus_free c \<le> refresh_start p c
    \<and> (\<forall>b\<in>set (c_banks c). b_act_ok b \<le> refresh_start p c
        \<and> (0 \<le> b_open_row b \<longrightarrow> b_act b + p_tRAS p \<le> refresh_start p c \<and> b_pre_ok b \<le> refresh_start p c))"
proof -
  let ?f = "\<lambda>b start. let start = (if 0 \<le> b_open_row b then max start (max (b_act b + p_tRAS p) (b_pre_ok b)) else start)
         in max start (b_act_ok b)"
  let ?s = "max (c_next_refresh c) (c_bus_free c)"
  have m: "s \<le> ?f b s" for b s by (simp add: Let_def le_max_iff_disj)
  note ok = fold_max_mono [of ?f "c_banks c" b_act_ok ?s, OF m]
    and act = fold_max_mono [of ?f "c_banks c" "\<lambda>b. if 0 \<le> b_open_row b then b_act b + p_tRAS p else b_act_ok b" ?s, OF m]
    and pre = fold_max_mono [of ?f "c_banks c" "\<lambda>b. if 0 \<le> b_open_row b then b_pre_ok b else b_act_ok b" ?s, OF m]
  have 1: "?s \<le> refresh_start p c \<and> (\<forall>b\<in>set (c_banks c). b_act_ok b \<le> refresh_start p c)"
    unfolding refresh_start_def by (rule ok) (simp add: Let_def le_max_iff_disj)
  moreover have "\<forall>b\<in>set (c_banks c). (if 0 \<le> b_open_row b then b_act b + p_tRAS p else b_act_ok b) \<le> refresh_start p c"
    unfolding refresh_start_def by (rule act [THEN conjunct2]) (simp add: Let_def le_max_iff_disj)
  moreover have "\<forall>b\<in>set (c_banks c). (if 0 \<le> b_open_row b then b_pre_ok b else b_act_ok b) \<le> refresh_start p c"
    unfolding refresh_start_def by (rule pre [THEN conjunct2]) (simp add: Let_def le_max_iff_disj)
  ultimately show ?thesis by (auto split: if_splits)
qed

lemma refresh_end_after:
  assumes "0 \<le> p_tRFC p" and "0 \<le> p_tRPab p"
  shows "refresh_start p c + p_tRFC p \<le> refresh_end p c"
  using assms by (simp add: refresh_end_def Let_def)

text \<open>When all banks are closed and idle since \<open>a\<close>, the refresh runs when it is due.\<close>

definition idle_since :: "channel \<Rightarrow> int \<Rightarrow> bool" where
  "idle_since c a \<longleftrightarrow> (\<forall>b\<in>set (c_banks c). b_open_row b = -1 \<and> b_act_ok b = a) \<and> c_bus_free c \<le> a"

lemma fold_max_const:
  "(\<And>b. b \<in> set bs \<Longrightarrow> f b s = s) \<Longrightarrow> fold f bs s = (s::int)"
  by (induction bs) auto

lemma closed_refresh_end:
  assumes "\<forall>b\<in>set (c_banks c). b_open_row b < 0"
  shows "refresh_end p c = refresh_start p c + p_tRFC p"
  using assms by (auto simp: refresh_end_def Let_def list_ex_iff)

lemma idle_refresh_end:
  assumes "idle_since c a" and "a \<le> c_next_refresh c"
  shows "refresh_end p c = c_next_refresh c + p_tRFC p"
proof -
  have "refresh_start p c = c_next_refresh c"
    using assms unfolding refresh_start_def by (subst fold_max_const) (auto simp: idle_since_def)
  moreover have "refresh_end p c = refresh_start p c + p_tRFC p"
    using assms by (intro closed_refresh_end) (simp add: idle_since_def)
  ultimately show ?thesis by simp
qed

lemma refresh_one_idle:
  assumes "0 \<le> p_tRFC p" and "0 \<le> p_tRPab p"
  shows "idle_since (refresh_one p c) (refresh_end p c)"
  using assms refresh_start_bounds [of c p] refresh_end_after [of p c]
  by (fastforce simp: idle_since_def refresh_one_def Let_def)

definition idle_at :: "int \<Rightarrow> int \<Rightarrow> channel \<Rightarrow> channel" where
  "idle_at a nx c = c\<lparr>c_banks := map (\<lambda>b. b\<lparr>b_act_ok := a\<rparr>) (c_banks c), c_next_refresh := nx\<rparr>"

lemma refresh_one_of_idle:
  assumes "0 \<le> p_tRFC p" and "idle_since c a" and "a \<le> c_next_refresh c"
  shows "refresh_one p c = idle_at (c_next_refresh c + p_tRFC p) (c_next_refresh c + p_tREFI p) c"
proof -
  have "map (\<lambda>b. b\<lparr>b_open_row := -1, b_act_ok := max (b_act_ok b) (c_next_refresh c + p_tRFC p)\<rparr>) (c_banks c)
      = map (\<lambda>b. b\<lparr>b_act_ok := c_next_refresh c + p_tRFC p\<rparr>) (c_banks c)"
    using assms by (intro map_cong refl) (auto simp: idle_since_def intro!: bank.equality)
  then show ?thesis
    unfolding refresh_one_def Let_def idle_refresh_end [OF assms(2,3)] idle_at_def by simp
qed

lemma idle_at_at: "idle_at a nx (idle_at a' nx' c) = idle_at a nx c"
  by (simp add: idle_at_def o_def)

lemma idle_at_idle:
  assumes "idle_since c a" and "a \<le> a'"
  shows "idle_since (idle_at a' nx c) a'"
  using assms by (auto simp: idle_since_def idle_at_def)

lemma refresh_one_idle_n:
  assumes "0 \<le> p_tRFC p" and "p_tRFC p \<le> p_tREFI p" and "idle_since c a" and "a \<le> c_next_refresh c"
  shows "(refresh_one p ^^ Suc n) c
    = idle_at (c_next_refresh c + int n * p_tREFI p + p_tRFC p) (c_next_refresh c + int (Suc n) * p_tREFI p) c"
proof (induction n)
  case 0
  then show ?case using refresh_one_of_idle [OF assms(1,3,4)] by simp
next
  case (Suc n)
  let ?a = "c_next_refresh c + int n * p_tREFI p + p_tRFC p" and ?nx = "c_next_refresh c + int (Suc n) * p_tREFI p"
  have "0 \<le> int n * p_tREFI p" using assms(1,2) by simp
  then have a: "a \<le> ?a" using assms by linarith
  have "?a \<le> ?nx" using assms(2) by (simp add: algebra_simps)
  note a = a this
  have "(refresh_one p ^^ Suc (Suc n)) c = refresh_one p ((refresh_one p ^^ Suc n) c)" by simp
  also have "\<dots> = refresh_one p (idle_at ?a ?nx c)" by (simp only: Suc.IH)
  also have "\<dots> = idle_at (?nx + p_tRFC p) (?nx + p_tREFI p) (idle_at ?a ?nx c)"
    using refresh_one_of_idle [OF assms(1) idle_at_idle [OF assms(3) a(1)], of ?nx] a(2) by (simp add: idle_at_def)
  finally show ?case by (simp add: idle_at_at algebra_simps)
qed

section \<open>The skip\<close>

lemma refresh_skip_is_steps:
  assumes "0 \<le> p_tRFC p" and "p_tRFC p \<le> p_tREFI p" and "0 < p_tREFI p"
    and "idle_since c fin" and "fin \<le> c_next_refresh c" and "c_next_refresh c + p_tRFC p \<le> t"
    and "n = nat ((t - p_tRFC p - c_next_refresh c) sdiv p_tREFI p)"
  shows "refresh_skip p t fin (c, cnt) = ((refresh_one p ^^ n) c, cnt + n)"
proof -
  let ?q = "(t - p_tRFC p - c_next_refresh c) sdiv p_tREFI p"
  show ?thesis
  proof (cases "0 < ?q")
    case True
    define m where "m = nat ?q - 1"
    have n: "n = Suc m" "?q = int (Suc m)" using True assms(7) by (simp_all add: m_def)
    have last: "c_next_refresh c + ?q * p_tREFI p - p_tREFI p + p_tRFC p = c_next_refresh c + int m * p_tREFI p + p_tRFC p"
      by (simp only: n(2)) (simp add: algebra_simps)
    have "0 \<le> int m * p_tREFI p" using assms(3) by simp
    then have "fin \<le> c_next_refresh c + int m * p_tREFI p + p_tRFC p" using assms(1,5) by linarith
    then have "map (\<lambda>b. b\<lparr>b_act_ok := max (b_act_ok b) (c_next_refresh c + int m * p_tREFI p + p_tRFC p)\<rparr>) (c_banks c)
        = map (\<lambda>b. b\<lparr>b_act_ok := c_next_refresh c + int m * p_tREFI p + p_tRFC p\<rparr>) (c_banks c)"
      using assms by (intro map_cong refl) (auto simp: idle_since_def intro!: bank.equality)
    moreover have "refresh_skip p t fin (c, cnt)
        = (c\<lparr>c_banks := map (\<lambda>b. b\<lparr>b_act_ok := max (b_act_ok b) (c_next_refresh c + ?q * p_tREFI p - p_tREFI p + p_tRFC p)\<rparr>) (c_banks c),
             c_next_refresh := c_next_refresh c + ?q * p_tREFI p\<rparr>, cnt + nat ?q)"
      using True assms(5,6) by (simp add: refresh_skip_def Let_def)
    ultimately show ?thesis
      unfolding last using refresh_one_idle_n [OF assms(1,2,4,5), of m] by (simp add: n idle_at_def del: funpow.simps)
  next
    case False
    then show ?thesis using assms(5-7) by (simp add: refresh_skip_def Let_def)
  qed
qed

lemma sdiv_nonneg: "0 \<le> a \<Longrightarrow> 0 < b \<Longrightarrow> a sdiv b = a div (b::int)"
  by (cases "a div b = 0"; cases "a = 0") (simp_all add: signed_divide_int_def sgn_if)

lemma int_div_times_le: "0 < b \<Longrightarrow> a div b * b \<le> (a::int)"
  by (metis div_mult_mod_eq le_add_same_cancel1 pos_mod_sign)

lemma refresh_loop_slow:
  assumes "0 \<le> p_tRFC p" and "0 \<le> p_tRPab p"
  shows "refresh_loop p t (c, cnt) = refresh_slow p t (c, cnt)"
proof (induction "nat (t - c_next_refresh c + 1)" arbitrary: c cnt rule: less_induct)
  case less
  show ?case
  proof (cases "0 < p_tREFI p \<and> c_next_refresh c \<le> t")
    case False
    then show ?thesis by (subst refresh_loop.simps, subst refresh_slow.simps) auto
  next
    case True
    let ?c = "refresh_one p c" and ?fin = "refresh_end p c"
    have nx: "c_next_refresh ?c = c_next_refresh c + p_tREFI p" by (simp add: refresh_one_def Let_def)
    have "refresh_start p c \<ge> c_next_refresh c" using refresh_start_bounds by blast
    then have fin: "c_next_refresh c + p_tRFC p \<le> ?fin" using refresh_end_after [OF assms, of c] by linarith
    obtain n where skip: "refresh_skip p t ?fin (?c, cnt + 1) = ((refresh_one p ^^ n) ?c, cnt + 1 + n)"
        and n: "c_next_refresh ?c + int n * p_tREFI p \<le> t + p_tREFI p"
    proof (cases "c_next_refresh ?c + p_tRFC p \<le> t \<and> ?fin \<le> c_next_refresh ?c")
      case skips: True
      let ?q = "(t - p_tRFC p - c_next_refresh ?c) sdiv p_tREFI p"
      have q: "0 \<le> ?q" "?q * p_tREFI p \<le> t - p_tRFC p - c_next_refresh ?c"
        using skips True by (simp_all add: sdiv_nonneg pos_imp_zdiv_nonneg_iff int_div_times_le)
      have "p_tRFC p \<le> p_tREFI p" using fin skips nx by linarith
      from refresh_skip_is_steps [OF assms(1) this _ refresh_one_idle [OF assms, of c] _ _ refl] True skips
      have "refresh_skip p t ?fin (?c, cnt + 1) = ((refresh_one p ^^ nat ?q) ?c, cnt + 1 + nat ?q)" by simp
      moreover have "c_next_refresh ?c + int (nat ?q) * p_tREFI p \<le> t + p_tREFI p"
        using q assms(1) True by simp
      ultimately show ?thesis by (rule that)
    next
      case False
      then have "refresh_skip p t ?fin (?c, cnt + 1) = ((refresh_one p ^^ 0) ?c, cnt + 1 + 0)"
        by (auto simp: refresh_skip_def)
      moreover have "c_next_refresh ?c + int 0 * p_tREFI p \<le> t + p_tREFI p" using True nx by simp
      ultimately show ?thesis by (rule that)
    qed
    have nxn: "c_next_refresh ((refresh_one p ^^ n) ?c) = c_next_refresh ?c + int n * p_tREFI p"
      by (induction n) (simp_all add: refresh_one_def Let_def algebra_simps)
    have "0 \<le> int n * p_tREFI p" using True by simp
    then have "nat (t - c_next_refresh ((refresh_one p ^^ n) ?c) + 1) < nat (t - c_next_refresh c + 1)"
      using True unfolding nxn nx by linarith
    then have "refresh_loop p t ((refresh_one p ^^ n) ?c, cnt + 1 + n) = refresh_slow p t ((refresh_one p ^^ n) ?c, cnt + 1 + n)"
      by (rule less.hyps)
    moreover have "refresh_slow p t (?c, cnt + 1) = refresh_slow p t ((refresh_one p ^^ n) ?c, cnt + 1 + n)"
      using True by (intro refresh_slow_steps n) simp
    moreover have "refresh_loop p t (c, cnt) = refresh_loop p t (refresh_skip p t ?fin (?c, cnt + 1))"
      using True by (subst refresh_loop.simps) simp
    moreover have "refresh_slow p t (c, cnt) = refresh_slow p t (?c, cnt + 1)"
      using True by (subst refresh_slow.simps) simp
    ultimately show ?thesis using skip by simp
  qed
qed


text \<open>
  C34. Skipping is exact. For every channel state and every time, if the two refresh durations are
  not negative, the loop that skips the refreshes of an idle stretch leaves the channel, and
  counts as many refreshes, as the loop that does each of them.
\<close>

theorem refresh_skip_exact:
  assumes "0 \<le> p_tRFC p" and "0 \<le> p_tRPab p"
  shows "refresh_loop p t (c, cnt) = refresh_slow p t (c, cnt)"
  by (rule refresh_loop_slow [OF assms])

theorem refresh_skip_exact_witness:
  "snd (refresh_loop (default_params\<lparr>p_tREFI := 100000, p_tRFC := 50000\<rparr>) 10020000
      ((fresh_channel default_params)\<lparr>c_next_refresh := 100000\<rparr>, 0)) = 100
    \<and> snd (refresh_slow (default_params\<lparr>p_tREFI := 100000, p_tRFC := 50000\<rparr>) 10020000
      ((fresh_channel default_params)\<lparr>c_next_refresh := 100000\<rparr>, 0)) = 100"
proof -
  let ?p = "default_params\<lparr>p_tREFI := 100000, p_tRFC := 50000\<rparr>"
  have "0 \<le> p_tRFC ?p" "0 \<le> p_tRPab ?p" by (simp_all add: default_params_def)
  note eq = refresh_skip_exact [OF this, of 10020000 "(fresh_channel default_params)\<lparr>c_next_refresh := 100000\<rparr>" 0]
  have "snd (refresh_loop ?p 10020000 ((fresh_channel default_params)\<lparr>c_next_refresh := 100000\<rparr>, 0)) = 100"
    by code_simp
  with eq show ?thesis by simp
qed

section \<open>What a run of refreshes leaves\<close>

lemma next_refresh_one [simp]: "c_next_refresh (refresh_one p c) = c_next_refresh c + p_tREFI p"
  by (simp add: refresh_one_def Let_def)

lemma refresh_loop_iter:
  assumes "0 \<le> p_tRFC p" and "0 \<le> p_tRPab p" and "0 < p_tREFI p"
  shows "\<exists>n. refresh_loop p t (c, cnt) = ((refresh_one p ^^ n) c, cnt + n)
    \<and> (0 < n \<longleftrightarrow> c_next_refresh c \<le> t) \<and> t < c_next_refresh ((refresh_one p ^^ n) c)"
  unfolding refresh_loop_slow [OF assms(1,2)]
proof (induction "nat (t - c_next_refresh c + 1)" arbitrary: c cnt rule: less_induct)
  case less
  show ?case
  proof (cases "c_next_refresh c \<le> t")
    case True
    then have "nat (t - c_next_refresh (refresh_one p c) + 1) < nat (t - c_next_refresh c + 1)"
      using assms(3) by simp
    from less.hyps [OF this, of "cnt + 1"] obtain n where
      "refresh_slow p t (refresh_one p c, cnt + 1) = ((refresh_one p ^^ n) (refresh_one p c), cnt + 1 + n)"
      "t < c_next_refresh ((refresh_one p ^^ n) (refresh_one p c))" by blast
    then show ?thesis
      using True assms(3) by (intro exI [of _ "Suc n"]) (simp add: refresh_slow.simps [of p t c] funpow_swap1)
  next
    case False
    then show ?thesis by (intro exI [of _ 0]) (simp add: refresh_slow.simps [of p t c])
  qed
qed

text \<open>With refresh switched off nothing happens.\<close>

lemma refresh_loop_off: "p_tREFI p \<le> 0 \<Longrightarrow> refresh_loop p t (c, cnt) = (c, cnt)"
  by (simp add: refresh_loop.simps)

section \<open>A burst is planned in the end\<close>

text \<open>All banks closed, nothing in the way after \<open>a\<close>.\<close>

definition quiet_after :: "int \<Rightarrow> channel \<Rightarrow> bool" where
  "quiet_after a c \<longleftrightarrow> (\<forall>b\<in>set (c_banks c). b_open_row b = -1 \<and> b_act_ok b \<le> a) \<and> c_bus_free c \<le> a"

lemma fold_max_le:
  assumes "\<And>b s. b \<in> set bs \<Longrightarrow> s \<le> (a::int) \<Longrightarrow> f b s \<le> a" and "s \<le> a"
  shows "fold f bs s \<le> a"
  using assms by (induction bs arbitrary: s) auto

lemma quiet_refresh_one:
  assumes "quiet_after a c" and "0 \<le> p_tRFC p"
  shows "quiet_after (max (c_next_refresh c) a + p_tRFC p) (refresh_one p c)"
proof -
  have "refresh_start p c \<le> max (c_next_refresh c) a"
    unfolding refresh_start_def
    by (rule fold_max_le) (use assms(1) in \<open>auto simp: quiet_after_def Let_def le_max_iff_disj\<close>)
  moreover have "refresh_end p c = refresh_start p c + p_tRFC p"
    using assms(1) by (intro closed_refresh_end) (auto simp: quiet_after_def)
  ultimately show ?thesis
    using assms by (auto simp: quiet_after_def refresh_one_def Let_def)
qed

lemma refresh_one_quiets:
  assumes "0 \<le> p_tRFC p" and "0 \<le> p_tRPab p"
  shows "quiet_after (refresh_end p c) (refresh_one p c)"
  using refresh_one_idle [OF assms, of c] by (simp add: idle_since_def quiet_after_def)

lemma quiet_mono: "quiet_after a c \<Longrightarrow> a \<le> a' \<Longrightarrow> quiet_after a' c"
  by (auto simp: quiet_after_def)

text \<open>What refreshing does not touch.\<close>

definition reset_chan :: "channel \<Rightarrow> channel" where
  "reset_chan c = c\<lparr>c_banks := map (\<lambda>b. b\<lparr>b_open_row := -1, b_act_ok := 0\<rparr>) (c_banks c), c_next_refresh := 0\<rparr>"

lemma reset_refresh_one [simp]: "reset_chan (refresh_one p c) = reset_chan c"
  by (simp add: reset_chan_def refresh_one_def Let_def o_def)

lemma reset_refresh_n: "reset_chan ((refresh_one p ^^ n) c) = reset_chan c"
  by (induction n) simp_all

lemma column_mono:
  fixes x y m :: int
  assumes "x \<le> max y m"
  shows "max x z \<le> max (max y z) m" and "(if b then max x z else x) \<le> max (if b then max y z else y) m"
    and "max (x + l) f - l \<le> max (max (y + l) f - l) m"
proof -
  show "max x z \<le> max (max y z) m" "max (x + l) f - l \<le> max (max (y + l) f - l) m" using assms by linarith+
  then show "(if b then max x z else x) \<le> max (if b then max y z else y) m" using assms by simp
qed

definition row_act :: "params \<Rightarrow> channel \<Rightarrow> coord \<Rightarrow> int \<Rightarrow> int" where
  "row_act p c k act =
     (let act = (if c_last_act_rank c = k_ra k
                 then max act (c_last_act c + (if c_last_act_bg c = k_bg k then p_tRRD_L p else p_tRRD_S p)) else act);
          faw = c_faw c ! nat (k_ra k)
      in if length faw = 4 then max act (hd faw + p_tFAW p) else act)"

lemma row_act_mono: "x \<le> max y m \<Longrightarrow> row_act p c k x \<le> max (row_act p c k y) m"
  unfolding row_act_def Let_def by (intro column_mono)

lemma plan_row_closed:
  assumes "b_open_row b = -1" and "0 \<le> k_row k"
  shows "plan_row p c k b t =
    (let act = row_act p c k (max t (max (b_act_ok b) (b_act b + p_tRC p))) in (1, act, act, act + p_tRCD p))"
  using assms by (simp add: plan_row_def row_act_def Let_def)

lemma closed_plan_col:
  assumes "quiet_after a c" and "0 \<le> k_row k"
    and "nat ((k_ra k * p_bankgroups p + k_bg k) * p_banks p + k_ba k) < length (c_banks c)"
  shows "pl_col (plan_in p bp c k t w) \<le> max (pl_col (plan_in p bp (reset_chan c) k t w)) (a + p_tRCD p)"
proof -
  let ?i = "nat ((k_ra k * p_bankgroups p + k_bg k) * p_banks p + k_ba k)"
  let ?b = "c_banks c ! ?i" and ?d = "c_banks (reset_chan c) ! ?i"
  have b: "b_open_row ?b = -1" "b_act_ok ?b \<le> a" "c_bus_free c \<le> a" and d: "?d = ?b\<lparr>b_open_row := -1, b_act_ok := 0\<rparr>"
    using assms by (simp_all add: quiet_after_def reset_chan_def)
  have same: "c_last_col (reset_chan c) = c_last_col c" "c_last_col_rank (reset_chan c) = c_last_col_rank c"
    "c_last_col_bg (reset_chan c) = c_last_col_bg c" "c_last_was_write (reset_chan c) = c_last_was_write c"
    "c_last_write_end (reset_chan c) = c_last_write_end c" "c_bus_free (reset_chan c) = c_bus_free c"
    by (simp_all add: reset_chan_def)
  have row: "row_act p (reset_chan c) k x = row_act p c k x" for x by (simp add: row_act_def reset_chan_def)
  let ?x = "\<lambda>ok. row_act p c k (max t (max ok (b_act ?b + p_tRC p)))"
  have r: "plan_row p c k ?b t = (1, ?x (b_act_ok ?b), ?x (b_act_ok ?b), ?x (b_act_ok ?b) + p_tRCD p)"
    "plan_row p (reset_chan c) k ?d t = (1, ?x 0, ?x 0, ?x 0 + p_tRCD p)"
    using b assms(2) by (simp_all add: plan_row_closed d row Let_def)
  have "max t (max (b_act_ok ?b) z) \<le> max (max t (max 0 z)) a" for z using b(2) by linarith
  then have "?x (b_act_ok ?b) \<le> max (?x 0) a" by (rule row_act_mono)
  then have "?x (b_act_ok ?b) + p_tRCD p \<le> max (?x 0 + p_tRCD p) (a + p_tRCD p)" by linarith
  then show ?thesis
    unfolding plan_in_def Let_def r prod.case plan.select_convs
    by (simp only: same) (intro column_mono)
qed

end
