(* ===== verification/DramLoops.thy ===== *)
theory DramLoops
  imports DramRefresh
begin

text \<open>
  The loops of the DRAM engine end. The parameters that matter are the refresh ones: when a
  refresh and an activation together are shorter than the refresh interval, no burst is put off
  for ever; the other loops shorten a list at every turn.
\<close>

section \<open>Parameters and shapes\<close>

text \<open>What the JEDEC timings of a real device give.\<close>

definition sane_timing :: "params \<Rightarrow> bool" where
  "sane_timing p \<longleftrightarrow> 0 \<le> p_tRFC p \<and> 0 \<le> p_tRPab p \<and> 0 \<le> p_tRCD p \<and> 0 \<le> p_tRP p
     \<and> (0 < p_tREFI p \<longrightarrow> p_tRFC p + p_tRCD p < p_tREFI p)"

definition bank_of :: "params \<Rightarrow> coord \<Rightarrow> nat" where
  "bank_of p k = nat ((k_ra k * p_bankgroups p + k_bg k) * p_banks p + k_ba k)"

text \<open>Every burst address is decoded to a channel, rank and bank that exist.\<close>

definition in_range :: "params \<Rightarrow> coord \<Rightarrow> bool" where
  "in_range p k \<longleftrightarrow> 0 \<le> k_ch k \<and> k_ch k < p_channels p \<and> 0 \<le> k_ra k \<and> k_ra k < p_ranks p
     \<and> 0 \<le> k_bg k \<and> k_bg k < p_bankgroups p \<and> 0 \<le> k_ba k \<and> k_ba k < p_banks p
     \<and> 0 \<le> k_row k \<and> k_row k < p_rows p \<and> 0 \<le> k_col k"

definition chan_shape :: "params \<Rightarrow> channel \<Rightarrow> bool" where
  "chan_shape p c \<longleftrightarrow> length (c_banks c) = nat (p_ranks p * p_bankgroups p * p_banks p)
     \<and> length (c_faw c) = nat (p_ranks p) \<and> list_all (\<lambda>f. length f \<le> 4) (c_faw c)"

definition eng_shape :: "eng \<Rightarrow> bool" where
  "eng_shape e \<longleftrightarrow> \<not> e_hyperram e \<and> 0 \<le> e_burst_ps e \<and> length (e_chan e) = nat (p_channels (e_p e))
     \<and> list_all (chan_shape (e_p e)) (e_chan e) \<and> (\<forall>a. in_range (e_p e) (decode e a))"

lemma bank_of_in_range:
  assumes "in_range p k" and "chan_shape p c"
  shows "bank_of p k < length (c_banks c)"
proof -
  let ?i = "(k_ra k * p_bankgroups p + k_bg k) * p_banks p + k_ba k"
  have r: "0 \<le> k_ra k" "k_ra k + 1 \<le> p_ranks p" "0 \<le> k_bg k" "k_bg k + 1 \<le> p_bankgroups p" "0 \<le> k_ba k" "k_ba k + 1 \<le> p_banks p"
    using assms(1) by (auto simp: in_range_def)
  have "k_ra k * p_bankgroups p + k_bg k + 1 \<le> (k_ra k + 1) * p_bankgroups p" using r by (simp add: algebra_simps)
  also have "\<dots> \<le> p_ranks p * p_bankgroups p" using r by (intro mult_right_mono) auto
  finally have "(k_ra k * p_bankgroups p + k_bg k + 1) * p_banks p \<le> p_ranks p * p_bankgroups p * p_banks p"
    using r by (intro mult_right_mono) auto
  then have "?i < p_ranks p * p_bankgroups p * p_banks p" using r by (simp add: algebra_simps)
  moreover have "0 \<le> ?i" using r by simp
  ultimately show ?thesis using assms(2) by (simp add: bank_of_def chan_shape_def)
qed

text \<open>What no operation on the banks changes.\<close>

definition same_frame :: "eng \<Rightarrow> eng \<Rightarrow> bool" where
  "same_frame e e' \<longleftrightarrow> e_p e' = e_p e \<and> e_hyperram e' = e_hyperram e \<and> e_burst_bytes e' = e_burst_bytes e
     \<and> e_burst_ps e' = e_burst_ps e \<and> e_align e' = e_align e \<and> e_offset_bits e' = e_offset_bits e
     \<and> e_fields e' = e_fields e \<and> length (e_chan e') = length (e_chan e)"

lemma same_frame_refl [simp]: "same_frame e e"
  by (simp add: same_frame_def)

lemma same_frame_trans [trans]: "same_frame e e' \<Longrightarrow> same_frame e' e'' \<Longrightarrow> same_frame e e''"
  by (simp add: same_frame_def)

lemma same_frame_decode: "same_frame e e' \<Longrightarrow> decode e' a = decode e a"
  by (simp add: same_frame_def decode_def)

lemma set_chan_sel [simp]:
  "e_p (set_chan ch c e) = e_p e" "e_st (set_chan ch c e) = e_st e" "e_wq (set_chan ch c e) = e_wq e"
  "e_leaving (set_chan ch c e) = e_leaving e" "same_frame e (set_chan ch c e)"
  "e_chan (set_chan ch c e) = (e_chan e)[nat ch := c]" "e_hb_free (set_chan ch c e) = e_hb_free e"
  by (simp_all add: set_chan_def same_frame_def)

lemma refresh_sel:
  "e_p (refresh ch t e) = e_p e" "e_wq (refresh ch t e) = e_wq e" "e_leaving (refresh ch t e) = e_leaving e"
  "same_frame e (refresh ch t e)"
  "e_chan (refresh ch t e) = (e_chan e)[nat ch := fst (refresh_loop (e_p e) t (chan_at e ch, st_refreshes (e_st e)))]"
  "\<exists>n. e_st (refresh ch t e) = (e_st e)\<lparr>st_refreshes := n\<rparr>"
  by (auto simp: refresh_def same_frame_def set_chan_def split: prod.splits)

lemma refresh_chan_at:
  "nat ch < length (e_chan e) \<Longrightarrow>
     chan_at (refresh ch t e) ch = fst (refresh_loop (e_p e) t (chan_at e ch, st_refreshes (e_st e)))"
  by (simp add: chan_at_def refresh_sel)

lemma refresh_decode [simp]: "decode (refresh ch t e) a = decode e a"
  by (rule same_frame_decode) (rule refresh_sel)

lemma plan_frame:
  "same_frame e e' \<Longrightarrow> chan_at e' (k_ch (decode e a)) = c \<Longrightarrow>
     plan e' t a w = plan_in (e_p e) (e_burst_ps e) c (decode e a) t w"
  by (simp add: plan_def Let_def same_frame_decode) (simp add: same_frame_def)

section \<open>No burst is put off for ever\<close>

definition lag :: "params \<Rightarrow> int \<Rightarrow> int \<Rightarrow> int \<Rightarrow> nat" where
  "lag p m a nx = nat (m + 1 - nx) + nat (a - nx + p_tRCD p + 1)"

lemma lag_step:
  assumes "0 \<le> p_tRFC p" and "0 \<le> p_tRCD p" and "p_tRFC p + p_tRCD p < p_tREFI p"
  shows "lag p m (max nx a + p_tRFC p) (nx + p_tREFI p) \<le> lag p m a nx"
    and "nx \<le> max m (a + p_tRCD p) \<Longrightarrow> lag p m (max nx a + p_tRFC p) (nx + p_tREFI p) < lag p m a nx"
  using assms unfolding lag_def by linarith+

lemma lag_refresh_n:
  assumes "0 \<le> p_tRFC p" and "0 \<le> p_tRCD p" and "p_tRFC p + p_tRCD p < p_tREFI p" and "quiet_after a c"
  shows "\<exists>a'. quiet_after a' ((refresh_one p ^^ n) c)
    \<and> lag p m a' (c_next_refresh ((refresh_one p ^^ n) c)) \<le> lag p m a (c_next_refresh c)
    \<and> (0 < n \<longrightarrow> c_next_refresh c \<le> max m (a + p_tRCD p) \<longrightarrow>
         lag p m a' (c_next_refresh ((refresh_one p ^^ n) c)) < lag p m a (c_next_refresh c))"
proof (induction n)
  case 0
  then show ?case using assms(4) by (intro exI [of _ a]) simp
next
  case (Suc n)
  let ?c = "(refresh_one p ^^ n) c"
  from Suc obtain a' where a': "quiet_after a' ?c" "lag p m a' (c_next_refresh ?c) \<le> lag p m a (c_next_refresh c)"
    "0 < n \<longrightarrow> c_next_refresh c \<le> max m (a + p_tRCD p) \<longrightarrow> lag p m a' (c_next_refresh ?c) < lag p m a (c_next_refresh c)"
    by blast
  show ?case
  proof (cases "n = 0")
    case True
    then show ?thesis using quiet_refresh_one [OF assms(4,1)] lag_step [OF assms(1-3), where m = m and nx = "c_next_refresh c" and a = a]
      by (intro exI [of _ "max (c_next_refresh c) a + p_tRFC p"]) simp
  next
    case False
    then show ?thesis
      using quiet_refresh_one [OF a'(1) assms(1)] lag_step(1) [OF assms(1-3), where m = m and nx = "c_next_refresh ?c" and a = a'] a'(2,3)
      by (intro exI [of _ "max (c_next_refresh ?c) a' + p_tRFC p"]) (simp, linarith)
  qed
qed

lemma settle_quiet:
  assumes "0 \<le> p_tRFC (e_p e)" and "0 \<le> p_tRPab (e_p e)" and "0 \<le> p_tRCD (e_p e)"
    and "p_tRFC (e_p e) + p_tRCD (e_p e) < p_tREFI (e_p e)"
    and "ch = k_ch (decode e addr)" and "nat ch < length (e_chan e)" and "0 \<le> k_row (decode e addr)"
    and "bank_of (e_p e) (decode e addr) < length (c_banks (chan_at e ch))" and "quiet_after a (chan_at e ch)"
  shows "\<exists>r. settle ch t addr w (plan e t addr w) e = Some r"
  using assms
proof (induction "lag (e_p e) (pl_col (plan_in (e_p e) (e_burst_ps e) (reset_chan (chan_at e ch)) (decode e addr) t w))
      a (c_next_refresh (chan_at e ch))" arbitrary: e a rule: less_induct)
  case less
  let ?p = "e_p e" and ?c = "chan_at e ch" and ?k = "decode e addr" and ?pl = "plan e t addr w"
  let ?m = "pl_col (plan_in ?p (e_burst_ps e) (reset_chan ?c) ?k t w)"
  show ?case
  proof (cases "0 < p_tREFI ?p \<and> c_next_refresh ?c \<le> pl_col ?pl")
    case True
    let ?e = "refresh ch (pl_col ?pl) e"
    obtain n where n: "refresh_loop ?p (pl_col ?pl) (?c, st_refreshes (e_st e)) = ((refresh_one ?p ^^ n) ?c, st_refreshes (e_st e) + n)"
        "0 < n"
      using refresh_loop_iter [of ?p "pl_col ?pl" ?c] less.prems(1,2) True by blast
    have c': "chan_at ?e ch = (refresh_one ?p ^^ n) ?c"
      using refresh_chan_at [OF less.prems(6)] n(1) by simp
    have "pl_col ?pl \<le> max ?m (a + p_tRCD ?p)"
      using closed_plan_col [OF less.prems(9,7)] less.prems(5,8)
      by (simp add: plan_frame [OF same_frame_refl refl] bank_of_def)
    then have "c_next_refresh ?c \<le> max ?m (a + p_tRCD ?p)" using True by linarith
    with lag_refresh_n [OF less.prems(1,3,4,9), of n ?m] n(2) obtain a' where
      a': "quiet_after a' (chan_at ?e ch)" "lag ?p ?m a' (c_next_refresh (chan_at ?e ch)) < lag ?p ?m a (c_next_refresh ?c)"
      unfolding c' by blast
    have f: "e_p ?e = ?p" "e_burst_ps ?e = e_burst_ps e" using refresh_sel(4) [of e ch "pl_col ?pl"] by (simp_all add: same_frame_def)
    have len: "length (c_banks ((refresh_one ?p ^^ n) ?c)) = length (c_banks ?c)" for n
      by (induction n) (simp_all add: refresh_one_def Let_def)
    have "\<exists>r. settle ch t addr w (plan ?e t addr w) ?e = Some r"
      by (rule less.hyps [OF _ _ _ _ _ _ _ _ _ a'(1)])
        (use a'(2) less.prems(1-4,6-8) in \<open>simp_all add: f c' reset_refresh_n len refresh_sel(5) less.prems(5) [symmetric]\<close>)
    then show ?thesis using True by (subst settle.simps) (simp add: Let_def)
  next
    case False
    then show ?thesis by (subst settle.simps) auto
  qed
qed

lemma settle_returns:
  assumes "sane_timing (e_p e)" and "eng_shape e" and "ch = k_ch (decode e addr)"
  shows "\<exists>r. settle ch t addr w (plan e t addr w) e = Some r"
proof (cases "0 < p_tREFI (e_p e) \<and> c_next_refresh (chan_at e ch) \<le> pl_col (plan e t addr w)")
  case True
  let ?p = "e_p e" and ?c = "chan_at e ch" and ?pl = "plan e t addr w"
  let ?e = "refresh ch (pl_col ?pl) e"
  have room: "0 \<le> p_tRFC ?p" "0 \<le> p_tRPab ?p" "0 \<le> p_tRCD ?p" "p_tRFC ?p + p_tRCD ?p < p_tREFI ?p"
    using assms(1) True by (auto simp: sane_timing_def)
  have r: "in_range ?p (decode e addr)" using assms(2) by (simp add: eng_shape_def)
  have idx: "nat ch < length (e_chan e)" using r assms(2,3) by (auto simp: in_range_def eng_shape_def)
  have "chan_shape ?p ?c" using idx assms(2) by (auto simp: eng_shape_def chan_at_def list_all_length)
  then have bank: "bank_of ?p (decode e addr) < length (c_banks ?c)" by (rule bank_of_in_range [OF r])
  obtain n where n: "refresh_loop ?p (pl_col ?pl) (?c, st_refreshes (e_st e)) = ((refresh_one ?p ^^ n) ?c, st_refreshes (e_st e) + n)"
      "0 < n"
    using refresh_loop_iter [of ?p "pl_col ?pl" ?c] room True by blast
  have c': "chan_at ?e ch = (refresh_one ?p ^^ n) ?c" using refresh_chan_at [OF idx] n(1) by simp
  have len: "length (c_banks ((refresh_one ?p ^^ n) ?c)) = length (c_banks ?c)" for n
    by (induction n) (simp_all add: refresh_one_def Let_def)
  obtain m where m: "n = Suc m" using n(2) by (cases n) auto
  have q: "quiet_after (refresh_end ?p ((refresh_one ?p ^^ m) ?c)) (chan_at ?e ch)"
    unfolding c' m using refresh_one_quiets [OF room(1,2)] by simp
  have "\<exists>r. settle ch t addr w (plan ?e t addr w) ?e = Some r"
    by (rule settle_quiet [OF _ _ _ _ _ _ _ _ q])
      (use room idx bank r in \<open>simp_all add: refresh_sel c' len in_range_def assms(3) [symmetric]\<close>)
  then show ?thesis using True by (subst settle.simps) (simp add: Let_def)
next
  case False
  then show ?thesis by (subst settle.simps) auto
qed

end
