(* ===== verification/DramHistory.thy ===== *)
theory DramHistory
  imports DramLoops
begin

text \<open>
  What the controller promises, stated over the whole history of a channel rather than over the
  few numbers it keeps. Two checkers of a list of bursts and refreshes: \<open>enforced\<close> is what the code
  sets out to keep, which for spacings between column commands and between activations is only
  against the latest one; \<open>all_pairs\<close> is what follows between any two commands of the history. Every
  history the engine can produce passes both. Together they are not all of JEDEC: \<open>tWTR_L\<close> and, with
  more than one rank, \<open>tRRD\<close> are kept against the latest command only, and \<open>DramEngine\<close> ends with
  histories that break them.
\<close>

section \<open>Histories and the rules\<close>

text \<open>Newest first. A refresh is its end; a burst is its plan and whether it writes.\<close>

datatype event = Ref int | Bst plan bool

fun bursts :: "event list \<Rightarrow> (plan \<times> bool) list" where
  "bursts [] = []"
| "bursts (Ref r # h) = bursts h"
| "bursts (Bst pl w # h) = (pl, w) # bursts h"

fun ref_ends :: "event list \<Rightarrow> int list" where
  "ref_ends [] = []"
| "ref_ends (Ref r # h) = r # ref_ends h"
| "ref_ends (Bst pl w # h) = ref_ends h"

text \<open>The row a bank has open: that of its latest burst, unless it was refreshed since.\<close>

fun open_row :: "nat \<Rightarrow> event list \<Rightarrow> int option" where
  "open_row i [] = None"
| "open_row i (Ref r # h) = None"
| "open_row i (Bst pl w # h) = (if pl_bank pl = i then Some (k_row (pl_k pl)) else open_row i h)"

definition activates :: "plan \<times> bool \<Rightarrow> bool" where
  "activates = (\<lambda>(pl, w). pl_kind pl \<noteq> 0)"

definition activations :: "event list \<Rightarrow> plan list" where
  "activations h = map fst (filter activates (bursts h))"

definition bank_acts :: "nat \<Rightarrow> event list \<Rightarrow> int list" where
  "bank_acts i h = map pl_act (filter (\<lambda>pl. pl_bank pl = i) (activations h))"

definition rank_acts :: "int \<Rightarrow> event list \<Rightarrow> int list" where
  "rank_acts r h = map pl_act (filter (\<lambda>pl. k_ra (pl_k pl) = r) (activations h))"

text \<open>When a burst lets its bank be precharged: \<open>tRTP\<close> after a read, \<open>tWR\<close> after a write's data.\<close>

definition pre_ready :: "params \<Rightarrow> plan \<times> bool \<Rightarrow> int" where
  "pre_ready p = (\<lambda>(pl, w). if w then pl_end pl + p_tCK p + p_tWR p else pl_col pl + p_tRTP p)"

definition row_rules :: "params \<Rightarrow> event list \<Rightarrow> plan \<Rightarrow> bool" where
  "row_rules p h pl \<longleftrightarrow>
     (case open_row (pl_bank pl) h of
        Some r \<Rightarrow>
          (if r = k_row (pl_k pl) then pl_kind pl = 0 \<and> (\<exists>as. bank_acts (pl_bank pl) h = pl_act pl # as)
           else pl_kind pl = 2
             \<and> (\<forall>b\<in>set (bursts h). pl_bank (fst b) = pl_bank pl \<longrightarrow> pre_ready p b + p_tRP p \<le> pl_act pl)
             \<and> (\<forall>a as. bank_acts (pl_bank pl) h = a # as \<longrightarrow> a + p_tRAS p + p_tRP p \<le> pl_act pl))
      | None \<Rightarrow> pl_kind pl = 1)
     \<and> pl_act pl + p_tRCD p \<le> pl_col pl"

definition act_rules :: "params \<Rightarrow> event list \<Rightarrow> plan \<Rightarrow> bool" where
  "act_rules p h pl \<longleftrightarrow>
     (\<forall>r\<in>set (ref_ends h). r \<le> pl_act pl)
     \<and> (\<forall>a as. bank_acts (pl_bank pl) h = a # as \<longrightarrow> a + p_tRC p \<le> pl_act pl)
     \<and> (\<forall>q qs. activations h = q # qs \<and> k_ra (pl_k q) = k_ra (pl_k pl) \<longrightarrow>
          pl_act q + (if k_bg (pl_k q) = k_bg (pl_k pl) then p_tRRD_L p else p_tRRD_S p) \<le> pl_act pl)
     \<and> (4 \<le> length (rank_acts (k_ra (pl_k pl)) h) \<longrightarrow> rank_acts (k_ra (pl_k pl)) h ! 3 + p_tFAW p \<le> pl_act pl)"

definition column_rules :: "params \<Rightarrow> event list \<Rightarrow> plan \<Rightarrow> bool \<Rightarrow> bool" where
  "column_rules p h pl w \<longleftrightarrow>
     (\<forall>q v bs. bursts h = (q, v) # bs \<longrightarrow>
        (let same_bg = (k_ra (pl_k q) = k_ra (pl_k pl) \<and> k_bg (pl_k q) = k_bg (pl_k pl))
         in pl_col q + (if same_bg then p_tCCD_L p else p_tCCD_S p) \<le> pl_col pl
          \<and> (v \<and> \<not> w \<longrightarrow> pl_end q + (if same_bg then p_tWTR_L p else p_tWTR_S p) \<le> pl_col pl)
          \<and> (\<not> v \<and> w \<longrightarrow> pl_col q + (if same_bg \<and> p_tRTW_L p \<noteq> 0 then p_tRTW_L p else p_tRTW p) \<le> pl_col pl)))"

definition bus_rules :: "params \<Rightarrow> int \<Rightarrow> event list \<Rightarrow> plan \<Rightarrow> bool \<Rightarrow> bool" where
  "bus_rules p bp h pl w \<longleftrightarrow>
     pl_end pl = pl_col pl + (if w then p_tWL p else p_tRL p) + bp
     \<and> (\<forall>b\<in>set (bursts h). pl_end (fst b) \<le> pl_end pl - bp)
     \<and> (0 < p_tREFI p \<longrightarrow> pl_col pl < (int (length (ref_ends h)) + 1) * p_tREFI p)"

text \<open>
  What is enforced: rows, activations after refreshes, the data bus and the four-activate window
  against all that went before; \<open>tRRD\<close>, \<open>tCCD\<close>, \<open>tWTR\<close> and \<open>tRTW\<close> against the latest activation or column
  command. A refresh comes after the data of every burst, and after every open bank has been
  precharged, \<open>tRAS\<close> from its activation.
\<close>

fun enforced :: "params \<Rightarrow> int \<Rightarrow> event list \<Rightarrow> bool" where
  "enforced p bp [] = True"
| "enforced p bp (Ref r # h) \<longleftrightarrow> enforced p bp h
     \<and> (int (length (ref_ends h)) + 1) * p_tREFI p + p_tRFC p \<le> r
     \<and> (\<forall>b\<in>set (bursts h). pl_end (fst b) + p_tRFC p \<le> r)
     \<and> (\<forall>b\<in>set (bursts h). open_row (pl_bank (fst b)) h \<noteq> None \<longrightarrow> pre_ready p b + p_tRPab p + p_tRFC p \<le> r)
     \<and> (\<forall>b\<in>set (bursts h). \<forall>a as. open_row (pl_bank (fst b)) h \<noteq> None \<and> bank_acts (pl_bank (fst b)) h = a # as \<longrightarrow>
          a + p_tRAS p + p_tRPab p + p_tRFC p \<le> r)"
| "enforced p bp (Bst pl w # h) \<longleftrightarrow> enforced p bp h \<and> in_range p (pl_k pl) \<and> pl_bank pl = bank_of p (pl_k pl)
     \<and> row_rules p h pl \<and> (pl_kind pl \<noteq> 0 \<longrightarrow> act_rules p h pl) \<and> column_rules p h pl w \<and> bus_rules p bp h pl w"

section \<open>What the engine can do to a channel\<close>

inductive chan_hist :: "params \<Rightarrow> int \<Rightarrow> channel \<Rightarrow> event list \<Rightarrow> bool" for p bp where
  new: "chan_hist p bp (fresh_channel p) []"
| ref: "chan_hist p bp c h \<Longrightarrow> 0 < p_tREFI p \<Longrightarrow> chan_hist p bp (refresh_one p c) (Ref (refresh_end p c) # h)"
| bst: "chan_hist p bp c h \<Longrightarrow> in_range p k \<Longrightarrow> pl = plan_in p bp c k t w \<Longrightarrow> c_order c \<le> t
    \<Longrightarrow> (0 < p_tREFI p \<longrightarrow> pl_col pl < c_next_refresh c) \<Longrightarrow> chan_hist p bp (commit_chan p pl w c) (Bst pl w # h)"

section \<open>The channel sums up its history\<close>

definition bank_sums :: "params \<Rightarrow> event list \<Rightarrow> nat \<Rightarrow> bank \<Rightarrow> bool" where
  "bank_sums p h i b \<longleftrightarrow>
     b_open_row b = (case open_row i h of None \<Rightarrow> -1 | Some r \<Rightarrow> r)
     \<and> b_act b = (case bank_acts i h of [] \<Rightarrow> LONG_AGO | a # _ \<Rightarrow> a)
     \<and> (\<forall>r\<in>set (ref_ends h). r \<le> b_act_ok b)
     \<and> (\<forall>x\<in>set (bursts h). pl_bank (fst x) = i \<longrightarrow> pre_ready p x \<le> b_pre_ok b)"

definition last_sums :: "params \<Rightarrow> channel \<Rightarrow> event list \<Rightarrow> bool" where
  "last_sums p c h \<longleftrightarrow>
     (\<forall>q v bs. bursts h = (q, v) # bs \<longrightarrow> c_last_col c = pl_col q \<and> c_last_col_rank c = k_ra (pl_k q)
        \<and> c_last_col_bg c = k_bg (pl_k q) \<and> c_last_was_write c = v \<and> (v \<longrightarrow> c_last_write_end c = pl_end q)
        \<and> c_order c = min (pl_first_cmd q) (pl_col q))
     \<and> (\<forall>q qs. activations h = q # qs \<longrightarrow> c_last_act c = pl_act q \<and> c_last_act_rank c = k_ra (pl_k q)
        \<and> c_last_act_bg c = k_bg (pl_k q))"

definition sums :: "params \<Rightarrow> channel \<Rightarrow> event list \<Rightarrow> bool" where
  "sums p c h \<longleftrightarrow> chan_shape p c
     \<and> (\<forall>i<length (c_banks c). bank_sums p h i (c_banks c ! i))
     \<and> (\<forall>x\<in>set (bursts h). pl_end (fst x) \<le> c_bus_free c \<and> pl_bank (fst x) < length (c_banks c) \<and> 0 \<le> k_row (pl_k (fst x)))
     \<and> last_sums p c h
     \<and> (\<forall>r<length (c_faw c). c_faw c ! r = rev (take 4 (rank_acts (int r) h)))
     \<and> c_next_refresh c = (int (length (ref_ends h)) + 1) * p_tREFI p"

lemmas hist_simps = bursts.simps ref_ends.simps open_row.simps activations_def bank_acts_def rank_acts_def activates_def

lemma sums_new: "sums p (fresh_channel p) []"
  by (auto simp: sums_def fresh_channel_def new_channel_def chan_shape_def bank_sums_def last_sums_def new_bank_def hist_simps list_all_length)

lemma open_row_nonneg:
  "\<forall>x\<in>set (bursts h). 0 \<le> k_row (pl_k (fst x)) \<Longrightarrow> open_row i h = Some r \<Longrightarrow> 0 \<le> r"
  by (induction i h rule: open_row.induct) (auto split: if_splits)

lemma open_row_burst: "open_row i h = Some r \<Longrightarrow> \<exists>x\<in>set (bursts h). pl_bank (fst x) = i"
  by (induction i h rule: open_row.induct) (auto split: if_splits)

lemma activations_Ref [simp]: "activations (Ref r # h) = activations h" "bank_acts i (Ref r # h) = bank_acts i h"
  "rank_acts k (Ref r # h) = rank_acts k h"
  by (simp_all add: hist_simps)

lemma activations_Bst:
  "activations (Bst pl w # h) = (if pl_kind pl = 0 then activations h else pl # activations h)"
  "bank_acts i (Bst pl w # h) = (if pl_kind pl \<noteq> 0 \<and> pl_bank pl = i then pl_act pl # bank_acts i h else bank_acts i h)"
  "rank_acts k (Bst pl w # h) = (if pl_kind pl \<noteq> 0 \<and> k_ra (pl_k pl) = k then pl_act pl # rank_acts k h else rank_acts k h)"
  by (simp_all add: hist_simps)

section \<open>Refreshes\<close>

lemma sums_open:
  assumes "sums p c h" and "x \<in> set (bursts h)" and "open_row (pl_bank (fst x)) h \<noteq> None"
  shows "0 \<le> b_open_row (c_banks c ! pl_bank (fst x))" and "pl_bank (fst x) < length (c_banks c)"
    and "pre_ready p x \<le> b_pre_ok (c_banks c ! pl_bank (fst x))"
    and "bank_acts (pl_bank (fst x)) h = a # as \<Longrightarrow> b_act (c_banks c ! pl_bank (fst x)) = a"
proof -
  show i: "pl_bank (fst x) < length (c_banks c)" using assms by (auto simp: sums_def)
  then have "bank_sums p h (pl_bank (fst x)) (c_banks c ! pl_bank (fst x))" using assms(1) by (auto simp: sums_def)
  then show "0 \<le> b_open_row (c_banks c ! pl_bank (fst x))" "pre_ready p x \<le> b_pre_ok (c_banks c ! pl_bank (fst x))"
    "bank_acts (pl_bank (fst x)) h = a # as \<Longrightarrow> b_act (c_banks c ! pl_bank (fst x)) = a"
    using assms open_row_nonneg [of h] by (auto simp: bank_sums_def sums_def split: option.splits)
qed

lemma enforced_ref:
  assumes "sums p c h" and "enforced p bp h" and "0 \<le> p_tRPab p"
  shows "enforced p bp (Ref (refresh_end p c) # h)"
proof -
  let ?open = "list_ex (\<lambda>b. 0 \<le> b_open_row b) (c_banks c)"
  note b = refresh_start_bounds [of c p]
  have start: "refresh_end p c = refresh_start p c + (if ?open then p_tRPab p else 0) + p_tRFC p"
    by (simp add: refresh_end_def Let_def)
  have "(int (length (ref_ends h)) + 1) * p_tREFI p + p_tRFC p \<le> refresh_end p c"
    using b assms(1,3) by (auto simp: start sums_def)
  moreover have "pl_end (fst x) + p_tRFC p \<le> refresh_end p c" if "x \<in> set (bursts h)" for x
  proof -
    have "pl_end (fst x) \<le> c_bus_free c" using assms(1) that by (auto simp: sums_def)
    then show ?thesis using b assms(3) by (auto simp: start)
  qed
  moreover have "pre_ready p x + p_tRPab p + p_tRFC p \<le> refresh_end p c"
    if "x \<in> set (bursts h)" "open_row (pl_bank (fst x)) h \<noteq> None" for x
  proof -
    have "?open" using sums_open [OF assms(1) that] by (auto simp: list_ex_iff)
    moreover have "b_pre_ok (c_banks c ! pl_bank (fst x)) \<le> refresh_start p c"
      using b sums_open [OF assms(1) that] by auto
    ultimately show ?thesis using sums_open(3) [OF assms(1) that] by (simp add: start)
  qed
  moreover have "a + p_tRAS p + p_tRPab p + p_tRFC p \<le> refresh_end p c"
    if "x \<in> set (bursts h)" "open_row (pl_bank (fst x)) h \<noteq> None" "bank_acts (pl_bank (fst x)) h = a # as" for x a as
  proof -
    have "?open" using sums_open [OF assms(1) that(1,2)] by (auto simp: list_ex_iff)
    moreover have "b_act (c_banks c ! pl_bank (fst x)) + p_tRAS p \<le> refresh_start p c"
      using b sums_open [OF assms(1) that(1,2)] by auto
    ultimately show ?thesis using sums_open(4) [OF assms(1) that] by (simp add: start)
  qed
  ultimately show ?thesis using assms(2) by simp
qed

lemma sums_ref:
  assumes "sums p c h" and "0 \<le> p_tRPab p"
  shows "sums p (refresh_one p c) (Ref (refresh_end p c) # h)"
proof -
  have banks: "c_banks (refresh_one p c) = map (\<lambda>b. b\<lparr>b_open_row := -1, b_act_ok := max (b_act_ok b) (refresh_end p c)\<rparr>) (c_banks c)"
    and rest: "c_bus_free (refresh_one p c) = c_bus_free c" "c_faw (refresh_one p c) = c_faw c"
      "last_sums p (refresh_one p c) (Ref (refresh_end p c) # h) = last_sums p c h"
    by (simp_all add: refresh_one_def Let_def last_sums_def)
  have "bank_sums p (Ref (refresh_end p c) # h) i (c_banks (refresh_one p c) ! i)" if "i < length (c_banks c)" for i
  proof -
    have "bank_sums p h i (c_banks c ! i)" using assms(1) that by (simp add: sums_def)
    then show ?thesis using that by (auto simp: bank_sums_def banks)
  qed
  then show ?thesis
    using assms(1) unfolding sums_def rest by (simp add: banks rest(2) chan_shape_def algebra_simps) auto
qed

section \<open>Bursts\<close>

lemma plan_in_sel [simp]:
  "pl_k (plan_in p bp c k t w) = k" "pl_bank (plan_in p bp c k t w) = bank_of p k"
proof -
  obtain kind act first col where r: "plan_row p c k (c_banks c ! bank_of p k) t = (kind, act, first, col)"
    by (cases "plan_row p c k (c_banks c ! bank_of p k) t")
  show "pl_k (plan_in p bp c k t w) = k" "pl_bank (plan_in p bp c k t w) = bank_of p k"
    by (simp_all only: plan_in_def Let_def bank_of_def [symmetric] r prod.case plan.select_convs)
qed

lemma row_act_spec:
  "a \<le> row_act p c k a
    \<and> (c_last_act_rank c = k_ra k \<longrightarrow>
         c_last_act c + (if c_last_act_bg c = k_bg k then p_tRRD_L p else p_tRRD_S p) \<le> row_act p c k a)
    \<and> (length (c_faw c ! nat (k_ra k)) = 4 \<longrightarrow> hd (c_faw c ! nat (k_ra k)) + p_tFAW p \<le> row_act p c k a)"
  unfolding row_act_def Let_def by (simp add: le_max_iff_disj)

lemma plan_row_form:
  "plan_row p c k b t =
     (if b_open_row b = k_row k then
        (0, b_act b, max t (b_act b + p_tRCD p), max t (b_act b + p_tRCD p))
      else if 0 \<le> b_open_row b then
        let pre = max t (max (b_act b + p_tRAS p) (b_pre_ok b));
            act = row_act p c k (max (pre + p_tRP p) (max (b_act_ok b) (b_act b + p_tRC p)))
        in (2, act, (if pre < 0 then act else pre), act + p_tRCD p)
      else let act = row_act p c k (max t (max (b_act_ok b) (b_act b + p_tRC p))) in (1, act, act, act + p_tRCD p))"
  by (simp add: plan_row_def row_act_def Let_def)

lemma plan_row_spec:
  assumes "plan_row p c k b t = (kind, act, first, col)" and "0 \<le> k_row k"
  shows "(kind = 0 \<longleftrightarrow> b_open_row b = k_row k) \<and> (kind = 1 \<longleftrightarrow> b_open_row b < 0) \<and> kind \<le> 2
    \<and> (kind = 0 \<longrightarrow> act = b_act b) \<and> act + p_tRCD p \<le> col
    \<and> (kind = 2 \<longrightarrow> b_pre_ok b + p_tRP p \<le> act \<and> b_act b + p_tRAS p + p_tRP p \<le> act)
    \<and> (kind \<noteq> 0 \<longrightarrow> b_act_ok b \<le> act \<and> b_act b + p_tRC p \<le> act
         \<and> (c_last_act_rank c = k_ra k \<longrightarrow> c_last_act c + (if c_last_act_bg c = k_bg k then p_tRRD_L p else p_tRRD_S p) \<le> act)
         \<and> (length (c_faw c ! nat (k_ra k)) = 4 \<longrightarrow> hd (c_faw c ! nat (k_ra k)) + p_tFAW p \<le> act))"
proof -
  consider "b_open_row b = k_row k" | "b_open_row b \<noteq> k_row k" "0 \<le> b_open_row b" | "b_open_row b < 0" by linarith
  then show ?thesis
  proof cases
    case 1
    then show ?thesis using assms by (auto simp: plan_row_form)
  next
    case 2
    define m where "m = max (max t (max (b_act b + p_tRAS p) (b_pre_ok b)) + p_tRP p) (max (b_act_ok b) (b_act b + p_tRC p))"
    have r: "kind = 2" "act = row_act p c k m" "col = act + p_tRCD p"
      using assms(1) 2 by (auto simp: plan_row_form Let_def m_def)
    have m: "b_pre_ok b + p_tRP p \<le> m" "b_act b + p_tRAS p + p_tRP p \<le> m" "b_act_ok b \<le> m" "b_act b + p_tRC p \<le> m"
      unfolding m_def by linarith+
    note a = row_act_spec [of m p c k]
    have "m \<le> act" using a r by simp
    then show ?thesis using 2 a m r by simp
  next
    case 3
    define m where "m = max t (max (b_act_ok b) (b_act b + p_tRC p))"
    have r: "kind = 1" "act = row_act p c k m" "col = act + p_tRCD p"
      using assms 3 by (auto simp: plan_row_form Let_def m_def)
    have m: "b_act_ok b \<le> m" "b_act b + p_tRC p \<le> m" unfolding m_def by linarith+
    note a = row_act_spec [of m p c k]
    have "m \<le> act" using a r by simp
    then show ?thesis using 3 assms(2) a m r by simp
  qed
qed

lemma plan_in_spec:
  assumes "0 \<le> k_row k" and "pl = plan_in p bp c k t w" and "b = c_banks c ! bank_of p k"
  shows "(pl_kind pl = 0 \<longleftrightarrow> b_open_row b = k_row k) \<and> (pl_kind pl = 1 \<longleftrightarrow> b_open_row b < 0) \<and> pl_kind pl \<le> 2
    \<and> (pl_kind pl = 0 \<longrightarrow> pl_act pl = b_act b) \<and> pl_act pl + p_tRCD p \<le> pl_col pl
    \<and> (pl_kind pl = 2 \<longrightarrow> b_pre_ok b + p_tRP p \<le> pl_act pl \<and> b_act b + p_tRAS p + p_tRP p \<le> pl_act pl)
    \<and> (pl_kind pl \<noteq> 0 \<longrightarrow> b_act_ok b \<le> pl_act pl \<and> b_act b + p_tRC p \<le> pl_act pl
         \<and> (c_last_act_rank c = k_ra k \<longrightarrow> c_last_act c + (if c_last_act_bg c = k_bg k then p_tRRD_L p else p_tRRD_S p) \<le> pl_act pl)
         \<and> (length (c_faw c ! nat (k_ra k)) = 4 \<longrightarrow> hd (c_faw c ! nat (k_ra k)) + p_tFAW p \<le> pl_act pl))" (is ?row)
    and "let same_bg = (c_last_col_rank c = k_ra k \<and> c_last_col_bg c = k_bg k) in
      c_last_col c + (if same_bg then p_tCCD_L p else p_tCCD_S p) \<le> pl_col pl
      \<and> (\<not> w \<and> c_last_was_write c \<longrightarrow> c_last_write_end c + (if same_bg then p_tWTR_L p else p_tWTR_S p) \<le> pl_col pl)
      \<and> (w \<and> \<not> c_last_was_write c \<longrightarrow>
           c_last_col c + (if same_bg \<and> p_tRTW_L p \<noteq> 0 then p_tRTW_L p else p_tRTW p) \<le> pl_col pl)" (is ?col)
    and "pl_end pl = pl_col pl + (if w then p_tWL p else p_tRL p) + bp \<and> c_bus_free c \<le> pl_end pl - bp" (is ?bus)
    and "snd (snd (snd (plan_row p c k b t))) \<le> pl_col pl" (is ?ge)
proof -
  obtain kind act first col where r: "plan_row p c k b t = (kind, act, first, col)"
    by (cases "plan_row p c k b t")
  define same where "same \<longleftrightarrow> c_last_col_rank c = k_ra k \<and> c_last_col_bg c = k_bg k"
  define c1 where "c1 = max col (c_last_col c + (if same then p_tCCD_L p else p_tCCD_S p))"
  define c2 where "c2 = (if \<not> w \<and> c_last_was_write c then max c1 (c_last_write_end c + (if same then p_tWTR_L p else p_tWTR_S p)) else c1)"
  define c3 where "c3 = (if w \<and> \<not> c_last_was_write c
     then max c2 (c_last_col c + (if same \<and> p_tRTW_L p \<noteq> 0 then p_tRTW_L p else p_tRTW p)) else c2)"
  define lat where "lat = (if w then p_tWL p else p_tRL p)"
  have pl: "pl_kind pl = kind" "pl_act pl = act" "pl_col pl = max (c3 + lat) (c_bus_free c) - lat"
    "pl_end pl = max (c3 + lat) (c_bus_free c) + bp"
    unfolding assms(2) plan_in_def bank_of_def [symmetric] assms(3) [symmetric] r Let_def prod.case plan.select_convs
      c3_def c2_def c1_def same_def lat_def
    by (rule refl)+
  have m: "col \<le> c1" "c1 \<le> c2" "c2 \<le> c3" "c3 \<le> pl_col pl" unfolding c1_def c2_def c3_def pl by auto
  show ?row using plan_row_spec [OF r assms(1)] m unfolding pl(1,2) by auto
  have "c_last_col c + (if same then p_tCCD_L p else p_tCCD_S p) \<le> c1" by (simp add: c1_def)
  moreover have "\<not> w \<and> c_last_was_write c \<longrightarrow> c_last_write_end c + (if same then p_tWTR_L p else p_tWTR_S p) \<le> c2"
    by (simp add: c2_def)
  moreover have "w \<and> \<not> c_last_was_write c \<longrightarrow> c_last_col c + (if same \<and> p_tRTW_L p \<noteq> 0 then p_tRTW_L p else p_tRTW p) \<le> c3"
    by (simp add: c3_def)
  ultimately show ?col using m unfolding Let_def same_def [symmetric] by (meson order_trans)
  show ?bus unfolding pl lat_def by simp
  show ?ge using m by (simp add: r)
qed


text \<open>A bank that was used was activated.\<close>

lemma enforced_acts: "enforced p bp h \<Longrightarrow> x \<in> set (bursts h) \<Longrightarrow> bank_acts (pl_bank (fst x)) h \<noteq> []"
  by (induction p bp h rule: enforced.induct)
    (auto simp: activations_Bst row_rules_def split: option.splits if_splits)

lemma enforced_bst:
  assumes s: "sums p c h" and "enforced p bp h" and k: "in_range p k" and pl: "pl = plan_in p bp c k t w"
    and "0 < p_tREFI p \<longrightarrow> pl_col pl < c_next_refresh c"
  shows "enforced p bp (Bst pl w # h)"
proof -
  let ?i = "bank_of p k"
  let ?b = "c_banks c ! ?i"
  have shape: "chan_shape p c" and i: "?i < length (c_banks c)"
    using s bank_of_in_range [OF k] by (auto simp: sums_def)
  have bs: "bank_sums p h ?i ?b" using s i by (simp add: sums_def)
  have row: "0 \<le> k_row k" using k by (simp add: in_range_def)
  have plk: "pl_k pl = k" "pl_bank pl = ?i" by (simp_all add: pl)
  note spec = plan_in_spec [OF row pl refl]
  have rows_nonneg: "\<forall>x\<in>set (bursts h). 0 \<le> k_row (pl_k (fst x))" using s by (auto simp: sums_def)
  have acts: "bank_acts ?i h \<noteq> []" if "open_row ?i h \<noteq> None"
    using that open_row_burst [of ?i h] enforced_acts [OF assms(2)] by fastforce
  have "row_rules p h pl"
  proof (cases "open_row ?i h")
    case None
    then show ?thesis using spec(1) bs by (simp add: row_rules_def plk bank_sums_def)
  next
    case (Some r)
    then have r: "b_open_row ?b = r" "0 \<le> r" using bs open_row_nonneg [OF rows_nonneg] by (auto simp: bank_sums_def)
    obtain a as where a: "bank_acts ?i h = a # as" using acts Some by (cases "bank_acts ?i h") auto
    have ba: "b_act ?b = a" using bs a by (simp add: bank_sums_def)
    have "pre_ready p x \<le> b_pre_ok ?b" if "x \<in> set (bursts h)" "pl_bank (fst x) = ?i" for x
      using bs that by (simp add: bank_sums_def)
    then have "pre_ready p x + p_tRP p \<le> pl_act pl" if "pl_kind pl = 2" "x \<in> set (bursts h)" "pl_bank (fst x) = ?i" for x
      using spec(1) that by fastforce
    moreover have "pl_kind pl \<le> 2" using spec(1) by blast
    then have "pl_kind pl = 0 \<or> pl_kind pl = 1 \<or> pl_kind pl = 2" by linarith
    ultimately show ?thesis using spec(1) Some r a ba by (auto simp: row_rules_def plk)
  qed
  moreover have "act_rules p h pl" if "pl_kind pl \<noteq> 0"
  proof -
    have ra: "nat (k_ra k) < length (c_faw c)" "int (nat (k_ra k)) = k_ra k" using k shape by (auto simp: in_range_def chan_shape_def)
    have faw: "c_faw c ! nat (k_ra k) = rev (take 4 (rank_acts (k_ra k) h))" using s ra by (simp add: sums_def)
    have "rank_acts (k_ra k) h ! 3 + p_tFAW p \<le> pl_act pl" if "4 \<le> length (rank_acts (k_ra k) h)"
    proof -
      have "length (c_faw c ! nat (k_ra k)) = 4" "hd (c_faw c ! nat (k_ra k)) = rank_acts (k_ra k) h ! 3"
        using that take_Suc_conv_app_nth [of 3 "rank_acts (k_ra k) h"] by (simp_all add: faw hd_rev)
      then show ?thesis using spec(1) \<open>pl_kind pl \<noteq> 0\<close> by simp
    qed
    moreover have "r \<le> pl_act pl" if "r \<in> set (ref_ends h)" for r
      using bs that spec(1) \<open>pl_kind pl \<noteq> 0\<close> by (auto simp: bank_sums_def)
    moreover have "a + p_tRC p \<le> pl_act pl" if "bank_acts ?i h = a # as" for a as
      using bs that spec(1) \<open>pl_kind pl \<noteq> 0\<close> by (simp add: bank_sums_def)
    moreover have "pl_act q + (if k_bg (pl_k q) = k_bg k then p_tRRD_L p else p_tRRD_S p) \<le> pl_act pl"
      if "activations h = q # qs" "k_ra (pl_k q) = k_ra k" for q qs
      using s that spec(1) \<open>pl_kind pl \<noteq> 0\<close> by (simp add: sums_def last_sums_def)
    ultimately show ?thesis by (simp add: act_rules_def plk)
  qed
  moreover have "column_rules p h pl w"
    unfolding column_rules_def
  proof (intro allI impI)
    fix q v bs'
    assume "bursts h = (q, v) # bs'"
    then have "c_last_col c = pl_col q \<and> c_last_col_rank c = k_ra (pl_k q) \<and> c_last_col_bg c = k_bg (pl_k q)
        \<and> c_last_was_write c = v \<and> (v \<longrightarrow> c_last_write_end c = pl_end q)"
      using s by (simp add: sums_def last_sums_def)
    then show "let same_bg = (k_ra (pl_k q) = k_ra (pl_k pl) \<and> k_bg (pl_k q) = k_bg (pl_k pl))
         in pl_col q + (if same_bg then p_tCCD_L p else p_tCCD_S p) \<le> pl_col pl
          \<and> (v \<and> \<not> w \<longrightarrow> pl_end q + (if same_bg then p_tWTR_L p else p_tWTR_S p) \<le> pl_col pl)
          \<and> (\<not> v \<and> w \<longrightarrow> pl_col q + (if same_bg \<and> p_tRTW_L p \<noteq> 0 then p_tRTW_L p else p_tRTW p) \<le> pl_col pl)"
      using spec(2) by (simp add: plk Let_def)
  qed
  moreover have "bus_rules p bp h pl w"
  proof -
    have "pl_end (fst x) \<le> pl_end pl - bp" if "x \<in> set (bursts h)" for x
      using s that spec(3) by (fastforce simp: sums_def)
    then show ?thesis using spec(3) assms(5) s by (simp add: bus_rules_def sums_def)
  qed
  ultimately show ?thesis using assms(2) k by (simp add: plk)
qed


lemma commit_chan_form:
  "commit_chan p pl w c =
     (let b = c_banks c ! pl_bank pl; k = pl_k pl; faw = c_faw c ! nat (k_ra k)
      in c\<lparr>c_banks := (c_banks c)[pl_bank pl :=
              \<lparr>b_open_row = (if pl_kind pl = 0 then b_open_row b else k_row k),
               b_act = (if pl_kind pl = 0 then b_act b else pl_act pl), b_act_ok = b_act_ok b,
               b_pre_ok = max (b_pre_ok b) (pre_ready p (pl, w))\<rparr>],
           c_order := min (pl_first_cmd pl) (pl_col pl), c_bus_free := pl_end pl, c_last_col := pl_col pl,
           c_last_col_rank := k_ra k, c_last_col_bg := k_bg k, c_last_was_write := w,
           c_last_write_end := (if w then pl_end pl else c_last_write_end c),
           c_last_act := (if pl_kind pl = 0 then c_last_act c else pl_act pl),
           c_last_act_rank := (if pl_kind pl = 0 then c_last_act_rank c else k_ra k),
           c_last_act_bg := (if pl_kind pl = 0 then c_last_act_bg c else k_bg k),
           c_faw := (if pl_kind pl = 0 then c_faw c
             else (c_faw c)[nat (k_ra k) := (if length faw = 4 then tl faw else faw) @ [pl_act pl]])\<rparr>)"
  by (cases "c_banks c ! pl_bank pl"; cases c; cases w; cases "pl_kind pl = 0")
    (simp_all add: commit_chan_def Let_def pre_ready_def)

lemma commit_chan_sel:
  assumes "pl_bank pl < length (c_banks c)"
  shows "c_banks (commit_chan p pl w c) = (c_banks c)[pl_bank pl :=
      \<lparr>b_open_row = (if pl_kind pl = 0 then b_open_row (c_banks c ! pl_bank pl) else k_row (pl_k pl)),
       b_act = (if pl_kind pl = 0 then b_act (c_banks c ! pl_bank pl) else pl_act pl),
       b_act_ok = b_act_ok (c_banks c ! pl_bank pl),
       b_pre_ok = max (b_pre_ok (c_banks c ! pl_bank pl)) (pre_ready p (pl, w))\<rparr>]"
    and "c_faw (commit_chan p pl w c) = (if pl_kind pl = 0 then c_faw c else (c_faw c)[nat (k_ra (pl_k pl)) :=
      (if length (c_faw c ! nat (k_ra (pl_k pl))) = 4 then tl (c_faw c ! nat (k_ra (pl_k pl)))
       else c_faw c ! nat (k_ra (pl_k pl))) @ [pl_act pl]])"
    and "c_bus_free (commit_chan p pl w c) = pl_end pl" "c_next_refresh (commit_chan p pl w c) = c_next_refresh c"
    and "c_order (commit_chan p pl w c) = min (pl_first_cmd pl) (pl_col pl)"
    and "c_last_col (commit_chan p pl w c) = pl_col pl" "c_last_col_rank (commit_chan p pl w c) = k_ra (pl_k pl)"
    and "c_last_col_bg (commit_chan p pl w c) = k_bg (pl_k pl)" "c_last_was_write (commit_chan p pl w c) = w"
    and "c_last_write_end (commit_chan p pl w c) = (if w then pl_end pl else c_last_write_end c)"
    and "c_last_act (commit_chan p pl w c) = (if pl_kind pl = 0 then c_last_act c else pl_act pl)"
    and "c_last_act_rank (commit_chan p pl w c) = (if pl_kind pl = 0 then c_last_act_rank c else k_ra (pl_k pl))"
    and "c_last_act_bg (commit_chan p pl w c) = (if pl_kind pl = 0 then c_last_act_bg c else k_bg (pl_k pl))"
  by (simp_all add: commit_chan_form Let_def)

lemma faw_push:
  assumes "f = rev (take 4 as)"
  shows "(if length f = 4 then tl f else f) @ [a] = rev (take 4 (a # as))"
proof (cases "4 \<le> length as")
  case True
  have "tl (rev xs) = rev (butlast xs)" for xs :: "'a list" by (metis butlast_rev rev_rev_ident)
  then show ?thesis using True assms by (simp add: butlast_take numeral_eq_Suc)
next
  case False
  then show ?thesis using assms by (simp add: numeral_eq_Suc)
qed

lemma sums_bst:
  assumes s: "sums p c h" and l: "enforced p bp h" and k: "in_range p k" and pl: "pl = plan_in p bp c k t w" and bp: "0 \<le> bp"
  shows "sums p (commit_chan p pl w c) (Bst pl w # h)"
proof -
  let ?c = "commit_chan p pl w c" and ?h = "Bst pl w # h" and ?i = "bank_of p k"
  let ?b = "c_banks c ! ?i"
  have shape: "chan_shape p c" and i: "?i < length (c_banks c)"
    using s bank_of_in_range [OF k] by (auto simp: sums_def)
  have plk: "pl_k pl = k" "pl_bank pl = ?i" by (simp_all add: pl)
  note sel = commit_chan_sel [where pl = pl and c = c and p = p, unfolded plk, OF i]
  have row: "0 \<le> k_row k" and ra: "nat (k_ra k) < length (c_faw c)" "int (nat (k_ra k)) = k_ra k"
    using k shape by (auto simp: in_range_def chan_shape_def)
  note spec = plan_in_spec [OF row pl refl]
  have bsi: "bank_sums p h ?i ?b" using s i by (simp add: sums_def)
  have "bank_sums p ?h j (c_banks ?c ! j)" if j: "j < length (c_banks c)" for j
  proof (cases "j = ?i")
    case True
    then show ?thesis using bsi i spec(1) by (auto simp: sel(1) bank_sums_def activations_Bst plk)
  next
    case False
    then show ?thesis using s j by (auto simp: sel(1) sums_def bank_sums_def activations_Bst plk)
  qed
  moreover have "pl_end (fst x) \<le> pl_end pl" if "x \<in> set (bursts ?h)" for x
    using s that spec(3) bp by (fastforce simp: sums_def)
  moreover have faw: "c_faw ?c ! r = rev (take 4 (rank_acts (int r) ?h))" if r: "r < length (c_faw c)" for r
  proof (cases "pl_kind pl \<noteq> 0 \<and> r = nat (k_ra k)")
    case True
    have "c_faw c ! nat (k_ra k) = rev (take 4 (rank_acts (k_ra k) h))" using s ra by (simp add: sums_def)
    from faw_push [OF this, of "pl_act pl"] True ra show ?thesis by (simp add: sel(2) activations_Bst plk)
  next
    case False
    then have "pl_kind pl = 0 \<or> k_ra k \<noteq> int r" by auto
    then show ?thesis using s r False by (auto simp: sel(2) activations_Bst plk sums_def)
  qed
  moreover have "last_sums p ?c ?h"
    using s by (auto simp: sums_def last_sums_def sel plk activations_Bst)
  moreover have "chan_shape p ?c"
  proof -
    have "length (c_faw ?c ! r) \<le> 4" if "r < length (c_faw c)" for r using faw [OF that] by simp
    moreover have "length (c_faw ?c) = length (c_faw c)" by (simp add: sel(2))
    ultimately show ?thesis using shape by (simp add: chan_shape_def sel(1) list_all_length del: sel(2))
  qed
  moreover have "length (c_banks ?c) = length (c_banks c)" "length (c_faw ?c) = length (c_faw c)"
    by (simp_all add: sel(1,2))
  ultimately show ?thesis
    using s i row unfolding sums_def by (simp add: sel(3-) plk)
qed

text \<open>
  Every history passes the rules, and the channel state is its summary.
\<close>

lemma chan_hist_enforced:
  assumes "chan_hist p bp c h" and "0 \<le> p_tRPab p" and "0 \<le> bp"
  shows "enforced p bp h \<and> sums p c h"
  using assms(1)
proof induction
  case new
  then show ?case by (simp add: sums_new)
next
  case (ref c h)
  then show ?case using enforced_ref [of p c h bp] sums_ref [of p c h] assms(2) by simp
next
  case (bst c h k pl t w)
  from enforced_bst [OF _ _ bst(2,3,5)] sums_bst [OF _ _ bst(2,3) assms(3)] bst.IH show ?case by metis
qed

section \<open>Between any two commands\<close>

text \<open>A later and an earlier column command: the data do not overlap, and the spacings hold.\<close>

definition same_group :: "plan \<Rightarrow> plan \<Rightarrow> bool" where
  "same_group q pl \<longleftrightarrow> k_ra (pl_k q) = k_ra (pl_k pl) \<and> k_bg (pl_k q) = k_bg (pl_k pl)"

definition column_pair :: "params \<Rightarrow> int \<Rightarrow> plan \<times> bool \<Rightarrow> plan \<times> bool \<Rightarrow> bool" where
  "column_pair p bp = (\<lambda>(pl, w) (q, v). pl_end q \<le> pl_end pl - bp
     \<and> pl_col q + (if same_group q pl then p_tCCD_L p else p_tCCD_S p) \<le> pl_col pl
     \<and> (v \<and> \<not> w \<longrightarrow> pl_end q + p_tWTR_S p \<le> pl_col pl)
     \<and> (\<not> v \<and> w \<longrightarrow> pl_col q + p_tRTW p \<le> pl_col pl))"

text \<open>A later and an earlier activation of one rank.\<close>

definition act_pair :: "params \<Rightarrow> plan \<Rightarrow> plan \<Rightarrow> bool" where
  "act_pair p pl q \<longleftrightarrow> pl_act q + (if same_group q pl then p_tRRD_L p else p_tRRD_S p) \<le> pl_act pl"

definition all_pairs :: "params \<Rightarrow> int \<Rightarrow> event list \<Rightarrow> bool" where
  "all_pairs p bp h \<longleftrightarrow> sorted_wrt (column_pair p bp) (bursts h)
     \<and> (\<forall>i. sorted_wrt (\<lambda>a b. b + p_tRC p \<le> a) (bank_acts i h))
     \<and> (p_ranks p = 1 \<longrightarrow> sorted_wrt (act_pair p) (activations h))
     \<and> (\<forall>r i. i + 4 < length (rank_acts r h) \<longrightarrow> rank_acts r h ! (i + 4) + p_tFAW p \<le> rank_acts r h ! i)"

text \<open>How the spacings of a device are related; the presets' are.\<close>

definition sane_spacing :: "params \<Rightarrow> bool" where
  "sane_spacing p \<longleftrightarrow> 0 \<le> p_tCCD_S p \<and> p_tCCD_S p \<le> p_tCCD_L p \<and> p_tCCD_L p \<le> 2 * p_tCCD_S p
     \<and> p_tWTR_S p \<le> p_tWTR_L p \<and> (p_tRTW_L p = 0 \<or> p_tRTW p \<le> p_tRTW_L p)
     \<and> 0 \<le> p_tRRD_S p \<and> p_tRRD_S p \<le> p_tRRD_L p \<and> p_tRRD_L p \<le> 2 * p_tRRD_S p \<and> 0 \<le> p_tRC p"

lemma enforced_in_range: "enforced p bp h \<Longrightarrow> x \<in> set (bursts h) \<Longrightarrow> in_range p (pl_k (fst x))"
  by (induction p bp h rule: enforced.induct) auto

lemma column_pair_next:
  assumes "sane_spacing p" and "0 \<le> bp" and "column_rules p h pl w" and "bus_rules p bp h pl w"
    and "sorted_wrt (column_pair p bp) (bursts h)" and x: "x \<in> set (bursts h)"
  shows "column_pair p bp (pl, w) x"
proof -
  obtain q0 v0 bs where b: "bursts h = (q0, v0) # bs" using x by (cases "bursts h") auto
  obtain q v where qv: "x = (q, v)" by (cases x)
  have s: "0 \<le> p_tCCD_S p" "p_tCCD_S p \<le> p_tCCD_L p" "p_tCCD_L p \<le> 2 * p_tCCD_S p" "p_tWTR_S p \<le> p_tWTR_L p"
    "p_tRTW_L p = 0 \<or> p_tRTW p \<le> p_tRTW_L p"
    using assms(1) by (simp_all add: sane_spacing_def)
  have bus: "pl_end q \<le> pl_end pl - bp" using assms(4) x by (auto simp: bus_rules_def qv)
  have last: "pl_col q0 + (if same_group q0 pl then p_tCCD_L p else p_tCCD_S p) \<le> pl_col pl"
    "v0 \<and> \<not> w \<longrightarrow> pl_end q0 + p_tWTR_S p \<le> pl_col pl" "\<not> v0 \<and> w \<longrightarrow> pl_col q0 + p_tRTW p \<le> pl_col pl"
    using assms(3) s(4,5) unfolding column_rules_def b same_group_def by (fastforce simp: Let_def split: if_splits)+
  then have le: "pl_col q0 + p_tCCD_S p \<le> pl_col pl" using s(2) by (auto split: if_splits)
  show ?thesis
  proof (cases "x = (q0, v0)")
    case True
    then show ?thesis using bus last by (simp add: column_pair_def qv)
  next
    case False
    then have "column_pair p bp (q0, v0) (q, v)" using assms(5) x by (auto simp: b qv)
    then have o: "pl_end q \<le> pl_end q0 - bp" "pl_col q + p_tCCD_S p \<le> pl_col q0"
      "v \<and> \<not> v0 \<longrightarrow> pl_end q + p_tWTR_S p \<le> pl_col q0" "\<not> v \<and> v0 \<longrightarrow> pl_col q + p_tRTW p \<le> pl_col q0"
      using s(2) by (auto simp: column_pair_def split: if_splits)
    have "v \<and> \<not> w \<longrightarrow> pl_end q + p_tWTR_S p \<le> pl_col pl" using last(2) o(1,3) le s(1) assms(2) by (cases v0) auto
    moreover have "\<not> v \<and> w \<longrightarrow> pl_col q + p_tRTW p \<le> pl_col pl" using last(3) o(2,4) le s(1) by (cases v0) auto
    moreover have "pl_col q + (if same_group q pl then p_tCCD_L p else p_tCCD_S p) \<le> pl_col pl" using o(2) le s by auto
    ultimately show ?thesis using bus by (simp add: column_pair_def qv)
  qed
qed

lemma act_pair_next:
  assumes "sane_spacing p" and "p_ranks p = 1" and "enforced p bp h" and "in_range p (pl_k pl)" and "act_rules p h pl"
    and "sorted_wrt (act_pair p) (activations h)" and x: "q \<in> set (activations h)"
  shows "act_pair p pl q"
proof -
  obtain q0 qs where a: "activations h = q0 # qs" using x by (cases "activations h") auto
  have "q0 \<in> fst ` set (bursts h)" using a unfolding activations_def by (metis (no_types) filter_is_subset image_mono image_set list.set_intros(1) subsetD)
  then have "in_range p (pl_k q0)" using enforced_in_range [OF assms(3)] by auto
  then have ra: "k_ra (pl_k q0) = k_ra (pl_k pl)" using assms(2,4) by (auto simp: in_range_def)
  have s: "0 \<le> p_tRRD_S p" "p_tRRD_S p \<le> p_tRRD_L p" "p_tRRD_L p \<le> 2 * p_tRRD_S p"
    using assms(1) by (simp_all add: sane_spacing_def)
  have last: "act_pair p pl q0" using assms(5) a ra by (simp add: act_rules_def act_pair_def same_group_def)
  show ?thesis
  proof (cases "q = q0")
    case False
    then have "act_pair p q0 q" using assms(6) x by (auto simp: a)
    then show ?thesis using last s by (auto simp: act_pair_def split: if_splits)
  qed (use last in simp)
qed

lemma enforced_all_pairs:
  assumes "sane_spacing p" and "0 \<le> bp" and "enforced p bp h"
  shows "all_pairs p bp h"
  using assms(3)
proof (induction h)
  case Nil
  show ?case by (simp add: all_pairs_def hist_simps)
next
  case (Cons ev h)
  show ?case
  proof (cases ev)
    case (Ref r)
    then show ?thesis using Cons by (simp add: all_pairs_def)
  next
    case (Bst pl w)
    have l: "enforced p bp h" "in_range p (pl_k pl)" "pl_kind pl \<noteq> 0 \<Longrightarrow> act_rules p h pl" "column_rules p h pl w" "bus_rules p bp h pl w"
      using Cons.prems by (simp_all add: Bst)
    have IH: "all_pairs p bp h" by (rule Cons.IH [OF l(1)])
    have rc: "0 \<le> p_tRC p" using assms(1) by (simp add: sane_spacing_def)
    have col: "sorted_wrt (column_pair p bp) ((pl, w) # bursts h)"
      using column_pair_next [OF assms(1,2) l(4,5)] IH by (simp add: all_pairs_def)
    have "\<forall>b\<in>set (bank_acts (pl_bank pl) h). b + p_tRC p \<le> pl_act pl" if k: "pl_kind pl \<noteq> 0"
    proof (cases "bank_acts (pl_bank pl) h")
      case (Cons a as)
      have "a + p_tRC p \<le> pl_act pl" using l(3) [OF k] Cons by (simp add: act_rules_def)
      moreover have "\<forall>b\<in>set as. b + p_tRC p \<le> a" using IH Cons unfolding all_pairs_def by (metis sorted_wrt.simps(2))
      ultimately show ?thesis using rc Cons by auto
    qed simp
    then have banks: "sorted_wrt (\<lambda>a b. b + p_tRC p \<le> a) (bank_acts i (ev # h))" for i
      using IH by (simp add: Bst activations_Bst all_pairs_def)
    have acts: "sorted_wrt (act_pair p) (activations (ev # h))" if "p_ranks p = 1"
      using act_pair_next [OF assms(1) that l(1,2) l(3)] IH that by (simp add: Bst activations_Bst all_pairs_def)
    have faw: "rank_acts r (ev # h) ! (i + 4) + p_tFAW p \<le> rank_acts r (ev # h) ! i" if "i + 4 < length (rank_acts r (ev # h))" for r i
    proof (cases "pl_kind pl \<noteq> 0 \<and> k_ra (pl_k pl) = r")
      case True
      then have e: "rank_acts r (ev # h) = pl_act pl # rank_acts r h" by (simp add: Bst activations_Bst)
      have "4 \<le> length (rank_acts r h) \<Longrightarrow> rank_acts r h ! 3 + p_tFAW p \<le> pl_act pl" using l(3) True by (simp add: act_rules_def)
      then show ?thesis using that IH by (cases i) (auto simp: e all_pairs_def nth_Cons' add.commute)
    next
      case False
      then have e: "rank_acts r (ev # h) = rank_acts r h" by (auto simp: Bst activations_Bst)
      show ?thesis using that IH unfolding e by (simp add: all_pairs_def)
    qed
    show ?thesis unfolding all_pairs_def using col banks acts faw by (simp add: Bst)
  qed
qed

end
