(* ===== verification/DramMap.thy ===== *)
theory DramMap
  imports DramLoops
begin

text \<open>
  The constructor of the engine and its address mapping: what it accepts, that every address
  is decoded to a channel, rank, bank and row that exist, and that decoding loses nothing.
\<close>

section \<open>Powers of two\<close>

lemma pow2_check:
  assumes "0 < v" and "v AND (v - 1) = (0::int)"
  shows "\<exists>k. v = 2 ^ k"
  using assms
proof (induction "nat v" arbitrary: v rule: less_induct)
  case less
  show ?case
  proof (cases "odd v")
    case True
    have "v AND (v - 1) = 2 * (v div 2 AND (v - 1) div 2)" using True by (subst and_int_rec) simp
    moreover have "(v - 1) div 2 = v div 2" using True by (auto elim: oddE)
    ultimately have "v div 2 = 0" using less.prems(2) by simp
    then have "v = 2 ^ 0" using True less.prems(1) by (auto elim: oddE)
    then show ?thesis ..
  next
    case False
    then obtain u where u: "v = 2 * u" by auto
    have "v AND (v - 1) = 2 * (v div 2 AND (v - 1) div 2)" using False by (subst and_int_rec) simp
    moreover have "v div 2 = u" "(v - 1) div 2 = u - 1" using u by simp_all
    ultimately have "u AND (u - 1) = 0" using less.prems(2) by simp
    moreover have "0 < u" "nat u < nat v" using u less.prems(1) by simp_all
    ultimately obtain k where "u = 2 ^ k" using less.hyps by blast
    then have "v = 2 ^ Suc k" using u by simp
    then show ?thesis ..
  qed
qed

lemma log2i_from_pow2: "b \<le> k \<Longrightarrow> log2i_from b (2 ^ k) = k"
proof (induction "k - b" arbitrary: b)
  case 0
  then show ?case by (simp add: log2i_from.simps)
next
  case (Suc n)
  then have "b < k" by simp
  then show ?case using Suc by (subst log2i_from.simps) simp
qed

lemma log2i_pow2 [simp]: "log2i (2 ^ k) = k"
  by (simp add: log2i_def log2i_from_pow2)

lemma check_pow2_ok: "check_pow2 v what = Inr u \<Longrightarrow> \<exists>k. v = 2 ^ k"
  using pow2_check [of v] by (auto simp: check_pow2_def split: if_splits)

lemma check_all_ok: "check_all xs = Inr u \<Longrightarrow> x \<in> set xs \<Longrightarrow> \<exists>k. fst x = 2 ^ k"
  by (induction xs rule: check_all.induct) (auto split: sum.splits dest: check_pow2_ok)

section \<open>Parsing the mapping\<close>

lemma field_index_lt: "field_index tok = Some k \<Longrightarrow> k < 6"
  by (auto simp: field_index_def numeral_eq_Suc split: if_splits)

text \<open>The fields parsed so far: those marked as seen, each once, with the bits of its size.\<close>

definition parsed :: "int list \<Rightarrow> bool list \<Rightarrow> (char \<times> nat) list \<Rightarrow> bool" where
  "parsed sizes seen fs \<longleftrightarrow> length seen = 6 \<and> distinct (map fst fs)
     \<and> set fs = {(field_ids ! k, log2i (sizes ! k)) | k. k < 6 \<and> seen ! k}"

lemma field_ids_nth: "k < 6 \<Longrightarrow> j < 6 \<Longrightarrow> field_ids ! k = field_ids ! j \<longleftrightarrow> k = j"
  by (auto simp: field_ids_def numeral_eq_Suc less_Suc_eq)

lemma parsed_step:
  assumes "parsed sizes seen fs" and "k < 6" and "\<not> seen ! k"
  shows "parsed sizes (seen[k := True]) (fs @ [(field_ids ! k, log2i (sizes ! k))])"
proof -
  have "field_ids ! k \<notin> fst ` set fs" using assms field_ids_nth by (auto simp: parsed_def)
  moreover have "{(field_ids ! j, log2i (sizes ! j)) | j. j < 6 \<and> seen[k := True] ! j}
      = insert (field_ids ! k, log2i (sizes ! k)) {(field_ids ! j, log2i (sizes ! j)) | j. j < 6 \<and> seen ! j}"
    using assms by (auto simp: parsed_def nth_list_update)
  ultimately show ?thesis using assms by (simp add: parsed_def)
qed

lemma parse_fields_ok:
  "parse_fields sizes m s seen fs = Inr (seen', fs') \<Longrightarrow> parsed sizes seen fs \<Longrightarrow> parsed sizes seen' fs'"
proof (induction sizes m s seen fs rule: parse_fields.induct)
  case (1 sizes m x y rest seen fs)
  then show ?case using parsed_step field_index_lt by (auto split: option.splits if_splits)
qed auto

lemma first_missing_ok: "first_missing m seen sizes js = Inr u \<Longrightarrow> j \<in> set js \<Longrightarrow> seen ! j \<or> sizes ! j \<le> 1"
  by (induction m seen sizes js rule: first_missing.induct) (auto split: if_splits)

section \<open>Coordinates by field\<close>

definition get_coord :: "char \<Rightarrow> coord \<Rightarrow> int" where
  "get_coord f c = (if f = CHR ''h'' then k_ch c else if f = CHR ''a'' then k_ra c else if f = CHR ''g'' then k_bg c
     else if f = CHR ''b'' then k_ba c else if f = CHR ''r'' then k_row c else k_col c)"

lemma get_set_coord: "f \<in> set field_ids \<Longrightarrow> g \<in> set field_ids \<Longrightarrow> get_coord f (set_coord g v c) = (if f = g then v else get_coord f c)"
  by (auto simp: field_ids_def get_coord_def set_coord_def)

lemma coord_eqI:
  assumes "\<And>f. f \<in> set field_ids \<Longrightarrow> get_coord f c = get_coord f d"
  shows "c = d"
  using assms [of "CHR ''h''"] assms [of "CHR ''a''"] assms [of "CHR ''g''"] assms [of "CHR ''b''"]
    assms [of "CHR ''r''"] assms [of "CHR ''c''"]
  by (intro coord.equality) (simp_all add: field_ids_def get_coord_def)

lemma field_value: "a AND (2 ^ n - 1) = take_bit n (a :: u64)"
  by (simp add: take_bit_eq_mask mask_eq_exp_minus_1)

lemma decode_fields_other:
  "f \<notin> fst ` set fs \<Longrightarrow> f \<in> set field_ids \<Longrightarrow> fst ` set fs \<subseteq> set field_ids \<Longrightarrow>
     get_coord f (decode_fields fs a c) = get_coord f c"
  by (induction fs a c rule: decode_fields.induct) (auto simp: Let_def get_set_coord)

lemma decode_fields_range:
  "(f, n) \<in> set fs \<Longrightarrow> distinct (map fst fs) \<Longrightarrow> fst ` set fs \<subseteq> set field_ids \<Longrightarrow>
     0 \<le> get_coord f (decode_fields fs a c) \<and> get_coord f (decode_fields fs a c) < 2 ^ n"
proof (induction fs a c rule: decode_fields.induct)
  case (2 g bits rest a c)
  show ?case
  proof (cases "(f, n) = (g, bits)")
    case True
    then have "f \<notin> fst ` set rest" "f \<in> set field_ids" "fst ` set rest \<subseteq> set field_ids" using 2(3,4) by auto
    then show ?thesis using True decode_fields_other by (simp add: Let_def get_set_coord field_value unsigned_take_bit_eq)
  next
    case False
    then have "(f, n) \<in> set rest" "distinct (map fst rest)" "fst ` set rest \<subseteq> set field_ids" using 2(2-4) by auto
    from 2(1) [OF refl this] show ?thesis by (simp add: Let_def)
  qed
qed simp


section \<open>What the constructor accepts\<close>

text \<open>The geometry of an accepted device: sizes are powers of two, and the mapping covers them.\<close>

definition sizes_of :: "eng \<Rightarrow> char \<Rightarrow> int" where
  "sizes_of e f = (if f = CHR ''h'' then p_channels (e_p e) else if f = CHR ''a'' then p_ranks (e_p e)
     else if f = CHR ''g'' then p_bankgroups (e_p e) else if f = CHR ''b'' then p_banks (e_p e)
     else if f = CHR ''r'' then p_rows (e_p e) else p_page_bytes (e_p e) sdiv e_burst_bytes e)"

definition mapped :: "eng \<Rightarrow> bool" where
  "mapped e \<longleftrightarrow> distinct (map fst (e_fields e)) \<and> fst ` set (e_fields e) \<subseteq> set field_ids
     \<and> (\<forall>f\<in>set field_ids. \<exists>k. sizes_of e f = 2 ^ k \<and> ((f, k) \<in> set (e_fields e) \<or> k = 0 \<and> f \<notin> fst ` set (e_fields e)))"

lemma field_sizes_nth: "j < 6 \<Longrightarrow> field_sizes e ! j = sizes_of e (field_ids ! j)"
  by (auto simp: field_sizes_def field_ids_def sizes_of_def numeral_eq_Suc less_Suc_eq)

lemma field_ids_index: "f \<in> set field_ids \<longleftrightarrow> (\<exists>j<6. f = field_ids ! j)"
proof -
  have "length field_ids = 6" by (simp add: field_ids_def)
  then show ?thesis unfolding in_set_conv_nth by auto
qed

lemma parse_mapping_ok:
  assumes "parse_mapping e = Inr e'" and "e_fields e = []" and pow: "\<And>f. f \<in> set field_ids \<Longrightarrow> \<exists>k. sizes_of e f = 2 ^ k"
  shows "mapped e' \<and> (\<exists>fs. e' = e\<lparr>e_fields := fs\<rparr>)"
proof -
  from assms(1,2) obtain seen fs where p: "parse_fields (field_sizes e) (p_mapping (e_p e)) (p_mapping (e_p e)) (replicate 6 False) [] = Inr (seen, fs)"
      "first_missing (p_mapping (e_p e)) seen (field_sizes e) [0..<6] = Inr ()" "e' = e\<lparr>e_fields := fs\<rparr>"
    by (auto simp: parse_mapping_def Let_def split: if_splits sum.splits prod.splits)
  have ps: "parsed (field_sizes e) seen fs"
    by (rule parse_fields_ok [OF p(1)]) (simp add: parsed_def)
  then have set: "set fs = {(field_ids ! k, log2i (field_sizes e ! k)) | k. k < 6 \<and> seen ! k}" by (simp add: parsed_def)
  have sz: "sizes_of e' = sizes_of e" by (rule ext) (simp add: sizes_of_def p(3))
  have "\<exists>k. sizes_of e f = 2 ^ k \<and> ((f, k) \<in> set fs \<or> k = 0 \<and> f \<notin> fst ` set fs)" if f: "f \<in> set field_ids" for f
  proof -
    obtain j where j: "j < 6" "f = field_ids ! j" using f by (auto simp: field_ids_index)
    obtain k where k: "sizes_of e f = 2 ^ k" using pow f by blast
    show ?thesis
    proof (cases "seen ! j")
      case True
      then have "(f, k) \<in> set fs" using j k field_sizes_nth [of j e] by (auto simp: set)
      then show ?thesis using k by blast
    next
      case False
      then have "field_sizes e ! j \<le> 1" using first_missing_ok [OF p(2), of j] j(1) by auto
      then have "(2::int) ^ k \<le> 1" using j k field_sizes_nth [of j e] by simp
      moreover have "(2::int) ^ 1 \<le> 2 ^ k" if "k \<noteq> 0" using that by (intro power_increasing) auto
      ultimately have "k = 0" by fastforce
      moreover have "f \<notin> fst ` set fs" using False j field_ids_nth by (auto simp: set)
      ultimately show ?thesis using k by blast
    qed
  qed
  moreover have "fst ` set fs \<subseteq> set field_ids" by (auto simp: set field_ids_index)
  moreover have fs: "e_fields e' = fs" by (simp add: p(3))
  moreover have "distinct (map fst fs)" using ps by (simp add: parsed_def)
  ultimately have "mapped e'" unfolding mapped_def sz fs by blast
  then show ?thesis using p(3) by blast
qed

definition built_dram :: "params \<Rightarrow> eng \<Rightarrow> bool" where
  "built_dram p e \<longleftrightarrow> Engine p = Inr e \<and> p_kind p = ''dram''"

text \<open>What is known of an engine the constructor returns.\<close>

lemma built_dram_facts:
  assumes "built_dram p e"
  shows "mapped e \<and> e_p e = p \<and> \<not> e_hyperram e \<and> wq_ok p \<and> e_chan e = replicate (nat (p_channels p)) (fresh_channel p)
    \<and> e_st e = no_stats \<and> e_wq e = [] \<and> e_leaving e = [] \<and> e_burst_bytes e = p_width_bits p sdiv 8 * p_burst_length p
    \<and> e_burst_ps e = p_burst_length p * 1000000 sdiv p_mtps p \<and> (\<exists>k. e_burst_bytes e = 2 ^ k \<and> e_offset_bits e = k)
    \<and> (\<exists>k. e_align e = 2 ^ k) \<and> e_align e = max (p_granule p) (e_burst_bytes e)"
proof -
  let ?bb = "p_width_bits p sdiv 8 * p_burst_length p"
  let ?e = "(new_eng p)\<lparr>e_burst_bytes := ?bb, e_burst_ps := p_burst_length p * 1000000 sdiv p_mtps p, e_align := max (p_granule p) ?bb\<rparr>"
  let ?e1 = "?e\<lparr>e_offset_bits := log2i ?bb\<rparr>"
  have E: "Engine p = Inr e" "p_kind p = ''dram''" using assms by (simp_all add: built_dram_def)
  define checks where "checks = [(p_channels p, ''channels''), (p_ranks p, ''ranks''), (p_bankgroups p, ''bankgroups''),
     (p_banks p, ''banks''), (p_rows p, ''rows''),
     (?bb, ''burst bytes (width_bits/8 * burst_length)''), (max (p_granule p) ?bb, ''granule'')]"
  have align: "e_align ?e = max (p_granule p) ?bb" by simp
  have neq: "(''dram'' = ''hyperram'') = False" by simp
  have "Engine p = (case check_all checks of
       Inl msg \<Rightarrow> Inl msg
     | Inr _ \<Rightarrow>
         if p_page_bytes p smod ?bb \<noteq> 0 then Inl ''page_bytes must be a multiple of the burst size''
         else (case check_pow2 (p_page_bytes p sdiv ?bb) ''bursts per page'' of
           Inl msg \<Rightarrow> Inl msg
         | Inr _ \<Rightarrow>
             (case parse_mapping ?e1 of
               Inl msg \<Rightarrow> Inl msg
             | Inr e \<Rightarrow>
                 if \<not> wq_ok p then Inl ''write queue needs 0 < wq_low <= wq_high < wq_depth''
                 else Inr (e\<lparr>e_chan := replicate (nat (p_channels p)) (fresh_channel p)\<rparr>))))"
    by (simp only: Engine_def Let_def checks_def E(2) neq align if_False if_True simp_thms)
  with E(1) obtain u u' e2 where c: "check_all checks = Inr u"
      "check_pow2 (p_page_bytes p sdiv ?bb) ''bursts per page'' = Inr u'"
      "parse_mapping ?e1 = Inr e2" "wq_ok p" "e = e2\<lparr>e_chan := replicate (nat (p_channels p)) (fresh_channel p)\<rparr>"
    by (auto split: if_splits sum.splits)
  have "\<forall>x\<in>set checks. \<exists>k. fst x = 2 ^ k" using check_all_ok [OF c(1)] by blast
  then have chk: "\<exists>k. p_channels p = 2 ^ k" "\<exists>k. p_ranks p = 2 ^ k" "\<exists>k. p_bankgroups p = 2 ^ k" "\<exists>k. p_banks p = 2 ^ k"
      "\<exists>k. p_rows p = 2 ^ k" "\<exists>k. ?bb = 2 ^ k" "\<exists>k. max (p_granule p) ?bb = 2 ^ k"
    by (simp_all only: checks_def list.set ball_simps insert_iff fst_conv simp_thms)
  have e1: "e_p ?e1 = p" "e_burst_bytes ?e1 = ?bb" by (simp_all add: new_eng_def)
  have pow: "\<exists>k. sizes_of ?e1 f = 2 ^ k" if "f \<in> set field_ids" for f
    using chk check_pow2_ok [OF c(2)] by (simp only: sizes_of_def e1 split: if_split) blast
  obtain kb where kb: "?bb = 2 ^ kb" using chk(6) by blast
  obtain ka where ka: "max (p_granule p) ?bb = 2 ^ ka" using chk(7) by blast
  from parse_mapping_ok [OF c(3) _ pow] obtain fs where m: "mapped e2" "e2 = ?e1\<lparr>e_fields := fs\<rparr>"
    by (auto simp: new_eng_def)
  have "sizes_of e = sizes_of e2" "e_fields e = e_fields e2" by (simp_all add: c(5) sizes_of_def fun_eq_iff)
  then have "mapped e" using m(1) unfolding mapped_def by metis
  then show ?thesis
    using c(4) ka kb unfolding c(5) m(2) by (simp add: new_eng_def)
qed

section \<open>Decoding\<close>

lemma zero_coord_get [simp]: "get_coord f zero_coord = 0"
  by (simp add: get_coord_def zero_coord_def)

lemma decode_range:
  assumes "mapped e" and "f \<in> set field_ids"
  shows "0 \<le> get_coord f (decode e a) \<and> get_coord f (decode e a) < sizes_of e f"
proof -
  obtain k where k: "sizes_of e f = 2 ^ k" "(f, k) \<in> set (e_fields e) \<or> k = 0 \<and> f \<notin> fst ` set (e_fields e)"
    using assms unfolding mapped_def by blast
  have d: "distinct (map fst (rev (e_fields e)))" "fst ` set (rev (e_fields e)) \<subseteq> set field_ids"
    using assms(1) by (simp_all add: mapped_def rev_map [symmetric])
  from k(2) show ?thesis
  proof
    assume "(f, k) \<in> set (e_fields e)"
    then show ?thesis using decode_fields_range [OF _ d] k(1) by (simp add: decode_def)
  next
    assume "k = 0 \<and> f \<notin> fst ` set (e_fields e)"
    then show ?thesis using decode_fields_other [OF _ assms(2) d(2)] k(1) by (simp add: decode_def)
  qed
qed

lemma mapped_in_range: "mapped e \<Longrightarrow> in_range (e_p e) (decode e a)"
  using decode_range [of e "CHR ''h''" a] decode_range [of e "CHR ''a''" a] decode_range [of e "CHR ''g''" a]
    decode_range [of e "CHR ''b''" a] decode_range [of e "CHR ''r''" a] decode_range [of e "CHR ''c''" a]
  by (simp add: field_ids_def sizes_of_def get_coord_def in_range_def)


section \<open>Decoding loses nothing\<close>

text \<open>The address of a burst, put together from the coordinates; and the bits a mapping uses.\<close>

fun encode_fields :: "(char \<times> nat) list \<Rightarrow> coord \<Rightarrow> u64" where
  "encode_fields [] c = 0"
| "encode_fields ((f, bits) # rest) c = word_of_int (get_coord f c) OR push_bit bits (encode_fields rest c)"

definition encode :: "eng \<Rightarrow> coord \<Rightarrow> u64" where
  "encode e c = push_bit (e_offset_bits e) (encode_fields (rev (e_fields e)) c)"

definition addr_bits :: "eng \<Rightarrow> nat" where
  "addr_bits e = e_offset_bits e + sum_list (map snd (e_fields e))"

lemma encode_fields_cong:
  "(\<And>f. f \<in> fst ` set fs \<Longrightarrow> get_coord f c = get_coord f d) \<Longrightarrow> encode_fields fs c = encode_fields fs d"
  by (induction fs c rule: encode_fields.induct) auto

lemma take_bit_split: "take_bit m a OR push_bit m (take_bit n (drop_bit m a)) = take_bit (m + n) (a :: u64)"
  by (rule bit_word_eqI) (auto simp: bit_simps)

text \<open>Putting together what was taken apart gives the bits that were read.\<close>

lemma encode_decode_fields:
  "distinct (map fst fs) \<Longrightarrow> fst ` set fs \<subseteq> set field_ids \<Longrightarrow>
     encode_fields fs (decode_fields fs a c) = take_bit (sum_list (map snd fs)) a"
proof (induction fs a c rule: decode_fields.induct)
  case (2 f bits rest a c)
  let ?c = "set_coord f (uint (take_bit bits a)) c"
  have d: "f \<notin> fst ` set rest" "f \<in> set field_ids" "fst ` set rest \<subseteq> set field_ids" "distinct (map fst rest)"
    using 2(2,3) by auto
  have "encode_fields rest (decode_fields rest (drop_bit bits a) ?c) = take_bit (sum_list (map snd rest)) (drop_bit bits a)"
    using 2(1) [OF refl d(4,3)] by (simp add: field_value)
  moreover have "get_coord f (decode_fields rest (drop_bit bits a) ?c) = uint (take_bit bits a)"
    using decode_fields_other [OF d(1,2,3)] d(2) by (simp add: get_set_coord)
  ultimately show ?case by (simp add: Let_def field_value take_bit_split)
qed simp

text \<open>Taking apart what was put together gives the coordinates back.\<close>

lemma bit_small: "0 \<le> x \<Longrightarrow> x < 2 ^ n \<Longrightarrow> bit (x::int) i \<Longrightarrow> i < n"
  by (metis bit_take_bit_iff take_bit_int_eq_self)

definition fits :: "(char \<times> nat) list \<Rightarrow> coord \<Rightarrow> bool" where
  "fits fs c \<longleftrightarrow> (\<forall>x\<in>set fs. 0 \<le> get_coord (fst x) c \<and> get_coord (fst x) c < 2 ^ snd x)"

lemma bit_encode_fields:
  "fits fs c \<Longrightarrow> bit (encode_fields fs c) i \<Longrightarrow> i < sum_list (map snd fs)"
proof (induction fs c arbitrary: i rule: encode_fields.induct)
  case (2 f n rest c)
  have x: "0 \<le> get_coord f c" "get_coord f c < 2 ^ n" "fits rest c" using 2(2) by (simp_all add: fits_def)
  consider "bit (get_coord f c) i" | "n \<le> i" "bit (encode_fields rest c) (i - n)"
    using 2(3) by (auto simp: bit_simps)
  then show ?case
  proof cases
    case 1
    then show ?thesis using bit_small [OF x(1,2)] by fastforce
  next
    case 2
    then show ?thesis using "2.IH" [OF x(3)] by fastforce
  qed
qed simp

lemma decode_encode_fields:
  assumes "fits fs c" and "distinct (map fst fs)" and "fst ` set fs \<subseteq> set field_ids"
    and "sum_list (map snd fs) \<le> 64" and "f \<in> fst ` set fs"
  shows "get_coord f (decode_fields fs (encode_fields fs c) d) = get_coord f c"
  using assms
proof (induction fs arbitrary: d)
  case (Cons x rest)
  obtain g n where x: "x = (g, n)" by (cases x)
  let ?w = "word_of_int (get_coord g c) :: u64" and ?E = "encode_fields rest c"
  have r: "0 \<le> get_coord g c" "get_coord g c < 2 ^ n" "fits rest c" "n \<le> 64" "g \<in> set field_ids" "g \<notin> fst ` set rest"
    "fst ` set rest \<subseteq> set field_ids" "distinct (map fst rest)" "sum_list (map snd rest) \<le> 64 - n"
    using Cons.prems by (auto simp: fits_def x)
  have "take_bit n (?w OR push_bit n ?E) = ?w"
    by (rule bit_word_eqI) (use bit_small [OF r(1,2)] in \<open>auto simp: bit_simps\<close>)
  moreover have "uint ?w = get_coord g c"
  proof -
    have "get_coord g c < 2 ^ 64" using r(2,4) power_increasing [of n 64 "2::int"] by simp
    then show ?thesis using r(1) by (simp add: unsigned_of_int take_bit_int_eq_self)
  qed
  ultimately have v: "uint (take_bit n (encode_fields (x # rest) c)) = get_coord g c" by (simp add: x)
  have "bit ?E i \<Longrightarrow> n + i < 64" for i using bit_encode_fields [OF r(3), of i] r(9) by linarith
  then have w: "drop_bit n (encode_fields (x # rest) c) = ?E"
    by (intro bit_word_eqI) (use bit_small [OF r(1,2)] in \<open>auto simp: bit_simps x\<close>)
  have step: "decode_fields (x # rest) (encode_fields (x # rest) c) d = decode_fields rest ?E (set_coord g (get_coord g c) d)"
    using v w by (simp add: x Let_def field_value)
  show ?case
  proof (cases "f = g")
    case True
    then show ?thesis using step decode_fields_other [OF r(6,5,7)] r(5) by (simp add: get_set_coord)
  next
    case False
    then have "f \<in> fst ` set rest" using Cons.prems(5) by (auto simp: x)
    then show ?thesis using step Cons.IH r by simp
  qed
qed simp

text \<open>A coordinate within the sizes of the device.\<close>

definition full_range :: "eng \<Rightarrow> coord \<Rightarrow> bool" where
  "full_range e c \<longleftrightarrow> (\<forall>f\<in>set field_ids. 0 \<le> get_coord f c \<and> get_coord f c < sizes_of e f)"

lemma decode_encode:
  assumes "mapped e" and "addr_bits e \<le> 64" and "full_range e c"
  shows "decode e (encode e c) = c"
proof (rule coord_eqI)
  fix f
  assume f: "f \<in> set field_ids"
  let ?fs = "rev (e_fields e)"
  have d: "distinct (map fst ?fs)" "fst ` set ?fs \<subseteq> set field_ids" "sum_list (map snd ?fs) + e_offset_bits e \<le> 64"
    using assms(1,2) by (simp_all add: mapped_def addr_bits_def rev_map [symmetric])
  have sz: "sizes_of e g = 2 ^ n" if "(g, n) \<in> set (e_fields e)" for g n
  proof -
    have "g \<in> set field_ids" using that d(2) by force
    then obtain k where "sizes_of e g = 2 ^ k" "(g, k) \<in> set (e_fields e) \<or> g \<notin> fst ` set (e_fields e)"
      using assms(1) unfolding mapped_def by blast
    moreover have "distinct (map fst (e_fields e))" using assms(1) by (simp add: mapped_def)
    ultimately show ?thesis using that by (metis eq_key_imp_eq_value fst_conv image_eqI)
  qed
  have fit: "fits ?fs c"
    using assms(3) d(2) sz by (fastforce simp: fits_def full_range_def)
  have "drop_bit (e_offset_bits e) (encode e c) = encode_fields ?fs c"
    by (rule bit_word_eqI) (use bit_encode_fields [OF fit] d(3) in \<open>fastforce simp: encode_def bit_simps\<close>)
  then have dec: "decode e (encode e c) = decode_fields ?fs (encode_fields ?fs c) zero_coord" by (simp add: decode_def)
  show "get_coord f (decode e (encode e c)) = get_coord f c"
  proof (cases "f \<in> fst ` set ?fs")
    case True
    then show ?thesis using decode_encode_fields [OF fit d(1,2)] d(3) by (simp add: dec)
  next
    case False
    then obtain k where "sizes_of e f = 2 ^ k" "k = 0" using assms(1) f unfolding mapped_def by force
    then have "get_coord f c = 0" using assms(3) f by (force simp: full_range_def)
    then show ?thesis using decode_fields_other [OF False f d(2)] by (simp add: dec)
  qed
qed

lemma encode_decode:
  assumes "mapped e" and "addr_bits e \<le> 64" and "take_bit (addr_bits e) a = a"
  shows "encode e (decode e a) = push_bit (e_offset_bits e) (drop_bit (e_offset_bits e) a)"
proof -
  let ?fs = "rev (e_fields e)"
  have d: "distinct (map fst ?fs)" "fst ` set ?fs \<subseteq> set field_ids"
    using assms(1) by (simp_all add: mapped_def rev_map [symmetric])
  have "take_bit (sum_list (map snd ?fs)) (drop_bit (e_offset_bits e) a) = drop_bit (e_offset_bits e) a"
  proof (rule bit_word_eqI)
    fix i
    have "bit a j \<Longrightarrow> j < addr_bits e" for j using assms(3) by (metis bit_take_bit_iff)
    then show "bit (take_bit (sum_list (map snd ?fs)) (drop_bit (e_offset_bits e) a)) i = bit (drop_bit (e_offset_bits e) a) i"
      by (fastforce simp: bit_simps addr_bits_def rev_map [symmetric])
  qed
  then show ?thesis using encode_decode_fields [OF d] by (simp add: encode_def decode_def)
qed

text \<open>
  C33. The address mapping is one-to-one. For every device the constructor accepts, with
  at most 64 address bits: every address decodes to coordinates within the sizes; every such
  coordinate is that of the address \<open>encode\<close> gives; and decoding a burst-aligned address below
  the capacity and encoding it again gives that address, so no two bursts share a place.
\<close>

theorem address_mapping_roundtrip:
  assumes "built_dram p e" and "addr_bits e \<le> 64"
  shows "full_range e (decode e a) \<and> in_range p (decode e a)
    \<and> (full_range e c \<longrightarrow> decode e (encode e c) = c)
    \<and> (take_bit (addr_bits e) a = a \<and> take_bit (e_offset_bits e) a = 0 \<longrightarrow> encode e (decode e a) = a)"
proof -
  have m: "mapped e" "e_p e = p" using built_dram_facts [OF assms(1)] by auto
  have "push_bit n (drop_bit n a) = a" if "take_bit n a = 0" for n
    using that bits_ident [of n a] by simp
  then show ?thesis
    using decode_range [OF m(1)] mapped_in_range [OF m(1), of a] decode_encode [OF m(1) assms(2)] encode_decode [OF m(1) assms(2)]
    by (auto simp: full_range_def m(2))
qed


section \<open>A device\<close>

text \<open>The parameters \<open>tools/dram/dram_test.cpp\<close> works with, with refresh and the write queue on.\<close>

definition test_params :: params where
  "test_params = default_params\<lparr>p_ctrl_ps := 20000, p_granule := 64, p_mtps := 2000, p_tCK := 1000,
     p_tRCD := 10000, p_tRP := 10000, p_tRPab := 10000, p_tRAS := 30000, p_tRC := 40000, p_tRL := 15000, p_tWL := 8000,
     p_tRRD_S := 5000, p_tRRD_L := 5000, p_tFAW := 40000, p_tCCD_S := 8000, p_tCCD_L := 8000, p_tWTR_S := 6000,
     p_tWTR_L := 6000, p_tRTW := 20000, p_tWR := 12000, p_tRTP := 5000, p_tREFI := 100000, p_tRFC := 50000,
     p_wq_depth := 4, p_wq_high := 2, p_wq_low := 1\<rparr>"

definition test_eng :: eng where
  "test_eng = projr (Engine test_params)"

lemma test_eng_built: "built_dram test_params test_eng"
proof -
  have "isl (Engine test_params) = False" by code_simp
  then have "Engine test_params = Inr test_eng" by (cases "Engine test_params") (simp_all add: test_eng_def)
  moreover have "p_kind test_params = ''dram''" by (simp add: test_params_def default_params_def)
  ultimately show ?thesis by (simp add: built_dram_def)
qed

theorem address_mapping_roundtrip_witness:
  "decode test_eng 0x4825 = \<lparr>k_ch = 0, k_ra = 0, k_bg = 0, k_ba = 1, k_row = 1, k_col = 1\<rparr>
    \<and> decode test_eng (encode test_eng \<lparr>k_ch = 0, k_ra = 0, k_bg = 0, k_ba = 1, k_row = 1, k_col = 1\<rparr>)
        = \<lparr>k_ch = 0, k_ra = 0, k_bg = 0, k_ba = 1, k_row = 1, k_col = 1\<rparr>"
proof -
  let ?k = "\<lparr>k_ch = 0, k_ra = 0, k_bg = 0, k_ba = 1, k_row = 1, k_col = 1\<rparr>"
  have a: "addr_bits test_eng \<le> 64" by code_simp
  have d: "decode test_eng 0x4825 = ?k" by code_simp
  have "full_range test_eng ?k" using address_mapping_roundtrip [OF test_eng_built a, where a = "0x4825"] d by simp
  then show ?thesis using address_mapping_roundtrip [OF test_eng_built a, where c = ?k] d by simp
qed

end
