(* ===== verification/DramEngine.thy ===== *)
theory DramEngine
  imports DramHistory DramMap "HOL-Library.Multiset"
begin

text \<open>
  The engine as a whole: every access returns, every channel's history obeys the rules of
  \<open>DramHistory\<close>, and every burst asked for is answered from the queue, merged, queued or sent to
  the DRAM exactly once.
\<close>

section \<open>The invariant\<close>

text \<open>What stays as the constructor left it.\<close>

definition core :: "eng \<Rightarrow> bool" where
  "core e \<longleftrightarrow> \<not> e_hyperram e \<and> 0 \<le> e_burst_ps e \<and> sane_timing (e_p e) \<and> wq_ok (e_p e)
     \<and> (\<forall>a. in_range (e_p e) (decode e a)) \<and> length (e_chan e) = nat (p_channels (e_p e))"

text \<open>One history per channel, and the statistics count what they hold.\<close>

definition hist_of :: "eng \<Rightarrow> event list list \<Rightarrow> bool" where
  "hist_of e H \<longleftrightarrow> length H = length (e_chan e)
     \<and> (\<forall>i<length H. chan_hist (e_p e) (e_burst_ps e) (e_chan e ! i) (H ! i))
     \<and> sum_list (map (\<lambda>h. length (bursts h)) H) = st_bursts (e_st e)
     \<and> sum_list (map (\<lambda>h. length (ref_ends h)) H) = st_refreshes (e_st e)"

text \<open>The bursts in the histories, by their coordinates, and the burst addresses they were sent for.\<close>

definition coords :: "event list list \<Rightarrow> (coord \<times> bool) multiset" where
  "coords H = (\<Sum>h\<leftarrow>H. mset (map (\<lambda>(pl, w). (pl_k pl, w)) (bursts h)))"

definition sent :: "(u64 \<times> bool) multiset \<Rightarrow> eng \<Rightarrow> bool" where
  "sent D e \<longleftrightarrow> (\<exists>H. hist_of e H \<and> coords H = image_mset (\<lambda>(a, w). (decode e a, w)) D)"

definition tracked :: "eng \<Rightarrow> bool" where
  "tracked e \<longleftrightarrow> (\<exists>H. hist_of e H)"

definition counters :: "eng \<Rightarrow> nat \<times> nat \<times> nat \<times> nat" where
  "counters e = (st_reads (e_st e), st_writes (e_st e), st_forwarded (e_st e), st_merged (e_st e))"

lemma core_same_frame: "same_frame e e' \<Longrightarrow> core e \<Longrightarrow> core e'"
  by (simp add: core_def same_frame_decode) (simp add: same_frame_def)

lemma core_shape:
  assumes "core e" and "tracked e"
  shows "eng_shape e"
proof -
  obtain H where H: "hist_of e H" using assms(2) by (auto simp: tracked_def)
  have "0 \<le> p_tRPab (e_p e)" "0 \<le> e_burst_ps e" using assms(1) by (auto simp: core_def sane_timing_def)
  then have "chan_shape (e_p e) (e_chan e ! i)" if "i < length (e_chan e)" for i
    using H that chan_hist_enforced [of "e_p e" "e_burst_ps e" "e_chan e ! i" "H ! i"] by (auto simp: hist_of_def sums_def)
  then show ?thesis using assms(1) by (simp add: eng_shape_def core_def list_all_length)
qed

lemma core_chan:
  "core e \<Longrightarrow> nat (k_ch (decode e a)) < length (e_chan e)"
  by (force simp: core_def in_range_def)

text \<open>A step that only refreshes channel \<open>ch\<close>, from the histories \<open>H\<close>.\<close>

definition refreshes :: "int \<Rightarrow> event list list \<Rightarrow> eng \<Rightarrow> eng \<Rightarrow> bool" where
  "refreshes ch H e e' \<longleftrightarrow> same_frame e e' \<and> (\<exists>rs. hist_of e' (H[nat ch := map Ref rs @ H ! nat ch]))
     \<and> e_wq e' = e_wq e \<and> e_leaving e' = e_leaving e \<and> counters e' = counters e \<and> st_bursts (e_st e') = st_bursts (e_st e)
     \<and> (\<forall>k. c_order (chan_at e' k) = c_order (chan_at e k))"

lemma refreshes_refl: "hist_of e H \<Longrightarrow> refreshes ch H e e"
  by (auto simp: refreshes_def intro!: exI [of _ "[]"])

lemma refreshes_trans:
  assumes "refreshes ch H e e'" and "\<And>H'. hist_of e' H' \<Longrightarrow> refreshes ch H' e' e''" and "nat ch < length H"
  shows "refreshes ch H e e''"
proof -
  obtain rs where rs: "hist_of e' (H[nat ch := map Ref rs @ H ! nat ch])" using assms(1) by (auto simp: refreshes_def)
  note r = assms(2) [OF rs]
  then obtain rs' where "hist_of e'' (H[nat ch := map Ref (rs' @ rs) @ H ! nat ch])"
    using assms(3) by (auto simp: refreshes_def)
  then show ?thesis using assms(1) r same_frame_trans [of e e' e''] unfolding refreshes_def by metis
qed

lemma sum_list_set:
  "i < length xs \<Longrightarrow> f y = f (xs ! i) + n \<Longrightarrow> sum_list (map f (xs[i := y])) = sum_list (map f xs) + (n::nat)"
  by (induction xs arbitrary: i) (auto simp: nth_Cons split: nat.splits)

lemma hist_of_set:
  assumes H: "hist_of e H" and i: "i < length (e_chan e)" and f: "e_p e' = e_p e" "e_burst_ps e' = e_burst_ps e"
    and c: "e_chan e' = (e_chan e)[i := c]" "chan_hist (e_p e) (e_burst_ps e) c h"
    and n: "length (bursts h) = length (bursts (H ! i)) + m" "length (ref_ends h) = length (ref_ends (H ! i)) + n"
    and st: "st_bursts (e_st e') = st_bursts (e_st e) + m" "st_refreshes (e_st e') = st_refreshes (e_st e) + n"
  shows "hist_of e' (H[i := h])"
proof -
  have len: "i < length H" "length H = length (e_chan e)" using H i by (simp_all add: hist_of_def)
  have "chan_hist (e_p e') (e_burst_ps e') (e_chan e' ! j) (H[i := h] ! j)" if "j < length H" for j
    using H c len that by (cases "j = i") (simp_all add: f hist_of_def)
  then show ?thesis
    using H sum_list_set [OF len(1) n(1)] sum_list_set [OF len(1) n(2)] len c(1) st by (simp add: hist_of_def)
qed

lemma order_refresh_one [simp]: "c_order (refresh_one p c) = c_order c"
  by (simp add: refresh_one_def Let_def)

lemma bursts_refs [simp]: "bursts (map Ref rs @ h) = bursts h" "ref_ends (map Ref rs @ h) = rs @ ref_ends h"
  by (induction rs) simp_all

lemma chan_hist_refresh_n:
  assumes "chan_hist p bp c h" and "0 < p_tREFI p"
  shows "\<exists>rs. length rs = n \<and> chan_hist p bp ((refresh_one p ^^ n) c) (map Ref rs @ h)
    \<and> c_order ((refresh_one p ^^ n) c) = c_order c"
proof (induction n)
  case 0
  then show ?case using assms(1) by auto
next
  case (Suc n)
  then obtain rs where rs: "length rs = n" "chan_hist p bp ((refresh_one p ^^ n) c) (map Ref rs @ h)"
      "c_order ((refresh_one p ^^ n) c) = c_order c" by blast
  show ?case
    using chan_hist.ref [OF rs(2) assms(2)] rs(1,3)
    by (intro exI [of _ "refresh_end p ((refresh_one p ^^ n) c) # rs"]) simp
qed

lemma refresh_refreshes:
  assumes "core e" and H: "hist_of e H" and "nat ch < length (e_chan e)"
  shows "refreshes ch H e (refresh ch t e)"
proof -
  let ?p = "e_p e" and ?c = "chan_at e ch" and ?e = "refresh ch t e"
  have h: "chan_hist ?p (e_burst_ps e) ?c (H ! nat ch)" using H assms(3) by (simp add: hist_of_def chan_at_def)
  have "\<exists>rs c'. refresh_loop ?p t (?c, st_refreshes (e_st e)) = (c', st_refreshes (e_st e) + length rs)
      \<and> chan_hist ?p (e_burst_ps e) c' (map Ref rs @ H ! nat ch) \<and> c_order c' = c_order ?c"
  proof (cases "0 < p_tREFI ?p")
    case True
    then obtain n where n: "refresh_loop ?p t (?c, st_refreshes (e_st e)) = ((refresh_one ?p ^^ n) ?c, st_refreshes (e_st e) + n)"
      using refresh_loop_iter [of ?p t ?c] assms(1) by (auto simp: core_def sane_timing_def)
    with chan_hist_refresh_n [OF h True, of n] show ?thesis by blast
  next
    case False
    then show ?thesis using h refresh_loop_off [of ?p t ?c] by (intro exI [of _ "[]"] exI [of _ ?c]) simp
  qed
  then obtain rs c' where r: "refresh_loop ?p t (?c, st_refreshes (e_st e)) = (c', st_refreshes (e_st e) + length rs)"
      "chan_hist ?p (e_burst_ps e) c' (map Ref rs @ H ! nat ch)" "c_order c' = c_order ?c" by blast
  have e: "?e = (set_chan ch c' e)\<lparr>e_st := (e_st e)\<lparr>st_refreshes := st_refreshes (e_st e) + length rs\<rparr>\<rparr>"
    by (simp add: refresh_def r(1))
  have "hist_of ?e (H[nat ch := map Ref rs @ H ! nat ch])"
    by (rule hist_of_set [OF H assms(3) _ _ _ r(2), where m = 0 and n = "length rs"]) (simp_all add: e set_chan_def)
  moreover have "c_order (chan_at ?e k) = c_order (chan_at e k)" for k
    using r(3) assms(3) by (cases "nat k = nat ch") (simp_all add: e chan_at_def set_chan_def)
  ultimately show ?thesis
    using refresh_sel(4) [of e ch t] unfolding refreshes_def by (auto simp: e counters_def)
qed

lemma coords_set:
  "i < length H \<Longrightarrow> bursts h = ev @ bursts (H ! i) \<Longrightarrow>
     coords (H[i := h]) = mset (map (\<lambda>(pl, w). (pl_k pl, w)) ev) + coords H"
  by (induction H arbitrary: i) (auto simp: coords_def nth_Cons ac_simps split: nat.splits)

lemma sent_size: "sent D e \<Longrightarrow> size D = st_bursts (e_st e)"
proof -
  assume "sent D e"
  then obtain H where H: "hist_of e H" "coords H = image_mset (\<lambda>(a, w). (decode e a, w)) D" by (auto simp: sent_def)
  have "size (coords H) = sum_list (map (\<lambda>h. length (bursts h)) H)" by (induction H) (simp_all add: coords_def)
  then show ?thesis using H by (simp add: hist_of_def)
qed

lemma sent_tracked: "sent D e \<Longrightarrow> tracked e"
  by (auto simp: sent_def tracked_def)

lemma sent_frame: "hist_of e' = hist_of e \<Longrightarrow> decode e' = decode e \<Longrightarrow> sent D e' = sent D e"
  by (simp add: sent_def)

lemma refresh_sent:
  assumes "core e" and "sent D e" and "nat ch < length (e_chan e)"
  shows "sent D (refresh ch t e)"
proof -
  obtain H where H: "hist_of e H" "coords H = image_mset (\<lambda>(a, w). (decode e a, w)) D" using assms(2) by (auto simp: sent_def)
  obtain rs where rs: "same_frame e (refresh ch t e)" "hist_of (refresh ch t e) (H[nat ch := map Ref rs @ H ! nat ch])"
    using refresh_refreshes [OF assms(1) H(1) assms(3)] by (auto simp: refreshes_def)
  have "coords (H[nat ch := map Ref rs @ H ! nat ch]) = coords H"
    using coords_set [of "nat ch" H "map Ref rs @ H ! nat ch" "[]"] H(1) assms(3) by (simp add: hist_of_def)
  then show ?thesis using rs H(2) same_frame_decode [OF rs(1)] by (auto simp: sent_def)
qed

section \<open>Bursts\<close>

lemma settle_refreshes:
  assumes "settle ch t addr w pl e = Some r"
  shows "pl = plan e t addr w \<longrightarrow> core e \<longrightarrow> hist_of e H \<longrightarrow> ch = k_ch (decode e addr) \<longrightarrow>
    refreshes ch H e (snd r) \<and> fst r = plan (snd r) t addr w
    \<and> (0 < p_tREFI (e_p e) \<longrightarrow> pl_col (fst r) < c_next_refresh (chan_at (snd r) ch))"
proof (rule settle.raw_induct [OF _ assms, where P = "\<lambda>ch t addr w pl e r. \<forall>H. pl = plan e t addr w \<longrightarrow> core e \<longrightarrow> hist_of e H \<longrightarrow>
    ch = k_ch (decode e addr) \<longrightarrow> refreshes ch H e (snd r) \<and> fst r = plan (snd r) t addr w
    \<and> (0 < p_tREFI (e_p e) \<longrightarrow> pl_col (fst r) < c_next_refresh (chan_at (snd r) ch))", THEN spec], goal_cases)
  case (1 settle' ch t addr w pl e r)
  note IH = 1(1) and eq = 1(2)
  show ?case
  proof (intro allI impI)
    fix H
    assume a: "pl = plan e t addr w" "core e" "hist_of e H" "ch = k_ch (decode e addr)"
    have len: "nat ch < length H" using core_chan [OF a(2), of addr] a(3,4) by (simp add: hist_of_def)
    show "refreshes ch H e (snd r) \<and> fst r = plan (snd r) t addr w
      \<and> (0 < p_tREFI (e_p e) \<longrightarrow> pl_col (fst r) < c_next_refresh (chan_at (snd r) ch))"
    proof (cases "0 < p_tREFI (e_p e) \<and> c_next_refresh (chan_at e ch) \<le> pl_col pl")
      case True
      let ?e = "refresh ch (pl_col pl) e"
      have s: "refreshes ch H e ?e" using refresh_refreshes [OF a(2,3)] core_chan [OF a(2)] a(4) by simp
      then have c: "core ?e" "ch = k_ch (decode ?e addr)" "e_p ?e = e_p e"
        using core_same_frame [OF _ a(2)] a(4) by (auto simp: refreshes_def same_frame_def)
      have "settle' ch t addr w (plan ?e t addr w) ?e = Some r" using eq True by (simp add: Let_def)
      note ih = IH [OF this, rule_format, OF refl c(1) _ c(2), unfolded c(3)]
      have "refreshes ch H e (snd r)" by (rule refreshes_trans [OF s _ len]) (use ih in blast)
      moreover obtain H' where "hist_of ?e H'" using s by (auto simp: refreshes_def)
      ultimately show ?thesis using ih by blast
    next
      case False
      then have "r = (pl, e)" using eq by (auto split: if_splits)
      then show ?thesis using False a refreshes_refl by auto
    qed
  qed
qed

text \<open>What a burst does to everything but its channel.\<close>

definition bursts_by :: "nat \<Rightarrow> eng \<Rightarrow> eng \<Rightarrow> bool" where
  "bursts_by n e e' \<longleftrightarrow> same_frame e e' \<and> tracked e' \<and> e_wq e' = e_wq e \<and> e_leaving e' = e_leaving e
     \<and> counters e' = counters e \<and> st_bursts (e_st e') = st_bursts (e_st e) + n"

lemma plan_col_after:
  assumes "sane_timing p" and "0 \<le> k_row k"
  shows "t \<le> pl_col (plan_in p bp c k t w)"
proof -
  define b where "b = c_banks c ! bank_of p k"
  have d: "0 \<le> p_tRCD p" "0 \<le> p_tRP p" using assms(1) by (simp_all add: sane_timing_def)
  have a: "m \<le> row_act p c k m" for m using row_act_spec [of m p c k] by blast
  define m1 where "m1 = max (max t (max (b_act b + p_tRAS p) (b_pre_ok b)) + p_tRP p) (max (b_act_ok b) (b_act b + p_tRC p))"
  define m2 where "m2 = max t (max (b_act_ok b) (b_act b + p_tRC p))"
  have m: "t \<le> row_act p c k m1" "t \<le> row_act p c k m2"
    using a [of m1] a [of m2] d unfolding m1_def m2_def by linarith+
  have "snd (snd (snd (plan_row p c k b t))) = max t (b_act b + p_tRCD p)
      \<or> snd (snd (snd (plan_row p c k b t))) = row_act p c k m1 + p_tRCD p
      \<or> snd (snd (snd (plan_row p c k b t))) = row_act p c k m2 + p_tRCD p"
    unfolding plan_row_form Let_def m1_def m2_def by simp
  then have "t \<le> snd (snd (snd (plan_row p c k b t)))" using m d by auto
  then show ?thesis using plan_in_spec(4) [OF assms(2) refl b_def, where bp = bp and t = t and w = w] by linarith
qed

lemma burst_hist:
  assumes "core e" and H: "hist_of e H"
  shows "\<exists>pl rs e'. burst arrive addr w e = Some (pl_end pl, e') \<and> bursts_by 1 e e'
    \<and> pl_k pl = decode e addr \<and> arrive \<le> pl_col pl \<and> nat (k_ch (pl_k pl)) < length H
    \<and> hist_of e' (H[nat (k_ch (pl_k pl)) := Bst pl w # map Ref rs @ H ! nat (k_ch (pl_k pl))])"
proof -
  let ?k = "decode e addr"
  let ?ch = "k_ch ?k"
  define t where "t = max arrive (c_order (chan_at e ?ch))"
  let ?e = "refresh ?ch t e"
  note ch = core_chan [OF assms(1), of addr]
  have len: "nat ?ch < length H" using ch H by (simp add: hist_of_def)
  have r1: "refreshes ?ch H e ?e" by (rule refresh_refreshes [OF assms ch])
  then obtain H1 where c1: "core ?e" "hist_of ?e H1" "same_frame e ?e"
    using core_same_frame [OF _ assms(1)] by (auto simp: refreshes_def)
  have "sane_timing (e_p ?e)" using c1(1) by (simp add: core_def)
  moreover have "tracked ?e" using c1(2) by (auto simp: tracked_def)
  ultimately obtain pl e2 where s: "settle ?ch t addr w (plan ?e t addr w) ?e = Some (pl, e2)"
    using settle_returns [OF _ core_shape [OF c1(1)], of ?ch addr t w] by (auto simp: refresh_sel)
  note sr = settle_refreshes [OF s, rule_format, OF refl c1(1), unfolded refresh_decode fst_conv snd_conv refresh_sel(1), OF _ refl]
  have r2: "pl = plan e2 t addr w" "0 < p_tREFI (e_p e) \<longrightarrow> pl_col pl < c_next_refresh (chan_at e2 ?ch)"
    using sr [OF c1(2)] by auto
  have r: "refreshes ?ch H e e2" by (rule refreshes_trans [OF r1 _ len]) (use sr in blast)
  then obtain rs where rs: "hist_of e2 (H[nat ?ch := map Ref rs @ H ! nat ?ch])" and f: "same_frame e e2"
    by (auto simp: refreshes_def)
  have f': "e_p e2 = e_p e" "e_burst_ps e2 = e_burst_ps e" "decode e2 addr = ?k"
    using f same_frame_decode [OF f] by (simp_all add: same_frame_def)
  have pl: "pl = plan_in (e_p e) (e_burst_ps e) (chan_at e2 ?ch) ?k t w" by (simp add: r2(1) plan_def f' Let_def)
  have ord: "c_order (chan_at e2 ?ch) \<le> t" using r by (simp add: refreshes_def t_def)
  have in_r: "in_range (e_p e) ?k" using assms(1) by (simp add: core_def)
  have ch2: "nat ?ch < length (e_chan e2)" using ch f by (simp add: same_frame_def)
  have h: "chan_hist (e_p e) (e_burst_ps e) (chan_at e2 ?ch) (map Ref rs @ H ! nat ?ch)"
    using rs ch2 len by (auto simp: hist_of_def chan_at_def f')
  note h' = chan_hist.bst [OF h in_r pl ord r2(2)]
  have plk: "pl_k pl = ?k" by (simp add: pl)
  let ?e' = "commit pl w e2"
  have st: "st_bursts (commit_stats b pl s) = st_bursts s + 1" "st_refreshes (commit_stats b pl s) = st_refreshes s"
      "st_reads (commit_stats b pl s) = st_reads s" "st_writes (commit_stats b pl s) = st_writes s"
      "st_forwarded (commit_stats b pl s) = st_forwarded s" "st_merged (commit_stats b pl s) = st_merged s" for b s
    by (simp_all add: commit_stats_def Let_def)
  have "hist_of ?e' ((H[nat ?ch := map Ref rs @ H ! nat ?ch])[nat ?ch := Bst pl w # map Ref rs @ H ! nat ?ch])"
    by (rule hist_of_set [OF rs ch2 _ _ _ h'[folded f'(1,2)], where m = 1 and n = 0])
      (simp_all add: commit_def st plk f' set_chan_def len)
  then have hist: "hist_of ?e' (H[nat ?ch := Bst pl w # map Ref rs @ H ! nat ?ch])" by simp
  then have "bursts_by 1 e ?e'"
    using r by (auto simp: bursts_by_def refreshes_def tracked_def)
      (simp_all add: commit_def same_frame_def counters_def st set_chan_def)
  moreover have "burst arrive addr w e = Some (pl_end pl, ?e')"
    unfolding burst_def Let_def t_def [symmetric] s by simp
  moreover have "arrive \<le> pl_col pl"
  proof -
    have row: "0 \<le> k_row ?k" using in_r by (simp add: in_range_def)
    have "arrive \<le> t" by (simp add: t_def)
    also have "t \<le> pl_col pl" unfolding pl using assms(1) row by (intro plan_col_after) (simp_all add: core_def)
    finally show ?thesis .
  qed
  ultimately show ?thesis using hist len plk by (intro exI [of _ pl] exI [of _ rs] exI [of _ ?e']) simp
qed

lemma burst_spec:
  assumes "core e" and "tracked e"
  shows "\<exists>d e'. burst arrive addr w e = Some (d, e') \<and> bursts_by 1 e e' \<and> (\<forall>D. sent D e \<longrightarrow> sent (add_mset (addr, w) D) e')"
proof -
  obtain H where "hist_of e H" using assms(2) by (auto simp: tracked_def)
  from burst_hist [OF assms(1) this, of arrive addr w] obtain d e' where b: "burst arrive addr w e = Some (d, e')" "bursts_by 1 e e'"
    by blast
  have "sent (add_mset (addr, w) D) e'" if "sent D e" for D
  proof -
    obtain H where H: "hist_of e H" "coords H = image_mset (\<lambda>(a, w). (decode e a, w)) D" using \<open>sent D e\<close> by (auto simp: sent_def)
    obtain pl rs where p: "pl_k pl = decode e addr" "nat (k_ch (pl_k pl)) < length H"
      "hist_of e' (H[nat (k_ch (pl_k pl)) := Bst pl w # map Ref rs @ H ! nat (k_ch (pl_k pl))])"
      using burst_hist [OF assms(1) H(1), of arrive addr w] b(1) by auto
    have "coords (H[nat (k_ch (pl_k pl)) := Bst pl w # map Ref rs @ H ! nat (k_ch (pl_k pl))]) = add_mset (decode e addr, w) (coords H)"
      using coords_set [OF p(2), of "Bst pl w # map Ref rs @ H ! nat (k_ch (pl_k pl))" "[(pl, w)]"] p(1) by simp
    moreover have "decode e' = decode e" using b(2) same_frame_decode [of e e'] by (auto simp: bursts_by_def fun_eq_iff)
    ultimately show ?thesis using p(3) H(2) by (auto simp: sent_def)
  qed
  then show ?thesis using b by blast
qed

section \<open>The queue\<close>

text \<open>Queued writes sent to the DRAM: the oldest \<open>n\<close> have left \<open>e_wq\<close>, each as one burst.\<close>

definition writes_of :: "(int \<times> u64) list \<Rightarrow> (u64 \<times> bool) multiset" where
  "writes_of q = mset (map (\<lambda>(t, a). (a, True)) q)"

lemma writes_of_simps [simp]:
  "writes_of [] = {#}" "writes_of (x # q) = add_mset (snd x, True) (writes_of q)" "writes_of (q @ q') = writes_of q + writes_of q'"
  by (auto simp: writes_of_def split: prod.splits)

definition sends :: "eng \<Rightarrow> eng \<Rightarrow> bool" where
  "sends e e' \<longleftrightarrow> same_frame e e' \<and> tracked e' \<and> counters e' = counters e
     \<and> (\<exists>n. e_wq e' = drop n (e_wq e) \<and> (\<forall>D. sent D e \<longrightarrow> sent (D + writes_of (take n (e_wq e))) e'))"

lemma sends_refl: "tracked e \<Longrightarrow> sends e e"
  by (auto simp: sends_def intro: exI [of _ 0])

lemma sends_trans:
  assumes "sends e e'" and "sends e' e''"
  shows "sends e e''"
proof -
  obtain n where n: "e_wq e' = drop n (e_wq e)" "\<forall>D. sent D e \<longrightarrow> sent (D + writes_of (take n (e_wq e))) e'"
    using assms(1) by (auto simp: sends_def)
  obtain m where m: "e_wq e'' = drop m (e_wq e')" "\<forall>D. sent D e' \<longrightarrow> sent (D + writes_of (take m (e_wq e'))) e''"
    using assms(2) by (auto simp: sends_def)
  have "e_wq e'' = drop (n + m) (e_wq e)" using n(1) m(1) by (simp add: add.commute)
  moreover have "take (n + m) (e_wq e) = take n (e_wq e) @ take m (e_wq e')" using n(1) by (simp add: take_add)
  ultimately show ?thesis
    using assms same_frame_trans [of e e' e''] n(2) m(2) by (auto simp: sends_def add.assoc intro!: exI [of _ "n + m"])
qed

lemma sends_core: "sends e e' \<Longrightarrow> core e \<Longrightarrow> core e' \<and> tracked e'"
  using core_same_frame by (auto simp: sends_def)

lemma refresh_sends:
  assumes "core e" and "tracked e" and "nat ch < length (e_chan e)"
  shows "sends e (refresh ch t e)" and "e_wq (refresh ch t e) = e_wq e" and "e_leaving (refresh ch t e) = e_leaving e"
proof -
  obtain H where H: "hist_of e H" using assms(2) by (auto simp: tracked_def)
  have "same_frame e (refresh ch t e) \<and> tracked (refresh ch t e) \<and> counters (refresh ch t e) = counters e"
    and q: "e_wq (refresh ch t e) = e_wq e \<and> e_leaving (refresh ch t e) = e_leaving e"
    using refresh_refreshes [OF assms(1) H assms(3), of t] by (auto simp: refreshes_def tracked_def)
  then show "sends e (refresh ch t e)" "e_wq (refresh ch t e) = e_wq e" "e_leaving (refresh ch t e) = e_leaving e"
    using refresh_sent [OF assms(1) _ assms(3)] by (auto simp: sends_def intro!: exI [of _ 0])
qed

lemma hist_of_queue:
  "hist_of (e\<lparr>e_wq := q\<rparr>) = hist_of e" "hist_of (e\<lparr>e_leaving := l\<rparr>) = hist_of e" "decode (e\<lparr>e_wq := q\<rparr>) = decode e"
  "decode (e\<lparr>e_leaving := l\<rparr>) = decode e" "hist_of (e\<lparr>e_st := (e_st e)\<lparr>st_merged := n\<rparr>\<rparr>) = hist_of e"
  "hist_of (e\<lparr>e_st := (e_st e)\<lparr>st_forwarded := n\<rparr>\<rparr>) = hist_of e" "hist_of (e\<lparr>e_st := (e_st e)\<lparr>st_reads := n\<rparr>\<rparr>) = hist_of e"
  "hist_of (e\<lparr>e_st := (e_st e)\<lparr>st_writes := n\<rparr>\<rparr>) = hist_of e" "decode (e\<lparr>e_st := st\<rparr>) = decode e"
  by (simp_all add: hist_of_def decode_def fun_eq_iff)

lemma sent_queue [simp]:
  "sent D (e\<lparr>e_wq := q\<rparr>) = sent D e" "sent D (e\<lparr>e_leaving := l\<rparr>) = sent D e"
  "sent D (e\<lparr>e_st := (e_st e)\<lparr>st_merged := n\<rparr>\<rparr>) = sent D e" "sent D (e\<lparr>e_st := (e_st e)\<lparr>st_forwarded := n\<rparr>\<rparr>) = sent D e"
  "sent D (e\<lparr>e_st := (e_st e)\<lparr>st_reads := n\<rparr>\<rparr>) = sent D e" "sent D (e\<lparr>e_st := (e_st e)\<lparr>st_writes := n\<rparr>\<rparr>) = sent D e"
  by (rule sent_frame; simp add: hist_of_queue)+

lemma sends_leaving: "sends e e' \<Longrightarrow> sends e (e'\<lparr>e_leaving := l\<rparr>)"
  by (auto simp: sends_def same_frame_def tracked_def hist_of_queue counters_def)

text \<open>How many slots are taken.\<close>

definition slots :: "eng \<Rightarrow> nat" where
  "slots e = length (e_wq e) + length (e_leaving e)"

lemma issue_oldest_spec:
  assumes "core e" and "tracked e" and "e_wq e \<noteq> []"
  shows "\<exists>e'. issue_oldest t e = Some e' \<and> sends e e' \<and> length (e_wq e') + 1 = length (e_wq e) \<and> slots e' = slots e
    \<and> e_leaving e' \<noteq> []"
proof -
  obtain arrive addr q where q: "e_wq e = (arrive, addr) # q" using assms(3) by (cases "e_wq e") auto
  let ?e = "e\<lparr>e_wq := q\<rparr>"
  have "core ?e" "tracked ?e"
    using assms(1,2) by (simp_all add: core_def decode_def tracked_def hist_of_def)
  from burst_spec [OF this, of "max t arrive" addr True] obtain d e' where
    b: "burst (max t arrive) addr True ?e = Some (d, e')" "bursts_by 1 ?e e'" "\<forall>D. sent D e \<longrightarrow> sent (add_mset (addr, True) D) e'" by auto
  have i: "issue_oldest t e = Some (e'\<lparr>e_leaving := e_leaving e' @ [d]\<rparr>)"
    using b(1) q by (simp add: issue_oldest_def)
  have "sends e e'"
    using b(2,3) q by (auto simp: bursts_by_def sends_def same_frame_def counters_def intro: exI [of _ 1])
  then show ?thesis using i b(2) q sends_leaving by (auto simp: bursts_by_def slots_def)
qed

lemma drain_idle_spec:
  assumes "core e" and "tracked e"
  shows "\<exists>e'. drain_idle t e = Some e' \<and> sends e e' \<and> slots e' = slots e"
  using assms
proof (induction "length (e_wq e)" arbitrary: e rule: less_induct)
  case less
  show ?case
  proof (cases "e_wq e")
    case Nil
    then show ?thesis using less.prems sends_refl by (subst drain_idle.simps) auto
  next
    case (Cons q qs)
    obtain arrive addr where q: "q = (arrive, addr)" by (cases q)
    let ?ch = "k_ch (decode e addr)"
    define start where "start = max arrive (c_order (chan_at e ?ch))"
    let ?e = "refresh ?ch start e"
    note rs = refresh_sends [OF less.prems core_chan [OF less.prems(1)], of addr start]
    then have w: "sends e ?e" "e_wq ?e = e_wq e" "slots ?e = slots e" "core ?e" "tracked ?e"
      using sends_core [OF rs(1) less.prems(1)] by (auto simp: slots_def)
    obtain e1 where i: "issue_oldest start ?e = Some e1" "sends ?e e1" "length (e_wq e1) + 1 = length (e_wq e)" "slots e1 = slots e"
      using issue_oldest_spec [OF w(4,5), of start] Cons w by auto
    have "core e1" "tracked e1" using sends_core [OF i(2) w(4)] by auto
    with less.hyps [of e1] i(3) obtain e2 where e2: "drain_idle t e1 = Some e2" "sends e1 e2" "slots e2 = slots e1" by auto
    have "drain_idle t e = (if t \<le> start then Some e else if t \<le> pl_col (plan ?e start addr True) then Some ?e else Some e2)"
      using Cons i(1) e2(1) by (subst drain_idle.simps) (simp add: q start_def Let_def)
    then show ?thesis
      using w(1,3) e2 i sends_refl [OF less.prems(2)] sends_trans [OF w(1) sends_trans [OF i(2) e2(2)]] by auto
  qed
qed

lemma wait_slot_spec:
  assumes "core e" and "tracked e" and "0 < p_wq_depth (e_p e)"
  shows "\<exists>t' e'. wait_slot t e = Some (t', e') \<and> sends e e' \<and> int (slots e') < p_wq_depth (e_p e) \<and> t \<le> t'"
  using assms
proof (induction "slots e" arbitrary: e t rule: less_induct)
  case less
  show ?case
  proof (cases "p_wq_depth (e_p e) \<le> int (slots e)")
    case False
    then have "wait_slot t e = Some (t, e)" by (subst wait_slot.simps) (simp add: slots_def)
    then show ?thesis using False sends_refl [OF less.prems(2)] by auto
  next
    case True
    have "\<exists>e1. (if e_leaving e = [] then issue_oldest t e else Some e) = Some e1 \<and> sends e e1 \<and> slots e1 = slots e \<and> e_leaving e1 \<noteq> []"
    proof (cases "e_leaving e = []")
      case nil: True
      then have "e_wq e \<noteq> []" using True less.prems(3) by (auto simp: slots_def)
      then show ?thesis using issue_oldest_spec [OF less.prems(1,2), of t] nil by auto
    qed (use sends_refl [OF less.prems(2)] in auto)
    then obtain e1 where i: "(if e_leaving e = [] then issue_oldest t e else Some e) = Some e1" "sends e e1"
        "slots e1 = slots e" "e_leaving e1 \<noteq> []" by blast
    let ?e = "e1\<lparr>e_leaving := tl (e_leaving e1)\<rparr>"
    have s: "sends e ?e" by (rule sends_leaving [OF i(2)])
    have "slots ?e < slots e" using i(3,4) by (cases "e_leaving e1") (auto simp: slots_def)
    moreover have "e_p ?e = e_p e" using i(2) by (simp add: sends_def same_frame_def)
    ultimately obtain t' e' where w: "wait_slot (max t (hd (e_leaving e1))) ?e = Some (t', e')" "sends ?e e'"
        "int (slots e') < p_wq_depth (e_p e)" "max t (hd (e_leaving e1)) \<le> t'"
      using less.hyps [of ?e "max t (hd (e_leaving e1))"] sends_core [OF s less.prems(1)] less.prems(3) by auto
    have "wait_slot t e = Some (t', e')"
      using True i(1) w(1) by (subst wait_slot.simps) (auto simp: slots_def)
    then show ?thesis using w sends_trans [OF s w(2)] by auto
  qed
qed

lemma drain_batch_spec:
  assumes "core e" and "tracked e" and "0 < p_wq_low (e_p e)"
  shows "\<exists>e'. drain_batch t e = Some e' \<and> sends e e' \<and> slots e' = slots e \<and> int (length (e_wq e')) < p_wq_low (e_p e)"
  using assms
proof (induction "length (e_wq e)" arbitrary: e rule: less_induct)
  case less
  show ?case
  proof (cases "p_wq_low (e_p e) \<le> int (length (e_wq e))")
    case False
    then have "drain_batch t e = Some e" by (subst drain_batch.simps) simp
    then show ?thesis using False sends_refl [OF less.prems(2)] by auto
  next
    case True
    then have "e_wq e \<noteq> []" using less.prems(3) by auto
    from issue_oldest_spec [OF less.prems(1,2) this, of t] obtain e1 where i: "issue_oldest t e = Some e1" "sends e e1"
        "length (e_wq e1) + 1 = length (e_wq e)" "slots e1 = slots e" by blast
    have "e_p e1 = e_p e" using i(2) by (simp add: sends_def same_frame_def)
    then obtain e' where e': "drain_batch t e1 = Some e'" "sends e1 e'" "slots e' = slots e1" "int (length (e_wq e')) < p_wq_low (e_p e)"
      using less.hyps [of e1] i(3) sends_core [OF i(2) less.prems(1)] less.prems(3) by auto
    have "drain_batch t e = Some e'" using True i(1) e'(1) by (subst drain_batch.simps) simp
    then show ?thesis using e' i sends_trans [OF i(2) e'(2)] by auto
  qed
qed


section \<open>One burst of an access\<close>

text \<open>Within its size, and no burst queued twice.\<close>

definition queue_ok :: "eng \<Rightarrow> bool" where
  "queue_ok e \<longleftrightarrow> (if p_wq_depth (e_p e) = 0 then e_wq e = []
     else distinct (map snd (e_wq e)) \<and> int (slots e) \<le> p_wq_depth (e_p e) \<and> int (length (e_wq e)) \<le> p_wq_high (e_p e))"

text \<open>
  The account of the bursts \<open>A\<close> asked for, addresses and directions: each was sent to the DRAM (\<open>D\<close>,
  what the histories hold), is queued, was answered from the queue (\<open>F\<close>) or was merged into it
  (\<open>M\<close>); and an address forwarded from or merged into is one with a write queued or sent.
\<close>

definition ledger :: "eng \<Rightarrow> (u64 \<times> bool) multiset \<Rightarrow> bool" where
  "ledger e A \<longleftrightarrow> (\<exists>D F M. sent D e
     \<and> A = D + writes_of (e_wq e) + image_mset (\<lambda>a. (a, False)) F + image_mset (\<lambda>a. (a, True)) M
     \<and> size F = st_forwarded (e_st e) \<and> size M = st_merged (e_st e)
     \<and> (\<forall>a\<in>#F + M. (a, True) \<in># D + writes_of (e_wq e)))"

definition good :: "eng \<Rightarrow> bool" where
  "good e \<longleftrightarrow> core e \<and> tracked e \<and> queue_ok e"

text \<open>The bursts \<open>X\<close> of one access done.\<close>

definition serves :: "(u64 \<times> bool) multiset \<Rightarrow> eng \<Rightarrow> eng \<Rightarrow> bool" where
  "serves X e e' \<longleftrightarrow> same_frame e e' \<and> good e' \<and> (\<forall>A. ledger e A \<longrightarrow> ledger e' (X + A))
     \<and> st_reads (e_st e') = st_reads (e_st e) \<and> st_writes (e_st e') = st_writes (e_st e)"

lemma serves_trans: "serves X e e' \<Longrightarrow> serves Y e' e'' \<Longrightarrow> serves (X + Y) e e''"
  unfolding serves_def using same_frame_trans by (auto simp: ac_simps)

lemma sends_ledger:
  assumes "sends e e'" and "ledger e A"
  shows "ledger e' A"
proof -
  obtain n where n: "e_wq e' = drop n (e_wq e)" "\<forall>D. sent D e \<longrightarrow> sent (D + writes_of (take n (e_wq e))) e'"
    and c: "counters e' = counters e" using assms(1) by (auto simp: sends_def)
  obtain D F M where l: "sent D e" "A = D + writes_of (e_wq e) + image_mset (\<lambda>a. (a, False)) F + image_mset (\<lambda>a. (a, True)) M"
     "size F = st_forwarded (e_st e)" "size M = st_merged (e_st e)" "\<forall>a\<in>#F + M. (a, True) \<in># D + writes_of (e_wq e)"
    using assms(2) by (auto simp: ledger_def)
  have q: "writes_of (e_wq e) = writes_of (take n (e_wq e)) + writes_of (e_wq e')"
    using writes_of_simps(3) [of "take n (e_wq e)" "drop n (e_wq e)"] by (simp add: n(1))
  have "sent (D + writes_of (take n (e_wq e))) e'" using n(2) l(1) by blast
  moreover have "A = D + writes_of (take n (e_wq e)) + writes_of (e_wq e') + image_mset (\<lambda>a. (a, False)) F + image_mset (\<lambda>a. (a, True)) M"
    using l(2) q by (simp add: ac_simps)
  moreover have "\<forall>a\<in>#F + M. (a, True) \<in># D + writes_of (take n (e_wq e)) + writes_of (e_wq e')"
    using l(5) q by (simp add: ac_simps)
  ultimately show ?thesis using l(3,4) c unfolding ledger_def counters_def
    by (intro exI [of _ "D + writes_of (take n (e_wq e))"] exI [of _ F] exI [of _ M]) simp
qed

lemma ledger_burst:
  assumes "bursts_by 1 e e'" and "\<forall>D. sent D e \<longrightarrow> sent (add_mset x D) e'" and "ledger e A"
  shows "ledger e' (add_mset x A)"
proof -
  obtain D F M where l: "sent D e" "A = D + writes_of (e_wq e) + image_mset (\<lambda>a. (a, False)) F + image_mset (\<lambda>a. (a, True)) M"
     "size F = st_forwarded (e_st e)" "size M = st_merged (e_st e)" "\<forall>a\<in>#F + M. (a, True) \<in># D + writes_of (e_wq e)"
    using assms(3) by (auto simp: ledger_def)
  have "e_wq e' = e_wq e" "counters e' = counters e" using assms(1) by (simp_all add: bursts_by_def)
  then show ?thesis using assms(2) l unfolding ledger_def counters_def
    by (intro exI [of _ "add_mset x D"] exI [of _ F] exI [of _ M]) auto
qed

lemma ledger_push:
  assumes "ledger e A"
  shows "ledger (e\<lparr>e_wq := e_wq e @ [(t, a)]\<rparr>) (add_mset (a, True) A)"
proof -
  obtain D F M where l: "sent D e" "A = D + writes_of (e_wq e) + image_mset (\<lambda>a. (a, False)) F + image_mset (\<lambda>a. (a, True)) M"
     "size F = st_forwarded (e_st e)" "size M = st_merged (e_st e)" "\<forall>a\<in>#F + M. (a, True) \<in># D + writes_of (e_wq e)"
    using assms by (auto simp: ledger_def)
  then show ?thesis unfolding ledger_def by (intro exI [of _ D] exI [of _ F] exI [of _ M]) auto
qed

lemma ledger_merge:
  assumes "ledger e A" and "(a, True) \<in># writes_of (e_wq e)"
  shows "ledger (e\<lparr>e_st := (e_st e)\<lparr>st_merged := st_merged (e_st e) + 1\<rparr>\<rparr>) (add_mset (a, True) A)"
    and "ledger (e\<lparr>e_st := (e_st e)\<lparr>st_forwarded := st_forwarded (e_st e) + 1\<rparr>\<rparr>) (add_mset (a, False) A)"
proof -
  obtain D F M where l: "sent D e" "A = D + writes_of (e_wq e) + image_mset (\<lambda>a. (a, False)) F + image_mset (\<lambda>a. (a, True)) M"
     "size F = st_forwarded (e_st e)" "size M = st_merged (e_st e)" "\<forall>a\<in>#F + M. (a, True) \<in># D + writes_of (e_wq e)"
    using assms(1) by (auto simp: ledger_def)
  show "ledger (e\<lparr>e_st := (e_st e)\<lparr>st_merged := st_merged (e_st e) + 1\<rparr>\<rparr>) (add_mset (a, True) A)"
    unfolding ledger_def by (intro exI [of _ D] exI [of _ F] exI [of _ "add_mset a M"]) (use l assms(2) in auto)
  show "ledger (e\<lparr>e_st := (e_st e)\<lparr>st_forwarded := st_forwarded (e_st e) + 1\<rparr>\<rparr>) (add_mset (a, False) A)"
    unfolding ledger_def by (intro exI [of _ D] exI [of _ "add_mset a F"] exI [of _ M]) (use l assms(2) in auto)
qed

lemma drop_queue:
  assumes "sends e e'" and "distinct (map snd (e_wq e))"
  shows "distinct (map snd (e_wq e'))" and "set (e_wq e') \<subseteq> set (e_wq e)" and "length (e_wq e') \<le> length (e_wq e)"
  using assms by (auto simp: sends_def drop_map [symmetric] dest: in_set_dropD)

lemma queued_spec:
  assumes "good e" and "0 < p_wq_depth (e_p e)"
  shows "\<exists>d e'. queued arrive addr w e = Some (d, e') \<and> serves {#(addr, w)#} e e'"
proof -
  let ?p = "e_p e"
  have g: "core e" "tracked e" "distinct (map snd (e_wq e))" "int (slots e) \<le> p_wq_depth ?p" "int (length (e_wq e)) \<le> p_wq_high ?p"
    using assms by (auto simp: good_def queue_ok_def)
  have wq: "0 < p_wq_low ?p" "p_wq_low ?p \<le> p_wq_high ?p" using g(1) assms(2) by (auto simp: core_def wq_ok_def)
  obtain e1 where d: "drain_idle arrive e = Some e1" "sends e e1" "slots e1 = slots e"
    using drain_idle_spec [OF g(1,2)] by blast
  have c1: "core e1" "tracked e1" and p1: "e_p e1 = ?p" using sends_core [OF d(2) g(1)] d(2) by (auto simp: sends_def same_frame_def)
  note q1 = drop_queue [OF d(2) g(3)]
  have k1: "queue_ok e1" using q1 d(3) g(4,5) assms(2) by (simp add: queue_ok_def p1)
  have s1: "serves {#} e e1" using d(2) c1 k1 sends_ledger [OF d(2)] by (auto simp: serves_def good_def sends_def counters_def)
  have bump: "serves {#(addr, True)#} e1 (e1\<lparr>e_st := (e_st e1)\<lparr>st_merged := st_merged (e_st e1) + 1\<rparr>\<rparr>)"
    "serves {#(addr, False)#} e1 (e1\<lparr>e_st := (e_st e1)\<lparr>st_forwarded := st_forwarded (e_st e1) + 1\<rparr>\<rparr>)"
    if "list_ex (\<lambda>q. snd q = addr) (e_wq e1)"
  proof -
    have "(addr, True) \<in># writes_of (e_wq e1)" using that by (auto simp: list_ex_iff writes_of_def intro!: rev_image_eqI)
    then show "serves {#(addr, True)#} e1 (e1\<lparr>e_st := (e_st e1)\<lparr>st_merged := st_merged (e_st e1) + 1\<rparr>\<rparr>)"
      "serves {#(addr, False)#} e1 (e1\<lparr>e_st := (e_st e1)\<lparr>st_forwarded := st_forwarded (e_st e1) + 1\<rparr>\<rparr>)"
      using c1 k1 ledger_merge [of e1 _ addr]
      by (auto simp: serves_def good_def same_frame_def core_def tracked_def hist_of_queue queue_ok_def slots_def)
  qed
  show ?thesis
  proof (cases "list_ex (\<lambda>q. snd q = addr) (e_wq e1)")
    case True
    then show ?thesis using d(1) serves_trans [OF s1 bump(1)] serves_trans [OF s1 bump(2)]
      by (cases w) (simp_all add: queued_def)
  next
    case fresh: False
    show ?thesis
    proof (cases w)
      case False
      obtain x e' where b: "burst arrive addr False e1 = Some (x, e')" "bursts_by 1 e1 e'"
          "\<forall>D. sent D e1 \<longrightarrow> sent (add_mset (addr, False) D) e'"
        using burst_spec [OF c1, of arrive addr False] by blast
      have "serves {#(addr, w)#} e1 e'"
        using b(2) k1 core_same_frame [OF _ c1(1), of e'] ledger_burst [OF b(2,3)] False
        by (auto simp: serves_def good_def bursts_by_def counters_def queue_ok_def slots_def same_frame_def)
      then show ?thesis using d(1) b(1) fresh False serves_trans [OF s1, of "{#(addr, w)#}" e'] by (simp add: queued_def)
    next
      case True
      let ?r = "retire arrive e1"
      have sr: "sends e1 ?r" unfolding retire_def by (rule sends_leaving [OF sends_refl [OF c1(2)]])
      have cr: "core ?r" "tracked ?r" using sends_core [OF sr c1(1)] by auto
      obtain t e2 where t: "wait_slot arrive ?r = Some (t, e2)" "sends ?r e2" "int (slots e2) < p_wq_depth ?p"
        using wait_slot_spec [OF cr, of arrive] assms(2) p1 by (auto simp: retire_def)
      have s12: "sends e1 e2" by (rule sends_trans [OF sr t(2)])
      have c2: "core e2" "tracked e2" and p2: "e_p e2 = ?p" using sends_core [OF s12 c1(1)] s12 p1 by (auto simp: sends_def same_frame_def)
      note q2 = drop_queue [OF s12 q1(1)]
      let ?e3 = "e2\<lparr>e_wq := e_wq e2 @ [(t, addr)]\<rparr>"
      have new: "addr \<notin> snd ` set (e_wq e2)" using fresh q2(2) by (auto simp: list_ex_iff)
      have c3: "core ?e3" "tracked ?e3" using c2 by (simp_all add: core_def decode_def tracked_def hist_of_def)
      have k3: "distinct (map snd (e_wq ?e3))" "int (slots ?e3) \<le> p_wq_depth ?p"
        using q2(1) new t(3) by (simp_all add: slots_def)
      have "\<exists>e4. (if p_wq_high ?p < int (length (e_wq ?e3)) then drain_batch t ?e3 else Some ?e3) = Some e4
          \<and> sends ?e3 e4 \<and> slots e4 = slots ?e3 \<and> int (length (e_wq e4)) \<le> p_wq_high ?p"
        using drain_batch_spec [OF c3, of t] wq p2 sends_refl [OF c3(2)] by fastforce
      then obtain e4 where e4: "(if p_wq_high ?p < int (length (e_wq ?e3)) then drain_batch t ?e3 else Some ?e3) = Some e4"
          "sends ?e3 e4" "slots e4 = slots ?e3" "int (length (e_wq e4)) \<le> p_wq_high ?p" by blast
      have "core e4" "tracked e4" and p4: "e_p e4 = ?p" using sends_core [OF e4(2) c3(1)] e4(2) p2 by (auto simp: sends_def same_frame_def)
      moreover have "queue_ok e4" using drop_queue(1) [OF e4(2) k3(1)] e4(3,4) k3(2) assms(2) by (simp add: queue_ok_def p4)
      moreover have "same_frame e1 e4" using s12 e4(2) by (auto simp: sends_def same_frame_def)
      moreover have "st_reads (e_st e4) = st_reads (e_st e1) \<and> st_writes (e_st e4) = st_writes (e_st e1)"
        using s12 e4(2) by (auto simp: sends_def counters_def)
      moreover have "ledger e4 (add_mset (addr, True) A)" if "ledger e1 A" for A
        by (rule sends_ledger [OF e4(2) ledger_push [OF sends_ledger [OF s12 that]]])
      ultimately have "serves {#(addr, w)#} e1 e4" using True by (simp add: serves_def good_def)
      then have "serves {#(addr, w)#} e e4" using serves_trans [OF s1] by fastforce
      moreover have "queued arrive addr w e = Some (t, e4)"
        using d(1) fresh True t(1) e4(1) by (simp add: queued_def p2 Let_def)
      ultimately show ?thesis by blast
    qed
  qed
qed

lemma one_burst_spec:
  assumes "good e"
  shows "\<exists>d e'. (if 0 < p_wq_depth (e_p e) then queued arrive addr w e else burst arrive addr w e) = Some (d, e') \<and> serves {#(addr, w)#} e e'"
proof (cases "0 < p_wq_depth (e_p e)")
  case True
  then show ?thesis using queued_spec [OF assms, of arrive addr w] by simp
next
  case False
  have c: "core e" "tracked e" "queue_ok e" using assms by (auto simp: good_def)
  then have z: "p_wq_depth (e_p e) = 0" using False by (auto simp: core_def wq_ok_def)
  obtain d e' where b: "burst arrive addr w e = Some (d, e')" "bursts_by 1 e e'" "\<forall>D. sent D e \<longrightarrow> sent (add_mset (addr, w) D) e'"
    using burst_spec [OF c(1,2), of arrive addr w] by blast
  have "serves {#(addr, w)#} e e'"
    using b(2) c z core_same_frame [OF _ c(1), of e'] ledger_burst [OF b(2,3)]
    by (auto simp: serves_def good_def bursts_by_def counters_def queue_ok_def same_frame_def)
  then show ?thesis using b(1) False by simp
qed


section \<open>Accesses\<close>

text \<open>The burst addresses the loop goes through.\<close>

definition loop_addrs :: "nat \<Rightarrow> u64 \<Rightarrow> u64 \<Rightarrow> u64 list" where
  "loop_addrs bb a last_a = map (\<lambda>i. a + of_nat (i * bb)) [0..<(unat last_a - unat a + bb - 1) div bb]"

text \<open>The access ends far enough below the top of the address space that the loop counter does not wrap.\<close>

definition below_top :: "eng \<Rightarrow> u64 \<Rightarrow> u64 \<Rightarrow> bool" where
  "below_top e addr sz \<longleftrightarrow> 0 < e_burst_bytes e
     \<and> unat (last_byte (e_align e) addr (if sz = 0 then 1 else sz)) + nat (e_burst_bytes e) < 2 ^ 64"

lemma serves_refl: "good e \<Longrightarrow> serves {#} e e"
  by (simp add: serves_def)

lemma loop_addrs_Cons:
  assumes "0 < bb" and "unat a < unat last_a" and a: "unat a' = unat a + bb" "a' = a + of_nat bb"
  shows "loop_addrs bb a last_a = a # loop_addrs bb a' last_a"
proof -
  have "(unat last_a - unat a + bb - 1) div bb = Suc ((unat last_a - unat a' + bb - 1) div bb)"
  proof -
    define m where "m = unat last_a - unat a - 1"
    have m: "unat last_a - unat a = m + 1" using assms(2) by (simp add: m_def)
    have "(unat last_a - unat a' + bb - 1) div bb = m div bb"
    proof (cases "bb \<le> m")
      case True
      then have "unat last_a - unat a' + bb - 1 = m" using m a(1) assms(1) by simp
      then show ?thesis by simp
    next
      case False
      then have "unat last_a - unat a' = 0" using m a(1) by simp
      then show ?thesis using False assms(1) by simp
    qed
    moreover have "(m + 1 + bb - 1) div bb = 1 + m div bb" using assms(1) div_add_self2 [of bb m] by simp
    ultimately show ?thesis by (simp add: m)
  qed
  then show ?thesis
    by (simp only: loop_addrs_def map_upt_Suc) (simp add: a(2) algebra_simps)
qed

lemma access_bursts_spec:
  assumes "good e" and "0 < e_burst_bytes e" and "unat last_a + nat (e_burst_bytes e) < 2 ^ 64"
  shows "\<exists>d e'. access_bursts arrive w a last_a acc e = Some (d, e') \<and> acc \<le> d
    \<and> serves (mset (map (\<lambda>a. (a, w)) (loop_addrs (nat (e_burst_bytes e)) a last_a))) e e'"
  using assms
proof (induction "unat last_a - unat a" arbitrary: a acc e rule: less_induct)
  case less
  let ?bb = "nat (e_burst_bytes e)"
  show ?case
  proof (cases "a < last_a")
    case False
    then have "access_bursts arrive w a last_a acc e = Some (acc, e)" by (subst access_bursts.simps) simp
    moreover have "unat last_a - unat a = 0" using False by (simp add: word_less_nat_alt not_less)
    then have "loop_addrs ?bb a last_a = []" using less.prems(2) by (simp add: loop_addrs_def)
    ultimately show ?thesis using serves_refl [OF less.prems(1)] by simp
  next
    case True
    obtain d e1 where d: "(if 0 < p_wq_depth (e_p e) then queued arrive a w e else burst arrive a w e) = Some (d, e1)"
        "serves {#(a, w)#} e e1"
      using one_burst_spec [OF less.prems(1)] by blast
    let ?a = "a + word_of_int (e_burst_bytes e)"
    have bb: "e_burst_bytes e1 = e_burst_bytes e" and g: "good e1" using d(2) by (auto simp: serves_def same_frame_def)
    have lt: "unat a < unat last_a" using True by (simp add: word_less_nat_alt)
    have "unat (word_of_int (e_burst_bytes e) :: u64) = ?bb"
      using less.prems(2,3) by (simp add: unsigned_of_int take_bit_int_eq_self nat_take_bit_eq)
    then have a: "unat ?a = unat a + ?bb" using lt less.prems(3) by (simp add: unat_word_ariths)
    have a': "?a = a + of_nat ?bb" using less.prems(2) by simp
    have "unat last_a - unat ?a < unat last_a - unat a" using lt less.prems(2) a by simp
    from less.hyps [OF this g, of "max acc d"] less.prems(2,3) obtain x e2 where
      x: "access_bursts arrive w ?a last_a (max acc d) e1 = Some (x, e2)" "max acc d \<le> x"
        "serves (mset (map (\<lambda>a. (a, w)) (loop_addrs ?bb ?a last_a))) e1 e2" by (auto simp: bb)
    have "access_bursts arrive w a last_a acc e = Some (x, e2)"
      using True d(1) x(1) by (subst access_bursts.simps) (simp add: bb)
    moreover have "loop_addrs ?bb a last_a = a # loop_addrs ?bb ?a last_a"
      by (rule loop_addrs_Cons [OF _ lt a a']) (use less.prems(2) in simp)
    ultimately show ?thesis using x(2) serves_trans [OF d(2) x(3)] by auto
  qed
qed

lemma access_spec:
  assumes "good e" and "below_top e addr sz"
  shows "\<exists>d e'. access now addr sz w e = Some (d, e') \<and> now + p_ctrl_ps (e_p e) \<le> d \<and> same_frame e e' \<and> good e'
    \<and> (\<forall>A. ledger e A \<longrightarrow> ledger e' (mset (map (\<lambda>a. (a, w)) (loop_addrs (nat (e_burst_bytes e)) (first_byte (e_align e) addr)
          (last_byte (e_align e) addr (if sz = 0 then 1 else sz)))) + A))
    \<and> st_reads (e_st e') = st_reads (e_st e) + (if w then 0 else 1) \<and> st_writes (e_st e') = st_writes (e_st e) + (if w then 1 else 0)"
proof -
  define e1 where "e1 = (if w then e\<lparr>e_st := (e_st e)\<lparr>st_writes := st_writes (e_st e) + 1\<rparr>\<rparr>
               else e\<lparr>e_st := (e_st e)\<lparr>st_reads := st_reads (e_st e) + 1\<rparr>\<rparr>)"
  let ?sz = "if sz = 0 then 1 else sz"
  let ?X = "mset (map (\<lambda>a. (a, w)) (loop_addrs (nat (e_burst_bytes e)) (first_byte (e_align e) addr) (last_byte (e_align e) addr ?sz)))"
  have f: "same_frame e e1" "st_reads (e_st e1) = st_reads (e_st e) + (if w then 0 else 1)"
    "st_writes (e_st e1) = st_writes (e_st e) + (if w then 1 else 0)" "\<And>A. ledger e A \<Longrightarrow> ledger e1 A"
    by (auto simp: e1_def same_frame_def ledger_def)
  have g: "good e1" using assms(1) f(1) core_same_frame [OF f(1)]
    by (auto simp: good_def tracked_def hist_of_def queue_ok_def slots_def same_frame_def) (auto simp: e1_def)
  have h: "\<not> e_hyperram e1" using g by (simp add: good_def core_def)
  have fr: "e_burst_bytes e1 = e_burst_bytes e" "e_align e1 = e_align e" "e_p e1 = e_p e" using f(1) by (simp_all add: same_frame_def)
  obtain d e' where d: "access_bursts (now + p_ctrl_ps (e_p e1) sdiv 2) w (first_byte (e_align e1) addr)
        (last_byte (e_align e1) addr ?sz) (now + p_ctrl_ps (e_p e1) sdiv 2) e1 = Some (d, e')"
      "now + p_ctrl_ps (e_p e1) sdiv 2 \<le> d" "serves ?X e1 e'"
    using access_bursts_spec [OF g, of "last_byte (e_align e1) addr ?sz" "now + p_ctrl_ps (e_p e1) sdiv 2" w
        "first_byte (e_align e1) addr" "now + p_ctrl_ps (e_p e1) sdiv 2"] assms(2)
    unfolding fr by (auto simp: below_top_def)
  have "access now addr sz w e = Some (d + (p_ctrl_ps (e_p e1) - p_ctrl_ps (e_p e1) sdiv 2), e')"
    unfolding access_def Let_def e1_def [symmetric] using h d(1) by simp
  then show ?thesis using d(2,3) f(2-4) fr same_frame_trans [OF f(1)] by (auto simp: serves_def)
qed

section \<open>The bursts asked for\<close>

text \<open>
  Bytes are fetched and written in whole granules of \<open>e_align\<close> bytes: the blocks of a burst's size that
  hold a byte of the granules from that of the first byte asked for to that of the last.
\<close>

definition burst_addrs :: "eng \<Rightarrow> u64 \<Rightarrow> u64 \<Rightarrow> u64 list" where
  "burst_addrs e addr sz =
     (let g = nat (e_align e); bb = nat (e_burst_bytes e); n = (if sz = 0 then 1 else unat sz);
          lo = unat addr div g * g; hi = (unat addr + n - 1) div g * g + (g - 1)
      in map (\<lambda>i. of_nat (i * bb)) [lo div bb..<hi div bb + 1])"

text \<open>The access ends below the top of the address space.\<close>

definition in_space :: "eng \<Rightarrow> u64 \<Rightarrow> u64 \<Rightarrow> bool" where
  "in_space e addr sz \<longleftrightarrow> unat addr + unat sz + nat (e_align e) + nat (e_burst_bytes e) < 2 ^ 64"

lemma unat_and_not_mask: "unat ((x :: u64) AND NOT (mask k)) = unat x div 2 ^ k * 2 ^ k"
proof -
  have "x AND NOT (mask k) = push_bit k (drop_bit k x)"
    by (rule bit_word_eqI) (auto simp: bit_simps)
  moreover have "unat (drop_bit k x) = unat x div 2 ^ k"
  proof -
    have "unat (drop_bit k x) = drop_bit k (take_bit LENGTH(64) (unat x))" by (rule unsigned_drop_bit_eq)
    also have "take_bit LENGTH(64) (unat x) = unat x" by (rule take_bit_nat_eq_self) (rule unsigned_less)
    finally show ?thesis by (simp only: drop_bit_eq_div)
  qed
  moreover have "unat x div 2 ^ k * 2 ^ k < 2 ^ 64"
    by (rule le_less_trans [OF div_times_less_eq_dividend]) (use unsigned_less [of x, where ?'a = nat] in simp)
  moreover have "unat (push_bit k (drop_bit k x)) = take_bit 64 (unat (drop_bit k x) * 2 ^ k)"
  proof -
    have "unat (push_bit k (drop_bit k x)) = take_bit LENGTH(64) (push_bit k (unat (drop_bit k x)))" by (rule unsigned_push_bit_eq)
    then show ?thesis by (simp only: push_bit_eq_mult) simp
  qed
  ultimately show ?thesis by (simp only: take_bit_nat_eq_self)
qed

lemma granule_bytes:
  assumes "e_align e = 2 ^ k" and "in_space e addr sz"
  shows "unat (first_byte (e_align e) addr) = unat addr div nat (e_align e) * nat (e_align e)"
    and "unat (last_byte (e_align e) addr (if sz = 0 then 1 else sz))
      = (unat addr + (if sz = 0 then 1 else unat sz) - 1) div nat (e_align e) * nat (e_align e) + (nat (e_align e) - 1)"
proof -
  have g: "nat (e_align e) = 2 ^ k" "word_of_int (e_align e - 1) = (mask k :: u64)"
    by (simp_all add: assms(1) mask_eq_exp_minus_1 nat_power_eq)
  show "unat (first_byte (e_align e) addr) = unat addr div nat (e_align e) * nat (e_align e)"
    unfolding first_byte_def g by (rule unat_and_not_mask)
  let ?n = "if sz = 0 then 1 else unat sz"
  let ?y = "addr + (if sz = 0 then 1 else sz) - 1"
  have sp: "unat addr + unat sz + 2 ^ k + nat (e_burst_bytes e) < 2 ^ 64" using assms(2) by (simp add: in_space_def g)
  have y: "unat ?y = unat addr + ?n - 1"
  proof (cases "sz = 0")
    case False
    then have "0 < unat sz" by (simp add: unat_gt_0)
    then have "unat (addr + sz) = unat addr + unat sz" using sp by (simp add: unat_word_ariths)
    then show ?thesis using False \<open>0 < unat sz\<close> by (simp add: unat_sub word_le_nat_alt)
  qed simp
  let ?z = "?y AND NOT (mask k)"
  have z: "unat ?z = (unat addr + ?n - 1) div 2 ^ k * 2 ^ k" by (simp only: unat_and_not_mask y)
  have "last_byte (e_align e) addr (if sz = 0 then 1 else sz) = ?z + mask k"
    unfolding last_byte_def g by (subst disjunctive_add) (auto simp: bit_simps intro!: bit_word_eqI)
  moreover have "unat ?z \<le> unat addr + unat sz" unfolding z
    by (rule order_trans [OF div_times_less_eq_dividend]) auto
  moreover have "unat (mask k :: u64) = 2 ^ k - 1" proof -
    have k: "(2 :: nat) ^ k < 2 ^ 64" using sp by linarith
    have "unat (mask k :: u64) = unat (of_nat (mask k) :: u64)" by (simp only: of_nat_mask_eq)
    also have "\<dots> = take_bit 64 (mask k)" by (simp only: unsigned_of_nat) simp
    also have "\<dots> = 2 ^ k - 1" using k by (simp add: take_bit_nat_eq_self mask_eq_exp_minus_1)
    finally show ?thesis .
  qed
  ultimately show "unat (last_byte (e_align e) addr (if sz = 0 then 1 else sz))
      = (unat addr + ?n - 1) div nat (e_align e) * nat (e_align e) + (nat (e_align e) - 1)"
    using sp z by (simp add: unat_word_ariths g)
qed

lemma loop_addrs_blocks:
  assumes al: "e_align e = 2 ^ k" and bb: "e_burst_bytes e = 2 ^ j" "2 \<le> e_burst_bytes e" "e_burst_bytes e \<le> e_align e"
    and sp: "in_space e addr sz"
  shows "loop_addrs (nat (e_burst_bytes e)) (first_byte (e_align e) addr) (last_byte (e_align e) addr (if sz = 0 then 1 else sz))
      = burst_addrs e addr sz" and "below_top e addr sz"
proof -
  let ?g = "nat (e_align e)" and ?b = "nat (e_burst_bytes e)" and ?n = "if sz = 0 then 1 else unat sz"
  let ?first = "first_byte (e_align e) addr" and ?last = "last_byte (e_align e) addr (if sz = 0 then 1 else sz)"
  note gb = granule_bytes [OF al sp]
  define c1 where "c1 = unat addr div ?g"
  define c2 where "c2 = (unat addr + ?n - 1) div ?g + 1"
  have "j \<le> k" using bb(1,3) al by simp
  then obtain q where q: "?g = ?b * q" using al bb(1) by (metis dvd_def le_imp_power_dvd nat_power_eq zero_le_numeral nat_numeral)
  have b2: "2 \<le> ?b" using bb(2) by simp
  have g0: "0 < ?g" using al by simp
  then have q0: "0 < q" using q by (cases q) auto
  have "0 < ?n" by (auto simp: unat_gt_0)
  then have "c1 \<le> (unat addr + ?n - 1) div ?g" unfolding c1_def by (intro div_le_mono) linarith
  then have c12: "c1 < c2" by (simp add: c2_def)
  have lo: "unat ?first = ?b * (q * c1)" using gb(1) q by (simp add: c1_def ac_simps)
  have hi: "unat ?last + 1 = ?b * (q * c2)" using gb(2) q g0 by (simp add: c2_def algebra_simps)
  have le: "q * c1 \<le> q * c2" using c12 by simp
  have m0: "0 < ?b * (q * c2)" using b2 q0 c12 by simp
  have eq: "unat ?last - unat ?first + ?b - 1 = ?b * (q * c2 - q * c1) + (?b - 2)"
  proof -
    have "?b * (q * c2 - q * c1) = ?b * (q * c2) - ?b * (q * c1)" by (simp add: diff_mult_distrib2)
    moreover have "?b * (q * c1) < ?b * (q * c2)" using b2 q0 c12 by simp
    ultimately show ?thesis using lo hi b2 by linarith
  qed
  have cnt: "(unat ?last - unat ?first + ?b - 1) div ?b = q * c2 - q * c1"
    unfolding eq using b2 by (subst div_mult_self4) auto
  have hd: "unat ?last div ?b + 1 = q * c2"
  proof -
    have "unat ?last = ?b * (q * c2 - 1) + (?b - 1)" 
    proof -
      obtain m where m: "q * c2 = Suc m" using q0 c12 by (cases "q * c2") auto
      show ?thesis using hi b2 unfolding m by simp
    qed
    then have "unat ?last div ?b = q * c2 - 1" using b2 by (simp only: div_mult_self4) auto
    moreover have "0 < q * c2" using q0 c12 by simp
    ultimately show ?thesis by simp
  qed
  have ld: "unat ?first div ?b = q * c1" using lo b2 by simp
  have "of_nat (unat ?first) = ?first" by simp
  then have f: "?first = of_nat (?b * (q * c1))" by (simp only: lo)
  have "burst_addrs e addr sz = map (\<lambda>i. of_nat (i * ?b)) [q * c1..<q * c2]"
    unfolding burst_addrs_def Let_def gb [symmetric] hd ld ..
  also have "[q * c1..<q * c2] = map (\<lambda>i. i + q * c1) [0..<q * c2 - q * c1]" using le by (simp add: map_add_upt)
  finally show "loop_addrs ?b ?first ?last = burst_addrs e addr sz"
    unfolding loop_addrs_def cnt by (simp add: f algebra_simps)
  have "(unat addr + ?n - 1) div ?g * ?g \<le> unat addr + unat sz" by (rule order_trans [OF div_times_less_eq_dividend]) auto
  then have "unat ?last + ?b < 2 ^ 64" using gb(2) sp g0 unfolding in_space_def by linarith
  then show "below_top e addr sz" using bb(2) by (simp add: below_top_def)
qed

text \<open>A run of requests, each its arrival, address, size and direction; the completion times.\<close>

fun accesses :: "(int \<times> u64 \<times> u64 \<times> bool) list \<Rightarrow> eng \<Rightarrow> (int list \<times> eng) option" where
  "accesses [] e = Some ([], e)"
| "accesses ((now, addr, sz, w) # rs) e = do {
     (d, e) \<leftarrow> access now addr sz w e;
     (ds, e) \<leftarrow> accesses rs e;
     Some (d # ds, e)
   }"

text \<open>The bursts a run of requests goes through.\<close>

definition loop_bursts :: "eng \<Rightarrow> (int \<times> u64 \<times> u64 \<times> bool) list \<Rightarrow> (u64 \<times> bool) list" where
  "loop_bursts e rs = concat (map (\<lambda>(now, addr, sz, w). map (\<lambda>a. (a, w)) (loop_addrs (nat (e_burst_bytes e)) (first_byte (e_align e) addr)
     (last_byte (e_align e) addr (if sz = 0 then 1 else sz)))) rs)"

lemma accesses_spec:
  assumes "good e" and "\<forall>(now, addr, sz, w)\<in>set rs. below_top e addr sz"
  shows "\<exists>ds e'. accesses rs e = Some (ds, e') \<and> list_all2 (\<lambda>(now, _) d. now + p_ctrl_ps (e_p e) \<le> d) rs ds
    \<and> same_frame e e' \<and> good e' \<and> (\<forall>A. ledger e A \<longrightarrow> ledger e' (mset (loop_bursts e rs) + A))
    \<and> st_reads (e_st e') + st_writes (e_st e') = st_reads (e_st e) + st_writes (e_st e) + length rs"
  using assms
proof (induction rs arbitrary: e)
  case Nil
  then show ?case by (simp add: loop_bursts_def)
next
  case (Cons r rs)
  obtain now addr sz w where r: "r = (now, addr, sz, w)" by (cases r) auto
  then have "below_top e addr sz" using Cons.prems(2) by simp
  from access_spec [OF Cons.prems(1) this, of now w] obtain d e1 where
    d: "access now addr sz w e = Some (d, e1)" "now + p_ctrl_ps (e_p e) \<le> d" "same_frame e e1" "good e1"
      "\<forall>A. ledger e A \<longrightarrow> ledger e1 (mset (loop_bursts e [r]) + A)"
      "st_reads (e_st e1) + st_writes (e_st e1) = st_reads (e_st e) + st_writes (e_st e) + 1"
    by (auto simp: r loop_bursts_def)
  have b: "below_top e1 = below_top e" "loop_bursts e1 = loop_bursts e" "e_p e1 = e_p e"
    using d(3) by (auto simp: below_top_def loop_bursts_def same_frame_def fun_eq_iff)
  have "\<forall>(now, addr, sz, w)\<in>set rs. below_top e1 addr sz" using Cons.prems(2) by (simp add: b)
  from Cons.IH [OF d(4) this] obtain ds e' where
    e': "accesses rs e1 = Some (ds, e')" "list_all2 (\<lambda>(now, _) d. now + p_ctrl_ps (e_p e) \<le> d) rs ds"
      "same_frame e1 e'" "good e'" "\<forall>A. ledger e1 A \<longrightarrow> ledger e' (mset (loop_bursts e rs) + A)"
      "st_reads (e_st e') + st_writes (e_st e') = st_reads (e_st e1) + st_writes (e_st e1) + length rs"
    by (auto simp: b)
  have "loop_bursts e (r # rs) = loop_bursts e [r] @ loop_bursts e rs" by (simp add: loop_bursts_def)
  then have "mset (loop_bursts e (r # rs)) + A = mset (loop_bursts e rs) + (mset (loop_bursts e [r]) + A)" for A by (simp add: ac_simps)
  then show ?case using d e' same_frame_trans [OF d(3) e'(3)] by (simp add: r add.assoc)
qed

lemma built_good:
  assumes "built_dram p e" and "sane_timing p" and "0 \<le> e_burst_ps e"
  shows "good e \<and> hist_of e (replicate (nat (p_channels p)) []) \<and> ledger e {#}"
proof -
  note b = built_dram_facts [OF assms(1)]
  have "in_range (e_p e) (decode e a)" for a using b mapped_in_range by blast
  then have c: "core e" using b assms(2,3) by (simp add: core_def)
  have "0 \<le> p_wq_high p" if "p_wq_depth p \<noteq> 0" using b that by (auto simp: wq_ok_def)
  moreover have "0 \<le> p_wq_depth p" using b by (auto simp: wq_ok_def)
  ultimately have q: "queue_ok e" using b by (auto simp: queue_ok_def slots_def)
  have "hist_of e (replicate (nat (p_channels p)) [])"
    using b chan_hist.new [of p "e_burst_ps e"] by (simp add: hist_of_def no_stats_def map_replicate_const sum_list_replicate)
  moreover have "sum_list (replicate n {#}) = ({#} :: (coord \<times> bool) multiset)" for n by (induction n) simp_all
  ultimately have h: "hist_of e (replicate (nat (p_channels p)) [])" and "sent {#} e"
    by (auto simp: sent_def coords_def intro!: exI [of _ "replicate (nat (p_channels p)) []"])
  then have "ledger e {#}" using b by (auto simp: ledger_def no_stats_def intro!: exI [of _ "{#}"])
  then show ?thesis using c q h by (auto simp: good_def tracked_def)
qed




section \<open>On a device\<close>

lemma test_eng_good:
  shows "good test_eng" and "sane_timing test_params" and "0 \<le> e_burst_ps test_eng" and "e_p test_eng = test_params"
    and "hist_of test_eng [[]]"
proof -
  show t: "sane_timing test_params" by (simp add: sane_timing_def test_params_def default_params_def)
  show b: "0 \<le> e_burst_ps test_eng" by code_simp
  show "e_p test_eng = test_params" using built_dram_facts [OF test_eng_built] by blast
  have "p_channels test_params = 1" by (simp add: test_params_def default_params_def)
  then show "good test_eng" "hist_of test_eng [[]]" using built_good [OF test_eng_built t b] by simp_all
qed




section \<open>What the summary forgets\<close>

text \<open>
  The engine compares a command with the latest column command and the latest activation of
  the channel only, and so does \<open>enforced\<close>. Two cases where a rule about an earlier command is the
  stricter one: with the timings of the \<open>lpddr5\<close> preset, writing a line (two bursts, bank
  groups 0 and 1) and then reading from bank group 0, the read comes \<open>tWTR_S\<close> after the second
  write but less than \<open>tWTR_L\<close> after the first, which was to its own bank group;
\<close>

definition lpddr5 :: params where
  "lpddr5 = default_params\<lparr>p_ctrl_ps := 0, p_bankgroups := 4, p_banks := 4, p_rows := 32768, p_mtps := 6400,
     p_mapping := ''RoBaCoBg'', p_tCK := 1250, p_tRCD := 18750, p_tRP := 18750, p_tRPab := 21250, p_tRAS := 42500,
     p_tRC := 61250, p_tRL := 22500, p_tWL := 12500, p_tRRD_S := 5000, p_tRRD_L := 5000, p_tFAW := 20000, p_tCCD_S := 2500,
     p_tCCD_L := 5000, p_tWTR_S := 5000, p_tWTR_L := 13750, p_tRTW := 15000, p_tRTW_L := 17500, p_tWR := 35000, p_tRTP := 7500\<rparr>"

text \<open>Bursts on one channel, each at the time the one before was planned for, and their plans.\<close>

fun plans :: "params \<Rightarrow> int \<Rightarrow> channel \<Rightarrow> (coord \<times> bool) list \<Rightarrow> plan list" where
  "plans p bp c [] = []"
| "plans p bp c ((k, w) # ks) =
     (let pl = plan_in p bp c k (c_order c) w in pl # plans p bp (commit_chan p pl w c) ks)"

definition at_group :: "int \<Rightarrow> int \<Rightarrow> coord" where
  "at_group bg col = \<lparr>k_ch = 0, k_ra = 0, k_bg = bg, k_ba = 0, k_row = 0, k_col = col\<rparr>"

lemma write_to_read_same_group_missed:
  "\<exists>first second third. plans lpddr5 2500 (fresh_channel lpddr5) [(at_group 0 0, True), (at_group 1 0, True), (at_group 0 1, False)]
      = [first, second, third] \<and> pl_end second + p_tWTR_S lpddr5 = pl_col third \<and> pl_col third < pl_end first + p_tWTR_L lpddr5"
proof -
  have "map (\<lambda>pl. (pl_col pl, pl_end pl))
      (plans lpddr5 2500 (fresh_channel lpddr5) [(at_group 0 0, True), (at_group 1 0, True), (at_group 0 1, False)])
      = [(18750, 33750), (23750, 38750), (43750, 68750)]" by code_simp
  then show ?thesis by (auto simp: map_eq_Cons_conv lpddr5_def)
qed

text \<open>and with two ranks, an activation of the other rank in between hides \<open>tRRD\<close>: two banks of rank 0 are activated at once.\<close>

definition two_ranks :: params where
  "two_ranks = default_params\<lparr>p_ranks := 2, p_banks := 2, p_tRCD := 18000, p_tRL := 20000, p_tRC := 60000,
     p_tRRD_S := 10000, p_tRRD_L := 10000, p_tFAW := 40000, p_tCCD_S := 5000, p_tCCD_L := 5000\<rparr>"

definition at_bank :: "int \<Rightarrow> int \<Rightarrow> coord" where
  "at_bank ra ba = \<lparr>k_ch = 0, k_ra = ra, k_bg = 0, k_ba = ba, k_row = 0, k_col = 0\<rparr>"

lemma activation_spacing_missed:
  "map pl_act (plans two_ranks 5000 (fresh_channel two_ranks) [(at_bank 0 0, False), (at_bank 1 0, False), (at_bank 0 1, False)])
    = [0, 0, 0]"
  by code_simp

text \<open>
  With bursts of one byte, which the constructor accepts, the loop's end is the last byte itself, and no
  burst is asked for it: nothing at all for an access to one granule of one byte.
\<close>

lemma last_byte_of_one_byte_bursts_lost:
  "loop_addrs 1 (first_byte 1 addr) (last_byte 1 addr 1) = []"
  by (simp add: loop_addrs_def first_byte_def last_byte_def)

end
