(* ===== verification/DramDevice.thy ===== *)
theory DramDevice
  imports DramEngine
begin

text \<open>
  The memory as a device: the HyperBus family of \<open>dram_core.hpp\<close>, the contract both families
  keep, and the request handler of \<open>targets/hetero/dram.cpp\<close>, which turns a completion time into
  a latency in clock cycles.
\<close>

section \<open>HyperBus transfers\<close>

definition ceil_div :: "int \<Rightarrow> int \<Rightarrow> int" where
  "ceil_div a b = (a + b - 1) sdiv b"

lemma ceil_div_pos: "0 < a \<Longrightarrow> 0 < b \<Longrightarrow> ceil_div a b = (a - 1) div b + 1"
proof -
  assume "0 < a" "0 < b"
  then have "ceil_div a b = (a - 1 + b) div b" by (simp add: ceil_div_def sdiv_nonneg algebra_simps)
  then show ?thesis using \<open>0 < b\<close> div_add_self2 [of b "a - 1"] by simp
qed

lemma ceil_div_step:
  assumes "0 < c" and "c < a"
  shows "ceil_div a c = 1 + ceil_div (a - c) c"
proof -
  have "(a - 1) div c = (a - c - 1) div c + 1"
    using assms(1) div_add_self2 [of c "a - c - 1"] by simp
  then show ?thesis using assms by (simp add: ceil_div_pos)
qed

text \<open>Taking off whole clocks' worth of bytes takes off those clocks.\<close>

lemma ceil_div_chunk:
  assumes "0 < b" and "0 < m" and "m * b < a"
  shows "ceil_div a b = m + ceil_div (a - m * b) b"
proof -
  have "0 < m * b" using assms by simp
  then have "0 < a" using assms(3) by linarith
  moreover have "(a - 1) div b = (a - m * b - 1) div b + m"
    using assms(1) div_mult_self1 [of b "a - m * b - 1" m] by (simp add: algebra_simps)
  ultimately show ?thesis using assms by (simp add: ceil_div_pos)
qed

text \<open>
  The loop, in closed form: as many transfers as chunks, each with its overhead, the bytes' clocks
  in all, and the recovery time between transfers.
\<close>

lemma hyper_chunks_closed:
  assumes "0 < bpc" and "0 < m" and "0 < bytes"
  shows "hyper_chunks p bpc ov (m * bpc) bytes t fin s =
    Some (t + (ceil_div bytes (m * bpc) * ov + ceil_div bytes bpc) * p_hb_ck_ps p + (ceil_div bytes (m * bpc) - 1) * p_hb_rwr_ps p,
      s\<lparr>st_bursts := st_bursts s + nat (ceil_div bytes (m * bpc)), st_busy_ps := st_busy_ps s + ceil_div bytes bpc * p_hb_ck_ps p\<rparr>)"
  using assms(3)
proof (induction "nat bytes" arbitrary: bytes t fin s rule: less_induct)
  case less
  have mb: "0 < m * bpc" using assms by simp
  show ?case
  proof (cases "bytes \<le> m * bpc")
    case True
    then have one: "ceil_div bytes (m * bpc) = 1" using less.prems mb by (simp add: ceil_div_pos)
    have end0: "hyper_chunks p bpc ov (m * bpc) 0 t' f' s' = Some (f', s')" for t' f' s'
      by (subst hyper_chunks.simps) simp
    have "hyper_chunks p bpc ov (m * bpc) bytes t fin s
        = hyper_chunks p bpc ov (m * bpc) 0 (t + (ov + ceil_div bytes bpc) * p_hb_ck_ps p + p_hb_rwr_ps p)
            (t + (ov + ceil_div bytes bpc) * p_hb_ck_ps p)
            (s\<lparr>st_bursts := st_bursts s + 1, st_busy_ps := st_busy_ps s + ceil_div bytes bpc * p_hb_ck_ps p\<rparr>)"
      using less.prems True by (subst hyper_chunks.simps) (simp only: Let_def ceil_div_def min_absorb1 if_True diff_self)
    then show ?thesis by (simp only: end0 one) simp
  next
    case False
    let ?r = "bytes - m * bpc"
    have r: "0 < ?r" "nat ?r < nat bytes" using False mb by auto
    have c: "ceil_div bytes (m * bpc) = 1 + ceil_div ?r (m * bpc)" "ceil_div bytes bpc = m + ceil_div ?r bpc"
      using ceil_div_step [OF mb] ceil_div_chunk [OF assms(1,2)] False by simp_all
    have n: "0 \<le> ceil_div ?r (m * bpc)" using r(1) mb by (simp add: ceil_div_pos pos_imp_zdiv_nonneg_iff)
    have d: "ceil_div (m * bpc) bpc = m"
    proof -
      have "(m * bpc - 1) div bpc = m - 1"
        using assms(1) div_mult_self1 [of bpc "bpc - 1" "m - 1"] by (simp add: algebra_simps)
      then show ?thesis using mb assms(1) by (simp add: ceil_div_pos)
    qed
    let ?fin = "t + (ov + m) * p_hb_ck_ps p"
    have "hyper_chunks p bpc ov (m * bpc) bytes t fin s
        = hyper_chunks p bpc ov (m * bpc) ?r (?fin + p_hb_rwr_ps p) ?fin
            (s\<lparr>st_bursts := st_bursts s + 1, st_busy_ps := st_busy_ps s + m * p_hb_ck_ps p\<rparr>)"
      using less.prems False
      by (subst hyper_chunks.simps) (simp only: Let_def min_absorb2 [OF less_imp_le [OF False [unfolded not_le]]] if_True d [unfolded ceil_div_def])
    also note less.hyps [OF r(2,1)]
    finally show ?thesis unfolding c using n by (simp add: algebra_simps nat_add_distrib)
  qed
qed


text \<open>The constants of one access, and that it returns.\<close>

definition hb_bytes :: "params \<Rightarrow> u64 \<Rightarrow> u64 \<Rightarrow> int" where
  "hb_bytes p addr sz = sint (last_byte (p_granule p) addr sz - first_byte (p_granule p) addr + 1)"

definition hb_overhead :: "params \<Rightarrow> int" where
  "hb_overhead p = p_hb_ca_clks p + p_hb_lat_clks p * (if p_hb_fixed_2x p \<noteq> 0 then 2 else 1)"

text \<open>Clocks of data one transfer may take: what \<open>tCSM\<close> leaves after the overhead, and at least one.\<close>

definition hb_clks :: "params \<Rightarrow> int" where
  "hb_clks p = max 1 (p_hb_csm_ps p sdiv p_hb_ck_ps p - hb_overhead p)"

definition hyper_ok :: "eng \<Rightarrow> bool" where
  "hyper_ok e \<longleftrightarrow> e_hyperram e \<and> 0 < p_hb_ck_ps (e_p e) \<and> 0 < p_hb_bus_bytes (e_p e) \<and> 0 < p_granule (e_p e)
     \<and> 0 \<le> hb_overhead (e_p e) \<and> 0 \<le> p_hb_rwr_ps (e_p e)"

lemma hyper_access_returns:
  assumes "hyper_ok e"
  shows "\<exists>d e'. access now addr sz w e = Some (d, e') \<and> hyper_ok e' \<and> e_p e' = e_p e \<and> now + p_ctrl_ps (e_p e) \<le> d
    \<and> e_hb_free e + (p_ctrl_ps (e_p e) - p_ctrl_ps (e_p e) sdiv 2) \<le> d
    \<and> st_reads (e_st e') + st_writes (e_st e') = st_reads (e_st e) + st_writes (e_st e) + 1"
proof -
  let ?p = "e_p e" and ?sz = "if sz = 0 then 1 else sz"
  define e1 where "e1 = (if w then e\<lparr>e_st := (e_st e)\<lparr>st_writes := st_writes (e_st e) + 1\<rparr>\<rparr>
               else e\<lparr>e_st := (e_st e)\<lparr>st_reads := st_reads (e_st e) + 1\<rparr>\<rparr>)"
  have e1: "e_p e1 = ?p" "e_hb_free e1 = e_hb_free e" "e_hyperram e1" "hyper_ok e1"
    "st_reads (e_st e1) + st_writes (e_st e1) = st_reads (e_st e) + st_writes (e_st e) + 1"
    using assms by (auto simp: e1_def hyper_ok_def)
  let ?bpc = "2 * p_hb_bus_bytes ?p" and ?ov = "hb_overhead ?p" and ?bytes = "hb_bytes ?p addr ?sz"
  define t where "t = max (now + p_ctrl_ps ?p sdiv 2) (e_hb_free e)"
  have pos: "0 < ?bpc" "0 < hb_clks ?p" using assms by (simp_all add: hyper_ok_def hb_clks_def)
  have chunk: "max ?bpc ((p_hb_csm_ps ?p sdiv p_hb_ck_ps ?p - ?ov) * ?bpc) = hb_clks ?p * ?bpc"
  proof (cases "1 \<le> p_hb_csm_ps ?p sdiv p_hb_ck_ps ?p - ?ov")
    case True
    then have "1 * ?bpc \<le> (p_hb_csm_ps ?p sdiv p_hb_ck_ps ?p - ?ov) * ?bpc" using pos(1) by (intro mult_right_mono) auto
    then show ?thesis using True by (simp add: hb_clks_def)
  next
    case False
    then have "(p_hb_csm_ps ?p sdiv p_hb_ck_ps ?p - ?ov) * ?bpc \<le> 1 * ?bpc" using pos(1) by (intro mult_right_mono) auto
    then show ?thesis using False by (simp add: hb_clks_def)
  qed
  have "\<exists>fin s. hyper_chunks ?p ?bpc ?ov (hb_clks ?p * ?bpc) ?bytes t t (e_st e1) = Some (fin, s) \<and> t \<le> fin
      \<and> st_reads s = st_reads (e_st e1) \<and> st_writes s = st_writes (e_st e1)"
  proof (cases "0 < ?bytes")
    case True
    have "0 \<le> ceil_div ?bytes ?bpc" "1 \<le> ceil_div ?bytes (hb_clks ?p * ?bpc)"
      using True pos by (simp_all add: ceil_div_pos pos_imp_zdiv_nonneg_iff)
    then have "0 \<le> (ceil_div ?bytes (hb_clks ?p * ?bpc) * ?ov + ceil_div ?bytes ?bpc) * p_hb_ck_ps ?p"
      "0 \<le> (ceil_div ?bytes (hb_clks ?p * ?bpc) - 1) * p_hb_rwr_ps ?p"
      using assms by (auto simp: hyper_ok_def intro!: mult_nonneg_nonneg add_nonneg_nonneg)
    then show ?thesis using hyper_chunks_closed [OF pos True, of ?p ?ov t t "e_st e1"] by auto
  next
    case False
    then show ?thesis by (subst hyper_chunks.simps) simp
  qed
  then obtain fin s where f: "hyper_chunks ?p ?bpc ?ov (hb_clks ?p * ?bpc) ?bytes t t (e_st e1) = Some (fin, s)" "t \<le> fin"
      "st_reads s = st_reads (e_st e1)" "st_writes s = st_writes (e_st e1)" by blast
  let ?e = "e1\<lparr>e_st := s, e_hb_free := fin + p_hb_rwr_ps ?p\<rparr>"
  have "access now addr sz w e = access_hyperram now addr ?sz e1"
    unfolding access_def Let_def e1_def [symmetric] using e1(3) by simp
  also have "\<dots> = Some (fin + (p_ctrl_ps ?p - p_ctrl_ps ?p sdiv 2), ?e)"
    unfolding access_hyperram_def Let_def e1(1,2) t_def [symmetric] hb_overhead_def [symmetric] hb_bytes_def [symmetric] chunk f(1)
    by simp
  finally have "access now addr sz w e = Some (fin + (p_ctrl_ps ?p - p_ctrl_ps ?p sdiv 2), ?e)" .
  moreover have "hyper_ok ?e" using e1(1,4) by (simp add: hyper_ok_def)
  ultimately show ?thesis using f(2-4) e1(1,5) by (auto simp: t_def)
qed

lemma ceil_div_least:
  assumes "0 < b" and "0 \<le> a"
  shows "0 \<le> ceil_div a b" and "a \<le> ceil_div a b * b" and "ceil_div a b * b < a + b"
proof -
  have c: "ceil_div a b = (a + b - 1) div b" using assms by (simp add: ceil_div_def sdiv_nonneg)
  have "(a + b - 1) div b * b + (a + b - 1) mod b = a + b - 1" by (rule div_mult_mod_eq)
  moreover have "0 \<le> (a + b - 1) mod b" "(a + b - 1) mod b < b" using assms(1) by simp_all
  ultimately show "a \<le> ceil_div a b * b" "ceil_div a b * b < a + b" unfolding c by linarith+
  show "0 \<le> ceil_div a b" unfolding c using assms by (simp add: pos_imp_zdiv_nonneg_iff)
qed

section \<open>The contract of a memory device\<close>

text \<open>
  What \<open>dram.cpp\<close> relies on: a request that \<open>fits\<close> returns, with the device still in order, no
  earlier than \<open>delay\<close> after it arrived.
\<close>

locale memory_device =
  fixes step :: "int \<Rightarrow> u64 \<Rightarrow> u64 \<Rightarrow> bool \<Rightarrow> 'e \<Rightarrow> (int \<times> 'e) option"
    and ok :: "'e \<Rightarrow> bool"
    and fits :: "'e \<Rightarrow> u64 \<Rightarrow> u64 \<Rightarrow> bool"
    and delay :: "'e \<Rightarrow> int"
  assumes returns: "ok e \<Longrightarrow> fits e addr sz \<Longrightarrow> \<exists>d e'. step now addr sz w e = Some (d, e') \<and> ok e'
      \<and> now + delay e \<le> d \<and> delay e' = delay e \<and> fits e' = fits e"
begin

text \<open>Rounded up to whole cycles, an answer is in time and less than a cycle late.\<close>

lemma latency:
  assumes "ok e" and "fits e addr sz" and "0 < period" and "0 \<le> delay e"
  shows "\<exists>d e' l. step (cycles * period) addr sz w e = Some (d, e') \<and> ok e' \<and> delay e' = delay e \<and> fits e' = fits e
    \<and> l = (d - cycles * period + period - 1) sdiv period
    \<and> 0 \<le> l \<and> delay e \<le> l * period \<and> d \<le> (cycles + l) * period \<and> (cycles + l) * period < d + period"
proof -
  obtain d e' where d: "step (cycles * period) addr sz w e = Some (d, e')" "ok e'" "cycles * period + delay e \<le> d"
    "delay e' = delay e" "fits e' = fits e"
    using returns [OF assms(1,2), of "cycles * period" w] by blast
  let ?l = "ceil_div (d - cycles * period) period"
  have "0 \<le> d - cycles * period" using d(3) assms(4) by linarith
  note l = ceil_div_least [OF assms(3) this]
  have "d \<le> (cycles + ?l) * period" "(cycles + ?l) * period < d + period" "delay e \<le> ?l * period"
    using l(2,3) d(3) by (simp_all add: algebra_simps)
  moreover have "?l = (d - cycles * period + period - 1) sdiv period" by (simp add: ceil_div_def)
  ultimately show ?thesis using d l(1) by blast
qed

end

interpretation lpddr: memory_device access good below_top "\<lambda>e. p_ctrl_ps (e_p e)"
proof
  fix e addr sz now w
  assume "good e" "below_top e addr sz"
  from access_spec [OF this, of now w] obtain d e' where
    "access now addr sz w e = Some (d, e')" "now + p_ctrl_ps (e_p e) \<le> d" "same_frame e e'" "good e'" by blast
  then show "\<exists>d e'. access now addr sz w e = Some (d, e') \<and> good e' \<and> now + p_ctrl_ps (e_p e) \<le> d
      \<and> p_ctrl_ps (e_p e') = p_ctrl_ps (e_p e) \<and> below_top e' = below_top e"
    by (intro exI [of _ d] exI [of _ e']) (auto simp: same_frame_def below_top_def fun_eq_iff)
qed

interpretation hyper: memory_device access hyper_ok "\<lambda>_ _ _. True" "\<lambda>e. p_ctrl_ps (e_p e)"
proof
  fix e addr sz now w
  assume "hyper_ok e"
  from hyper_access_returns [OF this, of now addr sz w]
  show "\<exists>d e'. access now addr sz w e = Some (d, e') \<and> hyper_ok e' \<and> now + p_ctrl_ps (e_p e) \<le> d
      \<and> p_ctrl_ps (e_p e') = p_ctrl_ps (e_p e) \<and> (\<lambda>_ _. True) = (\<lambda>_ _. True)" by auto
qed

section \<open>The request handler\<close>

text \<open>
  \<open>Dram::req\<close>. What the memory behind it answers is an argument: accepted, invalid, or anything
  else (an asynchronous answer). A fatal error of the simulator is \<open>Inl\<close>.
\<close>

datatype io_status = IO_REQ_OK | IO_REQ_INVALID | IO_REQ_OTHER

record dram_dev =
  dd_engine :: eng
  dd_latency_cycles :: nat

definition Dram_req :: "io_status \<Rightarrow> bool \<Rightarrow> int \<Rightarrow> int \<Rightarrow> u64 \<Rightarrow> u64 \<Rightarrow> bool \<Rightarrow> dram_dev
    \<Rightarrow> (string + io_status \<times> int option \<times> dram_dev) option" where
  "Dram_req status debug period cycles addr sz w dev =
     (if debug \<or> status = IO_REQ_INVALID then Some (Inr (status, None, dev))
      else if status \<noteq> IO_REQ_OK then Some (Inl ''The memory behind the DRAM model answered asynchronously'')
      else
        let now = cycles * period
        in do {
          (fin, e) \<leftarrow> access now addr sz w (dd_engine dev);
          let latency = (fin - now + period - 1) sdiv period;
          Some (Inr (IO_REQ_OK, Some latency,
            dev\<lparr>dd_engine := e, dd_latency_cycles := dd_latency_cycles dev + nat latency\<rparr>))
        })"

lemma Dram_req_timed:
  assumes "access (cycles * period) addr sz w (dd_engine dev) = Some (d, e)"
  shows "Dram_req IO_REQ_OK False period cycles addr sz w dev =
    Some (Inr (IO_REQ_OK, Some ((d - cycles * period + period - 1) sdiv period),
      \<lparr>dd_engine = e, dd_latency_cycles = dd_latency_cycles dev + nat ((d - cycles * period + period - 1) sdiv period)\<rparr>))"
  using assms by (cases dev) (simp add: Dram_req_def Let_def)

text \<open>
  C35. The latency a request is given. For either family of device in order, with a clock of
  positive period: a request answered by the memory behind it is given the least whole number
  of cycles that covers the time the device says it is done, which is never less than the
  controller's latency; the cycles are added up and the device stays in order. A debug request
  and an invalid one change nothing and are given no latency; an asynchronous answer is fatal.
\<close>

theorem Dram_req_latency:
  assumes "good (dd_engine dev) \<and> below_top (dd_engine dev) addr sz \<or> hyper_ok (dd_engine dev)"
    and "0 < period" and "0 \<le> p_ctrl_ps (e_p (dd_engine dev))"
  shows "(\<exists>d e l. access (cycles * period) addr sz w (dd_engine dev) = Some (d, e)
        \<and> Dram_req IO_REQ_OK False period cycles addr sz w dev
            = Some (Inr (IO_REQ_OK, Some l, \<lparr>dd_engine = e, dd_latency_cycles = dd_latency_cycles dev + nat l\<rparr>))
        \<and> (good e \<or> hyper_ok e) \<and> p_ctrl_ps (e_p (dd_engine dev)) \<le> l * period
        \<and> d \<le> (cycles + l) * period \<and> (\<forall>m. d \<le> (cycles + m) * period \<longrightarrow> l \<le> m))
    \<and> Dram_req status True period cycles addr sz w dev = Some (Inr (status, None, dev))
    \<and> Dram_req IO_REQ_INVALID debug period cycles addr sz w dev = Some (Inr (IO_REQ_INVALID, None, dev))
    \<and> Dram_req IO_REQ_OTHER False period cycles addr sz w dev
        = Some (Inl ''The memory behind the DRAM model answered asynchronously'')"
proof -
  obtain d e l where d: "access (cycles * period) addr sz w (dd_engine dev) = Some (d, e)" "good e \<or> hyper_ok e"
      "l = (d - cycles * period + period - 1) sdiv period" "p_ctrl_ps (e_p (dd_engine dev)) \<le> l * period"
      "d \<le> (cycles + l) * period" "(cycles + l) * period < d + period"
    using assms(1)
  proof
    assume "good (dd_engine dev) \<and> below_top (dd_engine dev) addr sz"
    then show thesis using lpddr.latency [where e = "dd_engine dev" and addr = addr and sz = sz and period = period and cycles = cycles and w = w] assms(2,3) that by blast
  next
    assume "hyper_ok (dd_engine dev)"
    then show thesis using hyper.latency [where e = "dd_engine dev" and addr = addr and sz = sz and period = period and cycles = cycles and w = w] assms(2,3) that by blast
  qed
  have "l \<le> m" if "d \<le> (cycles + m) * period" for m
  proof -
    have "(cycles + l) * period < (cycles + m + 1) * period" using d(6) that by (simp add: algebra_simps)
    then show ?thesis using assms(2) by simp
  qed
  then have least: "\<forall>m. d \<le> (cycles + m) * period \<longrightarrow> l \<le> m" by blast
  note timed = Dram_req_timed [OF d(1), folded d(3)]
  show ?thesis
  proof (intro conjI)
    show "\<exists>d e l. access (cycles * period) addr sz w (dd_engine dev) = Some (d, e)
        \<and> Dram_req IO_REQ_OK False period cycles addr sz w dev
            = Some (Inr (IO_REQ_OK, Some l, \<lparr>dd_engine = e, dd_latency_cycles = dd_latency_cycles dev + nat l\<rparr>))
        \<and> (good e \<or> hyper_ok e) \<and> p_ctrl_ps (e_p (dd_engine dev)) \<le> l * period
        \<and> d \<le> (cycles + l) * period \<and> (\<forall>m. d \<le> (cycles + m) * period \<longrightarrow> l \<le> m)"
      using d(1,2,4,5) timed least by blast
  qed (simp_all add: Dram_req_def)
qed

text \<open>A HyperRAM line read: 49 bus clocks, 245 ns, at a 10 ns core clock.\<close>

definition hyper_eng :: eng where
  "hyper_eng = (new_eng (default_params\<lparr>p_kind := ''hyperram'', p_ctrl_ps := 0\<rparr>))\<lparr>e_hyperram := True\<rparr>"

theorem Dram_req_latency_witness:
  "Engine (default_params\<lparr>p_kind := ''hyperram'', p_ctrl_ps := 0\<rparr>) = Inr hyper_eng
    \<and> (\<exists>d e l. access 0 64 64 False hyper_eng = Some (d, e)
        \<and> Dram_req IO_REQ_OK False 10000 0 64 64 False \<lparr>dd_engine = hyper_eng, dd_latency_cycles = 0\<rparr>
            = Some (Inr (IO_REQ_OK, Some l, \<lparr>dd_engine = e, dd_latency_cycles = nat l\<rparr>)) \<and> d \<le> l * 10000)"
proof
  show "Engine (default_params\<lparr>p_kind := ''hyperram'', p_ctrl_ps := 0\<rparr>) = Inr hyper_eng"
    by (simp add: Engine_def hyper_eng_def default_params_def Let_def)
  let ?dev = "\<lparr>dd_engine = hyper_eng, dd_latency_cycles = 0\<rparr>"
  have "hyper_ok hyper_eng" "p_ctrl_ps (e_p hyper_eng) = 0"
    by (simp_all add: hyper_ok_def hyper_eng_def new_eng_def default_params_def hb_overhead_def)
  then show "\<exists>d e l. access 0 64 64 False hyper_eng = Some (d, e)
        \<and> Dram_req IO_REQ_OK False 10000 0 64 64 False ?dev
            = Some (Inr (IO_REQ_OK, Some l, \<lparr>dd_engine = e, dd_latency_cycles = nat l\<rparr>)) \<and> d \<le> l * 10000"
    using Dram_req_latency [where dev = ?dev and addr = 64 and sz = 64 and period = 10000 and cycles = 0 and w = False, THEN conjunct1] by fastforce
qed

end
