(* ===== verification/TimingCache.thy ===== *)
theory TimingCache
  imports DramDevice
begin

text \<open>
  The timing cache, \<open>targets/hetero/timing_cache.cpp\<close>: a tag array in front of the next memory
  level. It holds no data; every request is forwarded, and what the model computes is the
  latency the master sees and the traffic the next level sees. The next level is a parameter,
  a function of its own state; a fatal error of the simulator is \<open>None\<close>.
\<close>

section \<open>Requests\<close>

record io_req =
  rq_addr :: u64
  rq_size :: u64
  rq_write :: bool
  rq_debug :: bool
  rq_data :: "u8 list"

text \<open>The status, the latency reported, and the data of a read.\<close>

record io_rsp =
  rs_status :: io_status
  rs_latency :: int
  rs_data :: "u8 list"

type_synonym 'n next_level = "io_req \<Rightarrow> 'n \<Rightarrow> (io_rsp \<times> 'n) option"

section \<open>The cache and its construction\<close>

text \<open>The geometry and timings, from the configuration.\<close>

record cache_cfg =
  g_line_bits :: nat
  g_nb_sets :: int
  g_set_mask :: int
  g_nb_ways :: int
  g_hit_latency :: int
  g_miss_latency :: int
  g_refill_cycles :: int
  g_write_cycles :: int
  g_store_buffer_cycles :: int
  g_write_allocate :: bool
  g_writeback :: bool
  g_power :: bool

text \<open>The vectors are indexed by set times ways plus way. The last three fields count the energy quanta accounted.\<close>

record cache =
  tc_cfg :: cache_cfg
  tc_tags :: "u64 list"
  tc_lru :: "nat list"
  tc_line_ready :: "int list"
  tc_dirty :: "bool list"
  tc_victims :: "u64 list"
  tc_lru_counter :: nat
  tc_next_level_free :: int
  tc_nb_read :: nat
  tc_nb_write :: nat
  tc_nb_hit :: nat
  tc_nb_miss :: nat
  tc_nb_latency_cycles :: int
  tc_nb_writeback :: nat
  tc_q_read :: nat
  tc_q_write :: nat
  tc_q_refill :: nat

definition LINE_INVALID :: u64 where
  "LINE_INVALID = -1"

text \<open>The values the constructor reads.\<close>

record cache_conf =
  cf_size :: int
  cf_line_size :: int
  cf_ways :: int
  cf_hit_latency :: int
  cf_miss_latency :: int
  cf_refill_cycles :: int
  cf_write_cycles :: int
  cf_store_buffer_size :: int
  cf_write_allocate :: bool
  cf_writeback :: bool
  cf_power :: bool

text \<open>\<open>while ((1 << line_bits) < line_size) line_bits++;\<close> is the loop of \<open>log2i\<close>.\<close>

definition new_cache :: "cache_conf \<Rightarrow> cache option" where
  "new_cache f =
     (let nb_sets = cf_size f sdiv cf_line_size f sdiv cf_ways f;
          line_bits = log2i (cf_line_size f); set_mask = nb_sets - 1;
          n = nat (nb_sets * cf_ways f);
          g = \<lparr>g_line_bits = line_bits, g_nb_sets = nb_sets, g_set_mask = set_mask, g_nb_ways = cf_ways f,
               g_hit_latency = cf_hit_latency f, g_miss_latency = cf_miss_latency f, g_refill_cycles = cf_refill_cycles f,
               g_write_cycles = cf_write_cycles f, g_store_buffer_cycles = cf_store_buffer_size f * cf_write_cycles f,
               g_write_allocate = cf_write_allocate f, g_writeback = cf_writeback f, g_power = cf_power f\<rparr>
      in if 2 ^ line_bits \<noteq> cf_line_size f \<or> nb_sets AND set_mask \<noteq> 0 \<or> nb_sets * cf_ways f * cf_line_size f \<noteq> cf_size f
         then None
         else if cf_writeback f \<and> \<not> cf_write_allocate f then None
         else Some \<lparr>tc_cfg = g, tc_tags = replicate n 0, tc_lru = replicate n 0, tc_line_ready = replicate n 0,
                tc_dirty = (if cf_writeback f then replicate n False else []), tc_victims = [], tc_lru_counter = 0,
                tc_next_level_free = 0, tc_nb_read = 0, tc_nb_write = 0, tc_nb_hit = 0, tc_nb_miss = 0,
                tc_nb_latency_cycles = 0, tc_nb_writeback = 0, tc_q_read = 0, tc_q_write = 0, tc_q_refill = 0\<rparr>)"

text \<open>\<open>reset\<close> with \<open>active\<close> set; releasing it only stops the background power.\<close>

definition reset :: "bool \<Rightarrow> cache \<Rightarrow> cache" where
  "reset active c =
     (if active then
        c\<lparr>tc_tags := map (\<lambda>_. LINE_INVALID) (tc_tags c), tc_lru := map (\<lambda>_. 0) (tc_lru c),
          tc_line_ready := map (\<lambda>_. 0) (tc_line_ready c), tc_dirty := map (\<lambda>_. False) (tc_dirty c), tc_victims := [],
          tc_lru_counter := 0, tc_next_level_free := 0, tc_nb_read := 0, tc_nb_write := 0, tc_nb_hit := 0, tc_nb_miss := 0,
          tc_nb_latency_cycles := 0, tc_nb_writeback := 0\<rparr>
      else c)"

section \<open>Looking up a line\<close>

definition set_of :: "cache_cfg \<Rightarrow> u64 \<Rightarrow> nat" where
  "set_of g line = unat (line AND word_of_int (g_set_mask g))"

definition ways :: "cache_cfg \<Rightarrow> nat" where
  "ways g = nat (g_nb_ways g)"

text \<open>The index of the first way of the set that holds the line.\<close>

definition find_way :: "cache \<Rightarrow> u64 \<Rightarrow> nat option" where
  "find_way c line =
     (let base = set_of (tc_cfg c) line * ways (tc_cfg c)
      in find (\<lambda>i. tc_tags c ! i = line) [base..<base + ways (tc_cfg c)])"

text \<open>The least recently used way, the first of them on a tie.\<close>

definition victim_way :: "cache \<Rightarrow> u64 \<Rightarrow> nat" where
  "victim_way c line =
     (let base = set_of (tc_cfg c) line * ways (tc_cfg c)
      in fst (fold (\<lambda>i (victim, oldest). if tc_lru c ! i < oldest then (i, tc_lru c ! i) else (victim, oldest))
           [base + 1..<base + ways (tc_cfg c)] (base, tc_lru c ! base)))"

definition lookup :: "u64 \<Rightarrow> bool \<Rightarrow> int \<Rightarrow> cache \<Rightarrow> int \<times> cache" where
  "lookup line allocate ready_time c =
     (case find_way c line of
        Some i \<Rightarrow>
          let k = tc_lru_counter c + 1
          in (tc_line_ready c ! i, c\<lparr>tc_lru := (tc_lru c)[i := k], tc_lru_counter := k\<rparr>)
      | None \<Rightarrow>
          if \<not> allocate then (-1, c)
          else
            let v = victim_way c line; wb = g_writeback (tc_cfg c);
                c = (if wb \<and> tc_tags c ! v \<noteq> LINE_INVALID \<and> tc_dirty c ! v
                     then c\<lparr>tc_victims := tc_victims c @ [tc_tags c ! v]\<rparr> else c);
                c = (if wb then c\<lparr>tc_dirty := (tc_dirty c)[v := False]\<rparr> else c);
                k = tc_lru_counter c + 1
            in (-1, c\<lparr>tc_tags := (tc_tags c)[v := line], tc_lru := (tc_lru c)[v := k],
                      tc_line_ready := (tc_line_ready c)[v := ready_time], tc_lru_counter := k\<rparr>))"

text \<open>
  The lines an access touches. With lines of at least two bytes a line number has fewer bits than
  an address, so the counter of the loops over them does not wrap.
\<close>

definition lines :: "cache_cfg \<Rightarrow> u64 \<Rightarrow> u64 \<Rightarrow> u64 list" where
  "lines g addr sz =
     (let sz = (if sz = 0 then 1 else sz)
      in map of_nat [unat (drop_bit (g_line_bits g) addr)..<unat (drop_bit (g_line_bits g) (addr + sz - 1)) + 1])"

definition probe :: "u64 \<Rightarrow> u64 \<Rightarrow> cache \<Rightarrow> bool" where
  "probe addr sz c = list_all (\<lambda>line. find_way c line \<noteq> None) (lines (tc_cfg c) addr sz)"

definition mark_dirty :: "u64 \<Rightarrow> cache \<Rightarrow> cache" where
  "mark_dirty line c =
     (case find_way c line of None \<Rightarrow> c | Some i \<Rightarrow> c\<lparr>tc_dirty := (tc_dirty c)[i := True]\<rparr>)"

section \<open>The timing of an access\<close>

text \<open>One turn of the loop over the lines; the state is the cache and when the data is ready.\<close>

definition access_line :: "int \<Rightarrow> bool \<Rightarrow> int \<Rightarrow> u64 \<Rightarrow> cache \<times> int \<Rightarrow> cache \<times> int" where
  "access_line now w next_latency line = (\<lambda>(c, ready).
     let g = tc_cfg c; allocate = (\<not> w \<or> g_write_allocate g);
         start = max now (tc_next_level_free c);
         refill_done = start + next_latency + g_miss_latency g + g_refill_cycles g;
         (line_ready, c) = lookup line allocate refill_done c
     in if 0 \<le> line_ready then (c\<lparr>tc_nb_hit := tc_nb_hit c + 1\<rparr>, max ready line_ready)
        else
          let c = c\<lparr>tc_nb_miss := tc_nb_miss c + 1\<rparr>
          in if \<not> allocate then (c, ready)
             else
               let c = (if g_power g then c\<lparr>tc_q_refill := tc_q_refill c + 1\<rparr> else c)
               in (c\<lparr>tc_next_level_free := start + g_refill_cycles g\<rparr>, max ready refill_done))"

definition count_access :: "bool \<Rightarrow> cache \<Rightarrow> cache" where
  "count_access w c =
     (let q = (if g_power (tc_cfg c) then 1 else 0)
      in if w then c\<lparr>tc_nb_write := tc_nb_write c + 1, tc_q_write := tc_q_write c + q\<rparr>
         else c\<lparr>tc_nb_read := tc_nb_read c + 1, tc_q_read := tc_q_read c + q\<rparr>)"

definition access_time :: "int \<Rightarrow> u64 \<Rightarrow> u64 \<Rightarrow> bool \<Rightarrow> int \<Rightarrow> cache \<Rightarrow> int \<times> cache" where
  "access_time now addr sz w next_latency c =
     (let c = count_access w c; g = tc_cfg c;
          (c, ready) = fold (access_line now w next_latency) (lines g addr sz) (c, now + g_hit_latency g);
          (c, ready) =
            (if w \<and> g_writeback g then (fold mark_dirty (lines g addr sz) c, ready)
             else if w then
               let free = max now (tc_next_level_free c) + g_write_cycles g
               in (c\<lparr>tc_next_level_free := free\<rparr>, max ready (free - g_store_buffer_cycles g))
             else (c, ready));
          latency = max 0 (ready - now)
      in (latency, c\<lparr>tc_nb_latency_cycles := tc_nb_latency_cycles c + latency\<rparr>))"

section \<open>Traffic of its own\<close>

definition line_addr :: "cache_cfg \<Rightarrow> u64 \<Rightarrow> u64" where
  "line_addr g line = push_bit (g_line_bits g) line"

text \<open>A debug read of memory contents, a timed read, and a timed write, from the cache itself.\<close>

definition side_req :: "u64 \<Rightarrow> u64 \<Rightarrow> bool \<Rightarrow> bool \<Rightarrow> u8 list \<Rightarrow> io_req" where
  "side_req addr sz w dbg bytes = \<lparr>rq_addr = addr, rq_size = sz, rq_write = w, rq_debug = dbg, rq_data = bytes\<rparr>"

definition timed_fill :: "'n next_level \<Rightarrow> u64 \<Rightarrow> u64 \<Rightarrow> cache \<Rightarrow> 'n \<Rightarrow> (int \<times> 'n) option" where
  "timed_fill nxt addr sz c n =
     (let g = tc_cfg c; sz = (if sz = 0 then 1 else sz);
          first = line_addr g (drop_bit (g_line_bits g) addr);
          last_l = line_addr g (drop_bit (g_line_bits g) (addr + sz - 1));
          bytes = last_l - first + push_bit (g_line_bits g) 1
      in do {
        (r, n) \<leftarrow> nxt (side_req first bytes False False []) n;
        if rs_status r \<noteq> IO_REQ_OK then None else Some (rs_latency r, n)
      })"

definition write_back_line :: "'n next_level \<Rightarrow> u64 \<Rightarrow> cache \<times> 'n \<Rightarrow> (cache \<times> 'n) option" where
  "write_back_line nxt line = (\<lambda>(c, n).
     let g = tc_cfg c; addr = line_addr g line; line_size = push_bit (g_line_bits g) 1
     in do {
       (r, n) \<leftarrow> nxt (side_req addr line_size False True []) n;
       if rs_status r \<noteq> IO_REQ_OK then None
       else do {
         (r, n) \<leftarrow> nxt (side_req addr line_size True False (rs_data r)) n;
         if rs_status r \<noteq> IO_REQ_OK then None
         else Some (c\<lparr>tc_nb_writeback := tc_nb_writeback c + 1,
                tc_q_refill := tc_q_refill c + (if g_power g then 1 else 0)\<rparr>, n)
       }
     })"

fun write_back_lines :: "'n next_level \<Rightarrow> u64 list \<Rightarrow> cache \<times> 'n \<Rightarrow> (cache \<times> 'n) option" where
  "write_back_lines nxt [] s = Some s"
| "write_back_lines nxt (l # ls) s = do { s \<leftarrow> write_back_line nxt l s; write_back_lines nxt ls s }"

definition flush_victims :: "'n next_level \<Rightarrow> cache \<times> 'n \<Rightarrow> (cache \<times> 'n) option" where
  "flush_victims nxt s = do {
     (c, n) \<leftarrow> write_back_lines nxt (tc_victims (fst s)) s;
     Some (c\<lparr>tc_victims := []\<rparr>, n)
   }"

section \<open>Requests of the master\<close>

definition forward :: "'n next_level \<Rightarrow> bool \<Rightarrow> io_req \<Rightarrow> 'n \<Rightarrow> (io_rsp \<times> 'n) option" where
  "forward nxt dbg rq n = nxt (rq\<lparr>rq_debug := dbg\<rparr>) n"

definition req_writeback :: "'n next_level \<Rightarrow> int \<Rightarrow> io_req \<Rightarrow> cache \<times> 'n \<Rightarrow> (io_rsp \<times> cache \<times> 'n) option" where
  "req_writeback nxt now rq = (\<lambda>(c, n).
     if rq_debug rq then do { (r, n) \<leftarrow> forward nxt True rq n; Some (r, c, n) }
     else
       let addr = rq_addr rq; sz = rq_size rq; w = rq_write rq;
           resident = probe addr sz c; is_refill = (\<not> resident \<and> \<not> w)
       in do {
         (r, n) \<leftarrow> forward nxt (\<not> is_refill) rq n;
         if rs_status r = IO_REQ_INVALID then Some (r, c, n)
         else if rs_status r \<noteq> IO_REQ_OK then None
         else do {
           (next_latency, n) \<leftarrow>
             (if is_refill then Some (rs_latency r, n) else if \<not> resident then timed_fill nxt addr sz c n else Some (0, n));
           let (latency, c) = access_time now addr sz w next_latency c;
           (c, n) \<leftarrow> flush_victims nxt (c, n);
           Some (r\<lparr>rs_status := IO_REQ_OK, rs_latency := latency\<rparr>, c, n)
         }
       })"

definition cache_req :: "'n next_level \<Rightarrow> int \<Rightarrow> io_req \<Rightarrow> cache \<times> 'n \<Rightarrow> (io_rsp \<times> cache \<times> 'n) option" where
  "cache_req nxt now rq = (\<lambda>(c, n).
     if g_writeback (tc_cfg c) then req_writeback nxt now rq (c, n)
     else
       let addr = rq_addr rq; sz = rq_size rq; w = rq_write rq; debug = rq_debug rq;
           served_here = (\<not> debug \<and> \<not> w \<and> probe addr sz c)
       in do {
         (r, n) \<leftarrow> forward nxt (debug \<or> served_here) rq n;
         if debug \<or> rs_status r = IO_REQ_INVALID then Some (r, c, n)
         else
           let (latency, c) = access_time now addr sz w (rs_latency r) c
           in if rs_status r = IO_REQ_OK then Some (r\<lparr>rs_latency := latency\<rparr>, c, n)
              else Some (r\<lparr>rs_latency := rs_latency r + latency\<rparr>, c, n)
       })"

end
