(* ===== verification/CacheLru.thy ===== *)
theory CacheLru
  imports TimingCache "HOL-Library.Multiset"
begin

text \<open>
  The tag array as a stack. The cache orders the ways of a set by the time of their last use;
  read in that order, a set is a list of lines, the most recent one first, and a lookup is a
  step of the textbook replacement policy on that list. The invariant \<open>cache_ok\<close> says what the
  arrays keep for that reading to make sense; every operation preserves it.
\<close>

section \<open>The policy\<close>

text \<open>A resident line, when it is readable, and whether it is dirty.\<close>

type_synonym entry = "u64 \<times> int \<times> bool"

definition lru_lookup :: "nat \<Rightarrow> u64 \<Rightarrow> bool \<Rightarrow> int \<Rightarrow> entry list \<Rightarrow> int \<times> entry list \<times> u64 list" where
  "lru_lookup w line allocate ready_time xs =
     (case find (\<lambda>e. fst e = line) xs of
        Some e \<Rightarrow> (fst (snd e), e # filter (\<lambda>e. fst e \<noteq> line) xs, [])
      | None \<Rightarrow>
          if \<not> allocate then (-1, xs, [])
          else (-1, (line, ready_time, False) # take (w - 1) xs, map fst (filter (\<lambda>e. snd (snd e)) (drop (w - 1) xs))))"

section \<open>The reading of the arrays\<close>

definition ways_of :: "cache_cfg \<Rightarrow> nat \<Rightarrow> nat list" where
  "ways_of g s = [s * ways g..<s * ways g + ways g]"

definition used_ways :: "cache \<Rightarrow> nat \<Rightarrow> nat list" where
  "used_ways c s = rev (sort_key ((!) (tc_lru c)) (filter (\<lambda>i. 0 < tc_lru c ! i) (ways_of (tc_cfg c) s)))"

definition way_entry :: "cache \<Rightarrow> nat \<Rightarrow> entry" where
  "way_entry c i = (tc_tags c ! i, tc_line_ready c ! i, g_writeback (tc_cfg c) \<and> tc_dirty c ! i)"

definition stack :: "cache \<Rightarrow> nat \<Rightarrow> entry list" where
  "stack c s = map (way_entry c) (used_ways c s)"

definition nb_slots :: "cache \<Rightarrow> nat" where
  "nb_slots c = nat (g_nb_sets (tc_cfg c)) * ways (tc_cfg c)"

definition cfg_ok :: "cache_cfg \<Rightarrow> bool" where
  "cfg_ok g \<longleftrightarrow> 0 < g_nb_sets g \<and> g_set_mask g = g_nb_sets g - 1 \<and> 0 < g_nb_ways g"

definition cache_ok :: "cache \<Rightarrow> bool" where
  "cache_ok c \<longleftrightarrow> cfg_ok (tc_cfg c)
     \<and> length (tc_tags c) = nb_slots c \<and> length (tc_lru c) = nb_slots c \<and> length (tc_line_ready c) = nb_slots c
     \<and> (g_writeback (tc_cfg c) \<longrightarrow> length (tc_dirty c) = nb_slots c)
     \<and> (\<forall>i<nb_slots c. tc_lru c ! i \<le> tc_lru_counter c \<and> 0 \<le> tc_line_ready c ! i
          \<and> (tc_lru c ! i = 0 \<longleftrightarrow> tc_tags c ! i = LINE_INVALID)
          \<and> (tc_tags c ! i \<noteq> LINE_INVALID \<longrightarrow> i \<in> set (ways_of (tc_cfg c) (set_of (tc_cfg c) (tc_tags c ! i)))))
     \<and> (\<forall>i<nb_slots c. \<forall>j<nb_slots c. tc_lru c ! i \<noteq> 0 \<longrightarrow> tc_lru c ! i = tc_lru c ! j \<longrightarrow> i = j)
     \<and> (\<forall>i<nb_slots c. \<forall>j<nb_slots c. tc_tags c ! i \<noteq> LINE_INVALID \<longrightarrow> tc_tags c ! i = tc_tags c ! j \<longrightarrow> i = j)"

lemma cache_okD:
  assumes "cache_ok c"
  shows "cfg_ok (tc_cfg c)" "length (tc_tags c) = nb_slots c" "length (tc_lru c) = nb_slots c"
    "length (tc_line_ready c) = nb_slots c" "g_writeback (tc_cfg c) \<Longrightarrow> length (tc_dirty c) = nb_slots c"
    "i < nb_slots c \<Longrightarrow> tc_lru c ! i \<le> tc_lru_counter c" "i < nb_slots c \<Longrightarrow> 0 \<le> tc_line_ready c ! i"
    "i < nb_slots c \<Longrightarrow> tc_lru c ! i = 0 \<longleftrightarrow> tc_tags c ! i = LINE_INVALID"
    "i < nb_slots c \<Longrightarrow> tc_tags c ! i \<noteq> LINE_INVALID \<Longrightarrow> i \<in> set (ways_of (tc_cfg c) (set_of (tc_cfg c) (tc_tags c ! i)))"
    "i < nb_slots c \<Longrightarrow> j < nb_slots c \<Longrightarrow> tc_lru c ! i \<noteq> 0 \<Longrightarrow> tc_lru c ! i = tc_lru c ! j \<Longrightarrow> i = j"
    "i < nb_slots c \<Longrightarrow> j < nb_slots c \<Longrightarrow> tc_tags c ! i \<noteq> LINE_INVALID \<Longrightarrow> tc_tags c ! i = tc_tags c ! j \<Longrightarrow> i = j"
  using assms unfolding cache_ok_def by auto

lemma ways_pos: "cfg_ok g \<Longrightarrow> 0 < ways g"
  by (simp add: cfg_ok_def ways_def)

lemma set_of_lt:
  assumes "cfg_ok g"
  shows "set_of g line < nat (g_nb_sets g)"
proof -
  have "set_of g line \<le> unat (word_of_int (g_set_mask g) :: u64)"
    unfolding set_of_def by (metis word_and_le1 word_le_nat_alt)
  also have "\<dots> \<le> nat (g_set_mask g)"
  proof -
    have "unat (of_nat (nat (g_set_mask g)) :: u64) \<le> nat (g_set_mask g)" by (simp add: unat_of_nat take_bit_nat_less_eq_self)
    then show ?thesis using assms by (simp add: cfg_ok_def)
  qed
  also have "\<dots> < nat (g_nb_sets g)" using assms by (simp add: cfg_ok_def)
  finally show ?thesis .
qed

lemma in_ways_of: "i \<in> set (ways_of g s) \<longleftrightarrow> s * ways g \<le> i \<and> i < s * ways g + ways g"
  by (simp add: ways_of_def)

lemma ways_of_div: "0 < ways g \<Longrightarrow> i \<in> set (ways_of g s) \<Longrightarrow> i div ways g = s"
  unfolding in_ways_of by (metis add.commute div_nat_eqI mult.commute mult_Suc_right)

lemma ways_of_slots:
  assumes "s < nat (g_nb_sets (tc_cfg c))" and "i \<in> set (ways_of (tc_cfg c) s)"
  shows "i < nb_slots c"
proof -
  have "s * ways (tc_cfg c) + ways (tc_cfg c) = Suc s * ways (tc_cfg c)" by simp
  also have "\<dots> \<le> nb_slots c" unfolding nb_slots_def using assms(1) by (intro mult_le_mono1) simp
  finally show ?thesis using assms(2) unfolding in_ways_of by linarith
qed

lemma set_slots: "cache_ok c \<Longrightarrow> i \<in> set (ways_of (tc_cfg c) (set_of (tc_cfg c) line)) \<Longrightarrow> i < nb_slots c"
  by (meson cache_okD(1) set_of_lt ways_of_slots)

lemma ways_of_facts [simp]: "distinct (ways_of g s)" "length (ways_of g s) = ways g"
  by (simp_all add: ways_of_def)

section \<open>The ways in order of last use\<close>

text \<open>A descending list of exactly the used ways is the list of the used ways.\<close>

lemma used_ways_eqI:
  assumes "sorted_wrt (\<lambda>i j. tc_lru c ! j < tc_lru c ! i) xs"
    and "set xs = {i \<in> set (ways_of (tc_cfg c) s). 0 < tc_lru c ! i}"
  shows "used_ways c s = xs"
proof -
  let ?f = "\<lambda>i. tc_lru c ! i"
  have "sorted_wrt (<) (map ?f (rev xs))" using assms(1) by (simp add: sorted_wrt_map sorted_wrt_rev)
  then have s: "sorted (map ?f (rev xs))" "distinct (map ?f (rev xs))" by (simp_all add: strict_sorted_iff)
  then have ir: "distinct xs" "inj_on ?f (set xs)" by (simp_all add: distinct_map)
  have m: "mset (filter (\<lambda>i. 0 < ?f i) (ways_of (tc_cfg c) s)) = mset (rev xs)"
    using ir assms(2) by (intro set_eq_iff_mset_eq_distinct [THEN iffD1]) auto
  have "sort_key ?f (filter (\<lambda>i. 0 < ?f i) (ways_of (tc_cfg c) s)) = rev xs"
  proof (rule sort_key_inj_key_eq [OF m])
    show "inj_on ?f (set (filter (\<lambda>i. 0 < ?f i) (ways_of (tc_cfg c) s)))" using ir(2) assms(2) by simp
  qed (rule s(1))
  then show ?thesis by (simp add: used_ways_def)
qed

lemma sort_key_cong:
  assumes "\<And>x. x \<in> set xs \<Longrightarrow> f x = g x"
  shows "sort_key f xs = sort_key g xs"
proof -
  have ins: "insort_key f x ys = insort_key g x ys" if "\<And>y. y \<in> insert x (set ys) \<Longrightarrow> f y = g y" for x ys
    using that by (induction ys) auto
  have "foldr (insort_key f) xs [] = foldr (insort_key g) xs [] \<and> set (foldr (insort_key g) xs []) = set xs"
    using assms by (induction xs) (auto simp: set_insort_key intro!: ins)
  then show ?thesis by (simp add: sort_key_def)
qed

lemma used_ways_cong:
  assumes "tc_cfg c' = tc_cfg c" and "\<And>i. i \<in> set (ways_of (tc_cfg c) s) \<Longrightarrow> tc_lru c' ! i = tc_lru c ! i"
  shows "used_ways c' s = used_ways c s"
proof -
  have f: "filter (\<lambda>i. 0 < tc_lru c' ! i) (ways_of (tc_cfg c) s) = filter (\<lambda>i. 0 < tc_lru c ! i) (ways_of (tc_cfg c) s)"
    using assms(2) by (intro filter_cong) auto
  have "sort_key ((!) (tc_lru c')) (filter (\<lambda>i. 0 < tc_lru c ! i) (ways_of (tc_cfg c) s))
      = sort_key ((!) (tc_lru c)) (filter (\<lambda>i. 0 < tc_lru c ! i) (ways_of (tc_cfg c) s))"
    using assms(2) by (intro sort_key_cong) auto
  then show ?thesis by (simp add: used_ways_def assms(1) f)
qed

lemma used_ways:
  assumes "cache_ok c" and "s < nat (g_nb_sets (tc_cfg c))"
  shows "sorted_wrt (\<lambda>i j. tc_lru c ! j < tc_lru c ! i) (used_ways c s)"
    and "set (used_ways c s) = {i \<in> set (ways_of (tc_cfg c) s). 0 < tc_lru c ! i}"
    and "distinct (used_ways c s)"
proof -
  let ?f = "\<lambda>i. tc_lru c ! i" and ?xs = "filter (\<lambda>i. 0 < tc_lru c ! i) (ways_of (tc_cfg c) s)"
  have d: "distinct (sort_key ?f ?xs)" by simp
  have inj: "inj_on ?f (set (sort_key ?f ?xs))"
    unfolding inj_on_def using ways_of_slots [OF assms(2)] by (auto intro: cache_okD(10) [OF assms(1)])
  have "distinct (map ?f (sort_key ?f ?xs))" using d inj by (simp add: distinct_map)
  then have "sorted_wrt (<) (map ?f (sort_key ?f ?xs))" by (simp add: strict_sorted_iff)
  then show "sorted_wrt (\<lambda>i j. ?f j < ?f i) (used_ways c s)"
    unfolding used_ways_def sorted_wrt_rev by (simp add: sorted_wrt_map)
  show "set (used_ways c s) = {i \<in> set (ways_of (tc_cfg c) s). 0 < tc_lru c ! i}" "distinct (used_ways c s)"
    by (auto simp: used_ways_def)
qed

lemma used_ways_length:
  assumes "cache_ok c" and "s < nat (g_nb_sets (tc_cfg c))"
  shows "length (used_ways c s) \<le> ways (tc_cfg c)"
proof -
  have "length (used_ways c s) = card (set (used_ways c s))" using used_ways(3) [OF assms] by (simp add: distinct_card)
  also have "\<dots> \<le> card (set (ways_of (tc_cfg c) s))" by (intro card_mono) (auto simp: used_ways(2) [OF assms])
  finally show ?thesis by (simp add: distinct_card)
qed

section \<open>Finding a line, and the way it takes\<close>

lemma find_way_Some:
  assumes "find_way c line = Some i"
  shows "i \<in> set (ways_of (tc_cfg c) (set_of (tc_cfg c) line))" "tc_tags c ! i = line"
  using assms unfolding find_way_def Let_def find_Some_iff ways_of_def by auto

lemma find_way_iff:
  assumes "cache_ok c" and "line \<noteq> LINE_INVALID"
  shows "find_way c line = Some i \<longleftrightarrow> i < nb_slots c \<and> tc_tags c ! i = line"
proof
  assume "find_way c line = Some i"
  then show "i < nb_slots c \<and> tc_tags c ! i = line" using find_way_Some set_slots [OF assms(1)] by blast
next
  assume i: "i < nb_slots c \<and> tc_tags c ! i = line"
  then have "i \<in> set (ways_of (tc_cfg c) (set_of (tc_cfg c) line))"
    using cache_okD(9) [OF assms(1), of i] assms(2) by auto
  then have "find_way c line \<noteq> None" using i by (auto simp: find_way_def Let_def find_None_iff ways_of_def)
  then obtain j where j: "find_way c line = Some j" by blast
  from find_way_Some [OF j] have "j < nb_slots c" "tc_tags c ! j = line" using set_slots [OF assms(1)] by auto
  then have "j = i" using cache_okD(11) [OF assms(1), of i j] i assms(2) by auto
  then show "find_way c line = Some i" using j by simp
qed

lemma find_way_None:
  assumes "cache_ok c" and "line \<noteq> LINE_INVALID" and "find_way c line = None" and "i < nb_slots c"
  shows "tc_tags c ! i \<noteq> line"
  using find_way_iff [OF assms(1,2), of i] assms(3,4) by auto

lemma find_map: "find P (map f xs) = map_option f (find (\<lambda>x. P (f x)) xs)"
  by (induction xs) auto

lemma find_unique: "find P xs = Some x \<longleftrightarrow> x \<in> set xs \<and> P x" if "\<And>y z. y \<in> set xs \<Longrightarrow> z \<in> set xs \<Longrightarrow> P y \<Longrightarrow> P z \<Longrightarrow> y = z"
proof
  assume "find P xs = Some x"
  then show "x \<in> set xs \<and> P x" by (auto simp: find_Some_iff)
next
  assume x: "x \<in> set xs \<and> P x"
  then have "find P xs \<noteq> None" by (auto simp: find_None_iff)
  then obtain y where y: "find P xs = Some y" by blast
  then have "y \<in> set xs" "P y" by (auto simp: find_Some_iff)
  then show "find P xs = Some x" using that [of x y] x y by simp
qed

lemma find_stack:
  assumes "cache_ok c" and "line \<noteq> LINE_INVALID"
  shows "find (\<lambda>e. fst e = line) (stack c (set_of (tc_cfg c) line)) = map_option (way_entry c) (find_way c line)"
proof -
  let ?s = "set_of (tc_cfg c) line"
  note s = set_of_lt [OF cache_okD(1) [OF assms(1)], of line]
  have mem: "i \<in> set (used_ways c ?s) \<and> tc_tags c ! i = line \<longleftrightarrow> find_way c line = Some i" for i
    unfolding used_ways(2) [OF assms(1) s] find_way_iff [OF assms]
    using ways_of_slots [OF s] cache_okD(8,9) [OF assms(1), of i] assms(2) by auto
  have "find (\<lambda>i. tc_tags c ! i = line) (used_ways c ?s) = Some i \<longleftrightarrow> find_way c line = Some i" for i
    by (subst find_unique) (use mem in \<open>auto, metis option.inject\<close>)
  then have "find (\<lambda>i. tc_tags c ! i = line) (used_ways c ?s) = find_way c line" by (metis option.exhaust)
  then show ?thesis by (simp add: stack_def find_map way_entry_def)
qed

lemma victim_fold:
  fixes f :: "nat \<Rightarrow> nat"
  shows "snd (fold (\<lambda>i (v, o'). if f i < o' then (i, f i) else (v, o')) is (v0, f v0))
        = f (fst (fold (\<lambda>i (v, o'). if f i < o' then (i, f i) else (v, o')) is (v0, f v0)))
    \<and> fst (fold (\<lambda>i (v, o'). if f i < o' then (i, f i) else (v, o')) is (v0, f v0)) \<in> insert v0 (set is)
    \<and> (\<forall>i \<in> insert v0 (set is). f (fst (fold (\<lambda>i (v, o'). if f i < o' then (i, f i) else (v, o')) is (v0, f v0))) \<le> f i)"
proof (induction "is" arbitrary: v0)
  case (Cons a "is")
  show ?case
  proof (cases "f a < f v0")
    case True
    then show ?thesis using Cons.IH [of a] by (auto intro: order_trans [OF _ less_imp_le])
  next
    case False
    then show ?thesis using Cons.IH [of v0] by (auto intro: order_trans)
  qed
qed simp

lemma victim_way:
  assumes "cfg_ok (tc_cfg c)"
  shows "victim_way c line \<in> set (ways_of (tc_cfg c) (set_of (tc_cfg c) line))"
    and "i \<in> set (ways_of (tc_cfg c) (set_of (tc_cfg c) line)) \<Longrightarrow> tc_lru c ! victim_way c line \<le> tc_lru c ! i"
proof -
  let ?b = "set_of (tc_cfg c) line * ways (tc_cfg c)"
  have "insert ?b (set [?b + 1..<?b + ways (tc_cfg c)]) = set (ways_of (tc_cfg c) (set_of (tc_cfg c) line))"
    using ways_pos [OF assms] by (auto simp: ways_of_def)
  then show "victim_way c line \<in> set (ways_of (tc_cfg c) (set_of (tc_cfg c) line))"
    "i \<in> set (ways_of (tc_cfg c) (set_of (tc_cfg c) line)) \<Longrightarrow> tc_lru c ! victim_way c line \<le> tc_lru c ! i"
    using victim_fold [of "\<lambda>i. tc_lru c ! i" "[?b + 1..<?b + ways (tc_cfg c)]" ?b] unfolding victim_way_def Let_def by blast+
qed

section \<open>A use of a way\<close>

lemma other_sets:
  assumes "cfg_ok g" and "i \<in> set (ways_of g s)" and "s \<noteq> t"
  shows "i \<notin> set (ways_of g t)"
  using ways_of_div [OF ways_pos [OF assms(1)]] assms(2,3) by blast

text \<open>Stamping a way with the next time makes it the first of its set.\<close>

lemma used_ways_stamp:
  assumes "cache_ok c" and "s < nat (g_nb_sets (tc_cfg c))" and "i \<in> set (ways_of (tc_cfg c) s)"
    and "tc_cfg c' = tc_cfg c" and "tc_lru c' = (tc_lru c)[i := tc_lru_counter c + 1]"
  shows "used_ways c' = (used_ways c)(s := i # filter (\<lambda>j. j \<noteq> i) (used_ways c s))"
proof
  fix t
  note ok = assms(1)
  have i: "i < nb_slots c" using ways_of_slots [OF assms(2,3)] .
  show "used_ways c' t = ((used_ways c)(s := i # filter (\<lambda>j. j \<noteq> i) (used_ways c s))) t"
  proof (cases "t = s")
    case False
    then have "i \<notin> set (ways_of (tc_cfg c) t)" using other_sets [OF cache_okD(1) [OF ok] assms(3), of t] False by blast
    then have "used_ways c' t = used_ways c t"
      by (intro used_ways_cong) (auto simp: assms(4,5) intro!: nth_list_update_neq)
    then show ?thesis using False by simp
  next
    case True
    have at: "tc_lru c' ! i = tc_lru_counter c + 1" "\<And>j. j \<noteq> i \<Longrightarrow> tc_lru c' ! j = tc_lru c ! j"
      using i cache_okD(3) [OF ok] by (auto simp: assms(5))
    have m: "j \<in> set (used_ways c s) \<Longrightarrow> tc_lru c ! j \<le> tc_lru_counter c" for j
      using used_ways(2) [OF ok assms(2)] ways_of_slots [OF assms(2)] cache_okD(6) [OF ok] by auto
    have "sorted_wrt (\<lambda>a b. tc_lru c ! b < tc_lru c ! a) (filter (\<lambda>j. j \<noteq> i) (used_ways c s))"
      using used_ways(1) [OF ok assms(2)] by (rule sorted_wrt_filter)
    then have "sorted_wrt (\<lambda>a b. tc_lru c' ! b < tc_lru c' ! a) (filter (\<lambda>j. j \<noteq> i) (used_ways c s))"
      by (rule sorted_wrt_mono_rel [rotated]) (auto simp: at(2))
    moreover have "tc_lru c' ! j < tc_lru c' ! i" if "j \<in> set (filter (\<lambda>j. j \<noteq> i) (used_ways c s))" for j
      using that m [of j] by (auto simp: at)
    moreover have "0 < tc_lru c' ! j \<longleftrightarrow> j = i \<or> 0 < tc_lru c ! j" for j by (cases "j = i") (simp_all add: at)
    then have "set (i # filter (\<lambda>j. j \<noteq> i) (used_ways c s)) = {j \<in> set (ways_of (tc_cfg c) s). 0 < tc_lru c' ! j}"
      using used_ways(2) [OF ok assms(2)] assms(3) by auto
    ultimately have "used_ways c' s = i # filter (\<lambda>j. j \<noteq> i) (used_ways c s)"
      by (intro used_ways_eqI) (auto simp: assms(4))
    then show ?thesis using True by simp
  qed
qed

section \<open>A lookup is a step of the policy\<close>

lemma lookup_hit:
  assumes "cache_ok c" and "line \<noteq> LINE_INVALID" and "find_way c line = Some i" and "s = set_of (tc_cfg c) line"
    and "lookup line allocate t c = (r, c')"
  shows "(r, stack c' s, []) = lru_lookup (ways (tc_cfg c)) line allocate t (stack c s)
    \<and> stack c' = (stack c)(s := stack c' s) \<and> tc_victims c' = tc_victims c \<and> cache_ok c' \<and> 0 \<le> r"
proof -
  note ok = assms(1)
  have s: "s < nat (g_nb_sets (tc_cfg c))" using set_of_lt [OF cache_okD(1) [OF ok]] assms(4) by simp
  have i: "i < nb_slots c" "tc_tags c ! i = line" "i \<in> set (ways_of (tc_cfg c) s)"
    using find_way_iff [OF ok assms(2)] find_way_Some [OF assms(3)] assms(3,4) by auto
  have c': "c' = c\<lparr>tc_lru := (tc_lru c)[i := tc_lru_counter c + 1], tc_lru_counter := tc_lru_counter c + 1\<rparr>"
    and r: "r = tc_line_ready c ! i"
    using assms(5) by (auto simp: lookup_def assms(3) Let_def)
  have w: "way_entry c' = way_entry c" by (rule ext) (simp add: way_entry_def c')
  have uw: "used_ways c' = (used_ways c)(s := i # filter (\<lambda>j. j \<noteq> i) (used_ways c s))"
    by (rule used_ways_stamp [OF ok s i(3)]) (simp_all add: c')
  have "filter (\<lambda>j. j \<noteq> i) (used_ways c s) = filter (\<lambda>j. tc_tags c ! j \<noteq> line) (used_ways c s)"
    using used_ways(2) [OF ok s] ways_of_slots [OF s] find_way_iff [OF ok assms(2)] assms(3) i(2)
    by (intro filter_cong refl) fastforce
  then have st: "stack c' s = way_entry c i # filter (\<lambda>e. fst e \<noteq> line) (stack c s)"
    by (simp add: stack_def uw w filter_map o_def way_entry_def)
  have "stack c' = (stack c)(s := stack c' s)" by (rule ext) (simp add: stack_def uw w)
  moreover have "(r, stack c' s, []) = lru_lookup (ways (tc_cfg c)) line allocate t (stack c s)"
    unfolding lru_lookup_def st using find_stack [OF ok assms(2)] assms(3,4) by (simp add: r way_entry_def)
  moreover have "cache_ok c'"
  proof -
    have n: "nb_slots c' = nb_slots c" by (simp add: nb_slots_def c')
    have le: "j < nb_slots c \<Longrightarrow> tc_lru c ! j < Suc (tc_lru_counter c)" for j using cache_okD(6) [OF ok, of j] by simp
    show ?thesis
      unfolding cache_ok_def n
      using ok le i(1,2) assms(2) less_irrefl
      by (auto simp: c' cache_ok_def nth_list_update intro: less_imp_le)
  qed
  moreover have "0 \<le> r" using cache_okD(7) [OF ok i(1)] by (simp add: r)
  ultimately show ?thesis by (simp add: c')
qed

text \<open>The way a missing line takes is the last of a full set, and unused in any other.\<close>

lemma victim_used:
  assumes "cache_ok c" and "s = set_of (tc_cfg c) line" and "v = victim_way c line"
  shows "v \<notin> set (used_ways c s) \<and> length (used_ways c s) < ways (tc_cfg c) \<and> tc_tags c ! v = LINE_INVALID
    \<or> (\<exists>us. used_ways c s = us @ [v] \<and> Suc (length us) = ways (tc_cfg c) \<and> tc_tags c ! v \<noteq> LINE_INVALID)"
proof -
  have s: "s < nat (g_nb_sets (tc_cfg c))" using set_of_lt [OF cache_okD(1) [OF assms(1)]] assms(2) by simp
  note v = victim_way [OF cache_okD(1) [OF assms(1)], where line = line, folded assms(2,3)]
  have n: "v < nb_slots c" using ways_of_slots [OF s v(1)] .
  show ?thesis
  proof (cases "tc_lru c ! v = 0")
    case True
    then have nv: "v \<notin> set (used_ways c s)" by (simp add: used_ways(2) [OF assms(1) s])
    have "set (used_ways c s) \<subseteq> set (ways_of (tc_cfg c) s)" by (simp add: used_ways(2) [OF assms(1) s])
    then have "card (set (used_ways c s)) < card (set (ways_of (tc_cfg c) s))"
      using nv v(1) by (intro psubset_card_mono) blast+
    then show ?thesis
      using nv True cache_okD(8) [OF assms(1) n] used_ways(3) [OF assms(1) s] by (simp add: distinct_card)
  next
    case False
    then have pos: "i \<in> set (ways_of (tc_cfg c) s) \<Longrightarrow> 0 < tc_lru c ! i" for i using v(2) [of i] by linarith
    then have all: "set (used_ways c s) = set (ways_of (tc_cfg c) s)" by (auto simp: used_ways(2) [OF assms(1) s])
    then have len: "length (used_ways c s) = ways (tc_cfg c)"
      using used_ways(3) [OF assms(1) s] by (metis distinct_card ways_of_facts)
    then have ne: "used_ways c s \<noteq> []" using v(1) all by auto
    then obtain us u where u: "used_ways c s = us @ [u]" by (metis rev_exhaust)
    have "u = v"
    proof (rule ccontr)
      assume "u \<noteq> v"
      then have "v \<in> set us" using v(1) all u by auto
      then have "tc_lru c ! u < tc_lru c ! v" using used_ways(1) [OF assms(1) s] by (auto simp: u sorted_wrt_append)
      moreover have "u \<in> set (ways_of (tc_cfg c) s)" using all u by auto
      ultimately show False using v(2) by fastforce
    qed
    then show ?thesis using u len False cache_okD(8) [OF assms(1) n] by auto
  qed
qed

lemma lookup_miss:
  assumes "cache_ok c" and "line \<noteq> LINE_INVALID" and "find_way c line = None" and "s = set_of (tc_cfg c) line"
    and "lookup line True t c = (r, c')" and "0 \<le> t"
  shows "(r, stack c' s, drop (length (tc_victims c)) (tc_victims c')) = lru_lookup (ways (tc_cfg c)) line True t (stack c s)
    \<and> stack c' = (stack c)(s := stack c' s) \<and> take (length (tc_victims c)) (tc_victims c') = tc_victims c \<and> cache_ok c'"
proof -
  note ok = assms(1)
  have s: "s < nat (g_nb_sets (tc_cfg c))" using set_of_lt [OF cache_okD(1) [OF ok]] assms(4) by simp
  define v where "v = victim_way c line"
  have v: "v \<in> set (ways_of (tc_cfg c) s)" using victim_way(1) [OF cache_okD(1) [OF ok]] by (simp add: v_def assms(4))
  then have n: "v < nb_slots c" by (rule ways_of_slots [OF s])
  define ev where "ev = (if g_writeback (tc_cfg c) \<and> tc_tags c ! v \<noteq> LINE_INVALID \<and> tc_dirty c ! v then [tc_tags c ! v] else [])"
  have r: "r = -1" and c': "c' = c\<lparr>tc_tags := (tc_tags c)[v := line], tc_lru := (tc_lru c)[v := tc_lru_counter c + 1],
      tc_line_ready := (tc_line_ready c)[v := t],
      tc_dirty := (if g_writeback (tc_cfg c) then (tc_dirty c)[v := False] else tc_dirty c),
      tc_victims := tc_victims c @ ev, tc_lru_counter := tc_lru_counter c + 1\<rparr>"
    using assms(5) unfolding lookup_def assms(3) Let_def v_def [symmetric] ev_def by (auto split: if_splits)
  have uw: "used_ways c' = (used_ways c)(s := v # filter (\<lambda>j. j \<noteq> v) (used_ways c s))"
    by (rule used_ways_stamp [OF ok s v]) (simp_all add: c')
  have we: "way_entry c' v = (line, t, False)"
    using n cache_okD(2,4,5) [OF ok] by (simp add: way_entry_def c')
  have wo: "map (way_entry c') js = map (way_entry c) js" if "v \<notin> set js" for js
    using that by (intro map_cong) (auto simp: way_entry_def c' intro!: nth_list_update_neq)
  have st: "stack c' s = (line, t, False) # map (way_entry c) (filter (\<lambda>j. j \<noteq> v) (used_ways c s))"
    by (simp add: stack_def uw we wo)
  have "find (\<lambda>e. fst e = line) (stack c s) = None" using find_stack [OF ok assms(2)] assms(3,4) by simp
  then have l: "lru_lookup (ways (tc_cfg c)) line True t (stack c s)
      = (-1, (line, t, False) # take (ways (tc_cfg c) - 1) (stack c s),
         map fst (filter (\<lambda>e. snd (snd e)) (drop (ways (tc_cfg c) - 1) (stack c s))))"
    by (simp add: lru_lookup_def)
  have step: "(r, stack c' s, ev) = lru_lookup (ways (tc_cfg c)) line True t (stack c s)"
    using victim_used [OF ok assms(4) v_def]
  proof
    assume a: "v \<notin> set (used_ways c s) \<and> length (used_ways c s) < ways (tc_cfg c) \<and> tc_tags c ! v = LINE_INVALID"
    then have f: "filter (\<lambda>j. j \<noteq> v) (used_ways c s) = used_ways c s" by (auto simp: filter_id_conv)
    have "length (stack c s) \<le> ways (tc_cfg c) - 1" using a by (auto simp: stack_def)
    then show ?thesis using a unfolding l r st f by (simp add: ev_def) (simp add: stack_def)
  next
    assume "\<exists>us. used_ways c s = us @ [v] \<and> Suc (length us) = ways (tc_cfg c) \<and> tc_tags c ! v \<noteq> LINE_INVALID"
    then obtain us where us: "used_ways c s = us @ [v]" "ways (tc_cfg c) - 1 = length us" "tc_tags c ! v \<noteq> LINE_INVALID" by auto
    then have "v \<notin> set us" using used_ways(3) [OF ok s] by simp
    then have f: "filter (\<lambda>j. j \<noteq> v) (used_ways c s) = us" unfolding us(1) by (auto simp: filter_id_conv)
    have "take (length us) (stack c s) = map (way_entry c) us" "drop (length us) (stack c s) = [way_entry c v]"
      by (simp_all add: stack_def us(1))
    then show ?thesis unfolding l r st f us(2) by (simp add: us(3) ev_def way_entry_def)
  qed
  have "stack c' = (stack c)(s := stack c' s)"
  proof
    fix u
    have "v \<notin> set (used_ways c u)" if "u \<noteq> s"
      using other_sets [OF cache_okD(1) [OF ok] v, of u] that by (auto simp: used_ways_def)
    then show "stack c' u = ((stack c)(s := stack c' s)) u" by (simp add: stack_def uw wo)
  qed
  moreover have "cache_ok c'"
  proof -
    have k: "nb_slots c' = nb_slots c" by (simp add: nb_slots_def c')
    have le: "j < nb_slots c \<Longrightarrow> tc_lru c ! j < Suc (tc_lru_counter c)" for j using cache_okD(6) [OF ok, of j] by simp
    have ab: "j < nb_slots c \<Longrightarrow> tc_tags c ! j \<noteq> line" for j using find_way_None [OF ok assms(2,3)] .
    show ?thesis
      unfolding cache_ok_def k
      using ok le n assms(2,6) ab v less_irrefl
      by (auto simp: c' cache_ok_def nth_list_update assms(4) intro: less_imp_le)
  qed
  ultimately show ?thesis using step by (simp add: c')
qed

text \<open>Every lookup, in one statement.\<close>

lemma lookup_step:
  assumes "cache_ok c" and "line \<noteq> LINE_INVALID" and "0 \<le> t" and "lookup line allocate t c = (r, c')"
  shows "\<exists>xs vs. lru_lookup (ways (tc_cfg c)) line allocate t (stack c (set_of (tc_cfg c) line)) = (r, xs, vs)
    \<and> stack c' = (stack c)(set_of (tc_cfg c) line := xs) \<and> tc_victims c' = tc_victims c @ vs \<and> cache_ok c'"
proof (cases "find_way c line")
  case (Some i)
  from lookup_hit [OF assms(1,2) Some refl assms(4)] show ?thesis by (metis append_Nil2)
next
  case None
  show ?thesis
  proof (cases allocate)
    case True
    with assms(4) have "lookup line True t c = (r, c')" by simp
    from lookup_miss [OF assms(1,2) None refl this assms(3)]
    have m: "(r, stack c' (set_of (tc_cfg c) line), drop (length (tc_victims c)) (tc_victims c'))
        = lru_lookup (ways (tc_cfg c)) line allocate t (stack c (set_of (tc_cfg c) line))"
      "stack c' = (stack c)(set_of (tc_cfg c) line := stack c' (set_of (tc_cfg c) line))"
      "take (length (tc_victims c)) (tc_victims c') = tc_victims c" "cache_ok c'" by (simp_all add: True)
    have "tc_victims c' = tc_victims c @ drop (length (tc_victims c)) (tc_victims c')"
      using m(3) by (metis append_take_drop_id)
    then show ?thesis using m(1) [symmetric] m(2,4) by blast
  next
    case False
    then have "r = -1" "c' = c" using assms(4) by (simp_all add: lookup_def None)
    moreover have "find (\<lambda>e. fst e = line) (stack c (set_of (tc_cfg c) line)) = None" using find_stack [OF assms(1,2)] None by simp
    ultimately show ?thesis using False assms(1) by (simp add: lru_lookup_def)
  qed
qed

lemma new_cache_ok:
  assumes "new_cache f = Some c" and "0 < g_nb_sets (tc_cfg c)" and "0 < cf_ways f"
  shows "cache_ok (reset True c)" and "s < nat (g_nb_sets (tc_cfg c)) \<Longrightarrow> stack (reset True c) s = []"
proof -
  have c: "tc_lru (reset True c) = replicate (nb_slots c) 0" "tc_tags (reset True c) = replicate (nb_slots c) LINE_INVALID"
    "tc_line_ready (reset True c) = replicate (nb_slots c) 0" "tc_cfg (reset True c) = tc_cfg c" "g_nb_ways (tc_cfg c) = cf_ways f"
    "g_set_mask (tc_cfg c) = g_nb_sets (tc_cfg c) - 1"
    "g_writeback (tc_cfg c) \<longrightarrow> length (tc_dirty (reset True c)) = nb_slots c"
    using assms by (auto simp: new_cache_def Let_def reset_def nb_slots_def ways_def nat_mult_distrib map_replicate_const split: if_splits)
  then have n: "nb_slots (reset True c) = nb_slots c" by (simp add: nb_slots_def)
  show ok: "cache_ok (reset True c)"
    unfolding cache_ok_def n using assms(2,3) by (simp add: c cfg_ok_def)
  assume "s < nat (g_nb_sets (tc_cfg c))"
  then have "i \<in> set (ways_of (tc_cfg c) s) \<Longrightarrow> i < nb_slots c" for i by (rule ways_of_slots)
  then have "filter (\<lambda>i. 0 < tc_lru (reset True c) ! i) (ways_of (tc_cfg c) s) = []" by (auto simp: c filter_empty_conv)
  then show "stack (reset True c) s = []" by (simp add: stack_def used_ways_def c(4))
qed

text \<open>
  C36. The tag array implements the replacement policy. In any state of the cache with its
  invariant, looking up a line answers what one step of least-recently-used replacement on the
  stack of its set answers (when the line is readable, or that it was missing), changes the
  stack of that set as the step does and no other set's, appends to the victims exactly the
  dirty line the step drops from a full set, and keeps the invariant. A cache the constructor accepts
  (with at least one set and one way) starts, out of reset, with the invariant and empty stacks.
\<close>

theorem lookup_implements_lru:
  assumes "cache_ok c" and "line \<noteq> LINE_INVALID" and "0 \<le> t"
  shows "(\<exists>r c' xs vs. lookup line allocate t c = (r, c')
      \<and> lru_lookup (ways (tc_cfg c)) line allocate t (stack c (set_of (tc_cfg c) line)) = (r, xs, vs)
      \<and> stack c' = (stack c)(set_of (tc_cfg c) line := xs) \<and> tc_victims c' = tc_victims c @ vs \<and> cache_ok c')
    \<and> (new_cache f = Some c0 \<longrightarrow> 0 < g_nb_sets (tc_cfg c0) \<longrightarrow> 0 < cf_ways f
        \<longrightarrow> cache_ok (reset True c0) \<and> (\<forall>s < nat (g_nb_sets (tc_cfg c0)). stack (reset True c0) s = []))"
proof
  obtain r c' where "lookup line allocate t c = (r, c')" by fastforce
  with lookup_step [OF assms this] show "\<exists>r c' xs vs. lookup line allocate t c = (r, c')
      \<and> lru_lookup (ways (tc_cfg c)) line allocate t (stack c (set_of (tc_cfg c) line)) = (r, xs, vs)
      \<and> stack c' = (stack c)(set_of (tc_cfg c) line := xs) \<and> tc_victims c' = tc_victims c @ vs \<and> cache_ok c'" by blast
qed (use new_cache_ok [of f c0] in blast)

text \<open>A write-back cache of one set of two ways, both used, the older of them dirty.\<close>

definition small_conf :: cache_conf where
  "small_conf = \<lparr>cf_size = 128, cf_line_size = 64, cf_ways = 2, cf_hit_latency = 1, cf_miss_latency = 2, cf_refill_cycles = 4,
     cf_write_cycles = 1, cf_store_buffer_size = 2, cf_write_allocate = True, cf_writeback = True, cf_power = False\<rparr>"

definition small_cache :: cache where
  "small_cache = (let c = reset True (the (new_cache small_conf)); c = snd (lookup 1 True 10 c)
     in snd (lookup 2 True 20 (mark_dirty 1 c)))"

lemma small_cache_eq:
  "small_cache = (the (new_cache small_conf))\<lparr>tc_tags := [1, 2], tc_lru := [1, 2], tc_line_ready := [10, 20],
     tc_dirty := [True, False], tc_lru_counter := 2\<rparr>"
  by code_simp

lemma small_facts:
  "tc_cfg small_cache = \<lparr>g_line_bits = 6, g_nb_sets = 1, g_set_mask = 0, g_nb_ways = 2, g_hit_latency = 1, g_miss_latency = 2,
     g_refill_cycles = 4, g_write_cycles = 1, g_store_buffer_cycles = 2, g_write_allocate = True, g_writeback = True, g_power = False\<rparr>"
  "stack small_cache 0 = [(2, 20, False), (1, 10, True)]" "ways (tc_cfg small_cache) = 2" "nb_slots small_cache = 2"
  "set_of (tc_cfg small_cache) l = 0"
  by (code_simp, code_simp, code_simp, code_simp, simp add: set_of_def small_cache_eq)
     (code_simp)

lemma small_cfg:
  "tc_cfg (the (new_cache small_conf)) = \<lparr>g_line_bits = 6, g_nb_sets = 1, g_set_mask = 0, g_nb_ways = 2, g_hit_latency = 1,
     g_miss_latency = 2, g_refill_cycles = 4, g_write_cycles = 1, g_store_buffer_cycles = 2, g_write_allocate = True,
     g_writeback = True, g_power = False\<rparr>"
  by code_simp

lemma small_cache_ok: "cache_ok small_cache"
proof -
  have two: "(\<forall>i<2. P i) \<longleftrightarrow> P 0 \<and> P 1" for P :: "nat \<Rightarrow> bool"
    using less_2_cases by auto
  show ?thesis
    unfolding cache_ok_def small_facts(4) two
    by (simp add: small_cache_eq small_cfg cfg_ok_def ways_of_def ways_def set_of_def LINE_INVALID_def)
qed

theorem lookup_implements_lru_witness:
  "\<exists>c'. lookup 3 True 30 small_cache = (-1, c') \<and> stack c' 0 = [(3, 30, False), (2, 20, False)]
    \<and> tc_victims c' = [1] \<and> cache_ok c' \<and> stack (reset True (the (new_cache small_conf))) 0 = []"
proof -
  have n: "new_cache small_conf = Some (the (new_cache small_conf))" by code_simp
  have w: "g_nb_sets (tc_cfg (the (new_cache small_conf))) = 1" "cf_ways small_conf = 2"
    by (simp add: small_cfg, simp add: small_conf_def)
  have v: "tc_victims small_cache = []" by code_simp
  have "(3::u64) \<noteq> LINE_INVALID" by (simp add: LINE_INVALID_def)
  from lookup_implements_lru [OF small_cache_ok this, of 30 True small_conf "the (new_cache small_conf)"]
  obtain r c' xs vs where r: "lookup 3 True 30 small_cache = (r, c')" "lru_lookup 2 3 True 30 [(2, 20, False), (1, 10, True)] = (r, xs, vs)"
    "stack c' = (stack small_cache)(0 := xs)" "tc_victims c' = [] @ vs" "cache_ok c'"
    and z: "stack (reset True (the (new_cache small_conf))) 0 = []"
    unfolding small_facts(2-5) w v using n by auto
  then show ?thesis by (auto simp: lru_lookup_def)
qed

end
