(* ===== verification/CacheLevel.thy ===== *)
theory CacheLevel
  imports CacheLru
begin

text \<open>
  The memory hierarchy as levels. A level answers requests over bytes it keeps; the contract
  \<open>memory_level\<close> says what: reads return the bytes, writes set them, requests past the top are
  refused. The memory at the bottom is not in this repository and is met through the contract
  only. A timing cache over a level that meets the contract meets it too, with the same bytes,
  and so does the DRAM device; so any chain of them does.
\<close>

section \<open>Bytes\<close>

type_synonym bytes = "u64 \<Rightarrow> u8"

definition stored :: "u64 \<Rightarrow> u8 list \<Rightarrow> bytes \<Rightarrow> bytes" where
  "stored addr bs m = (\<lambda>a. if unat (a - addr) < length bs then bs ! unat (a - addr) else m a)"

definition loaded :: "u64 \<Rightarrow> nat \<Rightarrow> bytes \<Rightarrow> u8 list" where
  "loaded addr n m = map (\<lambda>i. m (addr + of_nat i)) [0..<n]"

text \<open>Writing back what was read changes nothing.\<close>

lemma stored_loaded: "stored addr (loaded addr n m) m = m"
  by (rule ext) (simp add: stored_def loaded_def)

section \<open>The contract of a level\<close>

definition rq_ok :: "io_req \<Rightarrow> bool" where
  "rq_ok rq \<longleftrightarrow> 0 < unat (rq_size rq) \<and> (rq_write rq \<longrightarrow> length (rq_data rq) = unat (rq_size rq))"

definition inside :: "nat \<Rightarrow> io_req \<Rightarrow> bool" where
  "inside msize rq \<longleftrightarrow> unat (rq_addr rq) + unat (rq_size rq) \<le> msize"

definition served :: "io_req \<Rightarrow> bytes \<Rightarrow> io_rsp \<Rightarrow> bytes \<Rightarrow> bool" where
  "served rq m r m' \<longleftrightarrow> rs_status r = IO_REQ_OK \<and> 0 \<le> rs_latency r
     \<and> m' = (if rq_write rq then stored (rq_addr rq) (rq_data rq) m else m)
     \<and> (\<not> rq_write rq \<longrightarrow> rs_data r = loaded (rq_addr rq) (unat (rq_size rq)) m)"

definition refused :: "bytes \<Rightarrow> io_rsp \<Rightarrow> bytes \<Rightarrow> bool" where
  "refused m r m' \<longleftrightarrow> rs_status r = IO_REQ_INVALID \<and> m' = m"

locale memory_level =
  fixes lvl :: "'n next_level" and ok :: "'n \<Rightarrow> bool" and content :: "'n \<Rightarrow> bytes" and msize :: nat
  assumes small: "msize < 2 ^ 64"
    and answers: "ok n \<Longrightarrow> rq_ok rq \<Longrightarrow> \<exists>r n'. lvl rq n = Some (r, n') \<and> ok n'
      \<and> (if inside msize rq then served rq (content n) r (content n') else refused (content n) r (content n'))"

section \<open>What an access does to the tag array\<close>

definition timing_ok :: "cache_cfg \<Rightarrow> bool" where
  "timing_ok g \<longleftrightarrow> 0 \<le> g_hit_latency g \<and> 0 \<le> g_miss_latency g \<and> 0 \<le> g_refill_cycles g \<and> 0 \<le> g_write_cycles g
     \<and> 0 < g_line_bits g \<and> g_line_bits g < 64"

text \<open>The tags of \<open>c'\<close> are tags of \<open>c\<close> or new lines, and its victims are victims of \<open>c\<close> or lines it held.\<close>

definition evolves :: "u64 set \<Rightarrow> cache \<Rightarrow> cache \<Rightarrow> bool" where
  "evolves ls c c' \<longleftrightarrow> cache_ok c' \<and> tc_cfg c' = tc_cfg c \<and> set (tc_tags c') \<subseteq> ls \<union> set (tc_tags c)
     \<and> set (tc_victims c') \<subseteq> set (tc_victims c) \<union> ls \<union> (set (tc_tags c) - {LINE_INVALID})"

lemma evolves_trans:
  assumes "evolves ls c c'" and "evolves ks c' c''" and "LINE_INVALID \<notin> ls"
  shows "evolves (ls \<union> ks) c c''"
  using assms unfolding evolves_def by auto

lemma evolves_refl: "cache_ok c \<Longrightarrow> evolves {} c c"
  by (simp add: evolves_def)

lemma cache_ok_counters [simp]:
  "cache_ok (c\<lparr>tc_nb_hit := a\<rparr>) = cache_ok c" "cache_ok (c\<lparr>tc_nb_miss := a\<rparr>) = cache_ok c"
  "cache_ok (c\<lparr>tc_nb_read := a\<rparr>) = cache_ok c" "cache_ok (c\<lparr>tc_nb_write := a\<rparr>) = cache_ok c"
  "cache_ok (c\<lparr>tc_q_read := a\<rparr>) = cache_ok c" "cache_ok (c\<lparr>tc_q_write := a\<rparr>) = cache_ok c"
  "cache_ok (c\<lparr>tc_q_refill := a\<rparr>) = cache_ok c" "cache_ok (c\<lparr>tc_nb_writeback := a\<rparr>) = cache_ok c"
  "cache_ok (c\<lparr>tc_nb_latency_cycles := z\<rparr>) = cache_ok c" "cache_ok (c\<lparr>tc_next_level_free := z\<rparr>) = cache_ok c"
  "cache_ok (c\<lparr>tc_victims := vs\<rparr>) = cache_ok c"
  by (simp_all add: cache_ok_def nb_slots_def)

lemma lookup_evolves:
  assumes "cache_ok c" and "line \<noteq> LINE_INVALID" and "0 \<le> t" and "lookup line allocate t c = (r, c')"
  shows "evolves {line} c c'"
proof -
  have ok: "cache_ok c'" using lookup_step [OF assms] by blast
  have v: "victim_way c line < length (tc_tags c)"
    using set_slots [OF assms(1) victim_way(1) [OF cache_okD(1) [OF assms(1)]]] cache_okD(2) [OF assms(1)] by simp
  have "set ((tc_tags c)[victim_way c line := line]) \<subseteq> insert line (set (tc_tags c))" by (rule set_update_subset_insert)
  then show ?thesis
    using ok assms(4) v
    by (auto simp: evolves_def lookup_def Let_def split: option.splits if_splits dest: nth_mem)
qed

lemma mark_dirty_evolves:
  assumes "cache_ok c"
  shows "evolves {} c (mark_dirty line c)"
  using assms by (auto simp: evolves_def mark_dirty_def cache_ok_def nb_slots_def split: option.splits)

lemma access_line_evolves:
  assumes "cache_ok c" and "timing_ok (tc_cfg c)" and "line \<noteq> LINE_INVALID" and "0 \<le> now" and "0 \<le> nl"
    and "access_line now w nl line (c, ready) = (c', ready')"
  shows "evolves {line} c c' \<and> ready \<le> ready' \<and> tc_next_level_free c \<le> tc_next_level_free c'
    \<and> tc_nb_hit c' + tc_nb_miss c' = tc_nb_hit c + tc_nb_miss c + 1"
proof -
  let ?g = "tc_cfg c"
  let ?t = "max now (tc_next_level_free c) + nl + g_miss_latency ?g + g_refill_cycles ?g"
  obtain r d where l: "lookup line (\<not> w \<or> g_write_allocate ?g) ?t c = (r, d)" by fastforce
  have "0 \<le> ?t" using assms(2,4,5) by (simp add: timing_ok_def)
  note e = lookup_evolves [OF assms(1,3) this l]
  have k: "tc_next_level_free d = tc_next_level_free c" "tc_nb_hit d = tc_nb_hit c" "tc_nb_miss d = tc_nb_miss c"
    using l by (auto simp: lookup_def Let_def split: option.splits if_splits)
  show ?thesis
    using assms(6) e k assms(2)
    unfolding access_line_def Let_def split_def prod.case l fst_conv snd_conv
    by (auto simp: evolves_def timing_ok_def split: if_splits)
qed

lemma access_lines_evolves:
  assumes "cache_ok c" and "timing_ok (tc_cfg c)" and "LINE_INVALID \<notin> set ls" and "0 \<le> now" and "0 \<le> nl"
    and "fold (access_line now w nl) ls (c, ready) = (c', ready')"
  shows "evolves (set ls) c c' \<and> ready \<le> ready' \<and> tc_next_level_free c \<le> tc_next_level_free c'
    \<and> tc_nb_hit c' + tc_nb_miss c' = tc_nb_hit c + tc_nb_miss c + length ls"
  using assms
proof (induction ls arbitrary: c ready)
  case Nil
  then show ?case by (simp add: evolves_refl)
next
  case (Cons l ls)
  obtain d rd where d: "access_line now w nl l (c, ready) = (d, rd)" by fastforce
  have "l \<noteq> LINE_INVALID" using Cons.prems(3) by auto
  note s = access_line_evolves [OF Cons.prems(1,2) this Cons.prems(4,5) d]
  have t: "cache_ok d" "timing_ok (tc_cfg d)" using s Cons.prems(2) by (auto simp: evolves_def)
  from Cons.IH [OF t _ Cons.prems(4,5)] Cons.prems(3,6) d
  have i: "evolves (set ls) d c' \<and> rd \<le> ready' \<and> tc_next_level_free d \<le> tc_next_level_free c'
    \<and> tc_nb_hit c' + tc_nb_miss c' = tc_nb_hit d + tc_nb_miss d + length ls" by simp
  have "evolves ({l} \<union> set ls) c c'" using s i Cons.prems(3) by (intro evolves_trans [of _ c d]) auto
  then show ?case using s i by simp
qed

lemma mark_lines_evolves:
  assumes "cache_ok c"
  shows "evolves {} c (fold mark_dirty ls c)"
  using assms
proof (induction ls arbitrary: c)
  case Nil
  then show ?case by (simp add: evolves_refl)
next
  case (Cons l ls)
  note m = mark_dirty_evolves [OF Cons.prems, of l]
  then have "cache_ok (mark_dirty l c)" by (simp add: evolves_def)
  from evolves_trans [OF m Cons.IH [OF this]] show ?case by simp
qed

lemma mark_lines_frame [simp]:
  "tc_nb_hit (fold mark_dirty ls c) = tc_nb_hit c" "tc_nb_miss (fold mark_dirty ls c) = tc_nb_miss c"
  "tc_next_level_free (fold mark_dirty ls c) = tc_next_level_free c" "tc_victims (fold mark_dirty ls c) = tc_victims c"
  "tc_nb_latency_cycles (fold mark_dirty ls c) = tc_nb_latency_cycles c"
  by (induction ls arbitrary: c) (auto simp: mark_dirty_def split: option.splits)

lemma access_time_evolves:
  assumes "cache_ok c" and "timing_ok (tc_cfg c)" and "LINE_INVALID \<notin> set (lines (tc_cfg c) addr sz)" and "0 \<le> now" and "0 \<le> nl"
    and "access_time now addr sz w nl c = (l, c')"
  shows "evolves (set (lines (tc_cfg c) addr sz)) c c' \<and> g_hit_latency (tc_cfg c) \<le> l
    \<and> tc_next_level_free c \<le> tc_next_level_free c'
    \<and> tc_nb_hit c' + tc_nb_miss c' = tc_nb_hit c + tc_nb_miss c + length (lines (tc_cfg c) addr sz)"
proof -
  let ?g = "tc_cfg c" and ?ls = "lines (tc_cfg c) addr sz"
  define c1 where "c1 = count_access w c"
  have c1: "cache_ok c1" "tc_cfg c1 = ?g" "tc_tags c1 = tc_tags c" "tc_victims c1 = tc_victims c" "tc_nb_hit c1 = tc_nb_hit c"
    "tc_nb_miss c1 = tc_nb_miss c" "tc_next_level_free c1 = tc_next_level_free c"
    using assms(1) by (auto simp: c1_def count_access_def Let_def)
  obtain c2 r2 where f: "fold (access_line now w nl) ?ls (c1, now + g_hit_latency ?g) = (c2, r2)" by fastforce
  have "timing_ok (tc_cfg c1)" using assms(2) by (simp add: c1)
  note a = access_lines_evolves [OF c1(1) this assms(3,4,5) f]
  have c2: "cache_ok c2" "tc_cfg c2 = ?g" using a by (auto simp: evolves_def c1)
  note m = mark_lines_evolves [OF c2(1), of ?ls]
  have m': "evolves (set ?ls) c1 (fold mark_dirty ?ls c2)" using evolves_trans [OF conjunct1 [OF a] m assms(3)] by simp
  have e: "evolves S c1 d \<Longrightarrow> evolves S c d" for S d by (simp add: evolves_def c1)
  show ?thesis
    using assms(6) a m' e assms(2)
    unfolding access_time_def c1_def [symmetric] Let_def c1(2) f prod.case
    by (auto simp: c1 evolves_def timing_ok_def split: if_splits)
qed

section \<open>Lines and their addresses\<close>

text \<open>A line that lies below the top.\<close>

definition below :: "nat \<Rightarrow> nat \<Rightarrow> u64 \<Rightarrow> bool" where
  "below b msize line \<longleftrightarrow> (unat line + 1) * 2 ^ b \<le> msize"

lemma unat_u64_lt: "unat (x::u64) < 2 ^ 64"
  using unsigned_less [of x] by simp

lemma unat_drop: "unat (drop_bit b (x::u64)) = unat x div 2 ^ b"
  unfolding unat_drop_bit_eq by (simp add: drop_bit_eq_div)

lemma unat_push:
  assumes "unat (x::u64) * 2 ^ b < 2 ^ 64"
  shows "unat (push_bit b x) = unat x * 2 ^ b"
  using assms by (simp add: unsigned_push_bit_eq) (simp add: push_bit_eq_mult take_bit_nat_eq_self mult.commute)

lemma unat_pow:
  assumes "b < 64"
  shows "unat (push_bit b (1::u64)) = 2 ^ b"
proof -
  have "(2::nat) ^ b < 2 ^ 64" using assms by (intro power_strict_increasing) auto
  then show ?thesis using unat_push [of 1 b] by simp
qed

lemma div_pow_lt:
  assumes "0 < b"
  shows "unat (x::u64) div 2 ^ b < 2 ^ 63"
proof -
  have "unat x div 2 ^ b \<le> unat x div 2 ^ 1" using assms by (intro div_le_mono2 power_increasing) auto
  then show ?thesis using unat_u64_lt [of x] by simp
qed

lemma in_lines:
  assumes "l \<in> set (lines g addr sz)" and "0 < g_line_bits g"
  shows "unat l \<le> unat (addr + (if sz = 0 then 1 else sz) - 1) div 2 ^ g_line_bits g \<and> l \<noteq> LINE_INVALID"
proof -
  let ?e = "addr + (if sz = 0 then 1 else sz) - 1"
  obtain k where k: "l = of_nat k" "k \<le> unat ?e div 2 ^ g_line_bits g"
    using assms(1) by (auto simp: lines_def Let_def unat_drop)
  have "k < 2 ^ 63" using k(2) div_pow_lt [OF assms(2), of ?e] by linarith
  then have u: "unat l = k" by (simp add: k(1) unat_of_nat take_bit_nat_eq_self)
  have "unat LINE_INVALID = 2 ^ 64 - 1" by (simp add: LINE_INVALID_def unsigned_minus_1_eq_mask mask_eq_exp_minus_1)
  then show ?thesis using u k(2) \<open>k < 2 ^ 63\<close> by auto
qed

lemma last_byte_of:
  assumes "0 < unat (sz::u64)" and "unat addr + unat sz \<le> msize" and "msize < 2 ^ 64"
  shows "unat (addr + sz - 1) = unat addr + unat sz - 1"
proof -
  have "unat (addr + (sz - 1)) = unat addr + unat (sz - 1)"
    using assms by (subst unat_plus_if_size) (auto simp: word_size unat_minus_one unat_gt_0)
  moreover have "unat (sz - 1) = unat sz - 1" using assms(1) by (simp add: unat_minus_one unat_gt_0)
  ultimately show ?thesis using assms(1) by (simp add: add_diff_eq)
qed

lemma below_line:
  fixes n msize b k :: nat
  assumes "n < msize" and "2 ^ b dvd msize" and "k \<le> n div 2 ^ b"
  shows "(k + 1) * 2 ^ b \<le> msize"
proof -
  obtain q where q: "msize = q * 2 ^ b" using assms(2) by (auto simp: mult.commute elim: dvdE)
  have "n div 2 ^ b < q" using assms(1) by (simp add: q less_mult_imp_div_less)
  then have "k + 1 \<le> q" using assms(3) by linarith
  then show ?thesis unfolding q by (intro mult_right_mono) auto
qed

lemma lines_below:
  assumes "rq_ok rq" and "inside msize rq" and "msize < 2 ^ 64" and "2 ^ g_line_bits g dvd msize" and "0 < g_line_bits g"
    and "l \<in> set (lines g (rq_addr rq) (rq_size rq))"
  shows "below (g_line_bits g) msize l"
proof -
  have z: "0 < unat (rq_size rq)" "rq_size rq \<noteq> 0" using assms(1) by (auto simp: rq_ok_def)
  note e = last_byte_of [OF z(1) assms(2) [unfolded inside_def] assms(3)]
  have "unat (rq_addr rq) + unat (rq_size rq) - 1 < msize" using z(1) assms(2) by (simp add: inside_def)
  from below_line [OF this assms(4)] in_lines [OF assms(6,5)] e z(2) show ?thesis by (simp add: below_def)
qed

section \<open>The invariant of a cache over a level\<close>

text \<open>A write-back cache holds lines of the memory only, so that it can write them back, and has no victim left over.\<close>

definition level_inv :: "('n \<Rightarrow> bool) \<Rightarrow> nat \<Rightarrow> cache \<times> 'n \<Rightarrow> bool" where
  "level_inv ok msize = (\<lambda>(c, n). ok n \<and> cache_ok c \<and> timing_ok (tc_cfg c)
     \<and> (g_writeback (tc_cfg c) \<longrightarrow> tc_victims c = [] \<and> 2 ^ g_line_bits (tc_cfg c) dvd msize
          \<and> (\<forall>t \<in> set (tc_tags c) - {LINE_INVALID}. below (g_line_bits (tc_cfg c)) msize t)))"

context memory_level
begin

lemma serves:
  assumes "ok n" and "rq_ok rq" and "inside msize rq"
  obtains r n' where "lvl rq n = Some (r, n')" and "ok n'" and "served rq (content n) r (content n')"
  using answers [OF assms(1,2)] assms(3) by auto

text \<open>A write-back of a line reads it and writes it: the bytes stay what they were.\<close>

lemma write_back_line:
  assumes "ok n" and "below (g_line_bits (tc_cfg c)) msize line" and "g_line_bits (tc_cfg c) < 64"
  shows "\<exists>n'. write_back_line lvl line (c, n) = Some (c\<lparr>tc_nb_writeback := tc_nb_writeback c + 1,
      tc_q_refill := tc_q_refill c + (if g_power (tc_cfg c) then 1 else 0)\<rparr>, n') \<and> ok n' \<and> content n' = content n"
proof -
  let ?b = "g_line_bits (tc_cfg c)"
  let ?a = "line_addr (tc_cfg c) line" and ?s = "push_bit ?b (1::u64)"
  have b: "(unat line + 1) * 2 ^ ?b < 2 ^ 64" using assms(2) small by (simp add: below_def)
  have p: "(0::nat) < 2 ^ ?b" by simp
  have "unat line * 2 ^ ?b < (unat line + 1) * 2 ^ ?b" using p by simp
  then have ua: "unat ?a = unat line * 2 ^ ?b" unfolding line_addr_def using b by (intro unat_push) linarith
  note us = unat_pow [OF assms(3)]
  have ins: "inside msize (side_req ?a ?s w d bs)" for w d bs
    using assms(2) unfolding inside_def side_req_def io_req.simps ua us below_def by (simp add: algebra_simps)
  have okr: "rq_ok (side_req ?a ?s False True [])" unfolding rq_ok_def side_req_def io_req.simps us by simp
  obtain r n1 where 1: "lvl (side_req ?a ?s False True []) n = Some (r, n1)" "ok n1"
    "served (side_req ?a ?s False True []) (content n) r (content n1)"
    using serves [OF assms(1) okr ins] .
  then have d: "rs_data r = loaded ?a (unat ?s) (content n)" "content n1 = content n" "rs_status r = IO_REQ_OK"
    by (auto simp: served_def side_req_def)
  have okw: "rq_ok (side_req ?a ?s True False (rs_data r))" unfolding rq_ok_def side_req_def io_req.simps d loaded_def us by simp
  obtain r' n2 where 2: "lvl (side_req ?a ?s True False (rs_data r)) n1 = Some (r', n2)" "ok n2"
    "served (side_req ?a ?s True False (rs_data r)) (content n1) r' (content n2)"
    using serves [OF 1(2) okw ins] .
  then have "rs_status r' = IO_REQ_OK" "content n2 = content n"
    by (auto simp: served_def side_req_def d stored_loaded)
  then show ?thesis using 1(1) 2(1,2) d(3) by (simp add: write_back_line_def Let_def)
qed

lemma write_back_lines:
  assumes "ok n" and "\<forall>l \<in> set ls. below (g_line_bits (tc_cfg c)) msize l" and "g_line_bits (tc_cfg c) < 64"
  shows "\<exists>k q n'. write_back_lines lvl ls (c, n) = Some (c\<lparr>tc_nb_writeback := k, tc_q_refill := q\<rparr>, n')
    \<and> k = tc_nb_writeback c + length ls \<and> ok n' \<and> content n' = content n"
  using assms
proof (induction ls arbitrary: c n)
  case Nil
  have "c\<lparr>tc_nb_writeback := tc_nb_writeback c, tc_q_refill := tc_q_refill c\<rparr> = c" by (cases c) simp
  then show ?case using Nil(1) unfolding write_back_lines.simps by (metis add_0_right list.size(3))
next
  case (Cons l ls)
  obtain n1 where 1: "write_back_line lvl l (c, n) = Some (c\<lparr>tc_nb_writeback := tc_nb_writeback c + 1,
      tc_q_refill := tc_q_refill c + (if g_power (tc_cfg c) then 1 else 0)\<rparr>, n1)" "ok n1" "content n1 = content n"
    using write_back_line [OF Cons.prems(1) _ Cons.prems(3), of l] Cons.prems(2) by (meson list.set_intros(1))
  let ?d = "c\<lparr>tc_nb_writeback := tc_nb_writeback c + 1, tc_q_refill := tc_q_refill c + (if g_power (tc_cfg c) then 1 else 0)\<rparr>"
  have "\<forall>l \<in> set ls. below (g_line_bits (tc_cfg ?d)) msize l" "g_line_bits (tc_cfg ?d) < 64" using Cons.prems(2,3) by simp_all
  with Cons.IH [OF 1(2), of ?d] obtain k q n' where
    "write_back_lines lvl ls (?d, n1) = Some (?d\<lparr>tc_nb_writeback := k, tc_q_refill := q\<rparr>, n')"
    "k = tc_nb_writeback ?d + length ls" "ok n'" "content n' = content n1" by blast
  then show ?case using 1 by (intro exI [of _ k] exI [of _ q] exI [of _ n']) simp
qed

lemma flush_victims:
  assumes "ok n" and "\<forall>l \<in> set (tc_victims c). below (g_line_bits (tc_cfg c)) msize l" and "g_line_bits (tc_cfg c) < 64"
  shows "\<exists>k q n'. flush_victims lvl (c, n) = Some (c\<lparr>tc_nb_writeback := k, tc_q_refill := q, tc_victims := []\<rparr>, n')
    \<and> k = tc_nb_writeback c + length (tc_victims c) \<and> ok n' \<and> content n' = content n"
  using write_back_lines [OF assms] by (auto simp: flush_victims_def)

text \<open>The refill of a store that missed reads whole lines, all of them below the top.\<close>

lemma timed_fill:
  assumes "ok n" and "rq_ok rq" and "inside msize rq" and "2 ^ g_line_bits (tc_cfg c) dvd msize" and "g_line_bits (tc_cfg c) < 64"
  shows "\<exists>l n'. timed_fill lvl (rq_addr rq) (rq_size rq) c n = Some (l, n') \<and> 0 \<le> l \<and> ok n' \<and> content n' = content n"
proof -
  let ?b = "g_line_bits (tc_cfg c)" and ?g = "tc_cfg c" and ?a = "rq_addr rq" and ?z = "rq_size rq"
  let ?f = "line_addr ?g (drop_bit ?b ?a)" and ?l = "line_addr ?g (drop_bit ?b (?a + ?z - 1))"
  let ?F = "unat ?a div 2 ^ ?b" and ?L = "(unat ?a + unat ?z - 1) div 2 ^ ?b"
  have z: "0 < unat ?z" "?z \<noteq> 0" using assms(2) by (auto simp: rq_ok_def)
  note e = last_byte_of [OF z(1) assms(3) [unfolded inside_def] small]
  have FL: "?F \<le> ?L" using z(1) by (intro div_le_mono) linarith
  have "unat ?a + unat ?z - 1 < msize" using z(1) assms(3) by (simp add: inside_def)
  from below_line [OF this assms(4) order_refl] have L: "(?L + 1) * 2 ^ ?b \<le> msize" .
  have FL': "?F * 2 ^ ?b \<le> ?L * 2 ^ ?b" using FL by (rule mult_right_mono) simp
  have L': "?L * 2 ^ ?b + 2 ^ ?b \<le> msize" using L by (simp add: algebra_simps)
  have p: "(0::nat) < 2 ^ ?b" by simp
  have uf: "unat ?f = ?F * 2 ^ ?b" unfolding line_addr_def
    using order_le_less_trans [OF order_trans [OF FL' add_leD1 [OF L']] small] unat_push [of "drop_bit ?b ?a" ?b]
    by (simp add: unat_drop)
  have ul: "unat ?l = ?L * 2 ^ ?b" unfolding line_addr_def
    using order_le_less_trans [OF add_leD1 [OF L'] small] unat_push [of "drop_bit ?b (?a + ?z - 1)" ?b]
    by (simp add: unat_drop e)
  note wrap = order_le_less_trans [OF L' small]
  have "?f \<le> ?l" using FL' by (simp add: word_le_nat_alt uf ul)
  then have ud: "unat (?l - ?f) = ?L * 2 ^ ?b - ?F * 2 ^ ?b" by (simp add: unat_sub uf ul)
  note us = unat_pow [OF assms(5)]
  let ?s = "?l - ?f + push_bit ?b 1"
  have ub: "unat ?s = ?L * 2 ^ ?b - ?F * 2 ^ ?b + 2 ^ ?b"
    using wrap FL' by (simp only: unat_plus_if_size word_size ud us) simp
  let ?q = "side_req ?f ?s False False []"
  have gap: "f \<le> l \<Longrightarrow> l + s \<le> m \<Longrightarrow> f + (l - f + s) \<le> m" for f l s m :: nat by simp
  have q: "rq_ok ?q" "inside msize ?q"
    unfolding rq_ok_def inside_def side_req_def io_req.simps ub uf using p gap [OF FL' L'] by simp_all
  obtain r n' where "lvl ?q n = Some (r, n')" "ok n'" "served ?q (content n) r (content n')" using serves [OF assms(1) q] .
  then show ?thesis using z(2) by (auto simp: timed_fill_def Let_def served_def side_req_def)
qed

text \<open>A request forwarded is answered as the request itself, debug or not.\<close>

lemma forwarded:
  assumes "ok n" and "rq_ok rq"
  obtains r n' where "forward lvl dbg rq n = Some (r, n')" and "ok n'"
    and "inside msize rq \<Longrightarrow> served rq (content n) r (content n')"
    and "\<not> inside msize rq \<Longrightarrow> refused (content n) r (content n')"
proof -
  have "rq_ok (rq\<lparr>rq_debug := dbg\<rparr>)" using assms(2) by (simp add: rq_ok_def)
  from answers [OF assms(1) this] show thesis
    using that by (auto simp: forward_def inside_def served_def split: if_splits)
qed

text \<open>The tag array after an access, and the victims written back.\<close>

lemma after_access:
  assumes "level_inv ok msize (c, n)" and "rq_ok rq" and "inside msize rq" and "0 \<le> now" and "0 \<le> nl"
    and "access_time now (rq_addr rq) (rq_size rq) w nl c = (l, c')" and "ok n'"
  shows "0 \<le> l" and "\<not> g_writeback (tc_cfg c) \<Longrightarrow> level_inv ok msize (c', n')" and "tc_cfg c' = tc_cfg c"
    and "g_writeback (tc_cfg c) \<Longrightarrow> \<exists>c'' n''. flush_victims lvl (c', n') = Some (c'', n'') \<and> level_inv ok msize (c'', n'')
      \<and> content n'' = content n'"
proof -
  let ?ls = "lines (tc_cfg c) (rq_addr rq) (rq_size rq)"
  have i: "cache_ok c" "timing_ok (tc_cfg c)" using assms(1) by (auto simp: level_inv_def)
  have "LINE_INVALID \<notin> set ?ls" using in_lines i(2) by (auto simp: timing_ok_def)
  note e = access_time_evolves [OF i this assms(4,5,6)]
  show "0 \<le> l" using e i(2) by (auto simp: timing_ok_def)
  show g: "tc_cfg c' = tc_cfg c" using e by (simp add: evolves_def)
  have ok': "cache_ok c'" using e by (simp add: evolves_def)
  show "level_inv ok msize (c', n')" if "\<not> g_writeback (tc_cfg c)"
    using that i(2) ok' g assms(7) by (simp add: level_inv_def)
  show "\<exists>c'' n''. flush_victims lvl (c', n') = Some (c'', n'') \<and> level_inv ok msize (c'', n'') \<and> content n'' = content n'"
    if wb: "g_writeback (tc_cfg c)"
  proof -
    let ?b = "g_line_bits (tc_cfg c)"
    have w: "tc_victims c = []" "2 ^ ?b dvd msize" "\<forall>t \<in> set (tc_tags c) - {LINE_INVALID}. below ?b msize t"
      using assms(1) wb by (auto simp: level_inv_def)
    have ls: "\<forall>t \<in> set ?ls. below ?b msize t"
      using lines_below [OF assms(2,3) small w(2)] i(2) by (auto simp: timing_ok_def)
    have v: "\<forall>t \<in> set (tc_victims c'). below (g_line_bits (tc_cfg c')) msize t"
      using e w(1,3) ls unfolding evolves_def g by auto
    have "g_line_bits (tc_cfg c') < 64" using i(2) by (simp add: g timing_ok_def)
    from flush_victims [OF assms(7) v this] obtain k q n'' where
      f: "flush_victims lvl (c', n') = Some (c'\<lparr>tc_nb_writeback := k, tc_q_refill := q, tc_victims := []\<rparr>, n'')"
        "ok n''" "content n'' = content n'" by blast
    have "\<forall>t \<in> set (tc_tags c') - {LINE_INVALID}. below ?b msize t" using e w(3) ls unfolding evolves_def by auto
    then have "level_inv ok msize (c'\<lparr>tc_nb_writeback := k, tc_q_refill := q, tc_victims := []\<rparr>, n'')"
      using f(2) ok' g i(2) w(2) by (simp add: level_inv_def)
    then show ?thesis using f by blast
  qed
qed

lemma writeback_answers:
  assumes "level_inv ok msize (c, n)" and "rq_ok rq" and "0 \<le> now" and wb: "g_writeback (tc_cfg c)"
  shows "\<exists>r c' n'. req_writeback lvl now rq (c, n) = Some (r, c', n') \<and> level_inv ok msize (c', n')
    \<and> (if inside msize rq then served rq (content n) r (content n') else refused (content n) r (content n'))"
proof (cases "rq_debug rq")
  case True
  have "ok n" using assms(1) by (simp add: level_inv_def)
  from forwarded [OF this assms(2), of True] obtain r n' where f: "forward lvl True rq n = Some (r, n')" "ok n'"
    "inside msize rq \<Longrightarrow> served rq (content n) r (content n')" "\<not> inside msize rq \<Longrightarrow> refused (content n) r (content n')" by blast
  have "level_inv ok msize (c, n')" using assms(1) f(2) by (simp add: level_inv_def)
  then show ?thesis using f True by (simp add: req_writeback_def)
next
  case False
  let ?res = "probe (rq_addr rq) (rq_size rq) c"
  let ?fill = "\<not> ?res \<and> \<not> rq_write rq"
  have i: "ok n" "2 ^ g_line_bits (tc_cfg c) dvd msize" "g_line_bits (tc_cfg c) < 64"
    using assms(1) wb by (auto simp: level_inv_def timing_ok_def)
  from forwarded [OF i(1) assms(2), of "\<not> ?fill"] obtain r n1 where f: "forward lvl (\<not> ?fill) rq n = Some (r, n1)" "ok n1"
    "inside msize rq \<Longrightarrow> served rq (content n) r (content n1)" "\<not> inside msize rq \<Longrightarrow> refused (content n) r (content n1)" by blast
  show ?thesis
  proof (cases "inside msize rq")
    case out: False
    have "level_inv ok msize (c, n1)" using assms(1) f(2) by (simp add: level_inv_def)
    then show ?thesis using f(1) f(4) [OF out] out False by (simp add: req_writeback_def refused_def Let_def)
  next
    case ins: True
    note s = f(3) [OF ins]
    have st: "rs_status r = IO_REQ_OK" "0 \<le> rs_latency r" using s by (auto simp: served_def)
    obtain nl n2 where fl: "(if ?fill then Some (rs_latency r, n1)
          else if \<not> ?res then timed_fill lvl (rq_addr rq) (rq_size rq) c n1 else Some (0, n1)) = Some (nl, n2)"
        "0 \<le> nl" "ok n2" "content n2 = content n1"
      using timed_fill [OF f(2) assms(2) ins i(2,3)] st(2) f(2) by (cases "?fill"; cases "?res") auto
    obtain l c1 where a: "access_time now (rq_addr rq) (rq_size rq) (rq_write rq) nl c = (l, c1)" by fastforce
    note aa = after_access [OF assms(1,2) ins assms(3) fl(2) a fl(3)]
    from aa(4) [OF wb] obtain c2 n3 where v: "flush_victims lvl (c1, n2) = Some (c2, n3)" "level_inv ok msize (c2, n3)"
      "content n3 = content n2" by blast
    have "req_writeback lvl now rq (c, n) = Some (r\<lparr>rs_status := IO_REQ_OK, rs_latency := l\<rparr>, c2, n3)"
      using False f(1) st(1) fl(1) a v(1) by (simp add: req_writeback_def Let_def)
    moreover have "served rq (content n) (r\<lparr>rs_status := IO_REQ_OK, rs_latency := l\<rparr>) (content n3)"
      using s aa(1) by (simp add: served_def v(3) fl(4))
    ultimately show ?thesis using v(2) ins by auto
  qed
qed

lemma cache_answers:
  assumes "level_inv ok msize (c, n)" and "rq_ok rq" and "0 \<le> now"
  shows "\<exists>r c' n'. cache_req lvl now rq (c, n) = Some (r, c', n') \<and> level_inv ok msize (c', n')
    \<and> (if inside msize rq then served rq (content n) r (content n') else refused (content n) r (content n'))"
proof (cases "g_writeback (tc_cfg c)")
  case True
  then show ?thesis using writeback_answers [OF assms True] by (simp add: cache_req_def)
next
  case False
  let ?dbg = "rq_debug rq \<or> (\<not> rq_debug rq \<and> \<not> rq_write rq \<and> probe (rq_addr rq) (rq_size rq) c)"
  have "ok n" using assms(1) by (simp add: level_inv_def)
  from forwarded [OF this assms(2), of ?dbg] obtain r n1 where f: "forward lvl ?dbg rq n = Some (r, n1)" "ok n1"
    "inside msize rq \<Longrightarrow> served rq (content n) r (content n1)" "\<not> inside msize rq \<Longrightarrow> refused (content n) r (content n1)" by blast
  have inv1: "level_inv ok msize (c, n1)" using assms(1) f(2) by (simp add: level_inv_def)
  show ?thesis
  proof (cases "rq_debug rq \<or> \<not> inside msize rq")
    case True
    then have "cache_req lvl now rq (c, n) = Some (r, c, n1)"
      using False f(1) f(4) by (auto simp: cache_req_def Let_def refused_def)
    then show ?thesis using inv1 f(3,4) by auto
  next
    case tm: False
    then have ins: "inside msize rq" by simp
    note s = f(3) [OF ins]
    have st: "rs_status r = IO_REQ_OK" "0 \<le> rs_latency r" using s by (auto simp: served_def)
    obtain l c1 where a: "access_time now (rq_addr rq) (rq_size rq) (rq_write rq) (rs_latency r) c = (l, c1)" by fastforce
    note aa = after_access [OF assms(1,2) ins assms(3) st(2) a f(2)]
    have "cache_req lvl now rq (c, n) = Some (r\<lparr>rs_latency := l\<rparr>, c1, n1)"
      using False f(1) st(1) a tm by (simp add: cache_req_def Let_def)
    moreover have "served rq (content n) (r\<lparr>rs_latency := l\<rparr>) (content n1)" using s aa(1) by (simp add: served_def)
    ultimately show ?thesis using aa(2) [OF False] ins by auto
  qed
qed

end

text \<open>So a cache over a level is a level.\<close>

lemma cached_level:
  assumes "memory_level lvl ok content msize" and "0 \<le> now"
  shows "memory_level (cache_req lvl now) (level_inv ok msize) (\<lambda>s. content (snd s)) msize"
proof (rule memory_level.intro)
  show "msize < 2 ^ 64" using assms(1) by (rule memory_level.small)
next
  fix s :: "cache \<times> 'a" and rq :: io_req
  assume "level_inv ok msize s" and "rq_ok rq"
  then show "\<exists>r s'. cache_req lvl now rq s = Some (r, s') \<and> level_inv ok msize s'
      \<and> (if inside msize rq then served rq (content (snd s)) r (content (snd s'))
          else refused (content (snd s)) r (content (snd s')))"
    using memory_level.cache_answers [OF assms(1) _ _ assms(2)] by (cases s) fastforce
qed

section \<open>The DRAM device as a level\<close>

text \<open>\<open>Dram::req\<close> with its call of the memory behind it; the device sees offsets into main memory.\<close>

definition dram_level :: "'m next_level \<Rightarrow> int \<Rightarrow> int \<Rightarrow> (dram_dev \<times> 'm) next_level" where
  "dram_level mem period cycles rq = (\<lambda>(dev, n). do {
     (r, n) \<leftarrow> mem rq n;
     res \<leftarrow> Dram_req (rs_status r) (rq_debug rq) period cycles (rq_addr rq) (rq_size rq) (rq_write rq) dev;
     case res of
       Inl msg \<Rightarrow> None
     | Inr (st, lat, dev) \<Rightarrow>
         Some (r\<lparr>rs_status := st, rs_latency := (case lat of None \<Rightarrow> rs_latency r | Some l \<Rightarrow> l)\<rparr>, dev, n)
   })"

definition dev_ok :: "nat \<Rightarrow> dram_dev \<Rightarrow> bool" where
  "dev_ok msize dev \<longleftrightarrow> 0 \<le> p_ctrl_ps (e_p (dd_engine dev))
     \<and> (good (dd_engine dev) \<and> (\<forall>addr sz. unat addr + unat sz \<le> msize \<longrightarrow> below_top (dd_engine dev) addr sz)
        \<or> hyper_ok (dd_engine dev))"

definition dram_inv :: "('m \<Rightarrow> bool) \<Rightarrow> nat \<Rightarrow> dram_dev \<times> 'm \<Rightarrow> bool" where
  "dram_inv ok msize = (\<lambda>(dev, n). dev_ok msize dev \<and> ok n)"

lemma Dram_req_answers:
  assumes "dev_ok msize dev" and "unat addr + unat sz \<le> msize" and "0 < period"
  shows "\<exists>l dev'. Dram_req IO_REQ_OK False period cycles addr sz w dev = Some (Inr (IO_REQ_OK, Some l, dev')) \<and> 0 \<le> l
    \<and> dev_ok msize dev'"
proof -
  let ?e = "dd_engine dev"
  have c: "0 \<le> p_ctrl_ps (e_p ?e)" using assms(1) by (simp add: dev_ok_def)
  from assms(1) consider "good ?e" "\<forall>addr sz. unat addr + unat sz \<le> msize \<longrightarrow> below_top ?e addr sz" | "hyper_ok ?e"
    by (auto simp: dev_ok_def)
  then show ?thesis
  proof cases
    case 1
    then have "below_top ?e addr sz" using assms(2) by blast
    from lpddr.latency [OF 1(1) this assms(3) c, of cycles w] obtain d e' l where
      d: "access (cycles * period) addr sz w ?e = Some (d, e')" "good e'" "p_ctrl_ps (e_p e') = p_ctrl_ps (e_p ?e)"
        "below_top e' = below_top ?e" "l = (d - cycles * period + period - 1) sdiv period" "0 \<le> l" by blast
    then show ?thesis using Dram_req_timed [OF d(1)] 1(2) c by (auto simp: dev_ok_def)
  next
    case 2
    from hyper.latency [OF 2 TrueI assms(3) c, of cycles addr sz w] obtain d e' l where
      d: "access (cycles * period) addr sz w ?e = Some (d, e')" "hyper_ok e'" "p_ctrl_ps (e_p e') = p_ctrl_ps (e_p ?e)"
        "l = (d - cycles * period + period - 1) sdiv period" "0 \<le> l" by blast
    then show ?thesis using Dram_req_timed [OF d(1)] c by (auto simp: dev_ok_def)
  qed
qed

lemma dram_level:
  assumes "memory_level mem ok content msize" and "0 < period"
  shows "memory_level (dram_level mem period cycles) (dram_inv ok msize) (\<lambda>s. content (snd s)) msize"
proof (rule memory_level.intro)
  show "msize < 2 ^ 64" using assms(1) by (rule memory_level.small)
next
  fix s :: "dram_dev \<times> 'a" and rq :: io_req
  assume a: "dram_inv ok msize s" "rq_ok rq"
  obtain dev n where s: "s = (dev, n)" by (cases s)
  have i: "dev_ok msize dev" "ok n" using a(1) by (auto simp: dram_inv_def s)
  obtain r n' where m: "mem rq n = Some (r, n')" "ok n'"
    "if inside msize rq then served rq (content n) r (content n') else refused (content n) r (content n')"
    using memory_level.answers [OF assms(1) i(2) a(2)] by blast
  show "\<exists>r s'. dram_level mem period cycles rq s = Some (r, s') \<and> dram_inv ok msize s'
      \<and> (if inside msize rq then served rq (content (snd s)) r (content (snd s'))
          else refused (content (snd s)) r (content (snd s')))"
  proof (cases "rq_debug rq \<or> \<not> inside msize rq")
    case True
    then have "rq_debug rq \<or> rs_status r = IO_REQ_INVALID" using m(3) by (auto simp: refused_def)
    then have "dram_level mem period cycles rq s = Some (r, dev, n')"
      using m(1) by (auto simp: dram_level_def s Dram_req_def)
    then show ?thesis using m i by (auto simp: s dram_inv_def)
  next
    case False
    then have ins: "inside msize rq" "\<not> rq_debug rq" by simp_all
    then have sv: "served rq (content n) r (content n')" "rs_status r = IO_REQ_OK" using m(3) by (auto simp: served_def)
    from Dram_req_answers [OF i(1) ins(1) [unfolded inside_def] assms(2), of cycles "rq_write rq"]
    obtain l dev' where d: "Dram_req IO_REQ_OK False period cycles (rq_addr rq) (rq_size rq) (rq_write rq) dev
        = Some (Inr (IO_REQ_OK, Some l, dev'))" "0 \<le> l" "dev_ok msize dev'" by blast
    have "dram_level mem period cycles rq s = Some (r\<lparr>rs_status := IO_REQ_OK, rs_latency := l\<rparr>, dev', n')"
      using m(1) d(1) sv(2) ins(2) by (simp add: dram_level_def s)
    moreover have "served rq (content n) (r\<lparr>rs_status := IO_REQ_OK, rs_latency := l\<rparr>) (content n')"
      using sv(1) d(2) by (simp add: served_def)
    ultimately show ?thesis using d(3) m(2) ins(1) by (auto simp: s dram_inv_def)
  qed
qed

section \<open>The hierarchy\<close>

text \<open>A first-level cache over the L2 over the DRAM device over the memory, all on one clock.\<close>

definition hierarchy :: "'m next_level \<Rightarrow> int \<Rightarrow> int \<Rightarrow> (cache \<times> cache \<times> dram_dev \<times> 'm) next_level" where
  "hierarchy mem period now = cache_req (cache_req (dram_level mem period now) now) now"

definition hierarchy_inv :: "('m \<Rightarrow> bool) \<Rightarrow> nat \<Rightarrow> cache \<times> cache \<times> dram_dev \<times> 'm \<Rightarrow> bool" where
  "hierarchy_inv ok msize = level_inv (level_inv (dram_inv ok msize) msize) msize"

lemma hierarchy_level:
  assumes "memory_level mem ok content msize" and "0 < period" and "0 \<le> now"
  shows "memory_level (hierarchy mem period now) (hierarchy_inv ok msize) (\<lambda>s. content (snd (snd (snd s)))) msize"
  unfolding hierarchy_def hierarchy_inv_def
  by (rule cached_level [OF cached_level [OF dram_level [OF assms(1,2)] assms(3)] assms(3)])

text \<open>A memory that meets the contract, to run the hierarchy on.\<close>

definition plain_memory :: "nat \<Rightarrow> bytes next_level" where
  "plain_memory msize rq m =
     (if inside msize rq
      then Some (\<lparr>rs_status = IO_REQ_OK, rs_latency = 0,
                 rs_data = (if rq_write rq then [] else loaded (rq_addr rq) (unat (rq_size rq)) m)\<rparr>,
               if rq_write rq then stored (rq_addr rq) (rq_data rq) m else m)
      else Some (\<lparr>rs_status = IO_REQ_INVALID, rs_latency = 0, rs_data = []\<rparr>, m))"

lemma plain_memory_level: "msize < 2 ^ 64 \<Longrightarrow> memory_level (plain_memory msize) (\<lambda>_. True) id msize"
  by unfold_locales (auto simp: plain_memory_def served_def refused_def)

interpretation soc: memory_level "hierarchy (plain_memory (unat m)) (int p + 1) (int k)" "hierarchy_inv (\<lambda>_. True) (unat m)"
    "\<lambda>s. id (snd (snd (snd s)))" "unat m"
  for m :: u64 and p k :: nat
  by (rule hierarchy_level [OF plain_memory_level]) (use unat_u64_lt [of m] in simp_all)

section \<open>Runs\<close>

text \<open>Requests with the cycles they arrive in, to a hierarchy and to plain bytes.\<close>

fun run_level :: "(int \<Rightarrow> 's next_level) \<Rightarrow> (int \<times> io_req) list \<Rightarrow> 's \<Rightarrow> (io_rsp list \<times> 's) option" where
  "run_level lvl [] s = Some ([], s)"
| "run_level lvl ((now, rq) # rqs) s = do {
     (r, s) \<leftarrow> lvl now rq s;
     (rs, s) \<leftarrow> run_level lvl rqs s;
     Some (r # rs, s)
   }"

fun flat_run :: "nat \<Rightarrow> io_req list \<Rightarrow> bytes \<Rightarrow> (io_status \<times> u8 list) list \<times> bytes" where
  "flat_run msize [] m = ([], m)"
| "flat_run msize (rq # rqs) m =
     (let (a, m) = (if \<not> inside msize rq then ((IO_REQ_INVALID, []), m)
                    else if rq_write rq then ((IO_REQ_OK, []), stored (rq_addr rq) (rq_data rq) m)
                    else ((IO_REQ_OK, loaded (rq_addr rq) (unat (rq_size rq)) m), m));
          (as, m) = flat_run msize rqs m
      in (a # as, m))"

text \<open>What a response says: its status, and the data when there is any to read.\<close>

definition answer :: "io_req \<Rightarrow> io_rsp \<Rightarrow> io_status \<times> u8 list" where
  "answer rq r = (rs_status r, if rs_status r = IO_REQ_OK \<and> \<not> rq_write rq then rs_data r else [])"

lemma run_is_flat:
  assumes "\<And>now. 0 \<le> now \<Longrightarrow> memory_level (lvl now) ok content msize" and "ok s" and "\<forall>(now, rq) \<in> set rqs. 0 \<le> now \<and> rq_ok rq"
  shows "\<exists>rs s'. run_level lvl rqs s = Some (rs, s') \<and> ok s' \<and> length rs = length rqs
    \<and> flat_run msize (map snd rqs) (content s) = (map2 answer (map snd rqs) rs, content s')"
  using assms(2,3)
proof (induction rqs arbitrary: s)
  case (Cons x rqs)
  obtain now rq where x: "x = (now, rq)" by (cases x)
  have p: "0 \<le> now" "rq_ok rq" using Cons.prems(2) by (auto simp: x)
  from memory_level.answers [OF assms(1) [OF p(1)] Cons.prems(1) p(2)] obtain r s1 where
    1: "lvl now rq s = Some (r, s1)" "ok s1"
      "if inside msize rq then served rq (content s) r (content s1) else refused (content s) r (content s1)" by blast
  have "\<forall>(now, rq) \<in> set rqs. 0 \<le> now \<and> rq_ok rq" using Cons.prems(2) by simp
  from Cons.IH [OF 1(2) this] obtain rs s' where
    2: "run_level lvl rqs s1 = Some (rs, s')" "ok s'" "length rs = length rqs"
      "flat_run msize (map snd rqs) (content s1) = (map2 answer (map snd rqs) rs, content s')"
    by blast
  show ?case
  proof (intro exI conjI)
    show "run_level lvl (x # rqs) s = Some (r # rs, s')" by (simp add: x 1(1) 2(1))
    show "ok s'" by (rule 2(2))
    show "length (r # rs) = length (x # rqs)" by (simp add: 2(3))
    show "flat_run msize (map snd (x # rqs)) (content s) = (map2 answer (map snd (x # rqs)) (r # rs), content s')"
      using 1(3) 2(4) by (auto simp: x answer_def served_def refused_def split: if_splits)
  qed
qed simp

text \<open>
  The hierarchy is transparent. Over any memory that meets the contract, a run of requests
  through a first-level cache, the L2 and the DRAM device, each write-through or write-back, in any
  state with the invariant, returns; it gives every request the status and the bytes that a
  plain array of bytes would give, leaves in the memory the bytes that the array would hold, and
  keeps the invariant: no store is lost, no stale line is returned, no write-back changes a byte.
\<close>

theorem hierarchy_is_transparent:
  assumes "memory_level mem ok content msize" and "0 < period" and "hierarchy_inv ok msize (l1, l2, dev, n)"
    and "\<forall>(now, rq) \<in> set rqs. 0 \<le> now \<and> rq_ok rq"
  shows "\<exists>rs l1' l2' dev' n'. run_level (hierarchy mem period) rqs (l1, l2, dev, n) = Some (rs, l1', l2', dev', n')
    \<and> hierarchy_inv ok msize (l1', l2', dev', n') \<and> length rs = length rqs
    \<and> flat_run msize (map snd rqs) (content n) = (map2 answer (map snd rqs) rs, content n')"
  using run_is_flat [where lvl = "hierarchy mem period" and rqs = rqs, OF hierarchy_level [OF assms(1,2)] assms(3,4)] by auto

text \<open>
  A write-through cache over the small write-back one, over HyperRAM: a store to a line neither
  holds evicts the dirty line of the second; the load after it returns the bytes stored.
\<close>

definition small_l1 :: cache where
  "small_l1 = reset True (the (new_cache (small_conf\<lparr>cf_write_allocate := False, cf_writeback := False\<rparr>)))"

lemma small_l1_inv: "cache_ok small_l1" "timing_ok (tc_cfg small_l1)" "\<not> g_writeback (tc_cfg small_l1)"
proof -
  let ?f = "small_conf\<lparr>cf_write_allocate := False, cf_writeback := False\<rparr>"
  have c: "new_cache ?f = Some (the (new_cache ?f))" by code_simp
  have g: "tc_cfg (the (new_cache ?f)) = \<lparr>g_line_bits = 6, g_nb_sets = 1, g_set_mask = 0, g_nb_ways = 2, g_hit_latency = 1,
     g_miss_latency = 2, g_refill_cycles = 4, g_write_cycles = 1, g_store_buffer_cycles = 2, g_write_allocate = False,
     g_writeback = False, g_power = False\<rparr>" by code_simp
  show "cache_ok small_l1" unfolding small_l1_def
    by (rule new_cache_ok(1) [OF c]) (simp add: g, simp add: small_conf_def)
  show "timing_ok (tc_cfg small_l1)" "\<not> g_writeback (tc_cfg small_l1)"
    by (simp_all add: small_l1_def reset_def g timing_ok_def)
qed

definition small_dev :: dram_dev where
  "small_dev = \<lparr>dd_engine = hyper_eng, dd_latency_cycles = 0\<rparr>"

lemma small_hierarchy_inv: "hierarchy_inv (\<lambda>_. True) 256 (small_l1, small_cache, small_dev, m)"
proof -
  have "dev_ok 256 small_dev"
    by (simp add: dev_ok_def small_dev_def hyper_ok_def hyper_eng_def new_eng_def default_params_def hb_overhead_def)
  moreover have "tc_victims small_cache = []" "tc_tags small_cache = [1, 2]" by code_simp+
  then have "level_inv (dram_inv (\<lambda>_. True) 256) 256 (small_cache, small_dev, m) = dev_ok 256 small_dev"
    using small_cache_ok by (auto simp: level_inv_def dram_inv_def small_facts(1) timing_ok_def below_def)
  ultimately show ?thesis using small_l1_inv unfolding hierarchy_inv_def by (subst level_inv_def) simp
qed

theorem hierarchy_is_transparent_witness:
  "\<exists>r r' s. run_level (hierarchy (plain_memory 256) 10000)
      [(0, side_req 200 2 True False [7, 9]), (9, side_req 200 2 False False [])] (small_l1, small_cache, small_dev, \<lambda>_. 0)
        = Some ([r, r'], s)
    \<and> rs_status r = IO_REQ_OK \<and> rs_data r' = [7, 9]"
proof -
  let ?rqs = "[(0, side_req 200 2 True False [7, 9]), (9, side_req 200 2 False False [])] :: (int \<times> io_req) list"
  have i: "inside 256 (side_req 200 2 w d bs)" for w d bs by (simp add: inside_def side_req_def)
  have l: "loaded 200 2 (stored 200 [7, 9] (\<lambda>_. 0)) = [7, 9]" by code_simp
  have f: "fst (flat_run 256 (map snd ?rqs) (\<lambda>_. 0)) = [(IO_REQ_OK, []), (IO_REQ_OK, [7, 9])]"
    using i l by (simp add: side_req_def numeral_2_eq_2 [symmetric])
  have "\<forall>(now, rq) \<in> set ?rqs. 0 \<le> now \<and> rq_ok rq" by (simp add: rq_ok_def side_req_def)
  from hierarchy_is_transparent [OF plain_memory_level _ small_hierarchy_inv this, where period = 10000 and n = "\<lambda>_. 0"]
  obtain rs s where r: "run_level (hierarchy (plain_memory 256) 10000) ?rqs (small_l1, small_cache, small_dev, \<lambda>_. 0) = Some (rs, s)"
    "map2 answer (map snd ?rqs) rs = [(IO_REQ_OK, []), (IO_REQ_OK, [7, 9])]" "length rs = length ?rqs"
    using f by (auto simp: prod_eq_iff simp del: run_level.simps)
  from r(3) obtain a b where "rs = [a, b]" by (auto simp: length_Suc_conv)
  then show ?thesis using r(1,2)
    by (intro exI [of _ a] exI [of _ b] exI [of _ s]) (auto simp: answer_def side_req_def simp del: run_level.simps split: if_splits)
qed

end
