(* ===== verification/Backdoor.thy ===== *)
theory Backdoor
  imports CacheLevel
begin

text \<open>
  The debug backdoor of the timing cache and of the DRAM device, \<open>debug_mem_access\<close> and
  \<open>debug_mem_regions\<close> of \<open>targets/hetero/timing_cache.cpp\<close> and \<open>targets/hetero/dram.cpp\<close>. Semihosting
  reads its strings through it, past every tag array. The memory's own backdoor is not in the
  repository and is met through the contract \<open>debug_level\<close>.
\<close>

section \<open>The interface\<close>

text \<open>
  An access gets an address, the caller's buffer, a size and whether it writes, and gives a code and
  what the buffer then holds. The regions a component lists are of the simulator's type \<open>'r\<close>.
\<close>

record ('n, 'r) debug_if =
  di_access :: "u64 \<Rightarrow> u8 list \<Rightarrow> u64 \<Rightarrow> bool \<Rightarrow> 'n \<Rightarrow> int \<times> u8 list \<times> 'n"
  di_regions :: "u64 \<Rightarrow> u64 \<Rightarrow> u64 \<Rightarrow> int \<Rightarrow> 'r list \<times> 'n \<Rightarrow> 'r list \<times> 'n"

text \<open>The owners of the final ports: none, one without a backdoor, or one with it.\<close>

type_synonym ('n, 'r) finals = "('n, 'r) debug_if option option list"

record ('n, 'r) backdoor =
  bd_resolved :: bool
  bd_next :: "('n, 'r) debug_if option"

definition no_backdoor :: "('n, 'r) backdoor" where
  "no_backdoor = \<lparr>bd_resolved = False, bd_next = None\<rparr>"

section \<open>The timing cache\<close>

definition TimingCache_next_level_backdoor ::
    "('n, 'r) finals \<Rightarrow> ('n, 'r) backdoor \<Rightarrow> ('n, 'r) debug_if option \<times> ('n, 'r) backdoor" where
  "TimingCache_next_level_backdoor ports b =
     (let b = (if bd_resolved b then b
               else let b = b\<lparr>bd_resolved := True\<rparr>
                    in if ports \<noteq> [] \<and> hd ports \<noteq> None then b\<lparr>bd_next := the (hd ports)\<rparr> else b)
      in (bd_next b, b))"

definition TimingCache_debug_mem_access ::
    "('n, 'r) finals \<Rightarrow> u64 \<Rightarrow> u8 list \<Rightarrow> u64 \<Rightarrow> bool \<Rightarrow> ('n, 'r) backdoor \<times> 'n
      \<Rightarrow> int \<times> u8 list \<times> ('n, 'r) backdoor \<times> 'n" where
  "TimingCache_debug_mem_access ports addr buf sz w = (\<lambda>(b, n).
     case TimingCache_next_level_backdoor ports b of
       (None, b) \<Rightarrow> (-1, buf, b, n)
     | (Some nxt, b) \<Rightarrow> (let (rc, buf, n) = di_access nxt addr buf sz w n in (rc, buf, b, n)))"

definition TimingCache_debug_mem_regions ::
    "('n, 'r) finals \<Rightarrow> u64 \<Rightarrow> u64 \<Rightarrow> u64 \<Rightarrow> int \<Rightarrow> 'r list \<times> ('n, 'r) backdoor \<times> 'n
      \<Rightarrow> 'r list \<times> ('n, 'r) backdoor \<times> 'n" where
  "TimingCache_debug_mem_regions ports local_base window_size entry_base depth = (\<lambda>(rs, b, n).
     case TimingCache_next_level_backdoor ports b of
       (None, b) \<Rightarrow> (rs, b, n)
     | (Some nxt, b) \<Rightarrow> (let (rs, n) = di_regions nxt local_base window_size entry_base (depth + 1) (rs, n) in (rs, b, n)))"

definition TimingCache_debug_mem_if :: "('n, 'r) finals \<Rightarrow> (('n, 'r) backdoor \<times> 'n, 'r) debug_if" where
  "TimingCache_debug_mem_if ports =
     \<lparr>di_access = TimingCache_debug_mem_access ports, di_regions = TimingCache_debug_mem_regions ports\<rparr>"

section \<open>The DRAM device\<close>

definition Dram_next_level_backdoor ::
    "('n, 'r) finals \<Rightarrow> ('n, 'r) backdoor \<Rightarrow> ('n, 'r) debug_if option \<times> ('n, 'r) backdoor" where
  "Dram_next_level_backdoor ports b =
     (let b = (if bd_resolved b then b
               else let b = b\<lparr>bd_resolved := True\<rparr>
                    in if ports \<noteq> [] \<and> hd ports \<noteq> None then b\<lparr>bd_next := the (hd ports)\<rparr> else b)
      in (bd_next b, b))"

definition Dram_debug_mem_access ::
    "('n, 'r) finals \<Rightarrow> u64 \<Rightarrow> u8 list \<Rightarrow> u64 \<Rightarrow> bool \<Rightarrow> ('n, 'r) backdoor \<times> 'n
      \<Rightarrow> int \<times> u8 list \<times> ('n, 'r) backdoor \<times> 'n" where
  "Dram_debug_mem_access ports addr buf sz w = (\<lambda>(b, n).
     case Dram_next_level_backdoor ports b of
       (None, b) \<Rightarrow> (-1, buf, b, n)
     | (Some nxt, b) \<Rightarrow> (let (rc, buf, n) = di_access nxt addr buf sz w n in (rc, buf, b, n)))"

definition Dram_debug_mem_regions ::
    "('n, 'r) finals \<Rightarrow> u64 \<Rightarrow> u64 \<Rightarrow> u64 \<Rightarrow> int \<Rightarrow> 'r list \<times> ('n, 'r) backdoor \<times> 'n
      \<Rightarrow> 'r list \<times> ('n, 'r) backdoor \<times> 'n" where
  "Dram_debug_mem_regions ports local_base window_size entry_base depth = (\<lambda>(rs, b, n).
     case Dram_next_level_backdoor ports b of
       (None, b) \<Rightarrow> (rs, b, n)
     | (Some nxt, b) \<Rightarrow> (let (rs, n) = di_regions nxt local_base window_size entry_base (depth + 1) (rs, n) in (rs, b, n)))"

definition Dram_debug_mem_if :: "('n, 'r) finals \<Rightarrow> (('n, 'r) backdoor \<times> 'n, 'r) debug_if" where
  "Dram_debug_mem_if ports =
     \<lparr>di_access = Dram_debug_mem_access ports, di_regions = Dram_debug_mem_regions ports\<rparr>"

text \<open>The two components have the same backdoor.\<close>

lemma Dram_is_transparent_too: "Dram_debug_mem_if = TimingCache_debug_mem_if"
  by (simp add: fun_eq_iff Dram_debug_mem_if_def TimingCache_debug_mem_if_def Dram_debug_mem_access_def TimingCache_debug_mem_access_def
      Dram_debug_mem_regions_def TimingCache_debug_mem_regions_def Dram_next_level_backdoor_def TimingCache_next_level_backdoor_def)

section \<open>The contract of a backdoor\<close>

definition dbg_served :: "u64 \<Rightarrow> u8 list \<Rightarrow> u64 \<Rightarrow> bool \<Rightarrow> nat \<Rightarrow> bytes \<Rightarrow> int \<times> u8 list \<Rightarrow> bytes \<Rightarrow> bool" where
  "dbg_served addr buf sz w msize m r m' \<longleftrightarrow>
     (if unat addr + unat sz \<le> msize
      then fst r = 0 \<and> m' = (if w then stored addr buf m else m) \<and> (\<not> w \<longrightarrow> snd r = loaded addr (unat sz) m)
      else fst r \<noteq> 0 \<and> m' = m)"

locale debug_level =
  fixes dbg :: "('n, 'r) debug_if" and ok :: "'n \<Rightarrow> bool" and content :: "'n \<Rightarrow> bytes" and msize :: nat
  assumes dbg_answers: "ok n \<Longrightarrow> length buf = unat sz \<Longrightarrow> \<exists>rc buf' n'. di_access dbg addr buf sz w n = (rc, buf', n') \<and> ok n'
      \<and> dbg_served addr buf sz w msize (content n) (rc, buf') (content n')"
begin

text \<open>A component wired to this one has looked it up already or is going to find it.\<close>

definition wired :: "('n, 'r) backdoor \<Rightarrow> bool" where
  "wired b \<longleftrightarrow> (bd_resolved b \<longrightarrow> bd_next b = Some dbg)"

lemma wired_finds: "wired b \<Longrightarrow> \<exists>b'. TimingCache_next_level_backdoor (Some (Some dbg) # rest) b = (Some dbg, b') \<and> wired b'"
  by (cases "bd_resolved b") (auto simp: TimingCache_next_level_backdoor_def wired_def Let_def)

lemma passed_on:
  assumes "wired b" and "ok n" and "length buf = unat sz"
  shows "\<exists>rc buf' b' n'. di_access (TimingCache_debug_mem_if (Some (Some dbg) # rest)) addr buf sz w (b, n) = (rc, buf', b', n')
    \<and> wired b' \<and> ok n' \<and> dbg_served addr buf sz w msize (content n) (rc, buf') (content n')"
proof -
  obtain b' where b: "TimingCache_next_level_backdoor (Some (Some dbg) # rest) b = (Some dbg, b')" "wired b'"
    using wired_finds [OF assms(1)] by blast
  obtain rc buf' n' where "di_access dbg addr buf sz w n = (rc, buf', n')" "ok n'"
    "dbg_served addr buf sz w msize (content n) (rc, buf') (content n')"
    using dbg_answers [OF assms(2,3)] by blast
  then show ?thesis using b by (simp add: TimingCache_debug_mem_if_def TimingCache_debug_mem_access_def)
qed

lemma regions_deeper:
  assumes "wired b"
  shows "\<exists>b'. di_regions (TimingCache_debug_mem_if (Some (Some dbg) # rest)) lb ws eb depth (rs, b, n)
    = (fst (di_regions dbg lb ws eb (depth + 1) (rs, n)), b', snd (di_regions dbg lb ws eb (depth + 1) (rs, n))) \<and> wired b'"
  using wired_finds [OF assms, of rest] by (auto simp: TimingCache_debug_mem_if_def TimingCache_debug_mem_regions_def split: prod.splits)

end

text \<open>So a component over a backdoor that meets the contract has one that does.\<close>

lemma debug_level_above:
  assumes "debug_level dbg ok content msize"
  shows "debug_level (TimingCache_debug_mem_if (Some (Some dbg) # rest))
    (\<lambda>(b, n). debug_level.wired dbg b \<and> ok n) (\<lambda>s. content (snd s)) msize"
proof (rule debug_level.intro)
  fix s :: "('a, 'b) backdoor \<times> 'a" and buf :: "u8 list" and sz addr :: u64 and w
  assume "case s of (b, n) \<Rightarrow> debug_level.wired dbg b \<and> ok n" and l: "length buf = unat sz"
  then obtain b n where s: "s = (b, n)" "debug_level.wired dbg b" "ok n" by (cases s) auto
  from debug_level.passed_on [OF assms s(2,3) l, of rest addr w]
  show "\<exists>rc buf' s'. di_access (TimingCache_debug_mem_if (Some (Some dbg) # rest)) addr buf sz w s = (rc, buf', s')
      \<and> (case s' of (b, n) \<Rightarrow> debug_level.wired dbg b \<and> ok n)
      \<and> dbg_served addr buf sz w msize (content (snd s)) (rc, buf') (content (snd s'))"
    unfolding s(1) by fastforce
qed

section \<open>The chain of the system\<close>

text \<open>
  Semihosting enters at the first-level cache; behind it are the L2, the DRAM device and the memory.
  Each keeps its own copy of what it looked up.
\<close>

type_synonym ('m, 'r) backdoors =
  "((('m, 'r) backdoor \<times> 'm, 'r) backdoor \<times> ('m, 'r) backdoor \<times> 'm, 'r) backdoor
    \<times> (('m, 'r) backdoor \<times> 'm, 'r) backdoor \<times> ('m, 'r) backdoor"

definition dram_debug :: "('m, 'r) debug_if \<Rightarrow> (('m, 'r) backdoor \<times> 'm, 'r) debug_if" where
  "dram_debug mem = Dram_debug_mem_if [Some (Some mem)]"

definition l2_debug :: "('m, 'r) debug_if \<Rightarrow> ((('m, 'r) backdoor \<times> 'm, 'r) backdoor \<times> ('m, 'r) backdoor \<times> 'm, 'r) debug_if" where
  "l2_debug mem = TimingCache_debug_mem_if [Some (Some (dram_debug mem))]"

definition l1_debug where
  "l1_debug mem = TimingCache_debug_mem_if [Some (Some (l2_debug mem))]"

text \<open>Each component has looked up the one behind it, or is going to find it.\<close>

definition wired_chain :: "('m, 'r) debug_if \<Rightarrow> ('m, 'r) backdoors \<Rightarrow> bool" where
  "wired_chain mem = (\<lambda>(b1, b2, b3). (bd_resolved b1 \<longrightarrow> bd_next b1 = Some (l2_debug mem))
     \<and> (bd_resolved b2 \<longrightarrow> bd_next b2 = Some (dram_debug mem)) \<and> (bd_resolved b3 \<longrightarrow> bd_next b3 = Some mem))"

lemma fresh_chain: "wired_chain mem (no_backdoor, no_backdoor, no_backdoor)"
  by (simp add: wired_chain_def no_backdoor_def)

lemma chain_level:
  assumes "debug_level mem ok content msize"
  shows "debug_level (l1_debug mem) (\<lambda>(b1, b2, b3, n). wired_chain mem (b1, b2, b3) \<and> ok n) (\<lambda>s. content (snd (snd (snd s)))) msize"
proof -
  note d3 = debug_level_above [OF assms, of "[]", folded Dram_is_transparent_too, folded dram_debug_def]
  note d2 = debug_level_above [OF d3, of "[]", folded l2_debug_def]
  note d1 = debug_level_above [OF d2, of "[]", folded l1_debug_def]
  have "(\<lambda>(b1, b2, b3, n). wired_chain mem (b1, b2, b3) \<and> ok n)
    = (\<lambda>(b, n). debug_level.wired (l2_debug mem) b \<and> (case n of (b, n) \<Rightarrow> debug_level.wired (dram_debug mem) b
        \<and> (case n of (b, n) \<Rightarrow> debug_level.wired mem b \<and> ok n)))"
    by (auto simp: fun_eq_iff wired_chain_def debug_level.wired_def [OF assms] debug_level.wired_def [OF d3] debug_level.wired_def [OF d2])
  then show ?thesis using d1 by simp
qed

text \<open>A memory's backdoor that meets the contract, to run the chain on.\<close>

definition plain_debug :: "nat \<Rightarrow> (bytes, 'r) debug_if" where
  "plain_debug msize =
     \<lparr>di_access = (\<lambda>addr buf sz w m. if unat addr + unat sz \<le> msize
        then (0, if w then buf else loaded addr (unat sz) m, if w then stored addr buf m else m) else (-1, buf, m)),
      di_regions = (\<lambda>lb ws eb depth s. s)\<rparr>"

lemma plain_debug_level: "debug_level (plain_debug msize) (\<lambda>_. True) id msize"
  by unfold_locales (simp add: plain_debug_def dbg_served_def)

interpretation semihost: debug_level "l1_debug (plain_debug msize)"
    "\<lambda>(b1, b2, b3, n). wired_chain (plain_debug msize) (b1, b2, b3) \<and> True" "\<lambda>s. id (snd (snd (snd s)))" msize
  for msize :: nat
  by (rule chain_level [OF plain_debug_level])

section \<open>Requests and backdoor accesses together\<close>

datatype mem_event = Request int io_req | Debug u64 "u8 list" u64 bool

text \<open>What the events give: a status or whether the backdoor took the access, with the bytes read.\<close>

datatype mem_answer = Answered io_status "u8 list" | Debugged bool "u8 list"

fun event_ok :: "mem_event \<Rightarrow> bool" where
  "event_ok (Request now rq) = (0 \<le> now \<and> rq_ok rq)"
| "event_ok (Debug addr buf sz w) = (length buf = unat sz)"

type_synonym ('m, 'r) system = "('m, 'r) backdoors \<times> cache \<times> cache \<times> dram_dev \<times> 'm"

fun system_step :: "'m next_level \<Rightarrow> ('m, 'r) debug_if \<Rightarrow> int \<Rightarrow> mem_event \<Rightarrow> ('m, 'r) system \<Rightarrow> (mem_answer \<times> ('m, 'r) system) option" where
  "system_step mem dbg period (Request now rq) (bds, s) = do {
     (r, s) \<leftarrow> hierarchy mem period now rq s;
     Some (case answer rq r of (st, bs) \<Rightarrow> Answered st bs, bds, s)
   }"
| "system_step mem dbg period (Debug addr buf sz w) ((b1, b2, b3), l1, l2, dev, n) =
     (let (rc, buf, b1, b2, b3, n) = di_access (l1_debug dbg) addr buf sz w (b1, b2, b3, n)
      in Some (Debugged (rc = 0) (if rc = 0 \<and> \<not> w then buf else []), (b1, b2, b3), l1, l2, dev, n))"

fun system_run :: "'m next_level \<Rightarrow> ('m, 'r) debug_if \<Rightarrow> int \<Rightarrow> mem_event list \<Rightarrow> ('m, 'r) system \<Rightarrow> (mem_answer list \<times> ('m, 'r) system) option" where
  "system_run mem dbg period [] s = Some ([], s)"
| "system_run mem dbg period (ev # evs) s = do {
     (a, s) \<leftarrow> system_step mem dbg period ev s;
     (as, s) \<leftarrow> system_run mem dbg period evs s;
     Some (a # as, s)
   }"

text \<open>The same events on an array of bytes.\<close>

fun flat_step :: "nat \<Rightarrow> mem_event \<Rightarrow> bytes \<Rightarrow> mem_answer \<times> bytes" where
  "flat_step msize (Request now rq) m =
     (if \<not> inside msize rq then (Answered IO_REQ_INVALID [], m)
      else if rq_write rq then (Answered IO_REQ_OK [], stored (rq_addr rq) (rq_data rq) m)
      else (Answered IO_REQ_OK (loaded (rq_addr rq) (unat (rq_size rq)) m), m))"
| "flat_step msize (Debug addr buf sz w) m =
     (if \<not> unat addr + unat sz \<le> msize then (Debugged False [], m)
      else if w then (Debugged True [], stored addr buf m)
      else (Debugged True (loaded addr (unat sz) m), m))"

fun flat_events :: "nat \<Rightarrow> mem_event list \<Rightarrow> bytes \<Rightarrow> mem_answer list \<times> bytes" where
  "flat_events msize [] m = ([], m)"
| "flat_events msize (ev # evs) m = (let (a, m) = flat_step msize ev m; (as, m) = flat_events msize evs m in (a # as, m))"

definition system_inv :: "('m, 'r) debug_if \<Rightarrow> ('m \<Rightarrow> bool) \<Rightarrow> nat \<Rightarrow> ('m, 'r) system \<Rightarrow> bool" where
  "system_inv dbg ok msize = (\<lambda>(bds, s). wired_chain dbg bds \<and> hierarchy_inv ok msize s)"

definition system_bytes :: "('m \<Rightarrow> bytes) \<Rightarrow> ('m, 'r) system \<Rightarrow> bytes" where
  "system_bytes content = (\<lambda>(bds, l1, l2, dev, n). content n)"

text \<open>The caches and the device hold no bytes: what the memory is replaced by behind them is seen.\<close>

lemma hierarchy_inv_memory:
  assumes "hierarchy_inv ok msize (l1, l2, dev, n)"
  shows "ok n" and "ok n' \<Longrightarrow> hierarchy_inv ok msize (l1, l2, dev, n')"
  using assms by (auto simp: hierarchy_inv_def level_inv_def dram_inv_def)

lemma system_step_is_flat:
  assumes "memory_level mem ok content msize" and "debug_level dbg ok content msize" and "0 < period"
    and "system_inv dbg ok msize s" and "event_ok ev"
  shows "\<exists>a s'. system_step mem dbg period ev s = Some (a, s') \<and> system_inv dbg ok msize s'
    \<and> flat_step msize ev (system_bytes content s) = (a, system_bytes content s')"
proof -
  obtain b1 b2 b3 l1 l2 dev n where s: "s = ((b1, b2, b3), l1, l2, dev, n)" by (cases s) auto
  have i: "wired_chain dbg (b1, b2, b3)" "hierarchy_inv ok msize (l1, l2, dev, n)" using assms(4) by (auto simp: s system_inv_def)
  show ?thesis
  proof (cases ev)
    case (Request now rq)
    then have "0 \<le> now" "rq_ok rq" using assms(5) by simp_all
    from memory_level.answers [OF hierarchy_level [OF assms(1,3) this(1)] i(2) this(2)] obtain r l1' l2' dev' n' where
      "hierarchy mem period now rq (l1, l2, dev, n) = Some (r, l1', l2', dev', n')" "hierarchy_inv ok msize (l1', l2', dev', n')"
      "if inside msize rq then served rq (content n) r (content n') else refused (content n) r (content n')"
      by (auto cong: if_cong)
    then show ?thesis using i(1)
      by (auto simp: s Request system_inv_def system_bytes_def answer_def served_def refused_def split: if_splits)
  next
    case (Debug addr buf sz w)
    have "length buf = unat sz" using assms(5) Debug by simp
    with debug_level.dbg_answers [OF chain_level [OF assms(2)], of "(b1, b2, b3, n)" buf sz addr w] i(1) hierarchy_inv_memory(1) [OF i(2)]
    obtain rc buf' b1' b2' b3' n' where d: "di_access (l1_debug dbg) addr buf sz w (b1, b2, b3, n) = (rc, buf', b1', b2', b3', n')"
      "wired_chain dbg (b1', b2', b3')" "ok n'" "dbg_served addr buf sz w msize (content n) (rc, buf') (content n')" by auto
    then show ?thesis using hierarchy_inv_memory(2) [OF i(2) d(3)]
      by (auto simp: s Debug system_inv_def system_bytes_def dbg_served_def split: if_splits)
  qed
qed

text \<open>What the memory lists, it lists at the depth of the chain.\<close>

lemma regions_from_the_memory:
  assumes "debug_level mem ok content msize" and "wired_chain mem (b1, b2, b3)"
  shows "fst (di_regions (l1_debug mem) lb ws eb depth (rs, b1, b2, b3, n)) = fst (di_regions mem lb ws eb (depth + 3) (rs, n))"
proof -
  note d3 = debug_level_above [OF assms(1), of "[]", folded Dram_is_transparent_too, folded dram_debug_def]
  note d2 = debug_level_above [OF d3, of "[]", folded l2_debug_def]
  have w: "debug_level.wired (l2_debug mem) b1" "debug_level.wired (dram_debug mem) b2" "debug_level.wired mem b3"
    using assms(2) by (simp_all add: wired_chain_def debug_level.wired_def [OF assms(1)] debug_level.wired_def [OF d3] debug_level.wired_def [OF d2])
  show ?thesis
    using debug_level.regions_deeper [OF d2 w(1), of "[]", folded l1_debug_def, of lb ws eb depth rs "(b2, b3, n)"]
      debug_level.regions_deeper [OF d3 w(2), of "[]", folded l2_debug_def, of lb ws eb "depth + 1" rs "(b3, n)"]
      debug_level.regions_deeper [OF assms(1) w(3), of "[]", folded Dram_is_transparent_too, folded dram_debug_def, of lb ws eb "depth + 2" rs n]
    by (auto simp: add.assoc)
qed

text \<open>
  C37. The memory system is transparent, from both sides. Over any memory whose port and backdoor meet
  their contracts, a run of requests through a first-level cache, the L2 and the DRAM device, each
  write-through or write-back, mixed in any order with semihosting's backdoor accesses, returns;
  it gives every request the status and the bytes, and every access its success and the bytes,
  that one plain array of bytes would give, leaves in the memory the bytes that array would hold,
  and keeps the invariant: no store is lost or stale to either side, and no write-back of a dirty
  line undoes what went in behind it.
\<close>

theorem memory_system_is_transparent:
  assumes "memory_level mem ok content msize" and "debug_level dbg ok content msize" and "0 < period"
    and "system_inv dbg ok msize s" and "list_all event_ok evs"
  shows "\<exists>as s'. system_run mem dbg period evs s = Some (as, s') \<and> system_inv dbg ok msize s'
    \<and> flat_events msize evs (system_bytes content s) = (as, system_bytes content s')"
  using assms(4,5)
proof (induction evs arbitrary: s)
  case (Cons ev evs)
  then obtain a s1 where 1: "system_step mem dbg period ev s = Some (a, s1)" "system_inv dbg ok msize s1"
    "flat_step msize ev (system_bytes content s) = (a, system_bytes content s1)"
    using system_step_is_flat [OF assms(1,2,3), of s ev] by auto
  from Cons.IH [OF 1(2)] Cons.prems(2) show ?case using 1(1,3) by auto
qed simp

text \<open>
  The store of the write-back cache's dirty line, a string written in behind it by the backdoor,
  and the load that finds both.
\<close>

lemma small_system_inv:
  "system_inv (plain_debug 256) (\<lambda>_. True) 256 ((no_backdoor, no_backdoor, no_backdoor), small_l1, small_cache, small_dev, m)"
  by (simp add: system_inv_def fresh_chain small_hierarchy_inv)

theorem memory_system_is_transparent_witness:
  "\<exists>s. system_run (plain_memory 256) (plain_debug 256 :: (bytes, nat) debug_if) 10000
      [Request 0 (side_req 200 2 True False [7, 9]), Debug 200 [5] 1 True, Request 9 (side_req 200 2 False False []),
       Debug 200 [0, 0] 2 False, Debug 255 [0, 0] 2 False]
      ((no_backdoor, no_backdoor, no_backdoor), small_l1, small_cache, small_dev, \<lambda>_. 0)
    = Some ([Answered IO_REQ_OK [], Debugged True [], Answered IO_REQ_OK [5, 9], Debugged True [5, 9], Debugged False []], s)"
proof -
  let ?evs = "[Request 0 (side_req 200 2 True False [7, 9]), Debug 200 [5] 1 True, Request 9 (side_req 200 2 False False []),
    Debug 200 [0, 0] 2 False, Debug 255 [0, 0] 2 False]"
  let ?m = "stored 200 [5] (stored 200 [7, 9] (\<lambda>_. 0))"
  have i: "inside 256 (side_req 200 2 w d bs)" for w d bs by (simp add: inside_def side_req_def)
  have l: "loaded 200 2 ?m = [5, 9]" by code_simp
  have f: "fst (flat_events 256 ?evs (\<lambda>_. 0))
    = [Answered IO_REQ_OK [], Debugged True [], Answered IO_REQ_OK [5, 9], Debugged True [5, 9], Debugged False []]"
    using i l by (simp add: side_req_def numeral_2_eq_2 [symmetric])
  have "list_all event_ok ?evs" by (simp add: rq_ok_def side_req_def)
  then obtain as s where
    "system_run (plain_memory 256) (plain_debug 256 :: (bytes, nat) debug_if) 10000 ?evs
      ((no_backdoor, no_backdoor, no_backdoor), small_l1, small_cache, small_dev, \<lambda>_. 0) = Some (as, s)"
    "flat_events 256 ?evs (system_bytes id ((no_backdoor, no_backdoor, no_backdoor) :: (bytes, nat) backdoors,
      small_l1, small_cache, small_dev, \<lambda>_. 0)) = (as, system_bytes id s)"
    using memory_system_is_transparent [OF plain_memory_level plain_debug_level _ small_system_inv, where period = 10000]
    by fastforce
  then show ?thesis using f by (intro exI [of _ s]) (auto simp: system_bytes_def simp del: system_run.simps flat_events.simps)
qed

end
