(* ===== verification/Mfcc.thy ===== *)
theory Mfcc
  imports Fpu
begin

text \<open>
  The MFCC front-end: \<open>runtime/common/kernels/mfcc_fp32.c\<close> and the streamed version
  \<open>runtime/snitch/kernels/mfcc_fp32_ssr.c\<close>, which has the same helpers.
  frame, window, radix-2 FFT, power, mel filterbank, log, DCT-II.
\<close>

section \<open>Arithmetic\<close>

text \<open>
  What the kernels need beyond the multiply-add: the values the compiler gives
  \<open>a * b + c * d\<close> and \<open>a * b - c * d\<close>, where it may fuse either product, \<open>logf\<close> of the C
  library, and the comparison.
\<close>

record mfpu = fpu +
  f_sum2 :: "u32 \<Rightarrow> u32 \<Rightarrow> u32 \<Rightarrow> u32 \<Rightarrow> u32"
  f_diff2 :: "u32 \<Rightarrow> u32 \<Rightarrow> u32 \<Rightarrow> u32 \<Rightarrow> u32"
  f_log :: "u32 \<Rightarrow> u32"
  f_gt :: "u32 \<Rightarrow> u32 \<Rightarrow> bool"

text \<open>\<open>1e-6f\<close>.\<close>

definition MFCC_LOG_FLOOR :: u32 where
  "MFCC_LOG_FLOOR = 0x358637BD"

section \<open>The FFT\<close>

definition bit_reverse :: "u32 \<Rightarrow> u32 \<Rightarrow> u32" where
  "bit_reverse i bits = for_u32 0 bits (\<lambda>b r. push_bit 1 r OR (drop_bit (unat b) i AND 1)) 0"

text \<open>
  \<open>while ((1u << bits) < n) bits++;\<close>. A shift by 32 is undefined; no array of more than
  \<open>2^30\<close> floats fits the address space, and the recursion stops there.
\<close>

function fft_bits :: "nat \<Rightarrow> u32 \<Rightarrow> nat" where
  "fft_bits bits n = (if bits < 32 \<and> push_bit bits 1 < n then fft_bits (bits + 1) n else bits)"
  by auto
termination by (relation "measure (\<lambda>(bits, n). 32 - bits)") auto

declare fft_bits.simps [simp del]

definition fft_swap :: "u32 \<Rightarrow> u32 \<Rightarrow> u32 \<Rightarrow> u32 \<Rightarrow> mem \<Rightarrow> mem" where
  "fft_swap re im bits i m =
     (let j = bit_reverse i bits
      in if i < j then
           let tr = ld32 m (elem re i); m = st32 m (elem re i) (ld32 m (elem re j)); m = st32 m (elem re j) tr;
               ti = ld32 m (elem im i); m = st32 m (elem im i) (ld32 m (elem im j))
           in st32 m (elem im j) ti
         else m)"

definition butterfly :: "'a mfpu_scheme \<Rightarrow> u32 \<Rightarrow> u32 \<Rightarrow> u32 \<Rightarrow> u32 \<Rightarrow> u32 \<Rightarrow> u32 \<Rightarrow> u32 \<Rightarrow> mem \<Rightarrow> mem" where
  "butterfly fp re im half j wr wi base m =
     (let a = base + j; b = a + half;
          xr = ld32 m (elem re b); xi = ld32 m (elem im b);
          vr = f_diff2 fp xr wr xi wi; vi = f_sum2 fp xr wi xi wr;
          ur = ld32 m (elem re a); ui = ld32 m (elem im a);
          m = st32 m (elem re a) (f_add fp ur vr); m = st32 m (elem im a) (f_add fp ui vi);
          m = st32 m (elem re b) (f_sub fp ur vr)
      in st32 m (elem im b) (f_sub fp ui vi))"

text \<open>\<open>for (base = 0; base < n; base += len)\<close>: the counter stays below \<open>n + len\<close>, which is at most \<open>2^31\<close>.\<close>

definition fft_bases :: "u32 \<Rightarrow> u32 \<Rightarrow> u32 list" where
  "fft_bases n len = map (\<lambda>k. of_nat k * len) [0..<(unat n + unat len - 1) div unat len]"

definition fft_stage :: "'a mfpu_scheme \<Rightarrow> u32 \<Rightarrow> u32 \<Rightarrow> u32 \<Rightarrow> u32 \<Rightarrow> u32 \<Rightarrow> mem \<Rightarrow> mem" where
  "fft_stage fp re im n tw len =
     (let half = drop_bit 1 len; step = n div len
      in for_u32 0 half (\<lambda>j m.
           let wr = ld32 m (elem tw (2 * j * step)); wi = ld32 m (elem tw (2 * j * step + 1))
           in fold (butterfly fp re im half j wr wi) (fft_bases n len) m))"

text \<open>\<open>for (len = 2; len <= n; len <<= 1)\<close>, for \<open>n\<close> below \<open>2^31\<close>.\<close>

definition fft_lens :: "u32 \<Rightarrow> u32 list" where
  "fft_lens n = takeWhile (\<lambda>len. len \<le> n) (map (\<lambda>k. push_bit k 1) [1..<32])"

definition fft_radix2 :: "'a mfpu_scheme \<Rightarrow> u32 \<Rightarrow> u32 \<Rightarrow> u32 \<Rightarrow> u32 \<Rightarrow> mem \<Rightarrow> mem" where
  "fft_radix2 fp re im n tw m =
     (let bits = of_nat (fft_bits 0 n); m = for_u32 0 n (fft_swap re im bits) m
      in fold (fft_stage fp re im n tw) (fft_lens n) m)"

section \<open>The portable kernel\<close>

definition mfcc_window :: "'a mfpu_scheme \<Rightarrow> u32 \<Rightarrow> u32 \<Rightarrow> u32 \<Rightarrow> u32 \<Rightarrow> u32 \<Rightarrow> u32 \<Rightarrow> mem \<Rightarrow> mem" where
  "mfcc_window fp frame window re im frame_len fft_len m =
     (let m = for_u32 0 frame_len (\<lambda>i m.
            st32 (st32 m (elem re i) (f_mul fp (ld32 m (elem frame i)) (ld32 m (elem window i)))) (elem im i) 0) m
      in for_u32 frame_len fft_len (\<lambda>i m. st32 (st32 m (elem re i) 0) (elem im i) 0) m)"

definition mfcc_power :: "'a mfpu_scheme \<Rightarrow> u32 \<Rightarrow> u32 \<Rightarrow> u32 \<Rightarrow> mem \<Rightarrow> mem" where
  "mfcc_power fp re im fft_len =
     for_u32 0 (fft_len div 2 + 1) (\<lambda>b m.
       st32 m (elem re b) (f_sum2 fp (ld32 m (elem re b)) (ld32 m (elem re b)) (ld32 m (elem im b)) (ld32 m (elem im b))))"

definition mfcc_mel :: "'a mfpu_scheme \<Rightarrow> u32 \<Rightarrow> u32 \<Rightarrow> u32 \<Rightarrow> u32 \<Rightarrow> u32 \<Rightarrow> u32 \<Rightarrow> mem \<Rightarrow> mem" where
  "mfcc_mel fp re mel mel_coeff mel_start mel_len nb_mel m =
     snd (for_u32 0 nb_mel (\<lambda>k (off, m).
       let start = ucast (ld16 m (mel_start + 2 * k)); len = ucast (ld16 m (mel_len + 2 * k));
           acc = for_u32 0 len (\<lambda>i acc. mac fp acc (ld32 m (elem re (start + i))) (ld32 m (elem mel_coeff (off + i)))) 0;
           v = f_log fp (if f_gt fp acc MFCC_LOG_FLOOR then acc else MFCC_LOG_FLOOR)
       in (off + len, st32 m (elem mel k) v)) (0, m))"

definition mfcc_dct :: "'a mfpu_scheme \<Rightarrow> u32 \<Rightarrow> u32 \<Rightarrow> u32 \<Rightarrow> u32 \<Rightarrow> u32 \<Rightarrow> mem \<Rightarrow> mem" where
  "mfcc_dct fp mel dct dst nb_mel c m =
     (let row = elem dct (c * nb_mel);
          acc = for_u32 0 nb_mel (\<lambda>k acc. mac fp acc (ld32 m (elem row k)) (ld32 m (elem mel k))) 0
      in st32 m (elem dst c) acc)"

text \<open>The first three stages, the same in both kernels.\<close>

definition mfcc_spectrum ::
    "'a mfpu_scheme \<Rightarrow> u32 \<Rightarrow> u32 \<Rightarrow> u32 \<Rightarrow> u32 \<Rightarrow> u32 \<Rightarrow> u32 \<Rightarrow> u32 \<Rightarrow> u32 \<Rightarrow> mem \<Rightarrow> mem" where
  "mfcc_spectrum fp audio frame_len hop fft_len window twiddles scratch t m =
     (let re = scratch; im = elem scratch fft_len;
          m = mfcc_window fp (elem audio (t * hop)) window re im frame_len fft_len m;
          m = fft_radix2 fp re im fft_len twiddles m
      in mfcc_power fp re im fft_len m)"

definition Mfcc_generic ::
    "'a mfpu_scheme \<Rightarrow> u32 \<Rightarrow> u32 \<Rightarrow> u32 \<Rightarrow> u32 \<Rightarrow> u32 \<Rightarrow> u32 \<Rightarrow> u32 \<Rightarrow> u32 \<Rightarrow> u32 \<Rightarrow> u32 \<Rightarrow> u32 \<Rightarrow> u32 \<Rightarrow> u32
      \<Rightarrow> u32 \<Rightarrow> u32 \<Rightarrow> mem \<Rightarrow> mem" where
  "Mfcc_generic fp audio out nb_frames frame_len hop fft_len window twiddles mel_coeff mel_start mel_len nb_mel dct nb_cep scratch m =
     for_u32 0 nb_frames (\<lambda>t m.
       let re = scratch; mel = elem scratch (2 * fft_len);
           m = mfcc_spectrum fp audio frame_len hop fft_len window twiddles scratch t m;
           m = mfcc_mel fp re mel mel_coeff mel_start mel_len nb_mel m
       in for_u32 0 nb_cep (mfcc_dct fp mel dct (elem out (t * nb_cep)) nb_mel) m) m"

section \<open>The streamed kernel\<close>

definition UNROLL :: u32 where "UNROLL = 4"

text \<open>One filter's energy: four accumulators fed by two unit-stride streams, and the tail.\<close>

definition mel_energy :: "'a mfpu_scheme \<Rightarrow> mem \<Rightarrow> u32 \<Rightarrow> u32 \<Rightarrow> u32 \<Rightarrow> ssrs \<Rightarrow> ssrs \<times> u32" where
  "mel_energy fp m pw coeff len S =
     (let stride = 4; blocks = len div UNROLL;
          (S, acc) =
            (if blocks \<noteq> 0 then
               let S = ssr_repeat SSR_DM0 1 S; S = ssr_repeat SSR_DM1 1 S;
                   S = ssr_loop_1d SSR_DM0 (blocks * UNROLL) stride S; S = ssr_loop_1d SSR_DM1 (blocks * UNROLL) stride S;
                   S = ssr_read SSR_DM0 SSR_1D pw S; S = ssr_read SSR_DM1 SSR_1D coeff S;
                   (S, a) = frep_lanes fp m 4 (blocks - 1) (S, replicate 4 0)
               in (S, f_add fp (f_add fp (a ! 0) (a ! 1)) (f_add fp (a ! 2) (a ! 3)))
             else (S, 0))
      in (S, for_u32 (blocks * UNROLL) len (\<lambda>i acc. mac fp acc (ld32 m (elem pw i)) (ld32 m (elem coeff i))) acc))"

definition mfcc_mel_ssr :: "'a mfpu_scheme \<Rightarrow> u32 \<Rightarrow> u32 \<Rightarrow> u32 \<Rightarrow> u32 \<Rightarrow> u32 \<Rightarrow> u32 \<Rightarrow> ssrs \<times> mem \<Rightarrow> ssrs \<times> mem" where
  "mfcc_mel_ssr fp re mel mel_coeff mel_start mel_len nb_mel s =
     snd (for_u32 0 nb_mel (\<lambda>k (off, S, m).
       let len = ucast (ld16 m (mel_len + 2 * k));
           (S, acc) = mel_energy fp m (elem re (ucast (ld16 m (mel_start + 2 * k)))) (elem mel_coeff off) len S;
           v = f_log fp (if f_gt fp acc MFCC_LOG_FLOOR then acc else MFCC_LOG_FLOOR)
       in (off + len, S, st32 m (elem mel k) v)) (0, s))"

text \<open>One block of four cepstra: both streams are armed again, then the FREP body and four stores.\<close>

definition mfcc_dct_block :: "'a mfpu_scheme \<Rightarrow> u32 \<Rightarrow> u32 \<Rightarrow> u32 \<Rightarrow> u32 \<Rightarrow> u32 \<Rightarrow> ssrs \<times> mem \<times> u32 \<Rightarrow> ssrs \<times> mem \<times> u32" where
  "mfcc_dct_block fp mel dct dst nb_mel b = (\<lambda>(S, m, c).
     let stride = 4;
         S = ssr_loop_1d SSR_DM0 nb_mel stride S; S = ssr_loop_2d SSR_DM1 UNROLL nb_mel (nb_mel * stride) stride S;
         S = ssr_read SSR_DM0 SSR_1D mel S; S = ssr_read SSR_DM1 SSR_2D (elem dct (c * nb_mel)) S;
         (S, a) = frep_lanes fp m 4 (nb_mel - 1) (S, replicate 4 0);
         m = st32 m (elem dst c) (a ! 0); m = st32 m (elem dst (c + 1)) (a ! 1);
         m = st32 m (elem dst (c + 2)) (a ! 2); m = st32 m (elem dst (c + 3)) (a ! 3)
     in (S, m, c + UNROLL))"

definition mfcc_dct_ssr :: "'a mfpu_scheme \<Rightarrow> u32 \<Rightarrow> u32 \<Rightarrow> u32 \<Rightarrow> u32 \<Rightarrow> u32 \<Rightarrow> ssrs \<times> mem \<Rightarrow> ssrs \<times> mem" where
  "mfcc_dct_ssr fp mel dct dst nb_mel nb_cep = (\<lambda>(S, m).
     let cep_blocks = nb_cep div UNROLL;
         (S, m, c) =
           (if cep_blocks \<noteq> 0 then
              let S = ssr_repeat SSR_DM0 UNROLL S; S = ssr_repeat SSR_DM1 1 S
              in for_u32 0 cep_blocks (mfcc_dct_block fp mel dct dst nb_mel) (S, m, 0)
            else (S, m, 0))
     in (S, for_u32 c nb_cep (mfcc_dct fp mel dct dst nb_mel) m))"

definition Mfcc_ssr ::
    "'a mfpu_scheme \<Rightarrow> u32 \<Rightarrow> u32 \<Rightarrow> u32 \<Rightarrow> u32 \<Rightarrow> u32 \<Rightarrow> u32 \<Rightarrow> u32 \<Rightarrow> u32 \<Rightarrow> u32 \<Rightarrow> u32 \<Rightarrow> u32 \<Rightarrow> u32 \<Rightarrow> u32
      \<Rightarrow> u32 \<Rightarrow> u32 \<Rightarrow> ssrs \<times> mem \<Rightarrow> ssrs \<times> mem" where
  "Mfcc_ssr fp audio out nb_frames frame_len hop fft_len window twiddles mel_coeff mel_start mel_len nb_mel dct nb_cep scratch s =
     (if nb_frames = 0 \<or> nb_mel = 0 \<or> nb_cep = 0 then s
      else for_u32 0 nb_frames (\<lambda>t (S, m).
        let re = scratch; mel = elem scratch (2 * fft_len);
            m = mfcc_spectrum fp audio frame_len hop fft_len window twiddles scratch t m;
            s = mfcc_mel_ssr fp re mel mel_coeff mel_start mel_len nb_mel (S, m)
        in mfcc_dct_ssr fp mel dct (elem out (t * nb_cep)) nb_mel nb_cep s) s)"

end
