(* ===== verification/FftSpec.thy ===== *)
theory FftSpec
  imports Main
begin

text \<open>
  The radix-2 FFT away from memory and floating point: bit reversal, the textbook recursion,
  and the passes over a bit-reversed array, with the butterfly as a parameter. The passes
  compute the recursion whatever the butterfly is; when it is exact arithmetic over a root of
  unity, the recursion computes the discrete Fourier transform.
\<close>

section \<open>Bit reversal\<close>

fun rev_bits :: "nat \<Rightarrow> nat \<Rightarrow> nat" where
  "rev_bits 0 i = 0"
| "rev_bits (Suc k) i = 2 ^ k * (i mod 2) + rev_bits k (i div 2)"

lemma rev_bits_lt: "rev_bits k i < 2 ^ k"
proof (induction k arbitrary: i)
  case (Suc k)
  have "rev_bits k (i div 2) < 2 ^ k" by (rule Suc.IH)
  moreover have "2 ^ k * (i mod 2) \<le> 2 ^ k" by (cases "i mod 2 = 0") auto
  ultimately have "2 ^ k * (i mod 2) + rev_bits k (i div 2) < 2 ^ k + 2 ^ k" by linarith
  then show ?case by simp
qed simp

lemma rev_bits_double: "rev_bits (Suc k) (2 * i) = rev_bits k i" "rev_bits (Suc k) (2 * i + 1) = 2 ^ k + rev_bits k i"
  by simp_all

text \<open>Taking the bits from the other end.\<close>

lemma rev_bits_Suc': "rev_bits (Suc k) i = 2 * rev_bits k i + i div 2 ^ k mod 2"
proof (induction k arbitrary: i)
  case (Suc k)
  have "rev_bits (Suc (Suc k)) i = 2 ^ Suc k * (i mod 2) + rev_bits (Suc k) (i div 2)" by simp
  also have "\<dots> = 2 * rev_bits (Suc k) i + i div 2 ^ Suc k mod 2"
    unfolding Suc.IH [of "i div 2"] by (simp add: div_mult2_eq)
  finally show ?case .
qed simp

lemma rev_bits_rev: "i < 2 ^ k \<Longrightarrow> rev_bits k (rev_bits k i) = i"
proof (induction k arbitrary: i)
  case (Suc k)
  have lt: "rev_bits k (i div 2) < 2 ^ k" by (rule rev_bits_lt)
  have d: "i div 2 < 2 ^ k" using Suc.prems by simp
  have "rev_bits (Suc k) (rev_bits (Suc k) i) = 2 * rev_bits k (rev_bits (Suc k) i) + rev_bits (Suc k) i div 2 ^ k mod 2"
    by (rule rev_bits_Suc')
  moreover have "rev_bits (Suc k) i div 2 ^ k = i mod 2" using lt by (simp add: div_mult_self4)
  moreover have "rev_bits k (rev_bits (Suc k) i) = i div 2"
  proof -
    have "rev_bits k (2 ^ k * q + r) = rev_bits k r" if "r < 2 ^ k" for q r
      using that
    proof (induction k arbitrary: r)
      case (Suc k)
      have "(2 ^ Suc k * q + r) mod 2 = r mod 2" by (simp add: mod_mult_self4 mult.assoc)
      moreover have "(2 ^ Suc k * q + r) div 2 = 2 ^ k * q + r div 2" by (simp add: mult.assoc)
      ultimately show ?case using Suc.IH [of "r div 2"] Suc.prems by simp
    qed simp
    from this [OF lt, of "i mod 2"] show ?thesis using Suc.IH [OF d] by simp
  qed
  ultimately show ?case by simp
qed simp

section \<open>The recursion\<close>

text \<open>\<open>bf w u v\<close> is the pair \<open>u + w v\<close>, \<open>u - w v\<close>; the twiddle of index \<open>j\<close> is \<open>tw j\<close>, of \<open>2 ^ L\<close> points.\<close>

fun dit :: "('w \<Rightarrow> 'a \<Rightarrow> 'a \<Rightarrow> 'a \<times> 'a) \<Rightarrow> (nat \<Rightarrow> 'w) \<Rightarrow> nat \<Rightarrow> nat \<Rightarrow> (nat \<Rightarrow> 'a) \<Rightarrow> nat \<Rightarrow> 'a" where
  "dit bf tw L 0 x i = x 0"
| "dit bf tw L (Suc k) x i =
     (if i < 2 ^ k
      then fst (bf (tw (i * 2 ^ (L - Suc k))) (dit bf tw L k (\<lambda>t. x (2 * t)) i) (dit bf tw L k (\<lambda>t. x (2 * t + 1)) i))
      else snd (bf (tw ((i - 2 ^ k) * 2 ^ (L - Suc k))) (dit bf tw L k (\<lambda>t. x (2 * t)) (i - 2 ^ k))
                  (dit bf tw L k (\<lambda>t. x (2 * t + 1)) (i - 2 ^ k))))"

section \<open>The passes\<close>

text \<open>One pass over the whole array, pairs \<open>2 ^ s\<close> apart, all butterflies at once.\<close>

definition pass :: "('w \<Rightarrow> 'a \<Rightarrow> 'a \<Rightarrow> 'a \<times> 'a) \<Rightarrow> (nat \<Rightarrow> 'w) \<Rightarrow> nat \<Rightarrow> nat \<Rightarrow> (nat \<Rightarrow> 'a) \<Rightarrow> nat \<Rightarrow> 'a" where
  "pass bf tw L s z i =
     (let r = i mod 2 ^ Suc s
      in if r < 2 ^ s then fst (bf (tw (r * 2 ^ (L - Suc s))) (z i) (z (i + 2 ^ s)))
         else snd (bf (tw ((r - 2 ^ s) * 2 ^ (L - Suc s))) (z (i - 2 ^ s)) (z i)))"

lemma half_block:
  fixes i :: nat
  assumes "i mod 2 ^ Suc s < 2 ^ s"
  shows "i div 2 ^ s = 2 * (i div 2 ^ Suc s)" "i mod 2 ^ s = i mod 2 ^ Suc s"
    "(i + 2 ^ s) div 2 ^ s = 2 * (i div 2 ^ Suc s) + 1" "(i + 2 ^ s) mod 2 ^ s = i mod 2 ^ Suc s"
proof -
  let ?q = "i div 2 ^ Suc s" and ?r = "i mod 2 ^ Suc s"
  have i: "i = (2 * ?q) * 2 ^ s + ?r" using div_mult_mod_eq [of i "2 ^ Suc s"] by (simp add: algebra_simps)
  show d: "i div 2 ^ s = 2 * ?q" using assms i by (metis add.right_neutral div_less div_mult_self3 power_not_zero zero_neq_numeral)
  show m: "i mod 2 ^ s = ?r" using assms i by (metis mod_less mod_mult_self3)
  show "(i + 2 ^ s) div 2 ^ s = 2 * ?q + 1" "(i + 2 ^ s) mod 2 ^ s = ?r"
    using d m div_add_self2 [of "2 ^ s" i] by simp_all
qed

lemma upper_block:
  fixes i :: nat
  assumes "\<not> i mod 2 ^ Suc s < 2 ^ s"
  shows "2 ^ s \<le> i" "i div 2 ^ Suc s = (i - 2 ^ s) div 2 ^ Suc s" "(i - 2 ^ s) mod 2 ^ Suc s = i mod 2 ^ Suc s - 2 ^ s"
proof -
  let ?q = "i div 2 ^ Suc s" and ?r = "i mod 2 ^ Suc s"
  have r: "2 ^ s \<le> ?r" "?r < 2 ^ Suc s" using assms by simp_all
  have i: "i = ?q * 2 ^ Suc s + ?r" by (rule div_mult_mod_eq [symmetric])
  show le: "2 ^ s \<le> i" using r(1) mod_less_eq_dividend [of i "2 ^ Suc s"] by linarith
  have e: "i - 2 ^ s = ?q * 2 ^ Suc s + (?r - 2 ^ s)" using i r(1) by linarith
  have lt: "?r - 2 ^ s < 2 ^ Suc s" using r(2) by linarith
  show "?q = (i - 2 ^ s) div 2 ^ Suc s" unfolding e using lt by simp
  show "(i - 2 ^ s) mod 2 ^ Suc s = ?r - 2 ^ s" unfolding e using lt by simp
qed

text \<open>
  After \<open>s\<close> passes over the bit-reversed input, block \<open>b\<close> of \<open>2 ^ s\<close> elements is the recursion's
  answer on every \<open>2 ^ (L - s)\<close>-th input from the one \<open>b\<close> reverses to.
\<close>

lemma passes_blocks:
  assumes "s \<le> L"
  shows "fold (pass bf tw L) [0..<s] (\<lambda>i. x (rev_bits L i)) i
    = dit bf tw L s (\<lambda>t. x (rev_bits (L - s) (i div 2 ^ s) + 2 ^ (L - s) * t)) (i mod 2 ^ s)"
  using assms
proof (induction s arbitrary: i)
  case 0
  then show ?case by simp
next
  case (Suc s)
  let ?b = "i div 2 ^ Suc s" and ?r = "i mod 2 ^ Suc s"
  have Ls: "L - s = Suc (L - Suc s)" using Suc.prems by simp
  define z where "z = fold (pass bf tw L) [0..<s] (\<lambda>i. x (rev_bits L i))"
  have z: "z j = dit bf tw L s (\<lambda>t. x (rev_bits (L - s) (j div 2 ^ s) + 2 ^ (L - s) * t)) (j mod 2 ^ s)" for j
    unfolding z_def using Suc.IH [of j] Suc.prems by simp
  have step: "fold (pass bf tw L) [0..<Suc s] (\<lambda>i. x (rev_bits L i)) i = pass bf tw L s z i" by (simp add: z_def)
  let ?x = "\<lambda>t. x (rev_bits (L - Suc s) ?b + 2 ^ (L - Suc s) * t)"
  have ev: "dit bf tw L s (\<lambda>t. x (rev_bits (L - s) (2 * ?b) + 2 ^ (L - s) * t)) = dit bf tw L s (\<lambda>t. ?x (2 * t))"
    unfolding Ls rev_bits_double by (rule arg_cong [of _ _ "dit bf tw L s"]) (simp add: mult.assoc mult.left_commute fun_eq_iff)
  have od: "dit bf tw L s (\<lambda>t. x (rev_bits (L - s) (2 * ?b + 1) + 2 ^ (L - s) * t)) = dit bf tw L s (\<lambda>t. ?x (2 * t + 1))"
    unfolding Ls rev_bits_double by (rule arg_cong [of _ _ "dit bf tw L s"]) (simp add: algebra_simps fun_eq_iff)
  show ?case
  proof (cases "?r < 2 ^ s")
    case True
    note h = half_block [OF True]
    show ?thesis unfolding step pass_def [of bf tw L s z i] Let_def z h ev od by (simp only: dit.simps True if_True)
  next
    case False
    note u = upper_block [OF False]
    have "?r < 2 * 2 ^ s" by simp
    then have lo: "(i - 2 ^ s) mod 2 ^ Suc s < 2 ^ s" using u(3) False by linarith
    note h = half_block [OF lo]
    have b: "(i - 2 ^ s) div 2 ^ Suc s = ?b" using u(2) by simp
    have i: "i - 2 ^ s + 2 ^ s = i" using u(1) by simp
    show ?thesis unfolding step pass_def [of bf tw L s z i] Let_def z h [unfolded i b u(3)] ev od
      by (simp only: dit.simps False if_False)
  qed
qed

lemma passes_are_dit: "i < 2 ^ L \<Longrightarrow> fold (pass bf tw L) [0..<L] (\<lambda>i. x (rev_bits L i)) i = dit bf tw L L x i"
  using passes_blocks [of L L bf tw x i] by simp

section \<open>The transform\<close>

text \<open>Exact arithmetic, in any commutative ring with \<open>\<omega>\<close> such that \<open>\<omega> ^ (2 ^ L / 2) = -1\<close>.\<close>

definition ring_bf :: "'r \<Rightarrow> 'r \<Rightarrow> 'r \<Rightarrow> 'r::comm_ring_1 \<times> 'r" where
  "ring_bf w u v = (u + v * w, u - v * w)"

lemma ring_bf [simp]: "fst (ring_bf w u v) = u + v * w" "snd (ring_bf w u v) = u - v * w"
  by (simp_all add: ring_bf_def)

definition dft :: "'r::comm_ring_1 \<Rightarrow> nat \<Rightarrow> (nat \<Rightarrow> 'r) \<Rightarrow> nat \<Rightarrow> 'r" where
  "dft w n x i = (\<Sum>t<n. x t * w ^ (i * t))"

lemma sum_even_odd:
  fixes n :: nat and f :: "nat \<Rightarrow> 'r::comm_monoid_add"
  shows "(\<Sum>t<2 * n. f t) = (\<Sum>t<n. f (2 * t)) + (\<Sum>t<n. f (2 * t + 1))"
  by (induction n) (simp_all add: ac_simps)

lemma dit_dft:
  fixes w :: "'r::comm_ring_1"
  assumes "w ^ (2 ^ (L - 1)) = -1" and "k \<le> L" and "i < 2 ^ k"
  shows "dit ring_bf (\<lambda>j. w ^ j) L k x i = dft (w ^ (2 ^ (L - k))) (2 ^ k) x i"
  using assms(2,3)
proof (induction k arbitrary: x i)
  case 0
  then show ?case by (simp add: dft_def)
next
  case (Suc k)
  let ?v = "w ^ 2 ^ (L - Suc k)"
  have Lk: "L - k = Suc (L - Suc k)" using Suc.prems by simp
  have v2: "w ^ 2 ^ (L - k) = ?v ^ 2" unfolding Lk by (simp flip: power_mult add: mult.commute)
  have vh: "?v ^ 2 ^ k = -1"
  proof -
    have "2 ^ (L - Suc k) * 2 ^ k = (2::nat) ^ (L - 1)" using Suc.prems by (simp flip: power_add)
    then show ?thesis using assms(1) by (simp flip: power_mult)
  qed
  have split: "dft ?v (2 ^ Suc k) x j = dft (?v ^ 2) (2 ^ k) (\<lambda>t. x (2 * t)) j + ?v ^ j * dft (?v ^ 2) (2 ^ k) (\<lambda>t. x (2 * t + 1)) j" for j
    unfolding dft_def power_Suc sum_even_odd sum_distrib_left
    by (intro arg_cong2 [of _ _ _ _ "(+)"] sum.cong refl) (simp_all flip: power_mult add: power_add algebra_simps)
  have per: "dft (?v ^ 2) (2 ^ k) y (j + 2 ^ k) = dft (?v ^ 2) (2 ^ k) y j" for y j
  proof -
    have "(?v ^ 2) ^ (2 ^ k * t) = 1" for t
    proof -
      have "(?v ^ 2) ^ (2 ^ k * t) = ((?v ^ 2 ^ k) ^ 2) ^ t" by (simp flip: power_mult add: mult_ac)
      then show ?thesis by (simp add: vh)
    qed
    then show ?thesis unfolding dft_def by (intro sum.cong refl) (simp add: distrib_right power_add)
  qed
  have vj: "?v ^ (j + 2 ^ k) = - (?v ^ j)" for j by (simp add: power_add vh)
  show ?case
  proof (cases "i < 2 ^ k")
    case True
    have "dit ring_bf (\<lambda>j. w ^ j) L k y i = dft (?v ^ 2) (2 ^ k) y i" for y
      using Suc.IH [OF _ True] Suc.prems by (simp add: v2)
    moreover have "w ^ (i * 2 ^ (L - Suc k)) = ?v ^ i" by (simp flip: power_mult add: mult.commute)
    ultimately show ?thesis
      by (simp only: dit.simps True if_True ring_bf split) (simp only: mult.commute)
  next
    case False
    then obtain j where j: "i = j + 2 ^ k" "j < 2 ^ k" using Suc.prems by (metis add.commute le_add_diff_inverse
      less_diff_conv2 mult_2 not_less power_Suc)
    have "dit ring_bf (\<lambda>j. w ^ j) L k y j = dft (?v ^ 2) (2 ^ k) y j" for y
      using Suc.IH [OF _ j(2)] Suc.prems by (simp add: v2)
    moreover have "w ^ (j * 2 ^ (L - Suc k)) = ?v ^ j" by (simp flip: power_mult add: mult.commute)
    ultimately show ?thesis
      by (simp only: dit.simps j(1) ring_bf split per vj not_add_less2 if_False diff_add_inverse2)
        (simp add: mult.commute)
  qed
qed

end
