(* ===== verification/MfccFft.thy ===== *)
theory MfccFft
  imports Fpu Mfcc FftSpec
begin

text \<open>
  The FFT of the front-end computes what the recursion of \<open>FftSpec\<close> computes, to the last bit:
  the swaps reverse the index bits, each pass is one level of the recursion, and nothing but
  the two arrays changes.
\<close>

section \<open>Two arrays as one of pairs\<close>

definition cplx :: "mem \<Rightarrow> u32 \<Rightarrow> u32 \<Rightarrow> nat \<Rightarrow> u32 \<times> u32" where
  "cplx m re im i = (ld32 m (re + 4 * of_nat i), ld32 m (im + 4 * of_nat i))"

definition put :: "u32 \<Rightarrow> u32 \<Rightarrow> nat \<Rightarrow> (nat \<Rightarrow> u32 \<times> u32) \<Rightarrow> mem \<Rightarrow> mem" where
  "put re im n z m = outs im (\<lambda>i. snd (z i)) [0..<n] (outs re (\<lambda>i. fst (z i)) [0..<n] m)"

definition split_ok :: "u32 \<Rightarrow> u32 \<Rightarrow> nat \<Rightarrow> bool" where
  "split_ok re im n \<longleftrightarrow> 4 * n \<le> 4294967296 \<and> span re (4 * n) \<inter> span im (4 * n) = {}"

lemma st32_ld32: "st32 m a (ld32 m a) = m"
proof -
  have b: "ucast (ld32 m a) = m a" "ucast (drop_bit 8 (ld32 m a)) = m (a + 1)"
    "ucast (drop_bit 16 (ld32 m a)) = m (a + 2)" "ucast (drop_bit 24 (ld32 m a)) = m (a + 3)"
    by ((rule bit_word_eqI), (auto simp: ld32_def bit_simps dest: bit_imp_le_length)[1])+
  show ?thesis by (rule ext) (simp add: st32_def b)
qed

lemma outs_own: "outs Y (\<lambda>e. ld32 m (Y + 4 * of_nat e)) es m = m"
  by (induction es) (simp_all add: outs_def st32_ld32)

lemma put_own: "put re im n (cplx m re im) m = m"
  by (simp add: put_def cplx_def outs_own)

lemma st32_outs:
  assumes "e < n" and "4 * n \<le> 4294967296"
  shows "st32 (outs Y v [0..<n] m) (Y + 4 * of_nat e) w = outs Y (v(e := w)) [0..<n] m"
proof -
  let ?r = "filter (\<lambda>i. i \<noteq> e) [0..<n]"
  have p: "mset [0..<n] = mset (?r @ [e])"
    using assms(1) by (intro set_eq_iff_mset_eq_distinct [THEN iffD1]) auto
  have a: "outs Y u [0..<n] m = outs Y u (?r @ [e]) m" for u
    by (rule outs_permute [OF assms(2) _ p]) auto
  have "st32 (outs Y v [0..<n] m) (Y + 4 * of_nat e) w = st32 (outs Y v ?r m) (Y + 4 * of_nat e) w"
    unfolding a [of v] outs_snoc st32_twice ..
  also have "outs Y v ?r m = outs Y (v(e := w)) ?r m" by (rule outs_cong) auto
  finally show ?thesis unfolding a [of "v(e := w)"] outs_snoc by simp
qed

lemma st32_outs_other:
  assumes "span a 4 \<inter> span Y (4 * n) = {}" and "set es \<subseteq> {..<n}"
  shows "st32 (outs Y v es m) a w = outs Y v es (st32 m a w)"
  using assms(2)
proof (induction es arbitrary: m)
  case (Cons e es)
  have "span a 4 \<inter> span (Y + 4 * of_nat e) 4 = {}" using Cons.prems assms(1) elem_span [of e n Y] by auto
  then have "st32 (st32 m a w) (Y + 4 * of_nat e) (v e) = st32 (st32 m (Y + 4 * of_nat e) (v e)) a w" by (rule st32_commute)
  then show ?case using Cons by (simp add: outs_def)
qed simp

lemma put_cong: "(\<And>i. i < n \<Longrightarrow> z i = z' i) \<Longrightarrow> put re im n z m = put re im n z' m"
  unfolding put_def
  by (subst outs_cong [of "[0..<n]" "\<lambda>i. snd (z i)" "\<lambda>i. snd (z' i)"], simp,
      subst outs_cong [of "[0..<n]" "\<lambda>i. fst (z i)" "\<lambda>i. fst (z' i)"], simp_all)

lemma put_st32:
  assumes "split_ok re im n" and "e < n"
  shows "st32 (put re im n z m) (re + 4 * of_nat e) v = put re im n (z(e := (v, snd (z e)))) m"
    and "st32 (put re im n z m) (im + 4 * of_nat e) v = put re im n (z(e := (fst (z e), v))) m"
proof -
  have k: "4 * n \<le> 4294967296" "span re (4 * n) \<inter> span im (4 * n) = {}" using assms(1) by (auto simp: split_ok_def)
  have d: "span (re + 4 * of_nat e) 4 \<inter> span im (4 * n) = {}" using elem_span [OF assms(2), of re] k(2) by blast
  have f: "(\<lambda>i. fst ((z(e := (v, snd (z e)))) i)) = (\<lambda>i. fst (z i))(e := v)" "(\<lambda>i. snd ((z(e := (v, snd (z e)))) i)) = (\<lambda>i. snd (z i))"
    "(\<lambda>i. fst ((z(e := (fst (z e), v))) i)) = (\<lambda>i. fst (z i))" "(\<lambda>i. snd ((z(e := (fst (z e), v))) i)) = (\<lambda>i. snd (z i))(e := v)"
    by (auto simp: fun_eq_iff)
  have s: "set [0..<n] \<subseteq> {..<n}" by auto
  show "st32 (put re im n z m) (re + 4 * of_nat e) v = put re im n (z(e := (v, snd (z e)))) m"
    unfolding put_def f st32_outs_other [OF d s] st32_outs [OF assms(2) k(1)] ..
  show "st32 (put re im n z m) (im + 4 * of_nat e) v = put re im n (z(e := (fst (z e), v))) m"
    unfolding put_def f st32_outs [OF assms(2) k(1)] ..
qed

lemma put_ld32:
  assumes "split_ok re im n" and "e < n"
  shows "ld32 (put re im n z m) (re + 4 * of_nat e) = fst (z e)"
    and "ld32 (put re im n z m) (im + 4 * of_nat e) = snd (z e)"
proof -
  have k: "4 * n \<le> 4294967296" "span re (4 * n) \<inter> span im (4 * n) = {}" using assms(1) by (auto simp: split_ok_def)
  have s: "set [0..<n] \<subseteq> {..<n}" "e \<in> set [0..<n]" using assms(2) by auto
  have d: "span (re + 4 * of_nat e) 4 \<inter> span im (4 * n) = {}" using elem_span [OF assms(2), of re] k(2) by blast
  show "ld32 (put re im n z m) (re + 4 * of_nat e) = fst (z e)"
    unfolding put_def ld32_outs [OF s(1) d] ld32_outs_at [OF k(1) s] ..
  show "ld32 (put re im n z m) (im + 4 * of_nat e) = snd (z e)"
    unfolding put_def ld32_outs_at [OF k(1) s] ..
qed

lemma put_outside [frame]:
  "x \<notin> span re (4 * n) \<Longrightarrow> x \<notin> span im (4 * n) \<Longrightarrow> put re im n z m x = m x"
  unfolding put_def by (metis outs_outside atLeastLessThan_upt atLeast0LessThan order_refl)

lemma put_ld32_other:
  assumes "span a 4 \<inter> span re (4 * n) = {}" and "span a 4 \<inter> span im (4 * n) = {}"
  shows "ld32 (put re im n z m) a = ld32 m a"
  by (rule ld32_cong) (use assms in \<open>auto intro!: put_outside\<close>)

section \<open>Bit reversal and the number of bits\<close>

lemma unat_mod_2: "unat (x::u32) mod 2 = of_bool (odd x)"
proof -
  have "unat x mod 2 = unat (x mod 2)" by (simp only: unat_mod) simp
  then show ?thesis by (cases "even x") (simp_all only: mod_2_eq_odd, simp_all)
qed

lemma unat_rev_step: "unat r < 2 ^ 31 \<Longrightarrow> unat (push_bit 1 (r::u32) OR (x AND 1)) = 2 * unat r + unat x mod 2"
proof -
  assume r: "unat r < 2 ^ 31"
  have d: "push_bit 1 r = 2 * r" by (simp add: push_bit_eq_mult)
  have u: "unat (2 * r) = 2 * unat r" using r by (simp add: unat_word_ariths)
  have x: "x AND 1 = of_bool (odd x)" "unat x mod 2 = of_bool (odd x)"
    by (rule trans [OF and_one_eq mod_2_eq_odd], rule unat_mod_2)
  have "2 * r OR 1 = 2 * r + 1" by (simp add: or_one_eq)
  moreover have "unat (2 * r + 1) = 2 * unat r + 1" using u r by (simp add: unat_plus_if_size word_size)
  ultimately show ?thesis unfolding d x by (cases "even x") (simp_all add: u del: or_numerals)
qed

lemma unat_bit_reverse:
  assumes "L \<le> 30"
  shows "unat (bit_reverse i (of_nat L)) = rev_bits L (unat i)"
proof -
  have "unat (fold (\<lambda>b r. push_bit 1 r OR (drop_bit (unat (of_nat b :: u32)) i AND 1)) [0..<k] 0) = rev_bits k (unat i)"
    if "k \<le> L" for k
    using that
  proof (induction k)
    case (Suc k)
    have b: "unat (of_nat k :: u32) = k" using Suc.prems assms by (intro unat_of_nat_small) linarith
    have "rev_bits k (unat i) < 2 ^ k" by (rule rev_bits_lt)
    also have "(2::nat) ^ k \<le> 2 ^ 31" using Suc.prems assms by (intro power_increasing) auto
    finally have "unat (fold (\<lambda>b r. push_bit 1 r OR (drop_bit (unat (of_nat b :: u32)) i AND 1)) [0..<k] 0) < 2 ^ 31"
      using Suc by simp
    from unat_rev_step [OF this, of "drop_bit k i"] Suc b
    show ?case unfolding rev_bits_Suc' by (simp add: unat_drop_bit_eq) (simp add: drop_bit_eq_div)
  qed simp
  moreover have "unat (of_nat L :: u32) = L" using assms by (intro unat_of_nat_small) linarith
  ultimately show ?thesis by (simp add: bit_reverse_def for_u32_zero)
qed

lemma unat_pow32: "k < 32 \<Longrightarrow> unat (push_bit k (1::u32)) = 2 ^ k"
proof -
  assume "k < 32"
  then have "(2::nat) ^ k < 2 ^ 32" by (intro power_strict_increasing) auto
  then have "unat (push_bit k (1::u32)) = unat (1::u32) * 2 ^ k" using \<open>k < 32\<close>
    by (subst unsigned_push_bit_eq) (simp add: push_bit_eq_mult take_bit_nat_eq_self)
  then show ?thesis by simp
qed

lemma fft_bits_pow:
  assumes "unat n = 2 ^ L" and "L \<le> 30" and "b \<le> L"
  shows "fft_bits b n = L"
  using assms(3)
proof (induction "L - b" arbitrary: b)
  case 0
  then have "b = L" by simp
  moreover have "\<not> push_bit L 1 < n" using assms unat_pow32 [of L] by (simp add: word_less_nat_alt)
  ultimately show ?case by (subst fft_bits.simps) simp
next
  case (Suc d)
  then have b: "b < L" by linarith
  then have "push_bit b 1 < n" using assms unat_pow32 [of b] by (simp add: word_less_nat_alt)
  then show ?case using Suc(1) [of "b + 1"] Suc(2) b assms(2) by (subst fft_bits.simps) simp
qed

lemma fft_lens_pow:
  assumes "unat n = 2 ^ L" and "L \<le> 30"
  shows "fft_lens n = map (\<lambda>k. push_bit k 1) [1..<Suc L]"
proof -
  have s: "[1..<32] = [1..<Suc L] @ [Suc L..<32]" using assms(2) upt_add_eq_append [of 1 "Suc L" "31 - L"] by simp
  have a: "push_bit k 1 \<le> n" if "k \<in> set [1..<Suc L]" for k
  proof -
    have "1 \<le> k" "k \<le> L" "k < 32" using that assms(2) by auto
    then have "(2::nat) ^ k \<le> 2 ^ L" "unat (push_bit k (1::u32)) = 2 ^ k" using unat_pow32 by (simp_all add: power_increasing)
    then show ?thesis using assms(1) unfolding word_le_nat_alt by simp
  qed
  have b: "[Suc L..<32] = Suc L # [Suc (Suc L)..<32]" "\<not> push_bit (Suc L) 1 \<le> n"
    using assms unat_pow32 [of "Suc L"] by (simp_all add: upt_conv_Cons word_le_nat_alt)
  have "takeWhile P (xs @ y # ys) = xs" if "\<forall>x\<in>set xs. P x" "\<not> P y" for P :: "u32 \<Rightarrow> bool" and xs y ys
    using that by (simp add: takeWhile_append2)
  then show ?thesis unfolding fft_lens_def s b(1) map_append list.map
    using a b(2) by (metis (mono_tags, lifting) image_iff list.set_map)
qed

section \<open>The swaps reverse the bits\<close>

definition swap_at :: "nat \<Rightarrow> nat \<Rightarrow> (nat \<Rightarrow> 'a) \<Rightarrow> nat \<Rightarrow> 'a" where
  "swap_at L i z = (let j = rev_bits L i in if i < j then z(i := z j, j := z i) else z)"

lemma elem_nat: "elem p (of_nat i) = p + 4 * of_nat i"
  by (simp add: elem_def)

lemma fft_swap_put:
  assumes "split_ok re im (2 ^ L)" and "L \<le> 30" and "i < 2 ^ L"
  shows "fft_swap re im (of_nat L) (of_nat i) (put re im (2 ^ L) z m) = put re im (2 ^ L) (swap_at L i z) m"
proof -
  have "i < 4294967296" using assms(2,3) power_increasing [of L 30 "2::nat"] by simp
  then have u: "unat (of_nat i :: u32) = i" by (rule unat_of_nat_small)
  let ?j = "rev_bits L i"
  have j: "?j < 2 ^ L" by (rule rev_bits_lt)
  have "bit_reverse (of_nat i) (of_nat L) = of_nat (unat (bit_reverse (of_nat i) (of_nat L)))" by simp
  then have r: "bit_reverse (of_nat i) (of_nat L) = of_nat ?j" unfolding unat_bit_reverse [OF assms(2)] u .
  have uj: "unat (of_nat ?j :: u32) = ?j" using unat_bit_reverse [OF assms(2), of "of_nat i"] by (simp add: r u)
  have lt: "(of_nat i :: u32) < of_nat ?j \<longleftrightarrow> i < ?j" by (simp add: word_less_nat_alt u uj)
  show ?thesis
    unfolding fft_swap_def r Let_def lt swap_at_def elem_nat
    by (auto simp: put_st32 [OF assms(1)] put_ld32 [OF assms(1)] assms(3) j intro!: arg_cong [of _ _ "\<lambda>z. put re im (2 ^ L) z m"])
qed

lemma swaps:
  assumes "k \<le> 2 ^ L"
  shows "fold (swap_at L) [0..<k] x i = (if i < 2 ^ L \<and> (i < k \<or> rev_bits L i < k) then x (rev_bits L i) else x i)"
  using assms
proof (induction k arbitrary: i)
  case (Suc k)
  let ?r = "rev_bits L"
  have k: "k < 2 ^ L" "?r k < 2 ^ L" "?r (?r k) = k" using Suc.prems rev_bits_lt [of L k] rev_bits_rev [of k L] by simp_all
  have r: "j < 2 ^ L \<Longrightarrow> ?r (?r j) = j" for j by (rule rev_bits_rev)
  have e: "j < 2 ^ L \<Longrightarrow> ?r j = k \<longleftrightarrow> j = ?r k" for j using r k(3) by metis
  define y where "y = fold (swap_at L) [0..<k] x"
  have y: "y j = (if j < 2 ^ L \<and> (j < k \<or> ?r j < k) then x (?r j) else x j)" for j
    using Suc by (simp add: y_def)
  have "fold (swap_at L) [0..<Suc k] x i = swap_at L k y i" by (simp add: y_def)
  also have "\<dots> = (if i = k \<or> i = ?r k then if k < ?r k then x (?r i) else y i else y i)"
    using k y by (auto simp: swap_at_def Let_def)
  also have "\<dots> = (if i < 2 ^ L \<and> (i < Suc k \<or> ?r i < Suc k) then x (?r i) else x i)"
    using k y e [of i] r [of i] by (auto simp: less_Suc_eq)
  finally show ?case .
qed simp

lemma swaps_put:
  assumes "split_ok re im (2 ^ L)" and "L \<le> 30"
  shows "for_u32 0 (of_nat (2 ^ L)) (fft_swap re im (of_nat L)) (put re im (2 ^ L) z m)
    = put re im (2 ^ L) (\<lambda>i. z (rev_bits L i)) m"
proof -
  have "(2::nat) ^ L \<le> 2 ^ 30" using assms(2) by (rule power_increasing) simp
  then have u: "unat (of_nat (2 ^ L) :: u32) = 2 ^ L" by (intro unat_of_nat_small) simp
  have "fold (\<lambda>i. fft_swap re im (of_nat L) (of_nat i)) [0..<k] (put re im (2 ^ L) z m)
      = put re im (2 ^ L) (fold (swap_at L) [0..<k] z) m" if "k \<le> 2 ^ L" for k
    using that by (induction k) (simp_all add: fft_swap_put [OF assms])
  from this [of "2 ^ L"] have "for_u32 0 (of_nat (2 ^ L)) (fft_swap re im (of_nat L)) (put re im (2 ^ L) z m)
      = put re im (2 ^ L) (fold (swap_at L) [0..<2 ^ L] z) m" unfolding for_u32_zero u by simp
  also have "\<dots> = put re im (2 ^ L) (\<lambda>i. z (rev_bits L i)) m" by (rule put_cong) (simp add: swaps)
  finally show ?thesis .
qed

section \<open>A stage is a pass\<close>

definition float_bf :: "'a mfpu_scheme \<Rightarrow> u32 \<times> u32 \<Rightarrow> u32 \<times> u32 \<Rightarrow> u32 \<times> u32 \<Rightarrow> (u32 \<times> u32) \<times> (u32 \<times> u32)" where
  "float_bf fp w u x =
     (let vr = f_diff2 fp (fst x) (fst w) (snd x) (snd w); vi = f_sum2 fp (fst x) (snd w) (snd x) (fst w)
      in ((f_add fp (fst u) vr, f_add fp (snd u) vi), (f_sub fp (fst u) vr, f_sub fp (snd u) vi)))"

definition twid :: "mem \<Rightarrow> u32 \<Rightarrow> nat \<Rightarrow> u32 \<times> u32" where
  "twid m tw j = (ld32 m (tw + 4 * of_nat (2 * j)), ld32 m (tw + 4 * of_nat (2 * j + 1)))"

definition bfly :: "('w \<Rightarrow> 'a \<Rightarrow> 'a \<Rightarrow> 'a \<times> 'a) \<Rightarrow> 'w \<Rightarrow> nat \<Rightarrow> nat \<Rightarrow> (nat \<Rightarrow> 'a) \<Rightarrow> nat \<Rightarrow> 'a" where
  "bfly bf w h a z = z(a := fst (bf w (z a) (z (a + h))), a + h := snd (bf w (z a) (z (a + h))))"

lemma butterfly_put:
  assumes "split_ok re im n" and "a + h < n" and "0 < h" and "base + j = of_nat a"
  shows "butterfly fp re im (of_nat h) j wr wi base (put re im n z m) = put re im n (bfly (float_bf fp) (wr, wi) h a z) m"
proof -
  have a: "a < n" using assms(2) by simp
  have b: "(of_nat a :: u32) + of_nat h = of_nat (a + h)" by simp
  show ?thesis
    unfolding butterfly_def Let_def assms(4) b elem_nat
    using assms(3)
    by (auto simp: put_st32 [OF assms(1)] put_ld32 [OF assms(1)] a assms(2) bfly_def float_bf_def Let_def fun_eq_iff simp del: of_nat_add
        intro!: arg_cong [of _ _ "\<lambda>z. put re im n z m"])
qed

text \<open>Butterflies on pairs that do not overlap, in any order, are all done at once.\<close>

lemma butterflies:
  assumes "0 < h" and "distinct as" and "\<forall>a\<in>set as. a mod (2 * h) < h"
  shows "fold (\<lambda>a. bfly bf (w a) h a) as z i =
    (if i \<in> set as then fst (bf (w i) (z i) (z (i + h)))
     else if h \<le> i \<and> i - h \<in> set as then snd (bf (w (i - h)) (z (i - h)) (z i)) else z i)"
  using assms(2,3)
proof (induction as arbitrary: i rule: rev_induct)
  case (snoc a as)
  have up: "(j + h) mod (2 * h) = j mod (2 * h) + h" if "j mod (2 * h) < h" for j
  proof -
    have "(j + h) mod (2 * h) = (j mod (2 * h) + h) mod (2 * h)" by (rule mod_add_left_eq [symmetric])
    then show ?thesis using that by simp
  qed
  have a: "a mod (2 * h) < h" "a \<notin> set as" using snoc.prems by auto
  have n1: "a + h \<notin> set as" using up [OF a(1)] snoc.prems(2) assms(1) by auto
  have n2: "\<not> (h \<le> a \<and> a - h \<in> set as)"
  proof
    assume "h \<le> a \<and> a - h \<in> set as"
    then have "(a - h) mod (2 * h) < h" "a = a - h + h" using snoc.prems(2) by auto
    then show False using up [of "a - h"] a(1) by simp
  qed
  define y where "y = fold (\<lambda>a. bfly bf (w a) h a) as z"
  have y: "y j = (if j \<in> set as then fst (bf (w j) (z j) (z (j + h)))
     else if h \<le> j \<and> j - h \<in> set as then snd (bf (w (j - h)) (z (j - h)) (z j)) else z j)" for j
    using snoc by (simp add: y_def)
  have ya: "y a = z a" "y (a + h) = z (a + h)" unfolding y using a(2) n1 n2 by auto
  have "fold (\<lambda>a. bfly bf (w a) h a) (as @ [a]) z i = bfly bf (w a) h a y i" by (simp add: y_def)
  also have "\<dots> = (if i = a then fst (bf (w a) (z a) (z (a + h))) else if i = a + h then snd (bf (w a) (z a) (z (a + h))) else y i)"
    using assms(1) by (auto simp: bfly_def ya)
  also have "\<dots> = (if i \<in> set (as @ [a]) then fst (bf (w i) (z i) (z (i + h)))
     else if h \<le> i \<and> i - h \<in> set (as @ [a]) then snd (bf (w (i - h)) (z (i - h)) (z i)) else z i)"
    using n1 by (auto simp: y)
  finally show ?case .
qed simp

lemma concat_product: "concat (map (\<lambda>j. map (f j) ks) js) = map (\<lambda>(j, k). f j k) (List.product js ks)"
  by (induction js) simp_all

lemma stage_pairs:
  assumes "s < L"
  shows "distinct (concat (map (\<lambda>j. map (\<lambda>k. k * 2 ^ Suc s + j) [0..<2 ^ (L - Suc s)]) [0..<2 ^ s]))"
    and "i \<in> set (concat (map (\<lambda>j. map (\<lambda>k. k * 2 ^ Suc s + j) [0..<2 ^ (L - Suc s)]) [0..<2 ^ s]))
      \<longleftrightarrow> i < 2 ^ L \<and> i mod 2 ^ Suc s < 2 ^ s"
proof -
  let ?l = "(2::nat) ^ Suc s" and ?h = "(2::nat) ^ s"
  have p: "(2::nat) ^ (L - Suc s) * ?l = 2 ^ L" using assms by (simp flip: power_add del: power_Suc)
  have dm: "(k * ?l + j) mod ?l = j" "(k * ?l + j) div ?l = k" if "j < ?h" for k j
    using that by simp_all
  show "distinct (concat (map (\<lambda>j. map (\<lambda>k. k * ?l + j) [0..<2 ^ (L - Suc s)]) [0..<?h]))"
    unfolding concat_product distinct_map
  proof
    show "distinct (List.product [0..<?h] [0..<2 ^ (L - Suc s)])" by (simp add: distinct_product)
    show "inj_on (\<lambda>(j, k). k * ?l + j) (set (List.product [0..<?h] [0..<2 ^ (L - Suc s)]))"
    proof (rule inj_onI, clarsimp)
      fix j k j' k'
      assume "j < ?h" "j' < ?h" "k * (2 * ?h) + j = k' * (2 * ?h) + j'"
      then show "j = j' \<and> k = k'" using dm [of j k] dm [of j' k'] by (metis power_Suc)
    qed
  qed
  show "i \<in> set (concat (map (\<lambda>j. map (\<lambda>k. k * ?l + j) [0..<2 ^ (L - Suc s)]) [0..<?h]))
      \<longleftrightarrow> i < 2 ^ L \<and> i mod ?l < ?h"
  proof
    assume "i \<in> set (concat (map (\<lambda>j. map (\<lambda>k. k * ?l + j) [0..<2 ^ (L - Suc s)]) [0..<?h]))"
    then obtain j k where i: "i = k * ?l + j" "j < ?h" "k < 2 ^ (L - Suc s)" by auto
    then have "Suc k * ?l \<le> 2 ^ (L - Suc s) * ?l" by (intro mult_le_mono1) simp
    then have "i < 2 ^ L" using i p by simp
    then show "i < 2 ^ L \<and> i mod ?l < ?h" using dm(1) [OF i(2), of k] i by simp
  next
    assume a: "i < 2 ^ L \<and> i mod ?l < ?h"
    have "i div ?l < 2 ^ (L - Suc s)" using a p by (simp add: less_mult_imp_div_less)
    moreover have "i = i div ?l * ?l + i mod ?l" by (rule div_mult_mod_eq [symmetric])
    ultimately show "i \<in> set (concat (map (\<lambda>j. map (\<lambda>k. k * ?l + j) [0..<2 ^ (L - Suc s)]) [0..<?h]))"
      using a unfolding set_concat set_map set_upt image_image UN_iff image_iff
      by (intro bexI [of _ "i mod ?l"] bexI [of _ "i div ?l"]) simp_all
  qed
qed

text \<open>The twiddle table keeps out of the arrays' way.\<close>

definition tw_apart :: "u32 \<Rightarrow> u32 \<Rightarrow> u32 \<Rightarrow> nat \<Rightarrow> bool" where
  "tw_apart tw re im n \<longleftrightarrow> span tw (4 * n) \<inter> span re (4 * n) = {} \<and> span tw (4 * n) \<inter> span im (4 * n) = {}"

lemma twid_put:
  assumes "tw_apart tw re im n" and "2 * j + 1 < n"
  shows "twid (put re im n z m) tw j = twid m tw j"
proof -
  have "span (tw + 4 * of_nat i) 4 \<inter> span re (4 * n) = {} \<and> span (tw + 4 * of_nat i) 4 \<inter> span im (4 * n) = {}" if "i < n" for i
    using assms(1) elem_span [OF that, of tw] unfolding tw_apart_def by blast
  then show ?thesis using assms(2) by (simp add: twid_def put_ld32_other del: of_nat_mult of_nat_add of_nat_Suc)
qed

lemma fold_map_concat: "fold (\<lambda>j. fold (f j) (g j)) js m = fold (\<lambda>(j, k). f j k) (concat (map (\<lambda>j. map (Pair j) (g j)) js)) m"
proof (induction js arbitrary: m)
  case (Cons j js)
  have "fold (f j) (g j) m = fold (\<lambda>(j, k). f j k) (map (Pair j) (g j)) m" by (simp add: fold_map o_def)
  then show ?case using Cons by simp
qed simp

lemma fft_stage_put:
  assumes ok: "split_ok re im (2 ^ L)" and "L \<le> 30" and "s < L" and tw: "tw_apart tw re im (2 ^ L)"
  shows "fft_stage fp re im (of_nat (2 ^ L)) tw (push_bit (Suc s) 1) (put re im (2 ^ L) z m)
    = put re im (2 ^ L) (pass (float_bf fp) (twid m tw) L s z) m"
proof -
  let ?n = "(2::nat) ^ L" and ?l = "(2::nat) ^ Suc s" and ?h = "(2::nat) ^ s" and ?q = "(2::nat) ^ (L - Suc s)"
  have "(2::nat) ^ L \<le> 2 ^ 30" using assms(2) by (rule power_increasing) simp
  then have un: "unat (of_nat ?n :: u32) = ?n" by (intro unat_of_nat_small) simp
  have ul: "unat (push_bit (Suc s) (1::u32)) = ?l" using assms(2,3) by (intro unat_pow32) simp
  have uh: "unat (push_bit s (1::u32)) = ?h" using assms(2,3) by (intro unat_pow32) simp
  have half: "drop_bit 1 (push_bit (Suc s) (1::u32)) = of_nat ?h"
  proof -
    have "unat (drop_bit 1 (push_bit (Suc s) (1::u32))) = ?h" unfolding unat_drop_bit_eq ul by (simp add: drop_bit_eq_div)
    then have "of_nat (unat (drop_bit 1 (push_bit (Suc s) (1::u32)))) = (of_nat ?h :: u32)" by (rule arg_cong)
    then show ?thesis by simp
  qed
  have uhh: "unat (of_nat ?h :: u32) = ?h" using uh half ul unat_drop_bit_eq [of 1 "push_bit (Suc s) (1::u32)"]
    by (simp add: drop_bit_eq_div)
  have nl: "?n = ?q * ?l" using assms(3) by (simp flip: power_add del: power_Suc)
  then have nq: "?n div ?l = ?q" by simp
  have step: "of_nat ?n div push_bit (Suc s) (1::u32) = of_nat ?q"
  proof -
    have "unat (of_nat ?n div push_bit (Suc s) (1::u32)) = ?q" unfolding unat_div un ul nq ..
    then have "of_nat (unat (of_nat ?n div push_bit (Suc s) (1::u32))) = (of_nat ?q :: u32)" by (rule arg_cong)
    then show ?thesis by simp
  qed
  have "of_nat (unat (push_bit (Suc s) (1::u32))) = (push_bit (Suc s) 1 :: u32)" by simp
  then have len: "push_bit (Suc s) (1::u32) = of_nat ?l" unfolding ul by (rule sym)
  have cnt: "(?n + ?l - 1) div ?l = ?q"
  proof -
    have gen: "(q * l + l - 1) div l = q" if "0 < l" for q l :: nat
      using that div_mult_self3 [of l q "l - 1"] by simp
    show ?thesis unfolding nl by (rule gen) simp
  qed
  have bases: "fft_bases (of_nat ?n) (push_bit (Suc s) 1) = map (\<lambda>k. of_nat (k * ?l)) [0..<?q]"
    unfolding fft_bases_def un ul cnt by (simp add: len del: push_bit_Suc)
  let ?as = "concat (map (\<lambda>j. map (\<lambda>k. k * ?l + j) [0..<?q]) [0..<?h])"
  let ?w = "\<lambda>a. twid m tw (a mod ?l * ?q)"
  define run where "run = (\<lambda>as z. fold (\<lambda>a. bfly (float_bf fp) (?w a) ?h a) as z)"
  have one: "(let wr = ld32 M (elem tw (2 * of_nat j * of_nat ?q)); wi = ld32 M (elem tw (2 * of_nat j * of_nat ?q + 1))
       in fold (butterfly fp re im (of_nat ?h) (of_nat j) wr wi) (map (\<lambda>k. of_nat (k * ?l)) [0..<?q]) M)
     = put re im ?n (run (map (\<lambda>k. k * ?l + j) [0..<?q]) y) m"
    if j: "j < ?h" and M: "M = put re im ?n y m" for j y M
  proof -
    have jq: "2 * (j * ?q) + 1 < ?n"
    proof -
      have gen: "j < h \<Longrightarrow> 0 < q \<Longrightarrow> 2 * (j * q) + 1 < q * (2 * h)" for j h q :: nat
      proof -
        assume "j < h" and q: "0 < q"
        then have "Suc j * q \<le> h * q" by (intro mult_le_mono1) simp
        then have "2 * (j * q) + 2 * q \<le> 2 * (h * q)" by simp
        then show "2 * (j * q) + 1 < q * (2 * h)" using q unfolding mult.left_commute [of q] mult.commute [of q h] by linarith
      qed
      show ?thesis unfolding nl power_Suc by (rule gen [OF j]) simp
    qed
    have t: "twid M tw (j * ?q) = twid m tw (j * ?q)" unfolding M by (rule twid_put [OF tw jq])
    have e: "ld32 M (elem tw (2 * of_nat j * of_nat ?q)) = fst (twid m tw (j * ?q))"
      "ld32 M (elem tw (2 * of_nat j * of_nat ?q + 1)) = snd (twid m tw (j * ?q))"
      unfolding t [symmetric] by (simp_all add: twid_def elem_def ac_simps)
    have "fold (butterfly fp re im (of_nat ?h) (of_nat j) (fst (twid m tw (j * ?q))) (snd (twid m tw (j * ?q))))
        (map (\<lambda>k. of_nat (k * ?l)) [0..<q]) M = put re im ?n (run (map (\<lambda>k. k * ?l + j) [0..<q]) y) m" if "q \<le> ?q" for q
      using that
    proof (induction q)
      case 0
      then show ?case by (simp add: M run_def)
    next
      case (Suc q)
      have "Suc q * ?l \<le> ?q * ?l" using Suc.prems by (intro mult_le_mono1) simp
      then have b: "q * ?l + j + ?h < ?n" using j by (simp add: nl)
      have w: "?w (q * ?l + j) = (fst (twid m tw (j * ?q)), snd (twid m tw (j * ?q)))" using j by simp
      have "butterfly fp re im (of_nat ?h) (of_nat j) (fst (twid m tw (j * ?q))) (snd (twid m tw (j * ?q))) (of_nat (q * ?l))
          (put re im ?n (run (map (\<lambda>k. k * ?l + j) [0..<q]) y) m)
        = put re im ?n (bfly (float_bf fp) (?w (q * ?l + j)) ?h (q * ?l + j) (run (map (\<lambda>k. k * ?l + j) [0..<q]) y)) m"
        unfolding w by (rule butterfly_put [OF ok b _ of_nat_add [symmetric]]) simp
      then show ?case using Suc by (simp add: run_def del: of_nat_mult power_Suc)
    qed
    then show ?thesis unfolding e Let_def by simp
  qed
  have "for_u32 0 (of_nat ?h) (\<lambda>j m. let wr = ld32 m (elem tw (2 * j * of_nat ?q)); wi = ld32 m (elem tw (2 * j * of_nat ?q + 1))
       in fold (butterfly fp re im (of_nat ?h) j wr wi) (map (\<lambda>k. of_nat (k * ?l)) [0..<?q]) m) (put re im ?n z m)
    = put re im ?n (run ?as z) m"
  proof -
    have "fold (\<lambda>j m. let wr = ld32 m (elem tw (2 * of_nat j * of_nat ?q)); wi = ld32 m (elem tw (2 * of_nat j * of_nat ?q + 1))
         in fold (butterfly fp re im (of_nat ?h) (of_nat j) wr wi) (map (\<lambda>k. of_nat (k * ?l)) [0..<?q]) m) [0..<h] (put re im ?n z m)
      = put re im ?n (run (concat (map (\<lambda>j. map (\<lambda>k. k * ?l + j) [0..<?q]) [0..<h])) z) m" if "h \<le> ?h" for h
      using that
    proof (induction h)
      case 0
      then show ?case by (simp add: run_def)
    next
      case (Suc h)
      then have IH: "fold (\<lambda>j m. let wr = ld32 m (elem tw (2 * of_nat j * of_nat ?q)); wi = ld32 m (elem tw (2 * of_nat j * of_nat ?q + 1))
         in fold (butterfly fp re im (of_nat ?h) (of_nat j) wr wi) (map (\<lambda>k. of_nat (k * ?l)) [0..<?q]) m) [0..<h] (put re im ?n z m)
      = put re im ?n (run (concat (map (\<lambda>j. map (\<lambda>k. k * ?l + j) [0..<?q]) [0..<h])) z) m" by simp
      have "h < ?h" using Suc.prems by simp
      show ?case unfolding upt_Suc_append [OF le0] fold_append o_apply fold_simps IH one [OF \<open>h < ?h\<close> refl]
        by (simp add: run_def del: power_Suc)
    qed
    from this [OF order_refl] show ?thesis unfolding for_u32_zero uhh .
  qed
  also have "\<dots> = put re im ?n (pass (float_bf fp) (twid m tw) L s z) m"
  proof (rule put_cong)
    fix i assume i: "i < ?n"
    note sp = stage_pairs [OF assms(3)]
    have "\<forall>a\<in>set ?as. a mod (2 * ?h) < ?h" using sp(2) by simp
    note b = butterflies [OF _ sp(1) this, of "float_bf fp" ?w z i]
    have up: "i \<in> set ?as \<longleftrightarrow> i mod ?l < ?h" using sp(2) [of i] i by simp
    show "run ?as z i = pass (float_bf fp) (twid m tw) L s z i"
    proof (cases "i mod ?l < ?h")
      case True
      then show ?thesis unfolding run_def using b up by (simp add: pass_def)
    next
      case False
      note u = upper_block [OF False]
      have "?h \<le> i \<and> i - ?h \<in> set ?as"
        using u sp(2) [of "i - ?h"] i mod_less_divisor [of ?l i] False by (simp del: mod_less_divisor) linarith
      then show ?thesis unfolding run_def using b up False u(3) by (simp add: pass_def)
    qed
  qed
  finally show ?thesis unfolding fft_stage_def half step bases Let_def .
qed

lemma fft_put:
  assumes ok: "split_ok re im (2 ^ L)" and "L \<le> 30" and tw: "tw_apart tw re im (2 ^ L)"
  shows "fft_radix2 fp re im (of_nat (2 ^ L)) tw (put re im (2 ^ L) z m)
    = put re im (2 ^ L) (dit (float_bf fp) (twid m tw) L L z) m"
proof -
  let ?n = "(2::nat) ^ L"
  have "(2::nat) ^ L \<le> 2 ^ 30" using assms(2) by (rule power_increasing) simp
  then have un: "unat (of_nat ?n :: u32) = ?n" by (intro unat_of_nat_small) simp
  have s: "fold (fft_stage fp re im (of_nat ?n) tw) (map (\<lambda>k. push_bit k 1) [1..<Suc l]) (put re im ?n z m)
      = put re im ?n (fold (pass (float_bf fp) (twid m tw) L) [0..<l] z) m" if "l \<le> L" for l z
    using that
  proof (induction l)
    case (Suc l)
    then show ?case using fft_stage_put [OF ok assms(2) _ tw, of l fp "fold (pass (float_bf fp) (twid m tw) L) [0..<l] z" m]
      by (simp del: of_nat_power push_bit_Suc)
  qed simp
  have "fft_radix2 fp re im (of_nat ?n) tw (put re im ?n z m)
      = put re im ?n (fold (pass (float_bf fp) (twid m tw) L) [0..<L] (\<lambda>i. z (rev_bits L i))) m"
    unfolding fft_radix2_def Let_def fft_bits_pow [OF un assms(2) le0] swaps_put [OF ok assms(2)] fft_lens_pow [OF un assms(2)]
    by (rule s) simp
  also have "\<dots> = put re im ?n (dit (float_bf fp) (twid m tw) L L z) m"
    by (rule put_cong) (rule passes_are_dit)
  finally show ?thesis .
qed

text \<open>
  C38. The FFT of the front-end. For any length \<open>2 ^ L\<close> up to \<open>2 ^ 30\<close>, in memory where the two
  arrays and the twiddle table do not overlap, the swaps and the in-place passes leave in the two arrays,
  to the last bit and for every rounding, what the textbook recursion on even and odd samples
  gives, and change no other byte; and in exact arithmetic (any commutative ring with a
  \<open>w\<close> of order \<open>2 ^ L\<close>) that recursion is the discrete Fourier transform.
\<close>

theorem fft_radix2_correct:
  fixes x :: "nat \<Rightarrow> 'r::comm_ring_1"
  assumes "split_ok re im (2 ^ L)" and "L \<le> 30" and "tw_apart tw re im (2 ^ L)"
  shows "fft_radix2 fp re im (of_nat (2 ^ L)) tw m
      = put re im (2 ^ L) (dit (float_bf fp) (twid m tw) L L (cplx m re im)) m
    \<and> (\<forall>w. w ^ (2 ^ (L - 1)) = -1 \<longrightarrow> (\<forall>i < 2 ^ L. dit ring_bf ((^) w) L L x i = dft w (2 ^ L) x i))"
proof
  show "fft_radix2 fp re im (of_nat (2 ^ L)) tw m
      = put re im (2 ^ L) (dit (float_bf fp) (twid m tw) L L (cplx m re im)) m"
    using fft_put [OF assms, of fp "cplx m re im" m] unfolding put_own .
  show "\<forall>w. w ^ (2 ^ (L - 1)) = -1 \<longrightarrow> (\<forall>i < 2 ^ L. dit ring_bf ((^) w) L L x i = dft w (2 ^ L) x i)"
    using dit_dft [of _ L L _ x] by auto
qed

text \<open>Four samples 1, 2, 3, 4 with whole-number arithmetic: bin 1 is \<open>-2 + 2i\<close>.\<close>

definition int_fpu :: mfpu where
  "int_fpu = \<lparr>f_add = (+), f_sub = (-), f_mul = (*), f_madd = (\<lambda>a b c. a * b + c), f_contract = False,
     f_sum2 = (\<lambda>a b c d. a * b + c * d), f_diff2 = (\<lambda>a b c d. a * b - c * d), f_log = id, f_gt = (>)\<rparr>"

definition four_samples :: mem where
  "four_samples = stores [(0x1000, 1), (0x1004, 2), (0x1008, 3), (0x100c, 4),
     (0x3000, 1), (0x3004, 0), (0x3008, 0), (0x300c, -1)] (\<lambda>_. 0)"

theorem fft_radix2_correct_witness:
  "ld32 (fft_radix2 int_fpu 0x1000 0x2000 4 0x3000 four_samples) 0x1004 = -2
    \<and> ld32 (fft_radix2 int_fpu 0x1000 0x2000 4 0x3000 four_samples) 0x2004 = 2
    \<and> dit ring_bf ((^) (-1)) 1 1 (\<lambda>t. int t) 1 = dft (-1) (2 ^ 1) (\<lambda>t. int t) 1"
proof (intro conjI)
  have s: "split_ok 0x1000 0x2000 (2 ^ 2)" and a: "tw_apart 0x3000 0x1000 0x2000 (2 ^ 2)"
    unfolding split_ok_def tw_apart_def by (intro conjI span_disjoint; simp)+
  have f: "fft_radix2 int_fpu 0x1000 0x2000 4 0x3000 four_samples
      = put 0x1000 0x2000 (2 ^ 2) (dit (float_bf int_fpu) (twid four_samples 0x3000) 2 2 (cplx four_samples 0x1000 0x2000)) four_samples"
    using fft_radix2_correct [OF s _ a, of int_fpu four_samples "\<lambda>t. int t"] by simp
  have v: "dit (float_bf int_fpu) (twid four_samples 0x3000) 2 2 (cplx four_samples 0x1000 0x2000) 1 = (-2, 2)"
    by code_simp
  show "ld32 (fft_radix2 int_fpu 0x1000 0x2000 4 0x3000 four_samples) 0x1004 = -2"
    "ld32 (fft_radix2 int_fpu 0x1000 0x2000 4 0x3000 four_samples) 0x2004 = 2"
    unfolding f using put_ld32 [OF s, of 1] v by simp_all
  have s1: "split_ok 0x1000 0x2000 (2 ^ 1)" and a1: "tw_apart 0x3000 0x1000 0x2000 (2 ^ 1)"
    unfolding split_ok_def tw_apart_def by (intro conjI span_disjoint; simp)+
  have "\<forall>w :: int. w ^ (2 ^ (1 - 1)) = -1 \<longrightarrow> (\<forall>i < 2 ^ 1. dit ring_bf ((^) w) 1 1 (\<lambda>t. int t) i = dft w (2 ^ 1) (\<lambda>t. int t) i)"
    by (rule fft_radix2_correct [OF s1 _ a1, of int_fpu four_samples "\<lambda>t. int t", THEN conjunct2]) simp
  from this [rule_format, of "-1" 1]
  show "dit ring_bf ((^) (-1)) 1 1 (\<lambda>t. int t) 1 = dft (-1) (2 ^ 1) (\<lambda>t. int t) 1"
    by (simp del: dit.simps)
qed

end
