(* ===== verification/MfccSsr.thy ===== *)
theory MfccSsr
  imports MfccFft
begin

text \<open>
  The streamed front-end against the portable one. Both are the same kernel but for one thing,
  how the dot product of a mel filter is summed: from left to right, or in four lanes that are
  added pairwise before the tail. Everything else, the DCT included, is the same to the last bit.
\<close>

section \<open>The kernel, the sum of a filter left open\<close>

type_synonym dot = "(nat \<Rightarrow> u32) \<Rightarrow> (nat \<Rightarrow> u32) \<Rightarrow> nat \<Rightarrow> u32"

definition serial_dot :: "'a fpu_scheme \<Rightarrow> dot" where
  "serial_dot fp x y n = fold (\<lambda>i s. mac fp s (x i) (y i)) [0..<n] 0"

definition lane_dot :: "'a fpu_scheme \<Rightarrow> nat \<Rightarrow> nat \<Rightarrow> nat \<Rightarrow> (nat \<Rightarrow> u32) \<Rightarrow> (nat \<Rightarrow> u32) \<Rightarrow> u32" where
  "lane_dot fp L K u x y = fold (\<lambda>k s. f_madd fp (x (L * k + u)) (y (L * k + u)) s) [0..<K] 0"

definition four_lane_dot :: "'a fpu_scheme \<Rightarrow> dot" where
  "four_lane_dot fp x y n =
     (let l = \<lambda>u. lane_dot fp 4 (n div 4) u x y;
          s = (if n div 4 \<noteq> 0 then f_add fp (f_add fp (l 0) (l 1)) (f_add fp (l 2) (l 3)) else 0)
      in fold (\<lambda>i s. mac fp s (x i) (y i)) [n div 4 * 4..<n] s)"

definition mfcc_mel_by :: "'a mfpu_scheme \<Rightarrow> dot \<Rightarrow> u32 \<Rightarrow> u32 \<Rightarrow> u32 \<Rightarrow> u32 \<Rightarrow> u32 \<Rightarrow> u32 \<Rightarrow> mem \<Rightarrow> mem" where
  "mfcc_mel_by fp dp re mel mel_coeff mel_start mel_len nb_mel m =
     snd (fold (\<lambda>k (off, m).
       let start = ucast (ld16 m (mel_start + 2 * of_nat k)); len = ucast (ld16 m (mel_len + 2 * of_nat k));
           acc = dp (\<lambda>i. ld32 m (elem re (start + of_nat i))) (\<lambda>i. ld32 m (elem mel_coeff (off + of_nat i))) (unat len);
           v = f_log fp (if f_gt fp acc MFCC_LOG_FLOOR then acc else MFCC_LOG_FLOOR)
       in (off + len, st32 m (elem mel (of_nat k)) v)) [0..<unat nb_mel] (0, m))"

definition Mfcc_by ::
    "'a mfpu_scheme \<Rightarrow> dot \<Rightarrow> u32 \<Rightarrow> u32 \<Rightarrow> u32 \<Rightarrow> u32 \<Rightarrow> u32 \<Rightarrow> u32 \<Rightarrow> u32 \<Rightarrow> u32 \<Rightarrow> u32 \<Rightarrow> u32 \<Rightarrow> u32 \<Rightarrow> u32 \<Rightarrow> u32
      \<Rightarrow> u32 \<Rightarrow> u32 \<Rightarrow> mem \<Rightarrow> mem" where
  "Mfcc_by fp dp audio out nb_frames frame_len hop fft_len window twiddles mel_coeff mel_start mel_len nb_mel dct nb_cep scratch m =
     fold (\<lambda>t m.
       let re = scratch; mel = elem scratch (2 * fft_len);
           m = mfcc_spectrum fp audio frame_len hop fft_len window twiddles scratch (of_nat t) m;
           m = mfcc_mel_by fp dp re mel mel_coeff mel_start mel_len nb_mel m
       in for_u32 0 nb_cep (mfcc_dct fp mel dct (elem out (of_nat t * nb_cep)) nb_mel) m) [0..<unat nb_frames] m"

lemma mfcc_mel_serial:
  "mfcc_mel fp re mel mel_coeff mel_start mel_len nb_mel m
     = mfcc_mel_by fp (serial_dot fp) re mel mel_coeff mel_start mel_len nb_mel m"
  by (simp add: mfcc_mel_def mfcc_mel_by_def serial_dot_def for_u32_zero Let_def)

lemma Mfcc_generic_serial:
  "Mfcc_generic fp audio out nb_frames frame_len hop fft_len window twiddles mel_coeff mel_start mel_len nb_mel dct nb_cep scratch m
     = Mfcc_by fp (serial_dot fp) audio out nb_frames frame_len hop fft_len window twiddles mel_coeff mel_start mel_len nb_mel dct nb_cep scratch m"
  by (simp add: Mfcc_generic_def Mfcc_by_def mfcc_mel_serial for_u32_zero [where n = nb_frames] Let_def)

section \<open>Two armed streams under one FREP body\<close>

definition movers :: "ssrs \<Rightarrow> bool" where
  "movers S \<longleftrightarrow> ssr_wf (S SSR_DM0) \<and> ssr_wf (S SSR_DM1)"

lemma dms: "SSR_DM0 < 3" "SSR_DM1 < 3" "SSR_DM0 \<noteq> SSR_DM1" "SSR_DM1 \<noteq> SSR_DM0"
  by (simp_all add: SSR_DM0_def SSR_DM1_def)

lemma ssr_repeat_sets:
  assumes "ssr_wf (S dm)" "dm < 3"
  shows "ssr_wf (ssr_repeat dm c S dm)" and "s_repeat (ssr_repeat dm c S dm) = c - 1"
    and "d \<noteq> dm \<Longrightarrow> ssr_repeat dm c S d = S d"
proof -
  have "programmed [] [] (S dm)" using assms(1) by (simp add: programmed_def)
  from ssr_repeat_programmed [where S = S and dm = dm, OF this assms(2)]
  show "ssr_wf (ssr_repeat dm c S dm)" "s_repeat (ssr_repeat dm c S dm) = c - 1"
    "d \<noteq> dm \<Longrightarrow> ssr_repeat dm c S d = S d" by (simp_all add: programmed_def)
qed

text \<open>
  What a mover armed with a nest delivers to a body of \<open>L\<close> lanes: the movers are still there
  afterwards with their repeat counts, and lane \<open>u\<close> has multiplied what the two nests visit.
\<close>

lemma frep_armed:
  assumes prog: "programmed cs0 ss0 (S SSR_DM0)" "programmed cs1 ss1 (S SSR_DM1)"
    and rep: "s_repeat (S SSR_DM0) = of_nat r0 - 1" "s_repeat (S SSR_DM1) = of_nat r1 - 1"
    and dim: "Suc dim0 = length cs0" "Suc dim1 = length cs1"
    and ok: "counts_ok cs0" "counts_ok cs1" "length ss0 = length cs0" "length ss1 = length cs1"
      "0 < r0" "r0 < 4294967296" "0 < r1" "r1 < 4294967296"
    and K: "rpt + 1 \<noteq> 0" "K = unat (rpt + 1)"
    and room: "L * K \<le> r0 * prod_list cs0" "L * K \<le> r1 * prod_list cs1"
  shows "\<exists>S'. movers S' \<and> s_repeat (S' SSR_DM0) = of_nat r0 - 1 \<and> s_repeat (S' SSR_DM1) = of_nat r1 - 1
    \<and> frep_lanes fp m L rpt (ssr_read SSR_DM1 dim1 p1 (ssr_read SSR_DM0 dim0 p0 S), replicate L 0)
      = (S', map (\<lambda>u. lane_dot fp L K u (\<lambda>n. ld32 m (p0 + offset (digits cs0 (n div r0)) ss0))
                                  (\<lambda>n. ld32 m (p1 + offset (digits cs1 (n div r1)) ss1))) [0..<L])"
proof -
  define A where "A = ssr_read SSR_DM0 dim0 p0 S"
  define B where "B = ssr_read SSR_DM1 dim1 p1 A"
  note a = ssr_read_streams [where S = S and dm = SSR_DM0 and p = p0, OF prog(1) dms(1) rep(1) dim(1) ok(5), folded A_def]
  have a1: "A SSR_DM1 = S SSR_DM1" by (rule a(3)) (rule dms)
  note b = ssr_read_streams [where S = A and dm = SSR_DM1 and p = p1, unfolded a1, OF prog(2) dms(2) rep(2) dim(2) ok(7), folded B_def]
  have b0: "B SSR_DM0 = A SSR_DM0" by (rule b(3)) (rule dms)
  have s0: "stream_at cs0 ss0 r0 p0 0 (B SSR_DM0)" "ssr_wf (B SSR_DM0)" unfolding b0 by (fact a(1), fact a(2))
  obtain S' where S': "popped B (0 + L * unat (rpt + 1)) S'"
    "frep_lanes fp m L rpt (B, replicate L 0)
       = (S', map (\<lambda>u. lane_sum fp m B 0 L (unat (rpt + 1)) u (replicate L 0 ! u)) [0..<L])"
    using frep_lanes_result [OF popped_0, of "replicate L 0" L rpt B fp m] K(1) by auto
  have dimS: "s_dim (B SSR_DM0) < 4" "s_dim (B SSR_DM1) < 4"
    using s0(1) b(1) dim prog by (simp_all add: stream_at_def programmed_def)
  have lanes: "lane_sum fp m B 0 L K u (replicate L 0 ! u)
      = lane_dot fp L K u (\<lambda>n. ld32 m (p0 + offset (digits cs0 (n div r0)) ss0))
                          (\<lambda>n. ld32 m (p1 + offset (digits cs1 (n div r1)) ss1))" if u: "u < L" for u
    unfolding lane_sum_def lane_dot_def nth_replicate [OF u]
  proof (rule fold_same)
    fix k s assume "k \<in> set [0..<K]"
    then have lt: "L * k + u < L * K" using mixed_lt [OF u, of k K] by (simp add: add.commute)
    then have lt0: "L * k + u < r0 * prod_list cs0" and lt1: "L * k + u < r1 * prod_list cs1"
      using room by linarith+
    show "f_madd fp (nth_elem m (B SSR_DM0) (0 + L * k + u)) (nth_elem m (B SSR_DM1) (0 + L * k + u)) s
      = f_madd fp (ld32 m (p0 + offset (digits cs0 ((L * k + u) div r0)) ss0))
          (ld32 m (p1 + offset (digits cs1 ((L * k + u) div r1)) ss1)) s"
      by (simp add: nth_elem_def stream_ptr [OF s0(1) ok(1,3,5,6) lt0] stream_ptr [OF b(1) ok(2,4,7,8) lt1])
  qed
  have "movers S'" "s_repeat (S' SSR_DM0) = of_nat r0 - 1" "s_repeat (S' SSR_DM1) = of_nat r1 - 1"
    using S'(1) s0 b dimS by (simp_all add: popped_def movers_def ssr_next_wf_steps stream_at_def)
  moreover have "frep_lanes fp m L rpt (B, replicate L 0) = (S', map (\<lambda>u. lane_dot fp L K u
      (\<lambda>n. ld32 m (p0 + offset (digits cs0 (n div r0)) ss0)) (\<lambda>n. ld32 m (p1 + offset (digits cs1 (n div r1)) ss1))) [0..<L])"
    unfolding S'(2) using lanes by (simp add: K(2))
  ultimately show ?thesis unfolding A_def B_def by blast
qed

lemma lane_dot_cong:
  assumes "\<And>k. k < K \<Longrightarrow> x (L * k + u) = x' (L * k + u)" and "\<And>k. k < K \<Longrightarrow> y (L * k + u) = y' (L * k + u)"
  shows "lane_dot fp L K u x y = lane_dot fp L K u x' y'"
  unfolding lane_dot_def by (rule fold_same) (simp add: assms)

section \<open>A filter's energy\<close>

lemma dot_tail:
  assumes "b \<le> unat len" and "unat bl = b"
  shows "for_u32 bl len (\<lambda>i acc. mac fp acc (ld32 m (elem p i)) (ld32 m (elem q i))) s
    = fold (\<lambda>i s. mac fp s (ld32 m (elem p (of_nat i))) (ld32 m (elem q (of_nat i)))) [b..<unat len] s"
  by (simp add: for_u32_def assms)

lemma mel_blocks: "unat (len div Mfcc.UNROLL) = unat len div 4" "unat (len div Mfcc.UNROLL * Mfcc.UNROLL) = unat len div 4 * 4"
proof -
  show b: "unat (len div Mfcc.UNROLL) = unat len div 4" by (simp add: unat_div Mfcc.UNROLL_def)
  show "unat (len div Mfcc.UNROLL * Mfcc.UNROLL) = unat len div 4 * 4"
    using unat_u32_lt [of len] b by (subst unat_mult_small) (auto simp: Mfcc.UNROLL_def)
qed

lemma mel_energy_lanes:
  assumes "movers S"
  shows "\<exists>S'. movers S' \<and> mel_energy fp m pw coeff len S
    = (S', four_lane_dot fp (\<lambda>i. ld32 m (elem pw (of_nat i))) (\<lambda>i. ld32 m (elem coeff (of_nat i))) (unat len))"
proof (cases "unat len div 4 = 0")
  case True
  then have "len div Mfcc.UNROLL = 0" using mel_blocks(1) [of len] by (simp add: unat_eq_zero)
  then show ?thesis
    using assms True by (auto simp: mel_energy_def four_lane_dot_def Let_def for_u32_def)
next
  case False
  let ?B = "unat len div 4" and ?bl = "len div Mfcc.UNROLL"
  have bl: "?bl \<noteq> 0" using False mel_blocks(1) [of len] by auto
  define S1 where "S1 = ssr_repeat SSR_DM1 1 (ssr_repeat SSR_DM0 1 S)"
  define S2 where "S2 = ssr_loop_1d SSR_DM1 (?bl * Mfcc.UNROLL) 4 (ssr_loop_1d SSR_DM0 (?bl * Mfcc.UNROLL) 4 S1)"
  have w: "ssr_wf (S SSR_DM0)" "ssr_wf (S SSR_DM1)" using assms by (simp_all add: movers_def)
  have r: "ssr_wf (S1 SSR_DM0)" "s_repeat (S1 SSR_DM0) = 0" "ssr_wf (S1 SSR_DM1)" "s_repeat (S1 SSR_DM1) = 0"
    using dms w by (simp_all add: S1_def ssr_repeat_sets)
  have l: "programmed [?B * 4] [4] (S2 SSR_DM0)" "s_repeat (S2 SSR_DM0) = of_nat 1 - 1"
    "programmed [?B * 4] [4] (S2 SSR_DM1)" "s_repeat (S2 SSR_DM1) = of_nat 1 - 1"
    using dms r ssr_loop_1d_programmed [where S = S1 and dm = SSR_DM0 and ?b0.0 = "?bl * Mfcc.UNROLL" and ?s0.0 = 4]
      ssr_loop_1d_programmed [where S = "ssr_loop_1d SSR_DM0 (?bl * Mfcc.UNROLL) 4 S1" and dm = SSR_DM1 and ?b0.0 = "?bl * Mfcc.UNROLL" and ?s0.0 = 4]
    by (simp_all add: S2_def mel_blocks)
  have ok: "counts_ok [?B * 4]" using False unat_u32_lt [of len] by auto
  have K: "?bl - 1 + 1 \<noteq> 0" "?B = unat (?bl - 1 + 1)" using bl mel_blocks(1) [of len] by simp_all
  from frep_armed [where S = S2 and rpt = "?bl - 1" and L = 4 and fp = fp and m = m and ?p0.0 = pw and ?p1.0 = coeff
      and ?dim0.0 = SSR_1D and ?dim1.0 = SSR_1D, OF l(1,3,2,4) _ _ ok ok _ _ _ _ _ _ K]
  obtain S' where S': "movers S'"
    "frep_lanes fp m 4 (?bl - 1) (ssr_read SSR_DM1 SSR_1D coeff (ssr_read SSR_DM0 SSR_1D pw S2), replicate 4 0)
      = (S', map (\<lambda>u. lane_dot fp 4 ?B u (\<lambda>n. ld32 m (pw + offset (digits [?B * 4] (n div 1)) [4]))
                                  (\<lambda>n. ld32 m (coeff + offset (digits [?B * 4] (n div 1)) [4]))) [0..<4])"
    by (auto simp: SSR_1D_def)
  have S'2: "frep_lanes fp m 4 (?bl - 1) (ssr_read SSR_DM1 SSR_1D coeff (ssr_read SSR_DM0 SSR_1D pw S2), replicate 4 0)
      = (S', map (\<lambda>u. lane_dot fp 4 ?B u (\<lambda>i. ld32 m (elem pw (of_nat i))) (\<lambda>i. ld32 m (elem coeff (of_nat i)))) [0..<4])"
    unfolding S'(2) by (intro arg_cong2 [where f = Pair] refl map_cong lane_dot_cong) (auto simp: elem_def mult.commute)
  have four: "[0..<4] = [0, 1, 2, 3]" by (simp add: upt_rec)
  have "mel_energy fp m pw coeff len S
      = (S', four_lane_dot fp (\<lambda>i. ld32 m (elem pw (of_nat i))) (\<lambda>i. ld32 m (elem coeff (of_nat i))) (unat len))"
    unfolding mel_energy_def Let_def four_lane_dot_def S1_def [symmetric] S2_def [symmetric] S'2
      dot_tail [OF div_times_less_eq_dividend mel_blocks(2)]
    using bl False by (simp add: four)
  then show ?thesis using S'(1) by blast
qed


lemma elem_elem: "elem (elem p i) j = elem p (i + j)"
  by (simp add: elem_def algebra_simps)

text \<open>Two runs of a loop kept in step.\<close>

lemma fold_related:
  assumes "R s t" and "\<And>x s t. x \<in> set xs \<Longrightarrow> R s t \<Longrightarrow> R (f x s) (g x t)"
  shows "R (fold f xs s) (fold g xs t)"
  using assms by (induction xs arbitrary: s t) auto

lemma mfcc_mel_ssr_lanes:
  assumes "movers S"
  shows "\<exists>S'. movers S' \<and> mfcc_mel_ssr fp re mel mel_coeff mel_start mel_len nb_mel (S, m)
    = (S', mfcc_mel_by fp (four_lane_dot fp) re mel mel_coeff mel_start mel_len nb_mel m)"
proof -
  define R where "R s t \<longleftrightarrow> (\<exists>off S' m'. movers S' \<and> s = (off, S', m') \<and> t = (off, m'))"
    for s :: "u32 \<times> ssrs \<times> mem" and t :: "u32 \<times> mem"
  define f where "f k = (\<lambda>(off, S, m).
       let len = ucast (ld16 m (mel_len + 2 * of_nat k));
           (S, acc) = mel_energy fp m (elem re (ucast (ld16 m (mel_start + 2 * of_nat k)))) (elem mel_coeff off) len S;
           v = f_log fp (if f_gt fp acc MFCC_LOG_FLOOR then acc else MFCC_LOG_FLOOR)
       in (off + len, S, st32 m (elem mel (of_nat k)) v))" for k
  define g where "g k = (\<lambda>(off, m).
       let start = ucast (ld16 m (mel_start + 2 * of_nat k)); len = ucast (ld16 m (mel_len + 2 * of_nat k));
           acc = four_lane_dot fp (\<lambda>i. ld32 m (elem re (start + of_nat i))) (\<lambda>i. ld32 m (elem mel_coeff (off + of_nat i))) (unat len);
           v = f_log fp (if f_gt fp acc MFCC_LOG_FLOOR then acc else MFCC_LOG_FLOOR)
       in (off + len, st32 m (elem mel (of_nat k)) v))" for k
  have "R (fold f [0..<unat nb_mel] (0, S, m)) (fold g [0..<unat nb_mel] (0, m))"
  proof (rule fold_related)
    show "R (0, S, m) (0, m)" using assms by (auto simp: R_def)
  next
    fix k s t assume "R s t"
    then obtain off S' m' where s: "movers S'" "s = (off, S', m')" "t = (off, m')" by (auto simp: R_def)
    let ?st = "ucast (ld16 m' (mel_start + 2 * of_nat k)) :: u32" and ?len = "ucast (ld16 m' (mel_len + 2 * of_nat k)) :: u32"
    obtain S'' where S'': "movers S''" "mel_energy fp m' (elem re ?st) (elem mel_coeff off) ?len S'
      = (S'', four_lane_dot fp (\<lambda>i. ld32 m' (elem re (?st + of_nat i))) (\<lambda>i. ld32 m' (elem mel_coeff (off + of_nat i))) (unat ?len))"
      using mel_energy_lanes [OF s(1), of fp m' "elem re ?st" "elem mel_coeff off" ?len] unfolding elem_elem by blast
    then show "R (f k s) (g k t)" unfolding s f_def g_def Let_def R_def by (simp add: S''(2))
  qed
  then show ?thesis
    unfolding R_def mfcc_mel_ssr_def mfcc_mel_by_def for_u32_zero f_def [symmetric] g_def [symmetric] by fastforce
qed

section \<open>The cepstra\<close>

text \<open>The value stored as cepstrum \<open>c\<close>, and what \<open>restrict\<close> says of the arrays.\<close>

definition cepstrum :: "'a mfpu_scheme \<Rightarrow> u32 \<Rightarrow> u32 \<Rightarrow> u32 \<Rightarrow> mem \<Rightarrow> nat \<Rightarrow> u32" where
  "cepstrum fp mel dct nb_mel m c =
     fold (\<lambda>k s. mac fp s (ld32 m (elem dct (of_nat (c * unat nb_mel + k)))) (ld32 m (elem mel (of_nat k)))) [0..<unat nb_mel] 0"

definition dct_sep :: "u32 \<Rightarrow> u32 \<Rightarrow> u32 \<Rightarrow> u32 \<Rightarrow> u32 \<Rightarrow> nat \<Rightarrow> bool" where
  "dct_sep mel dct dst nb_mel nb_cep frames \<longleftrightarrow>
     span dct (4 * (unat nb_cep * unat nb_mel)) \<inter> span dst (4 * (frames * unat nb_cep)) = {}
     \<and> span mel (4 * unat nb_mel) \<inter> span dst (4 * (frames * unat nb_cep)) = {}"

lemma mfcc_dct_stores:
  "mfcc_dct fp mel dct dst nb_mel (of_nat c) m = st32 m (dst + 4 * of_nat c) (cepstrum fp mel dct nb_mel m c)"
  by (simp add: mfcc_dct_def cepstrum_def for_u32_zero Let_def elem_elem) (simp add: elem_def)

lemma cepstrum_outs:
  assumes "dct_sep mel dct dst nb_mel nb_cep 1" and "set es \<subseteq> {..<unat nb_cep}" and "c < unat nb_cep"
  shows "cepstrum fp mel dct nb_mel (outs dst v es m) c = cepstrum fp mel dct nb_mel m c"
  unfolding cepstrum_def
proof (rule fold_same)
  fix k s assume "k \<in> set [0..<unat nb_mel]"
  then have k: "k < unat nb_mel" by simp
  have sep: "span dct (4 * (unat nb_cep * unat nb_mel)) \<inter> span dst (4 * unat nb_cep) = {}"
    "span mel (4 * unat nb_mel) \<inter> span dst (4 * unat nb_cep) = {}" using assms(1) by (simp_all add: dct_sep_def)
  have i: "c * unat nb_mel + k < unat nb_cep * unat nb_mel"
    using mixed_lt [OF k assms(3)] by (simp add: ac_simps)
  show "mac fp s (ld32 (outs dst v es m) (elem dct (of_nat (c * unat nb_mel + k)))) (ld32 (outs dst v es m) (elem mel (of_nat k)))
    = mac fp s (ld32 m (elem dct (of_nat (c * unat nb_mel + k)))) (ld32 m (elem mel (of_nat k)))"
    unfolding elem_def ld32_elem_outs [OF assms(2) sep(1) i] ld32_elem_outs [OF assms(2) sep(2) k] ..
qed

lemma dct_serial:
  assumes sep: "dct_sep mel dct dst nb_mel nb_cep 1" and "a \<le> unat nb_cep" "unat ca = a"
  shows "for_u32 ca nb_cep (mfcc_dct fp mel dct dst nb_mel) (outs dst (cepstrum fp mel dct nb_mel m) [0..<a] m)
    = outs dst (cepstrum fp mel dct nb_mel m) [0..<unat nb_cep] m"
proof -
  have "fold (\<lambda>c. mfcc_dct fp mel dct dst nb_mel (of_nat c)) [a..<a + d] (outs dst (cepstrum fp mel dct nb_mel m) [0..<a] m)
      = outs dst (cepstrum fp mel dct nb_mel m) [0..<a + d] m" if "a + d \<le> unat nb_cep" for d
    using that
  proof (induction d)
    case (Suc d)
    have "cepstrum fp mel dct nb_mel (outs dst (cepstrum fp mel dct nb_mel m) [0..<a + d] m) (a + d)
      = cepstrum fp mel dct nb_mel m (a + d)" by (rule cepstrum_outs [OF sep]) (use Suc.prems in auto)
    then show ?case using Suc outs_upt_Suc [of 0 "a + d" dst "cepstrum fp mel dct nb_mel m" m]
      by (simp add: mfcc_dct_stores del: upt_Suc) (simp add: mfcc_dct_stores)
  qed simp
  from this [of "unat nb_cep - a"] assms(2,3) show ?thesis by (simp add: for_u32_def)
qed


text \<open>The movers between two blocks: well-formed, with the repeat counts the DCT asked for.\<close>

definition dct_movers :: "ssrs \<Rightarrow> bool" where
  "dct_movers S \<longleftrightarrow> movers S \<and> s_repeat (S SSR_DM0) = of_nat 4 - 1 \<and> s_repeat (S SSR_DM1) = of_nat 1 - 1"

lemma dct_lanes:
  assumes S: "dct_movers S" and nb: "nb_mel \<noteq> 0"
    and fp: "f_contract fp" "\<And>a b c. f_madd fp a b c = f_madd fp b a c"
  shows "\<exists>S'. dct_movers S' \<and>
    frep_lanes fp m 4 (nb_mel - 1) (ssr_read SSR_DM1 SSR_2D (elem dct (of_nat c * nb_mel)) (ssr_read SSR_DM0 SSR_1D mel
        (ssr_loop_2d SSR_DM1 Mfcc.UNROLL nb_mel (nb_mel * 4) 4 (ssr_loop_1d SSR_DM0 nb_mel 4 S))), replicate 4 0)
    = (S', map (\<lambda>u. cepstrum fp mel dct nb_mel m (c + u)) [0..<4])"
proof -
  let ?n = "unat nb_mel"
  define S1 where "S1 = ssr_loop_1d SSR_DM0 nb_mel 4 S"
  define S2 where "S2 = ssr_loop_2d SSR_DM1 Mfcc.UNROLL nb_mel (nb_mel * 4) 4 S1"
  have w: "ssr_wf (S SSR_DM0)" "ssr_wf (S SSR_DM1)" using S by (simp_all add: dct_movers_def movers_def)
  note l1 = ssr_loop_1d_programmed [where S = S and dm = SSR_DM0 and ?b0.0 = nb_mel and ?s0.0 = 4, OF w(1) dms(1), folded S1_def]
  have w1: "S1 SSR_DM1 = S SSR_DM1" by (rule l1(3)) (rule dms)
  note l2 = ssr_loop_2d_programmed [where S = S1 and dm = SSR_DM1 and ?b0.0 = Mfcc.UNROLL and ?b1.0 = nb_mel and ?s0.0 = "nb_mel * 4"
      and ?s1.0 = 4, unfolded w1, OF w(2) dms(2), folded S2_def]
  have w2: "S2 SSR_DM0 = S1 SSR_DM0" by (rule l2(3)) (rule dms)
  have p: "programmed [?n] [4] (S2 SSR_DM0)" "programmed [4, ?n] [nb_mel * 4, 4] (S2 SSR_DM1)"
    "s_repeat (S2 SSR_DM0) = of_nat 4 - 1" "s_repeat (S2 SSR_DM1) = of_nat 1 - 1"
    using l1(1,2) l2(1,2) S by (simp_all add: w2 dct_movers_def Mfcc.UNROLL_def)
  have n: "0 < ?n" using nb by (simp add: unat_gt_0)
  have ok: "counts_ok [?n]" "counts_ok [4, ?n]" using n unat_u32_lt [of nb_mel] by auto
  have K: "nb_mel - 1 + 1 \<noteq> 0" "?n = unat (nb_mel - 1 + 1)" using nb by simp_all
  from frep_armed [where S = S2 and rpt = "nb_mel - 1" and L = 4 and fp = fp and m = m and ?p0.0 = mel and ?p1.0 = "elem dct (of_nat c * nb_mel)"
      and ?dim0.0 = SSR_1D and ?dim1.0 = SSR_2D, OF p _ _ ok _ _ _ _ _ _ K]
  obtain S' where S': "dct_movers S'"
    "frep_lanes fp m 4 (nb_mel - 1) (ssr_read SSR_DM1 SSR_2D (elem dct (of_nat c * nb_mel)) (ssr_read SSR_DM0 SSR_1D mel S2), replicate 4 0)
      = (S', map (\<lambda>u. lane_dot fp 4 ?n u (\<lambda>i. ld32 m (mel + offset (digits [?n] (i div 4)) [4]))
          (\<lambda>i. ld32 m (elem dct (of_nat c * nb_mel) + offset (digits [4, ?n] (i div 1)) [nb_mel * 4, 4]))) [0..<4])"
    by (auto simp: SSR_1D_def SSR_2D_def dct_movers_def)
  have lane: "lane_dot fp 4 ?n u (\<lambda>i. ld32 m (mel + offset (digits [?n] (i div 4)) [4]))
          (\<lambda>i. ld32 m (elem dct (of_nat c * nb_mel) + offset (digits [4, ?n] (i div 1)) [nb_mel * 4, 4]))
      = cepstrum fp mel dct nb_mel m (c + u)" if u: "u < 4" for u
    unfolding lane_dot_def cepstrum_def
  proof (rule fold_same)
    fix k s assume "k \<in> set [0..<?n]"
    then have k: "k < ?n" by simp
    have d: "digits [?n] ((4 * k + u) div 4) = [k]" "digits [4, ?n] ((4 * k + u) div 1) = [u, k]"
      using u k digits_mixed [OF u, of "[?n]" k] by (simp_all add: add.commute)
    have a: "elem dct (of_nat c * nb_mel) + offset [u, k] [nb_mel * 4, 4] = elem dct (of_nat ((c + u) * ?n + k))"
      "mel + offset [k] [4] = elem mel (of_nat k)"
      by (simp_all add: elem_def algebra_simps)
    show "f_madd fp (ld32 m (mel + offset (digits [?n] ((4 * k + u) div 4)) [4]))
        (ld32 m (elem dct (of_nat c * nb_mel) + offset (digits [4, ?n] ((4 * k + u) div 1)) [nb_mel * 4, 4])) s
      = mac fp s (ld32 m (elem dct (of_nat ((c + u) * ?n + k)))) (ld32 m (elem mel (of_nat k)))"
      unfolding d a mac_def using fp(1) by (simp add: fp(2))
  qed
  show ?thesis unfolding S1_def [symmetric] S2_def [symmetric] S'(2) using S'(1) lane by auto
qed

lemma dct_block:
  assumes S: "dct_movers S" and nb: "nb_mel \<noteq> 0"
    and fp: "f_contract fp" "\<And>a b c. f_madd fp a b c = f_madd fp b a c"
    and sep: "dct_sep mel dct dst nb_mel nb_cep 1" and b: "4 * b + 4 \<le> unat nb_cep"
  shows "\<exists>S'. dct_movers S' \<and>
    mfcc_dct_block fp mel dct dst nb_mel i (S, outs dst (cepstrum fp mel dct nb_mel m) [0..<4 * b] m, of_nat (4 * b))
    = (S', outs dst (cepstrum fp mel dct nb_mel m) [0..<4 * Suc b] m, of_nat (4 * Suc b))"
proof -
  let ?v = "cepstrum fp mel dct nb_mel m" and ?m = "outs dst (cepstrum fp mel dct nb_mel m) [0..<4 * b] m"
  obtain S' where S': "dct_movers S'"
    "frep_lanes fp ?m 4 (nb_mel - 1) (ssr_read SSR_DM1 SSR_2D (elem dct (of_nat (4 * b) * nb_mel)) (ssr_read SSR_DM0 SSR_1D mel
        (ssr_loop_2d SSR_DM1 Mfcc.UNROLL nb_mel (nb_mel * 4) 4 (ssr_loop_1d SSR_DM0 nb_mel 4 S))), replicate 4 0)
    = (S', map (\<lambda>u. cepstrum fp mel dct nb_mel ?m (4 * b + u)) [0..<4])"
    using dct_lanes [OF S nb fp] by blast
  have v: "map (\<lambda>u. cepstrum fp mel dct nb_mel ?m (4 * b + u)) [0..<4] = map (\<lambda>u. ?v (4 * b + u)) [0..<4]"
    by (intro map_cong refl cepstrum_outs [OF sep]) (use b in auto)
  have four: "[0..<4] = [0, 1, 2, 3]" by (simp add: upt_rec)
  have e: "[0..<4 * Suc b] = [0..<4 * b] @ [4 * b] @ [4 * b + 1] @ [4 * b + 2] @ [4 * b + 3]"
  proof -
    have "4 * Suc b = Suc (Suc (Suc (Suc (4 * b))))" by simp
    then show ?thesis by (simp only: upt_Suc append_assoc le0 if_True) simp
  qed
  have st: "st32 (st32 (st32 (st32 ?m (elem dst (of_nat (4 * b))) (?v (4 * b))) (elem dst (of_nat (4 * b) + 1)) (?v (4 * b + 1)))
      (elem dst (of_nat (4 * b) + 2)) (?v (4 * b + 2))) (elem dst (of_nat (4 * b) + 3)) (?v (4 * b + 3))
    = outs dst ?v [0..<4 * Suc b] m"
    unfolding e append_assoc [symmetric] outs_snoc by (simp add: elem_def algebra_simps)
  show ?thesis
    unfolding mfcc_dct_block_def Let_def split_conv S'(2) v using S'(1) st
    by (simp add: four Mfcc.UNROLL_def)
qed


lemma mfcc_dct_ssr_outs:
  assumes S: "movers S" and nb: "nb_mel \<noteq> 0"
    and fp: "f_contract fp" "\<And>a b c. f_madd fp a b c = f_madd fp b a c"
    and sep: "dct_sep mel dct dst nb_mel nb_cep 1"
  shows "\<exists>S'. movers S' \<and> mfcc_dct_ssr fp mel dct dst nb_mel nb_cep (S, m)
    = (S', outs dst (cepstrum fp mel dct nb_mel m) [0..<unat nb_cep] m)"
proof -
  let ?v = "cepstrum fp mel dct nb_mel m" and ?B = "unat nb_cep div 4"
  have blocks: "\<exists>S'. movers S' \<and> (if nb_cep div Mfcc.UNROLL \<noteq> 0 then
              let S = ssr_repeat SSR_DM0 Mfcc.UNROLL S; S = ssr_repeat SSR_DM1 1 S
              in for_u32 0 (nb_cep div Mfcc.UNROLL) (mfcc_dct_block fp mel dct dst nb_mel) (S, m, 0)
            else (S, m, 0)) = (S', outs dst ?v [0..<4 * ?B] m, of_nat (4 * ?B))"
  proof (cases "nb_cep div Mfcc.UNROLL = 0")
    case True
    then have B: "?B = 0" using mel_blocks(1) [of nb_cep] by simp
    show ?thesis unfolding B using True S by simp
  next
    case False
    let ?S = "ssr_repeat SSR_DM1 1 (ssr_repeat SSR_DM0 Mfcc.UNROLL S)"
    have w: "ssr_wf (S SSR_DM0)" "ssr_wf (S SSR_DM1)" using S by (simp_all add: movers_def)
    have "dct_movers ?S"
      using dms w by (simp add: dct_movers_def movers_def ssr_repeat_sets Mfcc.UNROLL_def)
    have "\<exists>S'. dct_movers S' \<and> fold (\<lambda>i. mfcc_dct_block fp mel dct dst nb_mel (of_nat i)) [0..<?B] (?S, m, 0)
        = (S', outs dst ?v [0..<4 * ?B] m, of_nat (4 * ?B))"
    proof (rule fold_upt_inv [where I = "\<lambda>b s. \<exists>S'. dct_movers S' \<and> s = (S', outs dst ?v [0..<4 * b] m, of_nat (4 * b) :: u32)"])
      show "\<exists>S'. dct_movers S' \<and> (?S, m, 0) = (S', outs dst ?v [0..<4 * 0] m, of_nat (4 * 0))"
        using \<open>dct_movers ?S\<close> by auto
    next
      fix b s assume b: "b < ?B" and "\<exists>S'. dct_movers S' \<and> s = (S', outs dst ?v [0..<4 * b] m, of_nat (4 * b) :: u32)"
      then obtain S' where S': "dct_movers S'" "s = (S', outs dst ?v [0..<4 * b] m, of_nat (4 * b) :: u32)" by blast
      have "4 * b + 4 \<le> unat nb_cep" using b by linarith
      from dct_block [OF S'(1) nb fp sep this] S'(2)
      show "\<exists>S'. dct_movers S' \<and> mfcc_dct_block fp mel dct dst nb_mel (of_nat b) s
          = (S', outs dst ?v [0..<4 * Suc b] m, of_nat (4 * Suc b))" by blast
    qed
    then show ?thesis using False by (auto simp: for_u32_zero mel_blocks dct_movers_def)
  qed
  then obtain S' where S': "movers S'" "(if nb_cep div Mfcc.UNROLL \<noteq> 0 then
              let S = ssr_repeat SSR_DM0 Mfcc.UNROLL S; S = ssr_repeat SSR_DM1 1 S
              in for_u32 0 (nb_cep div Mfcc.UNROLL) (mfcc_dct_block fp mel dct dst nb_mel) (S, m, 0)
            else (S, m, 0)) = (S', outs dst ?v [0..<4 * ?B] m, of_nat (4 * ?B))" by blast
  have u: "unat (of_nat (4 * ?B) :: u32) = 4 * ?B"
    using unat_u32_lt [of nb_cep] by (intro unat_of_nat_small) linarith
  have "for_u32 (of_nat (4 * ?B)) nb_cep (mfcc_dct fp mel dct dst nb_mel) (outs dst ?v [0..<4 * ?B] m)
      = outs dst ?v [0..<unat nb_cep] m" by (rule dct_serial [OF sep _ u]) simp
  then show ?thesis using S' unfolding mfcc_dct_ssr_def Let_def split_conv by auto
qed

section \<open>The two front-ends\<close>

lemma dct_sep_frame:
  assumes "dct_sep mel dct out nb_mel nb_cep frames" and "t < frames"
  shows "dct_sep mel dct (elem out (of_nat t * nb_cep)) nb_mel nb_cep 1"
proof -
  have "Suc t * unat nb_cep \<le> frames * unat nb_cep" using assms(2) by (intro mult_le_mono1) simp
  then have "4 * (t * unat nb_cep) + 4 * unat nb_cep \<le> 4 * (frames * unat nb_cep)" by simp
  from span_off [OF this, of out]
  have "span (elem out (of_nat t * nb_cep)) (4 * unat nb_cep) \<subseteq> span out (4 * (frames * unat nb_cep))"
    by (simp add: elem_def)
  then show ?thesis using assms(1) unfolding dct_sep_def by auto
qed

lemma Mfcc_ssr_lanes:
  assumes S: "movers S" and nb: "nb_mel \<noteq> 0" "nb_cep \<noteq> 0"
    and fp: "f_contract fp" "\<And>a b c. f_madd fp a b c = f_madd fp b a c"
    and sep: "dct_sep (elem scratch (2 * fft_len)) dct out nb_mel nb_cep (unat nb_frames)"
  shows "snd (Mfcc_ssr fp audio out nb_frames frame_len hop fft_len window twiddles mel_coeff mel_start mel_len nb_mel dct nb_cep scratch (S, m))
    = Mfcc_by fp (four_lane_dot fp) audio out nb_frames frame_len hop fft_len window twiddles mel_coeff mel_start mel_len nb_mel dct nb_cep scratch m"
proof (cases "nb_frames = 0")
  case True
  then show ?thesis by (simp add: Mfcc_ssr_def Mfcc_by_def)
next
  case False
  let ?mel = "elem scratch (2 * fft_len)"
  define f where "f t = (\<lambda>(S, m).
        let m = mfcc_spectrum fp audio frame_len hop fft_len window twiddles scratch (of_nat t) m;
            s = mfcc_mel_ssr fp scratch ?mel mel_coeff mel_start mel_len nb_mel (S, m)
        in mfcc_dct_ssr fp ?mel dct (elem out (of_nat t * nb_cep)) nb_mel nb_cep s)" for t
  define g where "g t m =
       (let m = mfcc_spectrum fp audio frame_len hop fft_len window twiddles scratch (of_nat t) m;
           m = mfcc_mel_by fp (four_lane_dot fp) scratch ?mel mel_coeff mel_start mel_len nb_mel m
       in for_u32 0 nb_cep (mfcc_dct fp ?mel dct (elem out (of_nat t * nb_cep)) nb_mel) m)" for t m
  have "movers (fst (fold f [0..<unat nb_frames] (S, m))) \<and> snd (fold f [0..<unat nb_frames] (S, m)) = fold g [0..<unat nb_frames] m"
  proof (rule fold_related [where R = "\<lambda>s m. movers (fst s) \<and> snd s = m"])
    show "movers (fst (S, m)) \<and> snd (S, m) = m" using S by simp
  next
    fix t and s :: "ssrs \<times> mem" and m :: mem
    assume t: "t \<in> set [0..<unat nb_frames]" and "movers (fst s) \<and> snd s = m"
    then obtain S where s: "s = (S, m)" "movers S" by (cases s) auto
    let ?m = "mfcc_spectrum fp audio frame_len hop fft_len window twiddles scratch (of_nat t) m"
    let ?mm = "mfcc_mel_by fp (four_lane_dot fp) scratch ?mel mel_coeff mel_start mel_len nb_mel ?m"
    have sep': "dct_sep ?mel dct (elem out (of_nat t * nb_cep)) nb_mel nb_cep 1"
      by (rule dct_sep_frame [OF sep]) (use t in simp)
    obtain S1 where S1: "movers S1" "mfcc_mel_ssr fp scratch ?mel mel_coeff mel_start mel_len nb_mel (S, ?m) = (S1, ?mm)"
      using mfcc_mel_ssr_lanes [OF s(2)] by blast
    obtain S2 where S2: "movers S2" "f t s = (S2, outs (elem out (of_nat t * nb_cep)) (cepstrum fp ?mel dct nb_mel ?mm) [0..<unat nb_cep] ?mm)"
      using mfcc_dct_ssr_outs [OF S1(1) nb(1) fp sep', of ?mm] by (auto simp: s f_def S1(2) Let_def)
    have "g t m = outs (elem out (of_nat t * nb_cep)) (cepstrum fp ?mel dct nb_mel ?mm) [0..<unat nb_cep] ?mm"
      using dct_serial [OF sep', of 0 0 fp ?mm] by (simp add: g_def Let_def)
    then show "movers (fst (f t s)) \<and> snd (f t s) = g t m" using S2 by simp
  qed
  then show ?thesis
    using False nb by (simp add: Mfcc_ssr_def Mfcc_by_def for_u32_zero [where n = nb_frames] f_def [abs_def] g_def [abs_def] Let_def)
qed


text \<open>Exact arithmetic: the two sums agree.\<close>

definition fused_int_fpu :: mfpu where
  "fused_int_fpu = int_fpu\<lparr>f_contract := True\<rparr>"

lemma exact_sums_agree: "four_lane_dot fused_int_fpu x y n = serial_dot fused_int_fpu x y n"
proof -
  let ?f = "\<lambda>i s. x i * y i + s"
  have ops: "f_madd fused_int_fpu = (\<lambda>a b c. a * b + c)" "f_add fused_int_fpu = (+)" "mac fused_int_fpu s a b = a * b + s" for s a b
    by (simp_all add: fused_int_fpu_def int_fpu_def mac_def)
  have lanes: "fold ?f [0..<B * 4] 0 = lane_dot fused_int_fpu 4 B 0 x y + lane_dot fused_int_fpu 4 B 1 x y
      + (lane_dot fused_int_fpu 4 B 2 x y + lane_dot fused_int_fpu 4 B 3 x y)" for B
  proof (induction B)
    case (Suc B)
    have "Suc B * 4 = Suc (Suc (Suc (Suc (B * 4))))" by simp
    then have "fold ?f [0..<Suc B * 4] 0 = ?f (B * 4 + 3) (?f (B * 4 + 2) (?f (B * 4 + 1) (?f (B * 4) (fold ?f [0..<B * 4] 0))))"
      by (simp only: upt_Suc fold_append le0 if_True) (simp add: numeral_3_eq_3)
    then show ?case unfolding Suc by (simp add: lane_dot_def ops ac_simps)
  qed (simp add: lane_dot_def)
  have "serial_dot fused_int_fpu x y n = fold ?f [n div 4 * 4..<n] (fold ?f [0..<n div 4 * 4] 0)"
  proof -
    have "[0..<n] = [0..<n div 4 * 4] @ [n div 4 * 4..<n]"
      using upt_add_eq_append [of 0 "n div 4 * 4" "n mod 4"] by simp
    then show ?thesis by (simp only: serial_dot_def ops fold_append o_apply)
  qed
  then show ?thesis unfolding lanes by (auto simp: four_lane_dot_def Let_def ops lane_dot_def)
qed



end
