(* ===== verification/SpatzGemm.thy ===== *)
theory SpatzGemm
  imports GemmKernel
begin

text \<open>
  \<open>runtime/spatz/kernels/gemm_fp32_rvv.c\<close>: the matrix product of the Spatz cluster. Four rows of
  the result are accumulated in vector registers while one vector of B is loaded per step of the
  reduction. The vector length of each pass is what \<open>vsetvl\<close> grants, a parameter; both loops are
  written as they stand, so that they return is part of what is proved.
\<close>

section \<open>The kernel\<close>

definition ROWS :: u32 where "ROWS = 4"

text \<open>Vector instructions on the first \<open>vl\<close> elements of a register group.\<close>

definition vle32 :: "mem \<Rightarrow> u32 \<Rightarrow> u32 \<Rightarrow> u32 list" where
  "vle32 m p vl = map (\<lambda>u. ld32 m (elem p (of_nat u))) [0..<unat vl]"

definition vse32 :: "u32 \<Rightarrow> u32 list \<Rightarrow> u32 \<Rightarrow> mem \<Rightarrow> mem" where
  "vse32 p x vl m = fold (\<lambda>u m. st32 m (elem p (of_nat u)) (x ! u)) [0..<unat vl] m"

definition vfmv_v_f :: "u32 \<Rightarrow> u32 \<Rightarrow> u32 list" where
  "vfmv_v_f a vl = replicate (unat vl) a"

definition vfmacc_vf :: "'a fpu_scheme \<Rightarrow> u32 list \<Rightarrow> u32 \<Rightarrow> u32 list \<Rightarrow> u32 \<Rightarrow> u32 list" where
  "vfmacc_vf fp acc a b vl = map (\<lambda>u. f_madd fp a (b ! u) (acc ! u)) [0..<unat vl]"

text \<open>The four accumulators of a block, of which \<open>nr\<close> are in use.\<close>

definition rvv_init :: "mem \<Rightarrow> u32 \<Rightarrow> u32 \<Rightarrow> u32 \<Rightarrow> u32 \<Rightarrow> u32 \<Rightarrow> u32 \<Rightarrow> u32 list list" where
  "rvv_init m C O' i j nr vl =
     (if C \<noteq> 0 then
        let acc0 = vle32 m (elem C ((i + 0) * O' + j)) vl
        in map (\<lambda>r. if r = 0 then acc0
                    else if of_nat r < nr then vle32 m (elem C ((i + of_nat r) * O' + j)) vl else acc0) [0..<4]
      else replicate 4 (vfmv_v_f 0 vl))"

definition rvv_step ::
    "'a fpu_scheme \<Rightarrow> mem \<Rightarrow> u32 \<Rightarrow> u32 \<Rightarrow> u32 \<Rightarrow> u32 \<Rightarrow> u32 \<Rightarrow> u32 \<times> u32 \<times> u32 list list \<Rightarrow> u32 \<times> u32 \<times> u32 list list" where
  "rvv_step fp m N O' nr vl k = (\<lambda>(a, b, acc).
     let bv = vle32 m b vl;
         acc = map (\<lambda>r. if r = 0 \<or> of_nat r < nr then vfmacc_vf fp (acc ! r) (ld32 m (elem a (of_nat r * N))) bv vl
                        else acc ! r) [0..<4]
     in (elem a 1, elem b O', acc))"

definition rvv_block ::
    "'a fpu_scheme \<Rightarrow> u32 \<Rightarrow> u32 \<Rightarrow> u32 \<Rightarrow> u32 \<Rightarrow> u32 \<Rightarrow> u32 \<Rightarrow> u32 \<Rightarrow> u32 \<Rightarrow> u32 \<Rightarrow> u32 \<Rightarrow> mem \<Rightarrow> mem" where
  "rvv_block fp A B C Y N O' i nr j vl m =
     (let (a, b, acc) = for_u32 0 N (rvv_step fp m N O' nr vl) (elem A (i * N), elem B j, rvv_init m C O' i j nr vl)
      in fold (\<lambda>r m. if r = 0 \<or> of_nat r < nr then vse32 (elem Y ((i + of_nat r) * O' + j)) (acc ! r) vl m else m) [0..<4] m)"

partial_function (option) rvv_cols :: "(u32 \<Rightarrow> u32) \<Rightarrow> u32 \<Rightarrow> (u32 \<Rightarrow> u32 \<Rightarrow> mem \<Rightarrow> mem) \<Rightarrow> u32 \<Rightarrow> mem \<Rightarrow> mem option" where
  "rvv_cols vsetvl O' block j m =
     (if j < O' then let vl = vsetvl (O' - j) in rvv_cols vsetvl O' block (j + vl) (block j vl m)
      else Some m)"

partial_function (option) gemm_rvv ::
    "'a fpu_scheme \<Rightarrow> (u32 \<Rightarrow> u32) \<Rightarrow> u32 \<Rightarrow> u32 \<Rightarrow> u32 \<Rightarrow> u32 \<Rightarrow> u32 \<Rightarrow> u32 \<Rightarrow> u32 \<Rightarrow> u32 \<Rightarrow> mem \<Rightarrow> mem option" where
  "gemm_rvv fp vsetvl A B C Y M N O' i m =
     (if i < M then
        let nr = (if M - i < ROWS then M - i else ROWS)
        in Option.bind (rvv_cols vsetvl O' (rvv_block fp A B C Y N O' i nr) 0 m)
             (gemm_rvv fp vsetvl A B C Y M N O' (i + ROWS))
      else Some m)"

definition MatMul_rvv ::
    "'a fpu_scheme \<Rightarrow> (u32 \<Rightarrow> u32) \<Rightarrow> (u32 \<Rightarrow> u32 \<Rightarrow> u32 \<Rightarrow> u32 \<Rightarrow> u32 \<Rightarrow> u32 \<Rightarrow> mem \<Rightarrow> mem) \<Rightarrow>
       u32 \<Rightarrow> u32 \<Rightarrow> u32 \<Rightarrow> u32 \<Rightarrow> u32 \<Rightarrow> u32 \<Rightarrow> mem \<Rightarrow> mem option" where
  "MatMul_rvv fp vsetvl gen A B Y M N O' m =
     (if M = 0 \<or> N = 0 \<or> O' = 0 then Some (gen A B Y M N O' m)
      else gemm_rvv fp vsetvl A B 0 Y M N O' 0 m)"

definition Gemm_rvv ::
    "'a fpu_scheme \<Rightarrow> (u32 \<Rightarrow> u32) \<Rightarrow> (u32 \<Rightarrow> u32 \<Rightarrow> u32 \<Rightarrow> u32 \<Rightarrow> u32 \<Rightarrow> u32 \<Rightarrow> u32 \<Rightarrow> u32 \<Rightarrow> u32 \<Rightarrow> mem \<Rightarrow> mem) \<Rightarrow>
       u32 \<Rightarrow> u32 \<Rightarrow> u32 \<Rightarrow> u32 \<Rightarrow> u32 \<Rightarrow> u32 \<Rightarrow> u32 \<Rightarrow> u32 \<Rightarrow> u32 \<Rightarrow> mem \<Rightarrow> mem option" where
  "Gemm_rvv fp vsetvl gen A B C Y M N O' transA transB m =
     (if M = 0 \<or> N = 0 \<or> O' = 0 \<or> transA \<noteq> 0 \<or> transB \<noteq> 0 then Some (gen A B C Y M N O' transA transB m)
      else gemm_rvv fp vsetvl A B C Y M N O' 0 m)"

text \<open>What the vector specification says of the length granted: some of what was asked for, and never nothing.\<close>

definition vsetvl_ok :: "(u32 \<Rightarrow> u32) \<Rightarrow> bool" where
  "vsetvl_ok vsetvl \<longleftrightarrow> (\<forall>n. 0 < n \<longrightarrow> 0 < vsetvl n \<and> vsetvl n \<le> n)"

section \<open>One block\<close>

text \<open>Element \<open>(i, j)\<close> after \<open>k\<close> steps.\<close>

definition chain :: "'a fpu_scheme \<Rightarrow> u32 \<Rightarrow> u32 \<Rightarrow> u32 \<Rightarrow> u32 \<Rightarrow> u32 \<Rightarrow> u32 \<Rightarrow> mem \<Rightarrow> nat \<Rightarrow> nat \<Rightarrow> nat \<Rightarrow> u32" where
  "chain fp A B C M N O' m i j k =
     fold (\<lambda>k c. f_madd fp (la m A M N 0 i k) (lb m B N O' 0 j k) c) [0..<k]
       (if C \<noteq> 0 then ld32 m (C + 4 * of_nat (i * unat O' + j)) else 0)"

lemma chain_full: "chain fp A B C M N O' m i j (unat N) = block_val fp A B C M N O' 0 0 m i j"
  by (simp add: chain_def block_val_def)

lemma rvv_init_at:
  assumes "r < 4" and "r = 0 \<or> of_nat r < nr" and "u < unat vl"
  shows "rvv_init m C O' (of_nat i) (of_nat j) nr vl ! r ! u = chain fp A B C M N O' m (i + r) (j + u) 0"
proof (cases "C = 0")
  case True
  then show ?thesis using assms by (simp add: rvv_init_def vfmv_v_f_def chain_def)
next
  case False
  have e: "elem (elem C ((of_nat i + of_nat r) * O' + of_nat j)) (of_nat u) = C + 4 * of_nat ((i + r) * unat O' + (j + u))"
    by (simp add: elem_def algebra_simps)
  show ?thesis using False assms e by (cases "r = 0") (simp_all add: rvv_init_def vle32_def chain_def Let_def)
qed

lemma rvv_steps:
  assumes nr: "\<And>r. r < 4 \<Longrightarrow> r = 0 \<or> of_nat r < nr \<longleftrightarrow> r < R"
  shows "\<exists>acc. fold (\<lambda>k. rvv_step fp m N O' nr vl (of_nat k)) [0..<k]
        (elem A (of_nat i * N), elem B (of_nat j), rvv_init m C O' (of_nat i) (of_nat j) nr vl)
      = (A + 4 * of_nat (i * unat N + k), B + 4 * of_nat (j + k * unat O'), acc)
    \<and> (\<forall>r < 4. \<forall>u < unat vl. r < R \<longrightarrow> acc ! r ! u = chain fp A B C M N O' m (i + r) (j + u) k)"
proof (induction k)
  case 0
  have "rvv_init m C O' (of_nat i) (of_nat j) nr vl ! r ! u = chain fp A B C M N O' m (i + r) (j + u) 0"
    if "r < 4" "u < unat vl" "r < R" for r u
    by (rule rvv_init_at [OF that(1) _ that(2)]) (use that(3) nr [OF that(1)] in simp)
  then show ?case by (simp add: elem_def)
next
  case (Suc k)
  then obtain acc where acc: "fold (\<lambda>k. rvv_step fp m N O' nr vl (of_nat k)) [0..<k]
        (elem A (of_nat i * N), elem B (of_nat j), rvv_init m C O' (of_nat i) (of_nat j) nr vl)
      = (A + 4 * of_nat (i * unat N + k), B + 4 * of_nat (j + k * unat O'), acc)"
    and v: "\<And>r u. r < 4 \<Longrightarrow> u < unat vl \<Longrightarrow> r < R \<Longrightarrow> acc ! r ! u = chain fp A B C M N O' m (i + r) (j + u) k"
    by blast
  let ?a = "A + 4 * of_nat (i * unat N + k) :: u32" and ?b = "B + 4 * of_nat (j + k * unat O') :: u32"
  let ?acc = "map (\<lambda>r. if r = 0 \<or> of_nat r < nr then vfmacc_vf fp (acc ! r) (ld32 m (elem ?a (of_nat r * N))) (vle32 m ?b vl) vl
      else acc ! r) [0..<4]"
  have st: "rvv_step fp m N O' nr vl (of_nat k) (?a, ?b, acc) = (elem ?a 1, elem ?b O', ?acc)"
    by (simp add: rvv_step_def Let_def)
  have p: "elem ?a 1 = A + 4 * of_nat (i * unat N + Suc k)" "elem ?b O' = B + 4 * of_nat (j + Suc k * unat O')"
    by (simp_all add: elem_def algebra_simps)
  have "?acc ! r ! u = chain fp A B C M N O' m (i + r) (j + u) (Suc k)" if r: "r < 4" "r < R" and u: "u < unat vl" for r u
  proof -
    have a: "elem ?a (of_nat r * N) = elem A (a_index M N 0 (of_nat (i + r)) (of_nat k))"
      and b: "elem ?b (of_nat u) = elem B (b_index N O' 0 (of_nat (j + u)) (of_nat k))"
      by (simp_all add: elem_def a_index_def b_index_def algebra_simps)
    have "?acc ! r ! u = f_madd fp (ld32 m (elem ?a (of_nat r * N))) (ld32 m (elem ?b (of_nat u))) (acc ! r ! u)"
      using r u nr [OF r(1)] by (simp add: vfmacc_vf_def vle32_def)
    also have "\<dots> = chain fp A B C M N O' m (i + r) (j + u) (Suc k)"
      unfolding a b v [OF r(1) u r(2)] by (simp add: chain_def la_def lb_def)
    finally show ?thesis .
  qed
  then show ?case unfolding upt_Suc_append [OF le0] fold_append o_apply acc fold_simps st p by blast
qed

lemma image_plus: "(\<lambda>u. c + u) ` {..<n} = {c..<c + n :: nat}"
  using image_add_atLeastLessThan [of c 0 n] by (simp add: lessThan_atLeast0 add.commute)

text \<open>The outputs of one block, row by row.\<close>

definition tile :: "u32 \<Rightarrow> nat \<Rightarrow> nat \<Rightarrow> nat \<Rightarrow> nat \<Rightarrow> nat list" where
  "tile O' i R j l = concat (map (\<lambda>r. map (\<lambda>u. (i + r) * unat O' + (j + u)) [0..<l]) [0..<R])"

lemma set_tile: "set (tile O' i R j l) = (\<Union>r<R. (\<lambda>u. (i + r) * unat O' + (j + u)) ` {..<l})"
  by (auto simp: tile_def)

lemma set_tile_subset:
  assumes "i + R \<le> unat M" and "j + l \<le> unat O'"
  shows "set (tile O' i R j l) \<subseteq> {..<unat M * unat O'}"
  using assms index_lt by (auto simp: set_tile)

lemma vse32_outs:
  assumes "\<And>u. u < unat vl \<Longrightarrow> x ! u = v (e + u)"
  shows "vse32 (Y + 4 * of_nat e) x vl (outs Y v es m) = outs Y v (es @ map (\<lambda>u. e + u) [0..<unat vl]) m"
proof -
  have "fold (\<lambda>u m. st32 m (elem (Y + 4 * of_nat e) (of_nat u)) (x ! u)) [0..<l] (outs Y v es m)
      = outs Y v (es @ map (\<lambda>u. e + u) [0..<l]) m" if "l \<le> unat vl" for l
    using that
  proof (induction l)
    case (Suc l)
    then show ?case using assms [of l] outs_snoc [of Y v "es @ map (\<lambda>u. e + u) [0..<l]" "e + l" m]
      by (simp add: elem_def algebra_simps)
  qed simp
  then show ?thesis by (simp add: vse32_def)
qed

lemma fold_rows_in_use:
  assumes "R \<le> L" and "\<And>r. r < L \<Longrightarrow> P r \<longleftrightarrow> r < R"
  shows "fold (\<lambda>r m. if P r then f r m else m) [0..<L] m = fold f [0..<R] m"
proof -
  have "[0..<L] = [0..<R] @ [R..<L]" using assms(1) by (metis le0 le_add_diff_inverse upt_add_eq_append)
  moreover have "fold (\<lambda>r m. if P r then f r m else m) [R..<L] y = y" for y
    by (rule fold_invariant [where Q = "\<lambda>r. R \<le> r \<and> r < L" and P = "\<lambda>z. z = y"]) (use assms(2) in auto)
  moreover have "fold (\<lambda>r m. if P r then f r m else m) [0..<R] m = fold f [0..<R] m"
    by (rule fold_cong) (use assms in auto)
  ultimately show ?thesis by simp
qed

lemma chain_outs:
  assumes "gemm_sep A B C Y M N O'" "set es \<subseteq> {..<unat M * unat O'}" "i < unat M" "j < unat O'" "k \<le> unat N"
  shows "chain fp A B C M N O' (outs Y v es m) i j k = chain fp A B C M N O' m i j k"
proof -
  have "fold (\<lambda>k s. f_madd fp (la (outs Y v es m) A M N 0 i k) (lb (outs Y v es m) B N O' 0 j k) s) [0..<k] c
      = fold (\<lambda>k s. f_madd fp (la m A M N 0 i k) (lb m B N O' 0 j k) s) [0..<k] c" for c
    by (rule fold_same) (use assms(5) in \<open>simp add: la_outs [OF assms(1-3)] lb_outs [OF assms(1,2,4)]\<close>)
  then show ?thesis unfolding chain_def by (cases "C = 0") (simp_all only: lc_outs [OF assms(1-4)] refl if_True if_False not_False_eq_True not_True_eq_False)
qed

lemma rvv_block_outs:
  assumes sep: "gemm_sep A B C Y M N O'" and es: "set es \<subseteq> {..<unat M * unat O'}"
    and i: "i + unat nr \<le> unat M" "0 < nr" "nr \<le> 4" and j: "j + unat vl \<le> unat O'"
    and v: "v = rows O' (block_val fp A B C M N O' 0 0 m)"
  shows "rvv_block fp A B C Y N O' (of_nat i) nr (of_nat j) vl (outs Y v es m)
    = outs Y v (es @ tile O' i (unat nr) j (unat vl)) m"
proof -
  let ?M = "outs Y v es m"
  have R: "0 < unat nr" "unat nr \<le> 4" using i(2,3) by (simp_all add: word_less_nat_alt word_le_nat_alt)
  have lt: "r = 0 \<or> of_nat r < nr \<longleftrightarrow> r < unat nr" if "r < 4" for r
  proof -
    have "unat (of_nat r :: u32) = r" using that by (intro unat_of_nat_small) simp
    then show ?thesis using R(1) by (auto simp: word_less_nat_alt)
  qed
  obtain acc a b where acc: "for_u32 0 N (rvv_step fp ?M N O' nr vl) (elem A (of_nat i * N), elem B (of_nat j), rvv_init ?M C O' (of_nat i) (of_nat j) nr vl)
      = (a, b, acc)"
    and val: "\<And>r u. r < 4 \<Longrightarrow> u < unat vl \<Longrightarrow> r < unat nr \<Longrightarrow> acc ! r ! u = chain fp A B C M N O' ?M (i + r) (j + u) (unat N)"
    using rvv_steps [OF lt, of fp ?M N O' vl "unat N" A i B j C M] unfolding for_u32_zero by blast
  have cell: "acc ! r ! u = v ((i + r) * unat O' + j + u)" if "r < unat nr" "u < unat vl" for r u
  proof -
    have b: "i + r < unat M" "j + u < unat O'" using that i(1) j by simp_all
    have "acc ! r ! u = chain fp A B C M N O' m (i + r) (j + u) (unat N)"
      using val [of r u] that R(2) chain_outs [OF sep es b order_refl] by simp
    then show ?thesis unfolding v chain_full using rows_at [OF b(2)] by (simp add: add.assoc)
  qed
  have p: "elem Y ((of_nat i + of_nat r) * O' + of_nat j) = Y + 4 * of_nat ((i + r) * unat O' + j)" for r
    by (simp add: elem_def)
  have "fold (\<lambda>r. vse32 (elem Y ((of_nat i + of_nat r) * O' + of_nat j)) (acc ! r) vl) [0..<q] ?M
      = outs Y v (es @ tile O' i q j (unat vl)) m" if "q \<le> unat nr" for q
    using that
  proof (induction q)
    case 0
    then show ?case by (simp add: tile_def)
  next
    case (Suc q)
    have "vse32 (Y + 4 * of_nat ((i + q) * unat O' + j)) (acc ! q) vl (outs Y v (es @ tile O' i q j (unat vl)) m)
        = outs Y v ((es @ tile O' i q j (unat vl)) @ map (\<lambda>u. (i + q) * unat O' + j + u) [0..<unat vl]) m"
      by (rule vse32_outs) (use cell [of q] Suc.prems in simp)
    then show ?case using Suc unfolding p by (simp add: tile_def add.assoc)
  qed
  moreover have "fold (\<lambda>r m. if r = 0 \<or> of_nat r < nr then g r m else m) [0..<4] y = fold g [0..<unat nr] y" for g and y :: mem
    by (rule fold_rows_in_use [OF R(2) lt])
  ultimately show ?thesis unfolding rvv_block_def acc Let_def prod.case by simp
qed

section \<open>The two loops\<close>

text \<open>The passes over the columns of one group of rows store exactly its elements.\<close>

lemma rvv_cols_outs:
  assumes ok: "vsetvl_ok vsetvl" and sep: "gemm_sep A B C Y M N O'" and es: "set es \<subseteq> {..<unat M * unat O'}"
    and i: "i + unat nr \<le> unat M" "0 < nr" "nr \<le> 4" and j: "j \<le> unat O'"
    and v: "v = rows O' (block_val fp A B C M N O' 0 0 m)"
  shows "\<exists>es'. rvv_cols vsetvl O' (rvv_block fp A B C Y N O' (of_nat i) nr) (of_nat j) (outs Y v es m) = Some (outs Y v (es @ es') m)
    \<and> set es' = set (tile O' i (unat nr) j (unat O' - j))"
  using es j
proof (induction "unat O' - j" arbitrary: j es rule: less_induct)
  case less
  have uj: "unat (of_nat j :: u32) = j" using less.prems(2) unat_u32_lt [of O'] by (intro unat_of_nat_small) linarith
  show ?case
  proof (cases "j < unat O'")
    case False
    then have j: "j = unat O'" using less.prems(2) by simp
    then have "\<not> (of_nat j < O')" using uj by (simp add: word_less_nat_alt)
    then show ?thesis using j by (subst rvv_cols.simps) (auto simp: tile_def)
  next
    case True
    then have lt: "of_nat j < O'" using uj by (simp add: word_less_nat_alt)
    define vl where "vl = vsetvl (O' - of_nat j)"
    have "0 < O' - of_nat j" using lt by (metis word_gt_0 right_minus_eq less_irrefl)
    then have vl: "0 < vl" "vl \<le> O' - of_nat j" using ok unfolding vl_def vsetvl_ok_def by blast+
    have "unat (O' - of_nat j) = unat O' - j" using lt uj by (metis order_less_imp_le unat_sub)
    with vl have l: "0 < unat vl" "j + unat vl \<le> unat O'" using True by (simp_all add: word_less_nat_alt word_le_nat_alt)
    let ?t = "tile O' i (unat nr) j (unat vl)"
    note b = rvv_block_outs [OF sep less.prems(1) i l(2) v]
    have sub: "set (es @ ?t) \<subseteq> {..<unat M * unat O'}" using less.prems(1) set_tile_subset [OF i(1) l(2)] by simp
    have d: "unat O' - (j + unat vl) < unat O' - j" using l True by simp
    obtain es' where es': "rvv_cols vsetvl O' (rvv_block fp A B C Y N O' (of_nat i) nr) (of_nat (j + unat vl)) (outs Y v (es @ ?t) m)
        = Some (outs Y v ((es @ ?t) @ es') m)"
      "set es' = set (tile O' i (unat nr) (j + unat vl) (unat O' - (j + unat vl)))"
      using less.hyps [OF d sub l(2)] by blast
    have "{..<unat O' - j} = {..<unat vl} \<union> (\<lambda>u. unat vl + u) ` {..<unat O' - (j + unat vl)}"
      unfolding image_plus using l by auto
    then have "set (?t @ es') = set (tile O' i (unat nr) j (unat O' - j))"
      unfolding set_append es'(2) set_tile by (auto simp: image_Un image_image add.assoc)
    moreover have "rvv_cols vsetvl O' (rvv_block fp A B C Y N O' (of_nat i) nr) (of_nat j) (outs Y v es m)
        = Some (outs Y v (es @ (?t @ es')) m)"
      using es'(1) b lt by (subst rvv_cols.simps) (simp add: Let_def vl_def [symmetric])
    ultimately show ?thesis by blast
  qed
qed

lemma gemm_rvv_outs:
  assumes ok: "vsetvl_ok vsetvl" and sep: "gemm_sep A B C Y M N O'" and M: "unat M \<le> 2 ^ 31"
    and es: "set es = {..<i * unat O'}" and i: "i \<le> unat M"
    and v: "v = rows O' (block_val fp A B C M N O' 0 0 m)"
  shows "\<exists>es'. gemm_rvv fp vsetvl A B C Y M N O' (of_nat i) (outs Y v es m) = Some (outs Y v es' m)
    \<and> set es' = {..<unat M * unat O'}"
  using es i
proof (induction "unat M - i" arbitrary: i es rule: less_induct)
  case less
  have ui: "unat (of_nat i :: u32) = i" using less.prems(2) M by (intro unat_of_nat_small) simp
  show ?case
  proof (cases "i < unat M")
    case False
    then have "i = unat M" using less.prems(2) by simp
    moreover have "\<not> (of_nat i < M)" using False ui by (simp add: word_less_nat_alt)
    ultimately show ?thesis using less.prems(1) by (subst gemm_rvv.simps) auto
  next
    case True
    then have lt: "of_nat i < M" using ui by (simp add: word_less_nat_alt)
    then have um: "unat (M - of_nat i) = unat M - i" using ui by (metis order_less_imp_le unat_sub)
    define nr where "nr = (if M - of_nat i < ROWS then M - of_nat i else ROWS)"
    have nr: "unat nr = min (unat M - i) 4"
      using um by (auto simp: nr_def ROWS_def word_less_nat_alt)
    have b: "i + unat nr \<le> unat M" "0 < nr" "nr \<le> 4" using nr True by (auto simp: word_less_nat_alt word_le_nat_alt)
    have "set es \<subseteq> {..<unat M * unat O'}" using less.prems by (auto intro: order_less_le_trans mult_le_mono1)
    from rvv_cols_outs [OF ok sep this b le0 v] obtain es1 where
      es1: "rvv_cols vsetvl O' (rvv_block fp A B C Y N O' (of_nat i) nr) 0 (outs Y v es m) = Some (outs Y v (es @ es1) m)"
      "set es1 = set (tile O' i (unat nr) 0 (unat O'))" by auto
    have s: "set (es @ es1) = {..<(i + unat nr) * unat O'}"
    proof -
      have "(\<lambda>u. (i + r) * unat O' + u) ` {..<unat O'} = {(i + r) * unat O'..<(i + Suc r) * unat O'}" for r
        unfolding image_plus by (simp add: add.commute)
      then have "(\<Union>r<R. (\<lambda>u. (i + r) * unat O' + u) ` {..<unat O'}) = {i * unat O'..<(i + R) * unat O'}" for R
        by (induction R) (auto simp: lessThan_Suc algebra_simps)
      then show ?thesis unfolding set_append less.prems(1) es1(2) set_tile by (auto simp: algebra_simps)
    qed
    have step: "gemm_rvv fp vsetvl A B C Y M N O' (of_nat i) (outs Y v es m)
        = gemm_rvv fp vsetvl A B C Y M N O' (of_nat i + ROWS) (outs Y v (es @ es1) m)"
      by (subst gemm_rvv.simps) (simp only: lt if_True Let_def nr_def [symmetric] es1(1) Option.bind.simps)
    show ?thesis
    proof (cases "i + 4 \<le> unat M")
      case True
      then have n4: "unat nr = 4" using nr by simp
      have d: "unat M - (i + 4) < unat M - i" using True by simp
      have "set (es @ es1) = {..<(i + 4) * unat O'}" using s unfolding n4 .
      from less.hyps [OF d this True]
      obtain es2 where "gemm_rvv fp vsetvl A B C Y M N O' (of_nat (i + 4)) (outs Y v (es @ es1) m) = Some (outs Y v es2 m)"
        "set es2 = {..<unat M * unat O'}"
        by blast
      then show ?thesis unfolding step by (intro exI [of _ es2]) (simp add: ROWS_def)
    next
      case False
      then have n: "i + unat nr = unat M" using nr True by simp
      have "unat (of_nat i + ROWS) = i + 4" using True M ui by (simp add: unat_word_ariths ROWS_def)
      then have "\<not> of_nat i + ROWS < M" using False by (simp add: word_less_nat_alt)
      then have "gemm_rvv fp vsetvl A B C Y M N O' (of_nat i + ROWS) y = Some y" for y
        by (subst gemm_rvv.simps) simp
      then have "gemm_rvv fp vsetvl A B C Y M N O' (of_nat i) (outs Y v es m) = Some (outs Y v (es @ es1) m)"
        unfolding step .
      then show ?thesis using s n by auto
    qed
  qed
qed

section \<open>Against the other kernels\<close>

lemma gemm_rvv_result:
  assumes "vsetvl_ok vsetvl" and "gemm_sep A B C Y M N O'" and "4 * (unat M * unat O') \<le> 4294967296" and "O' \<noteq> 0"
  shows "gemm_rvv fp vsetvl A B C Y M N O' 0 m
    = Some (outs Y (rows O' (block_val fp A B C M N O' 0 0 m)) [0..<unat M * unat O'] m)"
proof -
  have "0 < unat O'" using assms(4) by (simp add: unat_gt_0)
  then have "unat M * 1 \<le> unat M * unat O'" by (intro mult_le_mono2) simp
  moreover have "unat M * unat O' \<le> 2 ^ 31" using assms(3) by simp
  ultimately have M: "unat M \<le> 2 ^ 31" by linarith
  have e: "set ([] :: nat list) = {..<0 * unat O'}" by simp
  obtain es' where es': "gemm_rvv fp vsetvl A B C Y M N O' 0 m = Some (outs Y (rows O' (block_val fp A B C M N O' 0 0 m)) es' m)"
    "set es' = {..<unat M * unat O'}"
    using gemm_rvv_outs [OF assms(1,2) M e le0 refl, of fp m, unfolded outs_Nil semiring_1_class.of_nat_0] by (elim exE conjE) (rule that)
  have "outs Y v es' m = outs Y v [0..<unat M * unat O'] m" for v
    by (rule outs_set [OF assms(3)]) (simp_all only: es'(2) set_upt lessThan_atLeast0 order_refl)
  then show ?thesis unfolding es'(1) by (simp only: option.inject)
qed

text \<open>The reference, which both kernels hand some shapes to, without C and under contraction.\<close>

lemma no_bias_ssr:
  assumes "f_contract fp" and "ssrs_ready S" and "gemm_sep A B 0 Y M N O'"
  shows "snd (Gemm_ssr fp (Gemm_generic fp) A B 0 Y M N O' transA transB (S, m)) = Gemm_generic fp A B 0 Y M N O' transA transB m"
proof (cases "M = 0 \<or> N = 0 \<or> O' < UNROLL")
  case True
  then show ?thesis by (auto simp: Gemm_ssr_def)
next
  case False
  then have N: "N \<noteq> 0" by simp
  have "ssr_val fp A B 0 M N O' transA transB m = scalar_val fp A B 0 M N O' transA transB m"
    by (simp add: ssr_val_def block_val_contract [OF assms(1)] fun_eq_iff)
  then show ?thesis
    using False gemm_ssr_outs [OF assms(2,3) N, of fp transA transB m] Gemm_generic_outs [OF assms(3), of fp transA transB m]
    by (simp add: Gemm_ssr_def)
qed

lemma no_bias_rvv:
  assumes "f_contract fp" and "vsetvl_ok vsetvl" and "gemm_sep A B 0 Y M N O'" and "4 * (unat M * unat O') \<le> 4294967296"
  shows "Gemm_rvv fp vsetvl (Gemm_generic fp) A B 0 Y M N O' transA transB m = Some (Gemm_generic fp A B 0 Y M N O' transA transB m)"
proof (cases "M = 0 \<or> N = 0 \<or> O' = 0 \<or> transA \<noteq> 0 \<or> transB \<noteq> 0")
  case True
  then show ?thesis by (auto simp: Gemm_rvv_def)
next
  case False
  then have o: "O' \<noteq> 0" and t: "transA = 0" "transB = 0" by simp_all
  have "block_val fp A B 0 M N O' 0 0 m = scalar_val fp A B 0 M N O' 0 0 m"
    by (simp add: block_val_contract [OF assms(1)] fun_eq_iff)
  then show ?thesis
    using False gemm_rvv_result [OF assms(2-4) o, of fp m] Gemm_generic_outs [OF assms(3), of fp 0 0 m]
    unfolding t by (simp add: Gemm_rvv_def)
qed


text \<open>A unit with registers of four elements: a row of eleven columns takes three passes.\<close>

definition vsetvl4 :: "u32 \<Rightarrow> u32" where
  "vsetvl4 n = (if n < 4 then n else 4)"


end
