(* ===== verification/Apps.thy ===== *)
theory Apps
  imports HostDriver Mfcc
begin

text \<open>
  Keyword spotting, \<open>runtime/mesh/kws_main.c\<close>, with what the host programs share. The generated
  network, the clips and the tables of \<open>kws_data.h\<close> are parameters, and so is what each read of a
  counter, of a mailbox and of a buffer a cluster is still writing finds.
\<close>

section \<open>What the programs share\<close>

text \<open>Comparison and conversion of floats, beyond the kernels' arithmetic.\<close>

record hfpu = mfpu +
  f_le :: "u32 \<Rightarrow> u32 \<Rightarrow> bool"
  f_to_u64 :: "u32 \<Rightarrow> u64"

text \<open>\<open>fabsf\<close> clears the sign.\<close>

definition fabsf :: "u32 \<Rightarrow> u32" where
  "fabsf x = x AND 0x7FFFFFFF"

text \<open>A sequence of statements.\<close>

definition does :: "('s \<Rightarrow> 's) list \<Rightarrow> 's \<Rightarrow> 's" where
  "does fs s = fold (\<lambda>f. f) fs s"

text \<open>\<open>memcpy\<close> between arrays of words.\<close>

definition copy_words :: "nat \<Rightarrow> u32 list \<Rightarrow> u32 list \<Rightarrow> u32 list" where
  "copy_words k src dst = take k src @ drop k dst"

definition argmax :: "'a mfpu_scheme \<Rightarrow> u32 list \<Rightarrow> u32 \<Rightarrow> u32" where
  "argmax fp p n = for_u32 1 n (\<lambda>i best. if f_gt fp (p ! unat i) (p ! unat best) then i else best) 0"

text \<open>One more read of each mailbox tells who never signed in.\<close>

definition report_absent :: "(u32 \<Rightarrow> mailbox) \<Rightarrow> host \<Rightarrow> host" where
  "report_absent seen = for_u32 HES_ENGINE_SNITCH HES_NB_ENGINES (\<lambda>e h.
     if hes_engine_ready e (seen e) then h
     else does [say ''[HES-ERR] cluster '', say (hes_engine_name e), say '' never signed in\<newline>''] h)"

section \<open>Keyword spotting\<close>

definition KWS_NUM_CLIPS :: u32 where "KWS_NUM_CLIPS = 16"
definition KWS_NUM_CLASSES :: u32 where "KWS_NUM_CLASSES = 10"
definition KWS_NB_SAMPLES :: u32 where "KWS_NB_SAMPLES = 4224"
definition KWS_FRAME_LEN :: u32 where "KWS_FRAME_LEN = 256"
definition KWS_FFT_LEN :: u32 where "KWS_FFT_LEN = 256"
definition KWS_HOP :: u32 where "KWS_HOP = 128"
definition KWS_NB_FRAMES :: u32 where "KWS_NB_FRAMES = 32"
definition KWS_NB_BINS :: u32 where "KWS_NB_BINS = 129"
definition KWS_NB_MEL :: u32 where "KWS_NB_MEL = 40"
definition KWS_NB_CEP :: u32 where "KWS_NB_CEP = 13"
definition KWS_FEAT_ELEMS :: u32 where "KWS_FEAT_ELEMS = 416"
definition KWS_MEL_COEFFS :: u32 where "KWS_MEL_COEFFS = 246"

definition kws_mel_start :: "u16 list" where
  "kws_mel_start = [1, 2, 2, 3, 4, 5, 6, 7, 8, 9, 10, 12, 13, 15, 16, 18, 20, 22, 24, 26, 28, 31, 33, 36, 39, 42,
     45, 49, 52, 56, 61, 65, 70, 75, 80, 86, 92, 98, 105, 113]"

definition kws_mel_len :: "u16 list" where
  "kws_mel_len = [1, 1, 2, 2, 2, 2, 2, 2, 2, 3, 3, 3, 3, 3, 4, 4, 4, 4, 4, 5, 5, 5, 6, 6, 6, 7, 7, 7, 9, 9, 9, 10,
     10, 11, 12, 12, 13, 15, 15, 16]"

text \<open>
  The shapes fit together: the last frame ends with the clip, the features are frames times cepstra,
  the filters take all the coefficients, and each stays within the bins of the spectrum.
\<close>

lemma kws_shapes:
  "(KWS_NB_FRAMES - 1) * KWS_HOP + KWS_FRAME_LEN = KWS_NB_SAMPLES" "KWS_NB_FRAMES * KWS_NB_CEP = KWS_FEAT_ELEMS"
  "KWS_FFT_LEN div 2 + 1 = KWS_NB_BINS" "length kws_mel_start = unat KWS_NB_MEL" "length kws_mel_len = unat KWS_NB_MEL"
  "sum_list (map unat kws_mel_len) = unat KWS_MEL_COEFFS"
  "\<forall>(s, l) \<in> set (zip kws_mel_start kws_mel_len). unat s + unat l \<le> unat KWS_NB_BINS"
  by code_simp+

text \<open>The build's choices.\<close>

record kws_cfg =
  HES_SAMPLES :: u32
  KWS_FRONTEND_ENGINE :: u32
  KWS_PIPELINED :: bool

definition RUN_CLIPS :: "kws_cfg \<Rightarrow> u32" where
  "RUN_CLIPS c = (if HES_SAMPLES c < KWS_NUM_CLIPS then HES_SAMPLES c else KWS_NUM_CLIPS)"

text \<open>
  The addresses of the tables and of the clips and feature buffers; the reference features, labels
  and predictions; the network as a function of its input, and what running it does to the host's
  state; what an MFCC job computes from its descriptor; and what the reads find: \<open>e_seen n i\<close> is the
  output of a job still in flight as it is found at the \<open>i\<close>-th look during clip \<open>n\<close>.
\<close>

record kws_env =
  e_tables :: hes_mfcc_job
  e_audio :: u32
  e_features :: u32
  e_mfcc_ref :: "u32 \<Rightarrow> u32 list"
  e_labels :: "u32 \<Rightarrow> u32"
  e_reference :: "u32 \<Rightarrow> u32"
  e_in_words :: nat
  e_net :: "u32 list \<Rightarrow> u32 list"
  e_run :: "u32 \<Rightarrow> host \<Rightarrow> host"
  e_mfcc :: "hes_mfcc_job \<Rightarrow> u32 list"
  e_init :: "u32 \<Rightarrow> nat \<Rightarrow> mailbox"
  e_ready :: "u32 \<Rightarrow> mailbox"
  e_wait :: "u32 \<Rightarrow> nat \<Rightarrow> mailbox"
  e_mcycle :: "nat \<Rightarrow> u64"
  e_seen :: "u32 \<Rightarrow> nat \<Rightarrow> u32 list"

text \<open>\<open>k_pending\<close> is the front-end job a cluster may still be writing the output of.\<close>

record kws =
  k_host :: host
  k_features :: "u32 \<Rightarrow> u32 list"
  k_pending :: "hes_mfcc_job option"
  k_job :: hes_mfcc_job
  k_in :: "u32 list"
  k_out :: "u32 list"
  k_correct :: u32
  k_agree :: u32
  k_maxdiff :: u32
  k_wait :: u64
  k_reads :: nat

definition on_host :: "(host \<Rightarrow> host) \<Rightarrow> kws \<Rightarrow> kws" where
  "on_host f s = s\<lparr>k_host := f (k_host s)\<rparr>"

definition make_job :: "kws_env \<Rightarrow> hes_mfcc_job" where
  "make_job E = \<lparr>j_audio = 0, j_out = 0, j_nb_frames = KWS_NB_FRAMES, j_frame_len = KWS_FRAME_LEN, j_hop = KWS_HOP,
     j_fft_len = KWS_FFT_LEN, j_window = j_window (e_tables E), j_twiddles = j_twiddles (e_tables E),
     j_mel_coeff = j_mel_coeff (e_tables E), j_mel_start = j_mel_start (e_tables E), j_mel_len = j_mel_len (e_tables E),
     j_nb_mel = KWS_NB_MEL, j_dct = j_dct (e_tables E), j_nb_cep = KWS_NB_CEP, j_mel_coeffs = KWS_MEL_COEFFS\<rparr>"

text \<open>\<open>features[b]\<close> and \<open>kws_audio[n]\<close>.\<close>

definition features_at :: "kws_env \<Rightarrow> u32 \<Rightarrow> u32" where
  "features_at E b = elem (e_features E) (b * KWS_FEAT_ELEMS)"

definition audio_at :: "kws_env \<Rightarrow> u32 \<Rightarrow> u32" where
  "audio_at E n = elem (e_audio E) (n * KWS_NB_SAMPLES)"

definition set_clip :: "kws_env \<Rightarrow> u32 \<Rightarrow> kws \<Rightarrow> kws" where
  "set_clip E n s = s\<lparr>k_job := (k_job s)\<lparr>j_audio := audio_at E n, j_out := features_at E (n AND 1)\<rparr>\<rparr>"

text \<open>What the cluster does to the output buffer: anything while the job runs, the features once it is answered.\<close>

definition meanwhile :: "kws_env \<Rightarrow> u32 \<Rightarrow> nat \<Rightarrow> kws \<Rightarrow> kws" where
  "meanwhile E n i s =
     (case k_pending s of None \<Rightarrow> s | Some j \<Rightarrow> s\<lparr>k_features := (k_features s)(j_out j := e_seen E n i)\<rparr>)"

definition answered_job :: "kws_env \<Rightarrow> u32 \<Rightarrow> kws \<Rightarrow> kws" where
  "answered_job E rc s =
     (case k_pending s of
        Some j \<Rightarrow> if rc = 0 then s\<lparr>k_features := (k_features s)(j_out j := e_mfcc E j), k_pending := None\<rparr> else s
      | None \<Rightarrow> s)"

definition fe_post :: "kws_cfg \<Rightarrow> kws \<Rightarrow> kws" where
  "fe_post c s =
     (case hes_post_mfcc (KWS_FRONTEND_ENGINE c) (k_job s) (k_host s) of
        (r, h) \<Rightarrow> s\<lparr>k_host := h, k_pending := (if r = 0 then Some (k_job s) else k_pending s)\<rparr>)"

definition fe_collect :: "kws_env \<Rightarrow> kws_cfg \<Rightarrow> u32 \<Rightarrow> kws \<Rightarrow> kws" where
  "fe_collect E c n s =
     (case hes_wait (e_wait E n) (KWS_FRONTEND_ENGINE c) (k_host s) of
        (r, h) \<Rightarrow> case hes_check (KWS_FRONTEND_ENGINE c) ''Mfcc'' r h of
          (rc, h) \<Rightarrow> answered_job E rc (s\<lparr>k_host := h\<rparr>))"

definition fe_offload :: "kws_env \<Rightarrow> kws_cfg \<Rightarrow> u32 \<Rightarrow> kws \<Rightarrow> kws" where
  "fe_offload E c n s =
     (case hes_offload_mfcc (e_wait E n) (KWS_FRONTEND_ENGINE c) (k_job s) (k_host s) of
        (rc, h) \<Rightarrow> answered_job E rc (s\<lparr>k_host := h,
          k_pending := (if fst (hes_post_mfcc (KWS_FRONTEND_ENGINE c) (k_job s) (k_host s)) = 0
                        then Some (k_job s) else k_pending s)\<rparr>))"

text \<open>\<open>w0 = read_mcycle(); ...; fe_wait += read_mcycle() - w0;\<close>\<close>

definition timed :: "kws_env \<Rightarrow> (kws \<Rightarrow> kws) \<Rightarrow> kws \<Rightarrow> kws" where
  "timed E f s =
     (let w0 = e_mcycle E (k_reads s); s = f (s\<lparr>k_reads := k_reads s + 1\<rparr>)
      in s\<lparr>k_wait := k_wait s + (e_mcycle E (k_reads s) - w0), k_reads := k_reads s + 1\<rparr>)"

definition kws_classify :: "kws_env \<Rightarrow> u32 \<Rightarrow> kws \<Rightarrow> kws" where
  "kws_classify E n s =
     (let s = meanwhile E n 0 s;
          s = s\<lparr>k_in := copy_words (e_in_words E) (k_features s (features_at E (n AND 1))) (k_in s)\<rparr>
      in s\<lparr>k_host := e_run E n (k_host s), k_out := e_net E (k_in s)\<rparr>)"

definition kws_compare :: "'a hfpu_scheme \<Rightarrow> kws_env \<Rightarrow> u32 \<Rightarrow> kws \<Rightarrow> kws" where
  "kws_compare fp E n = for_u32 0 KWS_FEAT_ELEMS (\<lambda>i s.
     let s = meanwhile E n (unat i + 1) s;
         d = fabsf (f_sub fp (k_features s (features_at E (n AND 1)) ! unat i) (e_mfcc_ref E n ! unat i))
     in if f_gt fp d (k_maxdiff s) then s\<lparr>k_maxdiff := d\<rparr> else s)"

definition kws_score :: "'a hfpu_scheme \<Rightarrow> kws_env \<Rightarrow> u32 \<Rightarrow> kws \<Rightarrow> kws" where
  "kws_score fp E n s =
     (let got = argmax fp (k_out s) KWS_NUM_CLASSES;
          s = (if got = e_labels E n then s\<lparr>k_correct := k_correct s + 1\<rparr> else s)
      in if got = e_reference E n then s\<lparr>k_agree := k_agree s + 1\<rparr>
         else on_host (does [say ''[HES-ERR] clip '', say_u32 n, say '': chip says '', say_u32 got,
                             say '', onnxruntime says '', say_u32 (e_reference E n), say ''\<newline>'']) s)"

definition kws_clip :: "'a hfpu_scheme \<Rightarrow> kws_env \<Rightarrow> kws_cfg \<Rightarrow> u32 \<Rightarrow> kws \<Rightarrow> kws" where
  "kws_clip fp E c n s =
     (let s = on_host (hes_set_sample (n + 1) (RUN_CLIPS c)) s;
          s = (if KWS_PIPELINED c \<and> n + 1 < RUN_CLIPS c then fe_post c (set_clip E (n + 1) s) else s);
          s = kws_classify E n s;
          s = kws_compare fp E n s;
          s = kws_score fp E n s
      in if n + 1 < RUN_CLIPS c
         then timed E (if KWS_PIPELINED c then fe_collect E c (n + 1) else (\<lambda>s. fe_offload E c (n + 1) (set_clip E (n + 1) s))) s
         else s)"

definition kws_report :: "'a hfpu_scheme \<Rightarrow> kws_cfg \<Rightarrow> u64 \<Rightarrow> kws \<Rightarrow> host \<Rightarrow> host" where
  "kws_report fp c tot s h =
     (let fe = KWS_FRONTEND_ENGINE c; run = RUN_CLIPS c;
          snitch_busy = hes_engine_busy HES_ENGINE_SNITCH h; spatz_busy = hes_engine_busy HES_ENGINE_SPATZ h;
          fe_busy = ucast (hes_engine_busy fe h) :: u64;
          hidden = (if k_wait s < fe_busy then fe_busy - k_wait s else 0)
      in does [say ''[HES-KWS] clips='', say_u32 run, say '' correct='', say_u32 (k_correct s),
            say '' agree_with_onnx='', say_u32 (k_agree s), say '' mfcc_maxdiff_e6='',
            say_u64 (f_to_u64 fp (f_mul fp (k_maxdiff s) 0x49742400)), say '' cycles_total='', say_u64 tot,
            say '' cycles_per_clip='', say_u64 (tot div ucast (if run \<noteq> 0 then run else 1)),
            say '' frontend_engine='', say_u32 fe, say '' frontend_busy='', say_u64 fe_busy,
            say '' frontend_wait='', say_u64 (k_wait s), say '' hidden='', say_u64 hidden,
            say '' snitch_busy='', say_u32 snitch_busy, say '' spatz_busy='', say_u32 spatz_busy,
            say '' pipelined='', say_u32 (if KWS_PIPELINED c then 1 else 0),
            say '' offload_failures='', say_u32 (hes_failures h), say ''\<newline>''] h)"

text \<open>The exit code, and the state the program ends in. \<open>1e-3f\<close> is \<open>0x3A83126F\<close>.\<close>

definition kws_main :: "'a hfpu_scheme \<Rightarrow> kws_env \<Rightarrow> kws_cfg \<Rightarrow> kws \<Rightarrow> u32 \<times> kws" where
  "kws_main fp E c s =
     (let s = on_host (hes_engine_init (e_init E)) s;
          s = on_host (report_absent (e_ready E)) s;
          s = s\<lparr>k_job := make_job E, k_correct := 0, k_agree := 0, k_maxdiff := 0, k_wait := 0, k_reads := 0\<rparr>;
          c0 = e_mcycle E (k_reads s);
          s = timed E (\<lambda>s. fe_offload E c 0 (set_clip E 0 s)) (s\<lparr>k_reads := k_reads s + 1\<rparr>);
          s = for_u32 0 (RUN_CLIPS c) (kws_clip fp E c) s;
          tot = e_mcycle E (k_reads s) - c0;
          s = on_host (kws_report fp c tot s) (s\<lparr>k_reads := k_reads s + 1\<rparr>)
      in (if k_agree s = RUN_CLIPS c \<and> hes_failures (k_host s) = 0 \<and> f_le fp (k_maxdiff s) 0x3A83126F then 0 else 1, s))"

section \<open>What each step of a clip does\<close>

lemma does_simps [simp]: "does [] s = s" "does (f # fs) s = does fs (f s)"
  by (simp_all add: does_def)

text \<open>Printing changes only the console.\<close>

lemma report_absent_quiet: "quiet (report_absent seen h) = quiet h"
proof -
  have "quiet (fold (\<lambda>i h. if hes_engine_ready (of_nat i) (seen (of_nat i)) then h
      else does [say ''[HES-ERR] cluster '', say (hes_engine_name (of_nat i)), say '' never signed in\<newline>''] h) is h) = quiet h" for "is"
    by (induction "is" arbitrary: h) simp_all
  then show ?thesis by (simp add: report_absent_def for_u32_def)
qed

text \<open>The job of clip \<open>n\<close>, and its features.\<close>

definition clip_job :: "kws_env \<Rightarrow> u32 \<Rightarrow> hes_mfcc_job" where
  "clip_job E n = (make_job E)\<lparr>j_audio := audio_at E n, j_out := features_at E (n AND 1)\<rparr>"

definition clip_features :: "kws_env \<Rightarrow> u32 \<Rightarrow> u32 list" where
  "clip_features E n = e_mfcc E (clip_job E n)"

lemma and_1_cases: "(n :: u32) AND 1 = 0 \<or> n AND 1 = 1"
  by (simp add: and_one_eq mod2_eq_if)

lemma next_buffer: "(n + 1) AND 1 \<noteq> (n :: u32) AND 1"
  by (simp add: and_one_eq mod2_eq_if)

lemma features_at_neq: "features_at E ((n + 1) AND 1) \<noteq> features_at E (n AND 1)"
  using next_buffer [of n] and_1_cases [of n] and_1_cases [of "n + 1"]
  by (auto simp: features_at_def elem_def KWS_FEAT_ELEMS_def)

definition elsewhere :: "kws_env \<Rightarrow> u32 \<Rightarrow> kws \<Rightarrow> bool" where
  "elsewhere E n s \<longleftrightarrow> (\<forall>j. k_pending s = Some j \<longrightarrow> j_out j \<noteq> features_at E (n AND 1))"

lemma meanwhile_eq:
  "\<exists>F. meanwhile E n i s = s\<lparr>k_features := F\<rparr>
     \<and> (elsewhere E n s \<longrightarrow> F (features_at E (n AND 1)) = k_features s (features_at E (n AND 1)))"
  by (cases "k_pending s") (auto simp: meanwhile_def elsewhere_def intro: exI [of _ "k_features s"])

definition diff_with :: "'a hfpu_scheme \<Rightarrow> u32 list \<Rightarrow> u32 list \<Rightarrow> u32 \<Rightarrow> u32" where
  "diff_with fp xs ref d0 = fold (\<lambda>i m. let d = fabsf (f_sub fp (xs ! i) (ref ! i)) in if f_gt fp d m then d else m) [0..<416] d0"

text \<open>
  A difference that compares greater than nothing, as one with a NaN does, leaves the largest
  difference alone: features that are not numbers pass the check.
\<close>

lemma incomparable_differences_pass:
  assumes "\<And>i m. i < 416 \<Longrightarrow> \<not> f_gt fp (fabsf (f_sub fp (xs ! i) (ref ! i))) m"
  shows "diff_with fp xs ref d0 = d0"
proof -
  have "fold (\<lambda>i m. let d = fabsf (f_sub fp (xs ! i) (ref ! i)) in if f_gt fp d m then d else m) [0..<k] d0 = d0"
    if "k \<le> 416" for k
    using that assms by (induction k) (simp_all add: Let_def)
  then show ?thesis by (simp add: diff_with_def)
qed

lemma kws_compare_eq:
  "\<exists>F d. kws_compare fp E n s = s\<lparr>k_features := F, k_maxdiff := d\<rparr>
     \<and> (elsewhere E n s \<longrightarrow> F (features_at E (n AND 1)) = k_features s (features_at E (n AND 1))
          \<and> d = diff_with fp (k_features s (features_at E (n AND 1))) (e_mfcc_ref E n) (k_maxdiff s))"
proof -
  let ?a = "features_at E (n AND 1)"
  define f where "f = (\<lambda>i s. let s = meanwhile E n (i + 1) s; d = fabsf (f_sub fp (k_features s ?a ! i) (e_mfcc_ref E n ! i))
      in if f_gt fp d (k_maxdiff s) then s\<lparr>k_maxdiff := d\<rparr> else s)"
  define g where "g = (\<lambda>i m. let d = fabsf (f_sub fp (k_features s ?a ! i) (e_mfcc_ref E n ! i)) in if f_gt fp d m then d else m)"
  have u: "unat (of_nat i :: u32) = i" if "i \<in> set [0..<416]" for i
    using that by (intro unat_of_nat_small) simp
  have c: "kws_compare fp E n s = fold f [0..<416] s"
    unfolding kws_compare_def for_u32_zero f_def by (rule fold_cong) (use u in \<open>simp_all add: KWS_FEAT_ELEMS_def\<close>)
  have "\<exists>F d. fold f [0..<k] s = s\<lparr>k_features := F, k_maxdiff := d\<rparr>
     \<and> (elsewhere E n s \<longrightarrow> F ?a = k_features s ?a \<and> d = fold g [0..<k] (k_maxdiff s))" for k
  proof (induction k)
    case 0
    show ?case by (intro exI [of _ "k_features s"] exI [of _ "k_maxdiff s"]) simp
  next
    case (Suc k)
    then obtain F d where FD: "fold f [0..<k] s = s\<lparr>k_features := F, k_maxdiff := d\<rparr>"
      and v: "elsewhere E n s \<longrightarrow> F ?a = k_features s ?a \<and> d = fold g [0..<k] (k_maxdiff s)" by blast
    let ?t = "s\<lparr>k_features := F, k_maxdiff := d\<rparr>"
    have el: "elsewhere E n ?t = elsewhere E n s" by (simp add: elsewhere_def)
    obtain G where G: "meanwhile E n (k + 1) ?t = ?t\<lparr>k_features := G\<rparr>" "elsewhere E n s \<longrightarrow> G ?a = F ?a"
      using meanwhile_eq [of E n "k + 1" ?t] unfolding el by auto
    let ?d = "fabsf (f_sub fp (G ?a ! k) (e_mfcc_ref E n ! k))"
    have "f k ?t = s\<lparr>k_features := G, k_maxdiff := (if f_gt fp ?d d then ?d else d)\<rparr>"
      unfolding f_def G(1) by (simp add: Let_def)
    then have "fold f [0..<Suc k] s = s\<lparr>k_features := G, k_maxdiff := (if f_gt fp ?d d then ?d else d)\<rparr>"
      by (simp add: FD)
    moreover have "elsewhere E n s \<Longrightarrow> (if f_gt fp ?d d then ?d else d) = fold g [0..<Suc k] (k_maxdiff s)"
      using G(2) v by (simp add: g_def Let_def)
    ultimately show ?case using G(2) v by (intro exI conjI) auto
  qed
  from this [of 416] show ?thesis unfolding c diff_with_def g_def .
qed

lemma host_wf_quiet: "quiet h = quiet h' \<Longrightarrow> host_wf h = host_wf h'"
  unfolding host_wf_def using quiet_sel [of h h'] by simp

lemma mfcc_args_length: "length (mfcc_args job (replicate HES_MFCC_NARGS 0)) = HES_MFCC_NARGS"
  by (simp add: mfcc_args_def)

lemma mfcc_nargs: "unat (min (of_nat HES_MFCC_NARGS) HES_MAILBOX_MAX_ARGS) \<le> HES_MFCC_NARGS"
  by (simp add: HES_MFCC_NARGS_def HES_MAILBOX_MAX_ARGS_def min_def)

lemma post_mfcc:
  assumes "host_wf h" and "is_cluster e" and "in_flight h ! unat e = 0"
  shows "\<exists>h'. hes_post_mfcc e job h = (0, h') \<and> host_wf h' \<and> in_flight h' ! unat e \<noteq> 0 \<and> failure_count h' = failure_count h
    \<and> next_seq h' ! unat e = next_seq h ! unat e + 1"
proof -
  have u: "unat e < 3" using assms(2) by (auto simp: is_cluster_cases)
  have m: "mbox_wf (mboxes h (mbox_addr e))" using assms(1) by (simp add: host_wf_def)
  have n: "unat (min (of_nat HES_MFCC_NARGS) HES_MAILBOX_MAX_ARGS) \<le> length (mfcc_args job (replicate HES_MFCC_NARGS 0))"
    using mfcc_nargs by (simp add: mfcc_args_length)
  have "mbox_wf (posted_mbox e k (mfcc_args job (replicate HES_MFCC_NARGS 0)) (of_nat HES_MFCC_NARGS) fl q (mboxes h (mbox_addr e)))" for k fl q
    using m n by (auto simp: mbox_wf_def posted_mbox_def Let_def min_def word_le_nat_alt)
  then show ?thesis unfolding hes_post_mfcc_def hes_post_posts [OF assms(2,3) n m]
    using assms(1) u by (auto simp: host_wf_def)
qed

lemma collect_mfcc:
  assumes "host_wf h" and "is_cluster e" and "hes_wait view e h = (r, h1)" and "hes_check e what r h1 = (rc, h2)"
  shows "host_wf h2 \<and> in_flight h2 ! unat e = 0 \<and> failure_count h2 = failure_count h + (if rc = 0 then 0 else 1)"
proof -
  have u: "unat e < 3" using assms(2) by (auto simp: is_cluster_cases)
  have q1: "\<exists>b. length b = length (busy_cycles h) \<and> quiet h1 = quiet (h\<lparr>in_flight := (in_flight h)[unat e := 0], busy_cycles := b\<rparr>)"
    using hes_wait_cases [of e h view]
  proof (elim disjE conjE exE)
    fix j h' assume a: "hes_wait view e h = (collect view (j + 2), h')" "quiet h' = quiet (h\<lparr>in_flight := (in_flight h)[unat e := 0],
         busy_cycles := (busy_cycles h)[unat e := busy_cycles h ! unat e + r_cycles (collect view (j + 2))]\<rparr>)"
    show ?thesis by (rule exI conjI length_list_update)+ (use a assms(3) in simp)
  next
    fix h' assume a: "hes_wait view e h = (no_result, h')" "quiet h' = quiet (h\<lparr>in_flight := (in_flight h)[unat e := 0]\<rparr>)"
    show ?thesis by (rule exI [of _ "busy_cycles h"]) (use a assms(3) in simp)
  next
    assume "\<not> is_cluster e"
    then show ?thesis using assms(2) by simp
  next
    assume a: "in_flight h ! unat e = 0" "hes_wait view e h = (no_result, h)"
    then have "(in_flight h)[unat e := 0] = in_flight h" by (metis list_update_id)
    then show ?thesis by (intro exI [of _ "busy_cycles h"]) (use a assms(3) in simp)
  qed
  then obtain b where b: "length b = length (busy_cycles h)"
    "quiet h1 = quiet (h\<lparr>in_flight := (in_flight h)[unat e := 0], busy_cycles := b\<rparr>)" by blast
  have 1: "host_wf h1" "in_flight h1 ! unat e = 0" "failure_count h1 = failure_count h"
    using host_wf_quiet [OF b(2)] quiet_sel [OF b(2)] assms(1) b(1) u by (simp_all add: host_wf_def)
  have "quiet h2 = quiet (h1\<lparr>failure_count := failure_count h1 + (if rc = 0 then 0 else 1)\<rparr>)"
    using assms(4) by (auto simp: hes_check_def Let_def split: if_splits)
  from host_wf_quiet [OF this] quiet_sel [OF this] 1 show ?thesis by (simp add: host_wf_def)
qed

lemma fe_post_eq:
  assumes "host_wf (k_host s)" and "is_cluster (KWS_FRONTEND_ENGINE c)" and "in_flight (k_host s) ! unat (KWS_FRONTEND_ENGINE c) = 0"
  shows "\<exists>h'. fe_post c s = s\<lparr>k_host := h', k_pending := Some (k_job s)\<rparr> \<and> host_wf h'
    \<and> in_flight h' ! unat (KWS_FRONTEND_ENGINE c) \<noteq> 0 \<and> failure_count h' = failure_count (k_host s)
    \<and> next_seq h' ! unat (KWS_FRONTEND_ENGINE c) = next_seq (k_host s) ! unat (KWS_FRONTEND_ENGINE c) + 1"
  using post_mfcc [OF assms, of "k_job s"] by (auto simp: fe_post_def)

lemma fe_collect_eq:
  assumes "host_wf (k_host s)" and "is_cluster (KWS_FRONTEND_ENGINE c)"
  shows "\<exists>rc h'. fe_collect E c n s = answered_job E rc (s\<lparr>k_host := h'\<rparr>) \<and> host_wf h'
    \<and> in_flight h' ! unat (KWS_FRONTEND_ENGINE c) = 0
    \<and> failure_count h' = failure_count (k_host s) + (if rc = 0 then 0 else 1)"
proof -
  obtain r h1 where w: "hes_wait (e_wait E n) (KWS_FRONTEND_ENGINE c) (k_host s) = (r, h1)" by fastforce
  obtain rc h2 where k: "hes_check (KWS_FRONTEND_ENGINE c) ''Mfcc'' r h1 = (rc, h2)" by fastforce
  show ?thesis using collect_mfcc [OF assms w k] by (intro exI [of _ rc] exI [of _ h2]) (simp add: fe_collect_def w k)
qed

lemma fe_offload_eq:
  assumes "host_wf (k_host s)" and "is_cluster (KWS_FRONTEND_ENGINE c)" and "in_flight (k_host s) ! unat (KWS_FRONTEND_ENGINE c) = 0"
  shows "\<exists>rc h'. fe_offload E c n s = answered_job E rc (s\<lparr>k_host := h', k_pending := Some (k_job s)\<rparr>) \<and> host_wf h'
    \<and> in_flight h' ! unat (KWS_FRONTEND_ENGINE c) = 0
    \<and> failure_count h' = failure_count (k_host s) + (if rc = 0 then 0 else 1)"
proof -
  obtain h0 where p: "hes_post_mfcc (KWS_FRONTEND_ENGINE c) (k_job s) (k_host s) = (0, h0)" and h0: "host_wf h0"
    "failure_count h0 = failure_count (k_host s)"
    using post_mfcc [OF assms, of "k_job s"] by auto
  obtain r h1 where w: "hes_wait (e_wait E n) (KWS_FRONTEND_ENGINE c) h0 = (r, h1)" by fastforce
  obtain rc h2 where k: "hes_check (KWS_FRONTEND_ENGINE c) ''Mfcc'' r h1 = (rc, h2)" by fastforce
  have o: "hes_offload_mfcc (e_wait E n) (KWS_FRONTEND_ENGINE c) (k_job s) (k_host s) = (rc, h2)"
    using p by (simp add: hes_offload_mfcc_def check_offload_def hes_offload_def hes_post_mfcc_def w k)
  show ?thesis using collect_mfcc [OF h0(1) assms(2) w k] h0(2) p by (intro exI [of _ rc] exI [of _ h2]) (simp add: fe_offload_def o)
qed

section \<open>A whole run\<close>

text \<open>
  What the model needs of the generated network: running it leaves the front-end's engine free or
  busy as it was, and counts the failures of its nodes, of which there are fewer than 65536.
\<close>

definition net_keeps :: "kws_env \<Rightarrow> u32 \<Rightarrow> bool" where
  "net_keeps E fe \<longleftrightarrow> (\<forall>n h. host_wf h \<longrightarrow> host_wf (e_run E n h) \<and> in_flight (e_run E n h) ! unat fe = in_flight h ! unat fe
     \<and> (\<exists>k<65536. failure_count (e_run E n h) = failure_count h + of_nat k))"

text \<open>What the network says of clip \<open>n\<close>, and the scores after \<open>k\<close> clips.\<close>

definition prediction :: "'a hfpu_scheme \<Rightarrow> kws_env \<Rightarrow> nat \<Rightarrow> u32" where
  "prediction fp E n = argmax fp (e_net E (clip_features E (of_nat n))) KWS_NUM_CLASSES"

definition hits :: "'a hfpu_scheme \<Rightarrow> kws_env \<Rightarrow> (u32 \<Rightarrow> u32) \<Rightarrow> nat \<Rightarrow> nat" where
  "hits fp E t k = length (filter (\<lambda>n. prediction fp E n = t (of_nat n)) [0..<k])"

text \<open>The loop's running value after \<open>k\<close> clips; what it is the largest of is shown below.\<close>

definition running_drift :: "'a hfpu_scheme \<Rightarrow> kws_env \<Rightarrow> nat \<Rightarrow> u32" where
  "running_drift fp E k = fold (\<lambda>n. diff_with fp (clip_features E (of_nat n)) (e_mfcc_ref E (of_nat n))) [0..<k] 0"

text \<open>The state between two clips: good as long as no failure has been counted.\<close>

definition between :: "'a hfpu_scheme \<Rightarrow> kws_env \<Rightarrow> kws_cfg \<Rightarrow> nat \<Rightarrow> kws \<Rightarrow> bool" where
  "between fp E c n s \<longleftrightarrow> host_wf (k_host s) \<and> in_flight (k_host s) ! unat (KWS_FRONTEND_ENGINE c) = 0
     \<and> unat (failure_count (k_host s)) \<le> 65537 * n + 1
     \<and> (\<exists>a d. k_job s = (make_job E)\<lparr>j_audio := a, j_out := d\<rparr>)
     \<and> (failure_count (k_host s) = 0 \<longrightarrow> k_pending s = None \<and> length (k_in s) \<le> e_in_words E
          \<and> (n < unat (RUN_CLIPS c) \<longrightarrow> k_features s (features_at E (of_nat n AND 1)) = clip_features E (of_nat n))
          \<and> k_correct s = of_nat (hits fp E (e_labels E) n) \<and> k_agree s = of_nat (hits fp E (e_reference E) n)
          \<and> k_maxdiff s = running_drift fp E n)"

text \<open>The middle of a clip, between the post and the collection: the classifier and the score.\<close>

lemma kws_score_eq:
  "\<exists>h'. kws_score fp E n s = s\<lparr>k_host := h',
       k_correct := k_correct s + of_bool (argmax fp (k_out s) KWS_NUM_CLASSES = e_labels E n),
       k_agree := k_agree s + of_bool (argmax fp (k_out s) KWS_NUM_CLASSES = e_reference E n)\<rparr> \<and> quiet h' = quiet (k_host s)"
  by (rule exI [of _ "if argmax fp (k_out s) KWS_NUM_CLASSES = e_reference E n then k_host s
      else does [say ''[HES-ERR] clip '', say_u32 n, say '': chip says '', say_u32 (argmax fp (k_out s) KWS_NUM_CLASSES),
                 say '', onnxruntime says '', say_u32 (e_reference E n), say ''\<newline>''] (k_host s)"])
    (cases s, simp add: kws_score_def Let_def on_host_def)

lemma kws_middle:
  assumes "net_keeps E fe" and "host_wf (k_host s)" and "e_in_words E = 416" and "\<forall>j. length (e_mfcc E j) = 416"
    and s': "s' = kws_score fp E n (kws_compare fp E n (kws_classify E n s))"
  shows "host_wf (k_host s')" "in_flight (k_host s') ! unat fe = in_flight (k_host s) ! unat fe"
    "\<exists>k<65536. failure_count (k_host s') = failure_count (k_host s) + of_nat k"
    "k_pending s' = k_pending s" "k_job s' = k_job s" "quiet (k_host s') = quiet (e_run E n (k_host s))"
    "elsewhere E n s \<Longrightarrow> k_features s (features_at E (n AND 1)) = clip_features E n \<Longrightarrow> length (k_in s) \<le> 416 \<Longrightarrow>
       k_in s' = clip_features E n
       \<and> k_correct s' = k_correct s + of_bool (argmax fp (e_net E (clip_features E n)) KWS_NUM_CLASSES = e_labels E n)
       \<and> k_agree s' = k_agree s + of_bool (argmax fp (e_net E (clip_features E n)) KWS_NUM_CLASSES = e_reference E n)
       \<and> k_maxdiff s' = diff_with fp (clip_features E n) (e_mfcc_ref E n) (k_maxdiff s)"
proof -
  obtain F where F: "meanwhile E n 0 s = s\<lparr>k_features := F\<rparr>"
    "elsewhere E n s \<longrightarrow> F (features_at E (n AND 1)) = k_features s (features_at E (n AND 1))"
    using meanwhile_eq by blast
  define inp where "inp = copy_words 416 (F (features_at E (n AND 1))) (k_in s)"
  define s1 where "s1 = s\<lparr>k_features := F, k_in := inp, k_host := e_run E n (k_host s), k_out := e_net E inp\<rparr>"
  have c: "kws_classify E n s = s1"
    by (simp add: kws_classify_def Let_def F(1) s1_def inp_def assms(3))
  have el: "elsewhere E n s1 = elsewhere E n s" by (simp add: elsewhere_def s1_def)
  obtain G d where G: "kws_compare fp E n s1 = s1\<lparr>k_features := G, k_maxdiff := d\<rparr>"
    "elsewhere E n s \<longrightarrow> d = diff_with fp (k_features s1 (features_at E (n AND 1))) (e_mfcc_ref E n) (k_maxdiff s1)"
    using kws_compare_eq [of fp E n s1] unfolding el by blast
  obtain h where h: "s' = (kws_compare fp E n s1)\<lparr>k_host := h,
       k_correct := k_correct (kws_compare fp E n s1) + of_bool (argmax fp (k_out (kws_compare fp E n s1)) KWS_NUM_CLASSES = e_labels E n),
       k_agree := k_agree (kws_compare fp E n s1) + of_bool (argmax fp (k_out (kws_compare fp E n s1)) KWS_NUM_CLASSES = e_reference E n)\<rparr>"
    and q: "quiet h = quiet (k_host (kws_compare fp E n s1))"
    using kws_score_eq [of fp E n "kws_compare fp E n s1"] unfolding s' c by blast
  have q': "quiet h = quiet (e_run E n (k_host s))" using q unfolding G(1) by (simp add: s1_def)
  have k: "host_wf (e_run E n (k_host s))" "in_flight (e_run E n (k_host s)) ! unat fe = in_flight (k_host s) ! unat fe"
    "\<exists>k<65536. failure_count (e_run E n (k_host s)) = failure_count (k_host s) + of_nat k"
    using assms(1,2) by (simp_all add: net_keeps_def)
  show "host_wf (k_host s')" "in_flight (k_host s') ! unat fe = in_flight (k_host s) ! unat fe"
    "\<exists>k<65536. failure_count (k_host s') = failure_count (k_host s) + of_nat k"
    using k host_wf_quiet [OF q'] quiet_sel [OF q'] unfolding h by simp_all
  show "quiet (k_host s') = quiet (e_run E n (k_host s))" using q' unfolding h by simp
  show "k_pending s' = k_pending s" "k_job s' = k_job s" unfolding h G(1) by (simp_all add: s1_def)
  assume a: "elsewhere E n s" "k_features s (features_at E (n AND 1)) = clip_features E n" "length (k_in s) \<le> 416"
  have "length (clip_features E n) = 416" using assms(4) by (simp add: clip_features_def)
  then have "inp = clip_features E n" using F(2) a by (simp add: inp_def copy_words_def)
  then show "k_in s' = clip_features E n
       \<and> k_correct s' = k_correct s + of_bool (argmax fp (e_net E (clip_features E n)) KWS_NUM_CLASSES = e_labels E n)
       \<and> k_agree s' = k_agree s + of_bool (argmax fp (e_net E (clip_features E n)) KWS_NUM_CLASSES = e_reference E n)
       \<and> k_maxdiff s' = diff_with fp (clip_features E n) (e_mfcc_ref E n) (k_maxdiff s)"
    using G(2) F(2) a unfolding h G(1) by (simp add: s1_def)
qed

lemma timed_eq: "\<exists>w r. timed E f s = (f (s\<lparr>k_reads := k_reads s + 1\<rparr>))\<lparr>k_wait := w, k_reads := r\<rparr>"
  by (auto simp: timed_def Let_def)

lemma between_timing [simp]:
  "between fp E c n (s\<lparr>k_reads := r\<rparr>) = between fp E c n s" "between fp E c n (s\<lparr>k_wait := w\<rparr>) = between fp E c n s"
  by (simp_all add: between_def)

lemma count_up: "unat (f :: u32) \<le> B \<Longrightarrow> B + k < 4294967296 \<Longrightarrow> unat (f + of_nat k) = unat f + k"
  using unat_plus_small [of f "of_nat k"] by (simp add: unat_of_nat_small)

lemma run_clips_le: "unat (RUN_CLIPS c) \<le> 16"
  by (simp add: RUN_CLIPS_def KWS_NUM_CLIPS_def word_less_nat_alt)

lemma hits_Suc: "hits fp E t (Suc n) = hits fp E t n + of_bool (prediction fp E n = t (of_nat n))"
  by (simp add: hits_def)

text \<open>Collecting the features of clip \<open>n\<close> at the end of the clip before.\<close>

lemma settle:
  assumes "host_wf h'" and "in_flight h' ! unat (KWS_FRONTEND_ENGINE c) = 0"
    and fc: "failure_count h' = failure_count (k_host t) + (if rc = 0 then 0 else 1)"
    and b: "unat (failure_count (k_host t)) \<le> 65537 * n" "n \<le> 16"
    and "\<exists>a d. k_job t = (make_job E)\<lparr>j_audio := a, j_out := d\<rparr>"
    and pend: "k_pending t = Some (clip_job E (of_nat n))"
    and ok: "failure_count (k_host t) = 0 \<Longrightarrow> length (k_in t) \<le> e_in_words E \<and> k_correct t = of_nat (hits fp E (e_labels E) n)
        \<and> k_agree t = of_nat (hits fp E (e_reference E) n) \<and> k_maxdiff t = running_drift fp E n"
  shows "between fp E c n (answered_job E rc (t\<lparr>k_host := h'\<rparr>))"
proof -
  have u: "unat (failure_count h') = unat (failure_count (k_host t)) + (if rc = 0 then 0 else 1)"
    using count_up [OF b(1), of 1] b(2) fc by simp
  have z: "rc = 0 \<and> failure_count (k_host t) = 0" if "failure_count h' = 0"
    using u that by (simp add: unat_eq_zero split: if_splits)
  show ?thesis
    using assms(1,2,6) u b(1) z ok pend
    by (auto simp: between_def answered_job_def clip_features_def clip_job_def)
qed

lemma clip_between:
  fixes fp :: "'a hfpu_scheme"
  assumes net: "net_keeps E (KWS_FRONTEND_ENGINE c)" and fe: "is_cluster (KWS_FRONTEND_ENGINE c)"
    and len: "e_in_words E = 416" "\<forall>j. length (e_mfcc E j) = 416"
    and s: "between fp E c n s" and n: "n < unat (RUN_CLIPS c)"
  shows "between fp E c (Suc n) (kws_clip fp E c (of_nat n) s)"
proof -
  let ?fe = "KWS_FRONTEND_ENGINE c" and ?n = "of_nat n :: u32" and ?n' = "of_nat (Suc n) :: u32"
  have n16: "n < 16" using n run_clips_le [of c] by simp
  have more: "?n + 1 < RUN_CLIPS c \<longleftrightarrow> Suc n < unat (RUN_CLIPS c)"
  proof -
    have "unat (of_nat (Suc n) :: u32) = Suc n" using n16 by (intro unat_of_nat_small) simp
    then show ?thesis by (simp add: word_less_nat_alt add.commute)
  qed
  have n1: "?n + 1 = ?n'" by simp
  define s1 where "s1 = on_host (hes_set_sample (?n + 1) (RUN_CLIPS c)) s"
  have s1: "between fp E c n s1" using s by (simp add: s1_def between_def on_host_def hes_set_sample_def host_wf_def)
  then have wf1: "host_wf (k_host s1)" "in_flight (k_host s1) ! unat ?fe = 0" by (simp_all add: between_def)
  obtain a d where job1: "k_job s1 = (make_job E)\<lparr>j_audio := a, j_out := d\<rparr>" using s1 by (auto simp: between_def)
  have clip: "k_job (set_clip E ?n' s1) = clip_job E ?n'" by (simp add: set_clip_def clip_job_def job1)
  define s2 where "s2 = (if KWS_PIPELINED c \<and> ?n + 1 < RUN_CLIPS c then fe_post c (set_clip E (?n + 1) s1) else s1)"
  have s2: "host_wf (k_host s2)" "failure_count (k_host s2) = failure_count (k_host s1)"
    "\<exists>a d. k_job s2 = (make_job E)\<lparr>j_audio := a, j_out := d\<rparr>"
    "k_in s2 = k_in s1" "k_features s2 = k_features s1" "k_correct s2 = k_correct s1" "k_agree s2 = k_agree s1" "k_maxdiff s2 = k_maxdiff s1"
    "k_pending s2 = (if KWS_PIPELINED c \<and> Suc n < unat (RUN_CLIPS c) then Some (clip_job E ?n') else k_pending s1)"
    "\<not> (KWS_PIPELINED c \<and> Suc n < unat (RUN_CLIPS c)) \<Longrightarrow> in_flight (k_host s2) ! unat ?fe = 0"
  proof -
    obtain h where h: "fe_post c (set_clip E ?n' s1) = (set_clip E ?n' s1)\<lparr>k_host := h, k_pending := Some (clip_job E ?n')\<rparr>"
      "host_wf h" "failure_count h = failure_count (k_host s1)"
      using fe_post_eq [of "set_clip E ?n' s1" c] wf1 fe clip by (auto simp: set_clip_def)
    show "host_wf (k_host s2)" "failure_count (k_host s2) = failure_count (k_host s1)"
      "k_in s2 = k_in s1" "k_features s2 = k_features s1" "k_correct s2 = k_correct s1" "k_agree s2 = k_agree s1" "k_maxdiff s2 = k_maxdiff s1"
      "k_pending s2 = (if KWS_PIPELINED c \<and> Suc n < unat (RUN_CLIPS c) then Some (clip_job E ?n') else k_pending s1)"
      "\<not> (KWS_PIPELINED c \<and> Suc n < unat (RUN_CLIPS c)) \<Longrightarrow> in_flight (k_host s2) ! unat ?fe = 0"
      unfolding s2_def n1 h(1) more [unfolded n1] using wf1 h by (simp_all add: set_clip_def) blast
    show "\<exists>a d. k_job s2 = (make_job E)\<lparr>j_audio := a, j_out := d\<rparr>"
      unfolding s2_def n1 h(1) more [unfolded n1] using job1 by (auto simp: set_clip_def)
  qed
  define s3 where "s3 = kws_score fp E ?n (kws_compare fp E ?n (kws_classify E ?n s2))"
  note m = kws_middle [OF net s2(1) len s3_def]
  obtain k where k: "k < 65536" "failure_count (k_host s3) = failure_count (k_host s1) + of_nat k" using m(3) s2(2) by auto
  have b1: "unat (failure_count (k_host s1)) \<le> 65537 * n + 1" using s1 by (simp add: between_def)
  have u3: "unat (failure_count (k_host s3)) = unat (failure_count (k_host s1)) + k"
    unfolding k(2) by (rule count_up [OF b1]) (use k(1) n16 in simp)
  have b3: "unat (failure_count (k_host s3)) \<le> 65537 * Suc n" using u3 b1 k(1) by simp
  have job3: "\<exists>a d. k_job s3 = (make_job E)\<lparr>j_audio := a, j_out := d\<rparr>" using s2(3) m(5) by simp
  have ok3: "length (k_in s3) \<le> e_in_words E \<and> k_correct s3 = of_nat (hits fp E (e_labels E) (Suc n))
      \<and> k_agree s3 = of_nat (hits fp E (e_reference E) (Suc n)) \<and> k_maxdiff s3 = running_drift fp E (Suc n)"
    and pend3: "\<not> (KWS_PIPELINED c \<and> Suc n < unat (RUN_CLIPS c)) \<Longrightarrow> k_pending s3 = None"
    if "failure_count (k_host s3) = 0"
  proof -
    have "failure_count (k_host s1) = 0" using u3 that by (simp add: unat_eq_zero)
    then have g: "k_pending s1 = None" "length (k_in s1) \<le> 416"
      "k_features s1 (features_at E (?n AND 1)) = clip_features E ?n"
      "k_correct s1 = of_nat (hits fp E (e_labels E) n)" "k_agree s1 = of_nat (hits fp E (e_reference E) n)" "k_maxdiff s1 = running_drift fp E n"
      using s1 n len(1) by (simp_all add: between_def)
    have "elsewhere E ?n s2"
      using s2(9) g(1) features_at_neq [of E ?n] by (auto simp: elsewhere_def clip_job_def add.commute)
    from m(7) [OF this] g s2(4-8) len
    show "length (k_in s3) \<le> e_in_words E \<and> k_correct s3 = of_nat (hits fp E (e_labels E) (Suc n))
      \<and> k_agree s3 = of_nat (hits fp E (e_reference E) (Suc n)) \<and> k_maxdiff s3 = running_drift fp E (Suc n)"
      by (simp add: hits_Suc prediction_def running_drift_def clip_features_def)
    show "\<not> (KWS_PIPELINED c \<and> Suc n < unat (RUN_CLIPS c)) \<Longrightarrow> k_pending s3 = None"
      using m(4) s2(9) g(1) by simp
  qed
  have r: "kws_clip fp E c ?n s = (if ?n + 1 < RUN_CLIPS c
         then timed E (if KWS_PIPELINED c then fe_collect E c (?n + 1) else (\<lambda>s. fe_offload E c (?n + 1) (set_clip E (?n + 1) s))) s3
         else s3)"
    unfolding kws_clip_def Let_def s3_def s2_def s1_def ..
  show ?thesis
  proof (cases "Suc n < unat (RUN_CLIPS c)")
    case False
    then have "between fp E c (Suc n) s3"
      using m(1,2) s2(10) b3 job3 ok3 pend3 by (simp add: between_def)
    then show ?thesis unfolding r more using False by simp
  next
    case True
    let ?s = "s3\<lparr>k_reads := k_reads s3 + 1\<rparr>"
    have le: "Suc n \<le> 16" using n16 by simp
    have b: "between fp E c (Suc n) ((if KWS_PIPELINED c then fe_collect E c ?n' else (\<lambda>s. fe_offload E c ?n' (set_clip E ?n' s))) ?s)"
    proof (cases "KWS_PIPELINED c")
      case pip: True
      obtain rc h where f: "fe_collect E c ?n' ?s = answered_job E rc (?s\<lparr>k_host := h\<rparr>)" "host_wf h" "in_flight h ! unat ?fe = 0"
        "failure_count h = failure_count (k_host ?s) + (if rc = 0 then 0 else 1)"
        using fe_collect_eq [of ?s c E ?n'] m(1) fe by auto
      show ?thesis
        unfolding if_P [OF pip] f(1)
        by (rule settle [OF f(2-4)]) (use b3 job3 ok3 m(4) s2(9) pip True le in simp_all)
    next
      case ser: False
      let ?t = "set_clip E ?n' ?s"
      have jt: "k_job ?t = clip_job E ?n'" using job3 by (auto simp: set_clip_def clip_job_def)
      have ht: "k_host ?t = k_host s3" by (simp add: set_clip_def)
      obtain rc h where f: "fe_offload E c ?n' ?t = answered_job E rc (?t\<lparr>k_host := h, k_pending := Some (clip_job E ?n')\<rparr>)"
        "host_wf h" "in_flight h ! unat ?fe = 0" "failure_count h = failure_count (k_host s3) + (if rc = 0 then 0 else 1)"
        using fe_offload_eq [of ?t c E ?n'] m(1,2) s2(10) fe ser unfolding ht jt by auto
      have sw: "?t\<lparr>k_host := h, k_pending := Some (clip_job E ?n')\<rparr> = (?t\<lparr>k_pending := Some (clip_job E ?n')\<rparr>)\<lparr>k_host := h\<rparr>" by simp
      have jd: "\<exists>a d. clip_job E ?n' = (make_job E)\<lparr>j_audio := a, j_out := d\<rparr>" by (auto simp: clip_job_def)
      show ?thesis
        unfolding if_not_P [OF ser] f(1) sw
        by (rule settle [OF f(2,3)]) (use b3 ok3 le jt jd f(4) in \<open>simp_all add: set_clip_def\<close>)
    qed
    obtain w q where tm: "timed E (if KWS_PIPELINED c then fe_collect E c ?n' else (\<lambda>s. fe_offload E c ?n' (set_clip E ?n' s))) s3
        = ((if KWS_PIPELINED c then fe_collect E c ?n' else (\<lambda>s. fe_offload E c ?n' (set_clip E ?n' s))) ?s)\<lparr>k_wait := w, k_reads := q\<rparr>"
      using timed_eq by blast
    have "?n' < RUN_CLIPS c" using True more by (simp only: n1)
    then show ?thesis unfolding r n1 tm by (simp only: if_True between_timing b)
  qed
qed

lemma engine_init_keeps:
  "\<exists>q. hes_engine_init view h = h\<lparr>next_seq := q\<rparr> \<and> length q = length (next_seq h)"
proof -
  have r: "[unat (1::u32)..<unat HES_NB_ENGINES] = [1, 2]" by (simp add: HES_NB_ENGINES_def upt_rec)
  show ?thesis unfolding hes_engine_init_def for_u32_def r
    by (simp add: Let_def) (rule exI, rule conjI, rule refl, simp)
qed

lemma report_quiet: "quiet (kws_report fp c tot s h) = quiet h"
  by (simp add: kws_report_def Let_def)

lemma loop_between:
  fixes fp :: "'a hfpu_scheme"
  assumes "net_keeps E (KWS_FRONTEND_ENGINE c)" and "is_cluster (KWS_FRONTEND_ENGINE c)"
    and "e_in_words E = 416" and "\<forall>j. length (e_mfcc E j) = 416" and "between fp E c 0 s"
  shows "between fp E c (unat (RUN_CLIPS c)) (for_u32 0 (RUN_CLIPS c) (kws_clip fp E c) s)"
proof -
  have "between fp E c n (fold (\<lambda>i. kws_clip fp E c (of_nat i)) [0..<n] s)" if "n \<le> unat (RUN_CLIPS c)" for n
    using that
  proof (induction n)
    case 0
    show ?case using assms(5) by simp
  next
    case (Suc n)
    then have "between fp E c n (fold (\<lambda>i. kws_clip fp E c (of_nat i)) [0..<n] s)" "n < unat (RUN_CLIPS c)" by simp_all
    from clip_between [OF assms(1-4) this] show ?case by (simp del: of_nat_Suc)
  qed
  from this [OF order_refl] show ?thesis unfolding for_u32_zero .
qed

subsection \<open>What the drift is\<close>

text \<open>Not a number: all exponent bits set, and the fraction not zero.\<close>

definition f_nan :: "u32 \<Rightarrow> bool" where
  "f_nan x \<longleftrightarrow> 0x7F800000 < x AND 0x7FFFFFFF"

text \<open>
  What IEEE 754 says of comparisons: none holds of a NaN, and floats without a sign are ordered as
  their bit patterns.
\<close>

definition ieee_order :: "'a hfpu_scheme \<Rightarrow> bool" where
  "ieee_order fp \<longleftrightarrow> (\<forall>a b. f_nan a \<or> f_nan b \<longrightarrow> \<not> f_gt fp a b \<and> \<not> f_le fp a b)
     \<and> (\<forall>a b. \<not> f_nan a \<and> \<not> f_nan b \<and> a \<le> 0x7FFFFFFF \<and> b \<le> 0x7FFFFFFF \<longrightarrow>
          (f_gt fp a b \<longleftrightarrow> b < a) \<and> (f_le fp a b \<longleftrightarrow> a \<le> b))"

text \<open>How far feature \<open>i\<close> of clip \<open>n\<close> is from the reference.\<close>

definition feature_diff :: "'a hfpu_scheme \<Rightarrow> kws_env \<Rightarrow> nat \<Rightarrow> nat \<Rightarrow> u32" where
  "feature_diff fp E n i = fabsf (f_sub fp (clip_features E (of_nat n) ! i) (e_mfcc_ref E (of_nat n) ! i))"

text \<open>\<open>m\<close> is the largest of the numbers in \<open>S\<close>, or 0.\<close>

definition tops :: "u32 set \<Rightarrow> u32 \<Rightarrow> bool" where
  "tops S m \<longleftrightarrow> \<not> f_nan m \<and> m \<le> 0x7FFFFFFF \<and> (\<forall>d\<in>S. \<not> f_nan d \<longrightarrow> d \<le> m) \<and> (m = 0 \<or> m \<in> S)"

lemma fabsf_le: "fabsf x \<le> 0x7FFFFFFF"
  unfolding fabsf_def by (rule word_and_le1)

lemma tops_step:
  assumes "ieee_order fp" and "tops S m" and "d \<le> 0x7FFFFFFF"
  shows "tops (insert d S) (if f_gt fp d m then d else m)"
proof (cases "f_nan d")
  case True
  then have "\<not> f_gt fp d m" using assms(1) by (simp add: ieee_order_def)
  then show ?thesis using assms(2) True by (auto simp: tops_def)
next
  case False
  then have "f_gt fp d m \<longleftrightarrow> m < d" using assms by (simp add: ieee_order_def tops_def)
  then show ?thesis using assms(2,3) False by (auto simp: tops_def not_less)
qed

lemma tops_diff_with:
  assumes "ieee_order fp" and "tops S d0"
  shows "tops (S \<union> (\<lambda>i. fabsf (f_sub fp (xs ! i) (ref ! i))) ` {..<416}) (diff_with fp xs ref d0)"
proof -
  let ?d = "\<lambda>i. fabsf (f_sub fp (xs ! i) (ref ! i))"
  have "tops (S \<union> ?d ` {..<k}) (fold (\<lambda>i m. if f_gt fp (?d i) m then ?d i else m) [0..<k] d0)" for k
  proof (induction k)
    case (Suc k)
    from tops_step [OF assms(1) Suc fabsf_le, of "f_sub fp (xs ! k) (ref ! k)"] show ?case by (simp only: upt_Suc fold_append
        fold.simps comp_apply id_apply lessThan_Suc image_insert Un_insert_right le0 if_True)
  qed (use assms(2) in simp)
  from this [of 416] show ?thesis by (simp add: diff_with_def Let_def)
qed

lemma tops_running_drift:
  assumes "ieee_order fp"
  shows "tops {d. \<exists>n<k. \<exists>i<416. d = feature_diff fp E n i} (running_drift fp E k)"
proof (induction k)
  case 0
  show ?case by (simp add: tops_def f_nan_def running_drift_def)
next
  case (Suc k)
  have e: "{d. \<exists>n<Suc k. \<exists>i<416. d = feature_diff fp E n i}
      = {d. \<exists>n<k. \<exists>i<416. d = feature_diff fp E n i} \<union> feature_diff fp E k ` {..<416}"
    by (auto simp: less_Suc_eq)
  have f: "feature_diff fp E k = (\<lambda>i. fabsf (f_sub fp (clip_features E (of_nat k) ! i) (e_mfcc_ref E (of_nat k) ! i)))"
    by (simp add: feature_diff_def fun_eq_iff)
  from tops_diff_with [OF assms Suc, of "clip_features E (of_nat k)" "e_mfcc_ref E (of_nat k)"]
  show ?case unfolding e f by (simp add: running_drift_def)
qed

lemma tops_within:
  assumes "ieee_order fp" and "tops S m"
  shows "f_le fp m 0x3A83126F \<longleftrightarrow> (\<forall>d\<in>S. f_nan d \<or> d \<le> 0x3A83126F)"
proof -
  have "f_le fp m 0x3A83126F \<longleftrightarrow> m \<le> 0x3A83126F"
    using assms by (simp add: ieee_order_def tops_def f_nan_def)
  then show ?thesis using assms(2) by (auto simp: tops_def intro: order_trans)
qed

text \<open>The line with the scores, as it can be read back.\<close>

lemma print_u64_reads: "\<exists>t. print_u64 (replicate 21 CHR 0x00) v out = out @ t \<and> read_dec t = unat v"
  using print_u64_text [of "replicate 21 CHR 0x00" v out] read_dec_text [of v] by (intro exI) simp

lemma kws_report_text:
  "\<exists>x y a b d e. console (kws_report fp c tot s h)
      = x @ ''[HES-KWS] clips='' @ a @ '' correct='' @ b @ '' agree_with_onnx='' @ d @ '' mfcc_maxdiff_e6='' @ e @ '' cycles_total='' @ y
    \<and> read_dec a = unat (RUN_CLIPS c) \<and> read_dec b = unat (k_correct s) \<and> read_dec d = unat (k_agree s)
    \<and> read_dec e = unat (f_to_u64 fp (f_mul fp (k_maxdiff s) 0x49742400))"
proof -
  let ?n = "\<lambda>v :: u64. map dec_char (dec.text_of v)"
  have say: "console (say t g) = console g @ t" "console (say_u64 v g) = console g @ ?n v" "console (say_u32 w g) = console g @ ?n (ucast w)"
    for t v w g by (simp_all add: say_def say_u32_def say_u64_def print_str_def sh_puts_def print_u64_text)
  have u: "unat (ucast w :: u64) = unat w" for w :: u32
    using unat_u32_lt [of w] by (simp add: unsigned_ucast_eq take_bit_nat_eq_self_iff)
  show ?thesis
    unfolding kws_report_def Let_def does_simps say append_assoc
    by (intro exI [of _ "console h"] exI conjI) (rule refl, simp_all only: read_dec_text u)
qed

text \<open>
  C40. What a run of keyword spotting reports. Overlapped or not, on either cluster, whatever each
  poll finds, however long each job takes and whatever the other feature buffer looks like while the
  front-end is still writing it: if the run ends with no offload failure, then the line it prints
  reads back as the number of clips, how many of the network's answers to the front-end's features of
  each clip, each clip to its own, match the labels and the reference model, and the drift times 1e6.
  The drift is the largest absolute difference of a feature to its reference among those that are
  numbers, or 0; and the program returns 0 exactly when every answer agrees with the reference model
  and no difference that is a number exceeds 1e-3. A difference that is a NaN is not seen, so
  features that are not numbers pass this check (\<open>incomparable_differences_pass\<close>). The overlapped
  build and the serial one report the same scores.
\<close>

theorem kws_run_scores:
  fixes fp :: "'a hfpu_scheme"
  assumes "is_cluster (KWS_FRONTEND_ENGINE c)" and "net_keeps E (KWS_FRONTEND_ENGINE c)"
    and "e_in_words E = 416" and "\<forall>j. length (e_mfcc E j) = 416"
    and "host_wf (k_host s)" and "in_flight (k_host s) ! unat (KWS_FRONTEND_ENGINE c) = 0" and "failure_count (k_host s) = 0"
    and "length (k_in s) \<le> 416"
    and "ieee_order fp" and "kws_main fp E c s = (code, s')" and "hes_failures (k_host s') = 0"
  shows "(\<exists>x y a b d e. console (k_host s') = x @ ''[HES-KWS] clips='' @ a @ '' correct='' @ b @ '' agree_with_onnx='' @ d
          @ '' mfcc_maxdiff_e6='' @ e @ '' cycles_total='' @ y
        \<and> read_dec a = unat (RUN_CLIPS c) \<and> read_dec b = hits fp E (e_labels E) (unat (RUN_CLIPS c))
        \<and> read_dec d = hits fp E (e_reference E) (unat (RUN_CLIPS c))
        \<and> read_dec e = unat (f_to_u64 fp (f_mul fp (k_maxdiff s') 0x49742400)))
    \<and> (\<forall>n < unat (RUN_CLIPS c). \<forall>i < 416. f_nan (feature_diff fp E n i) \<or> feature_diff fp E n i \<le> k_maxdiff s')
    \<and> (k_maxdiff s' = 0 \<or> (\<exists>n < unat (RUN_CLIPS c). \<exists>i < 416. k_maxdiff s' = feature_diff fp E n i))
    \<and> (code = 0 \<longleftrightarrow> (\<forall>n < unat (RUN_CLIPS c). prediction fp E n = e_reference E (of_nat n))
          \<and> (\<forall>n < unat (RUN_CLIPS c). \<forall>i < 416. f_nan (feature_diff fp E n i) \<or> feature_diff fp E n i \<le> 0x3A83126F))"
proof -
  let ?fe = "KWS_FRONTEND_ENGINE c" and ?r = "unat (RUN_CLIPS c)"
  define s1 where "s1 = (on_host (report_absent (e_ready E)) (on_host (hes_engine_init (e_init E)) s))
      \<lparr>k_job := make_job E, k_correct := 0, k_agree := 0, k_maxdiff := 0, k_wait := 0, k_reads := 0\<rparr>"
  obtain q where q: "hes_engine_init (e_init E) (k_host s) = k_host s\<lparr>next_seq := q\<rparr>" "length q = length (next_seq (k_host s))"
    using engine_init_keeps by blast
  have q1: "quiet (k_host s1) = quiet (k_host s\<lparr>next_seq := q\<rparr>)" by (simp add: s1_def on_host_def report_absent_quiet q(1))
  have h1: "host_wf (k_host s1)" "in_flight (k_host s1) ! unat ?fe = 0" "failure_count (k_host s1) = 0"
    using host_wf_quiet [OF q1] quiet_sel [OF q1] assms(5-7) q(2) by (simp_all add: host_wf_def)
  define t where "t = set_clip E 0 (s1\<lparr>k_reads := 2\<rparr>)"
  have t: "k_host t = k_host s1" "k_job t = clip_job E 0" "length (k_in t) \<le> 416" "k_correct t = 0" "k_agree t = 0" "k_maxdiff t = 0"
    using assms(8) by (simp_all add: t_def set_clip_def clip_job_def s1_def on_host_def)
  obtain rc h where f: "fe_offload E c 0 t = answered_job E rc (t\<lparr>k_host := h, k_pending := Some (clip_job E 0)\<rparr>)"
    "host_wf h" "in_flight h ! unat ?fe = 0" "failure_count h = failure_count (k_host s1) + (if rc = 0 then 0 else 1)"
    using fe_offload_eq [of t c E 0] h1 assms(1) unfolding t(1,2) by auto
  have sw: "t\<lparr>k_host := h, k_pending := Some (clip_job E 0)\<rparr> = (t\<lparr>k_pending := Some (clip_job E 0)\<rparr>)\<lparr>k_host := h\<rparr>" by simp
  have b0: "between fp E c 0 (fe_offload E c 0 t)"
    unfolding f(1) sw by (rule settle [OF f(2,3)]) (use t h1 f(4) assms(3) in \<open>auto simp: clip_job_def hits_def running_drift_def\<close>)
  obtain w r where tm: "timed E (\<lambda>s. fe_offload E c 0 (set_clip E 0 s)) (s1\<lparr>k_reads := 1\<rparr>) = (fe_offload E c 0 t)\<lparr>k_wait := w, k_reads := r\<rparr>"
    using timed_eq [of E "\<lambda>s. fe_offload E c 0 (set_clip E 0 s)" "s1\<lparr>k_reads := 1\<rparr>"] by (auto simp: t_def numeral_2_eq_2)
  define s2 where "s2 = for_u32 0 (RUN_CLIPS c) (kws_clip fp E c) ((fe_offload E c 0 t)\<lparr>k_wait := w, k_reads := r\<rparr>)"
  have b: "between fp E c ?r s2"
    unfolding s2_def by (rule loop_between [OF assms(2,1,3,4)]) (use b0 in simp)
  have k0: "k_reads s1 = 0" by (simp add: s1_def)
  have "kws_main fp E c s = (let s' = on_host (kws_report fp c (e_mcycle E (k_reads s2) - e_mcycle E 0) s2) (s2\<lparr>k_reads := k_reads s2 + 1\<rparr>)
      in (if k_agree s' = RUN_CLIPS c \<and> hes_failures (k_host s') = 0 \<and> f_le fp (k_maxdiff s') 0x3A83126F then 0 else 1, s'))"
    unfolding kws_main_def Let_def s1_def [symmetric] k0 add_0 tm s2_def [symmetric] ..
  then have s': "s' = on_host (kws_report fp c (e_mcycle E (k_reads s2) - e_mcycle E 0) s2) (s2\<lparr>k_reads := k_reads s2 + 1\<rparr>)"
    and code: "code = (if k_agree s' = RUN_CLIPS c \<and> hes_failures (k_host s') = 0 \<and> f_le fp (k_maxdiff s') 0x3A83126F then 0 else 1)"
    unfolding assms(10) Let_def by (auto simp only: prod.inject)
  have "failure_count (k_host s2) = 0"
    using assms(11) by (simp add: s' on_host_def hes_failures_def quiet_sel(4) [OF report_quiet])
  then have g: "k_correct s' = of_nat (hits fp E (e_labels E) ?r)" "k_agree s' = of_nat (hits fp E (e_reference E) ?r)"
    "k_maxdiff s' = running_drift fp E ?r"
    using b by (simp_all add: between_def s' on_host_def)
  have h: "hits fp E t k \<le> k" for t k using length_filter_le [of _ "[0..<k]"] by (simp add: hits_def)
  have all: "hits fp E (e_reference E) ?r = ?r \<longleftrightarrow> (\<forall>n < ?r. prediction fp E n = e_reference E (of_nat n))"
    using length_filter_less [of _ "[0..<?r]" "\<lambda>n. prediction fp E n = e_reference E (of_nat n)"]
    by (auto simp: hits_def) (metis atLeast0LessThan diff_zero length_upt lessThan_iff less_irrefl set_upt)
  have n: "unat (of_nat (hits fp E t ?r) :: u32) = hits fp E t ?r" for t
    using h [of t ?r] run_clips_le [of c] by (intro unat_of_nat_small) simp
  then have "k_agree s' = RUN_CLIPS c \<longleftrightarrow> hits fp E (e_reference E) ?r = ?r" unfolding g(2) using n by (auto simp: word_unat_eq_iff)
  moreover have tp: "tops {d. \<exists>n<?r. \<exists>i<416. d = feature_diff fp E n i} (k_maxdiff s')"
    unfolding g(3) by (rule tops_running_drift [OF assms(9)])
  moreover have "f_le fp (k_maxdiff s') 0x3A83126F
      \<longleftrightarrow> (\<forall>n < ?r. \<forall>i < 416. f_nan (feature_diff fp E n i) \<or> feature_diff fp E n i \<le> 0x3A83126F)"
    unfolding tops_within [OF assms(9) tp] by blast
  ultimately have "code = 0 \<longleftrightarrow> (\<forall>n < ?r. prediction fp E n = e_reference E (of_nat n))
      \<and> (\<forall>n < ?r. \<forall>i < 416. f_nan (feature_diff fp E n i) \<or> feature_diff fp E n i \<le> 0x3A83126F)"
    using code assms(11) all by simp
  moreover have "\<exists>x y a b d e. console (k_host s') = x @ ''[HES-KWS] clips='' @ a @ '' correct='' @ b @ '' agree_with_onnx='' @ d
          @ '' mfcc_maxdiff_e6='' @ e @ '' cycles_total='' @ y
        \<and> read_dec a = ?r \<and> read_dec b = hits fp E (e_labels E) ?r \<and> read_dec d = hits fp E (e_reference E) ?r
        \<and> read_dec e = unat (f_to_u64 fp (f_mul fp (k_maxdiff s') 0x49742400))"
    using kws_report_text [of fp c "e_mcycle E (k_reads s2) - e_mcycle E 0" s2 "k_host s2"] g n by (simp add: s' on_host_def)
  ultimately show ?thesis using tp by (auto simp: tops_def)
qed

subsection \<open>A run in which every job is answered\<close>

text \<open>Every wait for clip \<open>n\<close> finds the answer to job \<open>n + 1\<close> at once, without error.\<close>

definition all_answered :: "kws_env \<Rightarrow> bool" where
  "all_answered E \<longleftrightarrow> (\<forall>n h. e_run E n h = h) \<and> (\<forall>n t. mb_done_seq (e_wait E n t) = n + 1 \<and> mb_trap_cause (e_wait E n t) = 0
     \<and> mb_error (e_wait E n t) = 0)"

definition clean :: "kws_cfg \<Rightarrow> u32 \<Rightarrow> host \<Rightarrow> bool" where
  "clean c n h \<longleftrightarrow> host_wf h \<and> in_flight h ! unat (KWS_FRONTEND_ENGINE c) = 0 \<and> failure_count h = 0
     \<and> next_seq h ! unat (KWS_FRONTEND_ENGINE c) = n"

lemma collect_answered:
  assumes "all_answered E" and "host_wf h" and fe: "is_cluster e" and "in_flight h ! unat e \<noteq> 0" and "next_seq h ! unat e = n + 1"
  shows "\<exists>h' r h1. hes_wait (e_wait E n) e h = (r, h1) \<and> hes_check e what r h1 = (0, h') \<and> host_wf h' \<and> in_flight h' ! unat e = 0
    \<and> failure_count h' = failure_count h \<and> next_seq h' = next_seq h"
proof -
  have v: "mb_done_seq (e_wait E n (Suc 0)) = next_seq h ! unat e" using assms(1,5) by (simp add: all_answered_def)
  have "0 < max_polls" by (simp add: max_polls_eq)
  from hes_wait_found [where view = "e_wait E n", OF fe assms(4) this v]
  obtain h' where w: "hes_wait (e_wait E n) e h = (collect (e_wait E n) 2, h')"
    and q: "quiet h' = quiet (h\<lparr>in_flight := (in_flight h)[unat e := 0],
        busy_cycles := (busy_cycles h)[unat e := busy_cycles h ! unat e + r_cycles (collect (e_wait E n) 2)]\<rparr>)"
    by (auto simp: numeral_2_eq_2)
  have ok: "hes_check e what (collect (e_wait E n) 2) h' = (0, h')"
    using assms(1) by (simp add: hes_check_def collect_def all_answered_def)
  from collect_mfcc [OF assms(2) fe w ok] show ?thesis
    using w ok quiet_sel(1) [OF q] by auto
qed

lemma fe_offload_clean:
  assumes "all_answered E" and "is_cluster (KWS_FRONTEND_ENGINE c)" and "clean c n (k_host s)"
  shows "clean c (n + 1) (k_host (fe_offload E c n s))"
proof -
  let ?fe = "KWS_FRONTEND_ENGINE c"
  obtain h0 where p: "hes_post_mfcc ?fe (k_job s) (k_host s) = (0, h0)" "host_wf h0" "in_flight h0 ! unat ?fe \<noteq> 0"
    "failure_count h0 = failure_count (k_host s)" "next_seq h0 ! unat ?fe = n + 1"
    using post_mfcc [of "k_host s" ?fe "k_job s"] assms(2,3) by (auto simp: clean_def)
  obtain r h1 h2 where w: "hes_wait (e_wait E n) ?fe h0 = (r, h1)" "hes_check ?fe ''Mfcc'' r h1 = (0, h2)"
    "host_wf h2" "in_flight h2 ! unat ?fe = 0" "failure_count h2 = failure_count h0" "next_seq h2 = next_seq h0"
    using collect_answered [OF assms(1) p(2) assms(2) p(3,5)] by blast
  have "hes_offload_mfcc (e_wait E n) ?fe (k_job s) (k_host s) = (0, h2)"
    using p(1) by (simp add: hes_offload_mfcc_def check_offload_def hes_offload_def hes_post_mfcc_def w)
  then have "k_host (fe_offload E c n s) = h2" by (simp add: fe_offload_def answered_job_def split: option.split)
  then show ?thesis using w p assms(3) by (simp add: clean_def)
qed

lemma clip_clean:
  assumes ans: "all_answered E" and fe: "is_cluster (KWS_FRONTEND_ENGINE c)" and net: "net_keeps E (KWS_FRONTEND_ENGINE c)"
    and len: "e_in_words E = 416" "\<forall>j. length (e_mfcc E j) = 416"
    and cl: "clean c (n + 1) (k_host s)"
  shows "\<exists>q. clean c q (k_host (kws_clip fp E c n s)) \<and> (n + 1 < RUN_CLIPS c \<longrightarrow> q = n + 1 + 1)"
proof -
  let ?fe = "KWS_FRONTEND_ENGINE c"
  define s1 where "s1 = on_host (hes_set_sample (n + 1) (RUN_CLIPS c)) s"
  have c1: "clean c (n + 1) (k_host s1)" using cl by (simp add: s1_def clean_def on_host_def hes_set_sample_def host_wf_def)
  define s2 where "s2 = (if KWS_PIPELINED c \<and> n + 1 < RUN_CLIPS c then fe_post c (set_clip E (n + 1) s1) else s1)"
  define s3 where "s3 = kws_score fp E n (kws_compare fp E n (kws_classify E n s2))"
  have h: "k_host (set_clip E (n + 1) t) = k_host t" for t by (simp add: set_clip_def)
  have s2: "host_wf (k_host s2)"
    "if KWS_PIPELINED c \<and> n + 1 < RUN_CLIPS c then in_flight (k_host s2) ! unat ?fe \<noteq> 0 \<and> failure_count (k_host s2) = 0
        \<and> next_seq (k_host s2) ! unat ?fe = n + 1 + 1 else clean c (n + 1) (k_host s2)"
    using c1 fe_post_eq [of "set_clip E (n + 1) s1" c] fe unfolding s2_def h by (auto simp: clean_def)
  note m = kws_middle [OF net s2(1) len s3_def]
  have q: "quiet (k_host s3) = quiet (k_host s2)" using m(6) ans by (simp add: all_answered_def)
  have r: "kws_clip fp E c n s = (if n + 1 < RUN_CLIPS c
         then timed E (if KWS_PIPELINED c then fe_collect E c (n + 1) else (\<lambda>s. fe_offload E c (n + 1) (set_clip E (n + 1) s))) s3
         else s3)"
    unfolding kws_clip_def Let_def s3_def s2_def s1_def ..
  show ?thesis
  proof (cases "n + 1 < RUN_CLIPS c")
    case False
    then have "clean c (n + 1) (k_host s3)"
      using s2 m(1) quiet_sel [OF q] by (auto simp: clean_def)
    then show ?thesis unfolding r using False by auto
  next
    case True
    let ?s = "s3\<lparr>k_reads := k_reads s3 + 1\<rparr>"
    have "clean c (n + 1 + 1) (k_host ((if KWS_PIPELINED c then fe_collect E c (n + 1)
        else (\<lambda>s. fe_offload E c (n + 1) (set_clip E (n + 1) s))) ?s))"
    proof (cases "KWS_PIPELINED c")
      case pip: True
      have i: "in_flight (k_host s3) ! unat ?fe \<noteq> 0" "failure_count (k_host s3) = 0" "next_seq (k_host s3) ! unat ?fe = n + 1 + 1"
        using s2(2) pip True quiet_sel [OF q] by simp_all
      obtain r h1 h2 where w: "hes_wait (e_wait E (n + 1)) ?fe (k_host s3) = (r, h1)" "hes_check ?fe ''Mfcc'' r h1 = (0, h2)"
        "host_wf h2" "in_flight h2 ! unat ?fe = 0" "failure_count h2 = failure_count (k_host s3)" "next_seq h2 = next_seq (k_host s3)"
        using collect_answered [OF ans m(1) fe i(1,3)] by blast
      have "k_host (fe_collect E c (n + 1) ?s) = h2"
        using w by (simp add: fe_collect_def answered_job_def split: option.split)
      then show ?thesis using w i pip by (simp add: clean_def)
    next
      case ser: False
      have "clean c (n + 1) (k_host (set_clip E (n + 1) ?s))"
        using s2(2) ser m(1) quiet_sel [OF q] by (simp add: clean_def h)
      from fe_offload_clean [OF ans fe this] show ?thesis using ser by simp
    qed
    moreover obtain w q where "kws_clip fp E c n s = ((if KWS_PIPELINED c then fe_collect E c (n + 1)
        else (\<lambda>s. fe_offload E c (n + 1) (set_clip E (n + 1) s))) ?s)\<lparr>k_wait := w, k_reads := q\<rparr>"
      unfolding r if_P [OF True] using timed_eq by blast
    ultimately show ?thesis by auto
  qed
qed

lemma loop_clean:
  assumes ans: "all_answered E" and fe: "is_cluster (KWS_FRONTEND_ENGINE c)" and net: "net_keeps E (KWS_FRONTEND_ENGINE c)"
    and len: "e_in_words E = 416" "\<forall>j. length (e_mfcc E j) = 416" and cl: "clean c 1 (k_host s)"
  shows "\<exists>q. clean c q (k_host (for_u32 0 (RUN_CLIPS c) (kws_clip fp E c) s))"
proof -
  have "\<exists>q. clean c q (k_host (fold (\<lambda>i. kws_clip fp E c (of_nat i)) [0..<n] s)) \<and> (n < unat (RUN_CLIPS c) \<longrightarrow> q = of_nat n + 1)"
    if "n \<le> unat (RUN_CLIPS c)" for n
    using that
  proof (induction n)
    case 0
    show ?case using cl by auto
  next
    case (Suc n)
    let ?t = "fold (\<lambda>i. kws_clip fp E c (of_nat i)) [0..<n] s"
    have "clean c (of_nat n + 1) (k_host ?t)" using Suc by auto
    from clip_clean [OF ans fe net len this] obtain q where q: "clean c q (k_host (kws_clip fp E c (of_nat n) ?t))"
      "of_nat n + 1 < RUN_CLIPS c \<longrightarrow> q = of_nat n + 1 + 1" by blast
    have "unat (of_nat (Suc n) :: u32) = Suc n" using Suc.prems run_clips_le [of c] by (intro unat_of_nat_small) simp
    then have "of_nat n + 1 < RUN_CLIPS c" if "Suc n < unat (RUN_CLIPS c)" using that by (simp add: word_less_nat_alt add.commute)
    then show ?case using q by (intro exI [of _ q]) (simp add: add.commute)
  qed
  from this [OF order_refl] show ?thesis unfolding for_u32_zero by blast
qed

lemma main_clean:
  fixes fp :: "'a hfpu_scheme"
  assumes ans: "all_answered E" and fe: "is_cluster (KWS_FRONTEND_ENGINE c)" and net: "net_keeps E (KWS_FRONTEND_ENGINE c)"
    and len: "e_in_words E = 416" "\<forall>j. length (e_mfcc E j) = 416"
    and init: "\<forall>e t. mb_done_seq (e_init E e t) = 0"
    and cl: "clean c 0 (k_host s)"
  shows "hes_failures (k_host (snd (kws_main fp E c s))) = 0"
proof -
  let ?fe = "KWS_FRONTEND_ENGINE c"
  have r: "[unat (1::u32)..<unat HES_NB_ENGINES] = [1, 2]" by (simp add: HES_NB_ENGINES_def upt_rec)
  have u: "unat ?fe = 1 \<or> unat ?fe = 2" using fe by (auto simp: is_cluster_cases)
  have "clean c 0 (hes_engine_init (e_init E) (k_host s))"
    using cl init u unfolding hes_engine_init_def for_u32_def r by (auto simp: clean_def host_wf_def Let_def)
  moreover have q: "quiet (report_absent (e_ready E) h) = quiet h" for h by (rule report_absent_quiet)
  ultimately have c0: "clean c 0 (report_absent (e_ready E) (hes_engine_init (e_init E) (k_host s)))"
    using host_wf_quiet [OF q] quiet_sel [OF q] by (simp add: clean_def)
  define s1 where "s1 = (on_host (report_absent (e_ready E)) (on_host (hes_engine_init (e_init E)) s))
      \<lparr>k_job := make_job E, k_correct := 0, k_agree := 0, k_maxdiff := 0, k_wait := 0, k_reads := 0\<rparr>"
  have c1: "clean c 0 (k_host (set_clip E 0 (s1\<lparr>k_reads := k\<rparr>)))" for k using c0 by (simp add: s1_def on_host_def set_clip_def)
  define s2 where "s2 = timed E (\<lambda>s. fe_offload E c 0 (set_clip E 0 s)) (s1\<lparr>k_reads := k_reads s1 + 1\<rparr>)"
  obtain w k where "s2 = (fe_offload E c 0 (set_clip E 0 (s1\<lparr>k_reads := k_reads s1 + 1 + 1\<rparr>)))\<lparr>k_wait := w, k_reads := k\<rparr>"
    using timed_eq [of E "\<lambda>s. fe_offload E c 0 (set_clip E 0 s)" "s1\<lparr>k_reads := k_reads s1 + 1\<rparr>"] unfolding s2_def by auto
  then have "clean c 1 (k_host s2)" using fe_offload_clean [OF ans fe c1] by simp
  from loop_clean [OF ans fe net len this, of fp] have f: "failure_count (k_host (for_u32 0 (RUN_CLIPS c) (kws_clip fp E c) s2)) = 0"
    by (auto simp: clean_def)
  have "snd (kws_main fp E c s) = (let t = for_u32 0 (RUN_CLIPS c) (kws_clip fp E c) s2
      in on_host (kws_report fp c (e_mcycle E (k_reads t) - e_mcycle E (k_reads s1)) t) (t\<lparr>k_reads := k_reads t + 1\<rparr>))"
    unfolding kws_main_def Let_def s1_def [symmetric] s2_def [symmetric] by simp
  then show ?thesis using f by (simp add: Let_def on_host_def hes_failures_def quiet_sel(4) [OF report_quiet])
qed

text \<open>Two clips, overlapped, with the front-end on the Snitch cluster and garbage in its buffer while it writes.\<close>

definition two_clips :: kws_cfg where
  "two_clips = \<lparr>HES_SAMPLES = 2, KWS_FRONTEND_ENGINE = HES_ENGINE_SNITCH, KWS_PIPELINED = True\<rparr>"

definition small_env :: kws_env where
  "small_env = \<lparr>e_tables = \<lparr>j_audio = 0, j_out = 0, j_nb_frames = 0, j_frame_len = 0, j_hop = 0, j_fft_len = 0, j_window = 0x80010000,
       j_twiddles = 0x80020000, j_mel_coeff = 0x80030000, j_mel_start = 0x80040000, j_mel_len = 0x80050000, j_nb_mel = 0,
       j_dct = 0x80060000, j_nb_cep = 0, j_mel_coeffs = 0\<rparr>,
     e_audio = 0x80100000, e_features = 0x80200000, e_mfcc_ref = (\<lambda>_. replicate 416 0), e_labels = (\<lambda>n. n), e_reference = (\<lambda>n. n),
     e_in_words = 416, e_net = (\<lambda>x. if hd x = 0x80100000 then 9 # replicate 9 0 else 0 # 9 # replicate 8 0), e_run = (\<lambda>_ h. h),
     e_mfcc = (\<lambda>j. replicate 416 (j_audio j)), e_init = (\<lambda>_ _. fresh_mbox), e_ready = (\<lambda>_. fresh_mbox),
     e_wait = (\<lambda>n _. fresh_mbox\<lparr>mb_done_seq := n + 1\<rparr>), e_mcycle = of_nat, e_seen = (\<lambda>n i. [n, of_nat i])\<rparr>"

definition start :: kws where
  "start = \<lparr>k_host = fresh_host, k_features = (\<lambda>_. []), k_pending = None, k_job = make_job small_env, k_in = [], k_out = [],
     k_correct = 0, k_agree = 0, k_maxdiff = 0, k_wait = 0, k_reads = 0\<rparr>"

definition word_fpu :: hfpu where
  "word_fpu = \<lparr>f_add = (+), f_sub = (-), f_mul = (*), f_madd = (\<lambda>a b c. a * b + c), f_contract = True,
     f_sum2 = (\<lambda>a b c d. a * b + c * d), f_diff2 = (\<lambda>a b c d. a * b - c * d), f_log = id,
     f_gt = (\<lambda>a b. \<not> f_nan a \<and> \<not> f_nan b \<and> b < a), f_le = (\<lambda>a b. \<not> f_nan a \<and> \<not> f_nan b \<and> a \<le> b), f_to_u64 = ucast\<rparr>"

theorem kws_run_scores_witness:
  "\<exists>s' x y a b d e. kws_main word_fpu small_env two_clips start = (0, s')
    \<and> console (k_host s') = x @ ''[HES-KWS] clips='' @ a @ '' correct='' @ b @ '' agree_with_onnx='' @ d
          @ '' mfcc_maxdiff_e6='' @ e @ '' cycles_total='' @ y
    \<and> read_dec a = 2 \<and> read_dec b = 2 \<and> read_dec d = 2 \<and> 0 < k_maxdiff s'"
proof -
  obtain code s' where m: "kws_main word_fpu small_env two_clips start = (code, s')" by fastforce
  have fe: "is_cluster (KWS_FRONTEND_ENGINE two_clips)" by (simp add: two_clips_def is_cluster_cases HES_ENGINE_SNITCH_def)
  have net: "net_keeps small_env (KWS_FRONTEND_ENGINE two_clips)"
    by (auto simp: net_keeps_def small_env_def intro!: exI [of _ 0])
  have len: "e_in_words small_env = 416" "\<forall>j. length (e_mfcc small_env j) = 416" by (simp_all add: small_env_def)
  have h: "host_wf (k_host start)" "in_flight (k_host start) ! unat (KWS_FRONTEND_ENGINE two_clips) = 0" "failure_count (k_host start) = 0"
    "length (k_in start) \<le> 416"
    using fresh_host_wf by (simp_all add: start_def fresh_host_def two_clips_def HES_ENGINE_SNITCH_def)
  have ans: "all_answered small_env" by (simp add: all_answered_def small_env_def fresh_mbox_def)
  have init: "\<forall>e t. mb_done_seq (e_init small_env e t) = 0" by (simp add: small_env_def fresh_mbox_def)
  have cl: "clean two_clips 0 (k_host start)" using h fe by (simp add: clean_def) (simp add: start_def fresh_host_def two_clips_def HES_ENGINE_SNITCH_def)
  have ok: "hes_failures (k_host s') = 0" using main_clean [OF ans fe net len init cl, of word_fpu] m by simp
  have io: "ieee_order word_fpu" by (simp add: ieee_order_def word_fpu_def)
  have run: "unat (RUN_CLIPS two_clips) = 2" by (simp add: RUN_CLIPS_def two_clips_def KWS_NUM_CLIPS_def)
  have p: "prediction word_fpu small_env 0 = 0" "prediction word_fpu small_env 1 = 1" by code_simp+
  have "hits word_fpu small_env (e_labels small_env) 2 = 2" "hits word_fpu small_env (e_reference small_env) 2 = 2"
    using p by (simp_all add: hits_def small_env_def numeral_2_eq_2)
  then have hit: "hits word_fpu small_env (e_labels small_env) 2 = 2" "hits word_fpu small_env (e_reference small_env) 2 = 2" .
  have fd: "feature_diff word_fpu small_env n i = fabsf (audio_at small_env (of_nat n))" if "i < 416" for n i
    using that by (simp add: feature_diff_def clip_features_def clip_job_def small_env_def word_fpu_def)
  have ad: "fabsf (audio_at small_env 0) = 0x00100000" "fabsf (audio_at small_env 1) = 0x00104200" by code_simp+
  have nn: "\<not> f_nan 0x00100000" by (simp add: f_nan_def)
  have two: "(\<forall>n < (2::nat). P n) \<longleftrightarrow> P 0 \<and> P 1" for P by (auto simp: numeral_2_eq_2 less_Suc_eq)
  note kr = kws_run_scores [OF fe net len h io m ok, unfolded run hit]
  have small: "\<forall>n < 2. \<forall>i < 416. feature_diff word_fpu small_env n i \<le> 0x3A83126F" unfolding two using fd ad by simp
  have pr: "\<forall>n < 2. prediction word_fpu small_env n = e_reference small_env (of_nat n)"
    unfolding two using p by (simp add: small_env_def)
  have "f_nan (feature_diff word_fpu small_env 0 0) \<or> feature_diff word_fpu small_env 0 0 \<le> k_maxdiff s'" using kr by simp
  then have "0x00100000 \<le> k_maxdiff s'" using fd [of 0 0] ad(1) nn by simp
  then have pos: "0 < k_maxdiff s'" by (simp add: word_less_nat_alt word_le_nat_alt)
  have "code = 0" using kr small pr by blast
  with m have m0: "kws_main word_fpu small_env two_clips start = (0, s')" by simp
  obtain x y a b d e where "console (k_host s') = x @ ''[HES-KWS] clips='' @ a @ '' correct='' @ b @ '' agree_with_onnx='' @ d
          @ '' mfcc_maxdiff_e6='' @ e @ '' cycles_total='' @ y" "read_dec a = 2" "read_dec b = 2" "read_dec d = 2"
    using conjunct1 [OF kr] by (elim exE conjE) (rule that)
  then show ?thesis by (intro exI conjI) (rule m0, assumption+, rule pos)
qed

end
