(* ===== verification/BenchMains.thy ===== *)
theory BenchMains
  imports Apps
begin

text \<open>
  The other host programs: digit recognition (\<open>runtime/mesh/mnist_main.c\<close>), one network against
  its expected outputs on the whole system (\<open>runtime/mesh/host_main.c\<close>) and on one core
  (\<open>runtime/common/bench_main.c\<close>). The generated network, its buffers and the test vectors are
  parameters.
\<close>

section \<open>Digits\<close>

definition MNIST_NUM_IMAGES :: u32 where "MNIST_NUM_IMAGES = 64"

definition RUN_IMAGES :: "u32 \<Rightarrow> u32" where
  "RUN_IMAGES samples = (if samples < MNIST_NUM_IMAGES then samples else MNIST_NUM_IMAGES)"

definition argmax10 :: "'a mfpu_scheme \<Rightarrow> u32 list \<Rightarrow> u32" where
  "argmax10 fp p = for_u32 1 10 (\<lambda>i best. if f_gt fp (p ! unat i) (p ! unat best) then i else best) 0"

record mnist_env =
  n_images :: "u32 \<Rightarrow> u32 list"
  n_labels :: "u32 \<Rightarrow> u32"
  n_reference :: "u32 \<Rightarrow> u32"
  n_in_words :: nat
  n_net :: "u32 list \<Rightarrow> u32 list"
  n_run :: "u32 \<Rightarrow> host \<Rightarrow> host"
  n_init :: "u32 \<Rightarrow> nat \<Rightarrow> mailbox"
  n_ready :: "u32 \<Rightarrow> mailbox"
  n_mcycle :: "nat \<Rightarrow> u64"

record mnist =
  m_host :: host
  m_in :: "u32 list"
  m_correct :: u32
  m_agree :: u32
  m_total_cycles :: u64
  m_reads :: nat

definition mnist_image :: "'a mfpu_scheme \<Rightarrow> mnist_env \<Rightarrow> u32 \<Rightarrow> u32 \<Rightarrow> mnist \<Rightarrow> mnist" where
  "mnist_image fp E run img s =
     (let h = hes_set_sample (img + 1) run (m_host s);
          x = copy_words (n_in_words E) (n_images E img) (m_in s);
          c0 = n_mcycle E (m_reads s);
          h = n_run E img h;
          c1 = n_mcycle E (m_reads s + 1);
          got = argmax10 fp (n_net E x)
      in s\<lparr>m_host := (if got = n_reference E img then h
             else does [say ''[HES-ERR] image '', say_u32 img, say '': chip says '', say_u32 got,
                        say '', onnxruntime says '', say_u32 (n_reference E img), say ''\<newline>''] h),
           m_in := x, m_total_cycles := m_total_cycles s + (c1 - c0), m_reads := m_reads s + 2,
           m_correct := (if got = n_labels E img then m_correct s + 1 else m_correct s),
           m_agree := (if got = n_reference E img then m_agree s + 1 else m_agree s)\<rparr>)"

definition mnist_main :: "'a mfpu_scheme \<Rightarrow> mnist_env \<Rightarrow> u32 \<Rightarrow> u32 list \<Rightarrow> host \<Rightarrow> u32 \<times> mnist" where
  "mnist_main fp E samples x h =
     (let run = RUN_IMAGES samples;
          h = report_absent (n_ready E) (hes_engine_init (n_init E) h);
          s = \<lparr>m_host = h, m_in = x, m_correct = 0, m_agree = 0, m_total_cycles = 0, m_reads = 0\<rparr>;
          s = for_u32 0 run (mnist_image fp E run) s;
          s = s\<lparr>m_host := does [say ''[HES-MNIST] images='', say_u32 run, say '' correct='', say_u32 (m_correct s),
                say '' agree_with_onnx='', say_u32 (m_agree s), say '' cycles_total='', say_u64 (m_total_cycles s),
                say '' cycles_per_image='', say_u64 (m_total_cycles s div ucast (if run \<noteq> 0 then run else 1)),
                say '' offload_failures='', say_u32 (hes_failures (m_host s)), say ''\<newline>''] (m_host s)\<rparr>
      in (if m_agree s = run \<and> hes_failures (m_host s) = 0 then 0 else 1, s))"

section \<open>One network against its expected outputs\<close>

text \<open>\<open>1e-4f\<close> is \<open>0x38D1B717\<close>; its negation has the sign bit set.\<close>

definition float_ok :: "'a mfpu_scheme \<Rightarrow> u32 \<Rightarrow> bool" where
  "float_ok fp diff = (f_gt fp diff 0xB8D1B717 \<and> f_gt fp 0x38D1B717 diff)"

text \<open>
  The outputs of a network, buffer by buffer, with what was expected of each; \<open>o_diff\<close> is
  \<open>(float)(expected - actual)\<close> in the output's type, \<open>o_ne0\<close> the test \<open>diff != 0.0f\<close>.
\<close>

record bench_env =
  o_float :: bool
  o_diff :: "u32 \<Rightarrow> u32 \<Rightarrow> u32"
  o_ne0 :: "u32 \<Rightarrow> bool"
  o_expected :: "u32 list list"
  o_net :: "u32 list list \<Rightarrow> u32 list list"
  o_in_words :: "nat list"
  o_test :: "u32 list list"
  o_run :: "host \<Rightarrow> host"
  o_init :: "u32 \<Rightarrow> nat \<Rightarrow> mailbox"
  o_ready :: "u32 \<Rightarrow> mailbox"
  o_mcycle :: "nat \<Rightarrow> u64"
  o_minstret :: "nat \<Rightarrow> u64"

record tally =
  t_tot :: u32
  t_errors :: u32
  t_maxdiff :: u32

definition load_inputs :: "bench_env \<Rightarrow> u32 list list \<Rightarrow> u32 list list" where
  "load_inputs E inp = fold (\<lambda>b inp. inp[b := copy_words (o_in_words E ! b) (o_test E ! b) (inp ! b)]) [0..<length inp] inp"

definition bad_output :: "'a mfpu_scheme \<Rightarrow> bench_env \<Rightarrow> u32 \<Rightarrow> bool" where
  "bad_output fp E diff = (if o_float E then \<not> float_ok fp diff else o_ne0 E diff)"

definition check_output :: "'a mfpu_scheme \<Rightarrow> bench_env \<Rightarrow> u32 list \<Rightarrow> u32 list \<Rightarrow> nat \<Rightarrow> tally \<Rightarrow> tally" where
  "check_output fp E expected actual i t =
     (let diff = o_diff E (expected ! i) (actual ! i);
          t = (if bad_output fp E diff then t\<lparr>t_errors := t_errors t + 1\<rparr> else t);
          ad = (if f_gt fp 0 diff then diff XOR 0x80000000 else diff)
      in if f_gt fp ad (t_maxdiff t) then t\<lparr>t_maxdiff := ad\<rparr> else t)"

definition check_outputs :: "'a mfpu_scheme \<Rightarrow> bench_env \<Rightarrow> u32 list list \<Rightarrow> tally \<Rightarrow> tally" where
  "check_outputs fp E ys = fold (\<lambda>b t.
     let n = length (ys ! b); t = t\<lparr>t_tot := t_tot t + of_nat n\<rparr>
     in fold (check_output fp E (o_expected E ! b) (ys ! b)) [0..<n] t) [0..<length ys]"

text \<open>The counters are read in the order cycles, instructions, around the run.\<close>

definition bench_main :: "'a hfpu_scheme \<Rightarrow> bench_env \<Rightarrow> string \<Rightarrow> u32 list list \<Rightarrow> host \<Rightarrow> u32 \<times> tally \<times> host" where
  "bench_main fp E core_name inp h =
     (let inp = load_inputs E inp; c0 = o_mcycle E 0; i0 = o_minstret E 0;
          ys = o_net E inp; h = o_run E h; c1 = o_mcycle E 1; i1 = o_minstret E 1;
          t = check_outputs fp E ys \<lparr>t_tot = 0, t_errors = 0, t_maxdiff = 0\<rparr>;
          h = does [say (''[HES] core='' @ core_name), say '' cycles='', say_u64 (c1 - c0), say '' instret='', say_u64 (i1 - i0),
                say '' errors='', say_u32 (t_errors t), say '' total='', say_u32 (t_tot t), say '' maxdiff_e6='',
                say_u64 (f_to_u64 fp (f_mul fp (t_maxdiff t) 0x49742400)), say ''\<newline>''] h
      in (if t_errors t = 0 then 0 else 1, t, h))"

definition host_main :: "'a hfpu_scheme \<Rightarrow> bench_env \<Rightarrow> u32 \<Rightarrow> u32 list list \<Rightarrow> host \<Rightarrow> u32 \<times> tally \<times> host" where
  "host_main fp E samples inp h =
     (let h = report_absent (o_ready E) (hes_engine_init (o_init E) h);
          inp = load_inputs E inp; h = hes_set_sample 1 samples h;
          c0 = o_mcycle E 0; i0 = o_minstret E 0;
          ys = o_net E inp; h = o_run E h; c1 = o_mcycle E 1; i1 = o_minstret E 1;
          t = check_outputs fp E ys \<lparr>t_tot = 0, t_errors = 0, t_maxdiff = 0\<rparr>;
          h = does [say ''[HES] core=hetero_soc cycles='', say_u64 (c1 - c0), say '' instret='', say_u64 (i1 - i0),
                say '' errors='', say_u32 (t_errors t), say '' total='', say_u32 (t_tot t), say '' maxdiff_e6='',
                say_u64 (f_to_u64 fp (f_mul fp (t_maxdiff t) 0x49742400)), say '' offload_failures='', say_u32 (hes_failures h),
                say ''\<newline>''] h
      in (if t_errors t = 0 \<and> hes_failures h = 0 then 0 else 1, t, h))"

section \<open>What the verdicts mean\<close>

definition mismatches :: "'a mfpu_scheme \<Rightarrow> bench_env \<Rightarrow> u32 list list \<Rightarrow> nat" where
  "mismatches fp E ys = (\<Sum>b \<leftarrow> [0..<length ys].
     length (filter (\<lambda>i. bad_output fp E (o_diff E (o_expected E ! b ! i) (ys ! b ! i))) [0..<length (ys ! b)]))"

lemma sum_lengths: "(\<Sum>b \<leftarrow> [0..<length ys]. length (ys ! b)) = sum_list (map length ys)"
proof -
  have "map (\<lambda>b. length (ys ! b)) [0..<length ys] = map length ys" by (rule nth_equalityI) simp_all
  then show ?thesis by simp
qed

lemma check_outputs_counts:
  "t_errors (check_outputs fp E ys t) = t_errors t + of_nat (mismatches fp E ys)"
  "t_tot (check_outputs fp E ys t) = t_tot t + of_nat (sum_list (map length ys))"
proof -
  have one: "t_errors (fold (check_output fp E x y) [0..<n] t)
      = t_errors t + of_nat (length (filter (\<lambda>i. bad_output fp E (o_diff E (x ! i) (y ! i))) [0..<n]))"
    "t_tot (fold (check_output fp E x y) [0..<n] t) = t_tot t" for x y n t
    by (induction n) (simp_all add: check_output_def Let_def)
  define f where "f = (\<lambda>b t. let n = length (ys ! b); t = t\<lparr>t_tot := t_tot t + of_nat n\<rparr>
     in fold (check_output fp E (o_expected E ! b) (ys ! b)) [0..<n] t)"
  have "t_errors (fold f bs t) = t_errors t + of_nat (\<Sum>b \<leftarrow> bs.
     length (filter (\<lambda>i. bad_output fp E (o_diff E (o_expected E ! b ! i) (ys ! b ! i))) [0..<length (ys ! b)]))"
    "t_tot (fold f bs t) = t_tot t + of_nat (\<Sum>b \<leftarrow> bs. length (ys ! b))" for bs
    by (induction bs arbitrary: t) (simp_all add: f_def Let_def one algebra_simps)
  moreover have "(\<Sum>b \<leftarrow> [0..<length ys]. length (ys ! b)) = sum_list (map length ys)"
    by (rule sum_lengths)
  ultimately show "t_errors (check_outputs fp E ys t) = t_errors t + of_nat (mismatches fp E ys)"
    "t_tot (check_outputs fp E ys t) = t_tot t + of_nat (sum_list (map length ys))"
    by (simp_all add: check_outputs_def mismatches_def f_def)
qed

lemma mismatches_le: "mismatches fp E ys \<le> sum_list (map length ys)"
proof -
  have "mismatches fp E ys \<le> (\<Sum>b \<leftarrow> [0..<length ys]. length (ys ! b))"
    unfolding mismatches_def by (rule sum_list_mono) (rule order_trans [OF length_filter_le], simp)
  moreover have "(\<Sum>b \<leftarrow> [0..<length ys]. length (ys ! b)) = sum_list (map length ys)"
    by (rule sum_lengths)
  ultimately show ?thesis by simp
qed

lemma mismatches_0:
  "mismatches fp E ys = 0 \<longleftrightarrow>
     (\<forall>b < length ys. \<forall>i < length (ys ! b). \<not> bad_output fp E (o_diff E (o_expected E ! b ! i) (ys ! b ! i)))"
  by (auto simp: mismatches_def filter_empty_conv)

text \<open>
  The verdict of \<open>host_main\<close>: with fewer than \<open>2^32\<close> outputs it returns 0 exactly when every output of
  the network on the test inputs is within tolerance and no offload failed.
\<close>

lemma host_main_verdict:
  assumes "host_main fp E samples inp h = (code, t, h')"
    and "sum_list (map length (o_net E (load_inputs E inp))) < 4294967296"
  shows "code = 0 \<longleftrightarrow> mismatches fp E (o_net E (load_inputs E inp)) = 0 \<and> hes_failures h' = 0"
    "unat (t_errors t) = mismatches fp E (o_net E (load_inputs E inp))"
    "unat (t_tot t) = sum_list (map length (o_net E (load_inputs E inp)))"
proof -
  let ?m = "mismatches fp E (o_net E (load_inputs E inp))" and ?n = "sum_list (map length (o_net E (load_inputs E inp)))"
  have m: "?m < 4294967296" using mismatches_le [of fp E "o_net E (load_inputs E inp)"] assms(2) by simp
  have t: "t_errors t = of_nat ?m" "t_tot t = of_nat ?n"
    using assms(1) by (auto simp: host_main_def Let_def check_outputs_counts)
  show u: "unat (t_errors t) = ?m" "unat (t_tot t) = ?n"
    unfolding t using m assms(2) by (simp_all only: unat_of_nat_small)
  have "code = (if t_errors t = 0 \<and> hes_failures h' = 0 then 0 else 1)"
    using assms(1) by (auto simp: host_main_def Let_def hes_failures_def)
  then show "code = 0 \<longleftrightarrow> ?m = 0 \<and> hes_failures h' = 0" using u(1) by (auto simp: unat_eq_zero [symmetric])
qed

lemma bench_main_verdict:
  assumes "bench_main fp E core inp h = (code, t, h')"
    and "sum_list (map length (o_net E (load_inputs E inp))) < 4294967296"
  shows "code = 0 \<longleftrightarrow> mismatches fp E (o_net E (load_inputs E inp)) = 0"
proof -
  let ?m = "mismatches fp E (o_net E (load_inputs E inp))"
  have m: "?m < 4294967296" using mismatches_le [of fp E "o_net E (load_inputs E inp)"] assms(2) by simp
  have t: "t_errors t = of_nat ?m" "code = (if t_errors t = 0 then 0 else 1)"
    using assms(1) by (auto simp: bench_main_def Let_def check_outputs_counts)
  have "unat (t_errors t) = ?m" unfolding t using m by (simp only: unat_of_nat_small)
  then show ?thesis using t(2) by (auto simp: unat_eq_zero [symmetric])
qed

text \<open>Digit recognition returns 0 exactly when the network agrees with the reference on every image and no offload failed.\<close>

lemma mnist_main_verdict:
  assumes "mnist_main fp E samples x h = (code, s)" and "\<forall>img. length (n_images E img) = n_in_words E" and "length x \<le> n_in_words E"
  defines "saw \<equiv> \<lambda>n. argmax10 fp (n_net E (n_images E (of_nat n)))"
  shows "code = 0 \<longleftrightarrow> (\<forall>n < unat (RUN_IMAGES samples). saw n = n_reference E (of_nat n)) \<and> hes_failures (m_host s) = 0"
    "m_correct s = of_nat (length (filter (\<lambda>n. saw n = n_labels E (of_nat n)) [0..<unat (RUN_IMAGES samples)]))"
proof -
  let ?r = "unat (RUN_IMAGES samples)"
  have run: "?r \<le> 64" by (simp add: RUN_IMAGES_def MNIST_NUM_IMAGES_def word_less_nat_alt)
  define s0 where "s0 = \<lparr>m_host = report_absent (n_ready E) (hes_engine_init (n_init E) h), m_in = x, m_correct = 0, m_agree = 0,
      m_total_cycles = 0, m_reads = 0\<rparr>"
  define f where "f = (\<lambda>i. mnist_image fp E (RUN_IMAGES samples) (of_nat i))"
  have step: "length (m_in (f i t)) \<le> n_in_words E \<and> m_correct (f i t) = m_correct t + of_bool (saw i = n_labels E (of_nat i))
      \<and> m_agree (f i t) = m_agree t + of_bool (saw i = n_reference E (of_nat i))" if "length (m_in t) \<le> n_in_words E" for i t
    using that assms(2) by (simp add: f_def mnist_image_def Let_def copy_words_def saw_def)
  have loop: "length (m_in (fold f [0..<k] s0)) \<le> n_in_words E
      \<and> m_correct (fold f [0..<k] s0) = of_nat (length (filter (\<lambda>n. saw n = n_labels E (of_nat n)) [0..<k]))
      \<and> m_agree (fold f [0..<k] s0) = of_nat (length (filter (\<lambda>n. saw n = n_reference E (of_nat n)) [0..<k]))" for k
  proof (induction k)
    case 0
    then show ?case using assms(3) by (simp add: s0_def)
  next
    case (Suc k)
    then show ?case using step [of "fold f [0..<k] s0" k] by simp
  qed
  let ?hit = "filter (\<lambda>n. saw n = n_reference E (of_nat n)) [0..<?r]"
  have r: "m_agree s = of_nat (length ?hit)" "m_correct s = of_nat (length (filter (\<lambda>n. saw n = n_labels E (of_nat n)) [0..<?r]))"
    "code = (if m_agree s = RUN_IMAGES samples \<and> hes_failures (m_host s) = 0 then 0 else 1)"
    using assms(1) loop [of ?r] by (auto simp: mnist_main_def Let_def for_u32_zero s0_def [symmetric] f_def [symmetric])
  then show "m_correct s = of_nat (length (filter (\<lambda>n. saw n = n_labels E (of_nat n)) [0..<?r]))" by simp
  have "length ?hit \<le> ?r" using length_filter_le [of _ "[0..<?r]"] by simp
  then have "unat (of_nat (length ?hit) :: u32) = length ?hit" using run by (intro unat_of_nat_small) simp
  then have "m_agree s = RUN_IMAGES samples \<longleftrightarrow> length ?hit = ?r" unfolding r(1) by (auto simp: word_unat_eq_iff)
  moreover have "length ?hit = ?r \<longleftrightarrow> (\<forall>n < ?r. saw n = n_reference E (of_nat n))"
    using length_filter_less [of _ "[0..<?r]" "\<lambda>n. saw n = n_reference E (of_nat n)"]
    by auto (metis atLeast0LessThan diff_zero length_upt lessThan_iff less_irrefl set_upt)
  ultimately show "code = 0 \<longleftrightarrow> (\<forall>n < ?r. saw n = n_reference E (of_nat n)) \<and> hes_failures (m_host s) = 0"
    using r(3) by auto
qed

end
