(* ===== verification/SignIn.thy ===== *)
theory SignIn
  imports Mailbox
begin

text \<open>
  How a cluster signs in, the start of \<open>main\<close> in \<open>runtime/mesh/cluster_main.c\<close>. Every core runs the
  same code up to the job loop; its accesses to the mailbox are single steps, an \<open>|=\<close> is a load and
  a store, and the cores interleave as they like between the hardware barriers.
\<close>

section \<open>The cores\<close>

text \<open>One access: a store that does not depend on what was read, the load of \<open>alive_mask\<close>, or the store of what was loaded with one bit more.\<close>

datatype access = Put "mailbox \<Rightarrow> mailbox" | LoadAlive | StoreAlive u32

text \<open>
  What a core does before its \<open>r\<close>-th barrier: the control core clears the mailbox before the first,
  core \<open>i\<close> sets its bit in turn \<open>i\<close> of the loop, which ends in a barrier for everybody, and the
  control core publishes the magic number before the last.
\<close>

definition sign_code :: "cluster_cfg \<Rightarrow> nat \<Rightarrow> nat \<Rightarrow> access list" where
  "sign_code cfg core r =
     (let nb = unat (my_nb_core cfg); ctrl = unat (my_ctrl_core cfg)
      in if r = 0 then
           (if core = ctrl then [Put (\<lambda>b. b\<lparr>mb_alive_mask := 0\<rparr>), Put (\<lambda>b. b\<lparr>mb_trap_cause := 0\<rparr>),
              Put (\<lambda>b. b\<lparr>mb_done_seq := 0\<rparr>), Put (\<lambda>b. b\<lparr>mb_seq := 0\<rparr>)] else [])
         else if r \<le> nb then (if r - 1 = core then [LoadAlive, StoreAlive (push_bit core 1)] else [])
         else if r = nb + 1 then
           (if core = ctrl then [Put (\<lambda>b. b\<lparr>mb_nb_cores := my_nb_core cfg\<rparr>), Put (\<lambda>b. b\<lparr>mb_magic := HES_MBOX_MAGIC\<rparr>)] else [])
         else [])"

text \<open>A core: barriers passed, accesses left before the next, and the register the load went to.\<close>

record core_state =
  co_round :: nat
  co_rest :: "access list"
  co_tmp :: u32

record sign_state =
  si_mbox :: mailbox
  si_core :: "nat \<Rightarrow> core_state"

fun do_access :: "access \<Rightarrow> mailbox \<times> u32 \<Rightarrow> mailbox \<times> u32" where
  "do_access (Put f) (b, t) = (f b, t)"
| "do_access LoadAlive (b, t) = (b, mb_alive_mask b)"
| "do_access (StoreAlive v) (b, t) = (b\<lparr>mb_alive_mask := t OR v\<rparr>, t)"

definition sign_start :: "cluster_cfg \<Rightarrow> mailbox \<Rightarrow> sign_state" where
  "sign_start cfg b = \<lparr>si_mbox = b, si_core = (\<lambda>k. \<lparr>co_round = 0, co_rest = sign_code cfg k 0, co_tmp = 0\<rparr>)\<rparr>"

text \<open>The barrier register answers core \<open>k\<close> once every core has reached the same barrier.\<close>

definition hes_barrier :: "cluster_cfg \<Rightarrow> sign_state \<Rightarrow> nat \<Rightarrow> bool" where
  "hes_barrier cfg s k \<longleftrightarrow> (\<forall>j < unat (my_nb_core cfg). co_round (si_core s k) < co_round (si_core s j)
     \<or> co_round (si_core s j) = co_round (si_core s k) \<and> co_rest (si_core s j) = [])"

inductive sign_step :: "cluster_cfg \<Rightarrow> sign_state \<Rightarrow> sign_state \<Rightarrow> bool" for cfg where
  access: "k < unat (my_nb_core cfg) \<Longrightarrow> co_rest (si_core s k) = a # as
     \<Longrightarrow> do_access a (si_mbox s, co_tmp (si_core s k)) = (b, t)
     \<Longrightarrow> sign_step cfg s (s\<lparr>si_mbox := b, si_core := (si_core s)(k := (si_core s k)\<lparr>co_rest := as, co_tmp := t\<rparr>)\<rparr>)"
| barrier: "k < unat (my_nb_core cfg) \<Longrightarrow> co_rest (si_core s k) = [] \<Longrightarrow> co_round (si_core s k) < unat (my_nb_core cfg) + 2
     \<Longrightarrow> hes_barrier cfg s k
     \<Longrightarrow> sign_step cfg s (s\<lparr>si_core := (si_core s)(k := (si_core s k)\<lparr>co_round := co_round (si_core s k) + 1,
           co_rest := sign_code cfg k (co_round (si_core s k) + 1)\<rparr>)\<rparr>)"

abbreviation signing :: "cluster_cfg \<Rightarrow> mailbox \<Rightarrow> sign_state \<Rightarrow> bool" where
  "signing cfg b s \<equiv> (sign_step cfg)\<^sup>*\<^sup>* (sign_start cfg b) s"

section \<open>One core at a time\<close>

text \<open>The only core with something to do in a round, and the mailbox when that is done.\<close>

definition turn :: "cluster_cfg \<Rightarrow> nat \<Rightarrow> nat" where
  "turn cfg r = (if r = 0 \<or> r = unat (my_nb_core cfg) + 1 then unat (my_ctrl_core cfg) else r - 1)"

definition runs :: "access list \<Rightarrow> mailbox \<times> u32 \<Rightarrow> mailbox" where
  "runs as bt = fst (fold do_access as bt)"

fun after_rounds :: "cluster_cfg \<Rightarrow> mailbox \<Rightarrow> nat \<Rightarrow> mailbox" where
  "after_rounds cfg b 0 = b"
| "after_rounds cfg b (Suc r) = runs (sign_code cfg (turn cfg r) r) (after_rounds cfg b r, 0)"

lemma sign_code_other: "k \<noteq> turn cfg r \<Longrightarrow> sign_code cfg k r = []"
  unfolding sign_code_def turn_def Let_def by (cases "r = 0"; cases "r = unat (my_nb_core cfg) + 1") auto

lemma runs_tmp: "runs (sign_code cfg k r) (b, t) = runs (sign_code cfg k r) (b, t')"
  by (simp add: sign_code_def runs_def Let_def)

lemma runs_simps [simp]: "runs [] (b, t) = b" "runs (a # as) bt = runs as (do_access a bt)"
  by (simp_all add: runs_def)

text \<open>
  With \<open>R\<close> the furthest round: every core is in it or waits at the barrier before it; a core that is
  not at its turn has nothing left; and what the one at its turn has left leads to the mailbox after
  the round, or, while that core has not arrived, the mailbox is that of the rounds before.
\<close>

definition sign_inv :: "cluster_cfg \<Rightarrow> mailbox \<Rightarrow> nat \<Rightarrow> sign_state \<Rightarrow> bool" where
  "sign_inv cfg b R s \<longleftrightarrow> R \<le> unat (my_nb_core cfg) + 2
     \<and> (\<forall>k < unat (my_nb_core cfg). co_round (si_core s k) = R \<and> (k \<noteq> turn cfg R \<longrightarrow> co_rest (si_core s k) = [])
          \<or> co_round (si_core s k) + 1 = R \<and> co_rest (si_core s k) = [])
     \<and> (if turn cfg R < unat (my_nb_core cfg) \<and> co_round (si_core s (turn cfg R)) = R
        then runs (co_rest (si_core s (turn cfg R))) (si_mbox s, co_tmp (si_core s (turn cfg R))) = after_rounds cfg b (R + 1)
          \<and> (\<exists>p. sign_code cfg (turn cfg R) R = p @ co_rest (si_core s (turn cfg R)))
        else si_mbox s = after_rounds cfg b R)
     \<and> (mb_magic (si_mbox s) = mb_magic b \<or> R = unat (my_nb_core cfg) + 2
        \<or> R = unat (my_nb_core cfg) + 1 \<and> co_round (si_core s (turn cfg R)) = R \<and> co_rest (si_core s (turn cfg R)) = [])"

lemma access_magic:
  assumes "sign_code cfg k r = p @ a # as" and "do_access a (m, t) = (m', t')"
  shows "mb_magic m' = mb_magic m \<or> as = [] \<and> r = unat (my_nb_core cfg) + 1"
  using assms by (auto simp: sign_code_def Let_def append_eq_Cons_conv Cons_eq_append_conv split: if_splits)

lemma turn_lt: "unat (my_ctrl_core cfg) < unat (my_nb_core cfg) \<Longrightarrow> r \<le> unat (my_nb_core cfg) + 2 \<Longrightarrow>
    turn cfg r < unat (my_nb_core cfg) \<longleftrightarrow> r \<noteq> unat (my_nb_core cfg) + 2"
  by (auto simp: turn_def)

lemma sign_inv_start:
  assumes "unat (my_ctrl_core cfg) < unat (my_nb_core cfg)"
  shows "sign_inv cfg b 0 (sign_start cfg b)"
  using assms sign_code_other by (auto simp: sign_inv_def sign_start_def turn_lt)

lemma sign_inv_access:
  assumes inv: "sign_inv cfg b R s" and k: "k < unat (my_nb_core cfg)" and rest: "co_rest (si_core s k) = a # as"
    and a: "do_access a (si_mbox s, co_tmp (si_core s k)) = (m, t)"
  shows "sign_inv cfg b R (s\<lparr>si_mbox := m, si_core := (si_core s)(k := (si_core s k)\<lparr>co_rest := as, co_tmp := t\<rparr>)\<rparr>)"
proof -
  have kt: "k = turn cfg R" "co_round (si_core s k) = R" using inv k rest by (auto simp: sign_inv_def)
  then obtain p where p: "sign_code cfg k R = p @ a # as" and r: "runs (a # as) (si_mbox s, co_tmp (si_core s k)) = after_rounds cfg b (R + 1)"
    using inv k rest by (auto simp: sign_inv_def)
  have "runs as (m, t) = after_rounds cfg b (R + 1)" using r a by simp
  moreover have "\<exists>p. sign_code cfg k R = p @ as" using p by (intro exI [of _ "p @ [a]"]) simp
  moreover have "R \<noteq> unat (my_nb_core cfg) + 2" using k kt by (auto simp: turn_def split: if_splits)
  moreover have "mb_magic m = mb_magic (si_mbox s) \<or> as = [] \<and> R = unat (my_nb_core cfg) + 1" by (rule access_magic [OF p a])
  ultimately show ?thesis using inv kt k rest by (auto simp: sign_inv_def)
qed

lemma sign_inv_barrier:
  assumes ctrl: "unat (my_ctrl_core cfg) < unat (my_nb_core cfg)"
    and inv: "sign_inv cfg b R s" and k: "k < unat (my_nb_core cfg)" and rest: "co_rest (si_core s k) = []"
    and r: "co_round (si_core s k) < unat (my_nb_core cfg) + 2"
    and all: "hes_barrier cfg s k"
  shows "\<exists>R'. sign_inv cfg b R' (s\<lparr>si_core := (si_core s)(k := (si_core s k)\<lparr>co_round := co_round (si_core s k) + 1,
           co_rest := sign_code cfg k (co_round (si_core s k) + 1)\<rparr>)\<rparr>)"
proof -
  let ?nb = "unat (my_nb_core cfg)"
  let ?s = "s\<lparr>si_core := (si_core s)(k := (si_core s k)\<lparr>co_round := co_round (si_core s k) + 1,
           co_rest := sign_code cfg k (co_round (si_core s k) + 1)\<rparr>)\<rparr>"
  have cores: "co_round (si_core s j) = R \<and> (j \<noteq> turn cfg R \<longrightarrow> co_rest (si_core s j) = [])
          \<or> co_round (si_core s j) + 1 = R \<and> co_rest (si_core s j) = []" if "j < ?nb" for j
    using inv that by (simp add: sign_inv_def)
  have magic: "mb_magic (si_mbox s) = mb_magic b \<or> R = ?nb + 2
        \<or> R = ?nb + 1 \<and> co_round (si_core s (turn cfg R)) = R \<and> co_rest (si_core s (turn cfg R)) = []"
    using inv by (simp add: sign_inv_def)
  have Rle: "R \<le> ?nb + 2" using inv by (simp add: sign_inv_def)
  note tl = turn_lt [OF ctrl]
  show ?thesis
  proof (cases "co_round (si_core s k) = R")
    case True
    have arrived: "co_round (si_core s j) = R" "co_rest (si_core s j) = []" if "j < ?nb" for j
      using cores [OF that] all that True unfolding hes_barrier_def by auto
    have R: "R < ?nb + 2" using r True by simp
    have t: "turn cfg R < ?nb" using tl R by simp
    have m: "si_mbox s = after_rounds cfg b (R + 1)"
      using inv t arrived [OF t] by (simp add: sign_inv_def)
    have "sign_inv cfg b (R + 1) ?s"
      using R arrived True m magic tl [of "R + 1"] sign_code_other [of k cfg "R + 1"] runs_tmp [of cfg k "R + 1" _ _ 0] t
      by (auto simp: sign_inv_def)
    then show ?thesis ..
  next
    case False
    then have R1: "co_round (si_core s k) + 1 = R" using cores [OF k] by auto
    have m: "turn cfg R = k \<Longrightarrow> si_mbox s = after_rounds cfg b R" using inv False by (auto simp: sign_inv_def)
    have "sign_inv cfg b R ?s"
    proof (cases "turn cfg R = k")
      case True
      have "mb_magic (si_mbox s) = mb_magic b \<or> R = ?nb + 2" using magic False unfolding True by auto
      then show ?thesis
        using cores Rle R1 m [OF True] True k runs_tmp [of cfg k R _ _ 0] unfolding sign_inv_def by (auto simp: True)
    next
      case no: False
      then have "sign_code cfg k R = []" using sign_code_other by metis
      then show ?thesis using inv R1 no unfolding sign_inv_def by (auto simp: no)
    qed
    then show ?thesis ..
  qed
qed

lemma sign_inv_reach:
  assumes "unat (my_ctrl_core cfg) < unat (my_nb_core cfg)" and "signing cfg b s"
  shows "\<exists>R. sign_inv cfg b R s"
  using assms(2)
proof (induction rule: rtranclp_induct)
  case base
  show ?case using sign_inv_start [OF assms(1)] by blast
next
  case (step s s')
  then obtain R where R: "sign_inv cfg b R s" by blast
  from step.hyps(2) show ?case
  proof cases
    case (access k a as m t)
    then show ?thesis using sign_inv_access [OF R] by blast
  next
    case (barrier k)
    then show ?thesis using sign_inv_barrier [OF assms(1) R, of k] by simp
  qed
qed

section \<open>What the mailbox says at the end\<close>

lemma or_bit_mask: "mask i OR 2 ^ i = (mask (Suc i) :: u32)"
  by (simp add: mask_Suc_exp or.commute)

definition signed_in :: "cluster_cfg \<Rightarrow> mailbox \<Rightarrow> mailbox" where
  "signed_in cfg b = b\<lparr>mb_alive_mask := mask (unat (my_nb_core cfg)), mb_trap_cause := 0, mb_done_seq := 0, mb_seq := 0,
     mb_nb_cores := my_nb_core cfg, mb_magic := HES_MBOX_MAGIC\<rparr>"

lemma after_turns:
  "i \<le> unat (my_nb_core cfg) \<Longrightarrow>
     after_rounds cfg b (Suc i) = b\<lparr>mb_alive_mask := mask i, mb_trap_cause := 0, mb_done_seq := 0, mb_seq := 0\<rparr>"
proof (induction i)
  case 0
  show ?case by (simp add: sign_code_def turn_def)
next
  case (Suc i)
  then have "turn cfg (Suc i) = i" "sign_code cfg i (Suc i) = [LoadAlive, StoreAlive (push_bit i 1)]"
    by (simp_all add: turn_def sign_code_def)
  then show ?case using Suc by (simp add: or_bit_mask)
qed

lemma after_all: "after_rounds cfg b (unat (my_nb_core cfg) + 2) = signed_in cfg b"
proof -
  let ?n = "unat (my_nb_core cfg)"
  have "turn cfg (Suc ?n) = unat (my_ctrl_core cfg)" by (simp add: turn_def)
  moreover have "after_rounds cfg b (?n + 2) = runs (sign_code cfg (turn cfg (Suc ?n)) (Suc ?n)) (after_rounds cfg b (Suc ?n), 0)"
    by (simp add: numeral_2_eq_2)
  ultimately show ?thesis
    unfolding after_turns [OF order_refl] by (simp add: sign_code_def signed_in_def)
qed

text \<open>The accesses and barriers still to come.\<close>

definition work_left :: "cluster_cfg \<Rightarrow> sign_state \<Rightarrow> nat" where
  "work_left cfg s = (\<Sum>k < unat (my_nb_core cfg).
     5 * (unat (my_nb_core cfg) + 2 - co_round (si_core s k)) + length (co_rest (si_core s k)))"

lemma sign_code_length: "length (sign_code cfg k r) \<le> 4"
  by (simp add: sign_code_def Let_def)

lemma sum_one_less:
  fixes f g :: "nat \<Rightarrow> nat"
  assumes "k < n" and "g k < f k" and "\<And>j. j \<noteq> k \<Longrightarrow> g j = f j"
  shows "(\<Sum>j<n. g j) < (\<Sum>j<n. f j)"
proof (rule sum_strict_mono_ex1)
  show "\<forall>j\<in>{..<n}. g j \<le> f j" using assms by (metis nat_less_le order_refl)
  show "\<exists>j\<in>{..<n}. g j < f j" using assms by auto
qed simp

lemma step_works: "sign_step cfg s s' \<Longrightarrow> work_left cfg s' < work_left cfg s"
proof (induction rule: sign_step.induct)
  case (access k s a as b t)
  then show ?case unfolding work_left_def by (intro sum_one_less [of k]) simp_all
next
  case (barrier k s)
  then show ?case unfolding work_left_def
    using sign_code_length [of cfg k "co_round (si_core s k) + 1"] by (intro sum_one_less [of k]) simp_all
qed

text \<open>While some core has not passed the last barrier, some core can go on.\<close>

lemma sign_progress:
  assumes "j < unat (my_nb_core cfg)" and "co_round (si_core s j) < unat (my_nb_core cfg) + 2"
  shows "\<exists>s'. sign_step cfg s s'"
proof (cases "\<exists>k < unat (my_nb_core cfg). co_rest (si_core s k) \<noteq> []")
  case True
  then obtain k a as where k: "k < unat (my_nb_core cfg)" "co_rest (si_core s k) = a # as" by (metis neq_Nil_conv)
  obtain b t where "do_access a (si_mbox s, co_tmp (si_core s k)) = (b, t)" by fastforce
  from sign_step.access [OF k this] show ?thesis by blast
next
  case False
  define k where "k = arg_min_on (\<lambda>k. co_round (si_core s k)) {..<unat (my_nb_core cfg)}"
  have ne: "{..<unat (my_nb_core cfg)} \<noteq> {}" using assms(1) by auto
  have k: "k < unat (my_nb_core cfg)" using arg_min_if_finite(1) [OF finite_lessThan ne] by (simp add: k_def)
  have le: "co_round (si_core s k) \<le> co_round (si_core s i)" if "i < unat (my_nb_core cfg)" for i
    unfolding k_def by (rule arg_min_least [OF finite_lessThan ne]) (use that in simp)
  have "sign_step cfg s (s\<lparr>si_core := (si_core s)(k := (si_core s k)\<lparr>co_round := co_round (si_core s k) + 1,
           co_rest := sign_code cfg k (co_round (si_core s k) + 1)\<rparr>)\<rparr>)"
  proof (rule sign_step.barrier [OF k])
    show "co_rest (si_core s k) = []" using False k by blast
    show "co_round (si_core s k) < unat (my_nb_core cfg) + 2" using le [OF assms(1)] assms(2) by linarith
    show "hes_barrier cfg s k" using le False unfolding hes_barrier_def by fastforce
  qed
  then show ?thesis by blast
qed

lemma sign_in_ends: "\<exists>s'. (sign_step cfg)\<^sup>*\<^sup>* s s' \<and> (\<forall>t. \<not> sign_step cfg s' t)"
proof (induction "work_left cfg s" arbitrary: s rule: less_induct)
  case less
  show ?case
  proof (cases "\<exists>t. sign_step cfg s t")
    case True
    then obtain t where t: "sign_step cfg s t" by blast
    from less [OF step_works [OF t]] show ?thesis using t by (meson converse_rtranclp_into_rtranclp)
  qed blast
qed

text \<open>
  C18. Signing in. In every interleaving of the cores' accesses, as soon as the magic number can be
  read the mailbox says exactly that all cores are alive, none lost to a race on \<open>alive_mask\<close>, and
  that no job was posted or answered and no trap taken; a run that cannot go on has published the
  magic number; and no run goes on for ever.
\<close>

theorem sign_in_complete:
  assumes "unat (my_ctrl_core cfg) < unat (my_nb_core cfg)" and "mb_magic b \<noteq> HES_MBOX_MAGIC" and "signing cfg b s"
  shows "(mb_magic (si_mbox s) = HES_MBOX_MAGIC \<longrightarrow> si_mbox s = signed_in cfg b)
    \<and> ((\<forall>s'. \<not> sign_step cfg s s') \<longrightarrow> mb_magic (si_mbox s) = HES_MBOX_MAGIC)
    \<and> (\<forall>s'. sign_step cfg s s' \<longrightarrow> work_left cfg s' < work_left cfg s)"
proof (intro conjI impI allI)
  let ?nb = "unat (my_nb_core cfg)"
  obtain R where inv: "sign_inv cfg b R s" using sign_inv_reach [OF assms(1,3)] by blast
  have fin: "si_mbox s = signed_in cfg b" if "R = ?nb + 2"
    using inv that turn_lt [OF assms(1), of R] after_all [of cfg b] by (simp add: sign_inv_def)
  show "si_mbox s = signed_in cfg b" if "mb_magic (si_mbox s) = HES_MBOX_MAGIC"
  proof (cases "R = ?nb + 2")
    case False
    then have "R = ?nb + 1" "co_round (si_core s (turn cfg R)) = R" "co_rest (si_core s (turn cfg R)) = []"
      using inv assms(2) that by (auto simp: sign_inv_def)
    then show ?thesis using inv turn_lt [OF assms(1), of R] after_all [of cfg b] by (auto simp: sign_inv_def)
  qed (rule fin)
  show "mb_magic (si_mbox s) = HES_MBOX_MAGIC" if "\<forall>s'. \<not> sign_step cfg s s'"
  proof -
    have "?nb + 2 \<le> co_round (si_core s (unat (my_ctrl_core cfg)))"
      using sign_progress [OF assms(1), of s] that by (meson not_le)
    then have "R = ?nb + 2" using inv assms(1) by (auto simp: sign_inv_def)
    then show ?thesis using fin by (simp add: signed_in_def)
  qed
  show "work_left cfg s' < work_left cfg s" if "sign_step cfg s s'" for s'
    using that by (rule step_works)
qed

text \<open>The nine cores of the Snitch cluster, from a mailbox full of ones.\<close>

definition junk_mbox :: mailbox where
  "junk_mbox = \<lparr>mb_magic = 1, mb_alive_mask = 1, mb_seq = 1, mb_kernel_id = 1, mb_nargs = 1, mb_done_seq = 1, mb_cycles = 1,
     mb_trap_cause = 1, mb_nb_cores = 1, mb_flags = 1, mb_staged = 1, mb_error = 1, mb_args = replicate 16 1, mb_probe = replicate 16 1\<rparr>"

theorem sign_in_complete_witness:
  "\<exists>s. signing snitch_cfg junk_mbox s \<and> mb_magic (si_mbox s) = HES_MBOX_MAGIC \<and> mb_alive_mask (si_mbox s) = 0x1ff
     \<and> mb_seq (si_mbox s) = mb_done_seq (si_mbox s)"
proof -
  obtain s where s: "signing snitch_cfg junk_mbox s" "\<forall>t. \<not> sign_step snitch_cfg s t" using sign_in_ends by blast
  have c: "unat (my_ctrl_core snitch_cfg) < unat (my_nb_core snitch_cfg)" by (simp add: snitch_cfg_def)
  have m: "mb_magic junk_mbox \<noteq> HES_MBOX_MAGIC" by (simp add: junk_mbox_def HES_MBOX_MAGIC_def)
  have "mask (unat (my_nb_core snitch_cfg)) = (0x1ff :: u32)" by (simp add: snitch_cfg_def mask_eq_exp_minus_1)
  moreover have "si_mbox s = signed_in snitch_cfg junk_mbox" "mb_magic (si_mbox s) = HES_MBOX_MAGIC"
    using sign_in_complete [OF c m s(1)] s(2) by blast+
  ultimately show ?thesis using s(1) by (intro exI [of _ s]) (simp add: signed_in_def)
qed

end
