(* ===== verification/ParamsIo.thy ===== *)
theory ParamsIo
  imports DramCore Console
begin

text \<open>
  The parameter files of the command-line tools, \<open>tools/dram/params_io.hpp\<close>: the scanner of flat
  JSON objects and the loader of the timing engine's parameters.
\<close>

section \<open>The scanner\<close>

definition isspace :: "char \<Rightarrow> bool" where
  "isspace c = (c = CHR 0x20 \<or> 9 \<le> (of_char c :: nat) \<and> (of_char c :: nat) \<le> 13)"

definition isdigit :: "char \<Rightarrow> bool" where
  "isdigit c = (48 \<le> (of_char c :: nat) \<and> (of_char c :: nat) \<le> 57)"

definition isalnum :: "char \<Rightarrow> bool" where
  "isalnum c = (let n = of_char c :: nat in isdigit c \<or> 65 \<le> n \<and> n \<le> 90 \<or> 97 \<le> n \<and> n \<le> 122)"

text \<open>
  The text from the read position on stands for the position. Where no closing quote follows, \<open>find\<close>
  returns \<open>npos\<close>, the string runs to the end and \<open>i = j + 1\<close> is 0: scanning starts again with the
  whole text \<open>s\<close>.
\<close>

definition json_skip :: "string \<Rightarrow> string" where
  "json_skip = dropWhile (\<lambda>c. isspace c \<or> c = CHR '','' \<or> c = CHR ''{'' \<or> c = CHR ''}'')"

definition json_colon :: "string \<Rightarrow> string" where
  "json_colon = dropWhile (\<lambda>c. isspace c \<or> c = CHR '':'')"

definition bare_char :: "char \<Rightarrow> bool" where
  "bare_char c = (isalnum c \<or> c = CHR ''-'' \<or> c = CHR ''.'')"

definition at_quote :: "string \<Rightarrow> bool" where
  "at_quote cs = (cs \<noteq> [] \<and> hd cs = CHR 0x22)"

definition json_str :: "string \<Rightarrow> string \<Rightarrow> string \<times> string" where
  "json_str s cs =
     (let r = tl cs; v = takeWhile (\<lambda>c. c \<noteq> CHR 0x22) r; r = dropWhile (\<lambda>c. c \<noteq> CHR 0x22) r
      in (v, if r = [] then s else tl r))"

definition expected_string :: "string \<Rightarrow> string" where
  "expected_string path = path @ '': expected a string''"

partial_function (option) json_loop ::
    "string \<Rightarrow> string \<Rightarrow> string \<Rightarrow> (string \<Rightarrow> string option) \<Rightarrow> (string + (string \<Rightarrow> string option)) option" where
  "json_loop path s cs out =
     (let cs = json_skip cs
      in if cs = [] then Some (Inr out)
         else if \<not> at_quote cs then Some (Inl (expected_string path))
         else let key = fst (json_str s cs); cs = json_colon (snd (json_str s cs))
              in if at_quote cs then json_loop path s (snd (json_str s cs)) (out(key \<mapsto> fst (json_str s cs)))
                 else json_loop path s (dropWhile bare_char cs) (out(key \<mapsto> takeWhile bare_char cs)))"

text \<open>\<open>None\<close> for a file that cannot be opened.\<close>

definition read_flat_json :: "string \<Rightarrow> string option \<Rightarrow> (string + (string \<Rightarrow> string option)) option" where
  "read_flat_json path file =
     (case file of None \<Rightarrow> Some (Inl (''cannot open '' @ path)) | Some s \<Rightarrow> json_loop path s s (\<lambda>_. None))"

section \<open>The loader\<close>

text \<open>\<open>std::stoll\<close>: blanks, a sign, the digits that follow; no digit and a value out of range throw.\<close>

definition stoll :: "string \<Rightarrow> string + int" where
  "stoll v =
     (let v = dropWhile isspace v;
          neg = (v \<noteq> [] \<and> hd v = CHR ''-'');
          ds = takeWhile isdigit (if v \<noteq> [] \<and> (hd v = CHR ''-'' \<or> hd v = CHR ''+'') then tl v else v);
          n = int (val_of 10 (map (\<lambda>c. of_char c - 48) ds)); n = (if neg then - n else n)
      in if ds = [] \<or> n < - (2 ^ 63) \<or> 2 ^ 63 \<le> n then Inl ''stoll'' else Inr n)"

definition load_int :: "(string \<Rightarrow> string option) \<Rightarrow> int_field \<Rightarrow> string + params \<Rightarrow> string + params" where
  "load_int kv f r =
     (case r of Inl e \<Rightarrow> Inl e
      | Inr p \<Rightarrow> (case f of (name, get, upd) \<Rightarrow>
          (case kv name of None \<Rightarrow> Inr p
           | Some v \<Rightarrow> if v = ''true'' then Inr (upd (\<lambda>_. 1) p) else if v = ''false'' then Inr (upd (\<lambda>_. 0) p)
                       else (case stoll v of Inl e \<Rightarrow> Inl e | Inr n \<Rightarrow> Inr (upd (\<lambda>_. n) p)))))"

definition load_str :: "(string \<Rightarrow> string option) \<Rightarrow> str_field \<Rightarrow> params \<Rightarrow> params" where
  "load_str kv f p = (case f of (name, get, upd) \<Rightarrow> (case kv name of None \<Rightarrow> p | Some v \<Rightarrow> upd (\<lambda>_. v) p))"

definition load_params :: "string \<Rightarrow> string option \<Rightarrow> (string + params) option" where
  "load_params path file =
     (case read_flat_json path file of
        None \<Rightarrow> None
      | Some (Inl e) \<Rightarrow> Some (Inl e)
      | Some (Inr kv) \<Rightarrow>
          Some (case fold (load_int kv) int_fields (Inr default_params) of
                  Inl e \<Rightarrow> Inl e | Inr p \<Rightarrow> Inr (fold (load_str kv) str_fields p)))"

section \<open>Texts the scanner reads\<close>

text \<open>A flat object as any writer may lay it out: blanks, commas and braces before each key, blanks and colons after it.\<close>

datatype jvalue = Quoted string | Bare string

fun show_value :: "jvalue \<Rightarrow> string" where
  "show_value (Quoted v) = CHR 0x22 # v @ [CHR 0x22]"
| "show_value (Bare v) = v"

fun raw :: "jvalue \<Rightarrow> string" where
  "raw (Quoted v) = v"
| "raw (Bare v) = v"

definition show_entry :: "(string \<times> string) \<times> (string \<times> jvalue) \<Rightarrow> string" where
  "show_entry e = (case e of ((sep, col), (k, v)) \<Rightarrow> sep @ CHR 0x22 # k @ CHR 0x22 # col @ show_value v)"

definition flat_json :: "((string \<times> string) \<times> (string \<times> jvalue)) list \<Rightarrow> string \<Rightarrow> string" where
  "flat_json es close = concat (map show_entry es) @ close"

definition sep_char :: "char \<Rightarrow> bool" where
  "sep_char c = (isspace c \<or> c = CHR '','' \<or> c = CHR ''{'' \<or> c = CHR ''}'')"

definition col_char :: "char \<Rightarrow> bool" where
  "col_char c = (isspace c \<or> c = CHR '':'')"

fun value_ok :: "jvalue \<Rightarrow> bool" where
  "value_ok (Quoted v) = (CHR 0x22 \<notin> set v)"
| "value_ok (Bare v) = (v \<noteq> [] \<and> list_all bare_char v)"

definition entry_ok :: "(string \<times> string) \<times> (string \<times> jvalue) \<Rightarrow> bool" where
  "entry_ok e = (case e of ((sep, col), (k, v)) \<Rightarrow>
     list_all sep_char sep \<and> list_all col_char col \<and> CHR 0x22 \<notin> set k \<and> value_ok v)"

lemma drop_all: "list_all P xs \<Longrightarrow> dropWhile P (xs @ ys) = dropWhile P ys"
  by (induction xs) auto

lemma take_all: "list_all P xs \<Longrightarrow> takeWhile P (xs @ ys) = xs @ takeWhile P ys"
  by (induction xs) auto

lemma char_classes:
  "isspace CHR 0x22 = False" "isalnum CHR 0x22 = False" "bare_char CHR 0x22 = False"
  by (simp_all add: isspace_def isalnum_def isdigit_def bare_char_def Let_def)

lemma sep_not_bare: "sep_char c \<Longrightarrow> \<not> bare_char c"
  by (auto simp: sep_char_def bare_char_def isspace_def isalnum_def isdigit_def Let_def)

lemma bare_not_col: "bare_char c \<Longrightarrow> \<not> isspace c \<and> c \<noteq> CHR '':'' \<and> c \<noteq> CHR 0x22"
  by (auto simp: bare_char_def isspace_def isalnum_def isdigit_def Let_def)

lemma json_str_at:
  assumes "CHR 0x22 \<notin> set k"
  shows "json_str s (CHR 0x22 # k @ CHR 0x22 # r) = (k, r)"
proof -
  have a: "list_all (\<lambda>c. c \<noteq> CHR 0x22) k" using assms by (auto simp: list_all_iff)
  show ?thesis by (simp add: json_str_def Let_def drop_all [OF a] take_all [OF a])
qed

lemma flat_head:
  assumes "list_all entry_ok es" and "list_all sep_char close"
  shows "flat_json es close = [] \<or> \<not> bare_char (hd (flat_json es close))"
proof (cases es)
  case Nil
  then show ?thesis using assms(2) sep_not_bare by (cases close) (auto simp: flat_json_def)
next
  case (Cons e es')
  then obtain sep col k v where e: "e = ((sep, col), (k, v))" by (metis surj_pair)
  show ?thesis using assms(1) sep_not_bare char_classes unfolding Cons e
    by (cases sep) (auto simp: flat_json_def show_entry_def entry_ok_def)
qed

lemma bare_take:
  assumes "list_all bare_char v" and "r = [] \<or> \<not> bare_char (hd r)"
  shows "takeWhile bare_char (v @ r) = v" "dropWhile bare_char (v @ r) = r"
proof -
  have "takeWhile bare_char r = []" "dropWhile bare_char r = r" using assms(2) by (cases r; simp)+
  then show "takeWhile bare_char (v @ r) = v" "dropWhile bare_char (v @ r) = r"
    by (simp_all only: take_all [OF assms(1)] drop_all [OF assms(1)] append_Nil2)
qed

lemma skip_seps: "list_all sep_char sep \<Longrightarrow> json_skip (sep @ r) = json_skip r"
  unfolding json_skip_def by (rule drop_all) (simp add: list_all_iff sep_char_def)

lemma skip_cols: "list_all col_char col \<Longrightarrow> json_colon (col @ r) = json_colon r"
  unfolding json_colon_def by (rule drop_all) (simp add: list_all_iff col_char_def)

lemma json_loop_entry:
  assumes "entry_ok ((sep, col), (k, v))" and "r = [] \<or> \<not> bare_char (hd r)"
  shows "json_loop path s (show_entry ((sep, col), (k, v)) @ r) out = json_loop path s r (out(k \<mapsto> raw v))"
proof -
  note ok = assms(1) [unfolded entry_ok_def prod.case]
  let ?q = "CHR 0x22 # k @ CHR 0x22 # col @ show_value v @ r"
  have skip: "json_skip (sep @ ?q) = ?q"
    using skip_seps [of sep ?q] ok by (simp add: json_skip_def char_classes)
  have key: "json_str s ?q = (k, col @ show_value v @ r)" by (rule json_str_at) (use ok in simp)
  have col: "json_colon (col @ show_value v @ r) = show_value v @ r"
  proof (cases v)
    case (Quoted x)
    then show ?thesis using skip_cols [of col "show_value v @ r"] ok by (simp add: json_colon_def char_classes)
  next
    case (Bare x)
    then obtain c cs where "x = c # cs" "bare_char c" using ok by (cases x) auto
    then show ?thesis using skip_cols [of col "show_value v @ r"] ok bare_not_col [of c] Bare by (simp add: json_colon_def)
  qed
  have "json_loop path s (sep @ ?q) out = (if at_quote (show_value v @ r)
      then json_loop path s (snd (json_str s (show_value v @ r))) (out(k \<mapsto> fst (json_str s (show_value v @ r))))
      else json_loop path s (dropWhile bare_char (show_value v @ r)) (out(k \<mapsto> takeWhile bare_char (show_value v @ r))))"
    by (subst json_loop.simps) (simp add: Let_def skip key col at_quote_def [of ?q])
  also have "\<dots> = json_loop path s r (out(k \<mapsto> raw v))"
  proof (cases v)
    case (Quoted x)
    then show ?thesis using ok json_str_at [of x s r] by (simp add: at_quote_def)
  next
    case (Bare x)
    then have b: "list_all bare_char x" "x \<noteq> []" using ok by simp_all
    then have "\<not> at_quote (x @ r)" using char_classes by (cases x) (auto simp: at_quote_def)
    then show ?thesis using Bare bare_take [OF b(1) assms(2)] by simp
  qed
  finally show ?thesis by (simp add: show_entry_def)
qed

definition assigned :: "((string \<times> string) \<times> (string \<times> jvalue)) list \<Rightarrow> (string \<Rightarrow> string option) \<Rightarrow> string \<Rightarrow> string option" where
  "assigned es out = fold (\<lambda>e out. out(fst (snd e) \<mapsto> raw (snd (snd e)))) es out"

lemma json_loop_flat:
  assumes "list_all entry_ok es" and "list_all sep_char close"
  shows "json_loop path s (flat_json es close) out = Some (Inr (assigned es out))"
  using assms(1)
proof (induction es arbitrary: out)
  case Nil
  have "json_skip close = []" using skip_seps [OF assms(2), of "[]"] by (simp add: json_skip_def)
  then show ?case by (subst json_loop.simps) (simp add: flat_json_def assigned_def Let_def)
next
  case (Cons e es)
  obtain sep col k v where e: "e = ((sep, col), (k, v))" by (metis surj_pair)
  have h: "flat_json es close = [] \<or> \<not> bare_char (hd (flat_json es close))" using flat_head assms(2) Cons.prems by auto
  have "json_loop path s (flat_json (e # es) close) out = json_loop path s (show_entry e @ flat_json es close) out"
    by (simp add: flat_json_def)
  also have "\<dots> = json_loop path s (flat_json es close) (out(k \<mapsto> raw v))"
    unfolding e by (rule json_loop_entry [OF _ h]) (use Cons.prems e in simp)
  also have "\<dots> = Some (Inr (assigned (e # es) out))" using Cons by (simp add: assigned_def e)
  finally show ?case .
qed

section \<open>A file with every parameter\<close>

definition show_nat :: "nat \<Rightarrow> string" where
  "show_nat n = (if n = 0 then ''0'' else map dec_char (digits_of 10 n))"

definition show_int :: "int \<Rightarrow> string" where
  "show_int n = (if n < 0 then CHR ''-'' # show_nat (nat (- n)) else show_nat (nat n))"

lemma digit_chars:
  assumes "d < 10"
  shows "isdigit (dec_char d)" "bare_char (dec_char d)" "\<not> isspace (dec_char d)" "(of_char (dec_char d) :: nat) - 48 = d"
    "dec_char d \<noteq> CHR ''-''" "dec_char d \<noteq> CHR ''+''" "dec_char d \<noteq> CHR ''t''" "dec_char d \<noteq> CHR ''f''"
proof -
  have c: "(of_char (dec_char d) :: nat) = 48 + d" using assms by simp
  show "isdigit (dec_char d)" "bare_char (dec_char d)" "(of_char (dec_char d) :: nat) - 48 = d"
    using assms by (simp_all add: isdigit_def bare_char_def isalnum_def Let_def)
  have "dec_char d \<noteq> x" if "(of_char x :: nat) < 48 \<or> 57 < (of_char x :: nat)" for x using c that assms by auto
  then show "\<not> isspace (dec_char d)" "dec_char d \<noteq> CHR ''-''" "dec_char d \<noteq> CHR ''+''" "dec_char d \<noteq> CHR ''t''" "dec_char d \<noteq> CHR ''f''"
    using c by (auto simp: isspace_def)
qed

lemma show_nat_digits:
  "show_nat n \<noteq> []" "\<exists>d < 10. hd (show_nat n) = dec_char d" "list_all bare_char (show_nat n)" "list_all isdigit (show_nat n)"
  "val_of 10 (map (\<lambda>c. of_char c - 48) (show_nat n)) = n"
proof -
  define ds where "ds = (if n = 0 then [0] else digits_of 10 n)"
  have "dec_char 0 = CHR ''0''" by code_simp
  then have s: "show_nat n = map dec_char ds" by (simp add: show_nat_def ds_def)
  have lt: "d < 10" if "d \<in> set ds" for d using that digits_lt [of 10 d n] by (auto simp: ds_def split: if_splits)
  have ne: "ds \<noteq> []" using digits_hd [of 10 n] by (simp add: ds_def)
  show "show_nat n \<noteq> []" using ne s by simp
  show "\<exists>d < 10. hd (show_nat n) = dec_char d" using ne s lt by (intro exI [of _ "hd ds"]) (simp add: hd_map)
  show "list_all bare_char (show_nat n)" "list_all isdigit (show_nat n)" using lt digit_chars by (auto simp: s list_all_iff)
  have "map (\<lambda>c. of_char c - 48) (map dec_char ds) = ds" using lt digit_chars(4) by (simp add: map_idI)
  then show "val_of 10 (map (\<lambda>c. of_char c - 48) (show_nat n)) = n"
    unfolding s using val_digits [of 10 n] by (simp add: ds_def val_of_def)
qed

lemma stoll_show:
  assumes "- (2 ^ 63) \<le> n" and "n < 2 ^ 63"
  shows "stoll (show_int n) = Inr n"
proof -
  obtain k where k: "k = (if n < 0 then nat (- n) else nat n)" by simp
  obtain d where d: "d < 10" "hd (show_nat k) = dec_char d" using show_nat_digits(2) by blast
  have h: "\<not> isspace (hd (show_nat k))" "hd (show_nat k) \<noteq> CHR ''-''" "hd (show_nat k) \<noteq> CHR ''+''"
    unfolding d(2) using digit_chars [OF d(1)] by simp_all
  have nd: "dropWhile isspace (show_nat k) = show_nat k" using h(1) show_nat_digits(1) [of k] by (cases "show_nat k") auto
  have td: "takeWhile isdigit (show_nat k) = show_nat k" using show_nat_digits(4) [of k] by (auto simp: list_all_iff)
  have m: "\<not> isspace CHR ''-''" by (simp add: isspace_def)
  have v: "val_of 10 (map (\<lambda>c. of_char c - 48) (show_nat k)) = k" and ne: "show_nat k \<noteq> []" by (rule show_nat_digits)+
  show ?thesis
  proof (cases "n < 0")
    case True
    then have s: "show_int n = CHR ''-'' # show_nat k" and "int k = - n" by (simp_all add: show_int_def k)
    then show ?thesis using assms(1) ne by (simp add: stoll_def s Let_def m td v)
  next
    case False
    then have s: "show_int n = show_nat k" and "int k = n" by (simp_all add: show_int_def k)
    then show ?thesis using assms(2) ne h by (simp add: stoll_def s Let_def nd td v)
  qed
qed

lemma show_int_text: "value_ok (Bare (show_int n))" "show_int n \<noteq> ''true''" "show_int n \<noteq> ''false''"
proof -
  obtain d where d: "d < 10" "hd (show_nat (nat n)) = dec_char d" using show_nat_digits(2) by blast
  have b: "bare_char CHR ''-''" by (simp add: bare_char_def)
  show "value_ok (Bare (show_int n))" using b show_nat_digits(1,3) by (auto simp: show_int_def)
  show "show_int n \<noteq> ''true''" "show_int n \<noteq> ''false''"
    using digit_chars(7,8) [OF d(1)] d(2) by (auto simp: show_int_def)
qed

text \<open>The entries of a file with every parameter, in any layout.\<close>

definition params_entries :: "params \<Rightarrow> (string \<times> jvalue) list" where
  "params_entries p = map (\<lambda>(name, get, upd). (name, Quoted (get p))) str_fields
     @ map (\<lambda>(name, get, upd). (name, Bare (show_int (get p)))) int_fields"

definition params_json :: "(string \<times> string) list \<Rightarrow> string \<Rightarrow> params \<Rightarrow> string" where
  "params_json layout close p = flat_json (zip layout (params_entries p)) close"

lemma assigned_other: "k \<notin> (fst \<circ> snd) ` set es \<Longrightarrow> assigned es out k = out k"
  by (induction es arbitrary: out) (auto simp: assigned_def)

lemma assigned_at:
  "distinct (map (fst \<circ> snd) es) \<Longrightarrow> (l, (k, v)) \<in> set es \<Longrightarrow> assigned es out k = Some (raw v)"
proof (induction es arbitrary: out)
  case (Cons e es)
  have a: "assigned (e # es) out = assigned es (out(fst (snd e) \<mapsto> raw (snd (snd e))))" by (simp add: assigned_def)
  show ?case
  proof (cases "e = (l, (k, v))")
    case True
    then show ?thesis using Cons.prems(1) assigned_other [of k es] unfolding a by simp
  next
    case False
    then show ?thesis using Cons unfolding a by simp
  qed
qed simp

lemma names_distinct: "distinct (map (fst :: string \<times> jvalue \<Rightarrow> string) (params_entries p))"
proof -
  have "map fst (params_entries p) = map fst str_fields @ map fst int_fields"
    by (simp add: params_entries_def split_beta comp_def)
  moreover have "distinct (map fst str_fields @ map fst int_fields)" by (simp add: str_fields_def int_fields_def)
  ultimately show ?thesis by simp
qed

lemma entries_assigned:
  assumes "length layout = length (params_entries p)" and "(k, v) \<in> set (params_entries p)"
  shows "assigned (zip layout (params_entries p)) out k = Some (raw v)"
proof -
  obtain i where i: "i < length (params_entries p)" "params_entries p ! i = (k, v)" using assms(2) by (metis in_set_conv_nth)
  have "map (fst \<circ> snd) (zip layout (params_entries p)) = map fst (params_entries p)"
    using assms(1) by (metis map_map map_snd_zip)
  then have d: "distinct (map (fst \<circ> snd) (zip layout (params_entries p)))" using names_distinct by metis
  have "zip layout (params_entries p) ! i = (layout ! i, (k, v))" using i assms(1) by simp
  then have "(layout ! i, (k, v)) \<in> set (zip layout (params_entries p))"
    using i assms(1) by (metis length_zip min.idem nth_mem)
  then show ?thesis by (rule assigned_at [OF d])
qed

lemma ints_loaded:
  assumes "\<forall>(name, get, upd) \<in> set fs. kv name = Some (show_int (get p)) \<and> - (2 ^ 63) \<le> get p \<and> get p < 2 ^ 63"
  shows "fold (load_int kv) fs (Inr q) = Inr (fold (\<lambda>(name, get, upd). upd (\<lambda>_. get p)) fs q)"
  using assms
proof (induction fs arbitrary: q)
  case (Cons f fs)
  obtain name get upd where f: "f = (name, get, upd)" by (metis surj_pair)
  have "kv name = Some (show_int (get p))" "- (2 ^ 63) \<le> get p" "get p < 2 ^ 63" using Cons.prems f by simp_all
  then have "load_int kv f (Inr q) = Inr (upd (\<lambda>_. get p) q)"
    using stoll_show [of "get p"] show_int_text [of "get p"] by (simp add: load_int_def f)
  moreover have "fold (load_int kv) fs (Inr r) = Inr (fold (\<lambda>(name, get, upd). upd (\<lambda>_. get p)) fs r)" for r
    by (rule Cons.IH) (use Cons.prems in simp)
  ultimately show ?case using f by simp
qed simp

lemma strs_loaded:
  assumes "\<forall>(name, get, upd) \<in> set fs. kv name = Some (get p)"
  shows "fold (load_str kv) fs q = fold (\<lambda>(name, get, upd). upd (\<lambda>_. get p)) fs q"
  using assms
proof (induction fs arbitrary: q)
  case (Cons f fs)
  obtain name get upd where f: "f = (name, get, upd)" by (metis surj_pair)
  have "kv name = Some (get p)" using Cons.prems f by simp
  then have "load_str kv f q = upd (\<lambda>_. get p) q" by (simp add: load_str_def f)
  moreover have "fold (load_str kv) fs r = fold (\<lambda>(name, get, upd). upd (\<lambda>_. get p)) fs r" for r
    by (rule Cons.IH) (use Cons.prems in simp)
  ultimately show ?case using f by simp
qed simp

lemma every_field:
  "fold (\<lambda>(name, get, upd). upd (\<lambda>_. get p)) str_fields (fold (\<lambda>(name, get, upd). upd (\<lambda>_. get p)) int_fields default_params) = p"
  by (cases p) (simp add: int_fields_def str_fields_def default_params_def)

lemma load_params_file:
  assumes "length layout = length (params_entries p)"
    and "\<forall>(sep, col) \<in> set layout. list_all sep_char sep \<and> list_all col_char col" and "list_all sep_char close"
    and "CHR 0x22 \<notin> set (p_kind p)" and "CHR 0x22 \<notin> set (p_mapping p)"
    and "\<forall>(name, get, upd) \<in> set int_fields. - (2 ^ 63) \<le> get p \<and> get p < 2 ^ 63"
  shows "load_params path (Some (params_json layout close p)) = Some (Inr p)"
proof -
  have v: "CHR 0x22 \<notin> set k \<and> value_ok v" if "(k, v) \<in> set (params_entries p)" for k v
  proof -
    have "CHR 0x22 \<notin> set k" if "k \<in> fst ` set str_fields \<union> fst ` set int_fields" for k
      using that by (auto simp: str_fields_def int_fields_def)
    moreover have "k \<in> fst ` set str_fields \<union> fst ` set int_fields" using that by (force simp: params_entries_def)
    moreover have "value_ok v" using that assms(4,5) show_int_text(1) by (auto simp: params_entries_def str_fields_def)
    ultimately show ?thesis by blast
  qed
  have ok: "list_all entry_ok (zip layout (params_entries p))"
  proof -
    have sc: "list_all sep_char sep \<and> list_all col_char col" if "(sep, col) \<in> set layout" for sep col
      using assms(2) that by auto
    have "entry_ok e" if "e \<in> set (zip layout (params_entries p))" for e
    proof -
      obtain sep col k x where e: "e = ((sep, col), (k, x))" by (metis surj_pair)
      have "(sep, col) \<in> set layout" "(k, x) \<in> set (params_entries p)"
        using that set_zip_leftD set_zip_rightD unfolding e by fastforce+
      then show ?thesis using sc v by (simp add: e entry_ok_def)
    qed
    then show ?thesis by (simp add: list_all_iff)
  qed
  let ?kv = "assigned (zip layout (params_entries p)) (\<lambda>_. None)"
  have r: "read_flat_json path (Some (params_json layout close p)) = Some (Inr ?kv)"
    using json_loop_flat [OF ok assms(3)] by (simp add: read_flat_json_def params_json_def)
  have i: "\<forall>(name, get, upd) \<in> set int_fields. ?kv name = Some (show_int (get p)) \<and> - (2 ^ 63) \<le> get p \<and> get p < 2 ^ 63"
  proof (rule ballI, unfold split_paired_all prod.case)
    fix name get upd assume that: "(name, get, upd) \<in> set int_fields"
    have "(name, Bare (show_int (get p))) \<in> set (params_entries p)" using that by (force simp: params_entries_def)
    from entries_assigned [OF assms(1) this]
    show "?kv name = Some (show_int (get p)) \<and> - (2 ^ 63) \<le> get p \<and> get p < 2 ^ 63" using assms(6) that by auto
  qed
  have s: "\<forall>(name, get, upd) \<in> set str_fields. ?kv name = Some (get p)"
  proof (rule ballI, unfold split_paired_all prod.case)
    fix name get upd assume that: "(name, get, upd) \<in> set str_fields"
    have "(name, Quoted (get p)) \<in> set (params_entries p)" using that by (force simp: params_entries_def)
    from entries_assigned [OF assms(1) this] show "?kv name = Some (get p)" by simp
  qed
  show ?thesis
    using ints_loaded [OF i, of default_params] strs_loaded [OF s] every_field [of p]
    by (simp add: load_params_def r)
qed

text \<open>
  C19. Parameter files. Whatever blanks, commas, braces and colons a writer puts between them, the
  loader reads a file with every parameter back to the parameters it was written from: every name is
  known, every number, negative or zero included, and both strings arrive unchanged.
\<close>

theorem load_params_roundtrip:
  assumes "length layout = length (params_entries p)"
    and "\<forall>(sep, col) \<in> set layout. list_all sep_char sep \<and> list_all col_char col" and "list_all sep_char close"
    and "CHR 0x22 \<notin> set (p_kind p)" and "CHR 0x22 \<notin> set (p_mapping p)"
    and "\<forall>(name, get, upd) \<in> set int_fields. - (2 ^ 63) \<le> get p \<and> get p < 2 ^ 63"
  shows "load_params path (Some (params_json layout close p)) = Some (Inr p)"
  by (rule load_params_file [OF assms])

text \<open>The layout Python's \<open>json.dump\<close> writes.\<close>

theorem load_params_roundtrip_witness:
  "load_params ''p.json'' (Some (params_json ((''{'', '': '') # replicate 43 ('', '', '': '')) ''}'' (default_params\<lparr>p_tRTW := -7\<rparr>)))
     = Some (Inr (default_params\<lparr>p_tRTW := -7\<rparr>))"
  by (rule load_params_roundtrip)
    (simp_all add: params_entries_def str_fields_def int_fields_def default_params_def sep_char_def col_char_def isspace_def)

text \<open>
  A string that is not closed makes \<open>find\<close> return \<open>npos\<close>, and \<open>i\<close> becomes 0: the scanner starts over
  and never returns.
\<close>

lemma unterminated_string_never_returns: "read_flat_json path (Some [CHR 0x22]) = None"
proof -
  have j: "json_skip [CHR 0x22] = [CHR 0x22]" "json_colon [CHR 0x22] = [CHR 0x22]" "at_quote [CHR 0x22]"
    "json_str [CHR 0x22] [CHR 0x22] = ('''', [CHR 0x22])"
    by (simp_all add: json_skip_def json_colon_def at_quote_def json_str_def char_classes)
  have "s = [CHR 0x22] \<longrightarrow> cs = [CHR 0x22] \<longrightarrow> False" if "json_loop path s cs out = Some y" for s cs out y
  proof (rule json_loop.raw_induct [where P = "\<lambda>path s cs out y. s = [CHR 0x22] \<longrightarrow> cs = [CHR 0x22] \<longrightarrow> False", OF _ that])
    fix loop path s cs and out :: "string \<Rightarrow> string option" and y
    assume IH: "\<And>path s cs out y. loop path s cs out = Some y \<Longrightarrow> s = [CHR 0x22] \<longrightarrow> cs = [CHR 0x22] \<longrightarrow> False"
      and step: "(let cs = json_skip cs
      in if cs = [] then Some (Inr out)
         else if \<not> at_quote cs then Some (Inl (expected_string path))
         else let key = fst (json_str s cs); cs = json_colon (snd (json_str s cs))
              in if at_quote cs then loop path s (snd (json_str s cs)) (out(key \<mapsto> fst (json_str s cs)))
                 else loop path s (dropWhile bare_char cs) (out(key \<mapsto> takeWhile bare_char cs))) = Some y"
    show "s = [CHR 0x22] \<longrightarrow> cs = [CHR 0x22] \<longrightarrow> False"
    proof (intro impI)
      assume "s = [CHR 0x22]" "cs = [CHR 0x22]"
      with step have "loop path [CHR 0x22] [CHR 0x22] (out([] \<mapsto> [])) = Some y" by (simp add: Let_def j)
      from IH [OF this] show False by simp
    qed
  qed
  then show ?thesis by (cases "read_flat_json path (Some [CHR 0x22])") (auto simp: read_flat_json_def)
qed

section \<open>The device's configuration\<close>

text \<open>
  \<open>Dram::Dram\<close> of \<open>targets/hetero/dram.cpp\<close> reads the same fields from the simulator's configuration,
  and stops at one that is missing or when the engine refuses them; \<open>ints\<close> and \<open>strs\<close> are what the
  configuration holds.
\<close>

definition missing_param :: "string \<Rightarrow> string" where
  "missing_param name = ''Missing DRAM parameter '' @ quoted name"

definition conf_int :: "(string \<Rightarrow> int option) \<Rightarrow> int_field \<Rightarrow> string + params \<Rightarrow> string + params" where
  "conf_int ints f r =
     (case r of Inl e \<Rightarrow> Inl e
      | Inr p \<Rightarrow> (case f of (name, get, upd) \<Rightarrow>
          (case ints name of None \<Rightarrow> Inl (missing_param name) | Some v \<Rightarrow> Inr (upd (\<lambda>_. v) p))))"

definition conf_str :: "(string \<Rightarrow> string option) \<Rightarrow> str_field \<Rightarrow> string + params \<Rightarrow> string + params" where
  "conf_str strs f r =
     (case r of Inl e \<Rightarrow> Inl e
      | Inr p \<Rightarrow> (case f of (name, get, upd) \<Rightarrow>
          (case strs name of None \<Rightarrow> Inl (missing_param name) | Some v \<Rightarrow> Inr (upd (\<lambda>_. v) p))))"

definition Dram_Dram :: "string \<Rightarrow> (string \<Rightarrow> int option) \<Rightarrow> (string \<Rightarrow> string option) \<Rightarrow> string + eng" where
  "Dram_Dram kind_name ints strs =
     (case fold (conf_str strs) str_fields (fold (conf_int ints) int_fields (Inr default_params)) of
        Inl e \<Rightarrow> Inl e
      | Inr p \<Rightarrow> (case Engine p of
          Inl e \<Rightarrow> Inl (''Invalid DRAM configuration ('' @ kind_name @ ''): '' @ e)
        | Inr en \<Rightarrow> Inr en))"

lemma conf_ints:
  assumes "\<forall>(name, get, upd) \<in> set fs. ints name = Some (get p)"
  shows "fold (conf_int ints) fs (Inr q) = Inr (fold (\<lambda>(name, get, upd). upd (\<lambda>_. get p)) fs q)"
  using assms by (induction fs arbitrary: q) (auto simp: conf_int_def)

lemma conf_strs:
  assumes "\<forall>(name, get, upd) \<in> set fs. strs name = Some (get p)"
  shows "fold (conf_str strs) fs (Inr q) = Inr (fold (\<lambda>(name, get, upd). upd (\<lambda>_. get p)) fs q)"
  using assms by (induction fs arbitrary: q) (auto simp: conf_str_def)

text \<open>With every field in the configuration the device runs the engine of exactly these parameters.\<close>

lemma Dram_Dram_engine:
  assumes "\<forall>(name, get, upd) \<in> set int_fields. ints name = Some (get p)"
    and "\<forall>(name, get, upd) \<in> set str_fields. strs name = Some (get p)" and "Engine p = Inr en"
  shows "Dram_Dram kind_name ints strs = Inr en"
  using conf_ints [OF assms(1), of default_params] conf_strs [OF assms(2)] every_field [of p] assms(3)
  by (simp add: Dram_Dram_def)

end
