(* ===== verification/Replay.thy ===== *)
theory Replay
  imports ParamsIo DramDevice
begin

text \<open>
  The trace player, \<open>main\<close> of \<open>tools/dram/dram_replay.cpp\<close>: parameters from a file, the timing engine, and
  either its unloaded read latency or a trace replayed at its own timestamps. Times in \<open>double\<close> are
  met through \<open>floats\<close>; the summary is the numbers that it is printed from.
\<close>

section \<open>Texts\<close>

definition digit_val :: "char \<Rightarrow> nat" where
  "digit_val c = (let n = of_char c :: nat
     in if isdigit c then n - 48 else if 97 \<le> n \<and> n \<le> 102 then n - 87 else if 65 \<le> n \<and> n \<le> 70 then n - 55 else 16)"

text \<open>\<open>strtoull(s, nullptr, 0)\<close>: blanks, a sign, \<open>0x\<close> or \<open>0\<close> for the base; too large a value saturates.\<close>

definition strtoull :: "string \<Rightarrow> u64" where
  "strtoull s =
     (let s = dropWhile isspace s;
          neg = (s \<noteq> [] \<and> hd s = CHR ''-'');
          s = (if s \<noteq> [] \<and> (hd s = CHR ''-'' \<or> hd s = CHR ''+'') then tl s else s);
          hex = (2 < length s \<and> s ! 0 = CHR ''0'' \<and> (s ! 1 = CHR ''x'' \<or> s ! 1 = CHR ''X'') \<and> digit_val (s ! 2) < 16);
          b = (if hex then 16 else if s \<noteq> [] \<and> hd s = CHR ''0'' then 8 else 10);
          n = int (val_of b (map digit_val (takeWhile (\<lambda>c. digit_val c < b) (if hex then drop 2 s else s))))
      in if 2 ^ 64 \<le> n then - 1 else if neg then - word_of_int n else word_of_int n)"

text \<open>\<open>ls >> x\<close>: blanks, then what runs to the next; empty when there is nothing more.\<close>

definition token :: "string \<Rightarrow> string \<times> string" where
  "token cs = (let cs = dropWhile isspace cs in (takeWhile (\<lambda>c. \<not> isspace c) cs, dropWhile (\<lambda>c. \<not> isspace c) cs))"

definition tokens3 :: "string \<Rightarrow> string \<times> string \<times> string" where
  "tokens3 line = (let (ts, r) = token line; (cmd, r) = token r; (addr, r) = token r in (ts, cmd, addr))"

text \<open>\<open>std::getline\<close> until it fails.\<close>

fun getlines :: "string \<Rightarrow> string \<Rightarrow> string list" where
  "getlines acc [] = (if acc = [] then [] else [acc])"
| "getlines acc (c # cs) = (if c = CHR 0x0A then acc # getlines [] cs else getlines (acc @ [c]) cs)"

section \<open>Arguments\<close>

text \<open>
  \<open>double\<close>: zero, \<open>atof\<close>, whether a value is at most zero, and the picoseconds of a timestamp at a
  clock, \<open>(int64_t)(std::stod(ts) * 1e6 / clk_mhz + 0.5)\<close>, where \<open>stod\<close> may throw.
\<close>

record 'd floats =
  fl_zero :: 'd
  fl_atof :: "string \<Rightarrow> 'd"
  fl_le0 :: "'d \<Rightarrow> bool"
  fl_ps :: "string \<Rightarrow> 'd \<Rightarrow> string + int"

fun replay_args :: "'d floats \<Rightarrow> string list \<Rightarrow> 'd \<times> u64 \<times> bool \<Rightarrow> string + 'd \<times> u64 \<times> bool" where
  "replay_args fl [] st = Inr st"
| "replay_args fl (a # rest) (clk, sz, per) =
     (if a = ''--clk-mhz'' \<and> rest \<noteq> [] then replay_args fl (tl rest) (fl_atof fl (hd rest), sz, per)
      else if a = ''--size'' \<and> rest \<noteq> [] then replay_args fl (tl rest) (clk, strtoull (hd rest), per)
      else if a = ''--per-request'' then replay_args fl rest (clk, sz, True)
      else Inl (''unknown argument '' @ a))"

section \<open>The replay\<close>

record summary =
  su_n :: u64
  su_sum_lat :: int
  su_max_lat :: int
  su_first :: int
  su_last_done :: int

definition no_summary :: summary where
  "no_summary = \<lparr>su_n = 0, su_sum_lat = 0, su_max_lat = 0, su_first = -1, su_last_done = 0\<rparr>"

text \<open>What the program prints: the nominal latency, a line per request, the summary, or a message.\<close>

datatype printed = Nominal int | Line int string string int | Summary summary u64 dstats | Message string

definition note_access :: "int \<Rightarrow> int \<Rightarrow> summary \<Rightarrow> summary" where
  "note_access t d r =
     (let lat = d - t
      in r\<lparr>su_first := (if su_first r < 0 then t else su_first r), su_sum_lat := su_sum_lat r + lat,
           su_max_lat := max (su_max_lat r) lat, su_last_done := max (su_last_done r) d, su_n := su_n r + 1\<rparr>)"

definition timestamp :: "string \<Rightarrow> string" where
  "timestamp ts = (if ts \<noteq> [] \<and> last ts = CHR '':'' then butlast ts else ts)"

fun replay_lines :: "'d floats \<Rightarrow> 'd \<Rightarrow> u64 \<Rightarrow> bool \<Rightarrow> string list \<Rightarrow> eng \<times> summary
    \<Rightarrow> (printed list \<times> (string + eng \<times> summary)) option" where
  "replay_lines fl clk sz per [] st = Some ([], Inr st)"
| "replay_lines fl clk sz per (line # rest) (e, r) =
     (if line = [] \<or> hd line = CHR ''#'' then replay_lines fl clk sz per rest (e, r)
      else case tokens3 line of (ts, cmd, addr) \<Rightarrow>
        (case fl_ps fl (timestamp ts) clk of
           Inl msg \<Rightarrow> Some ([], Inl msg)
         | Inr t \<Rightarrow> do {
             (d, e) \<leftarrow> access t (strtoull addr) sz (cmd = ''write'') e;
             (out, res) \<leftarrow> replay_lines fl clk sz per rest (e, note_access t d r);
             Some ((if per then [Line t cmd addr (d - t)] else []) @ out, res)
           }))"

definition usage :: "string \<Rightarrow> string" where
  "usage prog = ''usage: '' @ prog @ '' PARAMS.json --nominal | TRACE.stl --clk-mhz F --size N [--per-request]''"

definition replay_trace :: "'d floats \<Rightarrow> (string \<Rightarrow> string option) \<Rightarrow> string list \<Rightarrow> eng \<Rightarrow> (printed list \<times> int) option" where
  "replay_trace fl files argv e =
     (case replay_args fl (drop 3 argv) (fl_zero fl, 64, False) of
        Inl msg \<Rightarrow> Some ([Message msg], 2)
      | Inr (clk, sz, per) \<Rightarrow>
          if fl_le0 fl clk then Some ([Message ''--clk-mhz is required''], 2)
          else (case files (argv ! 2) of
             None \<Rightarrow> Some ([Message (''cannot open '' @ argv ! 2)], 2)
           | Some f \<Rightarrow> do {
               (out, res) \<leftarrow> replay_lines fl clk sz per (getlines [] f) (e, no_summary);
               case res of
                 Inl msg \<Rightarrow> Some (out @ [Message (''error: '' @ msg)], 1)
               | Inr (e, r) \<Rightarrow> Some (out @ [Summary r sz (e_st e)], 0)
             }))"

text \<open>\<open>main\<close>: what is printed, and the exit code.\<close>

definition dram_replay :: "'d floats \<Rightarrow> (string \<Rightarrow> string option) \<Rightarrow> string list \<Rightarrow> (printed list \<times> int) option" where
  "dram_replay fl files argv =
     (if length argv < 3 then Some ([Message (usage (argv ! 0))], 2)
      else do {
        loaded \<leftarrow> load_params (argv ! 1) (files (argv ! 1));
        case loaded of
          Inl msg \<Rightarrow> Some ([Message (''error: '' @ msg)], 1)
        | Inr p \<Rightarrow>
            (case Engine p of
               Inl msg \<Rightarrow> Some ([Message (''error: '' @ msg)], 1)
             | Inr e \<Rightarrow>
                 if argv ! 2 = ''--nominal'' then do { n \<leftarrow> nominal_read_ps e; Some ([Nominal n], 0) }
                 else replay_trace fl files argv e)
      })"

section \<open>A replay is a run of the engine\<close>

definition records :: "string list \<Rightarrow> string list" where
  "records ls = filter (\<lambda>l. l \<noteq> [] \<and> hd l \<noteq> CHR ''#'') ls"

text \<open>A line's time, and its request.\<close>

definition line_time :: "'d floats \<Rightarrow> 'd \<Rightarrow> string \<Rightarrow> string + int" where
  "line_time fl clk l = (case tokens3 l of (ts, cmd, addr) \<Rightarrow> fl_ps fl (timestamp ts) clk)"

definition line_request :: "'d floats \<Rightarrow> 'd \<Rightarrow> u64 \<Rightarrow> string \<Rightarrow> int \<times> u64 \<times> u64 \<times> bool" where
  "line_request fl clk sz l = (case tokens3 l of (ts, cmd, addr) \<Rightarrow> (projr (line_time fl clk l), strtoull addr, sz, cmd = ''write''))"

definition line_printed :: "'d floats \<Rightarrow> 'd \<Rightarrow> string \<Rightarrow> int \<Rightarrow> printed" where
  "line_printed fl clk l d = (case tokens3 l of (ts, cmd, addr) \<Rightarrow> Line (projr (line_time fl clk l)) cmd addr (d - projr (line_time fl clk l)))"

fun summed :: "int list \<Rightarrow> int list \<Rightarrow> summary \<Rightarrow> summary" where
  "summed (t # ts) (d # ds) r = summed ts ds (note_access t d r)"
| "summed _ _ r = r"

lemma replay_lines_accesses:
  assumes "\<forall>l \<in> set (records ls). \<not> isl (line_time fl clk l)"
    and "accesses (map (line_request fl clk sz) (records ls)) e = Some (ds, e')"
  shows "replay_lines fl clk sz per ls (e, r) = Some (if per then map2 (line_printed fl clk) (records ls) ds else [],
    Inr (e', summed (map (\<lambda>l. projr (line_time fl clk l)) (records ls)) ds r))"
  using assms
proof (induction ls arbitrary: e r ds)
  case (Cons l ls)
  show ?case
  proof (cases "l = [] \<or> hd l = CHR ''#''")
    case True
    then have "records (l # ls) = records ls" by (auto simp: records_def)
    then show ?thesis using Cons True by simp
  next
    case False
    then have rs: "records (l # ls) = l # records ls" by (simp add: records_def)
    obtain ts cmd addr where tk: "tokens3 l = (ts, cmd, addr)" by (cases "tokens3 l") auto
    obtain t where t: "fl_ps fl (timestamp ts) clk = Inr t"
      using Cons.prems(1) by (cases "fl_ps fl (timestamp ts) clk") (auto simp: rs line_time_def tk)
    have lr: "line_request fl clk sz l = (t, strtoull addr, sz, cmd = ''write'')" by (simp add: line_request_def line_time_def tk t)
    obtain d e1 ds1 where d: "access t (strtoull addr) sz (cmd = ''write'') e = Some (d, e1)"
      "accesses (map (line_request fl clk sz) (records ls)) e1 = Some (ds1, e')" "ds = d # ds1"
      using Cons.prems(2) by (auto simp: rs lr bind_eq_Some_conv)
    have "replay_lines fl clk sz per ls (e1, note_access t d r) = Some (if per then map2 (line_printed fl clk) (records ls) ds1 else [],
      Inr (e', summed (map (\<lambda>l. projr (line_time fl clk l)) (records ls)) ds1 (note_access t d r)))"
      using Cons.IH [OF _ d(2)] Cons.prems(1) by (simp add: rs)
    then show ?thesis using False d(1,3)
      by (simp add: rs tk t line_printed_def line_time_def)
  qed
qed (simp add: records_def)

lemma summed_counts:
  assumes "length ts = length ds"
  shows "su_n (summed ts ds r) = su_n r + of_nat (length ds)"
    and "su_sum_lat (summed ts ds r) = su_sum_lat r + sum_list (map2 (\<lambda>t d. d - t) ts ds)"
    and "list_all2 (\<lambda>t d. d - t \<le> su_max_lat (summed ts ds r) \<and> d \<le> su_last_done (summed ts ds r)) ts ds"
    and "su_max_lat r \<le> su_max_lat (summed ts ds r) \<and> su_last_done r \<le> su_last_done (summed ts ds r)"
  using assms by (induction ts ds r rule: summed.induct) (auto simp: note_access_def Let_def)

lemma summed_first:
  "(\<forall>t \<in> set ts. 0 \<le> t) \<Longrightarrow> length ts = length ds \<Longrightarrow>
     su_first (summed ts ds r) = (if su_first r < 0 \<and> ts \<noteq> [] then hd ts else su_first r)"
proof (induction ts ds r rule: summed.induct)
  case (1 t ts d ds r)
  then show ?case by (cases ts) (auto simp: note_access_def Let_def)
qed auto

text \<open>
  A replay ends and is the engine's. With a parameter file of a device the constructor accepts, a
  trace whose timestamps are numbers and whose addresses lie below the top of the address space,
  and valid arguments, the program ends with exit code 0; the requests it puts to the engine are
  the trace's lines in order; with \<open>--per-request\<close> it prints one line for each with the latency the
  engine gave, none below the controller's; and the summary counts every line, adds up exactly
  those latencies, bounds each of them, and counts as many reads and writes.
\<close>

theorem replay_is_a_run:
  assumes "2 < length argv" and "argv ! 2 \<noteq> ''--nominal''"
    and "load_params (argv ! 1) (files (argv ! 1)) = Some (Inr p)" and "built_dram p e" and "sane_timing p" and "0 \<le> e_burst_ps e"
    and "replay_args fl (drop 3 argv) (fl_zero fl, 64, False) = Inr (clk, sz, per)" and "\<not> fl_le0 fl clk"
    and "files (argv ! 2) = Some f" and "ls = records (getlines [] f)"
    and "\<forall>l \<in> set ls. \<not> isl (line_time fl clk l) \<and> below_top e (strtoull (snd (snd (tokens3 l)))) sz"
  shows "\<exists>ds e' r. accesses (map (line_request fl clk sz) ls) e = Some (ds, e')
    \<and> dram_replay fl files argv = Some ((if per then map2 (line_printed fl clk) ls ds else []) @ [Summary r sz (e_st e')], 0)
    \<and> list_all2 (\<lambda>l d. p_ctrl_ps p \<le> d - projr (line_time fl clk l)) ls ds
    \<and> su_n r = of_nat (length ls) \<and> st_reads (e_st e') + st_writes (e_st e') = length ls
    \<and> su_sum_lat r = sum_list (map2 (\<lambda>l d. d - projr (line_time fl clk l)) ls ds)
    \<and> list_all2 (\<lambda>l d. d - projr (line_time fl clk l) \<le> su_max_lat r \<and> d \<le> su_last_done r) ls ds"
proof -
  let ?ts = "map (\<lambda>l. projr (line_time fl clk l)) ls" and ?rs = "map (line_request fl clk sz) ls"
  have time: "fst (line_request fl clk sz l) = projr (line_time fl clk l)" for l
    by (simp add: line_request_def split: prod.split)
  have "\<forall>(now, addr, sz, w)\<in>set ?rs. below_top e addr sz"
    using assms(11) by (auto simp: line_request_def split: prod.splits)
  from accesses_spec [OF _ this] built_good [OF assms(4-6)] built_dram_facts [OF assms(4)] obtain ds e' where
    a: "accesses ?rs e = Some (ds, e')" "list_all2 (\<lambda>(now, _) d. now + p_ctrl_ps p \<le> d) ?rs ds"
      "st_reads (e_st e') + st_writes (e_st e') = length ls" by (fastforce simp: no_stats_def)
  define r where "r = summed ?ts ds no_summary"
  have len: "length ds = length ls" using list_all2_lengthD [OF a(2)] by simp
  have lat: "list_all2 (\<lambda>l d. p_ctrl_ps p \<le> d - projr (line_time fl clk l)) ls ds"
    using a(2) by (auto simp: list_all2_map1 list_all2_conv_all_nth time [symmetric] split_beta algebra_simps)
  have "replay_lines fl clk sz per (getlines [] f) (e, no_summary) = Some (if per then map2 (line_printed fl clk) ls ds else [], Inr (e', r))"
    unfolding r_def assms(10) by (rule replay_lines_accesses) (use a(1) assms(10,11) in auto)
  moreover have "Engine p = Inr e" using assms(4) by (simp add: built_dram_def)
  ultimately have "dram_replay fl files argv = Some ((if per then map2 (line_printed fl clk) ls ds else []) @ [Summary r sz (e_st e')], 0)"
    using assms(1-3,7-9) by (simp add: dram_replay_def replay_trace_def)
  moreover have "length ?ts = length ds" using len by simp
  note c = summed_counts [OF this, of no_summary, folded r_def]
  have "su_n r = of_nat (length ls)" using c(1) len by (simp add: no_summary_def)
  moreover have "su_sum_lat r = sum_list (map2 (\<lambda>l d. d - projr (line_time fl clk l)) ls ds)"
    using c(2) by (simp add: no_summary_def zip_map1 split_def comp_def)
  moreover have "list_all2 (\<lambda>l d. d - projr (line_time fl clk l) \<le> su_max_lat r \<and> d \<le> su_last_done r) ls ds"
    using c(3) by (simp add: list_all2_map1)
  ultimately show ?thesis using a(1,3) lat by blast
qed

text \<open>
  The test device, its parameters written out and read back, on a trace of a write and a read of the
  same line at 1000 MHz, with times that need no rounding.
\<close>

definition trace_floats :: "int floats" where
  "trace_floats = \<lparr>fl_zero = 0, fl_atof = (\<lambda>s. uint (strtoull s)), fl_le0 = (\<lambda>x. x \<le> 0),
     fl_ps = (\<lambda>ts clk. if ts = [] then Inl ''stod'' else Inr (uint (strtoull ts) * 1000000 div clk))\<rparr>"

definition small_trace :: string where
  "small_trace = ''# two requests'' @ CHR 0x0A # ''10: write 0x28'' @ CHR 0x0A # CHR 0x0A # ''20: read 0x20'' @ [CHR 0x0A]"

lemma small_trace_lines: "records (getlines [] small_trace) = [''10: write 0x28'', ''20: read 0x20'']"
  by code_simp

lemma small_trace_tokens:
  "tokens3 ''10: write 0x28'' = (''10:'', ''write'', ''0x28'')" "tokens3 ''20: read 0x20'' = (''20:'', ''read'', ''0x20'')"
  "line_time trace_floats 1000 ''10: write 0x28'' = Inr 10000" "line_time trace_floats 1000 ''20: read 0x20'' = Inr 20000"
  "strtoull ''0x28'' = 0x28" "strtoull ''0x20'' = 0x20"
  by code_simp+

definition small_files :: "string \<Rightarrow> string option" where
  "small_files = [''t.stl'' \<mapsto> small_trace,
     ''p.json'' \<mapsto> params_json ((''{'', '': '') # replicate 43 ('', '', '': '')) ''}'' test_params]"

theorem replay_is_a_run_witness:
  "\<exists>d d' r st. dram_replay trace_floats small_files
      [''dram_replay'', ''p.json'', ''t.stl'', ''--clk-mhz'', ''1000'', ''--size'', ''8'', ''--per-request'']
    = Some ([Line 10000 ''write'' ''0x28'' (d - 10000), Line 20000 ''read'' ''0x20'' (d' - 20000), Summary r 8 st], 0)
    \<and> 20000 \<le> d - 10000 \<and> su_n r = 2 \<and> su_sum_lat r = d - 10000 + (d' - 20000)"
proof -
  let ?argv = "[''dram_replay'', ''p.json'', ''t.stl'', ''--clk-mhz'', ''1000'', ''--size'', ''8'', ''--per-request'']"
  let ?ls = "[''10: write 0x28'', ''20: read 0x20'']"
  have l: "load_params (?argv ! 1) (small_files (?argv ! 1)) = Some (Inr test_params)"
  proof -
    have "load_params ''p.json'' (Some (params_json ((''{'', '': '') # replicate 43 ('', '', '': '')) ''}'' test_params))
      = Some (Inr test_params)"
      by (rule load_params_file)
        (simp_all add: params_entries_def str_fields_def int_fields_def test_params_def default_params_def sep_char_def col_char_def isspace_def)
    then show ?thesis by (simp add: small_files_def)
  qed
  have n: "strtoull ''1000'' = 1000" "strtoull ''8'' = 8" by code_simp+
  have args: "replay_args trace_floats (drop 3 ?argv) (fl_zero trace_floats, 64, False) = Inr (1000, 8, True)"
    by (simp add: n trace_floats_def)
  have pos: "\<not> fl_le0 trace_floats 1000" by (simp add: trace_floats_def)
  have bytes: "e_burst_bytes test_eng = 32" "last_byte (e_align test_eng) 0x28 8 = 0x3f" "last_byte (e_align test_eng) 0x20 8 = 0x3f"
    by code_simp+
  then have ok: "\<forall>l \<in> set ?ls. \<not> isl (line_time trace_floats 1000 l) \<and> below_top test_eng (strtoull (snd (snd (tokens3 l)))) 8"
    by (simp add: small_trace_tokens below_top_def)
  have f: "small_files (?argv ! 2) = Some small_trace" by (simp add: small_files_def)
  have a: "2 < length ?argv" "?argv ! 2 \<noteq> ''--nominal''" by simp_all
  have c: "p_ctrl_ps test_params = 20000" by (simp add: test_params_def)
  note r = replay_is_a_run [OF a l test_eng_built test_eng_good(2,3) args pos f small_trace_lines [symmetric] ok]
  then show ?thesis
    by (auto simp: list_all2_Cons1 line_printed_def small_trace_tokens c)
qed

end
