(* ===== verification/XCheck.thy ===== *)
theory XCheck
  imports Prelude "HOL-Library.Multiset"
begin

text \<open>
  The cross-check driver, the loop of \<open>main\<close> in \<open>tools/dram/xcheck/ramulator_driver.cpp\<close>: it puts the
  entries of a trace to Ramulator2 at their times, clock by clock. Ramulator2 is not in the repository:
  it is met through the two calls the loop makes, with what their callbacks are called with.
\<close>

section \<open>The driver\<close>

record trace_entry =
  en_t_ps :: int
  en_write :: bool
  en_addr :: u64

text \<open>
  \<open>accept\<close>: whether the request is taken, the reads called back meanwhile with their depart cycles,
  and the memory system after it. \<open>due clk\<close> is \<open>(int64_t)(clk * tck_ps)\<close>.
\<close>

record 'm memsys =
  ms_accept :: "trace_entry \<Rightarrow> 'm \<Rightarrow> bool \<times> (trace_entry \<times> int) list \<times> 'm"
  ms_tick :: "'m \<Rightarrow> (trace_entry \<times> int) list \<times> 'm"
  ms_due :: "int \<Rightarrow> int"

text \<open>What changes as the driver runs: entries to come, reads not called back, lines printed, clock, memory.\<close>

record 'm driver =
  dr_pending :: "trace_entry list"
  dr_outstanding :: u64
  dr_printed :: "(trace_entry \<times> int) list"
  dr_clk :: int
  dr_mem :: 'm

definition called_back :: "(trace_entry \<times> int) list \<Rightarrow> 'm driver \<Rightarrow> 'm driver" where
  "called_back cbs d = d\<lparr>dr_printed := dr_printed d @ cbs, dr_outstanding := dr_outstanding d - of_nat (length cbs)\<rparr>"

text \<open>Everything due by this clock, in order, until one is refused.\<close>

function inject :: "'m memsys \<Rightarrow> 'm driver \<Rightarrow> 'm driver" where
  "inject ms d =
     (case dr_pending d of
        [] \<Rightarrow> d
      | e # es \<Rightarrow>
          if en_t_ps e \<le> ms_due ms (dr_clk d)
          then (case ms_accept ms e (dr_mem d) of (ok, cbs, m) \<Rightarrow>
            let d = called_back cbs (d\<lparr>dr_mem := m\<rparr>);
                d = (if ok \<and> \<not> en_write e then d\<lparr>dr_outstanding := dr_outstanding d + 1\<rparr> else d)
            in if ok then inject ms (d\<lparr>dr_pending := es\<rparr>) else d)
          else d)"
  by pat_completeness auto
termination
  by (relation "measure (\<lambda>(ms, d). length (dr_pending d))") (auto simp: called_back_def)

declare inject.simps [simp del]

definition max_clk :: int where "max_clk = 1000000000"

definition one_clk :: "'m memsys \<Rightarrow> 'm driver \<Rightarrow> 'm driver" where
  "one_clk ms d =
     (let d = inject ms d; (cbs, m) = ms_tick ms (dr_mem d); d = called_back cbs (d\<lparr>dr_mem := m\<rparr>)
      in d\<lparr>dr_clk := dr_clk d + 1\<rparr>)"

lemma inject_clk: "dr_clk (inject ms d) = dr_clk d"
proof (induction ms d rule: inject.induct)
  case (1 ms d)
  show ?case
    by (subst inject.simps) (use 1 in \<open>auto simp: called_back_def Let_def split: list.splits prod.splits\<close>)
qed

lemma one_clk_clk [simp]: "dr_clk (one_clk ms d) = dr_clk d + 1"
  by (simp add: one_clk_def Let_def called_back_def inject_clk split: prod.split)

text \<open>The loop and its exit code: 1 for a runaway simulation.\<close>

function drive :: "'m memsys \<Rightarrow> 'm driver \<Rightarrow> 'm driver \<times> int" where
  "drive ms d =
     (if dr_pending d = [] \<and> dr_outstanding d = 0 then (d, 0)
      else let d = one_clk ms d in if max_clk < dr_clk d then (d, 1) else drive ms d)"
  by pat_completeness auto
termination
  by (relation "measure (\<lambda>(ms, d). nat (max_clk + 1 - dr_clk d))") auto

declare drive.simps [simp del]

definition driver_start :: "trace_entry list \<Rightarrow> 'm \<Rightarrow> 'm driver" where
  "driver_start es m = \<lparr>dr_pending = es, dr_outstanding = 0, dr_printed = [], dr_clk = 0, dr_mem = m\<rparr>"

section \<open>What a finished run has done\<close>

text \<open>
  The documented behaviour of the calls: with \<open>open_reads\<close> the reads taken and not called back, a read
  that is taken becomes open, every callback is for an open read and closes it, and nothing else
  changes them.
\<close>

definition faithful :: "'m memsys \<Rightarrow> ('m \<Rightarrow> trace_entry multiset) \<Rightarrow> bool" where
  "faithful ms open_reads \<longleftrightarrow>
     (\<forall>e m ok cbs m'. ms_accept ms e m = (ok, cbs, m') \<longrightarrow>
        open_reads m' + mset (map fst cbs) = open_reads m + (if ok \<and> \<not> en_write e then {#e#} else {#}))
     \<and> (\<forall>m cbs m'. ms_tick ms m = (cbs, m') \<longrightarrow> open_reads m' + mset (map fst cbs) = open_reads m)"

definition reads_of :: "trace_entry list \<Rightarrow> trace_entry multiset" where
  "reads_of es = mset (filter (\<lambda>e. \<not> en_write e) es)"

definition drive_inv :: "trace_entry list \<Rightarrow> ('m \<Rightarrow> trace_entry multiset) \<Rightarrow> 'm driver \<Rightarrow> bool" where
  "drive_inv es open_reads d \<longleftrightarrow> dr_outstanding d = of_nat (size (open_reads (dr_mem d)))
     \<and> (\<exists>given. es = given @ dr_pending d \<and> mset (map fst (dr_printed d)) + open_reads (dr_mem d) = reads_of given)"

lemma called_back_inv:
  assumes "open_reads m' + mset (map fst cbs) = open_reads (dr_mem d) + new"
    and "dr_outstanding d = of_nat (size (open_reads (dr_mem d)))"
  shows "dr_outstanding (called_back cbs (d\<lparr>dr_mem := m'\<rparr>)) + of_nat (size new) = of_nat (size (open_reads m'))"
proof -
  have "size (open_reads m') + length cbs = size (open_reads (dr_mem d)) + size new"
    using arg_cong [OF assms(1), of size] by simp
  then have "of_nat (size (open_reads m')) + of_nat (length cbs) = (of_nat (size (open_reads (dr_mem d))) + of_nat (size new) :: u64)"
    unfolding of_nat_add [symmetric] by simp
  then show ?thesis using assms(2) by (simp add: called_back_def algebra_simps)
qed

lemma inject_inv: "faithful ms open_reads \<Longrightarrow> drive_inv es open_reads d \<Longrightarrow> drive_inv es open_reads (inject ms d)"
proof (induction ms d rule: inject.induct)
  case (1 ms d)
  show ?case
  proof (cases "dr_pending d")
    case Nil
    then show ?thesis using 1 by (subst inject.simps) simp
  next
    case (Cons e rest)
    obtain ok cbs m where a: "ms_accept ms e (dr_mem d) = (ok, cbs, m)" by (cases "ms_accept ms e (dr_mem d)") auto
    let ?new = "if ok \<and> \<not> en_write e then {#e#} else {#}"
    define d' where "d' = (let d = called_back cbs (d\<lparr>dr_mem := m\<rparr>)
      in if ok \<and> \<not> en_write e then d\<lparr>dr_outstanding := dr_outstanding d + 1\<rparr> else d)"
    have q: "open_reads m + mset (map fst cbs) = open_reads (dr_mem d) + ?new"
      using 1(2) a unfolding faithful_def by blast
    have out: "dr_outstanding d' = of_nat (size (open_reads m))"
      using called_back_inv [OF q] 1(3) by (auto simp: d'_def Let_def drive_inv_def split: if_splits)
    have sel: "dr_mem d' = m" "dr_printed d' = dr_printed d @ cbs" "dr_pending d' = dr_pending d"
      by (simp_all add: d'_def Let_def called_back_def)
    obtain given where g: "es = given @ e # rest" "mset (map fst (dr_printed d)) + open_reads (dr_mem d) = reads_of given"
      using 1(3) Cons by (auto simp: drive_inv_def)
    have m: "mset (map fst (dr_printed d')) + open_reads m = reads_of given + ?new"
    proof -
      have "mset (map fst (dr_printed d')) + open_reads m = mset (map fst (dr_printed d)) + (open_reads m + mset (map fst cbs))"
        by (simp add: sel ac_simps)
      also have "\<dots> = reads_of given + ?new" unfolding q g(2) [symmetric] by (simp add: ac_simps)
      finally show ?thesis .
    qed
    have "drive_inv es open_reads (if ok then d'\<lparr>dr_pending := rest\<rparr> else d')"
    proof (cases ok)
      case True
      then show ?thesis using out m g(1)
        by (auto simp: drive_inv_def sel reads_of_def intro!: exI [of _ "given @ [e]"])
    next
      case False
      then show ?thesis using out m g(1) Cons by (auto simp: drive_inv_def sel intro!: exI [of _ given])
    qed
    moreover have "inject ms d = (if en_t_ps e \<le> ms_due ms (dr_clk d) then if ok then inject ms (d'\<lparr>dr_pending := rest\<rparr>) else d' else d)"
      by (subst inject.simps) (simp add: Cons a d'_def Let_def)
    moreover have "drive_inv es open_reads (inject ms (d'\<lparr>dr_pending := rest\<rparr>))"
      if "en_t_ps e \<le> ms_due ms (dr_clk d)" "ok" "drive_inv es open_reads (d'\<lparr>dr_pending := rest\<rparr>)"
      using 1(1) [OF Cons that(1) a [symmetric] refl refl refl that(2) 1(2)] that(3) unfolding d'_def Let_def by blast
    ultimately show ?thesis using 1(3) by auto
  qed
qed

lemma one_clk_inv:
  assumes "faithful ms open_reads" and "drive_inv es open_reads d"
  shows "drive_inv es open_reads (one_clk ms d)"
proof -
  let ?d = "inject ms d"
  obtain cbs m where t: "ms_tick ms (dr_mem ?d) = (cbs, m)" by (cases "ms_tick ms (dr_mem ?d)")
  have i: "drive_inv es open_reads ?d" using assms by (rule inject_inv)
  have q: "open_reads m + mset (map fst cbs) = open_reads (dr_mem ?d) + {#}" using assms(1) t by (simp add: faithful_def)
  have "dr_outstanding (called_back cbs (?d\<lparr>dr_mem := m\<rparr>)) = of_nat (size (open_reads m))"
    using called_back_inv [OF q] i by (simp add: drive_inv_def)
  moreover obtain given where "es = given @ dr_pending ?d" "mset (map fst (dr_printed ?d)) + open_reads (dr_mem ?d) = reads_of given"
    using i by (auto simp: drive_inv_def)
  moreover have "mset (map fst (dr_printed ?d @ cbs)) + open_reads m = mset (map fst (dr_printed ?d)) + open_reads (dr_mem ?d)"
    using q by (simp add: ac_simps)
  ultimately show ?thesis
    unfolding drive_inv_def one_clk_def Let_def t prod.case by (intro conjI exI [of _ given]) (simp_all add: called_back_def)
qed

lemma drive_ends:
  assumes "faithful ms open_reads" and "length es < 2 ^ 64"
  shows "drive_inv es open_reads d \<Longrightarrow> drive ms d = (d', code) \<Longrightarrow>
    code = 0 \<and> dr_pending d' = [] \<and> mset (map fst (dr_printed d')) = reads_of es \<or> code = 1 \<and> max_clk < dr_clk d'"
  using assms
proof (induction ms d rule: drive.induct)
  case (1 ms d)
  show ?case
  proof (cases "dr_pending d = [] \<and> dr_outstanding d = 0")
    case True
    then have d: "d' = d" "code = 0" using 1(3) by (subst (asm) drive.simps, simp)+
    have o: "of_nat (size (open_reads (dr_mem d))) = (0 :: u64)" "mset (map fst (dr_printed d)) + open_reads (dr_mem d) = reads_of es"
      using 1(2) True by (auto simp: drive_inv_def)
    have "size (open_reads (dr_mem d)) \<le> size (reads_of es)" using arg_cong [OF o(2), of size] by simp
    also have "\<dots> \<le> length es" by (simp only: reads_of_def size_mset length_filter_le)
    finally have "size (open_reads (dr_mem d)) < 2 ^ LENGTH(64)" using 1(5) by simp
    then have "open_reads (dr_mem d) = {#}" using arg_cong [OF o(1), of unat] by (simp add: unsigned_of_nat take_bit_nat_eq_self)
    then show ?thesis using o(2) d True by simp
  next
    case False
    have i: "drive_inv es open_reads (one_clk ms d)" using 1(4,2) by (rule one_clk_inv)
    have "drive ms d = (if max_clk < dr_clk (one_clk ms d) then (one_clk ms d, 1) else drive ms (one_clk ms d))"
      by (subst drive.simps) (simp only: if_not_P [OF False] Let_def)
    then show ?thesis
      using 1(1) [OF False refl _ i _ 1(4,5)] 1(3) by (auto split: if_splits)
  qed
qed

text \<open>
  The driver ends, and what it ends with. Over a memory system that calls every read it took back
  once, the driver returns; with code 0 every entry was put in, in order, and every read of the
  trace printed exactly once; with code 1 a billion clocks went by.
\<close>

theorem drive_complete:
  assumes "faithful ms open_reads" and "open_reads m = {#}" and "length es < 2 ^ 64"
    and "drive ms (driver_start es m) = (d, code)"
  shows "code = 0 \<and> dr_pending d = [] \<and> mset (map fst (dr_printed d)) = reads_of es \<or> code = 1 \<and> max_clk < dr_clk d"
  by (rule drive_ends [OF assms(1,3) _ assms(4)])
    (use assms(2) in \<open>simp add: drive_inv_def driver_start_def reads_of_def\<close>)

text \<open>A memory that takes a request when it holds none and calls a read back at the next tick.\<close>

definition one_slot :: "trace_entry option memsys" where
  "one_slot = \<lparr>ms_accept = (\<lambda>e m. if m = None then (True, [], if en_write e then None else Some e) else (False, [], m)),
     ms_tick = (\<lambda>m. case m of None \<Rightarrow> ([], None) | Some e \<Rightarrow> ([(e, en_t_ps e + 1)], None)), ms_due = (\<lambda>clk. clk * 1250)\<rparr>"

theorem drive_complete_witness:
  "\<exists>d. drive one_slot (driver_start [\<lparr>en_t_ps = 0, en_write = False, en_addr = 64\<rparr>, \<lparr>en_t_ps = 0, en_write = False, en_addr = 128\<rparr>] None)
     = (d, 0) \<and> mset (map (en_addr \<circ> fst) (dr_printed d)) = {#64, 128#}"
proof -
  let ?es = "[\<lparr>en_t_ps = 0, en_write = False, en_addr = 64\<rparr>, \<lparr>en_t_ps = 0, en_write = False, en_addr = 128\<rparr>]"
  have f: "faithful one_slot (\<lambda>m. case m of None \<Rightarrow> {#} | Some e \<Rightarrow> {#e#})"
    by (auto simp: faithful_def one_slot_def split: option.splits if_splits)
  obtain d code where r: "drive one_slot (driver_start ?es None) = (d, code)" by fastforce
  have "snd (drive one_slot (driver_start ?es None)) = 0" by code_simp
  then have "code = 0" using r by simp
  then have "mset (map fst (dr_printed d)) = reads_of ?es"
    using drive_complete [OF f _ _ r] by simp
  from arg_cong [OF this, of "image_mset en_addr"] show ?thesis
    using r \<open>code = 0\<close> by (simp add: reads_of_def multiset.map_comp)
qed

end
