(* ===== verification/Probes.thy ===== *)
theory Probes
  imports Mailbox Fpu Console
begin

text \<open>
  The latency probe, \<open>runtime/mesh/hes_probe.h\<close>, and the cluster image that runs it,
  \<open>runtime/mesh/cluster_probe.c\<close>, with the ranges of \<open>memsys_expect.h\<close> the host checks its
  figures against (\<open>tests/mesh_probe.c\<close>). The probe walks a chain of indices, each load's address
  coming from the load before; what the memory system does is a parameter, the cycle counter as
  a function of the loads made so far.
\<close>

section \<open>The chain\<close>

definition hes_chain_init :: "u32 \<Rightarrow> u32 \<Rightarrow> u32 \<Rightarrow> mem \<Rightarrow> mem" where
  "hes_chain_init chain nslots stride_slots m =
     (let steps = nslots div stride_slots
      in for_u32 0 steps (\<lambda>i m. st32 m (elem chain (i * stride_slots)) (((i + 1) mod steps) * stride_slots)) m)"

text \<open>The counter, read after the loads of a list of addresses.\<close>

type_synonym cycle_counter = "u32 list \<Rightarrow> u32"

definition hes_chain_walk :: "u32 \<Rightarrow> u32 \<Rightarrow> cycle_counter \<Rightarrow> mem \<Rightarrow> u32 list \<Rightarrow> u32 \<times> u32 list" where
  "hes_chain_walk chain steps read_cycle m loads =
     (let t0 = read_cycle loads;
          (idx, loads) = for_u32 0 steps (\<lambda>i (idx, loads). (ld32 m (elem chain idx), loads @ [elem chain idx])) (0, loads);
          t1 = read_cycle loads
      in (t1 - t0, loads))"

section \<open>The cluster's measurements\<close>

definition TCDM_SLOTS :: u32 where "TCDM_SLOTS = 1024"
definition HBM_SLOTS :: u32 where "HBM_SLOTS = 1024"
definition STRIDE_SLOTS :: u32 where "STRIDE_SLOTS = 32"
definition PROBE_ALIVE :: u32 where "PROBE_ALIVE = 0"
definition PROBE_TCDM :: u32 where "PROBE_TCDM = 1"
definition PROBE_HBM :: u32 where "PROBE_HBM = 2"
definition PROBE_NB_CORE :: u32 where "PROBE_NB_CORE = 3"

definition mbox_field :: "u32 \<Rightarrow> string \<Rightarrow> u32" where
  "mbox_field mbox f = mbox + of_nat (the (offset_of f mbox_layout))"

text \<open>What the control core does between the sign-in and the last barrier.\<close>

definition measure_chain :: "u32 \<Rightarrow> u32 \<Rightarrow> u32 \<Rightarrow> u32 \<Rightarrow> cycle_counter \<Rightarrow> mem \<times> u32 list \<Rightarrow> mem \<times> u32 list" where
  "measure_chain chain slots laps result read_cycle = (\<lambda>(m, loads).
     let m = hes_chain_init chain slots STRIDE_SLOTS m;
         steps = slots div STRIDE_SLOTS;
         (cycles, loads) = hes_chain_walk chain (steps * laps) read_cycle m loads
     in (st32 m result (cycles div (steps * laps)), loads))"

definition cluster_probe :: "cluster_cfg \<Rightarrow> u32 \<Rightarrow> cycle_counter \<Rightarrow> mem \<times> u32 list \<Rightarrow> mem \<times> u32 list" where
  "cluster_probe cfg tcdm_chain read_cycle s =
     (let mbox = hes_mailbox_at (my_tcdm cfg); probe = mbox_field mbox ''probe'';
          s = measure_chain tcdm_chain TCDM_SLOTS 8 (elem probe PROBE_TCDM) read_cycle s;
          (m, loads) = measure_chain (my_load_scratch cfg) HBM_SLOTS 4 (elem probe PROBE_HBM) read_cycle s;
          m = st32 m (elem probe PROBE_ALIVE) (ld32 m (mbox_field mbox ''alive_mask''));
          m = st32 m (elem probe PROBE_NB_CORE) (my_nb_core cfg);
          m = st32 m (mbox_field mbox ''nb_cores'') (my_nb_core cfg);
          m = st32 m (mbox_field mbox ''magic'') HES_MBOX_MAGIC
      in (m, loads))"

section \<open>The host's check\<close>

definition EXPECT_CLUSTER_TCDM_LO :: u32 where "EXPECT_CLUSTER_TCDM_LO = 1"
definition EXPECT_CLUSTER_TCDM_HI :: u32 where "EXPECT_CLUSTER_TCDM_HI = 8"
definition EXPECT_CLUSTER_HBM_LO :: u32 where "EXPECT_CLUSTER_HBM_LO = 100"
definition EXPECT_CLUSTER_HBM_HI :: u32 where "EXPECT_CLUSTER_HBM_HI = 400"

definition probe_line :: "char list \<Rightarrow> string \<Rightarrow> string \<Rightarrow> u32 \<Rightarrow> string \<Rightarrow> string" where
  "probe_line junk tag what measured out =
     print_str '' cycles/access'' (print_u64 junk (ucast measured) (print_str '' = '' (print_str what (print_str tag out))))"

definition probe_report :: "char list \<Rightarrow> string \<Rightarrow> u32 \<Rightarrow> u32 \<Rightarrow> u32 \<Rightarrow> string \<times> u32 \<Rightarrow> string \<times> u32" where
  "probe_report junk what measured lo hi = (\<lambda>(out, failures).
     let ok = measured \<ge> lo \<and> measured \<le> hi;
         out = probe_line junk (if ok then ''  ok   '' else ''  FAIL '') what measured out;
         out = print_u64 junk (ucast lo) (print_str '' (expected '' out);
         out = print_str '')\<newline>'' (print_u64 junk (ucast hi) (print_str ''..'' out))
     in (out, if ok then failures else failures + 1))"

section \<open>Where a walk goes\<close>

text \<open>The chain is one cycle through every slot it visits.\<close>

definition slot :: "u32 \<Rightarrow> nat \<Rightarrow> nat \<Rightarrow> nat \<Rightarrow> u32" where
  "slot chain stride steps j = chain + 4 * of_nat (j mod steps * stride)"

lemma slots_in: "0 < stride \<Longrightarrow> i < nslots div stride \<Longrightarrow> i * stride < (nslots :: nat)"
  by (metis div_mult_self_is_m div_le_mono leD leI mult.commute)

lemma chain_init_outs:
  assumes "stride \<noteq> 0"
  shows "hes_chain_init chain nslots stride m
    = outs chain (\<lambda>e. of_nat ((e div unat stride + 1) mod (unat nslots div unat stride) * unat stride))
        (map (\<lambda>i. i * unat stride) [0..<unat nslots div unat stride]) m"
proof -
  let ?s = "unat stride" and ?n = "unat nslots div unat stride"
  let ?v = "\<lambda>e. of_nat ((e div ?s + 1) mod ?n * ?s) :: u32"
  have n: "unat (nslots div stride) = ?n" by (rule unat_div)
  have s: "0 < ?s" using assms by (simp add: unat_gt_0)
  have step: "st32 m (elem chain (of_nat i * stride)) (((of_nat i + 1) mod (nslots div stride)) * stride)
      = st32 m (chain + 4 * of_nat (i * ?s)) (?v (i * ?s))" if i: "i < ?n" for i m
  proof -
    have "unat (of_nat (i + 1) mod (nslots div stride)) = (i + 1) mod ?n"
    proof -
      have "i + 1 < 4294967296"
        using i unat_u32_lt [of nslots] div_le_dividend [of "unat nslots" ?s] by linarith
      then show ?thesis unfolding unat_mod n by (simp only: unat_of_nat_small)
    qed
    from arg_cong [where f = "of_nat :: nat \<Rightarrow> u32", OF this]
    have "of_nat ((i + 1) mod ?n) = (of_nat (i + 1) mod (nslots div stride) :: u32)" by simp
    then show ?thesis using s by (simp add: elem_def add.commute)
  qed
  have "fold (\<lambda>i m. st32 m (elem chain (of_nat i * stride)) (((of_nat i + 1) mod (nslots div stride)) * stride)) [0..<d] m
      = outs chain ?v (map (\<lambda>i. i * ?s) [0..<d]) m" if "d \<le> ?n" for d
    using that by (induction d) (simp_all add: step outs_snoc)
  from this [of ?n] show ?thesis by (simp add: hes_chain_init_def Let_def for_u32_zero n)
qed

lemma chain_next:
  assumes "stride \<noteq> 0" and "4 * unat nslots \<le> 4294967296" and "j < unat nslots div unat stride"
  shows "ld32 (hes_chain_init chain nslots stride m) (elem chain (of_nat (j * unat stride)))
    = of_nat ((j + 1) mod (unat nslots div unat stride) * unat stride)"
proof -
  have s: "0 < unat stride" using assms(1) by (simp add: unat_gt_0)
  have "set (map (\<lambda>i. i * unat stride) [0..<unat nslots div unat stride]) \<subseteq> {..<unat nslots}"
    using slots_in [OF s] by auto
  from ld32_outs_at [OF assms(2) this, of "j * unat stride"] assms(3) s
  show ?thesis unfolding chain_init_outs [OF assms(1)] by (auto simp: elem_def)
qed

lemma chain_init_outside:
  assumes "stride \<noteq> 0" and "x \<notin> span chain (4 * unat nslots)"
  shows "hes_chain_init chain nslots stride m x = m x"
  unfolding chain_init_outs [OF assms(1)]
  by (rule outs_outside [OF _ assms(2)]) (use slots_in assms(1) in \<open>auto simp: unat_gt_0\<close>)

lemma chain_walk_laps:
  assumes "stride \<noteq> 0" and "4 * unat nslots \<le> 4294967296" and "0 < unat nslots div unat stride"
  shows "hes_chain_walk chain cnt read_cycle (hes_chain_init chain nslots stride m) loads
    = (let A = map (slot chain (unat stride) (unat nslots div unat stride)) [0..<unat cnt]
       in (read_cycle (loads @ A) - read_cycle loads, loads @ A))"
proof -
  let ?n = "unat nslots div unat stride" and ?m = "hes_chain_init chain nslots stride m"
  have "fold (\<lambda>i (idx, loads). (ld32 ?m (elem chain idx), loads @ [elem chain idx])) [0..<k] (0, loads)
      = (of_nat (k mod ?n * unat stride), loads @ map (slot chain (unat stride) ?n) [0..<k])" for k
  proof (induction k)
    case (Suc k)
    have "ld32 ?m (elem chain (of_nat (k mod ?n * unat stride))) = of_nat (Suc k mod ?n * unat stride)"
      using chain_next [OF assms(1,2), of "k mod ?n"] assms(3) by (simp add: mod_Suc_eq)
    then show ?case using Suc by (simp add: slot_def elem_def)
  qed simp
  then show ?thesis by (simp add: hes_chain_walk_def for_u32_zero Let_def)
qed

text \<open>Two slots a line apart or more are never in the same line.\<close>

lemma slots_distinct_lines:
  assumes "16 \<le> stride" and "unat chain + 4 * (steps * stride) \<le> 4294967296" and "i < steps" "j < steps" "i \<noteq> j"
  shows "drop_bit 6 (slot chain stride steps i) \<noteq> drop_bit 6 (slot chain stride steps j)"
proof -
  have num: "unat (drop_bit 6 (slot chain stride steps k)) = (unat chain + 4 * (k * stride)) div 64" if k: "k < steps" for k
  proof -
    have "Suc k * stride \<le> steps * stride" using k by (intro mult_le_mono1) simp
    then have lt: "unat chain + 4 * (k * stride) < 4294967296" using assms(1,2) by simp
    then have "unat (of_nat (4 * (k * stride)) :: u32) = 4 * (k * stride)" by (intro unat_of_nat_small) linarith
    then have "unat (chain + of_nat (4 * (k * stride))) = unat chain + 4 * (k * stride)"
      using lt by (simp only: unat_plus_small)
    then show ?thesis using k by (simp add: slot_def drop_bit_eq_div unat_div)
  qed
  have apart: "(unat chain + 4 * (a * stride)) div 64 \<noteq> (unat chain + 4 * (b * stride)) div 64" if "a < b" for a b
  proof -
    have "Suc a * stride \<le> b * stride" using that by (intro mult_le_mono1) simp
    then have "unat chain + 4 * (a * stride) + 64 \<le> unat chain + 4 * (b * stride)" using assms(1) by simp
    then have "(unat chain + 4 * (a * stride) + 64) div 64 \<le> (unat chain + 4 * (b * stride)) div 64" by (rule div_le_mono)
    then show ?thesis by simp
  qed
  have "i < j \<or> j < i" using assms(5) by linarith
  then have "unat (drop_bit 6 (slot chain stride steps i)) \<noteq> unat (drop_bit 6 (slot chain stride steps j))"
    unfolding num [OF assms(3)] num [OF assms(4)] using apart [of i j] apart [of j i] by presburger
  then show ?thesis by fastforce
qed


section \<open>What a measurement says\<close>

text \<open>Every load from a region costs between \<open>lo\<close> and \<open>hi\<close> cycles, whatever came before.\<close>

definition costs :: "cycle_counter \<Rightarrow> u32 set \<Rightarrow> u32 \<Rightarrow> u32 \<Rightarrow> bool" where
  "costs read_cycle R lo hi \<longleftrightarrow>
     (\<forall>loads. \<forall>a\<in>R. lo \<le> read_cycle (loads @ [a]) - read_cycle loads \<and> read_cycle (loads @ [a]) - read_cycle loads \<le> hi)"

lemma costs_add_up:
  assumes "costs rc R lo hi" and "set A \<subseteq> R" and "length A * unat hi < 4294967296"
  shows "length A * unat lo \<le> unat (rc (h @ A) - rc h) \<and> unat (rc (h @ A) - rc h) \<le> length A * unat hi"
  using assms(2,3)
proof (induction A rule: rev_induct)
  case (snoc a A)
  let ?d = "rc (h @ A) - rc h" and ?e = "rc ((h @ A) @ [a]) - rc (h @ A)"
  have e: "unat lo \<le> unat ?e" "unat ?e \<le> unat hi"
    using assms(1) snoc.prems(1) unfolding costs_def word_le_nat_alt by (auto simp del: append_assoc)
  have d: "length A * unat lo \<le> unat ?d" "unat ?d \<le> length A * unat hi" using snoc by auto
  have "unat (?d + ?e) = unat ?d + unat ?e"
    by (rule unat_plus_small) (use d e snoc.prems(2) in simp)
  then have "unat (rc (h @ A @ [a]) - rc h) = unat ?d + unat ?e" by simp
  then show ?case using d e by simp
qed simp

lemma average_between:
  assumes "n * lo \<le> t" and "t \<le> n * hi" and "0 < (n :: nat)"
  shows "lo \<le> t div n \<and> t div n \<le> hi"
proof
  show "lo \<le> t div n" using div_le_mono [OF assms(1), of n] assms(3) by simp
  show "t div n \<le> hi" using div_le_mono [OF assms(2), of n] assms(3) by simp
qed

lemma slot_elem:
  assumes "0 < stride" and "0 < nslots div stride"
  shows "\<exists>e < nslots. slot chain stride (nslots div stride) j = chain + 4 * of_nat e"
  using slots_in [OF assms(1), of "j mod (nslots div stride)" nslots] assms(2) unfolding slot_def by auto

lemma measure_chain_result:
  assumes c: "costs rc {chain + 4 * of_nat e |e. e < 1024} lo hi" and laps: "0 < unat laps" "32 * unat laps * unat hi < 4294967296" "unat laps < 1024"
    and res: "span result 4 \<inter> span chain 4096 = {}"
  shows "\<exists>v. lo \<le> v \<and> v \<le> hi \<and> fst (measure_chain chain 1024 laps result rc (m, h)) = st32 (hes_chain_init chain 1024 32 m) result v
    \<and> snd (measure_chain chain 1024 laps result rc (m, h)) = h @ map (slot chain 32 32) [0..<32 * unat laps]"
proof -
  have n: "unat (1024 div STRIDE_SLOTS * laps) = 32 * unat laps"
    using laps(3) by (subst unat_mult_small) (simp_all add: STRIDE_SLOTS_def)
  let ?A = "map (slot chain 32 32) [0..<32 * unat laps]" and ?v = "(rc (h @ map (slot chain 32 32) [0..<32 * unat laps]) - rc h) div (1024 div STRIDE_SLOTS * laps)"
  have w: "hes_chain_walk chain (1024 div STRIDE_SLOTS * laps) rc (hes_chain_init chain 1024 32 m) h = (rc (h @ ?A) - rc h, h @ ?A)"
    using chain_walk_laps [of 32 1024 chain "1024 div STRIDE_SLOTS * laps" rc m h] by (simp add: Let_def n)
  have "set ?A \<subseteq> {chain + 4 * of_nat e |e. e < 1024}"
    using slot_elem [of 32 1024 chain] by auto
  from costs_add_up [OF c this, of h] laps(2)
  have t: "32 * unat laps * unat lo \<le> unat (rc (h @ ?A) - rc h)" "unat (rc (h @ ?A) - rc h) \<le> 32 * unat laps * unat hi" by simp_all
  have "lo \<le> ?v \<and> ?v \<le> hi"
    unfolding word_le_nat_alt unat_div n by (rule average_between [OF t]) (use laps(1) in simp)
  then show ?thesis using w by (auto simp: measure_chain_def Let_def STRIDE_SLOTS_def)
qed


section \<open>The figures the cluster publishes\<close>

text \<open>The mailbox as an array of words.\<close>

lemma ld_field:
  assumes "i \<noteq> j" "i < 44" "j < 44"
  shows "ld32 (st32 m (elem b i) v) (elem b j) = ld32 m (elem b j)"
proof -
  have u: "unat i < 44" "unat j < 44" using assms(2,3) by (simp_all add: word_less_nat_alt)
  have "unat i \<noteq> unat j" using assms(1) by (simp add: word_unat_eq_iff)
  from elem_disjoint [OF u this, of b] show ?thesis by (intro ld32_st32_diff) (simp add: elem_def)
qed

lemma field_in: "i < 44 \<Longrightarrow> span (elem b i) 4 \<subseteq> span b sizeof_mailbox"
proof -
  assume "i < 44"
  then have u: "unat i < 44" by (simp add: word_less_nat_alt)
  have "sizeof_mailbox = 4 * 44" by (simp add: sizeof_mailbox_def mbox_layout_def HES_MAILBOX_MAX_ARGS_def)
  then show ?thesis using elem_span [OF u, of b] by (simp add: elem_def)
qed

lemma ld_field_init:
  assumes "span chain 4096 \<inter> span b sizeof_mailbox = {}" and "i < 44"
  shows "ld32 (hes_chain_init chain 1024 32 m) (elem b i) = ld32 m (elem b i)"
  by (rule ld32_cong, rule chain_init_outside) (use assms field_in [OF assms(2), of b] in auto)

lemma mbox_fields:
  "elem (mbox_field b ''probe'') PROBE_ALIVE = elem b 28" "elem (mbox_field b ''probe'') PROBE_TCDM = elem b 29"
  "elem (mbox_field b ''probe'') PROBE_HBM = elem b 30" "elem (mbox_field b ''probe'') PROBE_NB_CORE = elem b 31"
  "mbox_field b ''alive_mask'' = elem b 1" "mbox_field b ''nb_cores'' = elem b 8" "mbox_field b ''magic'' = elem b 0"
  by (simp_all add: mbox_field_def mbox_layout_def elem_def PROBE_ALIVE_def PROBE_TCDM_def PROBE_HBM_def PROBE_NB_CORE_def HES_MAILBOX_MAX_ARGS_def)

lemma probe_report_passes: "lo \<le> v \<Longrightarrow> v \<le> hi \<Longrightarrow> snd (probe_report junk what v lo hi (out, failures)) = failures"
  by (simp add: probe_report_def Let_def)

text \<open>
  What the probe reports is what an access costs. Each walk of the control core goes round its
  chain, every lap loading each of the 32 slots once, in main memory no two from the same cache line;
  and if, whatever was loaded before, a load of the chain costs between \<open>lo\<close> and \<open>hi\<close> cycles, so
  does the figure in the mailbox, and the host's check against that range counts no failure. The
  mailbox then holds the cores, the alive mask as it was, and the magic number.
\<close>

theorem cluster_probe_figures:
  fixes m :: mem and h :: "u32 list"
  assumes cfg: "cfg = hes_my c" and sep: "span chain 4096 \<inter> span (my_tcdm cfg) sizeof_mailbox = {}"
    and tcdm: "costs rc {chain + 4 * of_nat e |e. e < 1024} lo hi" "unat hi < 1000000"
    and hbm: "costs rc {my_load_scratch cfg + 4 * of_nat e |e. e < 1024} lo' hi'" "unat hi' < 1000000"
  defines "m' \<equiv> fst (cluster_probe cfg chain rc (m, h))" and "probe \<equiv> mbox_field (my_tcdm cfg) ''probe''"
  shows "snd (cluster_probe cfg chain rc (m, h))
      = h @ map (slot chain 32 32) [0..<256] @ map (slot (my_load_scratch cfg) 32 32) [0..<128]
    \<and> (i < 32 \<longrightarrow> j < 32 \<longrightarrow> i \<noteq> j \<longrightarrow> drop_bit 6 (slot (my_load_scratch cfg) 32 32 i) \<noteq> drop_bit 6 (slot (my_load_scratch cfg) 32 32 j))
    \<and> snd (probe_report junk what (ld32 m' (elem probe PROBE_TCDM)) lo hi (out, failures)) = failures
    \<and> snd (probe_report junk what' (ld32 m' (elem probe PROBE_HBM)) lo' hi' (out', failures)) = failures
    \<and> ld32 m' (elem probe PROBE_ALIVE) = ld32 m (mbox_field (my_tcdm cfg) ''alive_mask'')
    \<and> ld32 m' (elem probe PROBE_NB_CORE) = my_nb_core cfg
    \<and> ld32 m' (mbox_field (my_tcdm cfg) ''magic'') = HES_MBOX_MAGIC"
proof -
  let ?b = "my_tcdm cfg" and ?hbm = "my_load_scratch cfg"
  have at: "hes_mailbox_at ?b = ?b" by (simp add: hes_mailbox_at_def HES_MAILBOX_OFFSET_def)
  have hsep: "span ?hbm 4096 \<inter> span ?b sizeof_mailbox = {}"
    unfolding cfg by (rule span_disjoint; cases c)
      (simp_all add: snitch_cfg_def spatz_cfg_def sizeof_mailbox_def mbox_layout_def HES_MAILBOX_MAX_ARGS_def)
  have rsep: "span (elem ?b i) 4 \<inter> span chain 4096 = {}" "span (elem ?b i) 4 \<inter> span ?hbm 4096 = {}" if "i < 44" for i
    using field_in [OF that, of ?b] sep hsep by blast+
  obtain v where v: "lo \<le> v" "v \<le> hi"
    "measure_chain chain 1024 8 (elem ?b 29) rc (m, h)
      = (st32 (hes_chain_init chain 1024 32 m) (elem ?b 29) v, h @ map (slot chain 32 32) [0..<256])"
    using measure_chain_result [OF tcdm(1) _ _ _ rsep(1), of 8 29 m h] tcdm(2) by (auto simp: prod_eq_iff)
  let ?m1 = "st32 (hes_chain_init chain 1024 32 m) (elem ?b 29) v" and ?h1 = "h @ map (slot chain 32 32) [0..<256]"
  obtain v' where v': "lo' \<le> v'" "v' \<le> hi'"
    "measure_chain ?hbm 1024 4 (elem ?b 30) rc (?m1, ?h1)
      = (st32 (hes_chain_init ?hbm 1024 32 ?m1) (elem ?b 30) v', ?h1 @ map (slot ?hbm 32 32) [0..<128])"
    using measure_chain_result [OF hbm(1) _ _ _ rsep(2), of 4 30 ?m1 ?h1] hbm(2) by (auto simp: prod_eq_iff)
  let ?m2 = "st32 (hes_chain_init ?hbm 1024 32 ?m1) (elem ?b 30) v'"
  have p: "cluster_probe cfg chain rc (m, h) =
      (st32 (st32 (st32 (st32 ?m2 (elem ?b 28) (ld32 ?m2 (elem ?b 1))) (elem ?b 31) (my_nb_core cfg)) (elem ?b 8) (my_nb_core cfg))
        (elem ?b 0) HES_MBOX_MAGIC, ?h1 @ map (slot ?hbm 32 32) [0..<128])"
    unfolding cluster_probe_def Let_def at mbox_fields TCDM_SLOTS_def HBM_SLOTS_def v(3) v'(3) split_conv ..
  have lines: "i < 32 \<longrightarrow> j < 32 \<longrightarrow> i \<noteq> j \<longrightarrow> drop_bit 6 (slot ?hbm 32 32 i) \<noteq> drop_bit 6 (slot ?hbm 32 32 j)"
    by (intro impI slots_distinct_lines) (cases c; simp add: cfg snitch_cfg_def spatz_cfg_def)+
  have reads: "ld32 m' (elem ?b 29) = v" "ld32 m' (elem ?b 30) = v'" "ld32 m' (elem ?b 28) = ld32 m (elem ?b 1)"
    "ld32 m' (elem ?b 31) = my_nb_core cfg" "ld32 m' (elem ?b 0) = HES_MBOX_MAGIC"
    unfolding m'_def p fst_conv by (simp_all add: ld_field ld_field_init [OF sep] ld_field_init [OF hsep])
  show ?thesis
    unfolding probe_def mbox_fields reads using p lines by (simp add: v v' probe_report_passes)
qed


text \<open>A memory whose scratchpad answers in 2 cycles and whose main memory takes 150.\<close>

definition two_levels :: cycle_counter where
  "two_levels loads = sum_list (map (\<lambda>a. if a < 0x80000000 then 2 else 150) loads)"

lemma two_levels_costs:
  assumes "(unat p < 0x7fff0000 \<and> x = 2) \<or> (0x80000000 \<le> unat p \<and> unat p < 0xffff0000 \<and> x = 150)" and "lo \<le> x" "x \<le> hi"
  shows "costs two_levels {p + 4 * of_nat e |e. e < 1024} lo hi"
  unfolding costs_def
proof (intro allI ballI)
  fix loads a assume "a \<in> {p + 4 * of_nat e |e. e < 1024}"
  then obtain e where e: "e < 1024" "a = p + of_nat (4 * e)" by auto
  have "unat (of_nat (4 * e) :: u32) = 4 * e" using e(1) by (intro unat_of_nat_small) linarith
  then have "unat a = unat p + 4 * e" unfolding e(2) using e(1) assms(1) by (subst unat_plus_small) auto
  then have "(if a < 0x80000000 then 2 else 150) = x" using assms(1) e(1) by (auto simp: word_less_nat_alt)
  then show "lo \<le> two_levels (loads @ [a]) - two_levels loads \<and> two_levels (loads @ [a]) - two_levels loads \<le> hi"
    using assms(2,3) by (simp add: two_levels_def)
qed

theorem cluster_probe_figures_witness:
  "let m' = fst (cluster_probe snitch_cfg 0x10001000 two_levels (\<lambda>_. 0, [])); probe = mbox_field 0x10000000 ''probe''
   in snd (probe_report [] ''own TCDM'' (ld32 m' (elem probe PROBE_TCDM)) EXPECT_CLUSTER_TCDM_LO EXPECT_CLUSTER_TCDM_HI ('''', 0)) = 0
    \<and> snd (probe_report [] ''main memory'' (ld32 m' (elem probe PROBE_HBM)) EXPECT_CLUSTER_HBM_LO EXPECT_CLUSTER_HBM_HI ('''', 0)) = 0"
proof -
  have cfg: "snitch_cfg = hes_my HES_CLUSTER_SNITCH" by simp
  have b: "my_tcdm snitch_cfg = 0x10000000" "my_load_scratch snitch_cfg = 0x86000000" by (simp_all add: snitch_cfg_def)
  have sep: "span 0x10001000 4096 \<inter> span (my_tcdm snitch_cfg) sizeof_mailbox = {}"
    unfolding b by (rule span_disjoint) (simp_all add: sizeof_mailbox_def mbox_layout_def HES_MAILBOX_MAX_ARGS_def)
  have t: "costs two_levels {0x10001000 + 4 * of_nat e |e. e < 1024} EXPECT_CLUSTER_TCDM_LO EXPECT_CLUSTER_TCDM_HI"
    by (rule two_levels_costs [where x = 2]) (simp_all add: EXPECT_CLUSTER_TCDM_LO_def EXPECT_CLUSTER_TCDM_HI_def)
  have h: "costs two_levels {my_load_scratch snitch_cfg + 4 * of_nat e |e. e < 1024} EXPECT_CLUSTER_HBM_LO EXPECT_CLUSTER_HBM_HI"
    unfolding b by (rule two_levels_costs [where x = 150]) (simp_all add: EXPECT_CLUSTER_HBM_LO_def EXPECT_CLUSTER_HBM_HI_def)
  have u: "unat EXPECT_CLUSTER_TCDM_HI < 1000000" "unat EXPECT_CLUSTER_HBM_HI < 1000000"
    by (simp_all add: EXPECT_CLUSTER_TCDM_HI_def EXPECT_CLUSTER_HBM_HI_def)
  show ?thesis
    using cluster_probe_figures [OF cfg sep t u(1) h u(2), where m = "\<lambda>_. 0" and h = "[]" and junk = "[]" and failures = 0
        and what = "''own TCDM''" and what' = "''main memory''" and out = "''''" and out' = "''''"]
    unfolding Let_def b by blast
qed


end
