(* ===== verification/HostProbe.thy ===== *)
theory HostProbe
  imports Probes
begin

text \<open>
  The host's side of the memory probe, \<open>runtime/tests/mesh_probe.c\<close>: it measures its own memory, checks
  what each cluster published (\<open>Probes\<close>) and the way to each cluster's scratchpad and peripherals. The
  world is the memory, the cycle counter as a function of the loads made, and what the polls of a
  cluster's magic number read.
\<close>

section \<open>The program\<close>

definition BIG_SLOTS :: u32 where "BIG_SLOTS = 4 * 1024 * 1024 div 4"
definition SMALL_SLOTS :: u32 where "SMALL_SLOTS = 1024"
definition EXPECT_HOST_L1_LO :: u32 where "EXPECT_HOST_L1_LO = 1"
definition EXPECT_HOST_L1_HI :: u32 where "EXPECT_HOST_L1_HI = 10"

text \<open>Memory, loads made, console, failures.\<close>

record probe_state =
  ps_mem :: mem
  ps_loads :: "u32 list"
  ps_out :: string
  ps_failures :: u32

definition probe_print :: "string \<Rightarrow> probe_state \<Rightarrow> probe_state" where
  "probe_print s st = st\<lparr>ps_out := print_str s (ps_out st)\<rparr>"

definition probe_load :: "u32 \<Rightarrow> probe_state \<Rightarrow> u32 \<times> probe_state" where
  "probe_load a st = (ld32 (ps_mem st) a, st\<lparr>ps_loads := ps_loads st @ [a]\<rparr>)"

definition probe_fail :: "bool \<Rightarrow> probe_state \<Rightarrow> probe_state" where
  "probe_fail ok st = (if ok then st else st\<lparr>ps_failures := ps_failures st + 1\<rparr>)"

definition host_report :: "char list \<Rightarrow> string \<Rightarrow> u32 \<Rightarrow> u32 \<Rightarrow> u32 \<Rightarrow> probe_state \<Rightarrow> probe_state" where
  "host_report junk what measured lo hi st =
     (case probe_report junk what measured lo hi (ps_out st, ps_failures st) of (out, f) \<Rightarrow> st\<lparr>ps_out := out, ps_failures := f\<rparr>)"

definition observe :: "char list \<Rightarrow> string \<Rightarrow> u32 \<Rightarrow> string \<Rightarrow> probe_state \<Rightarrow> probe_state" where
  "observe junk what measured why st =
     st\<lparr>ps_out := print_str '')\<newline>'' (print_str why (print_str '' (not asserted: '' (probe_line junk ''  --   '' what measured (ps_out st))))\<rparr>"

definition host_check :: "string \<Rightarrow> bool \<Rightarrow> probe_state \<Rightarrow> probe_state" where
  "host_check what ok st =
     probe_fail ok (probe_print ''\<newline>'' (probe_print what (probe_print (if ok then ''  ok   '' else ''  FAIL '') st)))"

definition host_walk :: "u32 \<Rightarrow> u32 \<Rightarrow> cycle_counter \<Rightarrow> probe_state \<Rightarrow> u32 \<times> probe_state" where
  "host_walk chain steps rc st =
     (case hes_chain_walk chain steps rc (ps_mem st) (ps_loads st) of (c, loads) \<Rightarrow> (c, st\<lparr>ps_loads := loads\<rparr>))"

definition host_init :: "u32 \<Rightarrow> u32 \<Rightarrow> probe_state \<Rightarrow> probe_state" where
  "host_init chain slots st = st\<lparr>ps_mem := hes_chain_init chain slots STRIDE_SLOTS (ps_mem st)\<rparr>"

definition probe_uncached :: "u32 \<Rightarrow> u32 \<Rightarrow> cycle_counter \<Rightarrow> probe_state \<Rightarrow> u32 \<times> probe_state" where
  "probe_uncached base slots rc st =
     (let st = host_init base slots st;
          steps = slots div STRIDE_SLOTS;
          (c, st) = host_walk base (steps * 4) rc st
      in (c div (steps * 4), st))"

text \<open>The polls of one cluster: what each read of its magic number gives.\<close>

fun sees_magic :: "(nat \<Rightarrow> u32) \<Rightarrow> nat \<Rightarrow> nat \<Rightarrow> bool" where
  "sees_magic polls 0 t = False"
| "sees_magic polls (Suc n) t = (polls t = HES_MBOX_MAGIC \<or> sees_magic polls n (Suc t))"

definition max_spins :: nat where "max_spins = 20000000"

definition wait_for_cluster :: "char list \<Rightarrow> (nat \<Rightarrow> u32) \<Rightarrow> string \<Rightarrow> probe_state \<Rightarrow> bool \<times> probe_state" where
  "wait_for_cluster junk polls name st =
     (if sees_magic polls max_spins 0 then (True, st)
      else let st = probe_print '' never signed in (magic=0x'' (probe_print name (probe_print ''  FAIL cluster '' st));
               st = st\<lparr>ps_out := print_hex junk (ucast (polls max_spins)) (ps_out st)\<rparr>
           in (False, probe_fail False (probe_print '')\<newline>'' st)))"

text \<open>Writing 64 words and reading them back.\<close>

definition write_words :: "u32 \<Rightarrow> mem \<Rightarrow> mem" where
  "write_words p = for_u32 0 64 (\<lambda>i m. st32 m (elem p i) (0xa5a50000 + i))"

definition words_back :: "u32 \<Rightarrow> probe_state \<Rightarrow> bool \<times> probe_state" where
  "words_back p st = for_u32 0 64 (\<lambda>i (ok, st). case probe_load (elem p i) st of (v, st) \<Rightarrow> (if v \<noteq> 0xa5a50000 + i then False else ok, st)) (True, st)"

definition cluster_section ::
    "char list \<Rightarrow> (nat \<Rightarrow> u32) \<Rightarrow> cycle_counter \<Rightarrow> string \<Rightarrow> u32 \<Rightarrow> u32 \<Rightarrow> u32 \<Rightarrow> probe_state \<Rightarrow> probe_state" where
  "cluster_section junk polls rc name tcdm periph nb_core st =
     (let mbox = hes_mailbox_at tcdm; probe = mbox_field mbox ''probe'';
          st = probe_print '':\<newline>'' (probe_print name (probe_print ''\<newline>cluster '' st));
          (up, st) = wait_for_cluster junk polls name st
      in if \<not> up then st
         else let (alive, st) = probe_load (elem probe PROBE_ALIVE) st;
                  expect_alive = push_bit (unat nb_core) 1 - 1;
                  st = probe_print ''all '' (probe_print (if alive = expect_alive then ''  ok   '' else ''  FAIL '') st);
                  st = st\<lparr>ps_out := print_u64 junk (ucast nb_core) (ps_out st)\<rparr>;
                  st = probe_print '' cores booted (mask=0x'' st;
                  st = st\<lparr>ps_out := print_hex junk (ucast alive) (ps_out st)\<rparr>;
                  st = probe_fail (alive = expect_alive) (probe_print '')\<newline>'' st);
                  (trap, st) = probe_load (mbox_field mbox ''trap_cause'') st;
                  st = host_check ''no cluster core trapped'' (trap = 0) st;
                  (v, st) = probe_load (elem probe PROBE_TCDM) st;
                  st = host_report junk ''cluster core -> own TCDM'' v EXPECT_CLUSTER_TCDM_LO EXPECT_CLUSTER_TCDM_HI st;
                  (v, st) = probe_load (elem probe PROBE_HBM) st;
                  st = host_report junk ''cluster core -> main memory'' v EXPECT_CLUSTER_HBM_LO EXPECT_CLUSTER_HBM_HI st;
                  scratch = tcdm + HES_MAILBOX_SIZE + 0x4000;
                  st = st\<lparr>ps_mem := write_words scratch (ps_mem st)\<rparr>;
                  (rw_ok, st) = words_back scratch st;
                  st = host_check ''host reads back what it writes to cluster TCDM'' rw_ok st;
                  (c, st) = probe_uncached scratch SMALL_SLOTS rc st;
                  st = observe junk ''host -> cluster TCDM'' c ''host-side load latency is not modelled, see above'' st;
                  before = rc (ps_loads st);
                  (_, st) = probe_load (periph + HES_PERIPH_PERF_COUNTER_PROBE) st;
                  after = rc (ps_loads st)
              in host_check ''host -> cluster peripheral answers'' (before \<le> after) st)"

text \<open>\<open>main\<close>, with the address of its small chain; the state at the end and the exit code.\<close>

definition mesh_probe :: "char list \<Rightarrow> (cluster \<Rightarrow> nat \<Rightarrow> u32) \<Rightarrow> cycle_counter \<Rightarrow> u32 \<Rightarrow> probe_state \<Rightarrow> probe_state \<times> int" where
  "mesh_probe junk polls rc small_chain st =
     (let st = probe_print ''\<newline>host (CVA6):\<newline>'' (probe_print ''[HES-PROBE] hetero_soc memory system\<newline>'' st);
          st = host_init small_chain SMALL_SLOTS st;
          steps = SMALL_SLOTS div STRIDE_SLOTS;
          (_, st) = host_walk small_chain (steps * 4) rc st;
          (c, st) = host_walk small_chain (steps * 8) rc st;
          st = host_report junk ''host -> L1 D$ hit'' (c div (steps * 8)) EXPECT_HOST_L1_LO EXPECT_HOST_L1_HI st;
          st = host_init HES_HOST_SCRATCH BIG_SLOTS st;
          steps = BIG_SLOTS div STRIDE_SLOTS;
          (c, st) = host_walk HES_HOST_SCRATCH steps rc st;
          st = observe junk ''host -> main memory'' (c div steps)
            ''the CVA6 model does not stall a dependent load on a D$ miss; cva6_real and cva6_ideal agree to the cycle here'' st;
          st = cluster_section junk (polls HES_CLUSTER_SNITCH) rc ''snitch'' (my_tcdm snitch_cfg) (my_periph snitch_cfg) (my_nb_core snitch_cfg) st;
          st = cluster_section junk (polls HES_CLUSTER_SPATZ) rc ''spatz'' (my_tcdm spatz_cfg) (my_periph spatz_cfg) (my_nb_core spatz_cfg) st;
          st = probe_print ''\<newline>[HES-PROBE] failures='' st;
          st = probe_print ''\<newline>'' (st\<lparr>ps_out := print_u64 junk (ucast (ps_failures st)) (ps_out st)\<rparr>)
      in (st, if ps_failures st = 0 then 0 else 1))"

section \<open>What each part does to the state\<close>

lemma parts [simp]:
  "ps_mem (probe_print s st) = ps_mem st" "ps_loads (probe_print s st) = ps_loads st" "ps_failures (probe_print s st) = ps_failures st"
  "ps_mem (probe_fail ok st) = ps_mem st" "ps_loads (probe_fail ok st) = ps_loads st"
  "ps_failures (probe_fail ok st) = ps_failures st + (if ok then 0 else 1)"
  "ps_mem (host_report junk what v lo hi st) = ps_mem st" "ps_loads (host_report junk what v lo hi st) = ps_loads st"
  "ps_failures (host_report junk what v lo hi st) = ps_failures st + (if lo \<le> v \<and> v \<le> hi then 0 else 1)"
  "ps_mem (observe junk what v why st) = ps_mem st" "ps_loads (observe junk what v why st) = ps_loads st"
  "ps_failures (observe junk what v why st) = ps_failures st"
  "ps_mem (host_check what ok st) = ps_mem st" "ps_loads (host_check what ok st) = ps_loads st"
  "ps_failures (host_check what ok st) = ps_failures st + (if ok then 0 else 1)"
  "ps_mem (host_init chain slots st) = hes_chain_init chain slots STRIDE_SLOTS (ps_mem st)"
  "ps_loads (host_init chain slots st) = ps_loads st" "ps_failures (host_init chain slots st) = ps_failures st"
  "ps_mem (snd (host_walk chain steps rc st)) = ps_mem st" "ps_failures (snd (host_walk chain steps rc st)) = ps_failures st"
  by (simp_all add: probe_print_def probe_fail_def host_report_def probe_report_def observe_def host_check_def host_init_def host_walk_def
      Let_def split: prod.split)

lemma load_parts [simp]:
  "fst (probe_load a st) = ld32 (ps_mem st) a" "ps_mem (snd (probe_load a st)) = ps_mem st"
  "ps_loads (snd (probe_load a st)) = ps_loads st @ [a]" "ps_failures (snd (probe_load a st)) = ps_failures st"
  by (simp_all add: probe_load_def)

lemma chain_walk_length: "length (snd (hes_chain_walk chain steps rc m loads)) = length loads + unat steps"
proof -
  have "length (snd (fold (\<lambda>i (idx, loads). (ld32 m (elem chain idx), loads @ [elem chain idx])) [0..<k] (0, loads))) = length loads + k" for k
    by (induction k) (simp_all add: split_beta)
  then show ?thesis by (simp add: hes_chain_walk_def for_u32_zero Let_def split_beta)
qed

lemma host_walk_length [simp]: "length (ps_loads (snd (host_walk chain steps rc st))) = length (ps_loads st) + unat steps"
  using chain_walk_length [of chain steps rc "ps_mem st" "ps_loads st"] by (simp add: host_walk_def split_beta)

lemma uncached_length [simp]: "length (ps_loads (snd (probe_uncached base SMALL_SLOTS rc st))) = length (ps_loads st) + 128"
  by (simp add: probe_uncached_def Let_def split_beta SMALL_SLOTS_def STRIDE_SLOTS_def)

lemma uncached_parts [simp]:
  "ps_mem (snd (probe_uncached base slots rc st)) = hes_chain_init base slots STRIDE_SLOTS (ps_mem st)"
  "ps_failures (snd (probe_uncached base slots rc st)) = ps_failures st"
  by (simp_all add: probe_uncached_def Let_def split_beta)

lemma write_words_outs: "write_words p m = outs p (\<lambda>e. 0xa5a50000 + of_nat e) [0..<64] m"
proof -
  have "fold (\<lambda>i m. st32 m (elem p (of_nat i)) (0xa5a50000 + of_nat i)) [0..<k] m = outs p (\<lambda>e. 0xa5a50000 + of_nat e) [0..<k] m" for k
    by (induction k) (simp_all add: outs_snoc elem_def)
  then show ?thesis by (simp add: write_words_def for_u32_zero)
qed

lemma word_written: "i < 64 \<Longrightarrow> ld32 (write_words p m) (elem p (of_nat i)) = 0xa5a50000 + of_nat i"
  unfolding write_words_outs elem_def by (rule ld32_outs_at [where n = 64]) auto

text \<open>One word read back.\<close>

definition word_back :: "u32 \<Rightarrow> u32 \<Rightarrow> bool \<times> probe_state \<Rightarrow> bool \<times> probe_state" where
  "word_back p i = (\<lambda>(ok, st). case probe_load (elem p i) st of (v, st) \<Rightarrow> (if v \<noteq> 0xa5a50000 + i then False else ok, st))"

lemma word_back_parts:
  "fst (word_back p i s) \<longleftrightarrow> fst s \<and> ld32 (ps_mem (snd s)) (elem p i) = 0xa5a50000 + i"
  "ps_mem (snd (word_back p i s)) = ps_mem (snd s)" "ps_failures (snd (word_back p i s)) = ps_failures (snd s)"
  "length (ps_loads (snd (word_back p i s))) = Suc (length (ps_loads (snd s)))"
  by (simp_all add: word_back_def split_beta)

lemma words_back_parts [simp]:
  "fst (words_back p st) \<longleftrightarrow> (\<forall>i<64. ld32 (ps_mem st) (elem p (of_nat i)) = 0xa5a50000 + of_nat i)"
  "ps_mem (snd (words_back p st)) = ps_mem st" "ps_failures (snd (words_back p st)) = ps_failures st"
  "length (ps_loads (snd (words_back p st))) = length (ps_loads st) + 64"
proof -
  have "(fst (fold (\<lambda>i. word_back p (of_nat i)) [0..<k] (True, st))
        \<longleftrightarrow> (\<forall>i<k. ld32 (ps_mem st) (elem p (of_nat i)) = 0xa5a50000 + of_nat i))
      \<and> ps_mem (snd (fold (\<lambda>i. word_back p (of_nat i)) [0..<k] (True, st))) = ps_mem st
      \<and> ps_failures (snd (fold (\<lambda>i. word_back p (of_nat i)) [0..<k] (True, st))) = ps_failures st
      \<and> length (ps_loads (snd (fold (\<lambda>i. word_back p (of_nat i)) [0..<k] (True, st)))) = length (ps_loads st) + k" for k
    by (induction k) (auto simp: word_back_parts less_Suc_eq)
  from this [of 64] show "fst (words_back p st) \<longleftrightarrow> (\<forall>i<64. ld32 (ps_mem st) (elem p (of_nat i)) = 0xa5a50000 + of_nat i)"
    "ps_mem (snd (words_back p st)) = ps_mem st" "ps_failures (snd (words_back p st)) = ps_failures st"
    "length (ps_loads (snd (words_back p st))) = length (ps_loads st) + 64"
    by (simp_all add: words_back_def for_u32_zero word_back_def [abs_def])
qed

section \<open>What the exit code says\<close>

text \<open>A cluster has published what it should: all its cores, no trap, and both figures in their ranges.\<close>

definition probe_good :: "cluster_cfg \<Rightarrow> mem \<Rightarrow> bool" where
  "probe_good cfg m \<longleftrightarrow>
     (let mbox = hes_mailbox_at (my_tcdm cfg); probe = mbox_field mbox ''probe''
      in ld32 m (elem probe PROBE_ALIVE) = push_bit (unat (my_nb_core cfg)) 1 - 1 \<and> ld32 m (mbox_field mbox ''trap_cause'') = 0
       \<and> EXPECT_CLUSTER_TCDM_LO \<le> ld32 m (elem probe PROBE_TCDM) \<and> ld32 m (elem probe PROBE_TCDM) \<le> EXPECT_CLUSTER_TCDM_HI
       \<and> EXPECT_CLUSTER_HBM_LO \<le> ld32 m (elem probe PROBE_HBM) \<and> ld32 m (elem probe PROBE_HBM) \<le> EXPECT_CLUSTER_HBM_HI)"

text \<open>None of the first \<open>n\<close> loads wraps the 32-bit counter.\<close>

definition no_wrap :: "nat \<Rightarrow> cycle_counter \<Rightarrow> bool" where
  "no_wrap n rc \<longleftrightarrow> (\<forall>loads a. length loads < n \<longrightarrow> rc loads \<le> rc (loads @ [a]))"

definition scratch_of :: "cluster_cfg \<Rightarrow> u32" where
  "scratch_of cfg = my_tcdm cfg + HES_MAILBOX_SIZE + 0x4000"

lemma section_effect:
  assumes "no_wrap n rc" and "length (ps_loads st) + 197 \<le> n" and "st' = cluster_section junk polls rc name (my_tcdm cfg) (my_periph cfg) (my_nb_core cfg) st"
  shows "\<exists>k. k \<le> 5 \<and> ps_failures st' = ps_failures st + of_nat k \<and> (k = 0 \<longleftrightarrow> sees_magic polls max_spins 0 \<and> probe_good cfg (ps_mem st))"
    and "x \<notin> span (scratch_of cfg) 4096 \<Longrightarrow> ps_mem st' x = ps_mem st x"
    and "length (ps_loads st') \<le> length (ps_loads st) + 197"
proof -
  let ?b = "hes_mailbox_at (my_tcdm cfg)"
  let ?p = "mbox_field ?b ''probe''" and ?m = "ps_mem st"
  have w: "rc loads \<le> rc (loads @ [a])" if "length loads < length (ps_loads st) + 197" for loads a
    using assms(1,2) that by (simp add: no_wrap_def)
  show "length (ps_loads st') \<le> length (ps_loads st) + 197"
    unfolding assms(3) cluster_section_def Let_def wait_for_cluster_def by (simp add: split_beta)
  define one :: "bool \<Rightarrow> nat" where "one ok = (if ok then 0 else 1)" for ok
  have one_True: "one True = 0" by (simp add: one_def)
  have one32: "(if ok then 0 else 1 :: u32) = of_nat (one ok)" for ok by (simp add: one_def)
  define k where "k = one (ld32 ?m (elem ?p PROBE_ALIVE) = push_bit (unat (my_nb_core cfg)) 1 - 1) + one (ld32 ?m (mbox_field ?b ''trap_cause'') = 0)
    + one (EXPECT_CLUSTER_TCDM_LO \<le> ld32 ?m (elem ?p PROBE_TCDM) \<and> ld32 ?m (elem ?p PROBE_TCDM) \<le> EXPECT_CLUSTER_TCDM_HI)
    + one (EXPECT_CLUSTER_HBM_LO \<le> ld32 ?m (elem ?p PROBE_HBM) \<and> ld32 ?m (elem ?p PROBE_HBM) \<le> EXPECT_CLUSTER_HBM_HI)"
  have k: "k \<le> 5" "k = 0 \<longleftrightarrow> probe_good cfg ?m" by (auto simp: k_def one_def probe_good_def Let_def)
  show "\<exists>k. k \<le> 5 \<and> ps_failures st' = ps_failures st + of_nat k \<and> (k = 0 \<longleftrightarrow> sees_magic polls max_spins 0 \<and> probe_good cfg (ps_mem st))"
  proof (cases "sees_magic polls max_spins 0")
    case True
    have "ps_failures st' = ps_failures st + of_nat k"
      unfolding assms(3) cluster_section_def Let_def wait_for_cluster_def k_def
      using True by (simp add: split_beta w word_written one32 one_True add.assoc)
    then show ?thesis using k True by blast
  next
    case False
    have "ps_failures st' = ps_failures st + of_nat 1"
      unfolding assms(3) cluster_section_def Let_def wait_for_cluster_def using False by (simp add: split_beta)
    then show ?thesis using False by (intro exI [of _ 1]) simp
  qed
  show "ps_mem st' x = ps_mem st x" if "x \<notin> span (scratch_of cfg) 4096"
  proof -
    have "x \<notin> span (scratch_of cfg) (4 * 64)" using that span_mono [of "4 * 64" 4096] by auto
    then have "write_words (scratch_of cfg) m x = m x" for m
      unfolding write_words_outs by (intro outs_outside [where n = 64]) auto
    moreover have "hes_chain_init (scratch_of cfg) SMALL_SLOTS STRIDE_SLOTS m x = m x" for m
      using that by (intro chain_init_outside) (simp_all add: STRIDE_SLOTS_def SMALL_SLOTS_def)
    ultimately show ?thesis
      unfolding assms(3) cluster_section_def Let_def wait_for_cluster_def by (simp add: split_beta scratch_of_def)
  qed
qed

lemma probe_good_cong:
  assumes "\<And>x. x \<in> span (my_tcdm cfg) sizeof_mailbox \<Longrightarrow> m' x = m x"
  shows "probe_good cfg m' = probe_good cfg m"
proof -
  have at: "hes_mailbox_at (my_tcdm cfg) = my_tcdm cfg" by (simp add: hes_mailbox_at_def HES_MAILBOX_OFFSET_def)
  have f: "ld32 m' (elem (my_tcdm cfg) i) = ld32 m (elem (my_tcdm cfg) i)" if "i < 44" for i
    by (rule ld32_cong) (use assms field_in [OF that, of "my_tcdm cfg"] in blast)
  have t: "mbox_field (my_tcdm cfg) ''trap_cause'' = elem (my_tcdm cfg) 7"
    by (simp add: mbox_field_def mbox_layout_def elem_def)
  show ?thesis by (simp add: probe_good_def Let_def at t mbox_fields f)
qed

lemma L1_figure:
  assumes "costs rc {chain + 4 * of_nat e |e. e < 1024} lo hi" and "unat hi < 1000000"
  shows "lo \<le> fst (hes_chain_walk chain 256 rc (hes_chain_init chain 1024 32 m) h) div 256
    \<and> fst (hes_chain_walk chain 256 rc (hes_chain_init chain 1024 32 m) h) div 256 \<le> hi"
proof -
  let ?A = "map (slot chain 32 32) [0..<256]"
  have w: "hes_chain_walk chain 256 rc (hes_chain_init chain 1024 32 m) h = (rc (h @ ?A) - rc h, h @ ?A)"
    using chain_walk_laps [of 32 1024 chain 256 rc m h] by (simp add: Let_def)
  have "set ?A \<subseteq> {chain + 4 * of_nat e |e. e < 1024}" using slot_elem [of 32 1024 chain] by auto
  from costs_add_up [OF assms(1) this, of h] assms(2)
  have t: "256 * unat lo \<le> unat (rc (h @ ?A) - rc h)" "unat (rc (h @ ?A) - rc h) \<le> 256 * unat hi" by simp_all
  show ?thesis unfolding w fst_conv word_le_nat_alt unat_div by (simp add: average_between [OF t])
qed

text \<open>
  The verdict of the probe. On a machine whose first-level cache answers the host within its range, and
  in a run that does not wrap the 32-bit cycle counter, the program exits with 0 exactly when each of
  the two clusters shows its magic number within the polls and has published that all its cores
  are up, that none trapped, and a latency in range for its scratchpad and for main memory: nothing
  the probe itself writes disturbs what it checks, and no failure is counted twice into a zero.
\<close>

theorem mesh_probe_verdict:
  assumes "no_wrap 40000 rc" and "costs rc {small_chain + 4 * of_nat e |e. e < 1024} EXPECT_HOST_L1_LO EXPECT_HOST_L1_HI"
    and "\<And>c. span small_chain 4096 \<inter> span (my_tcdm (hes_my c)) sizeof_mailbox = {}" and "ps_failures st = 0" and "ps_loads st = []"
  shows "snd (mesh_probe junk polls rc small_chain st) = 0
    \<longleftrightarrow> (\<forall>c. sees_magic (polls c) max_spins 0 \<and> probe_good (hes_my c) (ps_mem st))"
proof -
  let ?steps = "SMALL_SLOTS div STRIDE_SLOTS"
  define s1 where "s1 = host_init small_chain SMALL_SLOTS
    (probe_print ''\<newline>host (CVA6):\<newline>'' (probe_print ''[HES-PROBE] hetero_soc memory system\<newline>'' st))"
  define s2 where "s2 = snd (host_walk small_chain (?steps * 4) rc s1)"
  define c where "c = fst (host_walk small_chain (?steps * 8) rc s2)"
  define s3 where "s3 = host_report junk ''host -> L1 D$ hit'' (c div (?steps * 8)) EXPECT_HOST_L1_LO EXPECT_HOST_L1_HI
    (snd (host_walk small_chain (?steps * 8) rc s2))"
  define s4 where "s4 = host_init HES_HOST_SCRATCH BIG_SLOTS s3"
  define w where "w = host_walk HES_HOST_SCRATCH (BIG_SLOTS div STRIDE_SLOTS) rc s4"
  define s5 where "s5 = observe junk ''host -> main memory'' (fst w div (BIG_SLOTS div STRIDE_SLOTS))
    ''the CVA6 model does not stall a dependent load on a D$ miss; cva6_real and cva6_ideal agree to the cycle here'' (snd w)"
  define s6 where "s6 = cluster_section junk (polls HES_CLUSTER_SNITCH) rc ''snitch'' (my_tcdm snitch_cfg) (my_periph snitch_cfg) (my_nb_core snitch_cfg) s5"
  define s7 where "s7 = cluster_section junk (polls HES_CLUSTER_SPATZ) rc ''spatz'' (my_tcdm spatz_cfg) (my_periph spatz_cfg) (my_nb_core spatz_cfg) s6"
  have code: "snd (mesh_probe junk polls rc small_chain st) = (if ps_failures s7 = 0 then 0 else 1)"
    by (simp add: mesh_probe_def Let_def split_beta s1_def s2_def c_def s3_def s4_def w_def s5_def s6_def s7_def)
  have nums: "SMALL_SLOTS = 1024" "STRIDE_SLOTS = 32" "?steps * 8 = 256" by (simp_all add: SMALL_SLOTS_def STRIDE_SLOTS_def)
  have m1: "ps_mem s2 = hes_chain_init small_chain 1024 32 (ps_mem st)" by (simp add: s2_def s1_def nums)
  have "EXPECT_HOST_L1_LO \<le> c div 256 \<and> c div 256 \<le> EXPECT_HOST_L1_HI"
    using L1_figure [OF assms(2), of "ps_mem st" "ps_loads s2"]
    by (simp add: c_def nums host_walk_def m1 split_beta EXPECT_HOST_L1_HI_def)
  then have f: "ps_failures s5 = 0" using assms(4) by (simp add: s5_def w_def s4_def s3_def nums) (simp add: s2_def s1_def)
  have "unat BIG_SLOTS = 1048576" "unat (BIG_SLOTS div STRIDE_SLOTS) = 32768" by (simp_all add: BIG_SLOTS_def STRIDE_SLOTS_def)
  then have l5: "length (ps_loads s5) = 33152" using assms(5)
    by (simp add: s5_def w_def s4_def s3_def nums) (simp add: s2_def s1_def nums SMALL_SLOTS_def STRIDE_SLOTS_def)
  have l5': "length (ps_loads s5) + 197 \<le> 40000" by (simp add: l5)
  have l6: "length (ps_loads s6) + 197 \<le> 40000" using section_effect(3) [OF assms(1) l5' s6_def] by (simp add: l5)
  have m5: "ps_mem s5 = hes_chain_init HES_HOST_SCRATCH BIG_SLOTS 32 (hes_chain_init small_chain 1024 32 (ps_mem st))"
    by (simp add: s5_def w_def s4_def s3_def nums m1)
  note big = hes_const sizeof_mailbox_def mbox_layout_def
  have sep: "span HES_HOST_SCRATCH (4 * unat BIG_SLOTS) \<inter> span (my_tcdm (hes_my c)) sizeof_mailbox = {}" for c
    by (rule span_disjoint; cases c) (simp_all add: big BIG_SLOTS_def)
  have g5: "probe_good (hes_my c) (ps_mem s5) = probe_good (hes_my c) (ps_mem st)" for c
    by (rule probe_good_cong, unfold m5, subst chain_init_outside)
      (use sep [of c] assms(3) [of c] in \<open>auto intro!: chain_init_outside\<close>)
  have sc: "span (scratch_of snitch_cfg) 4096 \<inter> span (my_tcdm spatz_cfg) sizeof_mailbox = {}"
    by (rule span_disjoint) (simp_all add: scratch_of_def big)
  have g6: "probe_good spatz_cfg (ps_mem s6) = probe_good spatz_cfg (ps_mem s5)"
    by (rule probe_good_cong, rule section_effect(2) [OF assms(1) l5' s6_def]) (use sc in auto)
  obtain k where k: "k \<le> 5" "ps_failures s6 = of_nat k" "k = 0 \<longleftrightarrow> sees_magic (polls HES_CLUSTER_SNITCH) max_spins 0 \<and> probe_good snitch_cfg (ps_mem s5)"
    using section_effect(1) [OF assms(1) l5' s6_def] f by force
  obtain k' where k': "k' \<le> 5" "ps_failures s7 = of_nat k + of_nat k'" "k' = 0 \<longleftrightarrow> sees_magic (polls HES_CLUSTER_SPATZ) max_spins 0 \<and> probe_good spatz_cfg (ps_mem s6)"
    using section_effect(1) [OF assms(1) l6 s7_def] k(2) by force
  have "unat (of_nat (k + k') :: u32) = k + k'" using k(1) k'(1) by (intro unat_of_nat_small) linarith
  then have "ps_failures s7 = 0 \<longleftrightarrow> k = 0 \<and> k' = 0" using k'(2) by (simp add: word_unat_eq_iff)
  moreover have "(\<forall>c. P c) \<longleftrightarrow> P HES_CLUSTER_SNITCH \<and> P HES_CLUSTER_SPATZ" for P by (metis cluster.exhaust)
  ultimately show ?thesis using k(3) k'(3) g5 [of HES_CLUSTER_SNITCH] g5 [of HES_CLUSTER_SPATZ] g6 by (simp add: code)
qed

lemma seen_first: "0 < n \<Longrightarrow> polls t = HES_MBOX_MAGIC \<Longrightarrow> sees_magic polls n t"
  by (cases n) simp_all

text \<open>Both clusters have published 2 cycles for their scratchpads and 150 for main memory; every load takes the host 5.\<close>

definition published_figures :: mem where
  "published_figures = fold (\<lambda>(a, v) m. st32 m a v)
     [(0x10000070, 0x1ff), (0x10000074, 2), (0x10000078, 150), (0x00100070, 0x1ff), (0x00100074, 2), (0x00100078, 150)] (\<lambda>_. 0)"

definition five_cycles :: cycle_counter where
  "five_cycles loads = 5 * of_nat (length loads)"

theorem mesh_probe_verdict_witness:
  "snd (mesh_probe [] (\<lambda>_ _. HES_MBOX_MAGIC) five_cycles 0x80010000
     \<lparr>ps_mem = published_figures, ps_loads = [], ps_out = '''', ps_failures = 0\<rparr>) = 0"
proof -
  have n: "no_wrap 40000 five_cycles"
    unfolding no_wrap_def
  proof (intro allI impI)
    fix loads :: "u32 list" and a assume l: "length loads < 40000"
    have "unat (of_nat (5 * k) :: u32) = 5 * k" if "k \<le> 40000" for k using that by (intro unat_of_nat_small) linarith
    from this [of "length loads"] this [of "Suc (length loads)"] l
    show "five_cycles loads \<le> five_cycles (loads @ [a])"
      unfolding word_le_nat_alt five_cycles_def by (simp add: distrib_left)
  qed
  have c: "costs five_cycles {0x80010000 + 4 * of_nat e |e. e < 1024} EXPECT_HOST_L1_LO EXPECT_HOST_L1_HI"
    by (simp add: costs_def five_cycles_def distrib_left EXPECT_HOST_L1_LO_def EXPECT_HOST_L1_HI_def)
  have s: "span 0x80010000 4096 \<inter> span (my_tcdm (hes_my c)) sizeof_mailbox = {}" for c
    by (rule span_disjoint; cases c) (simp_all add: hes_const sizeof_mailbox_def mbox_layout_def)
  have "probe_good snitch_cfg published_figures" "probe_good spatz_cfg published_figures" by code_simp+
  then have g: "probe_good (hes_my c) published_figures" for c by (cases c) simp_all
  have m: "sees_magic (\<lambda>_. HES_MBOX_MAGIC) max_spins 0" using seen_first [of max_spins "\<lambda>_. HES_MBOX_MAGIC" 0] by (simp add: max_spins_def)
  show ?thesis using mesh_probe_verdict [OF n c s, where polls = "\<lambda>_ _. HES_MBOX_MAGIC" and junk = "[]"
        and st = "\<lparr>ps_mem = published_figures, ps_loads = [], ps_out = '''', ps_failures = 0\<rparr>"] g m by simp
qed

end
