(* ===== verification/HostSession.thy ===== *)
theory HostSession
  imports HostDriver
begin

text \<open>
  The driver over a whole run of a program, after \<open>hes_engine_init\<close>: any sequence of the calls of
  \<open>runtime/mesh/hes_host.h\<close>, to any engine, in any order, refused ones and waits that give up
  included. The wrappers \<open>hes_offload_*\<close> are \<open>Checked\<close> at their kernels.
\<close>

section \<open>Calls\<close>

datatype driver_call =
    Post u32 u32 "u32 list" u32 u32
  | Wait "nat \<Rightarrow> mailbox" u32
  | Offload "nat \<Rightarrow> mailbox" u32 u32 "u32 list" u32 u32
  | Check u32 string hes_result
  | Checked "nat \<Rightarrow> mailbox" u32 string u32 "u32 list" nat
  | Set_sample u32 u32
  | Node_end u32 u32 string u32 u32

fun run_call :: "driver_call \<Rightarrow> host \<Rightarrow> host" where
  "run_call (Post e knl args nargs flags) h = snd (hes_post e knl args nargs flags h)"
| "run_call (Wait view e) h = snd (hes_wait view e h)"
| "run_call (Offload view e knl args nargs flags) h = snd (hes_offload view e knl args nargs flags h)"
| "run_call (Check e what r) h = snd (hes_check e what r h)"
| "run_call (Checked view e what knl args nargs) h = snd (check_offload view e what knl args nargs h)"
| "run_call (Set_sample idx tot) h = hes_set_sample idx tot h"
| "run_call (Node_end now idx op e t0) h = hes_node_end now idx op e t0 h"

text \<open>The argument array is at least as long as what is copied of it.\<close>

definition args_ok :: "u32 list \<Rightarrow> u32 \<Rightarrow> bool" where
  "args_ok args nargs \<longleftrightarrow> unat (min nargs HES_MAILBOX_MAX_ARGS) \<le> length args"

fun call_ok :: "driver_call \<Rightarrow> bool" where
  "call_ok (Post e knl args nargs flags) = args_ok args nargs"
| "call_ok (Offload view e knl args nargs flags) = args_ok args nargs"
| "call_ok (Checked view e what knl args nargs) = args_ok args (of_nat nargs)"
| "call_ok _ = True"

section \<open>What a run may change\<close>

text \<open>The fields of the descriptor that only the cluster writes.\<close>

definition cluster_part :: "mailbox \<Rightarrow> u32 list \<times> u32 list" where
  "cluster_part b = ([mb_magic b, mb_alive_mask b, mb_done_seq b, mb_cycles b, mb_trap_cause b, mb_nb_cores b,
     mb_staged b, mb_error b], mb_probe b)"

definition doorbell :: "u32 \<Rightarrow> u32 \<times> u32" where
  "doorbell e = (e_periph (engine_at e) + e_clint_set (engine_at e), push_bit (unat (e_ctrl_core (engine_at e))) 1)"

definition flags_ok :: "host \<Rightarrow> bool" where
  "flags_ok h \<longleftrightarrow> in_flight h ! 0 = 0 \<and> (\<forall>e. is_cluster e \<longrightarrow> in_flight h ! unat e = 0 \<or> in_flight h ! unat e = 1)"

text \<open>The doorbells rung, and what follows of the sequence numbers and the descriptors.\<close>

definition posted :: "host \<Rightarrow> host \<Rightarrow> u32 list \<Rightarrow> bool" where
  "posted h0 h bells \<longleftrightarrow> mmio h = mmio h0 @ map doorbell bells \<and> list_all is_cluster bells
     \<and> (\<forall>e. is_cluster e \<longrightarrow> next_seq h ! unat e = next_seq h0 ! unat e + of_nat (count_list bells e)
          \<and> (e \<in> set bells \<longrightarrow> mb_seq (mboxes h (mbox_addr e)) = next_seq h ! unat e))"

definition session :: "host \<Rightarrow> host \<Rightarrow> bool" where
  "session h0 h \<longleftrightarrow> host_wf h \<and> flags_ok h \<and> (\<exists>bells. posted h0 h bells)
     \<and> (\<forall>x. cluster_part (mboxes h x) = cluster_part (mboxes h0 x))
     \<and> (\<forall>x. x \<noteq> mbox_addr HES_ENGINE_SNITCH \<longrightarrow> x \<noteq> mbox_addr HES_ENGINE_SPATZ \<longrightarrow> mboxes h x = mboxes h0 x)"

lemma session_start: "host_wf h \<Longrightarrow> flags_ok h \<Longrightarrow> session h h"
  unfolding session_def posted_def by (auto intro!: exI [of _ "[]"])

text \<open>A step that leaves mailboxes, doorbells and sequence numbers alone.\<close>

lemma session_same:
  assumes "session h0 h" and "host_wf h'" "flags_ok h'"
    and "mboxes h' = mboxes h" "mmio h' = mmio h" "next_seq h' = next_seq h"
  shows "session h0 h'"
  using assms unfolding session_def posted_def by simp

lemma quiet_wf: "quiet h' = quiet h \<Longrightarrow> host_wf h' = host_wf h \<and> flags_ok h' = flags_ok h"
  using quiet_sel [of h' h] unfolding host_wf_def flags_ok_def by simp

lemma session_quiet:
  assumes "session h0 h" and "quiet h' = quiet h"
  shows "session h0 h'"
  using assms quiet_wf [OF assms(2)] quiet_sel [OF assms(2)] by (intro session_same [OF assms(1)]) (auto simp: session_def)

lemma cluster_unat: "is_cluster e \<Longrightarrow> unat e = 1 \<or> unat e = 2"
  by (auto simp: is_cluster_cases)

lemma cluster_unat_inj: "is_cluster e \<Longrightarrow> is_cluster f \<Longrightarrow> unat e = unat f \<longleftrightarrow> e = f"
  by (simp add: word_unat_eq_iff)

lemma mbox_addr_inj: "is_cluster e \<Longrightarrow> is_cluster f \<Longrightarrow> mbox_addr e = mbox_addr f \<longleftrightarrow> e = f"
  by (auto simp: is_cluster_cases mbox_addr_def hes_mailbox_at_def HES_MAILBOX_OFFSET_def engine_at_def engines_def
      snitch_cfg_def spatz_cfg_def)

lemma posted_mbox_owned: "cluster_part (posted_mbox e knl args nargs fl n b) = cluster_part b"
  "mb_seq (posted_mbox e knl args nargs fl n b) = n"
  by (simp_all add: cluster_part_def posted_mbox_def Let_def)

lemma posted_mbox_wf: "mbox_wf b \<Longrightarrow> args_ok args nargs \<Longrightarrow> mbox_wf (posted_mbox e knl args nargs fl n b)"
  by (auto simp: mbox_wf_def posted_mbox_def Let_def args_ok_def min_def word_le_nat_alt)

lemma session_post:
  assumes s: "session h0 h" and a: "args_ok args nargs"
  shows "session h0 (snd (hes_post e knl args nargs fl h))"
proof -
  obtain r h' where p: "hes_post e knl args nargs fl h = (r, h')" by (cases "hes_post e knl args nargs fl h")
  show ?thesis
  proof (cases "quiet h' = quiet h")
    case True
    then show ?thesis using session_quiet [OF s] p by simp
  next
    case False
    then have e: "is_cluster e" "in_flight h ! unat e = 0" using hes_post_cases [OF p] by auto
    let ?n = "next_seq h ! unat e + 1"
    have wf: "host_wf h" "flags_ok h" using s by (simp_all add: session_def)
    then have m: "mbox_wf (mboxes h (mbox_addr e))" by (simp add: host_wf_def)
    have h': "h' = h\<lparr>next_seq := (next_seq h)[unat e := ?n], in_flight := (in_flight h)[unat e := 1],
        mboxes := (mboxes h)(mbox_addr e := posted_mbox e knl args nargs fl ?n (mboxes h (mbox_addr e))),
        mmio := mmio h @ [doorbell e]\<rparr>"
      using hes_post_posts [OF e _ m, of nargs args knl fl] a p by (simp add: args_ok_def doorbell_def)
    have u: "unat e < 3" "unat e \<noteq> 0" using cluster_unat [OF e(1)] by auto
    obtain bells where b: "posted h0 h bells" using s by (auto simp: session_def)
    have "posted h0 h' (bells @ [e])"
      using b e(1) u wf(1) cluster_unat_inj [OF e(1)] mbox_addr_inj [OF e(1)] mbox_addr_inj [OF _ e(1)]
      by (auto simp: posted_def h' posted_mbox_owned host_wf_def nth_list_update)
    moreover have "host_wf h'" using wf(1) posted_mbox_wf [OF m a] by (simp add: host_wf_def h')
    moreover have "flags_ok h'"
      using wf u by (auto simp: flags_ok_def host_wf_def h' nth_list_update)
    moreover have "cluster_part (mboxes h' x) = cluster_part (mboxes h0 x)" for x
      using s by (simp add: session_def h' posted_mbox_owned)
    moreover have "mbox_addr e = mbox_addr HES_ENGINE_SNITCH \<or> mbox_addr e = mbox_addr HES_ENGINE_SPATZ"
      using e(1) by (auto simp: is_cluster_cases HES_ENGINE_SNITCH_def HES_ENGINE_SPATZ_def)
    then have "x \<noteq> mbox_addr HES_ENGINE_SNITCH \<longrightarrow> x \<noteq> mbox_addr HES_ENGINE_SPATZ \<longrightarrow> mboxes h' x = mboxes h0 x" for x
      using s by (auto simp: session_def h')
    ultimately show ?thesis using p unfolding session_def by auto
  qed
qed

lemma session_wait:
  assumes s: "session h0 h"
  shows "session h0 (snd (hes_wait view e h))"
proof -
  obtain r h' where w: "hes_wait view e h = (r, h')" by (cases "hes_wait view e h")
  have wf: "host_wf h" "flags_ok h" using s by (simp_all add: session_def)
  have upd: "session h0 (h\<lparr>in_flight := (in_flight h)[unat e := 0], busy_cycles := bs\<rparr>)"
    if "is_cluster e" "length bs = 3" for bs
  proof (rule session_same [OF s])
    show "flags_ok (h\<lparr>in_flight := (in_flight h)[unat e := 0], busy_cycles := bs\<rparr>)"
      unfolding flags_ok_def
    proof (intro conjI allI impI)
      fix f assume f: "is_cluster f"
      then have "in_flight h ! unat f = 0 \<or> in_flight h ! unat f = 1" "unat f < 3" "unat e < 3"
        using wf(2) cluster_unat [OF f] cluster_unat [OF that(1)] by (auto simp: flags_ok_def)
      then show "in_flight (h\<lparr>in_flight := (in_flight h)[unat e := 0], busy_cycles := bs\<rparr>) ! unat f = 0
          \<or> in_flight (h\<lparr>in_flight := (in_flight h)[unat e := 0], busy_cycles := bs\<rparr>) ! unat f = 1"
        using wf(1) by (auto simp: nth_list_update host_wf_def)
    qed (use wf cluster_unat [OF that(1)] in \<open>auto simp: flags_ok_def\<close>)
  qed (use wf that in \<open>simp_all add: host_wf_def\<close>)
  have b: "length (busy_cycles h) = 3" using wf(1) by (simp add: host_wf_def)
  have "\<exists>g. session h0 g \<and> quiet h' = quiet g"
  proof -
    let ?free = "\<lambda>bs. h\<lparr>in_flight := (in_flight h)[unat e := 0], busy_cycles := bs\<rparr>"
    consider (found) j g where "is_cluster e" "hes_wait view e h = (collect view (j + 2), g)"
        "quiet g = quiet (?free ((busy_cycles h)[unat e := busy_cycles h ! unat e + r_cycles (collect view (j + 2))]))"
      | (up) g where "is_cluster e" "hes_wait view e h = (no_result, g)" "quiet g = quiet (h\<lparr>in_flight := (in_flight h)[unat e := 0]\<rparr>)"
      | (none) "hes_wait view e h = (no_result, h)"
      using hes_wait_cases [of e h view] by blast
    then show ?thesis
    proof cases
      case found
      then show ?thesis
        using upd [of "(busy_cycles h)[unat e := busy_cycles h ! unat e + r_cycles (collect view (j + 2))]"] b w by auto
    next
      case up
      then show ?thesis using upd [of "busy_cycles h"] b w by auto
    next
      case none
      then show ?thesis using s w by auto
    qed
  qed
  then show ?thesis using session_quiet w by auto
qed

lemma session_check:
  assumes "session h0 h"
  shows "session h0 (snd (hes_check e what r h))"
proof -
  obtain v h' where c: "hes_check e what r h = (v, h')" by (cases "hes_check e what r h")
  have g: "session h0 (h\<lparr>failure_count := n\<rparr>)" for n
    by (rule session_same [OF assms]) (use assms in \<open>simp_all add: session_def host_wf_def flags_ok_def\<close>)
  show ?thesis using hes_check_result [OF c] session_quiet [OF g] assms c by auto
qed

lemma session_offload:
  assumes "session h0 h" and "args_ok args nargs"
  shows "session h0 (snd (hes_offload view e knl args nargs flags h))"
  using session_post [OF assms, of e knl flags] session_wait
  by (auto simp: hes_offload_def split: prod.splits)

lemma session_say: "session h0 h \<Longrightarrow> quiet h' = quiet (h\<lparr>sample_idx := i, sample_total := t\<rparr>) \<Longrightarrow> session h0 h'"
proof (rule session_quiet)
  assume "session h0 h"
  then show "session h0 (h\<lparr>sample_idx := i, sample_total := t\<rparr>)"
    by (rule session_same) (use \<open>session h0 h\<close> in \<open>simp_all add: session_def host_wf_def flags_ok_def\<close>)
qed

text \<open>Every call keeps the typing of the state, whatever its arguments and whatever the mailbox shows it.\<close>

lemma session_call:
  assumes s: "session h0 h" and "call_ok c"
  shows "session h0 (run_call c h)"
proof (cases c)
  case (Post e knl args nargs flags)
  then show ?thesis using session_post [OF s] assms(2) by simp
next
  case (Wait view e)
  then show ?thesis using session_wait [OF s] by simp
next
  case (Offload view e knl args nargs flags)
  then show ?thesis using session_offload [OF s] assms(2) by simp
next
  case (Check e what r)
  then show ?thesis using session_check [OF s] by simp
next
  case (Checked view e what knl args nargs)
  then show ?thesis using session_offload [OF s, of args "of_nat nargs" view e knl HES_JOB_STAGE] session_check assms(2)
    by (auto simp: check_offload_def split: prod.splits)
next
  case (Set_sample i t)
  then show ?thesis using session_say [OF s, where i = i and t = t] by (simp add: hes_set_sample_def)
next
  case (Node_end now i what e t0)
  then show ?thesis using session_quiet [OF s] by (simp add: hes_node_end_def Let_def)
qed

text \<open>
  C29. Every driver call is type-safe, in any sequence. Whatever calls a program makes, to whatever
  engine, refused posts and waits that give up included, and whatever the mailboxes show, the
  statics keep one entry per engine, the mailboxes their arrays, the host itself is never in
  flight and a cluster is or is not; the only registers written are cluster doorbells, and each
  cluster's sequence number has moved by exactly the doorbells rung for it and is the one in its
  descriptor; no other mailbox and none of the fields a cluster reports in is ever written.
\<close>

theorem driver_session:
  assumes "host_wf h0" and "flags_ok h0" and "list_all call_ok calls"
  shows "session h0 (fold run_call calls h0)"
  using assms(3)
proof (induction calls rule: rev_induct)
  case Nil
  then show ?case using session_start [OF assms(1,2)] by simp
next
  case (snoc c calls)
  then show ?case using session_call by simp
qed

text \<open>A post, a second one that is refused, a wait that is answered, one that has nothing to wait for, and an offload to nowhere.\<close>

theorem driver_session_witness:
  "session fresh_host (fold run_call
     [Post HES_ENGINE_SNITCH HES_K_MATMUL_FP32 [10, 20, 30, 1, 2, 3] 6 0, Post HES_ENGINE_SNITCH HES_K_GEMM_FP32 [] 0 0,
      Wait (\<lambda>_. fresh_mbox\<lparr>mb_done_seq := 1\<rparr>) HES_ENGINE_SNITCH, Wait (\<lambda>_. fresh_mbox) HES_ENGINE_SPATZ,
      Checked (\<lambda>_. fresh_mbox) 7 ''MatMul'' HES_K_MATMUL_FP32 [1, 2, 3, 4, 5, 6] 6] fresh_host)"
proof (rule driver_session [OF fresh_host_wf])
  show "flags_ok fresh_host" by (auto simp: flags_ok_def fresh_host_def is_cluster_cases)
qed (simp add: args_ok_def HES_MAILBOX_MAX_ARGS_def min_def)


end
