(* ===== verification/Libc.thy ===== *)
theory Libc
  imports Console
begin

text \<open>
  The rest of \<open>runtime/common/syscalls.c\<close>, the calls that have nothing behind them, and how a program
  ends: \<open>sh_exit\<close> of \<open>runtime/common/semihost.h\<close>, which stops the simulation by a trap or spins.
\<close>

section \<open>Calls that do nothing\<close>

definition S_IFCHR :: u32 where "S_IFCHR = 0x2000"
definition EINVAL :: int where "EINVAL = 22"

definition libc_read :: "int \<Rightarrow> char list \<Rightarrow> int \<Rightarrow> int \<times> char list" where
  "libc_read fd buf n = (0, buf)"

definition libc_close :: "int \<Rightarrow> int" where
  "libc_close fd = - 1"

record stat =
  st_mode :: u32

definition libc_fstat :: "int \<Rightarrow> 'a stat_scheme \<Rightarrow> int \<times> 'a stat_scheme" where
  "libc_fstat fd st = (0, st\<lparr>st_mode := S_IFCHR\<rparr>)"

definition libc_isatty :: "int \<Rightarrow> int" where
  "libc_isatty fd = 1"

definition libc_lseek :: "int \<Rightarrow> int \<Rightarrow> int \<Rightarrow> int" where
  "libc_lseek fd offset whence = 0"

definition libc_kill :: "int \<Rightarrow> int \<Rightarrow> int \<Rightarrow> int \<times> int" where
  "libc_kill pid sig errno = (- 1, EINVAL)"

definition libc_getpid :: int where
  "libc_getpid = 1"

section \<open>Semihosting\<close>

definition SEMIHOST_SYS_WRITEC :: int where "SEMIHOST_SYS_WRITEC = 0x03"
definition SEMIHOST_SYS_WRITE0 :: int where "SEMIHOST_SYS_WRITE0 = 0x04"
definition SEMIHOST_SYS_EXIT :: int where "SEMIHOST_SYS_EXIT = 0x18"
definition SEMIHOST_ADP_STOPPED_APPLICATION_EXIT :: int where "SEMIHOST_ADP_STOPPED_APPLICATION_EXIT = 0x20026"

text \<open>
  The simulator gets the operation and its argument; it either returns a value to the core, or
  stops with a status. What it does is not in the repository.
\<close>

datatype 's trapped = Returns int 's | Stops int

type_synonym 's simulator = "int \<Rightarrow> int \<Rightarrow> 's \<Rightarrow> 's trapped"

definition semihost_call :: "'s simulator \<Rightarrow> int \<Rightarrow> int \<Rightarrow> 's \<Rightarrow> 's trapped" where
  "semihost_call sim op arg s = sim op arg s"

text \<open>How a program ends: the simulation stops with a status, or the core spins for ever.\<close>

datatype 's ending = Ends int | Spins 's

definition sh_exit :: "'s simulator \<Rightarrow> int \<Rightarrow> 's \<Rightarrow> 's ending" where
  "sh_exit sim code s =
     (case semihost_call sim SEMIHOST_SYS_EXIT (if code = 0 then SEMIHOST_ADP_STOPPED_APPLICATION_EXIT else 0) s of
        Stops status \<Rightarrow> Ends status
      | Returns r s \<Rightarrow> Spins s)"

definition libc_exit :: "'s simulator \<Rightarrow> int \<Rightarrow> 's \<Rightarrow> 's ending" where
  "libc_exit sim code = sh_exit sim code"

text \<open>What the comment in \<open>sh_exit\<close> says of GVSoC.\<close>

definition maps_exit :: "'s simulator \<Rightarrow> bool" where
  "maps_exit sim \<longleftrightarrow> (\<forall>arg s. sim SEMIHOST_SYS_EXIT arg s = Stops (if arg = SEMIHOST_ADP_STOPPED_APPLICATION_EXIT then 0 else 1))"

text \<open>
  The status a test harness sees: under a simulator that maps the argument as the comment says, a
  program ends, with 0 when its code is 0 and with 1 for every other code, whatever its low byte.
\<close>

theorem exit_status:
  assumes "maps_exit sim"
  shows "libc_exit sim code s = Ends (if code = 0 then 0 else 1)"
  using assms by (simp add: libc_exit_def sh_exit_def semihost_call_def maps_exit_def SEMIHOST_ADP_STOPPED_APPLICATION_EXIT_def)

theorem exit_status_witness:
  "libc_exit (\<lambda>op arg s. if op = 0x18 then Stops (if arg = 0x20026 then 0 else 1) else Returns 0 s) 256 () = Ends 1"
  by (subst exit_status)
    (simp_all add: maps_exit_def SEMIHOST_SYS_EXIT_def SEMIHOST_ADP_STOPPED_APPLICATION_EXIT_def)

end
