(* ===== verification/Spec2Isabelle.thy ===== *)
theory Spec2Isabelle
  imports EndToEnd Doorbell Backdoor MfccFft MfccSsr SpatzGemm BenchMains SignIn Replay XCheck HostProbe HostSession Libc
begin

text \<open>
  A model of the heterogeneous many-core simulator's own code: the C runtime of host and
  clusters (\<open>src/runtime\<close>), and the memory system it runs on, the DRAM timing engine and the
  timing cache (\<open>src/targets/hetero\<close>, \<open>src/tools/dram\<close>). All definitions are translated from
  that source; the theorems are what makes it correct.

  \<^bold>\<open>The program.\<close> A CVA6 host hands jobs to two clusters: a Snitch cluster of eight compute cores
  and a DMA core, and a Spatz cluster. A job is a descriptor in a mailbox at the base of the
  cluster's scratchpad (TCDM): a kernel, its arguments, flags, a sequence number. The host fills
  it in, writes the sequence number and rings a doorbell (\<open>hes_post\<close>), then polls until
  \<open>done_seq\<close> is that number (\<open>hes_wait\<close>). The cluster's control core wakes, plans which buffers
  the job touches, reserves scratch memory, copies the inputs into TCDM, repoints the arguments,
  releases the compute cores from a barrier, collects them in another, copies the outputs back
  and publishes \<open>done_seq\<close>. Each compute core runs the kernel on its slice of the rows or
  filters; the Snitch kernels feed their floating-point loop from stream registers. Host
  programs chain such jobs into a benchmark, a digit recogniser and a keyword spotter. Every
  access to memory is timed by caches in front of a DRAM device.

  \<^bold>\<open>The theories, from the bottom.\<close>

  Shared.
  \<^item> \<open>Prelude\<close>: machine words, C's counting loop \<open>loop_u\<close>, rounding to a cache line, the
    collections of facts the components fill.
  \<^item> \<open>CMem\<close>: the shared 32-bit physical memory, a total map from byte addresses to bytes;
    little-endian loads and stores, spans, frames, and the locale \<open>mem_action\<close>: what it means to
    write only here and read only there. From the contract alone follow that independent actions
    commute, and that a list of them may run in any order.
  \<^item> \<open>HesSystem\<close>: \<open>hes_system.h\<close>, \<open>hes_cluster.h\<close>: the address map and each core's role.
  \<^item> \<open>Fpu\<close>: single precision as an abstract record of operations (\<open>fpu\<close>): no law of arithmetic
    is assumed, so what is proved of the kernels holds for every rounding.

  Jobs, in the cluster.
  \<^item> \<open>Mailbox\<close>: \<open>hes_mailbox.h\<close>, \<open>hes_job.h\<close>: the descriptor as a record and as bytes.
  \<^item> \<open>Dma\<close>: \<open>hes_dma.h\<close> against an engine that completes outstanding transfers in any order
    between two polls; waiting ends and leaves the memory of the program order.
  \<^item> \<open>ClusterRuntime\<close>: the functions of \<open>cluster_main.c\<close>, in its order. \<open>WorkSplit\<close>: the slices
    tile the work. \<open>Staging\<close>: planning, reserving, staging in and out.
  \<^item> \<open>SlicedJobs\<close>: a kernel spread over the cores; locale \<open>sliced_job\<close> (a job cut into slices
    that read what no slice writes), interpreted for the three kernels.
  \<^item> \<open>JobLoop\<close>: the loop of \<open>main\<close>, from doorbell to \<open>done_seq\<close>; locale \<open>staged_job\<close> extends
    \<open>sliced_job\<close> by what staging needs, interpreted for the three kernels. A staged job is a
    refinement of the scalar routine run on main memory.
  \<^item> \<open>SignIn\<close>: the start of \<open>main\<close>, an inductive step relation over the cores at boot.

  Jobs, from the host.
  \<^item> \<open>HostDriver\<close>: \<open>hes_host.c\<close>. The world between two reads of the mailbox is a parameter.
  \<^item> \<open>HostSession\<close>: any sequence of driver calls keeps the state well-formed.
  \<^item> \<open>Protocol\<close>: host and control core as an inductive relation of single shared-memory
    accesses in any interleaving; invariant, ownership of the descriptor, progress. \<open>Doorbell\<close>:
    the same over the interrupt registers of \<open>hes_cluster.h\<close>, a refinement.
  \<^item> \<open>EndToEnd\<close>: the driver over the job loop.
  \<^item> \<open>Apps\<close> (\<open>kws_main.c\<close>), \<open>BenchMains\<close> (\<open>host_main.c\<close>, \<open>mnist_main.c\<close>, \<open>bench_main.c\<close>): the
    host programs, over any generated network, and what their verdict lines mean.
  \<^item> \<open>Console\<close>: \<open>miniio.h\<close>, \<open>bench.h\<close>; locale \<open>number_printer\<close> for the two bases. \<open>Libc\<close>: the rest
    of \<open>syscalls.c\<close> and \<open>semihost.h\<close>, and how a program ends.
  \<^item> \<open>Probes\<close>: \<open>hes_probe.h\<close>, \<open>cluster_probe.c\<close>, \<open>memsys_expect.h\<close>: what a latency figure says.
    \<open>HostProbe\<close>: \<open>mesh_probe.c\<close>, the host program that checks them, and its exit code.

  Kernels.
  \<^item> \<open>Ssr\<close>: \<open>snitch_ssr.h\<close>: registers and address generators of the stream registers.
  \<^item> \<open>GemmKernel\<close>, \<open>ConvKernel\<close>: \<open>gemm_fp32_ssr.c\<close>, \<open>conv2d_fp32_ssr.c\<close> with the scalar
    routines of \<open>gemm_fp32.c\<close> and \<open>conv2d_fp32.c\<close> they replace: same memory, bit for bit.
  \<^item> \<open>SpatzGemm\<close>: \<open>gemm_fp32_rvv.c\<close>, for any lengths the vector unit grants.
  \<^item> \<open>Mfcc\<close>: \<open>mfcc.h\<close>, \<open>mfcc_fp32.c\<close>, \<open>mfcc_fp32_ssr.c\<close>. \<open>FftSpec\<close>: the radix-2 FFT away from
    memory. \<open>MfccFft\<close>: the in-place FFT of the front-end computes it. \<open>MfccSsr\<close>: the streamed
    front-end is the portable one but for the order in which a mel filter is summed.

  Memory system.
  \<^item> \<open>DramCore\<close>: the parameters, state and methods of \<open>dram_core.hpp\<close>. \<open>DramRefresh\<close>: the one-step
    skip of idle refreshes. \<open>DramLoops\<close>: its loops end. \<open>DramMap\<close>: the constructor and the address
    mapping. \<open>DramHistory\<close>: the JEDEC rules as a checker of a channel's history, and the
    invariant that ties the few numbers the engine keeps to it. \<open>DramEngine\<close>: the whole engine.
  \<^item> \<open>DramDevice\<close>: HyperBus, and \<open>dram.cpp\<close>'s request handler; locale \<open>memory_device\<close>,
    interpreted for both families.
  \<^item> \<open>TimingCache\<close>: \<open>timing_cache.cpp\<close> over any next level. \<open>CacheLru\<close>: its tag array as a list
    of lines per set under least-recently-used replacement. \<open>CacheLevel\<close>: locale \<open>memory_level\<close>; a
    cache over a level is a level, so the hierarchy is one. \<open>Backdoor\<close>: semihosting's way round
    the caches; locale \<open>debug_level\<close>; the memory system as one array of bytes, seen from both sides.
  \<^item> \<open>ParamsIo\<close>: \<open>params_io.hpp\<close>, the flat-JSON scanner and the loader of parameter files. \<open>Replay\<close>:
    \<open>dram_replay.cpp\<close>, from the command line to the summary. \<open>XCheck\<close>: the loop of
    \<open>ramulator_driver.cpp\<close> over any memory system.

  \<^bold>\<open>How code becomes definitions.\<close> A struct is a \<open>record\<close>, an enum a \<open>datatype\<close> or the source's
  numbers. C integers are words of their width and wrap; Python-like unbounded integers appear
  only for the picosecond clocks of the memory system, whose 64 bits last 100 days. Memory is
  threaded through. A fault of C++ (\<open>throw\<close>) is a \<open>None\<close> or an error value. A loop that may not
  end is a \<open>partial_function (option)\<close>, so that not returning is \<open>None\<close>: the polls, the DRAM
  loops, the JSON scanner; that they return is proved, or shown false. Other loops
  are recursion on a counter, and need no fuel.

  \<^bold>\<open>Bounds.\<close> Addresses of an operand do not wrap; the conditions \<open>matmul_ok\<close>, \<open>gemm_ok\<close>,
  \<open>conv_job_ok\<close> say this, and that the buffers are apart where C says \<open>restrict\<close> or the comment
  asks for it. The FFT has at most \<open>2 ^ 30\<close> points, so that its counters do not wrap. A wait
  polls at most \<open>200 * 65536\<close> times, the source's numbers. A cache line has at least two bytes:
  with one, the line loop \<open>a < last\<close> issues nothing. \<open>sane_timing\<close> asks that a refresh and an
  activation fit in the refresh interval; without it the engine does not return.

  \<^bold>\<open>Not modelled.\<close> Boot assembly and linker scripts; generated tables, which are parameters;
  trace output, printed statistics, power accounts and configuration plumbing of the
  simulator's components, which depend on a framework that is not in the repository;
  arithmetic in double precision, a parameter of the trace player, and the formatting of its
  summary; how the Ramulator2 driver parses its trace; the calibration and the kernel tests; how
  the latency probe's cluster image signs in, which is as \<open>cluster_main.c\<close> does. The memory behind
  the DRAM device, Ramulator2 and the simulator at a semihosting trap are met through contracts.
  The barrier and the wake-up of cores are instructions of the machine: the phases of the job
  loop stand for them there, and \<open>SignIn\<close> and \<open>Doorbell\<close> state when they let a core go on.
\<close>

end
